(* ===== verification/JobTypes.thy ===== *)
theory JobTypes
  imports Prelude
begin

text \<open>
  The data of the job system (\<open>panoptikon/src/jobs/queue.rs\<close>): job types, change
  summaries with their textual form, jobs, the models the API returns and the messages of
  the queue actor.  Job ids are \<open>i64\<close> counters that start at 0 and are only incremented:
  they are kept as \<open>int\<close>.  The variants and fields guarded by \<open>cfg(test)\<close> are not part
  of the program and are left out.
\<close>

section \<open>Job types and change summaries\<close>

datatype job_type =
    DataExtraction
  | DataDeletion
  | FolderRescan
  | FolderUpdate
  | JobDataDeletion
  | VectorQuantReconcile
  | DbMaintenance

record change_summary =
  wrote_data :: bool
  deleted_data :: bool
  tags_changed :: bool

definition default_summary :: change_summary where
  "default_summary = \<lparr>wrote_data = False, deleted_data = False, tags_changed = False\<rparr>"

definition is_empty :: "change_summary \<Rightarrow> bool" where
  "is_empty s \<longleftrightarrow> \<not> wrote_data s \<and> \<not> deleted_data s \<and> \<not> tags_changed s"

definition or_with :: "change_summary \<Rightarrow> change_summary \<Rightarrow> change_summary" where
  "or_with s other =
     \<lparr>wrote_data = (wrote_data s \<or> wrote_data other),
      deleted_data = (deleted_data s \<or> deleted_data other),
      tags_changed = (tags_changed s \<or> tags_changed other)\<rparr>"

definition to_metadata :: "change_summary \<Rightarrow> string" where
  "to_metadata s = join_with '',''
     ((if wrote_data s then [''wrote_data''] else []) @
      (if deleted_data s then [''deleted_data''] else []) @
      (if tags_changed s then [''tags_changed''] else []))"

definition read_flag :: "change_summary \<Rightarrow> string \<Rightarrow> change_summary" where
  "read_flag s flag =
     (if trim flag = ''wrote_data'' then s\<lparr>wrote_data := True\<rparr>
      else if trim flag = ''deleted_data'' then s\<lparr>deleted_data := True\<rparr>
      else if trim flag = ''tags_changed'' then s\<lparr>tags_changed := True\<rparr>
      else s)"

definition from_metadata :: "string option \<Rightarrow> change_summary" where
  "from_metadata m =
     foldl read_flag default_summary
       (split_on (CHR '','') (case m of None \<Rightarrow> [] | Some t \<Rightarrow> t))"

definition all_summary :: change_summary where
  "all_summary = \<lparr>wrote_data = True, deleted_data = True, tags_changed = True\<rparr>"

section \<open>Jobs, requests and results\<close>

record job =
  queue_id :: int
  job_type :: job_type
  index_db :: string
  user_data_db :: string
  metadata :: "string option"
  batch_size :: "int option"
  threshold :: "f64 option"
  log_id :: "int option"
  tag :: "string option"

record job_model =
  m_queue_id :: int
  m_job_type :: job_type
  m_index_db :: string
  m_metadata :: "string option"
  m_batch_size :: "int option"
  m_threshold :: "f64 option"
  m_log_id :: "int option"
  m_running :: bool
  m_tag :: "string option"

record job_request =
  r_job_type :: job_type
  r_index_db :: string
  r_user_data_db :: string
  r_metadata :: "string option"
  r_batch_size :: "int option"
  r_threshold :: "f64 option"
  r_log_id :: "int option"
  r_tag :: "string option"

datatype job_outcome_status = Completed | Failed | Cancelled

record job_outcome_model =
  o_queue_id :: int
  o_status :: job_outcome_status
  o_error :: "string option"

record queue_status_model =
  qs_queue :: "job_model list"
  qs_outcomes :: "job_outcome_model list"

record job_success =
  js_summary :: change_summary
  js_loaded_model :: "string option"

record job_run_result =
  success :: bool
  error :: "string option"
  summary :: "change_summary option"
  loaded_model :: "string option"

definition failed_result :: "string \<Rightarrow> job_run_result" where
  "failed_result e = \<lparr>success = False, error = Some e, summary = None, loaded_model = None\<rparr>"

definition from_summary :: "change_summary \<Rightarrow> job_success" where
  "from_summary s = \<lparr>js_summary = s, js_loaded_model = None\<rparr>"

record batch_dedup =
  d_tag :: string
  d_index_db :: string

record batch_enqueue_result =
  enqueued :: "job_model list"
  skipped_dbs :: "string list"

definition was_skipped :: "batch_enqueue_result \<Rightarrow> string \<Rightarrow> bool" where
  "was_skipped r db \<longleftrightarrow> list_ex (\<lambda>d. d = db) (skipped_dbs r)"

definition from_job :: "job \<Rightarrow> bool \<Rightarrow> job_model" where
  "from_job j running =
     \<lparr>m_queue_id = queue_id j, m_job_type = job_type j, m_index_db = index_db j,
      m_metadata = metadata j, m_batch_size = batch_size j, m_threshold = threshold j,
      m_log_id = log_id j, m_running = running, m_tag = tag j\<rparr>"

section \<open>Messages and replies of the queue actor\<close>

text \<open>\<open>ApiError::internal\<close> is the only error the queue produces itself.\<close>

datatype api_error = Internal string

datatype job_queue_message =
    Enqueue job_request
  | EnqueueBatch "job_request list" "batch_dedup list"
  | EnqueueMaintenance string string
  | GetQueueStatus
  | CancelQueued "int list" bool
  | CancelRunning bool
  | RunnerFinished int job_run_result
  | RecordOwed string change_summary
  | Shutdown

datatype queue_reply =
    ReplyEnqueue "api_error + job_model"
  | ReplyBatch "api_error + batch_enqueue_result"
  | ReplyMaintenance "api_error + job_model option"
  | ReplyStatus queue_status_model
  | ReplyCancelQueued "int list"
  | ReplyCancelRunning "int option"
  | ReplyShutdown "int option"
  | NoReply

section \<open>Change summaries form a join semilattice, and their text round-trips\<close>

lemma summary_cases:
  "(s :: change_summary) = \<lparr>wrote_data = wrote_data s, deleted_data = deleted_data s,
     tags_changed = tags_changed s\<rparr>"
  by simp

lemma is_empty_default [simp]: "is_empty default_summary"
  by (simp add: is_empty_def default_summary_def)

lemma is_empty_all [simp]: "\<not> is_empty all_summary"
  by (simp add: is_empty_def all_summary_def)

lemma is_empty_or_with [simp]: "is_empty (or_with s t) \<longleftrightarrow> is_empty s \<and> is_empty t"
  by (auto simp: is_empty_def or_with_def)

lemma or_with_default [simp]: "or_with default_summary s = s"
  by (simp add: or_with_def default_summary_def)

lemma or_with_assoc: "or_with (or_with s t) u = or_with s (or_with t u)"
  by (simp add: or_with_def disj_assoc)

lemma or_with_commute: "or_with s t = or_with t s"
  by (auto simp: or_with_def)

lemma or_with_flags [simp]:
  "wrote_data (or_with s t) \<longleftrightarrow> wrote_data s \<or> wrote_data t"
  "deleted_data (or_with s t) \<longleftrightarrow> deleted_data s \<or> deleted_data t"
  "tags_changed (or_with s t) \<longleftrightarrow> tags_changed s \<or> tags_changed t"
  by (simp_all add: or_with_def)

lemma all_summary_flags [simp]:
  "wrote_data all_summary" "deleted_data all_summary" "tags_changed all_summary"
  by (simp_all add: all_summary_def)

lemma flag_pieces:
  assumes "fs \<noteq> []" and "\<forall>f \<in> set fs. c \<notin> set f"
  shows "split_on c (join_with [c] fs) = fs"
  using assms
proof (induction "[c]" fs rule: join_with.induct)
  case 1
  then show ?case by simp
next
  case (2 x)
  then show ?case by (simp add: split_on_no_sep)
next
  case (3 x y xs)
  then show ?case by (simp add: split_on_append_sep)
qed

lemma metadata_roundtrip: "from_metadata (Some (to_metadata s)) = s"
proof -
  obtain w d t where s: "s = \<lparr>wrote_data = w, deleted_data = d, tags_changed = t\<rparr>"
    by (cases s) auto
  show ?thesis
    unfolding s
    by (cases w; cases d; cases t)
      (simp_all add: from_metadata_def to_metadata_def read_flag_def default_summary_def
        trim_def is_ws_def)
qed

end
