(* ===== verification/JobQueue.thy ===== *)
theory JobQueue
  imports JobTypes
begin

text \<open>
  The job queue actor of \<open>panoptikon/src/jobs/queue.rs\<close>: its state, its helpers and its
  message handler.  An actor handles one message at a time, so a handler is a function
  from the state to the state and the reply.

  The queue talks to the runner actor by request and reply and waits for the answer inside
  the handler.  The runner is therefore a value of the state (\<open>runner\<close>) together with
  the two calls the queue makes (\<open>runner_ops\<close>); \<open>JobRunner\<close> supplies the
  real runner.  Tasks the queue spawns (writing a durable marker, unloading a model) are
  recorded in the lists \<open>unloads\<close>, \<open>marked_dirty\<close> and \<open>shutdown_marked_dirty\<close>, in
  order, with \<open>synthesized\<close> for the maintenance passes it schedules: the same lists the
  program keeps for its own tests.
\<close>

section \<open>The runner, as the queue sees it\<close>

text \<open>
  \<open>send_message\<close> may fail, the reply channel may be dropped, and the runner may answer
  with an error: every outcome the code distinguishes is a constructor.  \<open>debug_error\<close> is
  the \<open>Debug\<close> rendering of that error, which only ends up in an outcome's text.
\<close>

datatype run_reply = RunUnavailable | RunDropped | RunRejected api_error | RunAccepted

datatype cancel_reply = CancelFailed | CancelConfirmed "int option"

record 'r runner_ops =
  run_job :: "job \<Rightarrow> 'r \<Rightarrow> 'r \<times> run_reply"
  cancel_run :: "'r \<Rightarrow> 'r \<times> cancel_reply"
  debug_error :: "api_error \<Rightarrow> string"

section \<open>State\<close>

record 'r job_queue_state =
  queue :: "job list"
  queued_jobs :: "int \<rightharpoonup> job"
  running_job :: "job option"
  outcomes :: "job_outcome_model list"
  job_counter :: int
  runner :: 'r
  shutting_down :: bool
  owed :: "string \<rightharpoonup> change_summary"
  batch_loaded :: "string option"
  pending_marks :: "string list"
  synthesized :: "(string \<times> change_summary) list"
  unloads :: "string list"
  marked_dirty :: "string list"
  shutdown_marked_dirty :: "string list"

definition init_queue :: "'r \<Rightarrow> 'r job_queue_state" where
  "init_queue r =
     \<lparr>queue = [], queued_jobs = Map.empty, running_job = None, outcomes = [],
      job_counter = 0, runner = r, shutting_down = False, owed = Map.empty,
      batch_loaded = None, pending_marks = [], synthesized = [], unloads = [],
      marked_dirty = [], shutdown_marked_dirty = []\<rparr>"

text \<open>\<open>running_job.iter().chain(queue.iter())\<close>.\<close>

definition live_jobs :: "'r job_queue_state \<Rightarrow> job list" where
  "live_jobs s = (case running_job s of None \<Rightarrow> [] | Some j \<Rightarrow> [j]) @ queue s"

section \<open>Enqueueing and outcomes\<close>

definition append_job :: "job \<Rightarrow> 'r job_queue_state \<Rightarrow> 'r job_queue_state" where
  "append_job j s = s\<lparr>queue := queue s @ [j], queued_jobs := (queued_jobs s)(queue_id j \<mapsto> j)\<rparr>"

definition push_job :: "'r job_queue_state \<Rightarrow> job_request \<Rightarrow> 'r job_queue_state \<times> job_model" where
  "push_job s req =
     (let s1 = s\<lparr>job_counter := job_counter s + 1\<rparr>;
          j = \<lparr>queue_id = job_counter s1, job_type = r_job_type req, index_db = r_index_db req,
               user_data_db = r_user_data_db req, metadata = r_metadata req,
               batch_size = r_batch_size req, threshold = r_threshold req,
               log_id = r_log_id req, tag = r_tag req\<rparr>
      in (append_job j s1, from_job j False))"

fun push_jobs :: "'r job_queue_state \<Rightarrow> job_request list \<Rightarrow> 'r job_queue_state \<times> job_model list" where
  "push_jobs s [] = (s, [])"
| "push_jobs s (req # reqs) =
     (let (s1, m) = push_job s req; (s2, ms) = push_jobs s1 reqs in (s2, m # ms))"

definition max_recent_outcomes :: nat where
  "max_recent_outcomes = 256"

definition record_outcome ::
  "'r job_queue_state \<Rightarrow> int \<Rightarrow> job_outcome_status \<Rightarrow> string option \<Rightarrow> 'r job_queue_state" where
  "record_outcome s i st e =
     (let os = outcomes s @ [\<lparr>o_queue_id = i, o_status = st, o_error = e\<rparr>]
      in s\<lparr>outcomes := drop (length os - max_recent_outcomes) os\<rparr>)"

definition start_next_job :: "'r runner_ops \<Rightarrow> 'r job_queue_state \<Rightarrow> 'r job_queue_state" where
  "start_next_job ops s =
     (if shutting_down s \<or> running_job s \<noteq> None then s
      else case queue s of
        [] \<Rightarrow> s
      | j # rest \<Rightarrow>
          (let s1 = s\<lparr>queue := rest, queued_jobs := (queued_jobs s)(queue_id j := None)\<rparr>;
               (r', reply) = run_job ops j (runner s1);
               s2 = s1\<lparr>runner := r'\<rparr>
           in case reply of
                RunUnavailable \<Rightarrow>
                  record_outcome s2 (queue_id j) Failed (Some ''job runner unavailable'')
              | RunAccepted \<Rightarrow> s2\<lparr>running_job := Some j\<rparr>
              | RunRejected err \<Rightarrow> record_outcome s2 (queue_id j) Failed (Some (debug_error ops err))
              | RunDropped \<Rightarrow>
                  record_outcome s2 (queue_id j) Failed (Some ''job runner dropped its response'')))"

section \<open>What finished jobs owe\<close>

definition pessimistic_summary :: "job \<Rightarrow> change_summary" where
  "pessimistic_summary j =
     (case job_type j of
        VectorQuantReconcile \<Rightarrow>
          \<lparr>wrote_data = True, deleted_data = True, tags_changed = False\<rparr>
      | t \<Rightarrow>
          (let deleting = t \<in> {FolderRescan, FolderUpdate, DataDeletion, JobDataDeletion}
           in \<lparr>wrote_data = True, deleted_data = deleting, tags_changed = deleting\<rparr>))"

definition derive_tags :: "change_summary \<Rightarrow> change_summary" where
  "derive_tags s = s\<lparr>tags_changed := (tags_changed s \<or> deleted_data s)\<rparr>"

definition merge_owed ::
  "'r job_queue_state \<Rightarrow> string \<Rightarrow> change_summary \<Rightarrow> 'r job_queue_state" where
  "merge_owed s db summary0 =
     (let sm = derive_tags summary0 in
      if is_empty sm then s
      else let entry = (case owed s db of None \<Rightarrow> default_summary | Some c \<Rightarrow> c);
               entry' = or_with entry sm;
               s1 = s\<lparr>owed := (owed s)(db \<mapsto> entry')\<rparr>
           in if tags_changed entry' \<and> \<not> tags_changed entry \<and> db \<notin> set (pending_marks s1)
              then s1\<lparr>pending_marks := pending_marks s1 @ [db]\<rparr> else s1)"

definition record_owed ::
  "'r job_queue_state \<Rightarrow> job \<Rightarrow> change_summary option \<Rightarrow> 'r job_queue_state" where
  "record_owed s j sm =
     (if job_type j = DbMaintenance then s
      else merge_owed s (index_db j)
             (case sm of None \<Rightarrow> pessimistic_summary j | Some c \<Rightarrow> c))"

section \<open>The job boundary: deferred maintenance\<close>

definition push_maintenance_job ::
  "'r job_queue_state \<Rightarrow> string \<Rightarrow> string \<Rightarrow> change_summary \<Rightarrow> 'r job_queue_state \<times> job_model" where
  "push_maintenance_job s db udb flags =
     (let s1 = s\<lparr>job_counter := job_counter s + 1\<rparr>;
          j = \<lparr>queue_id = job_counter s1, job_type = DbMaintenance, index_db = db,
               user_data_db = udb, metadata = Some (to_metadata flags), batch_size = None,
               threshold = None, log_id = None, tag = None\<rparr>
      in (append_job j s1, from_job j False))"

definition db_busy :: "'r job_queue_state \<Rightarrow> string \<Rightarrow> bool" where
  "db_busy s db \<longleftrightarrow> list_ex (\<lambda>j. index_db j = db) (live_jobs s)"

definition maybe_schedule_maintenance ::
  "'r job_queue_state \<Rightarrow> job \<Rightarrow> 'r job_queue_state" where
  "maybe_schedule_maintenance s finished =
     (if shutting_down s then s
      else let db = index_db finished in
      case owed s db of
        None \<Rightarrow> s
      | Some ow \<Rightarrow>
          if is_empty ow then s\<lparr>owed := (owed s)(db := None)\<rparr>
          else if db_busy s db then s
          else
            (let s1 = s\<lparr>owed := (owed s)(db := None)\<rparr>;
                 s2 = (if tags_changed ow
                       then s1\<lparr>pending_marks := filter (\<lambda>d. d \<noteq> db) (pending_marks s1)\<rparr>
                       else s1);
                 (s3, _) = push_maintenance_job s2 db (user_data_db finished) ow
             in s3\<lparr>synthesized := synthesized s3 @ [(db, ow)]\<rparr>))"

section \<open>The job boundary: model continuity\<close>

fun next_batch_setter :: "job list \<Rightarrow> string option" where
  "next_batch_setter [] = None"
| "next_batch_setter (j # js) =
     (case job_type j of
        DbMaintenance \<Rightarrow> next_batch_setter js
      | DataExtraction \<Rightarrow> metadata j
      | _ \<Rightarrow> None)"

definition unreported_batch_load :: "job \<Rightarrow> string option" where
  "unreported_batch_load j = (if job_type j \<noteq> DataExtraction then None else metadata j)"

definition record_unreported_batch_load :: "'r job_queue_state \<Rightarrow> job \<Rightarrow> 'r job_queue_state" where
  "record_unreported_batch_load s j =
     (case unreported_batch_load j of
        Some setter \<Rightarrow> s\<lparr>batch_loaded := Some setter\<rparr>
      | None \<Rightarrow> s)"

definition record_batch_load ::
  "'r job_queue_state \<Rightarrow> job \<Rightarrow> bool \<Rightarrow> string option \<Rightarrow> 'r job_queue_state" where
  "record_batch_load s j ok lm =
     (case lm of
        Some setter \<Rightarrow> s\<lparr>batch_loaded := Some setter\<rparr>
      | None \<Rightarrow> if \<not> ok then record_unreported_batch_load s j else s)"

definition take_batch_unload ::
  "'r job_queue_state \<Rightarrow> 'r job_queue_state \<times> string option" where
  "take_batch_unload s =
     (if running_job s \<noteq> None then (s, None)
      else case batch_loaded s of
        None \<Rightarrow> (s, None)
      | Some loaded \<Rightarrow>
          if next_batch_setter (queue s) = Some loaded then (s, None)
          else (s\<lparr>batch_loaded := None\<rparr>, Some loaded))"

text \<open>
  The two callers differ in whether the unload is awaited (shutdown) or spawned; both
  reduce to one unload request for the setter.
\<close>

definition maybe_unload_batch_model :: "'r job_queue_state \<Rightarrow> 'r job_queue_state" where
  "maybe_unload_batch_model s =
     (case take_batch_unload s of
        (s1, None) \<Rightarrow> s1
      | (s1, Some setter) \<Rightarrow> s1\<lparr>unloads := unloads s1 @ [setter]\<rparr>)"

definition unload_batch_model_on_shutdown :: "'r job_queue_state \<Rightarrow> 'r job_queue_state" where
  "unload_batch_model_on_shutdown s =
     (case take_batch_unload s of
        (s1, None) \<Rightarrow> s1
      | (s1, Some setter) \<Rightarrow> s1\<lparr>unloads := unloads s1 @ [setter]\<rparr>)"

section \<open>Durable markers\<close>

definition flush_tags_dirty_marks :: "'r job_queue_state \<Rightarrow> 'r job_queue_state" where
  "flush_tags_dirty_marks s =
     s\<lparr>pending_marks := [], marked_dirty := marked_dirty s @ pending_marks s\<rparr>"

definition flush_tags_dirty_marks_on_shutdown :: "'r job_queue_state \<Rightarrow> 'r job_queue_state" where
  "flush_tags_dirty_marks_on_shutdown s =
     s\<lparr>pending_marks := [],
       shutdown_marked_dirty := shutdown_marked_dirty s @ pending_marks s\<rparr>"

section \<open>Cancellation\<close>

definition cancel_running_job_inner ::
  "'r runner_ops \<Rightarrow> 'r job_queue_state \<Rightarrow> bool \<Rightarrow> 'r job_queue_state \<times> int option" where
  "cancel_running_job_inner ops s suppress =
     (case running_job s of
        None \<Rightarrow> (s, None)
      | Some running \<Rightarrow>
          (case cancel_run ops (runner s) of
             (r', CancelConfirmed (Some qid)) \<Rightarrow>
               (let s0 = s\<lparr>runner := r'\<rparr> in
                if queue_id running = qid then
                  (let s1 = record_outcome (s0\<lparr>running_job := None\<rparr>) qid Cancelled None;
                       s2 = record_owed s1 running None;
                       s3 = record_unreported_batch_load s2 running;
                       s4 = (if \<not> suppress then maybe_schedule_maintenance s3 running else s3);
                       s5 = (if \<not> shutting_down s4 then maybe_unload_batch_model s4 else s4)
                   in (start_next_job ops s5, Some qid))
                else (s0, None))
           | (r', _) \<Rightarrow> (s\<lparr>runner := r'\<rparr>, None)))"

definition remove_queued :: "'r job_queue_state \<Rightarrow> job \<Rightarrow> int \<Rightarrow> 'r job_queue_state" where
  "remove_queued s j i =
     record_outcome
       (s\<lparr>queued_jobs := (queued_jobs s)(i := None),
          queue := filter (\<lambda>e. queue_id e \<noteq> i) (queue s)\<rparr>)
       (queue_id j) Cancelled None"

text \<open>
  The loop of \<open>CancelQueued\<close> over the given ids: it drops the queued ones, and remembers
  the running one (\<open>running_target\<close>) for later.  It returns the cancelled ids, the removed
  jobs and the target.
\<close>

fun cancel_queued_loop ::
  "'r job_queue_state \<Rightarrow> int list \<Rightarrow> 'r job_queue_state \<times> int list \<times> job list \<times> int option" where
  "cancel_queued_loop s [] = (s, [], [], None)"
| "cancel_queued_loop s (i # ids) =
     (if (case running_job s of None \<Rightarrow> False | Some r \<Rightarrow> queue_id r = i)
      then (let (s1, cs, js, t) = cancel_queued_loop s ids
            in (s1, cs, js, if t = None then Some i else t))
      else case queued_jobs s i of
             None \<Rightarrow> cancel_queued_loop s ids
           | Some j \<Rightarrow>
               (let (s1, cs, js, t) = cancel_queued_loop (remove_queued s j i) ids
                in (s1, queue_id j # cs, j # js, t)))"

definition cancel_queued ::
  "'r runner_ops \<Rightarrow> 'r job_queue_state \<Rightarrow> int list \<Rightarrow> bool \<Rightarrow> 'r job_queue_state \<times> int list" where
  "cancel_queued ops s ids suppress =
     (let (s1, cancelled, removed, target) = cancel_queued_loop s ids;
          (s2, cancelled2) =
            (case target of
               None \<Rightarrow> (s1, cancelled)
             | Some qid \<Rightarrow>
                 (case cancel_running_job_inner ops s1 suppress of
                    (s', res) \<Rightarrow>
                      (s', if res = Some qid then cancelled @ [qid] else cancelled)));
          s3 = (if \<not> suppress then foldl maybe_schedule_maintenance s2 removed else s2);
          s4 = maybe_unload_batch_model s3
      in (start_next_job ops s4, cancelled2))"

section \<open>The remaining handlers\<close>

definition enqueue ::
  "'r runner_ops \<Rightarrow> 'r job_queue_state \<Rightarrow> job_request \<Rightarrow> 'r job_queue_state \<times> job_model" where
  "enqueue ops s req =
     (let (s1, m) = push_job s req
      in (if running_job s1 = None then start_next_job ops s1 else s1, m))"

definition dedup_conflict :: "'r job_queue_state \<Rightarrow> batch_dedup \<Rightarrow> bool" where
  "dedup_conflict s d \<longleftrightarrow>
     list_ex (\<lambda>j. tag j = Some (d_tag d) \<and> index_db j = d_index_db d) (live_jobs s)"

fun skipped_by :: "'r job_queue_state \<Rightarrow> batch_dedup list \<Rightarrow> string list \<Rightarrow> string list" where
  "skipped_by s [] acc = acc"
| "skipped_by s (d # ds) acc =
     skipped_by s ds
       (if dedup_conflict s d \<and> d_index_db d \<notin> set acc then acc @ [d_index_db d] else acc)"

definition enqueue_batch ::
  "'r runner_ops \<Rightarrow> 'r job_queue_state \<Rightarrow> job_request list \<Rightarrow> batch_dedup list \<Rightarrow>
     'r job_queue_state \<times> batch_enqueue_result" where
  "enqueue_batch ops s reqs dedups =
     (let skipped = skipped_by s dedups [];
          (s1, ms) = push_jobs s (filter (\<lambda>r. r_index_db r \<notin> set skipped) reqs);
          s2 = (if ms \<noteq> [] \<and> running_job s1 = None then start_next_job ops s1 else s1)
      in (s2, \<lparr>enqueued = ms, skipped_dbs = skipped\<rparr>))"

definition is_maintenance_of :: "string \<Rightarrow> job \<Rightarrow> bool" where
  "is_maintenance_of db j \<longleftrightarrow> job_type j = DbMaintenance \<and> index_db j = db"

definition set_all_flags :: "job \<Rightarrow> job" where
  "set_all_flags j = j\<lparr>metadata := Some (to_metadata all_summary)\<rparr>"

definition enqueue_maintenance ::
  "'r runner_ops \<Rightarrow> 'r job_queue_state \<Rightarrow> string \<Rightarrow> string \<Rightarrow>
     'r job_queue_state \<times> job_model option" where
  "enqueue_maintenance ops s db udb =
     (if (case running_job s of None \<Rightarrow> False | Some j \<Rightarrow> is_maintenance_of db j) then (s, None)
      else case find (is_maintenance_of db) (queue s) of
        Some j \<Rightarrow>
          (let j' = set_all_flags j;
               s1 = s\<lparr>queue := update_first (is_maintenance_of db) set_all_flags (queue s)\<rparr>;
               s2 = (case queued_jobs s1 (queue_id j') of
                       Some q \<Rightarrow>
                         s1\<lparr>queued_jobs :=
                              (queued_jobs s1)(queue_id j' \<mapsto> q\<lparr>metadata := metadata j'\<rparr>)\<rparr>
                     | None \<Rightarrow> s1)
           in (s2\<lparr>owed := (owed s2)(db := None)\<rparr>, Some (from_job j' False)))
      | None \<Rightarrow>
          (let s1 = s\<lparr>owed := (owed s)(db := None)\<rparr>;
               (s2, m) = push_maintenance_job s1 db udb all_summary
           in (if running_job s2 = None then start_next_job ops s2 else s2, Some m)))"

definition get_queue_status :: "'r job_queue_state \<Rightarrow> queue_status_model" where
  "get_queue_status s =
     \<lparr>qs_queue = (case running_job s of None \<Rightarrow> [] | Some j \<Rightarrow> [from_job j True]) @
                 map (\<lambda>j. from_job j False) (queue s),
      qs_outcomes = outcomes s\<rparr>"

definition runner_finished ::
  "'r runner_ops \<Rightarrow> 'r job_queue_state \<Rightarrow> int \<Rightarrow> job_run_result \<Rightarrow> 'r job_queue_state" where
  "runner_finished ops s qid result =
     (case running_job s of
        None \<Rightarrow> s
      | Some running \<Rightarrow>
          if queue_id running \<noteq> qid then s
          else
            (let s1 = record_outcome s qid (if success result then Completed else Failed) (error result);
                 s2 = s1\<lparr>running_job := None\<rparr>;
                 s3 = record_owed s2 running (summary result);
                 s4 = record_batch_load s3 running (success result) (loaded_model result);
                 s5 = maybe_schedule_maintenance s4 running;
                 s6 = maybe_unload_batch_model s5
             in start_next_job ops s6))"

definition shutdown_queue ::
  "'r runner_ops \<Rightarrow> 'r job_queue_state \<Rightarrow> 'r job_queue_state \<times> int option" where
  "shutdown_queue ops s =
     (let s1 = s\<lparr>shutting_down := True, queue := [], queued_jobs := Map.empty\<rparr>;
          (s2, cancelled) = cancel_running_job_inner ops s1 True;
          s3 = unload_batch_model_on_shutdown s2;
          s4 = flush_tags_dirty_marks_on_shutdown s3
      in (s4, cancelled))"

definition shutting_down_error :: api_error where
  "shutting_down_error = Internal ''Job queue is shutting down''"

text \<open>
  \<open>handle\<close>: early returns skip the flush at the end, as in the code; every other arm ends
  with it.
\<close>

definition handle ::
  "'r runner_ops \<Rightarrow> job_queue_message \<Rightarrow> 'r job_queue_state \<Rightarrow>
     'r job_queue_state \<times> queue_reply" where
  "handle ops msg s =
     (case msg of
        Enqueue req \<Rightarrow>
          if shutting_down s then (s, ReplyEnqueue (Inl shutting_down_error))
          else (let (s1, m) = enqueue ops s req
                in (flush_tags_dirty_marks s1, ReplyEnqueue (Inr m)))
      | EnqueueBatch reqs dedups \<Rightarrow>
          if shutting_down s then (s, ReplyBatch (Inl shutting_down_error))
          else (let (s1, res) = enqueue_batch ops s reqs dedups
                in (flush_tags_dirty_marks s1, ReplyBatch (Inr res)))
      | EnqueueMaintenance db udb \<Rightarrow>
          if shutting_down s then (s, ReplyMaintenance (Inl shutting_down_error))
          else (case enqueue_maintenance ops s db udb of
                  (s1, None) \<Rightarrow> (s1, ReplyMaintenance (Inr None))
                | (s1, Some m) \<Rightarrow>
                    (if find (is_maintenance_of db) (queue s) \<noteq> None then s1
                     else flush_tags_dirty_marks s1, ReplyMaintenance (Inr (Some m))))
      | GetQueueStatus \<Rightarrow> (flush_tags_dirty_marks s, ReplyStatus (get_queue_status s))
      | CancelQueued ids suppress \<Rightarrow>
          (let (s1, cs) = cancel_queued ops s ids suppress
           in (flush_tags_dirty_marks s1, ReplyCancelQueued cs))
      | CancelRunning suppress \<Rightarrow>
          (let (s1, res) = cancel_running_job_inner ops s suppress
           in (flush_tags_dirty_marks s1, ReplyCancelRunning res))
      | RunnerFinished qid result \<Rightarrow>
          (flush_tags_dirty_marks (runner_finished ops s qid result), NoReply)
      | RecordOwed db sm \<Rightarrow>
          if (case running_job s of None \<Rightarrow> False | Some j \<Rightarrow> job_type j = DbMaintenance)
          then (s, NoReply)
          else (flush_tags_dirty_marks (merge_owed s db sm), NoReply)
      | Shutdown \<Rightarrow>
          (let (s1, c) = shutdown_queue ops s
           in (flush_tags_dirty_marks s1, ReplyShutdown c)))"

end
