(* ===== verification/JobQueueInv.thy ===== *)
theory JobQueueInv
  imports JobQueue
begin

text \<open>
  The invariant of the job queue and the interface it expects from the runner.

  \<open>job_runner\<close> states what the queue relies on: a runner that runs nothing accepts a
  job, a cancel leaves it running nothing and names no job but the one it ran.  Every
  handler is shown to keep \<open>queue_inv\<close> against any such runner.
\<close>

section \<open>The id index of the queue\<close>

definition index_jobs :: "job list \<Rightarrow> int \<rightharpoonup> job" where
  "index_jobs js = map_of (map (\<lambda>j. (queue_id j, j)) js)"

lemma index_jobs_Nil [simp]: "index_jobs [] = Map.empty"
  by (simp add: index_jobs_def)

lemma index_jobs_Cons: "index_jobs (j # js) = (index_jobs js)(queue_id j \<mapsto> j)"
  by (simp add: index_jobs_def)

lemma index_jobs_notin: "i \<notin> queue_id ` set js \<Longrightarrow> index_jobs js i = None"
  by (auto simp: index_jobs_def map_of_eq_None_iff)

lemma index_jobs_snoc:
  "queue_id j \<notin> queue_id ` set js \<Longrightarrow> index_jobs (js @ [j]) = (index_jobs js)(queue_id j \<mapsto> j)"
  by (induction js) (auto simp: index_jobs_Cons fun_upd_twist)

lemma index_jobs_filter:
  "index_jobs (filter (\<lambda>e. queue_id e \<noteq> i) js) = (index_jobs js)(i := None)"
  by (induction js) (auto simp: index_jobs_Cons fun_upd_twist)

lemma index_jobs_tl:
  "queue_id j \<notin> queue_id ` set js \<Longrightarrow> (index_jobs (j # js))(queue_id j := None) = index_jobs js"
  by (auto simp: index_jobs_Cons fun_eq_iff index_jobs_notin)

lemma index_jobs_SomeD: "index_jobs js i = Some j \<Longrightarrow> j \<in> set js \<and> queue_id j = i"
  by (auto simp: index_jobs_def dest: map_of_SomeD)

lemma index_jobs_in: "j \<in> set js \<Longrightarrow> distinct (map queue_id js) \<Longrightarrow> index_jobs js (queue_id j) = Some j"
  by (auto simp: index_jobs_def map_of_eq_Some_iff comp_def)

lemma index_jobs_middle:
  assumes "distinct (map queue_id (us @ x # vs))" and "queue_id y = queue_id x"
  shows "index_jobs (us @ y # vs) = (index_jobs (us @ x # vs))(queue_id x \<mapsto> y)"
  using assms by (induction us) (auto simp: index_jobs_Cons fun_upd_twist)

section \<open>The runner interface\<close>

text \<open>
  What the queue can know of a runner: the job it runs, the jobs it started, the jobs whose
  completion it has reported or still will (\<open>pending\<close>), and its own invariant.
\<close>

record 'r runner_view =
  current :: "'r \<Rightarrow> int option"
  started :: "'r \<Rightarrow> int list"
  pending :: "'r \<Rightarrow> int set"
  healthy :: "'r \<Rightarrow> bool"

locale job_runner =
  fixes ops :: "'r runner_ops"
    and v :: "'r runner_view"
  assumes run_idle: "current v r = None \<Longrightarrow>
      snd (run_job ops j r) = RunAccepted \<and>
      current v (fst (run_job ops j r)) = Some (queue_id j) \<and>
      started v (fst (run_job ops j r)) = started v r @ [queue_id j] \<and>
      pending v (fst (run_job ops j r)) = insert (queue_id j) (pending v r)"
    and run_healthy: "healthy v r \<Longrightarrow> queue_id j \<notin> set (started v r) \<Longrightarrow>
      healthy v (fst (run_job ops j r))"
    and cancel_stops: "current v (fst (cancel_run ops r)) = None \<and>
      started v (fst (cancel_run ops r)) = started v r \<and>
      pending v (fst (cancel_run ops r)) = pending v r"
    and cancel_healthy: "healthy v r \<Longrightarrow> healthy v (fst (cancel_run ops r))"
    and cancel_reply: "snd (cancel_run ops r) = CancelConfirmed None \<or>
      (\<exists>i. current v r = Some i \<and> snd (cancel_run ops r) = CancelConfirmed (Some i))"

section \<open>The invariant\<close>

text \<open>
  Jobs: ids increase along the jobs started so far and then along the queue, and none is
  above the counter; \<open>queued_jobs\<close> is exactly the index of the queue; the running job was
  started, and the runner runs nothing but the queue's running job.
\<close>

definition jobs_inv ::
  "'r runner_view \<Rightarrow> 'r job_queue_state \<Rightarrow> bool" where
  "jobs_inv v s \<longleftrightarrow>
     0 \<le> job_counter s \<and>
     (\<forall>j \<in> set (queue s). 0 < queue_id j \<and> queue_id j \<le> job_counter s) \<and>
     queued_jobs s = index_jobs (queue s) \<and>
     sorted_wrt (<) (started v (runner s) @ map queue_id (queue s)) \<and>
     (\<forall>i \<in> set (started v (runner s)). 0 < i \<and> i \<le> job_counter s) \<and>
     (\<forall>j. running_job s = Some j \<longrightarrow>
        queue_id j \<in> set (started v (runner s)) \<and> queue_id j \<in> pending v (runner s)) \<and>
     healthy v (runner s) \<and>
     (\<forall>i. current v (runner s) = Some i \<longrightarrow> (\<exists>j. running_job s = Some j \<and> queue_id j = i))"

text \<open>
  Bookkeeping: the outcome list is bounded, owed flags are never empty, and a deletion
  always carries the recount.
\<close>

definition flags_ok :: "change_summary \<Rightarrow> bool" where
  "flags_ok c \<longleftrightarrow> \<not> is_empty c \<and> (deleted_data c \<longrightarrow> tags_changed c)"

definition book_inv :: "'r job_queue_state \<Rightarrow> bool" where
  "book_inv s \<longleftrightarrow>
     length (outcomes s) \<le> max_recent_outcomes \<and>
     (\<forall>db c. owed s db = Some c \<longrightarrow> flags_ok c)"

definition queue_inv ::
  "'r runner_view \<Rightarrow> 'r job_queue_state \<Rightarrow> bool" where
  "queue_inv v s \<longleftrightarrow> jobs_inv v s \<and> book_inv s"

text \<open>
  What holds between messages beyond \<open>queue_inv\<close>: no work waits while nothing runs, no
  batch model is tracked while nothing runs, a queue that shuts down is empty and its
  runner stopped, and every marker was flushed.
\<close>

definition settled :: "'r runner_view \<Rightarrow> 'r job_queue_state \<Rightarrow> bool" where
  "settled v s \<longleftrightarrow>
     (running_job s = None \<longrightarrow> queue s = [] \<and> batch_loaded s = None) \<and>
     (shutting_down s \<longrightarrow> queue s = [] \<and> current v (runner s) = None) \<and>
     pending_marks s = []"

text \<open>
  What the state must satisfy when a message is taken: the invariant, except that the
  completion of the running job is being delivered and is no longer ahead, so that the
  invariant then holds once the job is taken off.
\<close>

definition finishes :: "'r job_queue_state \<Rightarrow> int \<Rightarrow> bool" where
  "finishes s qid \<longleftrightarrow> (case running_job s of None \<Rightarrow> False | Some j \<Rightarrow> queue_id j = qid)"

definition ready :: "'r runner_view \<Rightarrow> job_queue_message \<Rightarrow> 'r job_queue_state \<Rightarrow> bool" where
  "ready v msg s \<longleftrightarrow>
     (case msg of
        RunnerFinished qid _ \<Rightarrow>
          if finishes s qid then queue_inv v (s\<lparr>running_job := None\<rparr>) else queue_inv v s
      | _ \<Rightarrow> queue_inv v s)"

subsection \<open>Operations that leave the queue and the runner alone\<close>

text \<open>The fields that the bookkeeping of a boundary does not touch.\<close>

definition same_jobs :: "'r job_queue_state \<Rightarrow> 'r job_queue_state \<Rightarrow> bool" where
  "same_jobs s t \<longleftrightarrow>
     queue t = queue s \<and> queued_jobs t = queued_jobs s \<and> running_job t = running_job s \<and>
     job_counter t = job_counter s \<and> runner t = runner s \<and> shutting_down t = shutting_down s"

lemma same_jobs_refl [simp]: "same_jobs s s"
  by (simp add: same_jobs_def)

lemma same_jobs_trans [trans]: "same_jobs s t \<Longrightarrow> same_jobs t u \<Longrightarrow> same_jobs s u"
  by (simp add: same_jobs_def)

lemma same_jobs_record_outcome [simp]: "same_jobs s (record_outcome s i st e)"
  by (simp add: same_jobs_def record_outcome_def Let_def)

lemma same_jobs_merge_owed [simp]: "same_jobs s (merge_owed s db c)"
  by (simp add: same_jobs_def merge_owed_def Let_def)

lemma same_jobs_record_owed [simp]: "same_jobs s (record_owed s j c)"
  by (simp add: record_owed_def)

lemma same_jobs_unreported [simp]: "same_jobs s (record_unreported_batch_load s j)"
  by (simp add: same_jobs_def record_unreported_batch_load_def split: option.split)

lemma same_jobs_batch_load [simp]: "same_jobs s (record_batch_load s j ok lm)"
  by (auto simp: record_batch_load_def same_jobs_def
      intro: same_jobs_unreported [unfolded same_jobs_def, THEN conjunct1]
      simp: record_unreported_batch_load_def split: option.split)

lemma same_jobs_unload [simp]: "same_jobs s (maybe_unload_batch_model s)"
  by (auto simp: same_jobs_def maybe_unload_batch_model_def take_batch_unload_def
      split: option.split prod.split)

lemma same_jobs_unload_shutdown [simp]: "same_jobs s (unload_batch_model_on_shutdown s)"
  by (auto simp: same_jobs_def unload_batch_model_on_shutdown_def take_batch_unload_def
      split: option.split prod.split)

lemma same_jobs_flush [simp]: "same_jobs s (flush_tags_dirty_marks s)"
  by (simp add: same_jobs_def flush_tags_dirty_marks_def)

lemma same_jobs_flush_shutdown [simp]: "same_jobs s (flush_tags_dirty_marks_on_shutdown s)"
  by (simp add: same_jobs_def flush_tags_dirty_marks_on_shutdown_def)

lemma outcomes_record_outcome [simp]:
  "length (outcomes (record_outcome s i st e)) \<le> max_recent_outcomes"
  by (simp add: record_outcome_def Let_def)

lemma outcomes_record_outcome' [simp]:
  "owed (record_outcome s i st e) = owed s" "batch_loaded (record_outcome s i st e) = batch_loaded s"
  "pending_marks (record_outcome s i st e) = pending_marks s"
  by (simp_all add: record_outcome_def Let_def)

lemma record_outcome_stop:
  "(record_outcome s i st e)\<lparr>running_job := r\<rparr> = record_outcome (s\<lparr>running_job := r\<rparr>) i st e"
  by (cases s) (simp add: record_outcome_def Let_def)

lemma same_jobs_frame:
  "same_jobs s t \<Longrightarrow> running_job t = running_job s \<and> runner t = runner s \<and>
     shutting_down t = shutting_down s \<and> queue t = queue s"
  by (simp add: same_jobs_def)

lemmas frames [simp] =
  same_jobs_frame [OF same_jobs_record_outcome] same_jobs_frame [OF same_jobs_merge_owed]
  same_jobs_frame [OF same_jobs_record_owed] same_jobs_frame [OF same_jobs_unreported]
  same_jobs_frame [OF same_jobs_batch_load] same_jobs_frame [OF same_jobs_unload]
  same_jobs_frame [OF same_jobs_unload_shutdown] same_jobs_frame [OF same_jobs_flush]
  same_jobs_frame [OF same_jobs_flush_shutdown]

lemma jobs_inv_same: "same_jobs s t \<Longrightarrow> jobs_inv v t = jobs_inv v s"
  by (auto simp: same_jobs_def jobs_inv_def)

lemma flags_ok_derive: "\<not> is_empty (derive_tags c) \<Longrightarrow> flags_ok (derive_tags c)"
  by (simp add: flags_ok_def derive_tags_def)

lemma flags_ok_or: "flags_ok c \<Longrightarrow> flags_ok d \<Longrightarrow> flags_ok (or_with c d)"
  by (auto simp: flags_ok_def)

subsection \<open>Bookkeeping\<close>

lemma book_inv_record_outcome [intro]: "book_inv s \<Longrightarrow> book_inv (record_outcome s i st e)"
  by (simp add: book_inv_def)

lemma book_inv_merge_owed [intro]:
  assumes "book_inv s"
  shows "book_inv (merge_owed s db c)"
proof (cases "is_empty (derive_tags c)")
  case True
  with assms show ?thesis by (simp add: merge_owed_def Let_def)
next
  case False
  then have ok: "flags_ok (derive_tags c)" by (rule flags_ok_derive)
  moreover have "flags_ok (or_with e (derive_tags c))" if "owed s db = Some e" for e
    using that assms ok by (auto simp: book_inv_def intro: flags_ok_or)
  ultimately show ?thesis
    using assms by (auto simp: book_inv_def merge_owed_def Let_def split: option.splits if_splits)
qed

lemma book_inv_record_owed [intro]: "book_inv s \<Longrightarrow> book_inv (record_owed s j c)"
  by (auto simp: record_owed_def)

lemma book_inv_unreported [intro]: "book_inv s \<Longrightarrow> book_inv (record_unreported_batch_load s j)"
  by (simp add: book_inv_def record_unreported_batch_load_def split: option.split)

lemma book_inv_batch_load [intro]: "book_inv s \<Longrightarrow> book_inv (record_batch_load s j ok lm)"
  by (auto simp: record_batch_load_def book_inv_def record_unreported_batch_load_def
      split: option.split)

lemma book_inv_unload [intro]: "book_inv s \<Longrightarrow> book_inv (maybe_unload_batch_model s)"
  by (auto simp: book_inv_def maybe_unload_batch_model_def take_batch_unload_def
      split: option.split prod.split)

lemma book_inv_unload_shutdown [intro]:
  "book_inv s \<Longrightarrow> book_inv (unload_batch_model_on_shutdown s)"
  by (auto simp: book_inv_def unload_batch_model_on_shutdown_def take_batch_unload_def
      split: option.split prod.split)

lemma book_inv_flush [intro]: "book_inv s \<Longrightarrow> book_inv (flush_tags_dirty_marks s)"
  by (simp add: book_inv_def flush_tags_dirty_marks_def)

lemma book_inv_flush_shutdown [intro]:
  "book_inv s \<Longrightarrow> book_inv (flush_tags_dirty_marks_on_shutdown s)"
  by (simp add: book_inv_def flush_tags_dirty_marks_on_shutdown_def)

lemma book_inv_append_job [intro]: "book_inv s \<Longrightarrow> book_inv (append_job j s)"
  by (simp add: book_inv_def append_job_def)

lemma book_inv_schedule [intro]: "book_inv s \<Longrightarrow> book_inv (maybe_schedule_maintenance s j)"
  by (auto simp: book_inv_def maybe_schedule_maintenance_def push_maintenance_job_def
      append_job_def Let_def split: option.split if_splits)

subsection \<open>Jobs\<close>

lemma jobs_inv_append:
  assumes inv: "jobs_inv v s" and id: "queue_id j = job_counter s + 1"
  shows "jobs_inv v (append_job j (s\<lparr>job_counter := job_counter s + 1\<rparr>))"
proof -
  have "queue_id j \<notin> queue_id ` set (queue s)" using inv id by (auto simp: jobs_inv_def)
  with inv id show ?thesis
    by (fastforce simp: jobs_inv_def append_job_def sorted_wrt_append index_jobs_snoc)
qed

lemma jobs_inv_push_job: "jobs_inv v s \<Longrightarrow> jobs_inv v (fst (push_job s req))"
  by (simp add: push_job_def Let_def jobs_inv_append)

lemma jobs_inv_push_maintenance:
  "jobs_inv v s \<Longrightarrow> jobs_inv v (fst (push_maintenance_job s db udb flags))"
  by (simp add: push_maintenance_job_def Let_def jobs_inv_append)

lemma jobs_inv_schedule:
  assumes "jobs_inv v s"
  shows "jobs_inv v (maybe_schedule_maintenance s j)"
proof -
  have frame: "jobs_inv v (t\<lparr>synthesized := xs\<rparr>) = jobs_inv v t"
    "jobs_inv v (t\<lparr>pending_marks := ps\<rparr>) = jobs_inv v t"
    "jobs_inv v (t\<lparr>owed := ow\<rparr>) = jobs_inv v t" for t xs ps ow
    by (simp_all add: jobs_inv_def)
  show ?thesis
    using assms
    by (auto simp: maybe_schedule_maintenance_def Let_def frame case_prod_beta
        intro!: jobs_inv_push_maintenance split: option.split)
qed

lemma jobs_inv_stop:
  assumes "jobs_inv v s" and "current v (runner s) = None"
  shows "jobs_inv v (s\<lparr>running_job := None\<rparr>)"
  using assms by (auto simp: jobs_inv_def)

lemma jobs_inv_remove:
  assumes "jobs_inv v s"
  shows "jobs_inv v (s\<lparr>queued_jobs := (queued_jobs s)(i := None),
           queue := filter (\<lambda>e. queue_id e \<noteq> i) (queue s)\<rparr>)"
  using assms
  by (auto simp: jobs_inv_def index_jobs_filter sorted_wrt_append sorted_wrt_map_filter)

lemma jobs_inv_remove_queued: "jobs_inv v s \<Longrightarrow> jobs_inv v (remove_queued s j i)"
  using jobs_inv_remove [of v s i]
  by (simp add: remove_queued_def jobs_inv_same [OF same_jobs_record_outcome])

lemma book_inv_remove_queued [intro]: "book_inv s \<Longrightarrow> book_inv (remove_queued s j i)"
  by (simp add: remove_queued_def book_inv_def)

lemma jobs_inv_clear:
  "jobs_inv v s \<Longrightarrow>
   jobs_inv v (s\<lparr>shutting_down := True, queue := [], queued_jobs := Map.empty\<rparr>)"
  by (auto simp: jobs_inv_def sorted_wrt_append)

lemma jobs_inv_upgrade:
  assumes inv: "jobs_inv v s" and f: "find (is_maintenance_of db) (queue s) = Some j"
  shows "jobs_inv v (s\<lparr>queue := update_first (is_maintenance_of db) set_all_flags (queue s),
           queued_jobs := (queued_jobs s)(queue_id j \<mapsto> set_all_flags j)\<rparr>)"
proof -
  obtain us vs where q: "queue s = us @ j # vs"
    and u: "update_first (is_maintenance_of db) set_all_flags (queue s) = us @ set_all_flags j # vs"
    using find_Some_update_first [OF f] by blast
  have "sorted_wrt (<) (map queue_id (queue s))"
    using inv by (simp add: jobs_inv_def sorted_wrt_append)
  then have "distinct (map queue_id (us @ j # vs))"
    unfolding q by (rule sorted_wrt_less_distinct)
  then have "index_jobs (us @ set_all_flags j # vs) = (index_jobs (queue s))(queue_id j \<mapsto> set_all_flags j)"
    unfolding q by (rule index_jobs_middle) (simp add: set_all_flags_def)
  moreover have "map queue_id (us @ set_all_flags j # vs) = map queue_id (queue s)"
    using q by (simp add: set_all_flags_def)
  ultimately show ?thesis
    unfolding u using inv q by (auto simp: jobs_inv_def set_all_flags_def)
qed

text \<open>The state in which a confirmed cancel takes its boundary decisions.\<close>

definition cancelled_state :: "'r job_queue_state \<Rightarrow> 'r \<Rightarrow> job \<Rightarrow> bool \<Rightarrow> 'r job_queue_state" where
  "cancelled_state s r' running suppress =
     (let s1 = record_outcome (s\<lparr>runner := r', running_job := None\<rparr>) (queue_id running) Cancelled None;
          s3 = record_unreported_batch_load (record_owed s1 running None) running;
          s4 = (if \<not> suppress then maybe_schedule_maintenance s3 running else s3)
      in (if \<not> shutting_down s4 then maybe_unload_batch_model s4 else s4))"

section \<open>Every operation keeps the invariant, against any runner that keeps its contract\<close>

context job_runner
begin

abbreviation inv where "inv \<equiv> queue_inv v"

text \<open>How a start and a cancel change the runner.\<close>

definition runs :: "'r \<Rightarrow> job \<Rightarrow> 'r \<Rightarrow> bool" where
  "runs r j r' \<longleftrightarrow>
     current v r' = Some (queue_id j) \<and> started v r' = started v r @ [queue_id j] \<and>
     pending v r' = insert (queue_id j) (pending v r) \<and>
     (healthy v r \<longrightarrow> queue_id j \<notin> set (started v r) \<longrightarrow> healthy v r')"

definition stops :: "'r \<Rightarrow> 'r \<Rightarrow> bool" where
  "stops r r' \<longleftrightarrow>
     current v r' = None \<and> started v r' = started v r \<and> pending v r' = pending v r \<and>
     (healthy v r \<longrightarrow> healthy v r')"

lemma run_idle_pair:
  "current v r = None \<Longrightarrow> run_job ops j r = (r', reply) \<Longrightarrow> reply = RunAccepted \<and> runs r j r'"
  using run_idle [of r j] run_healthy [of r j] by (simp add: runs_def)

lemma cancel_pair:
  "cancel_run ops r = (r', reply) \<Longrightarrow>
   stops r r' \<and>
   (reply = CancelConfirmed None \<or> (\<exists>i. current v r = Some i \<and> reply = CancelConfirmed (Some i)))"
  using cancel_stops [of r] cancel_reply [of r] cancel_healthy [of r] by (simp add: stops_def)

text \<open>An idle queue hands its first job to the runner, which accepts it.\<close>

lemma start_next_job_eq:
  assumes "jobs_inv v s" and "\<not> shutting_down s" and "running_job s = None"
    and "queue s = j # js"
  obtains r' where "start_next_job ops s =
      s\<lparr>queue := js, queued_jobs := (queued_jobs s)(queue_id j := None), runner := r',
        running_job := Some j\<rparr>"
    and "runs (runner s) j r'"
proof -
  have idle: "current v (runner s) = None"
    using assms(1,3) by (cases "current v (runner s)") (auto simp: jobs_inv_def)
  obtain r' reply where r: "run_job ops j (runner s) = (r', reply)" by fastforce
  from run_idle_pair [OF idle r] assms(2-4) r show ?thesis
    by (intro that [of r']) (auto simp: start_next_job_def Let_def)
qed

lemma start_next_job_noop:
  "shutting_down s \<or> running_job s \<noteq> None \<or> queue s = [] \<Longrightarrow> start_next_job ops s = s"
  by (auto simp: start_next_job_def)

lemma jobs_inv_start:
  assumes inv: "jobs_inv v s"
  shows "jobs_inv v (start_next_job ops s)"
proof (cases "shutting_down s \<or> running_job s \<noteq> None \<or> queue s = []")
  case True
  with inv show ?thesis by (simp add: start_next_job_noop)
next
  case False
  then obtain j js where q: "queue s = j # js" by (cases "queue s") auto
  from inv False q obtain r' where eq: "start_next_job ops s =
      s\<lparr>queue := js, queued_jobs := (queued_jobs s)(queue_id j := None), runner := r',
        running_job := Some j\<rparr>"
    and r': "runs (runner s) j r'"
    using start_next_job_eq by blast
  have "queue_id j \<notin> queue_id ` set js"
    using inv q by (auto simp: jobs_inv_def sorted_wrt_append)
  then have "(index_jobs (j # js))(queue_id j := None) = index_jobs js"
    by (rule index_jobs_tl)
  moreover have "queue_id j \<notin> set (started v (runner s))"
    using inv q by (auto simp: jobs_inv_def sorted_wrt_append)
  ultimately show ?thesis
    using inv False q r' by (auto simp: eq jobs_inv_def runs_def)
qed

lemma book_inv_start [intro]: "book_inv s \<Longrightarrow> book_inv (start_next_job ops s)"
  by (auto simp: start_next_job_def Let_def book_inv_def split: list.split prod.split run_reply.split)

lemma inv_start: "inv s \<Longrightarrow> inv (start_next_job ops s)"
  by (auto simp: queue_inv_def jobs_inv_start)

text \<open>After a start attempt nothing waits for an idle runner.\<close>

lemma start_next_job_busy:
  assumes "jobs_inv v s" and "\<not> shutting_down s"
    and "running_job (start_next_job ops s) = None"
  shows "queue (start_next_job ops s) = [] \<and> running_job s = None \<and> start_next_job ops s = s"
proof (cases "running_job s \<noteq> None \<or> queue s = []")
  case True
  with assms(3) show ?thesis by (auto simp: start_next_job_noop)
next
  case False
  then obtain j js where "running_job s = None" "queue s = j # js" by (cases "queue s") auto
  then have "running_job (start_next_job ops s) = Some j"
    using start_next_job_eq [OF assms(1,2)] by fastforce
  with assms(3) show ?thesis by simp
qed

text \<open>Enqueueing, cancelling and the remaining handlers.\<close>

lemma inv_append_ops:
  assumes "inv s"
  shows "inv (fst (push_job s req))" and "inv (fst (push_maintenance_job s db udb flags))"
  using assms jobs_inv_push_job [of v s] jobs_inv_push_maintenance [of v s]
  by (auto simp: queue_inv_def push_job_def push_maintenance_job_def Let_def book_inv_def append_job_def)

lemma inv_push_jobs: "inv s \<Longrightarrow> inv (fst (push_jobs s reqs))"
proof (induction reqs arbitrary: s)
  case Nil
  then show ?case by simp
next
  case (Cons req reqs)
  have "inv (fst (push_job s req))" using Cons.prems by (rule inv_append_ops)
  with Cons.IH show ?case by (simp add: case_prod_beta)
qed

lemma inv_schedule: "inv s \<Longrightarrow> inv (maybe_schedule_maintenance s j)"
  by (auto simp: queue_inv_def jobs_inv_schedule)

lemma inv_schedule_all: "inv s \<Longrightarrow> inv (foldl maybe_schedule_maintenance s js)"
  by (induction js arbitrary: s) (auto simp: inv_schedule)

lemma inv_unload: "inv s \<Longrightarrow> inv (maybe_unload_batch_model s)"
  by (auto simp: queue_inv_def jobs_inv_same [OF same_jobs_unload])

lemma inv_flush: "inv s \<Longrightarrow> inv (flush_tags_dirty_marks s)"
  by (auto simp: queue_inv_def jobs_inv_same [OF same_jobs_flush])

lemma inv_merge_owed: "inv s \<Longrightarrow> inv (merge_owed s db c)"
  by (auto simp: queue_inv_def jobs_inv_same [OF same_jobs_merge_owed])

lemma inv_record_owed: "inv s \<Longrightarrow> inv (record_owed s j c)"
  by (auto simp: queue_inv_def jobs_inv_same [OF same_jobs_record_owed])

lemma inv_record_outcome: "inv s \<Longrightarrow> inv (record_outcome s i st e)"
  by (auto simp: queue_inv_def jobs_inv_same [OF same_jobs_record_outcome])

lemma inv_unreported: "inv s \<Longrightarrow> inv (record_unreported_batch_load s j)"
  by (auto simp: queue_inv_def jobs_inv_same [OF same_jobs_unreported])

lemma inv_batch_load: "inv s \<Longrightarrow> inv (record_batch_load s j ok lm)"
  by (auto simp: queue_inv_def jobs_inv_same [OF same_jobs_batch_load])

lemma inv_stop: "inv s \<Longrightarrow> current v (runner s) = None \<Longrightarrow> inv (s\<lparr>running_job := None\<rparr>)"
  by (auto simp: queue_inv_def jobs_inv_stop book_inv_def)

lemmas inv_steps = inv_start inv_append_ops inv_push_jobs inv_schedule inv_schedule_all inv_unload
  inv_flush inv_merge_owed inv_record_owed inv_record_outcome inv_unreported inv_batch_load inv_stop

lemma jobs_inv_new_runner:
  assumes "jobs_inv v s" and "cancel_run ops (runner s) = (r', reply)"
  shows "jobs_inv v (s\<lparr>runner := r'\<rparr>)"
  using assms(1) cancel_pair [OF assms(2)] by (auto simp: jobs_inv_def stops_def)

lemma cancel_inner_cases:
  assumes inv: "jobs_inv v s"
  obtains (nothing) "running_job s = None" "cancel_running_job_inner ops s sm = (s, None)"
  | (missed) j r' where "running_job s = Some j" "stops (runner s) r'"
      "cancel_running_job_inner ops s sm = (s\<lparr>runner := r'\<rparr>, None)"
  | (confirmed) j r' where "running_job s = Some j" "current v (runner s) = Some (queue_id j)"
      "stops (runner s) r'"
      "cancel_running_job_inner ops s sm =
         (start_next_job ops (cancelled_state s r' j sm), Some (queue_id j))"
proof (cases "running_job s")
  case None
  then show ?thesis by (intro that(1)) (simp_all add: cancel_running_job_inner_def)
next
  case (Some j)
  obtain r' reply where c: "cancel_run ops (runner s) = (r', reply)" by fastforce
  from cancel_pair [OF c] consider "reply = CancelConfirmed None"
    | i where "current v (runner s) = Some i" "reply = CancelConfirmed (Some i)" by blast
  then show ?thesis
  proof cases
    case 1
    with Some c cancel_pair [OF c] show ?thesis
      by (intro that(2)) (simp_all add: cancel_running_job_inner_def)
  next
    case (2 i)
    with inv Some have "i = queue_id j" by (auto simp: jobs_inv_def)
    with 2 Some c cancel_pair [OF c] show ?thesis
      by (intro that(3) [of j r'])
        (simp_all add: cancel_running_job_inner_def cancelled_state_def Let_def)
  qed
qed

lemma inv_stop_cancel:
  assumes "inv s" and "running_job s = Some j" and "stops (runner s) r'"
  shows "inv (s\<lparr>runner := r', running_job := None\<rparr>)"
  using assms by (auto simp: queue_inv_def jobs_inv_def book_inv_def stops_def)

lemma inv_cancelled_state:
  assumes "inv s" and "running_job s = Some j" and "stops (runner s) r'"
  shows "inv (cancelled_state s r' j sm)"
proof -
  have "inv (s\<lparr>runner := r', running_job := None\<rparr>)"
    using assms by (rule inv_stop_cancel)
  then show ?thesis
    by (simp add: cancelled_state_def Let_def inv_steps)
qed

lemma inv_cancel_inner:
  assumes "inv s"
  shows "inv (fst (cancel_running_job_inner ops s sm))"
proof -
  have j: "jobs_inv v s" using assms by (simp add: queue_inv_def)
  show ?thesis
    using j
  proof (cases rule: cancel_inner_cases [where sm = sm])
    case nothing
    with assms show ?thesis by simp
  next
    case (missed j r')
    with assms show ?thesis by (auto simp: queue_inv_def jobs_inv_def book_inv_def stops_def)
  next
    case (confirmed j r')
    with assms show ?thesis by (simp add: inv_start inv_cancelled_state)
  qed
qed

lemma inv_cancel_loop: "inv s \<Longrightarrow> inv (fst (cancel_queued_loop s ids))"
proof (induction s ids rule: cancel_queued_loop.induct)
  case (1 s)
  then show ?case by simp
next
  case (2 s i ids)
  have "inv (remove_queued s j i)" for j
    using 2(4) by (auto simp: queue_inv_def jobs_inv_remove_queued)
  with 2 show ?case
    by (simp add: case_prod_beta Let_def split: option.split)
qed

text \<open>The whole handler keeps the invariant.\<close>

lemma inv_cancel_queued: "inv s \<Longrightarrow> inv (fst (cancel_queued ops s ids sm))"
  using inv_cancel_loop [of s ids]
  by (auto simp: cancel_queued_def Let_def case_prod_beta inv_steps inv_cancel_inner split: option.split)

lemma inv_enqueue: "inv s \<Longrightarrow> inv (fst (enqueue ops s req))"
  by (simp add: enqueue_def case_prod_beta inv_steps)

lemma inv_enqueue_batch: "inv s \<Longrightarrow> inv (fst (enqueue_batch ops s reqs ds))"
  by (simp add: enqueue_batch_def case_prod_beta Let_def inv_steps)

lemma inv_clear_owed: "inv s \<Longrightarrow> inv (s\<lparr>owed := (owed s)(db := None)\<rparr>)"
  by (simp add: queue_inv_def jobs_inv_def book_inv_def)

lemma upgrade_index:
  assumes "inv s" and "find (is_maintenance_of db) (queue s) = Some j"
  shows "queued_jobs s (queue_id j) = Some j"
proof -
  have "sorted_wrt (<) (map queue_id (queue s))"
    using assms(1) by (simp add: queue_inv_def jobs_inv_def sorted_wrt_append)
  moreover have "j \<in> set (queue s)" using find_SomeD [OF assms(2)] by simp
  ultimately show ?thesis
    using assms(1) by (simp add: queue_inv_def jobs_inv_def index_jobs_in sorted_wrt_less_distinct)
qed

lemma enqueue_maintenance_upgrade:
  assumes "inv s" and "find (is_maintenance_of db) (queue s) = Some j"
    and "\<forall>r. running_job s = Some r \<longrightarrow> \<not> is_maintenance_of db r"
  shows "enqueue_maintenance ops s db udb =
     (s\<lparr>queue := update_first (is_maintenance_of db) set_all_flags (queue s),
        queued_jobs := (queued_jobs s)(queue_id j \<mapsto> set_all_flags j),
        owed := (owed s)(db := None)\<rparr>,
      Some (from_job (set_all_flags j) False))"
  using upgrade_index [OF assms(1,2)] assms(2,3)
  by (auto simp: enqueue_maintenance_def Let_def set_all_flags_def split: option.split)

lemma inv_enqueue_maintenance:
  assumes "inv s"
  shows "inv (fst (enqueue_maintenance ops s db udb))"
proof (cases "\<exists>r. running_job s = Some r \<and> is_maintenance_of db r")
  case True
  with assms show ?thesis by (auto simp: enqueue_maintenance_def)
next
  case False
  show ?thesis
  proof (cases "find (is_maintenance_of db) (queue s)")
    case None
    have "inv (start_next_job ops (fst (push_maintenance_job (s\<lparr>owed := (owed s)(db := None)\<rparr>) db udb all_summary)))"
      "inv (fst (push_maintenance_job (s\<lparr>owed := (owed s)(db := None)\<rparr>) db udb all_summary))"
      using assms by (simp_all add: inv_clear_owed inv_steps)
    with None False show ?thesis
      by (auto simp: enqueue_maintenance_def case_prod_beta Let_def split: option.split)
  next
    case (Some j)
    have "inv (s\<lparr>queue := update_first (is_maintenance_of db) set_all_flags (queue s),
        queued_jobs := (queued_jobs s)(queue_id j \<mapsto> set_all_flags j)\<rparr>)"
      using assms jobs_inv_upgrade [OF _ Some] by (auto simp: queue_inv_def book_inv_def)
    from inv_clear_owed [OF this, of db] show ?thesis
      using False by (simp add: enqueue_maintenance_upgrade [OF assms Some])
  qed
qed

lemma inv_runner_finished:
  assumes "ready v (RunnerFinished qid res) s"
  shows "inv (runner_finished ops s qid res)"
proof (cases "finishes s qid")
  case False
  with assms show ?thesis
    by (auto simp: ready_def finishes_def runner_finished_def split: option.splits)
next
  case True
  then obtain r where r: "running_job s = Some r" "queue_id r = qid"
    by (auto simp: finishes_def split: option.splits)
  have "inv (s\<lparr>running_job := None\<rparr>)" using assms True by (simp add: ready_def)
  then have "inv ((record_outcome s qid st e)\<lparr>running_job := None\<rparr>)" for st e
    unfolding record_outcome_stop by (rule inv_record_outcome)
  with r show ?thesis
    by (simp add: runner_finished_def Let_def inv_steps)
qed

lemma inv_shutdown:
  assumes "inv s"
  shows "inv (fst (shutdown_queue ops s))"
proof -
  have "inv (s\<lparr>shutting_down := True, queue := [], queued_jobs := Map.empty\<rparr>)"
    using assms jobs_inv_clear by (auto simp: queue_inv_def book_inv_def)
  from inv_cancel_inner [OF this, of True] show ?thesis
    by (auto simp: shutdown_queue_def Let_def case_prod_beta queue_inv_def
        jobs_inv_same [OF same_jobs_unload_shutdown] jobs_inv_same [OF same_jobs_flush_shutdown])
qed

lemma inv_handle:
  assumes "ready v msg s"
  shows "inv (fst (handle ops msg s))"
proof (cases msg)
  case (EnqueueMaintenance db udb)
  with assms inv_enqueue_maintenance [of s db udb] show ?thesis
    by (auto simp: handle_def ready_def inv_flush split: prod.split option.split)
next
  case (RunnerFinished qid res)
  with assms inv_runner_finished [of qid res s] show ?thesis by (simp add: handle_def inv_flush)
qed (use assms in \<open>simp_all add: handle_def ready_def case_prod_beta inv_flush inv_enqueue
      inv_enqueue_batch inv_cancel_queued inv_cancel_inner inv_merge_owed
      inv_shutdown\<close>)

text \<open>
  Between messages the queue is settled.  \<open>resting\<close> is the part that is about the
  running job, without the pending markers, which every message flushes at its end.
\<close>

abbreviation resting where
  "resting s \<equiv> (running_job s = None \<longrightarrow> queue s = [] \<and> batch_loaded s = None) \<and>
     (shutting_down s \<longrightarrow> queue s = [] \<and> current v (runner s) = None)"

lemma settled_flush: "resting s \<Longrightarrow> settled v (flush_tags_dirty_marks s)"
  by (auto simp: settled_def flush_tags_dirty_marks_def)

lemma settled_resting: "settled v s \<Longrightarrow> resting s"
  by (simp add: settled_def)

lemma shutting_down_start [simp]: "shutting_down (start_next_job ops s) = shutting_down s"
  by (auto simp: start_next_job_def Let_def record_outcome_def
      split: list.split prod.split run_reply.split)

text \<open>
  A start attempt settles any state whose batch model was already released when there is
  nothing to do.
\<close>

lemma resting_start:
  assumes "jobs_inv v s"
    and "running_job s = None \<Longrightarrow> queue s = [] \<Longrightarrow> batch_loaded s = None"
    and "shutting_down s \<Longrightarrow> queue s = [] \<and> current v (runner s) = None"
  shows "resting (start_next_job ops s)"
proof (cases "shutting_down s")
  case True
  with assms show ?thesis by (simp add: start_next_job_noop)
next
  case False
  with assms(1,2) start_next_job_busy [OF assms(1) False] show ?thesis
    by (metis shutting_down_start)
qed

lemma unload_idle: "running_job s = None \<Longrightarrow> queue s = [] \<Longrightarrow> batch_loaded (maybe_unload_batch_model s) = None"
  by (auto simp: maybe_unload_batch_model_def take_batch_unload_def split: option.split)

lemma resting_unload_start:
  assumes "jobs_inv v s"
    and "shutting_down s \<Longrightarrow> queue s = [] \<and> current v (runner s) = None"
  shows "resting (start_next_job ops (maybe_unload_batch_model s))"
proof (rule resting_start)
  note same = same_jobs_unload [of s, unfolded same_jobs_def]
  show "jobs_inv v (maybe_unload_batch_model s)"
    using assms(1) by (simp add: jobs_inv_same [OF same_jobs_unload])
  show "running_job (maybe_unload_batch_model s) = None \<Longrightarrow> queue (maybe_unload_batch_model s) = [] \<Longrightarrow>
      batch_loaded (maybe_unload_batch_model s) = None"
    using same unload_idle [of s] by simp
  show "shutting_down (maybe_unload_batch_model s) \<Longrightarrow>
      queue (maybe_unload_batch_model s) = [] \<and> current v (runner (maybe_unload_batch_model s)) = None"
    using same assms(2) by simp
qed

lemma schedule_frame [simp]:
  "running_job (maybe_schedule_maintenance s j) = running_job s"
  "runner (maybe_schedule_maintenance s j) = runner s"
  "shutting_down (maybe_schedule_maintenance s j) = shutting_down s"
  "shutting_down s \<Longrightarrow> maybe_schedule_maintenance s j = s"
  "batch_loaded (maybe_schedule_maintenance s j) = batch_loaded s"
  by (auto simp: maybe_schedule_maintenance_def push_maintenance_job_def append_job_def Let_def
      split: option.split)

lemma schedule_all_frame [simp]:
  "running_job (foldl maybe_schedule_maintenance s js) = running_job s"
  "runner (foldl maybe_schedule_maintenance s js) = runner s"
  "shutting_down (foldl maybe_schedule_maintenance s js) = shutting_down s"
  "shutting_down s \<Longrightarrow> foldl maybe_schedule_maintenance s js = s"
  by (induction js arbitrary: s) auto

lemma resting_cancel_inner:
  assumes "inv s" and "resting s"
  shows "resting (fst (cancel_running_job_inner ops s sm))"
proof -
  have j: "jobs_inv v s" using assms(1) by (simp add: queue_inv_def)
  show ?thesis
    using j
  proof (cases rule: cancel_inner_cases [where sm = sm])
    case nothing
    with assms show ?thesis by simp
  next
    case (missed j r')
    with assms show ?thesis by (auto simp: stops_def)
  next
    case (confirmed j r')
    let ?t = "record_unreported_batch_load (record_owed (record_outcome
        (s\<lparr>runner := r', running_job := None\<rparr>) (queue_id j) Cancelled None) j None) j"
    let ?u = "if \<not> sm then maybe_schedule_maintenance ?t j else ?t"
    have alive: "\<not> shutting_down s" using assms(2) confirmed by auto
    have "inv ?u"
      using inv_stop_cancel [OF assms(1) confirmed(1,3)] by (simp add: inv_steps)
    then have "resting (start_next_job ops (maybe_unload_batch_model ?u))"
      using alive by (intro resting_unload_start) (auto simp: queue_inv_def)
    then show ?thesis
      using confirmed alive by (simp add: cancelled_state_def Let_def)
  qed
qed

lemma loop_frame [simp]:
  "running_job (fst (cancel_queued_loop s ids)) = running_job s"
  "runner (fst (cancel_queued_loop s ids)) = runner s"
  "shutting_down (fst (cancel_queued_loop s ids)) = shutting_down s"
  "batch_loaded (fst (cancel_queued_loop s ids)) = batch_loaded s"
  "queue s = [] \<Longrightarrow> queue (fst (cancel_queued_loop s ids)) = []"
  by (induction s ids rule: cancel_queued_loop.induct)
    (auto simp: case_prod_beta remove_queued_def split: option.split)

lemma resting_loop:
  "resting s \<Longrightarrow> resting (fst (cancel_queued_loop s ids))"
  by auto

lemma resting_cancel_queued:
  assumes "inv s" and "resting s"
  shows "resting (fst (cancel_queued ops s ids sm))"
proof -
  define s1 where "s1 = fst (cancel_queued_loop s ids)"
  define s2 where "s2 = (case snd (snd (snd (cancel_queued_loop s ids))) of None \<Rightarrow> s1
      | Some _ \<Rightarrow> fst (cancel_running_job_inner ops s1 sm))"
  define s3 where "s3 = (if \<not> sm then foldl maybe_schedule_maintenance s2
      (fst (snd (snd (cancel_queued_loop s ids)))) else s2)"
  have "inv s1" "resting s1" using assms by (simp_all add: s1_def inv_cancel_loop)
  then have s2: "inv s2" "resting s2"
    using inv_cancel_inner [of s1 sm] resting_cancel_inner [of s1 sm]
    by (simp_all add: s2_def split: option.split)
  then have "inv s3" by (simp add: s3_def inv_steps)
  moreover have "shutting_down s3 \<Longrightarrow> queue s3 = [] \<and> current v (runner s3) = None"
    using s2(2) by (simp add: s3_def split: if_splits)
  ultimately have "resting (start_next_job ops (maybe_unload_batch_model s3))"
    by (intro resting_unload_start) (auto simp: queue_inv_def)
  moreover have "fst (cancel_queued ops s ids sm) = start_next_job ops (maybe_unload_batch_model s3)"
    by (auto simp: cancel_queued_def s3_def s2_def s1_def Let_def case_prod_beta split: option.split)
  ultimately show ?thesis by simp
qed

lemma push_job_frame [simp]:
  "running_job (fst (push_job s req)) = running_job s"
  "shutting_down (fst (push_job s req)) = shutting_down s"
  "running_job (fst (push_maintenance_job s db udb fl)) = running_job s"
  "shutting_down (fst (push_maintenance_job s db udb fl)) = shutting_down s"
  "queue (fst (push_job s req)) \<noteq> []" "queue (fst (push_maintenance_job s db udb fl)) \<noteq> []"
  by (simp_all add: push_job_def push_maintenance_job_def append_job_def Let_def)

lemma push_jobs_frame [simp]:
  "running_job (fst (push_jobs s reqs)) = running_job s"
  "shutting_down (fst (push_jobs s reqs)) = shutting_down s"
  "snd (push_jobs s reqs) = [] \<longleftrightarrow> reqs = []"
  by (induction reqs arbitrary: s) (auto simp: case_prod_beta)

lemma queue_push_jobs: "queue s \<noteq> [] \<or> reqs \<noteq> [] \<Longrightarrow> queue (fst (push_jobs s reqs)) \<noteq> []"
  by (induction reqs arbitrary: s) (auto simp: case_prod_beta)

text \<open>After something was queued, one start attempt leaves a job running.\<close>

lemma resting_start_queued:
  assumes "inv s" and "queue s \<noteq> []" and "\<not> shutting_down s"
  shows "resting (if running_job s = None then start_next_job ops s else s)"
  using assms resting_start [of s] by (auto simp: queue_inv_def)

lemma resting_enqueue:
  assumes "inv s" and "\<not> shutting_down s"
  shows "resting (fst (enqueue ops s req))"
  using resting_start_queued [of "fst (push_job s req)"] assms inv_append_ops(1) [of s req]
  by (simp add: enqueue_def case_prod_beta)

lemma resting_enqueue_batch:
  assumes "inv s" and "resting s" and "\<not> shutting_down s"
  shows "resting (fst (enqueue_batch ops s reqs ds))"
proof -
  let ?reqs = "filter (\<lambda>r. r_index_db r \<notin> set (skipped_by s ds [])) reqs"
  show ?thesis
  proof (cases "?reqs = []")
    case True
    with assms show ?thesis by (simp add: enqueue_batch_def Let_def)
  next
    case False
    with resting_start_queued [of "fst (push_jobs s ?reqs)"] assms inv_push_jobs [of s ?reqs]
    show ?thesis by (simp add: enqueue_batch_def Let_def case_prod_beta queue_push_jobs)
  qed
qed

lemma resting_enqueue_maintenance:
  assumes "inv s" and "resting s" and "\<not> shutting_down s"
  shows "resting (fst (enqueue_maintenance ops s db udb))"
proof (cases "\<exists>r. running_job s = Some r \<and> is_maintenance_of db r")
  case True
  with assms show ?thesis by (auto simp: enqueue_maintenance_def)
next
  case False
  show ?thesis
  proof (cases "find (is_maintenance_of db) (queue s)")
    case None
    let ?t = "fst (push_maintenance_job (s\<lparr>owed := (owed s)(db := None)\<rparr>) db udb all_summary)"
    have "inv ?t" using assms(1) by (simp add: inv_clear_owed inv_steps)
    with resting_start_queued [of ?t] assms(3) None False show ?thesis
      by (auto simp: enqueue_maintenance_def case_prod_beta Let_def split: option.split)
  next
    case (Some j)
    moreover from Some have "queue s \<noteq> []" by auto
    ultimately show ?thesis
      using False assms(2,3) by (auto simp: enqueue_maintenance_upgrade [OF assms(1) Some])
  qed
qed

lemma resting_runner_finished:
  assumes "ready v (RunnerFinished qid res) s" and "resting s"
  shows "resting (runner_finished ops s qid res)"
proof (cases "finishes s qid")
  case False
  with assms show ?thesis by (auto simp: finishes_def runner_finished_def split: option.splits)
next
  case True
  then obtain r where r: "running_job s = Some r" "queue_id r = qid"
    by (auto simp: finishes_def split: option.splits)
  let ?st = "if success res then Completed else Failed"
  let ?t = "maybe_schedule_maintenance (record_batch_load (record_owed
      ((record_outcome s qid ?st (error res))\<lparr>running_job := None\<rparr>) r (summary res)) r
      (success res) (loaded_model res)) r"
  have inv0: "inv (s\<lparr>running_job := None\<rparr>)" using assms(1) True by (simp add: ready_def)
  then have "jobs_inv v ((record_outcome s qid ?st (error res))\<lparr>running_job := None\<rparr>)"
    by (auto simp: queue_inv_def record_outcome_def Let_def jobs_inv_def)
  then have "jobs_inv v ?t"
    by (simp add: jobs_inv_schedule jobs_inv_same [OF same_jobs_batch_load]
        jobs_inv_same [OF same_jobs_record_owed])
  then have "resting (start_next_job ops (maybe_unload_batch_model ?t))"
    using assms(2) by (intro resting_unload_start) auto
  with r show ?thesis by (simp add: runner_finished_def Let_def)
qed

lemma resting_shutdown:
  assumes "inv s"
  shows "resting (fst (shutdown_queue ops s))"
proof -
  let ?s1 = "s\<lparr>shutting_down := True, queue := [], queued_jobs := Map.empty\<rparr>"
  let ?s2 = "fst (cancel_running_job_inner ops ?s1 True)"
  have "jobs_inv v s" using assms by (simp add: queue_inv_def)
  then have "jobs_inv v ?s1" by (rule jobs_inv_clear)
  then have s2: "shutting_down ?s2" "queue ?s2 = []" "current v (runner ?s2) = None"
    by (cases rule: cancel_inner_cases [where sm = True];
        auto simp: start_next_job_noop cancelled_state_def Let_def jobs_inv_def stops_def)+
  have "running_job t = None \<Longrightarrow> queue t = [] \<Longrightarrow> batch_loaded (unload_batch_model_on_shutdown t) = None"
    for t :: "'r job_queue_state"
    by (auto simp: unload_batch_model_on_shutdown_def take_batch_unload_def split: option.split)
  with s2 show ?thesis
    by (simp add: shutdown_queue_def Let_def case_prod_beta flush_tags_dirty_marks_on_shutdown_def)
qed

lemma settled_handle:
  assumes "ready v msg s" and "settled v s"
  shows "settled v (fst (handle ops msg s))"
proof -
  note rest = settled_resting [OF assms(2)]
  have invs: "inv s" if "\<And>qid res. msg \<noteq> RunnerFinished qid res"
    using assms(1) that by (cases msg) (auto simp: ready_def)
  show ?thesis
  proof (cases msg)
    case (EnqueueMaintenance db udb)
    show ?thesis
    proof (cases "shutting_down s")
      case True
      with EnqueueMaintenance assms(2) show ?thesis by (simp add: handle_def)
    next
      case False
      note re = resting_enqueue_maintenance [OF invs rest False, of db udb]
      have keep: "pending_marks (fst (enqueue_maintenance ops s db udb)) = []"
        if "find (is_maintenance_of db) (queue s) \<noteq> None \<or> snd (enqueue_maintenance ops s db udb) = None"
        using that assms(2)
        by (auto simp: settled_def enqueue_maintenance_def Let_def case_prod_beta split: option.splits)
      show ?thesis
        using re keep False EnqueueMaintenance settled_flush [OF re]
        by (auto simp: handle_def settled_def split: prod.split option.split)
    qed
  next
    case (Enqueue req)
    with assms(2) settled_flush [OF resting_enqueue [OF invs]] show ?thesis
      by (simp add: handle_def case_prod_beta)
  next
    case (EnqueueBatch reqs ds)
    with assms(2) settled_flush [OF resting_enqueue_batch [OF invs rest]] show ?thesis
      by (simp add: handle_def case_prod_beta)
  next
    case GetQueueStatus
    with settled_flush [OF rest] show ?thesis by (simp add: handle_def)
  next
    case (CancelQueued ids sm)
    with settled_flush [OF resting_cancel_queued [OF invs rest]] show ?thesis
      by (simp add: handle_def case_prod_beta)
  next
    case (CancelRunning sm)
    with settled_flush [OF resting_cancel_inner [OF invs rest]] show ?thesis
      by (simp add: handle_def case_prod_beta)
  next
    case (RunnerFinished qid res)
    with assms(1) settled_flush [OF resting_runner_finished [OF _ rest, of qid res]] show ?thesis
      by (simp add: handle_def)
  next
    case (RecordOwed db sm)
    have "resting (merge_owed s db sm)"
      using rest by (simp add: merge_owed_def Let_def)
    with RecordOwed assms(2) settled_flush [of "merge_owed s db sm"] show ?thesis
      by (auto simp: handle_def)
  next
    case Shutdown
    with settled_flush [OF resting_shutdown [OF invs]] show ?thesis
      by (simp add: handle_def case_prod_beta)
  qed
qed

end

end
