(* ===== verification/JobRunner.thy ===== *)
theory JobRunner
  imports JobQueueInv
begin

text \<open>
  The runner actor of \<open>panoptikon/src/jobs/queue.rs\<close> and the system it forms with the
  queue.  The runner owns a mailbox of completions (\<open>r_mailbox\<close>, the \<open>JobCompleted\<close>
  messages watchers delivered), the completions it has forwarded and the queue has not
  handled yet (\<open>r_sent\<close>), the tasks it spawned that have not ended (\<open>r_tasks\<close>), and
  the ids of every task it ever spawned (\<open>r_spawned\<close>, a history variable).

  An actor handles its mailbox in order, and the queue waits for the runner's reply; so a
  call from the queue is handled after every completion already in the mailbox
  (\<open>drain\<close>).
\<close>

section \<open>The runner actor\<close>

datatype task_outcome = Returned "string + job_success" | TaskCancelled | TaskPanicked string

definition watcher_result :: "task_outcome \<Rightarrow> job_run_result" where
  "watcher_result out =
     (case out of
        Returned (Inr ok) \<Rightarrow>
          \<lparr>success = True, error = None, summary = Some (js_summary ok),
           loaded_model = js_loaded_model ok\<rparr>
      | Returned (Inl err) \<Rightarrow> failed_result err
      | TaskCancelled \<Rightarrow> failed_result ''Job cancelled''
      | TaskPanicked err \<Rightarrow> failed_result (''Job panicked: '' @ err))"

record runner_state =
  r_running :: "int option"
  r_mailbox :: "(int \<times> job_run_result) list"
  r_sent :: "(int \<times> job_run_result) list"
  r_tasks :: "job list"
  r_spawned :: "int list"

definition init_runner :: runner_state where
  "init_runner = \<lparr>r_running = None, r_mailbox = [], r_sent = [], r_tasks = [], r_spawned = []\<rparr>"

definition runner_run_job :: "job \<Rightarrow> runner_state \<Rightarrow> runner_state \<times> run_reply" where
  "runner_run_job j r =
     (if r_running r \<noteq> None then (r, RunRejected (Internal ''Job runner busy''))
      else (r\<lparr>r_running := Some (queue_id j), r_tasks := r_tasks r @ [j],
              r_spawned := r_spawned r @ [queue_id j]\<rparr>, RunAccepted))"

definition runner_cancel_running :: "runner_state \<Rightarrow> runner_state \<times> cancel_reply" where
  "runner_cancel_running r =
     (case r_running r of
        Some i \<Rightarrow> (r\<lparr>r_running := None\<rparr>, CancelConfirmed (Some i))
      | None \<Rightarrow> (r, CancelConfirmed None))"

definition runner_job_completed :: "runner_state \<Rightarrow> int \<times> job_run_result \<Rightarrow> runner_state" where
  "runner_job_completed r c =
     (let r1 = (if r_running r = Some (fst c) then r\<lparr>r_running := None\<rparr> else r)
      in r1\<lparr>r_sent := r_sent r1 @ [c]\<rparr>)"

definition drain :: "runner_state \<Rightarrow> runner_state" where
  "drain r = foldl runner_job_completed (r\<lparr>r_mailbox := []\<rparr>) (r_mailbox r)"

definition actor_runner :: "(api_error \<Rightarrow> string) \<Rightarrow> runner_state runner_ops" where
  "actor_runner dbg =
     \<lparr>run_job = (\<lambda>j r. runner_run_job j (drain r)),
      cancel_run = (\<lambda>r. runner_cancel_running (drain r)),
      debug_error = dbg\<rparr>"

section \<open>Executing a job\<close>

text \<open>
  The services a job runs on (continuous scan, file scans, extraction, deletion, the index
  writer, vector quants) belong to other components: \<open>job_services\<close> holds what each
  answered.  \<open>execute_job\<close> is what the task of a job does with the answers.
\<close>

record job_services =
  pause_result :: "string + unit"
  rescan_result :: "string + change_summary"
  update_result :: "string + change_summary"
  extraction_result :: "string + job_success"
  deletion_result :: "string + change_summary"
  delete_job_data_result :: "int \<Rightarrow> string + nat"
  finishing_phase_result :: change_summary
  reconcile_result :: "string + change_summary"

definition with_finishing :: "job_services \<Rightarrow> string + change_summary \<Rightarrow> string + job_success" where
  "with_finishing sv res =
     (case res of
        Inl e \<Rightarrow> Inl e
      | Inr c \<Rightarrow> Inr (from_summary (or_with c (finishing_phase_result sv))))"

definition execute_job :: "job_services \<Rightarrow> job \<Rightarrow> string + job_success" where
  "execute_job sv j =
     (case job_type j of
        FolderRescan \<Rightarrow>
          (case pause_result sv of Inl e \<Rightarrow> Inl e | Inr _ \<Rightarrow> with_finishing sv (rescan_result sv))
      | FolderUpdate \<Rightarrow>
          (case pause_result sv of Inl e \<Rightarrow> Inl e | Inr _ \<Rightarrow> with_finishing sv (update_result sv))
      | DataExtraction \<Rightarrow>
          (case extraction_result sv of
             Inl e \<Rightarrow> Inl e
           | Inr ok \<Rightarrow>
               Inr (ok\<lparr>js_summary := or_with (js_summary ok) (finishing_phase_result sv)\<rparr>))
      | DataDeletion \<Rightarrow> with_finishing sv (deletion_result sv)
      | JobDataDeletion \<Rightarrow>
          (case log_id j of
             None \<Rightarrow> Inl ''Log ID required''
           | Some l \<Rightarrow>
               (case pause_result sv of
                  Inl e \<Rightarrow> Inl e
                | Inr _ \<Rightarrow>
                    (case delete_job_data_result sv l of
                       Inl e \<Rightarrow> Inl e
                     | Inr deleted \<Rightarrow>
                         with_finishing sv
                           (Inr \<lparr>wrote_data = False, deleted_data = (deleted > 0),
                                 tags_changed = (deleted > 0)\<rparr>))))
      | VectorQuantReconcile \<Rightarrow>
          (case reconcile_result sv of Inl e \<Rightarrow> Inl e | Inr c \<Rightarrow> Inr (from_summary c))
      | DbMaintenance \<Rightarrow> Inr (from_summary default_summary))"

text \<open>The flags a maintenance job reads back from its metadata: recount and vacuum.\<close>

definition maintenance_flags :: "job \<Rightarrow> bool \<times> bool" where
  "maintenance_flags j =
     (let c = from_metadata (metadata j) in (deleted_data c, tags_changed c))"

section \<open>The runner keeps its contract\<close>

definition completion_ids :: "runner_state \<Rightarrow> int list" where
  "completion_ids r = map queue_id (r_tasks r) @ map fst (r_mailbox r) @ map fst (r_sent r)"

text \<open>
  Each spawned task is in exactly one place: still running, ended and not yet seen by the
  runner, or forwarded and not yet seen by the queue, or done.  A completion is forwarded
  only after the runner cleared that job, and the job the runner runs has its completion
  still ahead of it.
\<close>

definition runner_inv :: "runner_state \<Rightarrow> bool" where
  "runner_inv r \<longleftrightarrow>
     distinct (completion_ids r) \<and>
     set (completion_ids r) \<subseteq> set (r_spawned r) \<and>
     (\<forall>i. r_running r = Some i \<longrightarrow> i \<in> set (map queue_id (r_tasks r) @ map fst (r_mailbox r)))"

definition actor_view :: "runner_state runner_view" where
  "actor_view =
     \<lparr>current = r_running, started = r_spawned, pending = (\<lambda>r. set (completion_ids r)),
      healthy = runner_inv\<rparr>"

lemma completed_frame [simp]:
  "r_tasks (runner_job_completed r c) = r_tasks r"
  "r_mailbox (runner_job_completed r c) = r_mailbox r"
  "r_spawned (runner_job_completed r c) = r_spawned r"
  "r_sent (runner_job_completed r c) = r_sent r @ [c]"
  "r_running (runner_job_completed r c) = (if r_running r = Some (fst c) then None else r_running r)"
  by (simp_all add: runner_job_completed_def Let_def)

lemma completed_all_frame:
  "r_tasks (foldl runner_job_completed r cs) = r_tasks r"
  "r_mailbox (foldl runner_job_completed r cs) = r_mailbox r"
  "r_spawned (foldl runner_job_completed r cs) = r_spawned r"
  "r_sent (foldl runner_job_completed r cs) = r_sent r @ cs"
  "r_running (foldl runner_job_completed r cs) =
     (case r_running r of None \<Rightarrow> None | Some i \<Rightarrow> if i \<in> fst ` set cs then None else Some i)"
  by (induction cs arbitrary: r) (auto split: option.split)

lemma drain_frame [simp]:
  "r_tasks (drain r) = r_tasks r" "r_mailbox (drain r) = []" "r_spawned (drain r) = r_spawned r"
  "r_sent (drain r) = r_sent r @ r_mailbox r"
  "r_running (drain r) =
     (case r_running r of None \<Rightarrow> None | Some i \<Rightarrow> if i \<in> fst ` set (r_mailbox r) then None else Some i)"
  by (simp_all add: drain_def completed_all_frame)

lemma drain_pending [simp]: "set (completion_ids (drain r)) = set (completion_ids r)"
  by (auto simp: completion_ids_def)

lemma runner_inv_run:
  assumes "runner_inv r" and "queue_id j \<notin> set (r_spawned r)"
  shows "runner_inv (fst (runner_run_job j r))"
proof -
  have "queue_id j \<notin> set (completion_ids r)" using assms by (auto simp: runner_inv_def)
  with assms(1) show ?thesis
    by (cases "r_running r") (auto simp: runner_inv_def runner_run_job_def completion_ids_def)
qed

lemma runner_inv_drain: "runner_inv r \<Longrightarrow> runner_inv (drain r)"
  by (auto simp: runner_inv_def completion_ids_def split: option.splits if_splits)

interpretation actor: job_runner "actor_runner dbg" actor_view
proof unfold_locales
  fix r and j :: job
  assume "current actor_view r = None"
  then show "snd (run_job (actor_runner dbg) j r) = RunAccepted \<and>
      current actor_view (fst (run_job (actor_runner dbg) j r)) = Some (queue_id j) \<and>
      started actor_view (fst (run_job (actor_runner dbg) j r)) = started actor_view r @ [queue_id j] \<and>
      pending actor_view (fst (run_job (actor_runner dbg) j r)) = insert (queue_id j) (pending actor_view r)"
    by (auto simp: actor_view_def actor_runner_def runner_run_job_def completion_ids_def)
next
  fix r and j :: job
  assume "healthy actor_view r" and "queue_id j \<notin> set (started actor_view r)"
  then show "healthy actor_view (fst (run_job (actor_runner dbg) j r))"
    using runner_inv_run [OF runner_inv_drain [of r], of j]
    by (simp add: actor_view_def actor_runner_def)
next
  fix r
  show "current actor_view (fst (cancel_run (actor_runner dbg) r)) = None \<and>
      started actor_view (fst (cancel_run (actor_runner dbg) r)) = started actor_view r \<and>
      pending actor_view (fst (cancel_run (actor_runner dbg) r)) = pending actor_view r"
    by (auto simp: actor_view_def actor_runner_def runner_cancel_running_def completion_ids_def
        split: option.split)
next
  fix r
  assume "healthy actor_view r"
  then show "healthy actor_view (fst (cancel_run (actor_runner dbg) r))"
    using runner_inv_drain [of r]
    by (auto simp: actor_view_def actor_runner_def runner_cancel_running_def runner_inv_def
        completion_ids_def split: option.splits if_splits)
next
  fix r
  show "snd (cancel_run (actor_runner dbg) r) = CancelConfirmed None \<or>
      (\<exists>i. current actor_view r = Some i \<and> snd (cancel_run (actor_runner dbg) r) = CancelConfirmed (Some i))"
    by (auto simp: actor_view_def actor_runner_def runner_cancel_running_def split: option.split)
qed

end
