(* ===== verification/JobSystem.thy ===== *)
theory JobSystem
  imports JobRunner "HOL-Library.Multiset"
begin

text \<open>
  The queue and the runner together: a step relation over the queue's state (which holds
  the runner's), with one rule per thing that can happen next.  Clients send any message
  but completions, tasks end with any outcome, and each actor takes the next message of its
  mailbox, in any interleaving.
\<close>

section \<open>The system\<close>

type_synonym job_system = "runner_state job_queue_state"

text \<open>
  \<open>JobRequest\<close> never asks for a maintenance job: no API builds such a request, and the
  queue's own documentation makes it a rule.
\<close>

definition client_msg :: "job_queue_message \<Rightarrow> bool" where
  "client_msg msg \<longleftrightarrow>
     (case msg of
        RunnerFinished _ _ \<Rightarrow> False
      | Enqueue req \<Rightarrow> r_job_type req \<noteq> DbMaintenance
      | EnqueueBatch reqs _ \<Rightarrow> list_all (\<lambda>req. r_job_type req \<noteq> DbMaintenance) reqs
      | _ \<Rightarrow> True)"

definition task_ends :: "job \<Rightarrow> task_outcome \<Rightarrow> runner_state \<Rightarrow> runner_state" where
  "task_ends j out r =
     r\<lparr>r_tasks := remove1 j (r_tasks r),
       r_mailbox := r_mailbox r @ [(queue_id j, watcher_result out)]\<rparr>"

definition runner_receives :: "runner_state \<Rightarrow> runner_state" where
  "runner_receives r =
     (case r_mailbox r of
        [] \<Rightarrow> r
      | c # cs \<Rightarrow> runner_job_completed (r\<lparr>r_mailbox := cs\<rparr>) c)"

inductive sys_step :: "(api_error \<Rightarrow> string) \<Rightarrow> job_system \<Rightarrow> job_system \<Rightarrow> bool"
  for dbg :: "api_error \<Rightarrow> string"
where
  client: "client_msg msg \<Longrightarrow> sys_step dbg s (fst (handle (actor_runner dbg) msg s))"
| task_done: "j \<in> set (r_tasks (runner s)) \<Longrightarrow>
     sys_step dbg s (s\<lparr>runner := task_ends j out (runner s)\<rparr>)"
| runner_recv: "r_mailbox (runner s) \<noteq> [] \<Longrightarrow>
     sys_step dbg s (s\<lparr>runner := runner_receives (runner s)\<rparr>)"
| queue_recv: "r_sent (runner s) = (i, res) # cs \<Longrightarrow>
     sys_step dbg s (fst (handle (actor_runner dbg) (RunnerFinished i res)
        (s\<lparr>runner := (runner s)\<lparr>r_sent := cs\<rparr>\<rparr>)))"

inductive reachable :: "(api_error \<Rightarrow> string) \<Rightarrow> job_system \<Rightarrow> bool" for dbg where
  init: "reachable dbg (init_queue init_runner)"
| step: "reachable dbg s \<Longrightarrow> sys_step dbg s t \<Longrightarrow> reachable dbg t"

section \<open>At most one maintenance job per index DB\<close>

definition maint_unique :: "'r job_queue_state \<Rightarrow> bool" where
  "maint_unique s \<longleftrightarrow> (\<forall>db. length (filter (is_maintenance_of db) (live_jobs s)) \<le> 1)"

lemma live_jobs_same: "same_jobs s t \<Longrightarrow> live_jobs t = live_jobs s"
  by (simp add: same_jobs_def live_jobs_def)

lemma live_jobs_append [simp]: "live_jobs (append_job j s) = live_jobs s @ [j]"
  by (simp add: live_jobs_def append_job_def)

lemma live_jobs_counter [simp]:
  "live_jobs (s\<lparr>job_counter := n\<rparr>) = live_jobs s" "live_jobs (s\<lparr>owed := ow\<rparr>) = live_jobs s"
  "live_jobs (s\<lparr>pending_marks := ps\<rparr>) = live_jobs s" "live_jobs (s\<lparr>synthesized := xs\<rparr>) = live_jobs s"
  "live_jobs (s\<lparr>runner := r\<rparr>) = live_jobs s"
  by (simp_all add: live_jobs_def)

lemma live_jobs_push_maintenance:
  "\<exists>j. live_jobs (fst (push_maintenance_job s db udb fl)) = live_jobs s @ [j] \<and>
     job_type j = DbMaintenance \<and> index_db j = db"
  by (simp add: push_maintenance_job_def Let_def)

lemma maint_unique_snoc:
  assumes "maint_unique s" and "live_jobs t = live_jobs s @ [j]"
    and "job_type j = DbMaintenance \<Longrightarrow> \<forall>k \<in> set (live_jobs s). \<not> is_maintenance_of (index_db j) k"
  shows "maint_unique t"
proof -
  have "length (filter (is_maintenance_of db) (live_jobs s @ [j])) \<le> 1" for db
  proof (cases "is_maintenance_of db j")
    case True
    then have "filter (is_maintenance_of db) (live_jobs s) = []"
      using assms(3) by (auto simp: is_maintenance_of_def)
    then show ?thesis by simp
  next
    case False
    with assms(1) show ?thesis by (simp add: maint_unique_def)
  qed
  with assms(2) show ?thesis by (simp add: maint_unique_def)
qed

lemma maint_unique_same: "same_jobs s t \<Longrightarrow> maint_unique t = maint_unique s"
  by (simp add: maint_unique_def live_jobs_same)

lemma maint_unique_le:
  assumes "maint_unique s"
    and "\<And>db. length (filter (is_maintenance_of db) (live_jobs t)) \<le>
      length (filter (is_maintenance_of db) (live_jobs s))"
  shows "maint_unique t"
  unfolding maint_unique_def
proof
  fix db
  show "length (filter (is_maintenance_of db) (live_jobs t)) \<le> 1"
    using assms(1) le_trans [OF assms(2) [of db]] by (simp add: maint_unique_def)
qed

lemma maint_unique_sub:
  assumes "maint_unique s" and "live_jobs t = filter p (live_jobs s)"
  shows "maint_unique t"
proof -
  have "length (filter q (filter p xs)) \<le> length (filter q xs)" for q :: "job \<Rightarrow> bool" and xs
    by (induction xs) auto
  with assms(2) show ?thesis by (intro maint_unique_le [OF assms(1)]) simp
qed

lemma live_jobs_push_job:
  "\<exists>j. live_jobs (fst (push_job s req)) = live_jobs s @ [j] \<and> job_type j = r_job_type req"
  by (simp add: push_job_def Let_def)

lemma maint_unique_push_job:
  "maint_unique s \<Longrightarrow> r_job_type req \<noteq> DbMaintenance \<Longrightarrow> maint_unique (fst (push_job s req))"
  using live_jobs_push_job [of s req] maint_unique_snoc [of s] by metis

lemma maint_unique_push_jobs:
  "maint_unique s \<Longrightarrow> \<forall>req \<in> set reqs. r_job_type req \<noteq> DbMaintenance \<Longrightarrow>
   maint_unique (fst (push_jobs s reqs))"
  by (induction reqs arbitrary: s) (auto simp: case_prod_beta maint_unique_push_job)

lemma maint_unique_push_maintenance:
  assumes "maint_unique s" and "\<forall>k \<in> set (live_jobs s). \<not> is_maintenance_of db k"
  shows "maint_unique (fst (push_maintenance_job s db udb fl))"
  using live_jobs_push_maintenance [of s db udb fl] maint_unique_snoc [OF assms(1)] assms(2) by metis

lemma maint_unique_schedule:
  assumes "maint_unique s"
  shows "maint_unique (maybe_schedule_maintenance s j)"
proof -
  have upd: "maint_unique (t\<lparr>synthesized := xs\<rparr>) = maint_unique t"
    "maint_unique (t\<lparr>pending_marks := ps\<rparr>) = maint_unique t"
    "maint_unique (t\<lparr>owed := ow\<rparr>) = maint_unique t" for t :: "'a job_queue_state" and xs ps ow
    by (simp_all add: maint_unique_def)
  show ?thesis
    using assms
    by (auto simp: maybe_schedule_maintenance_def Let_def upd case_prod_beta db_busy_def
        list_ex_iff is_maintenance_of_def intro!: maint_unique_push_maintenance split: option.split)
qed

lemma maint_unique_schedule_all:
  "maint_unique s \<Longrightarrow> maint_unique (foldl maybe_schedule_maintenance s js)"
  by (induction js arbitrary: s) (auto simp: maint_unique_schedule)

text \<open>A start moves the head of the queue to the running slot or drops it.\<close>

lemma maint_unique_start:
  assumes "maint_unique s"
  shows "maint_unique (start_next_job ops s)"
proof (cases "shutting_down s \<or> running_job s \<noteq> None \<or> queue s = []")
  case True
  with assms show ?thesis by (auto simp: start_next_job_def)
next
  case False
  then obtain j js where q: "queue s = j # js" "running_job s = None" "\<not> shutting_down s"
    by (cases "queue s") auto
  have "live_jobs (start_next_job ops s) \<in> {live_jobs s, js}"
    using q by (auto simp: start_next_job_def live_jobs_def Let_def record_outcome_def
        split: prod.split run_reply.split)
  moreover have "live_jobs s = j # js" using q by (simp add: live_jobs_def)
  moreover have "length (filter p js) \<le> length (filter p (j # js))" for p :: "job \<Rightarrow> bool"
    by simp
  ultimately show ?thesis
    by (intro maint_unique_le [OF assms]) auto
qed

lemma maint_unique_stop: "maint_unique s \<Longrightarrow> maint_unique (s\<lparr>running_job := None\<rparr>)"
proof -
  assume a: "maint_unique s"
  have "length (filter p (queue s)) \<le> length (filter p (live_jobs s))" for p
    by (simp add: live_jobs_def)
  moreover have "live_jobs (s\<lparr>running_job := None\<rparr>) = queue s" by (simp add: live_jobs_def)
  ultimately show ?thesis by (intro maint_unique_le [OF a]) simp
qed

lemmas maint_unique_frames =
  maint_unique_same [OF same_jobs_record_outcome] maint_unique_same [OF same_jobs_merge_owed]
  maint_unique_same [OF same_jobs_record_owed] maint_unique_same [OF same_jobs_unreported]
  maint_unique_same [OF same_jobs_batch_load] maint_unique_same [OF same_jobs_unload]
  maint_unique_same [OF same_jobs_unload_shutdown] maint_unique_same [OF same_jobs_flush]
  maint_unique_same [OF same_jobs_flush_shutdown]

lemma maint_unique_cancel_inner:
  assumes "maint_unique s"
  shows "maint_unique (fst (cancel_running_job_inner ops s sm))"
proof -
  have upd: "maint_unique (s\<lparr>runner := r\<rparr>)" "maint_unique (s\<lparr>runner := r, running_job := None\<rparr>)" for r
    using assms maint_unique_stop [of "s\<lparr>runner := r\<rparr>"] by (simp_all add: maint_unique_def)
  show ?thesis
    using assms upd
    by (auto simp: cancel_running_job_inner_def Let_def maint_unique_frames
        intro!: maint_unique_start maint_unique_schedule split: option.split prod.split cancel_reply.split)
qed

lemma maint_unique_remove_queued:
  assumes "maint_unique s"
  shows "maint_unique (remove_queued s j i)"
proof -
  let ?t = "s\<lparr>queued_jobs := (queued_jobs s)(i := None), queue := filter (\<lambda>e. queue_id e \<noteq> i) (queue s)\<rparr>"
  have "length (filter p (live_jobs ?t)) \<le> length (filter p (live_jobs s))" for p
  proof -
    have "length (filter p (filter q xs)) \<le> length (filter p xs)" for q xs
      by (induction xs) auto
    then show ?thesis by (simp add: live_jobs_def)
  qed
  then have "maint_unique ?t" by (intro maint_unique_le [OF assms])
  then show ?thesis by (simp add: remove_queued_def maint_unique_frames)
qed

lemma maint_unique_loop: "maint_unique s \<Longrightarrow> maint_unique (fst (cancel_queued_loop s ids))"
  by (induction s ids rule: cancel_queued_loop.induct)
    (auto simp: case_prod_beta maint_unique_remove_queued split: option.split)

lemma maint_unique_cancel_queued:
  assumes "maint_unique s"
  shows "maint_unique (fst (cancel_queued ops s ids sm))"
  using maint_unique_loop [OF assms, of ids]
  by (auto simp: cancel_queued_def Let_def case_prod_beta maint_unique_frames maint_unique_start
      maint_unique_schedule_all maint_unique_cancel_inner split: option.split)

lemma maint_unique_enqueue_maintenance:
  assumes "maint_unique s"
  shows "maint_unique (fst (enqueue_maintenance ops s db udb))"
proof (cases "\<exists>r. running_job s = Some r \<and> is_maintenance_of db r")
  case True
  with assms show ?thesis by (auto simp: enqueue_maintenance_def)
next
  case False
  show ?thesis
  proof (cases "find (is_maintenance_of db) (queue s)")
    case None
    then have "\<forall>k \<in> set (live_jobs s). \<not> is_maintenance_of db k"
      using False by (auto simp: live_jobs_def dest: find_NoneD split: option.splits)
    then have "maint_unique (fst (push_maintenance_job (s\<lparr>owed := (owed s)(db := None)\<rparr>) db udb all_summary))"
      using assms by (intro maint_unique_push_maintenance) (simp_all add: maint_unique_def)
    with None False show ?thesis
      by (auto simp: enqueue_maintenance_def case_prod_beta Let_def maint_unique_start split: option.split)
  next
    case (Some j)
    have "length (filter (is_maintenance_of d) (update_first q set_all_flags xs)) =
        length (filter (is_maintenance_of d) xs)" for d q xs
      by (induction xs) (auto simp: is_maintenance_of_def set_all_flags_def)
    then have "maint_unique (s\<lparr>queue := update_first (is_maintenance_of db) set_all_flags (queue s),
        queued_jobs := m, owed := ow\<rparr>)" for m ow
      using assms by (simp add: maint_unique_def live_jobs_def)
    moreover have "maint_unique (t\<lparr>queued_jobs := m, owed := ow\<rparr>) = maint_unique t"
      "maint_unique (t\<lparr>owed := ow\<rparr>) = maint_unique t"
      "maint_unique (t\<lparr>queued_jobs := m\<rparr>) = maint_unique t" for t :: "'a job_queue_state" and m ow
      by (simp_all add: maint_unique_def live_jobs_def)
    ultimately show ?thesis
      using False Some by (auto simp: enqueue_maintenance_def Let_def split: option.splits)
  qed
qed

lemma maint_unique_runner_finished: "maint_unique s \<Longrightarrow> maint_unique (runner_finished ops s qid res)"
  by (auto simp: runner_finished_def Let_def maint_unique_frames
      intro!: maint_unique_start maint_unique_schedule maint_unique_stop split: option.split)

lemma maint_unique_shutdown:
  assumes "maint_unique s"
  shows "maint_unique (fst (shutdown_queue ops s))"
proof -
  have "length (filter p (live_jobs (s\<lparr>shutting_down := True, queue := [], queued_jobs := m\<rparr>)))
      \<le> length (filter p (live_jobs s))" for p m
    by (simp add: live_jobs_def)
  then have "maint_unique (s\<lparr>shutting_down := True, queue := [], queued_jobs := Map.empty\<rparr>)"
    by (intro maint_unique_le [OF assms])
  then show ?thesis
    by (simp add: shutdown_queue_def Let_def case_prod_beta maint_unique_frames maint_unique_cancel_inner)
qed

lemma maint_unique_handle:
  assumes "maint_unique s" and "client_msg msg \<or> (\<exists>i res. msg = RunnerFinished i res)"
  shows "maint_unique (fst (handle ops msg s))"
proof (cases msg)
  case (Enqueue req)
  with assms show ?thesis
    by (auto simp: handle_def enqueue_def case_prod_beta maint_unique_frames client_msg_def
        intro!: maint_unique_start maint_unique_push_job)
next
  case (EnqueueBatch reqs ds)
  with assms have "maint_unique (fst (push_jobs s (filter (\<lambda>r. r_index_db r \<notin> set (skipped_by s ds [])) reqs)))"
    by (intro maint_unique_push_jobs) (auto simp: client_msg_def list_all_iff)
  with EnqueueBatch assms(1) show ?thesis
    by (auto simp: handle_def enqueue_batch_def Let_def case_prod_beta maint_unique_frames
        intro!: maint_unique_start)
next
  case (EnqueueMaintenance db udb)
  with assms(1) maint_unique_enqueue_maintenance [OF assms(1), of ops db udb] show ?thesis
    by (auto simp: handle_def maint_unique_frames split: prod.split option.split)
qed (use assms(1) in \<open>simp_all add: handle_def case_prod_beta maint_unique_frames
      maint_unique_cancel_queued maint_unique_cancel_inner maint_unique_runner_finished maint_unique_shutdown\<close>)

section \<open>The invariant of the system\<close>

definition sys_inv :: "job_system \<Rightarrow> bool" where
  "sys_inv s \<longleftrightarrow> queue_inv actor_view s \<and> settled actor_view s \<and> maint_unique s"

text \<open>Moving a completion along its way changes neither what is pending nor what runs.\<close>

lemma runner_inv_moves:
  assumes "runner_inv r" and "mset (completion_ids r') = mset (completion_ids r)"
    and "r_spawned r' = r_spawned r"
    and "\<And>i. r_running r' = Some i \<Longrightarrow>
      r_running r = Some i \<and> i \<in> set (map queue_id (r_tasks r') @ map fst (r_mailbox r'))"
  shows "runner_inv r' \<and> set (completion_ids r') = set (completion_ids r)"
  using assms mset_eq_imp_distinct_iff [OF assms(2)] mset_eq_setD [OF assms(2)]
  by (simp add: runner_inv_def)

lemma queue_inv_moves:
  assumes "queue_inv actor_view s" and "runner_inv r'"
    and "set (completion_ids r') = set (completion_ids (runner s))"
    and "r_spawned r' = r_spawned (runner s)"
    and "\<And>i. r_running r' = Some i \<Longrightarrow> r_running (runner s) = Some i"
  shows "queue_inv actor_view (s\<lparr>runner := r'\<rparr>)"
  using assms by (auto simp: queue_inv_def jobs_inv_def book_inv_def actor_view_def)

lemma mset_map_remove1:
  "j \<in> set xs \<Longrightarrow> add_mset (f j) (mset (map f (remove1 j xs))) = mset (map f xs)"
  by (induction xs) auto

lemma task_ends_moves:
  assumes "runner_inv r" and "j \<in> set (r_tasks r)"
  shows "mset (completion_ids (task_ends j out r)) = mset (completion_ids r)"
  using mset_map_remove1 [OF assms(2), of queue_id] by (simp add: completion_ids_def task_ends_def)

lemma image_remove1: "i \<in> f ` set xs \<Longrightarrow> i \<noteq> f j \<Longrightarrow> i \<in> f ` set (remove1 j xs)"
  by (induction xs) auto

lemma task_ends_inv:
  assumes "runner_inv r" and "j \<in> set (r_tasks r)"
  shows "runner_inv (task_ends j out r) \<and>
     set (completion_ids (task_ends j out r)) = set (completion_ids r)"
proof (rule runner_inv_moves [OF assms(1) task_ends_moves [OF assms]])
  show "r_spawned (task_ends j out r) = r_spawned r" by (simp add: task_ends_def)
  fix i assume run: "r_running (task_ends j out r) = Some i"
  then have "i \<in> set (map queue_id (r_tasks r) @ map fst (r_mailbox r))"
    using assms(1) by (simp add: runner_inv_def task_ends_def)
  with image_remove1 [of i queue_id "r_tasks r" j] show "r_running r = Some i \<and>
      i \<in> set (map queue_id (r_tasks (task_ends j out r)) @ map fst (r_mailbox (task_ends j out r)))"
    using run by (auto simp del: set_remove1_eq simp: task_ends_def)
qed

lemma runner_receives_inv:
  assumes "runner_inv r" and "r_mailbox r = c # cs"
  shows "runner_inv (runner_receives r) \<and>
     set (completion_ids (runner_receives r)) = set (completion_ids r)"
proof (rule runner_inv_moves [OF assms(1)])
  show "mset (completion_ids (runner_receives r)) = mset (completion_ids r)"
    using assms(2) by (simp add: completion_ids_def runner_receives_def)
  show "r_spawned (runner_receives r) = r_spawned r"
    using assms(2) by (simp add: runner_receives_def)
  fix i assume "r_running (runner_receives r) = Some i"
  with assms show "r_running r = Some i \<and>
      i \<in> set (map queue_id (r_tasks (runner_receives r)) @ map fst (r_mailbox (runner_receives r)))"
    by (auto simp: runner_receives_def runner_inv_def split: if_splits)
qed

lemma queue_takes_ready:
  assumes "queue_inv actor_view s" and "r_sent (runner s) = (i, res) # cs"
  shows "ready actor_view (RunnerFinished i res) (s\<lparr>runner := (runner s)\<lparr>r_sent := cs\<rparr>\<rparr>)"
  using assms
  by (auto simp: ready_def finishes_def queue_inv_def jobs_inv_def book_inv_def actor_view_def
      runner_inv_def completion_ids_def split: option.splits)

lemma settled_runner:
  "settled actor_view s \<Longrightarrow> (\<And>i. r_running r' = Some i \<Longrightarrow> r_running (runner s) = Some i) \<Longrightarrow>
   settled actor_view (s\<lparr>runner := r'\<rparr>)"
  by (cases "r_running r'") (auto simp: settled_def actor_view_def)

lemma sys_step_inv:
  assumes "sys_step dbg s t" and "sys_inv s"
  shows "sys_inv t"
  using assms
proof (induction rule: sys_step.induct)
  case (client msg s)
  then have "ready actor_view msg s" by (cases msg) (auto simp: client_msg_def ready_def sys_inv_def)
  with client show ?case
    by (simp add: sys_inv_def actor.inv_handle actor.settled_handle maint_unique_handle)
next
  case (task_done j s out)
  have r: "runner_inv (runner s)"
    using task_done by (simp add: sys_inv_def queue_inv_def jobs_inv_def actor_view_def)
  have "maint_unique (s\<lparr>runner := task_ends j out (runner s)\<rparr>)"
    using task_done by (simp add: sys_inv_def maint_unique_def)
  moreover have "queue_inv actor_view (s\<lparr>runner := task_ends j out (runner s)\<rparr>)"
    using task_done(2) task_ends_inv [OF r task_done(1)]
    by (intro queue_inv_moves) (simp_all add: sys_inv_def task_ends_def)
  moreover have "settled actor_view (s\<lparr>runner := task_ends j out (runner s)\<rparr>)"
    using task_done(2) by (intro settled_runner) (simp_all add: sys_inv_def task_ends_def)
  ultimately show ?case by (simp add: sys_inv_def)
next
  case (runner_recv s)
  then obtain c cs where m: "r_mailbox (runner s) = c # cs" by (cases "r_mailbox (runner s)") auto
  have r: "runner_inv (runner s)"
    using runner_recv by (simp add: sys_inv_def queue_inv_def jobs_inv_def actor_view_def)
  have keep: "r_running (runner_receives (runner s)) = Some i \<Longrightarrow> r_running (runner s) = Some i" for i
    using m by (auto simp: runner_receives_def split: if_splits)
  have "r_spawned (runner_receives (runner s)) = r_spawned (runner s)"
    using m by (simp add: runner_receives_def)
  then have "queue_inv actor_view (s\<lparr>runner := runner_receives (runner s)\<rparr>)"
    using runner_recv(2) runner_receives_inv [OF r m] keep
    by (intro queue_inv_moves) (simp_all add: sys_inv_def)
  moreover have "settled actor_view (s\<lparr>runner := runner_receives (runner s)\<rparr>)"
    using runner_recv(2) keep by (intro settled_runner) (simp_all add: sys_inv_def)
  moreover have "maint_unique (s\<lparr>runner := runner_receives (runner s)\<rparr>)"
    using runner_recv by (simp add: sys_inv_def maint_unique_def)
  ultimately show ?case by (simp add: sys_inv_def)
next
  case (queue_recv s i res cs)
  let ?s = "s\<lparr>runner := (runner s)\<lparr>r_sent := cs\<rparr>\<rparr>"
  have "ready actor_view (RunnerFinished i res) ?s"
    using queue_recv by (intro queue_takes_ready) (auto simp: sys_inv_def)
  moreover have "settled actor_view ?s" "maint_unique ?s"
    using queue_recv by (auto simp: sys_inv_def maint_unique_def intro: settled_runner)
  ultimately show ?case
    by (simp add: sys_inv_def actor.inv_handle actor.settled_handle maint_unique_handle)
qed

lemma sys_inv_init: "sys_inv (init_queue init_runner)"
  by (simp add: sys_inv_def queue_inv_def jobs_inv_def book_inv_def settled_def maint_unique_def
      live_jobs_def init_queue_def init_runner_def actor_view_def runner_inv_def completion_ids_def)

lemma reachable_inv: "reachable dbg s \<Longrightarrow> sys_inv s"
  by (induction rule: reachable.induct) (auto simp: sys_inv_init sys_step_inv)

text \<open>What the invariant says of a reachable state, in the terms of the two actors.\<close>

lemma reachable_facts:
  assumes "reachable dbg s"
  shows "sorted_wrt (<) (r_spawned (runner s) @ map queue_id (queue s))"
    and "running_job s = None \<Longrightarrow> queue s = [] \<and> batch_loaded s = None \<and> r_running (runner s) = None"
    and "running_job s = Some j \<Longrightarrow> queue_id j \<in> set (r_spawned (runner s)) \<and>
      queue_id j \<in> set (completion_ids (runner s))"
    and "shutting_down s \<Longrightarrow> queue s = [] \<and> r_running (runner s) = None"
    and "queued_jobs s = index_jobs (queue s)"
    and "pending_marks s = []"
    and "runner_inv (runner s)"
proof -
  have i: "sys_inv s" using assms by (rule reachable_inv)
  then show "sorted_wrt (<) (r_spawned (runner s) @ map queue_id (queue s))"
    "running_job s = Some j \<Longrightarrow> queue_id j \<in> set (r_spawned (runner s)) \<and>
      queue_id j \<in> set (completion_ids (runner s))"
    "shutting_down s \<Longrightarrow> queue s = [] \<and> r_running (runner s) = None"
    "queued_jobs s = index_jobs (queue s)" "pending_marks s = []" "runner_inv (runner s)"
    by (simp_all add: sys_inv_def queue_inv_def jobs_inv_def settled_def actor_view_def)
  show "running_job s = None \<Longrightarrow> queue s = [] \<and> batch_loaded s = None \<and> r_running (runner s) = None"
    using i by (cases "r_running (runner s)")
      (auto simp: sys_inv_def queue_inv_def jobs_inv_def settled_def actor_view_def)
qed

end
