(* ===== verification/JobFacts.thy ===== *)
theory JobFacts
  imports JobSystem
begin

text \<open>
  What single messages of the job queue do: the durable markers they write for newly owed
  recounts, the owed flags a job boundary pays or keeps, the start a message can cause, and
  the steps by which a running job always reaches its end.
\<close>

section \<open>Durable markers\<close>

definition tags_owed :: "'r job_queue_state \<Rightarrow> string \<Rightarrow> bool" where
  "tags_owed s db \<longleftrightarrow> (case owed s db of None \<Rightarrow> False | Some c \<Rightarrow> tags_changed c)"

text \<open>Every recount owed beyond the given ones waits for its marker to be written.\<close>

definition marks_cover :: "(string \<Rightarrow> bool) \<Rightarrow> 'r job_queue_state \<Rightarrow> bool" where
  "marks_cover B s \<longleftrightarrow> (\<forall>db. tags_owed s db \<longrightarrow> B db \<or> db \<in> set (pending_marks s))"

lemma marks_cover_same:
  "owed t = owed s \<Longrightarrow> pending_marks t = pending_marks s \<Longrightarrow> marks_cover B t = marks_cover B s"
  by (simp add: marks_cover_def tags_owed_def)

lemma marks_cover_merge: "marks_cover B s \<Longrightarrow> marks_cover B (merge_owed s db c)"
  by (auto simp: marks_cover_def tags_owed_def merge_owed_def Let_def default_summary_def
      split: option.splits if_splits)

lemma marks_cover_record: "marks_cover B s \<Longrightarrow> marks_cover B (record_owed s j c)"
  by (simp add: record_owed_def marks_cover_merge)

lemma marks_cover_schedule: "marks_cover B s \<Longrightarrow> marks_cover B (maybe_schedule_maintenance s j)"
  by (auto simp: marks_cover_def tags_owed_def maybe_schedule_maintenance_def Let_def
      push_maintenance_job_def append_job_def split: option.splits if_splits)

lemma marks_cover_schedule_all:
  "marks_cover B s \<Longrightarrow> marks_cover B (foldl maybe_schedule_maintenance s js)"
  by (induction js arbitrary: s) (auto simp: marks_cover_schedule)

lemma owed_frames:
  "owed (start_next_job ops s) = owed s" "pending_marks (start_next_job ops s) = pending_marks s"
  "owed (record_unreported_batch_load s j) = owed s"
  "pending_marks (record_unreported_batch_load s j) = pending_marks s"
  "owed (record_batch_load s j ok lm) = owed s"
  "pending_marks (record_batch_load s j ok lm) = pending_marks s"
  "owed (maybe_unload_batch_model s) = owed s"
  "pending_marks (maybe_unload_batch_model s) = pending_marks s"
  "owed (unload_batch_model_on_shutdown s) = owed s"
  "pending_marks (unload_batch_model_on_shutdown s) = pending_marks s"
  "owed (remove_queued s j i) = owed s" "pending_marks (remove_queued s j i) = pending_marks s"
  "owed (fst (push_job s req)) = owed s" "pending_marks (fst (push_job s req)) = pending_marks s"
  by (simp_all add: start_next_job_def Let_def record_unreported_batch_load_def record_batch_load_def
      maybe_unload_batch_model_def unload_batch_model_on_shutdown_def take_batch_unload_def
      remove_queued_def push_job_def append_job_def
      split: list.split prod.split run_reply.split option.split)

lemma owed_loop_frames:
  "owed (fst (cancel_queued_loop s ids)) = owed s"
  "pending_marks (fst (cancel_queued_loop s ids)) = pending_marks s"
  "owed (fst (push_jobs s reqs)) = owed s"
  "pending_marks (fst (push_jobs s reqs)) = pending_marks s"
proof -
  show "owed (fst (cancel_queued_loop s ids)) = owed s"
    "pending_marks (fst (cancel_queued_loop s ids)) = pending_marks s"
    by (induction s ids rule: cancel_queued_loop.induct)
      (auto simp: case_prod_beta owed_frames split: option.split)
  show "owed (fst (push_jobs s reqs)) = owed s"
    "pending_marks (fst (push_jobs s reqs)) = pending_marks s"
    by (induction reqs arbitrary: s) (auto simp: case_prod_beta owed_frames)
qed

lemmas marks_cover_frames =
  marks_cover_same [OF owed_frames(1,2)] marks_cover_same [OF owed_frames(3,4)]
  marks_cover_same [OF owed_frames(5,6)] marks_cover_same [OF owed_frames(7,8)]
  marks_cover_same [OF owed_frames(9,10)] marks_cover_same [OF owed_frames(13,14)]
  marks_cover_same [OF owed_loop_frames(1,2)] marks_cover_same [OF owed_loop_frames(3,4)]

lemma marks_cover_fields [simp]:
  "marks_cover B (s\<lparr>runner := r\<rparr>) = marks_cover B s"
  "marks_cover B (s\<lparr>running_job := rj\<rparr>) = marks_cover B s"
  "marks_cover B (record_outcome s i st e) = marks_cover B s"
  "marks_cover B (s\<lparr>shutting_down := b, queue := q, queued_jobs := m\<rparr>) = marks_cover B s"
  "marks_cover B s \<Longrightarrow> marks_cover B (s\<lparr>owed := (owed s)(db := None)\<rparr>)"
  by (auto simp: marks_cover_def tags_owed_def)

lemma marks_cover_cancel_inner:
  "marks_cover B s \<Longrightarrow> marks_cover B (fst (cancel_running_job_inner ops s sm))"
  by (simp add: cancel_running_job_inner_def Let_def marks_cover_frames marks_cover_record
      marks_cover_schedule split: option.split prod.split cancel_reply.split)

lemma marks_cover_cancel_queued:
  assumes "marks_cover B s"
  shows "marks_cover B (fst (cancel_queued ops s ids sm))"
  using assms
  by (simp add: cancel_queued_def Let_def case_prod_beta marks_cover_frames marks_cover_schedule_all
      marks_cover_cancel_inner split: option.split)

lemma marks_cover_push_maintenance:
  "marks_cover B s \<Longrightarrow> marks_cover B (fst (push_maintenance_job s db udb fl))"
  by (simp add: push_maintenance_job_def append_job_def Let_def marks_cover_def tags_owed_def)

lemma marks_cover_enqueue_maintenance:
  assumes "marks_cover B s"
  shows "marks_cover B (fst (enqueue_maintenance ops s db udb))"
proof -
  have upd: "marks_cover B (s\<lparr>queue := q, queued_jobs := m, owed := (owed s)(db := None)\<rparr>)"
    "marks_cover B (s\<lparr>queue := q, owed := (owed s)(db := None)\<rparr>)" for q m
    using assms by (auto simp: marks_cover_def tags_owed_def)
  show ?thesis
    using assms
    by (simp add: enqueue_maintenance_def Let_def case_prod_beta upd marks_cover_frames
        marks_cover_push_maintenance split: option.split)
qed

lemma marks_cover_runner_finished:
  "marks_cover B s \<Longrightarrow> marks_cover B (runner_finished ops s qid res)"
  by (simp add: runner_finished_def Let_def marks_cover_frames marks_cover_record
      marks_cover_schedule split: option.split)

text \<open>A flush writes a marker for each; the lists of written markers only grow.\<close>

definition newly_marked :: "'r job_queue_state \<Rightarrow> 'r job_queue_state \<Rightarrow> string set" where
  "newly_marked s t =
     set (drop (length (marked_dirty s)) (marked_dirty t)) \<union>
     set (drop (length (shutdown_marked_dirty s)) (shutdown_marked_dirty t))"

definition same_marks :: "'r job_queue_state \<Rightarrow> 'r job_queue_state \<Rightarrow> bool" where
  "same_marks s t \<longleftrightarrow>
     marked_dirty t = marked_dirty s \<and> shutdown_marked_dirty t = shutdown_marked_dirty s"

lemma same_marks_trans: "same_marks s t \<Longrightarrow> same_marks t u \<Longrightarrow> same_marks s u"
  by (simp add: same_marks_def)

lemma same_marks_ops [simp]:
  "same_marks s s" "same_marks s (record_outcome s i st e)" "same_marks s (merge_owed s db c)"
  "same_marks s (record_owed s j sm)" "same_marks s (record_unreported_batch_load s j)"
  "same_marks s (record_batch_load s j ok lm)" "same_marks s (maybe_schedule_maintenance s j)"
  "same_marks s (maybe_unload_batch_model s)" "same_marks s (unload_batch_model_on_shutdown s)"
  "same_marks s (start_next_job ops s)" "same_marks s (remove_queued s j i)"
  "same_marks s (fst (push_job s req))" "same_marks s (fst (push_maintenance_job s db udb fl))"
  by (simp_all add: same_marks_def record_outcome_def merge_owed_def record_owed_def Let_def
      start_next_job_def record_unreported_batch_load_def record_batch_load_def
      maybe_unload_batch_model_def unload_batch_model_on_shutdown_def take_batch_unload_def
      remove_queued_def push_job_def push_maintenance_job_def append_job_def
      maybe_schedule_maintenance_def
      split: list.split prod.split run_reply.split option.split)

lemmas same_marks_simps = same_marks_ops(2-13) [unfolded same_marks_def]

lemma same_marks_cancel_inner: "same_marks s (fst (cancel_running_job_inner ops s sm))"
  by (simp add: cancel_running_job_inner_def Let_def same_marks_def same_marks_simps
      split: option.split prod.split cancel_reply.split)

lemma same_marks_loop: "same_marks s (fst (cancel_queued_loop s ids))"
  by (induction s ids rule: cancel_queued_loop.induct)
    (auto simp: case_prod_beta split: option.split
      intro: same_marks_trans [OF same_marks_ops(11)])

lemma same_marks_schedule_all: "same_marks s (foldl maybe_schedule_maintenance s js)"
  by (induction js arbitrary: s) (auto intro: same_marks_trans [OF same_marks_ops(7)])

lemma same_marks_push_jobs: "same_marks s (fst (push_jobs s reqs))"
  by (induction reqs arbitrary: s) (auto simp: case_prod_beta intro: same_marks_trans [OF same_marks_ops(12)])

lemma same_marks_cancel_queued: "same_marks s (fst (cancel_queued ops s ids sm))"
proof -
  define s1 where "s1 = fst (cancel_queued_loop s ids)"
  define s2 where "s2 = (case snd (snd (snd (cancel_queued_loop s ids))) of None \<Rightarrow> s1
      | Some _ \<Rightarrow> fst (cancel_running_job_inner ops s1 sm))"
  define s3 where "s3 = (if \<not> sm then foldl maybe_schedule_maintenance s2
      (fst (snd (snd (cancel_queued_loop s ids)))) else s2)"
  have "same_marks s s1" by (simp add: s1_def same_marks_loop)
  moreover have "same_marks s1 s2"
    by (simp add: s2_def same_marks_cancel_inner split: option.split)
  moreover have "same_marks s2 s3" by (simp add: s3_def same_marks_schedule_all)
  moreover have "same_marks s3 (start_next_job ops (maybe_unload_batch_model s3))"
    by (rule same_marks_trans [OF same_marks_ops(8) same_marks_ops(10)])
  moreover have "fst (cancel_queued ops s ids sm) = start_next_job ops (maybe_unload_batch_model s3)"
    by (auto simp: cancel_queued_def s3_def s2_def s1_def Let_def case_prod_beta split: option.split)
  ultimately show ?thesis by (simp add: same_marks_def)
qed

lemma same_marks_enqueue_maintenance: "same_marks s (fst (enqueue_maintenance ops s db udb))"
  by (simp add: enqueue_maintenance_def Let_def case_prod_beta same_marks_def start_next_job_def
      push_maintenance_job_def append_job_def record_outcome_def
      split: option.split list.split prod.split run_reply.split)

lemma same_marks_runner_finished: "same_marks s (runner_finished ops s qid res)"
  by (simp add: runner_finished_def Let_def same_marks_def same_marks_simps split: option.split)

lemma flush_marks:
  assumes "marks_cover B t" and "same_marks s t" and "tags_owed (flush_tags_dirty_marks t) db"
  shows "B db \<or> db \<in> newly_marked s (flush_tags_dirty_marks t)"
  using assms by (auto simp: marks_cover_def same_marks_def newly_marked_def flush_tags_dirty_marks_def
      tags_owed_def)

lemma shutdown_marks:
  assumes "marks_cover B t" and "same_marks s t"
    and "tags_owed (flush_tags_dirty_marks (flush_tags_dirty_marks_on_shutdown t)) db"
  shows "B db \<or> db \<in> newly_marked s (flush_tags_dirty_marks (flush_tags_dirty_marks_on_shutdown t))"
  using assms by (auto simp: marks_cover_def same_marks_def newly_marked_def flush_tags_dirty_marks_def
      flush_tags_dirty_marks_on_shutdown_def tags_owed_def)

lemma handle_marks:
  assumes "pending_marks s = []" and "tags_owed (fst (handle ops msg s)) db"
  shows "tags_owed s db \<or> db \<in> newly_marked s (fst (handle ops msg s))"
proof -
  have B: "marks_cover (tags_owed s) s" by (simp add: marks_cover_def)
  note fl = flush_marks [where B = "tags_owed s" and s = s and db = db]
  show ?thesis
  proof (cases msg)
    case (Enqueue req)
    have "marks_cover (tags_owed s) (fst (enqueue ops s req))" "same_marks s (fst (enqueue ops s req))"
      using B by (simp_all add: enqueue_def case_prod_beta marks_cover_frames same_marks_def same_marks_simps)
    with Enqueue assms fl show ?thesis by (simp add: handle_def case_prod_beta split: if_splits)
  next
    case (EnqueueBatch reqs ds)
    have "marks_cover (tags_owed s) (fst (enqueue_batch ops s reqs ds))"
      using B by (simp add: enqueue_batch_def case_prod_beta Let_def marks_cover_frames)
    moreover have "same_marks s (fst (enqueue_batch ops s reqs ds))"
      by (simp add: enqueue_batch_def case_prod_beta Let_def same_marks_push_jobs
          same_marks_trans [OF same_marks_push_jobs same_marks_ops(10)])
    ultimately show ?thesis
      using EnqueueBatch assms fl by (simp add: handle_def case_prod_beta split: if_splits)
  next
    case (EnqueueMaintenance db' udb)
    let ?t = "fst (enqueue_maintenance ops s db' udb)"
    have t: "marks_cover (tags_owed s) ?t" "same_marks s ?t"
      using B by (simp_all add: marks_cover_enqueue_maintenance same_marks_enqueue_maintenance)
    have "pending_marks ?t = []"
      using assms(1) by (simp add: enqueue_maintenance_def Let_def case_prod_beta owed_frames
          push_maintenance_job_def append_job_def split: option.split)
    with t(1) have "tags_owed ?t db \<Longrightarrow> tags_owed s db" by (simp add: marks_cover_def)
    with EnqueueMaintenance assms(2) fl [OF t] show ?thesis
      by (auto simp: handle_def split: prod.splits option.splits if_splits)
  next
    case GetQueueStatus
    with assms fl [OF B same_marks_ops(1)] show ?thesis by (simp add: handle_def)
  next
    case (CancelQueued ids sm)
    with assms fl [OF marks_cover_cancel_queued [OF B] same_marks_cancel_queued] show ?thesis
      by (simp add: handle_def case_prod_beta)
  next
    case (CancelRunning sm)
    with assms fl [OF marks_cover_cancel_inner [OF B] same_marks_cancel_inner] show ?thesis
      by (simp add: handle_def case_prod_beta)
  next
    case (RunnerFinished qid res)
    with assms fl [OF marks_cover_runner_finished [OF B] same_marks_runner_finished] show ?thesis
      by (simp add: handle_def)
  next
    case (RecordOwed db' sm)
    with assms fl [OF marks_cover_merge [OF B] same_marks_ops(3)] show ?thesis
      by (auto simp: handle_def split: if_splits)
  next
    case Shutdown
    let ?s1 = "s\<lparr>shutting_down := True, queue := [], queued_jobs := Map.empty\<rparr>"
    let ?s3 = "unload_batch_model_on_shutdown (fst (cancel_running_job_inner ops ?s1 True))"
    have "marks_cover (tags_owed s) ?s3"
      using B by (simp add: marks_cover_frames marks_cover_cancel_inner)
    moreover have "same_marks s ?s3"
      using same_marks_cancel_inner [of ?s1 ops True] by (simp add: same_marks_def same_marks_simps)
    ultimately show ?thesis
      using Shutdown assms shutdown_marks [where B = "tags_owed s" and s = s and t = ?s3 and db = db]
      by (simp add: handle_def shutdown_queue_def Let_def case_prod_beta)
  qed
qed

section \<open>Flags are paid, never dropped\<close>

text \<open>
  A flag is due for a database while it is owed or while a live maintenance job of that
  database carries it in its metadata.
\<close>

definition flag_due :: "(change_summary \<Rightarrow> bool) \<Rightarrow> 'r job_queue_state \<Rightarrow> string \<Rightarrow> bool" where
  "flag_due f s db \<longleftrightarrow>
     (case owed s db of None \<Rightarrow> False | Some c \<Rightarrow> f c) \<or>
     list_ex (\<lambda>j. is_maintenance_of db j \<and> f (from_metadata (metadata j))) (live_jobs s)"

definition a_flag :: "(change_summary \<Rightarrow> bool) \<Rightarrow> bool" where
  "a_flag f \<longleftrightarrow> f = wrote_data \<or> f = deleted_data \<or> f = tags_changed"

lemma a_flag_simps:
  assumes "a_flag f"
  shows "f (or_with a b) \<longleftrightarrow> f a \<or> f b" and "is_empty c \<Longrightarrow> \<not> f c" and "\<not> f default_summary"
  using assms by (auto simp: a_flag_def is_empty_def default_summary_def)

lemma flag_due_merge:
  assumes "a_flag f"
  shows "flag_due f (merge_owed s db c) db' \<longleftrightarrow> flag_due f s db' \<or> (db' = db \<and> f (derive_tags c))"
  using a_flag_simps [OF assms]
  by (auto simp: flag_due_def merge_owed_def Let_def live_jobs_def split: option.splits)

lemma flag_due_record:
  assumes "a_flag f" and "job_type j \<noteq> DbMaintenance"
  shows "flag_due f (record_owed s j sm) db' \<longleftrightarrow>
     flag_due f s db' \<or>
     (db' = index_db j \<and> f (derive_tags (case sm of None \<Rightarrow> pessimistic_summary j | Some c \<Rightarrow> c)))"
  using assms(2) by (simp add: record_owed_def flag_due_merge [OF assms(1)])

lemma flag_due_schedule:
  assumes "a_flag f"
  shows "flag_due f (maybe_schedule_maintenance s j) db = flag_due f s db"
proof (cases "shutting_down s \<or> db_busy s (index_db j)")
  case True
  with a_flag_simps [OF assms] show ?thesis
    by (auto simp: maybe_schedule_maintenance_def Let_def flag_due_def live_jobs_def split: option.split)
next
  case False
  with a_flag_simps [OF assms] show ?thesis
    by (auto simp: maybe_schedule_maintenance_def Let_def flag_due_def push_maintenance_job_def
        append_job_def is_maintenance_of_def metadata_roundtrip live_jobs_def split: option.splits)
qed

lemma flag_due_same:
  "owed t = owed s \<Longrightarrow> live_jobs t = live_jobs s \<Longrightarrow> flag_due f t db = flag_due f s db"
  by (simp add: flag_due_def)

text \<open>The state in which a finished job's boundary starts the next one.\<close>

definition boundary_state :: "'r job_queue_state \<Rightarrow> job \<Rightarrow> job_run_result \<Rightarrow> 'r job_queue_state" where
  "boundary_state s j res =
     maybe_schedule_maintenance (record_batch_load (record_owed
       ((record_outcome s (queue_id j) (if success res then Completed else Failed) (error res))
          \<lparr>running_job := None\<rparr>) j (summary res)) j (success res) (loaded_model res)) j"

context job_runner
begin

lemma live_jobs_start: "jobs_inv v s \<Longrightarrow> live_jobs (start_next_job ops s) = live_jobs s"
proof (cases "shutting_down s \<or> running_job s \<noteq> None \<or> queue s = []")
  case True
  then show ?thesis by (simp add: start_next_job_noop)
next
  case False
  assume inv: "jobs_inv v s"
  from False obtain j js where q: "queue s = j # js" by (cases "queue s") auto
  with False start_next_job_eq [OF inv _ _ q] show ?thesis
    by (fastforce simp: live_jobs_def)
qed


lemma runner_finished_boundary:
  assumes "running_job s = Some j" and "queue_id j = qid"
  shows "runner_finished ops s qid res = start_next_job ops (maybe_unload_batch_model (boundary_state s j res))"
  using assms by (simp add: runner_finished_def boundary_state_def Let_def)

lemma boundary_jobs_inv:
  assumes "ready v (RunnerFinished qid res) s" and "running_job s = Some j" and "queue_id j = qid"
  shows "jobs_inv v (maybe_unload_batch_model (boundary_state s j res))"
proof -
  have "jobs_inv v (s\<lparr>running_job := None\<rparr>)"
    using assms by (simp add: ready_def finishes_def queue_inv_def)
  then have "jobs_inv v ((record_outcome s i st e)\<lparr>running_job := None\<rparr>)" for i st e
    by (simp add: record_outcome_stop jobs_inv_same [OF same_jobs_record_outcome])
  then show ?thesis
    by (simp add: boundary_state_def jobs_inv_schedule jobs_inv_same [OF same_jobs_batch_load]
        jobs_inv_same [OF same_jobs_record_owed] jobs_inv_same [OF same_jobs_unload])
qed

lemma live_jobs_finished:
  assumes "ready v (RunnerFinished qid res) s" and "running_job s = Some j" and "queue_id j = qid"
  shows "live_jobs (runner_finished ops s qid res) = live_jobs (boundary_state s j res)"
  using live_jobs_start [OF boundary_jobs_inv [OF assms]]
  by (simp add: runner_finished_boundary [OF assms(2,3)] live_jobs_same [OF same_jobs_unload])

lemma finished_keeps_flags:
  assumes "ready v (RunnerFinished qid res) s" and "running_job s = Some j" and "queue_id j = qid"
    and "job_type j \<noteq> DbMaintenance" and "a_flag f"
  shows "flag_due f (runner_finished ops s qid res) db \<longleftrightarrow>
     flag_due f s db \<or> (db = index_db j \<and>
       f (derive_tags (case summary res of None \<Rightarrow> pessimistic_summary j | Some c \<Rightarrow> c)))"
proof -
  let ?s1 = "(record_outcome s (queue_id j) (if success res then Completed else Failed) (error res))
      \<lparr>running_job := None\<rparr>"
  have "flag_due f (runner_finished ops s qid res) db = flag_due f (boundary_state s j res) db"
    using live_jobs_finished [OF assms(1-3)]
    by (intro flag_due_same)
      (simp_all add: runner_finished_boundary [OF assms(2,3)] owed_frames)
  also have "\<dots> = flag_due f (record_owed ?s1 j (summary res)) db"
    unfolding boundary_state_def flag_due_schedule [OF assms(5)]
    by (intro flag_due_same) (simp_all add: owed_frames live_jobs_same [OF same_jobs_batch_load])
  also have "\<dots> \<longleftrightarrow> flag_due f ?s1 db \<or> (db = index_db j \<and>
       f (derive_tags (case summary res of None \<Rightarrow> pessimistic_summary j | Some c \<Rightarrow> c)))"
    by (rule flag_due_record [OF assms(5,4)])
  also have "flag_due f ?s1 db = flag_due f s db"
    using assms(2,4)
    by (auto simp: flag_due_def live_jobs_def is_maintenance_of_def record_outcome_def Let_def)
  finally show ?thesis .
qed

text \<open>A boundary leaves nothing owed for its database unless another job of it is live.\<close>

lemma schedule_pays:
  "\<not> shutting_down s \<Longrightarrow> owed (maybe_schedule_maintenance s j) (index_db j) = None \<or>
     db_busy (maybe_schedule_maintenance s j) (index_db j)"
  by (auto simp: maybe_schedule_maintenance_def Let_def push_maintenance_job_def append_job_def
      split: option.split)

lemma finished_pays:
  assumes "ready v (RunnerFinished qid res) s" and "running_job s = Some j" and "queue_id j = qid"
    and "\<not> shutting_down s"
  shows "owed (runner_finished ops s qid res) (index_db j) = None \<or>
     db_busy (runner_finished ops s qid res) (index_db j)"
proof -
  have "owed (boundary_state s j res) (index_db j) = None \<or> db_busy (boundary_state s j res) (index_db j)"
    unfolding boundary_state_def using assms(4) by (intro schedule_pays) simp
  moreover have "owed (runner_finished ops s qid res) = owed (boundary_state s j res)"
    by (simp add: runner_finished_boundary [OF assms(2,3)] owed_frames)
  ultimately show ?thesis
    using live_jobs_finished [OF assms(1-3)] by (simp add: db_busy_def)
qed

section \<open>A mass cancel starts none of the jobs it cancels\<close>

text \<open>
  \<open>spares P n st s\<close>: relative to a state that had started \<open>st\<close> with the counter at
  \<open>n\<close>, every job started since and every queued job satisfies \<open>P\<close>.
\<close>

definition spares :: "(int \<Rightarrow> bool) \<Rightarrow> int \<Rightarrow> int list \<Rightarrow> 'r job_queue_state \<Rightarrow> bool" where
  "spares P n st s \<longleftrightarrow>
     n \<le> job_counter s \<and> (\<forall>j \<in> set (queue s). P (queue_id j)) \<and>
     (\<exists>ns. started v (runner s) = st @ ns \<and> (\<forall>i \<in> set ns. P i))"

lemma spares_same: "same_jobs s t \<Longrightarrow> spares P n st t = spares P n st s"
  by (simp add: spares_def same_jobs_def)

lemma spares_start:
  assumes "jobs_inv v s" and "spares P n st s"
  shows "spares P n st (start_next_job ops s)"
proof (cases "shutting_down s \<or> running_job s \<noteq> None \<or> queue s = []")
  case True
  with assms(2) show ?thesis by (simp add: start_next_job_noop)
next
  case False
  then obtain j js where q: "queue s = j # js" by (cases "queue s") auto
  obtain r' where "start_next_job ops s =
      s\<lparr>queue := js, queued_jobs := (queued_jobs s)(queue_id j := None), runner := r', running_job := Some j\<rparr>"
    and "runs (runner s) j r'"
    using start_next_job_eq [OF assms(1) _ _ q] False by blast
  with assms(2) q show ?thesis by (auto simp: spares_def runs_def)
qed

lemma spares_schedule:
  assumes "spares P n st s" and "\<And>i. n < i \<Longrightarrow> P i"
  shows "spares P n st (maybe_schedule_maintenance s j)"
  using assms
  by (auto simp: spares_def maybe_schedule_maintenance_def Let_def push_maintenance_job_def
      append_job_def split: option.split)

lemma spares_schedule_all:
  assumes "spares P n st s" and "\<And>i. n < i \<Longrightarrow> P i"
  shows "spares P n st (foldl maybe_schedule_maintenance s js)"
  using assms by (induction js arbitrary: s) (auto simp: spares_schedule)

lemma spares_cancel_inner:
  assumes "inv s" and "spares P n st s" and "\<And>i. n < i \<Longrightarrow> P i"
  shows "spares P n st (fst (cancel_running_job_inner ops s sm))"
proof -
  have j: "jobs_inv v s" using assms(1) by (simp add: queue_inv_def)
  show ?thesis
    using j
  proof (cases rule: cancel_inner_cases [where sm = sm])
    case nothing
    with assms show ?thesis by simp
  next
    case (missed j r')
    with assms show ?thesis by (auto simp: spares_def stops_def)
  next
    case (confirmed j r')
    have "spares P n st (s\<lparr>runner := r', running_job := None\<rparr>)"
      using assms(2) confirmed(3) by (simp add: spares_def stops_def)
    then have "spares P n st (cancelled_state s r' j sm)"
      using assms(3)
      by (simp add: cancelled_state_def Let_def spares_same [OF same_jobs_unload]
          spares_same [OF same_jobs_unreported] spares_same [OF same_jobs_record_owed]
          spares_same [OF same_jobs_record_outcome] spares_schedule)
    moreover have "jobs_inv v (cancelled_state s r' j sm)"
      using inv_cancelled_state [OF assms(1) confirmed(1,3)] by (simp add: queue_inv_def)
    ultimately show ?thesis using confirmed by (simp add: spares_start)
  qed
qed


lemma loop_queue:
  assumes "inv s"
  shows "queue (fst (cancel_queued_loop s ids)) = filter (\<lambda>j. queue_id j \<notin> set ids) (queue s)"
    and "set (fst (snd (cancel_queued_loop s ids))) = set ids \<inter> queue_id ` set (queue s)"
    and "job_counter (fst (cancel_queued_loop s ids)) = job_counter s"
    and "snd (snd (snd (cancel_queued_loop s ids))) =
      (case running_job s of None \<Rightarrow> None | Some r \<Rightarrow> if queue_id r \<in> set ids then Some (queue_id r) else None)"
proof -
  have "queue (fst (cancel_queued_loop s ids)) = filter (\<lambda>j. queue_id j \<notin> set ids) (queue s) \<and>
      set (fst (snd (cancel_queued_loop s ids))) = set ids \<inter> queue_id ` set (queue s) \<and>
      job_counter (fst (cancel_queued_loop s ids)) = job_counter s \<and>
      snd (snd (snd (cancel_queued_loop s ids))) =
      (case running_job s of None \<Rightarrow> None | Some r \<Rightarrow> if queue_id r \<in> set ids then Some (queue_id r) else None)"
    using assms
  proof (induction s ids rule: cancel_queued_loop.induct)
    case (1 s)
    then show ?case by (simp split: option.split)
  next
    case (2 s i ids)
    have idx: "queued_jobs s = index_jobs (queue s)" and srt: "sorted_wrt (<) (map queue_id (queue s))"
      and run: "\<And>r. running_job s = Some r \<Longrightarrow> queue_id r \<notin> queue_id ` set (queue s)"
      using 2(4) by (auto simp: queue_inv_def jobs_inv_def sorted_wrt_append)
    show ?case
    proof (cases "case running_job s of None \<Rightarrow> False | Some r \<Rightarrow> queue_id r = i")
      case True
      then obtain r where r: "running_job s = Some r" "queue_id r = i" by (auto split: option.splits)
      have "\<forall>x \<in> set (queue s). queue_id x \<noteq> i" using run [OF r(1)] r(2) by (metis imageI)
      then have "filter (\<lambda>j. queue_id j \<notin> set (i # ids)) (queue s) =
          filter (\<lambda>j. queue_id j \<notin> set ids) (queue s)"
        by (auto intro!: filter_cong)
      with True r run [OF r(1)] 2(1) [OF True 2(4)] show ?thesis by (auto simp: case_prod_beta)
    next
      case False
      show ?thesis
      proof (cases "queued_jobs s i")
        case None
        then have ni: "i \<notin> queue_id ` set (queue s)"
          unfolding idx by (auto simp: index_jobs_in sorted_wrt_less_distinct [OF srt])
        then have "\<forall>x \<in> set (queue s). queue_id x \<noteq> i" by (metis imageI)
        then have "filter (\<lambda>j. queue_id j \<notin> set (i # ids)) (queue s) =
          filter (\<lambda>j. queue_id j \<notin> set ids) (queue s)"
          by (auto intro!: filter_cong)
        with False None ni 2(2) [OF False None 2(4)] show ?thesis
          by (auto split: option.splits)
      next
        case (Some j)
        then have j: "j \<in> set (queue s)" "queue_id j = i"
          unfolding idx by (auto dest: index_jobs_SomeD)
        have fr: "queue (remove_queued s j i) = filter (\<lambda>e. queue_id e \<noteq> i) (queue s)"
          "job_counter (remove_queued s j i) = job_counter s"
          "running_job (remove_queued s j i) = running_job s"
          by (simp_all add: remove_queued_def record_outcome_def Let_def)
        have inv': "inv (remove_queued s j i)"
          using 2(4) by (auto simp: queue_inv_def jobs_inv_remove_queued)
        have e1: "filter (\<lambda>e. queue_id e \<notin> set ids) (filter (\<lambda>e. queue_id e \<noteq> i) (queue s)) =
            filter (\<lambda>e. queue_id e \<notin> set (i # ids)) (queue s)"
          by (auto simp: filter_filter intro: filter_cong)
        have e2: "insert i (set ids \<inter> queue_id ` set (filter (\<lambda>e. queue_id e \<noteq> i) (queue s))) =
            set (i # ids) \<inter> queue_id ` set (queue s)"
          using j by auto
        note IH = 2(3) [OF False Some inv']
        have res: "cancel_queued_loop s (i # ids) = (case cancel_queued_loop (remove_queued s j i) ids of
            (s1, cs, js, t) \<Rightarrow> (s1, i # cs, j # js, t))"
          using False Some j(2) by simp
        have tgt: "(case running_job s of None \<Rightarrow> None | Some r \<Rightarrow>
              if queue_id r \<in> set (i # ids) then Some (queue_id r) else None) =
            (case running_job s of None \<Rightarrow> None | Some r \<Rightarrow> if queue_id r \<in> set ids then Some (queue_id r) else None)"
          using False by (auto split: option.split)
        show ?thesis
          unfolding res tgt using IH e1 e2 by (simp add: case_prod_beta fr)
      qed
    qed
  qed
  then show "queue (fst (cancel_queued_loop s ids)) = filter (\<lambda>j. queue_id j \<notin> set ids) (queue s)"
    "set (fst (snd (cancel_queued_loop s ids))) = set ids \<inter> queue_id ` set (queue s)"
    "job_counter (fst (cancel_queued_loop s ids)) = job_counter s"
    "snd (snd (snd (cancel_queued_loop s ids))) =
      (case running_job s of None \<Rightarrow> None | Some r \<Rightarrow> if queue_id r \<in> set ids then Some (queue_id r) else None)"
    by blast+
qed

lemma cancel_queued_spares:
  assumes "inv s"
  shows "spares (\<lambda>i. i \<in> set ids \<longrightarrow> job_counter s < i) (job_counter s) (started v (runner s))
    (fst (cancel_queued ops s ids sm))"
proof -
  let ?sp = "spares (\<lambda>i. i \<in> set ids \<longrightarrow> job_counter s < i) (job_counter s) (started v (runner s))"
  define s1 where "s1 = fst (cancel_queued_loop s ids)"
  define s2 where "s2 = (case snd (snd (snd (cancel_queued_loop s ids))) of None \<Rightarrow> s1
      | Some _ \<Rightarrow> fst (cancel_running_job_inner ops s1 sm))"
  define s3 where "s3 = (if \<not> sm then foldl maybe_schedule_maintenance s2
      (fst (snd (snd (cancel_queued_loop s ids)))) else s2)"
  have 1: "?sp s1" "inv s1"
    using inv_cancel_loop [OF assms] by (auto simp: s1_def spares_def loop_queue [OF assms])
  have 2: "?sp s2" "inv s2"
    using 1 spares_cancel_inner [OF 1(2,1)]
    by (simp_all add: s2_def inv_cancel_inner split: option.split)
  have 3: "?sp s3" "inv s3"
    using 2 by (simp_all add: s3_def spares_schedule_all inv_schedule_all)
  have "?sp (start_next_job ops (maybe_unload_batch_model s3))"
    using 3 inv_unload [OF 3(2)]
    by (intro spares_start) (simp_all add: queue_inv_def spares_same [OF same_jobs_unload])
  moreover have "fst (cancel_queued ops s ids sm) = start_next_job ops (maybe_unload_batch_model s3)"
    by (auto simp: cancel_queued_def s3_def s2_def s1_def Let_def case_prod_beta split: option.split)
  ultimately show ?thesis by simp
qed

text \<open>
  Whatever the runner runs after the message satisfies \<open>P\<close> as well: a cancelled running job
  is taken from it, and a start takes a spared job from the queue.
\<close>

definition frees :: "(int \<Rightarrow> bool) \<Rightarrow> 'r job_queue_state \<Rightarrow> bool" where
  "frees P s \<longleftrightarrow> (\<forall>i. current v (runner s) = Some i \<longrightarrow> P i)"

lemma frees_same: "same_jobs s t \<Longrightarrow> frees P t = frees P s"
  by (simp add: frees_def same_jobs_def)

lemma frees_schedule: "frees P (maybe_schedule_maintenance s j) = frees P s"
  by (auto simp: frees_def maybe_schedule_maintenance_def Let_def push_maintenance_job_def
      append_job_def split: option.split)

lemma frees_schedule_all: "frees P (foldl maybe_schedule_maintenance s js) = frees P s"
  by (induction js arbitrary: s) (auto simp: frees_schedule)

lemma frees_start:
  assumes "jobs_inv v s" and "spares P n st s" and "frees P s"
  shows "frees P (start_next_job ops s)"
proof (cases "shutting_down s \<or> running_job s \<noteq> None \<or> queue s = []")
  case True
  with assms(3) show ?thesis by (simp add: start_next_job_noop)
next
  case False
  then obtain j js where q: "queue s = j # js" by (cases "queue s") auto
  obtain r' where "start_next_job ops s =
      s\<lparr>queue := js, queued_jobs := (queued_jobs s)(queue_id j := None), runner := r', running_job := Some j\<rparr>"
    and "runs (runner s) j r'"
    using start_next_job_eq [OF assms(1) _ _ q] False by blast
  with assms(2) q show ?thesis by (simp add: spares_def frees_def runs_def)
qed

lemma frees_cancel_inner:
  assumes "inv s" and "spares P n st s" and "\<And>i. n < i \<Longrightarrow> P i"
  shows "frees P (fst (cancel_running_job_inner ops s sm)) \<or> running_job s = None"
proof -
  have j: "jobs_inv v s" using assms(1) by (simp add: queue_inv_def)
  show ?thesis
    using j
  proof (cases rule: cancel_inner_cases [where sm = sm])
    case nothing
    then show ?thesis by simp
  next
    case (missed j r')
    then show ?thesis by (simp add: frees_def stops_def)
  next
    case (confirmed j r')
    have sp: "spares P n st (s\<lparr>runner := r', running_job := None\<rparr>)"
      using assms(2) confirmed(3) by (simp add: spares_def stops_def)
    then have "spares P n st (cancelled_state s r' j sm)"
      using assms(3)
      by (simp add: cancelled_state_def Let_def spares_same [OF same_jobs_unload]
          spares_same [OF same_jobs_unreported] spares_same [OF same_jobs_record_owed]
          spares_same [OF same_jobs_record_outcome] spares_schedule)
    moreover have "jobs_inv v (cancelled_state s r' j sm)"
      using inv_cancelled_state [OF assms(1) confirmed(1,3)] by (simp add: queue_inv_def)
    moreover have "frees P (s\<lparr>runner := r', running_job := None\<rparr>)"
      using confirmed(3) by (simp add: frees_def stops_def)
    then have "frees P (cancelled_state s r' j sm)"
      by (simp add: cancelled_state_def Let_def frees_same [OF same_jobs_unload]
          frees_same [OF same_jobs_unreported] frees_same [OF same_jobs_record_owed]
          frees_same [OF same_jobs_record_outcome] frees_schedule)
    ultimately show ?thesis using confirmed by (simp add: frees_start)
  qed
qed

lemma loop_frame:
  "running_job (fst (cancel_queued_loop s ids)) = running_job s"
  "runner (fst (cancel_queued_loop s ids)) = runner s"
proof -
  have "running_job (fst (cancel_queued_loop s ids)) = running_job s \<and>
      runner (fst (cancel_queued_loop s ids)) = runner s"
    by (induction s ids rule: cancel_queued_loop.induct)
      (simp_all add: case_prod_beta remove_queued_def record_outcome_def Let_def split: option.split)
  then show "running_job (fst (cancel_queued_loop s ids)) = running_job s"
    "runner (fst (cancel_queued_loop s ids)) = runner s" by blast+
qed

lemma cancel_queued_frees:
  assumes "inv s"
  shows "frees (\<lambda>i. i \<in> set ids \<longrightarrow> job_counter s < i) (fst (cancel_queued ops s ids sm))"
proof -
  let ?P = "\<lambda>i. i \<in> set ids \<longrightarrow> job_counter s < i"
  let ?sp = "spares ?P (job_counter s) (started v (runner s))"
  define s1 where "s1 = fst (cancel_queued_loop s ids)"
  define s2 where "s2 = (case snd (snd (snd (cancel_queued_loop s ids))) of None \<Rightarrow> s1
      | Some _ \<Rightarrow> fst (cancel_running_job_inner ops s1 sm))"
  define s3 where "s3 = (if \<not> sm then foldl maybe_schedule_maintenance s2
      (fst (snd (snd (cancel_queued_loop s ids)))) else s2)"
  have 1: "?sp s1" "inv s1"
    using inv_cancel_loop [OF assms] by (auto simp: s1_def spares_def loop_queue [OF assms])
  have 2: "?sp s2" "inv s2"
    using 1 spares_cancel_inner [OF 1(2,1)]
    by (simp_all add: s2_def inv_cancel_inner split: option.split)
  have 3: "?sp s3" "inv s3"
    using 2 by (simp_all add: s3_def spares_schedule_all inv_schedule_all)
  have target: "\<And>i. current v (runner s) = Some i \<Longrightarrow> \<exists>r. running_job s = Some r \<and> queue_id r = i"
    using assms by (simp add: queue_inv_def jobs_inv_def)
  have "frees ?P s2"
  proof (cases "\<exists>r. running_job s = Some r \<and> queue_id r \<in> set ids")
    case True
    then have "s2 = fst (cancel_running_job_inner ops s1 sm)" "running_job s1 \<noteq> None"
      using loop_queue(4) [OF assms, of ids] by (auto simp: s2_def s1_def loop_frame)
    then show ?thesis using frees_cancel_inner [OF 1(2,1), of sm] by auto
  next
    case False
    then have "s2 = s1"
      using loop_queue(4) [OF assms, of ids] by (auto simp: s2_def split: option.split)
    then show ?thesis using target False by (auto simp: frees_def s1_def loop_frame)
  qed
  then have "frees ?P s3" by (simp add: s3_def frees_schedule_all)
  then have "frees ?P (start_next_job ops (maybe_unload_batch_model s3))"
    using 3 inv_unload [OF 3(2)]
    by (intro frees_start) (simp_all add: queue_inv_def spares_same [OF same_jobs_unload] frees_same [OF same_jobs_unload])
  moreover have "fst (cancel_queued ops s ids sm) = start_next_job ops (maybe_unload_batch_model s3)"
    by (auto simp: cancel_queued_def s3_def s2_def s1_def Let_def case_prod_beta split: option.split)
  ultimately show ?thesis by simp
qed

text \<open>The reply names the queued ids it was given, and the running one if the runner confirmed.\<close>

lemma cancel_queued_reply:
  assumes "inv s"
  shows "set (snd (cancel_queued ops s ids sm)) =
     set ids \<inter> (queue_id ` set (queue s) \<union>
       (case running_job s of None \<Rightarrow> {} | Some r \<Rightarrow>
          if current v (runner s) = Some (queue_id r) \<and>
             snd (cancel_run ops (runner s)) \<noteq> CancelConfirmed None then {queue_id r} else {}))"
proof (cases "\<exists>r. running_job s = Some r \<and> queue_id r \<in> set ids")
  case False
  then have "snd (snd (snd (cancel_queued_loop s ids))) = None"
    by (auto simp: loop_queue(4) [OF assms] split: option.split)
  then have "snd (cancel_queued ops s ids sm) = fst (snd (cancel_queued_loop s ids))"
    by (simp add: cancel_queued_def Let_def case_prod_beta)
  with False show ?thesis by (auto simp: loop_queue(2) [OF assms] split: option.split)
next
  case True
  then obtain r where r: "running_job s = Some r" "queue_id r \<in> set ids" by blast
  let ?s1 = "fst (cancel_queued_loop s ids)"
  have j1: "jobs_inv v ?s1" using inv_cancel_loop [OF assms] by (simp add: queue_inv_def)
  have "snd (snd (snd (cancel_queued_loop s ids))) = Some (queue_id r)"
    using r by (simp add: loop_queue(4) [OF assms])
  then have reply: "snd (cancel_queued ops s ids sm) = (
      if snd (cancel_running_job_inner ops ?s1 sm) = Some (queue_id r)
      then fst (snd (cancel_queued_loop s ids)) @ [queue_id r] else fst (snd (cancel_queued_loop s ids)))"
    by (simp add: cancel_queued_def Let_def case_prod_beta)
  have "snd (cancel_running_job_inner ops ?s1 sm) = Some (queue_id r) \<longleftrightarrow>
      current v (runner s) = Some (queue_id r) \<and> snd (cancel_run ops (runner s)) \<noteq> CancelConfirmed None"
    using r cancel_reply [of "runner s"]
    by (auto simp: cancel_running_job_inner_def Let_def case_prod_beta split: cancel_reply.split option.split)
      (metis jobs_inv_def assms option.inject queue_inv_def)?
  with reply r show ?thesis by (auto simp: loop_queue(2) [OF assms])
qed

end

section \<open>A running job always comes to its end\<close>

text \<open>The steps that need no client: tasks ending and actors taking their mail.\<close>

inductive internal_step :: "(api_error \<Rightarrow> string) \<Rightarrow> job_system \<Rightarrow> job_system \<Rightarrow> bool"
  for dbg :: "api_error \<Rightarrow> string"
where
  task: "j \<in> set (r_tasks (runner s)) \<Longrightarrow>
     internal_step dbg s (s\<lparr>runner := task_ends j out (runner s)\<rparr>)"
| recv: "r_mailbox (runner s) \<noteq> [] \<Longrightarrow>
     internal_step dbg s (s\<lparr>runner := runner_receives (runner s)\<rparr>)"
| queue: "r_sent (runner s) = (i, res) # cs \<Longrightarrow>
     internal_step dbg s (fst (handle (actor_runner dbg) (RunnerFinished i res)
        (s\<lparr>runner := (runner s)\<lparr>r_sent := cs\<rparr>\<rparr>)))"

lemma internal_is_step: "internal_step dbg s t \<Longrightarrow> sys_step dbg s t"
  by (induction rule: internal_step.induct) (auto intro: sys_step.intros)

text \<open>How far the completions in flight still have to go.\<close>

definition flight :: "runner_state \<Rightarrow> nat" where
  "flight r = 3 * length (r_tasks r) + 2 * length (r_mailbox r) + length (r_sent r)"

text \<open>The job is over: its outcome is the last one recorded, and it no longer runs.\<close>

definition ended :: "job_system \<Rightarrow> job \<Rightarrow> bool" where
  "ended s j \<longleftrightarrow> outcomes s \<noteq> [] \<and> o_queue_id (last (outcomes s)) = queue_id j \<and>
     (\<forall>k. running_job s = Some k \<longrightarrow> queue_id j < queue_id k)"

lemma outcomes_boundary:
  "outcomes (merge_owed s db c) = outcomes s" "outcomes (record_owed s j sm) = outcomes s"
  "outcomes (record_batch_load s j ok lm) = outcomes s"
  "outcomes (maybe_schedule_maintenance s j) = outcomes s"
  "outcomes (maybe_unload_batch_model s) = outcomes s"
  "outcomes (flush_tags_dirty_marks s) = outcomes s"
  by (simp_all add: merge_owed_def record_owed_def record_batch_load_def Let_def
      record_unreported_batch_load_def maybe_schedule_maintenance_def push_maintenance_job_def
      append_job_def maybe_unload_batch_model_def take_batch_unload_def flush_tags_dirty_marks_def
      split: option.split)

lemma last_record_outcome:
  "outcomes (record_outcome s i st e) \<noteq> [] \<and>
   last (outcomes (record_outcome s i st e)) = \<lparr>o_queue_id = i, o_status = st, o_error = e\<rparr>"
proof -
  have "last (drop n (xs @ [x])) = x \<and> drop n (xs @ [x]) \<noteq> []" if "n \<le> length xs" for n and xs :: "'a list" and x
    using that by simp
  moreover have "Suc (length (outcomes s)) - max_recent_outcomes \<le> length (outcomes s)"
    by (simp add: max_recent_outcomes_def)
  ultimately show ?thesis by (simp add: record_outcome_def Let_def)
qed

context job_runner
begin

lemma start_outcomes:
  assumes "jobs_inv v s"
  shows "outcomes (start_next_job ops s) = outcomes s"
    and "running_job (start_next_job ops s) = Some k \<Longrightarrow> running_job s = Some k \<or> k \<in> set (queue s)"
proof -
  have "outcomes (start_next_job ops s) = outcomes s \<and>
    (running_job (start_next_job ops s) = Some k \<longrightarrow> running_job s = Some k \<or> k \<in> set (queue s))"
  proof (cases "shutting_down s \<or> running_job s \<noteq> None \<or> queue s = []")
    case True
    then show ?thesis by (auto simp: start_next_job_noop)
  next
    case False
    then obtain j js where q: "queue s = j # js" by (cases "queue s") auto
    from False start_next_job_eq [OF assms _ _ q] show ?thesis by (fastforce simp: q)
  qed
  then show "outcomes (start_next_job ops s) = outcomes s"
    "running_job (start_next_job ops s) = Some k \<Longrightarrow> running_job s = Some k \<or> k \<in> set (queue s)"
    by auto
qed

lemma schedule_queue:
  "j \<in> set (queue (maybe_schedule_maintenance s f)) \<Longrightarrow> j \<in> set (queue s) \<or> job_counter s < queue_id j"
  by (auto simp: maybe_schedule_maintenance_def Let_def push_maintenance_job_def append_job_def
      split: option.splits if_splits)

lemma finished_ends:
  assumes "ready v (RunnerFinished qid res) s" and "running_job s = Some j" and "queue_id j = qid"
    and "inv_ids": "\<And>k. k \<in> set (queue s) \<Longrightarrow> queue_id j < queue_id k" "queue_id j \<le> job_counter s"
  shows "outcomes (runner_finished ops s qid res) \<noteq> []"
    and "last (outcomes (runner_finished ops s qid res)) =
      \<lparr>o_queue_id = qid, o_status = (if success res then Completed else Failed), o_error = error res\<rparr>"
    and "running_job (runner_finished ops s qid res) = Some k \<Longrightarrow> queue_id j < queue_id k"
proof -
  let ?t = "maybe_unload_batch_model (boundary_state s j res)"
  note bi = boundary_jobs_inv [OF assms(1-3)]
  have o: "outcomes (runner_finished ops s qid res) =
      outcomes (record_outcome s qid (if success res then Completed else Failed) (error res))"
    using start_outcomes(1) [OF bi] assms(3)
    by (simp add: runner_finished_boundary [OF assms(2,3)] outcomes_boundary boundary_state_def)
  show "outcomes (runner_finished ops s qid res) \<noteq> []"
    "last (outcomes (runner_finished ops s qid res)) =
      \<lparr>o_queue_id = qid, o_status = (if success res then Completed else Failed), o_error = error res\<rparr>"
    unfolding o using last_record_outcome by auto
  assume "running_job (runner_finished ops s qid res) = Some k"
  then have "running_job ?t = Some k \<or> k \<in> set (queue ?t)"
    unfolding runner_finished_boundary [OF assms(2,3)] using start_outcomes(2) [OF bi] by blast
  moreover have "running_job ?t = None" by (simp add: boundary_state_def)
  ultimately have "k \<in> set (queue (boundary_state s j res))" by simp
  then have "k \<in> set (queue s) \<or> job_counter s < queue_id k"
    unfolding boundary_state_def
    by (auto dest!: schedule_queue simp: same_jobs_batch_load [unfolded same_jobs_def]
        same_jobs_record_owed [unfolded same_jobs_def] same_jobs_record_outcome [unfolded same_jobs_def])
  with inv_ids show "queue_id j < queue_id k" by force
qed

end

lemma internal_progress:
  assumes "internal_step dbg s t" and "sys_inv s" and "running_job s = Some j"
  shows "ended t j \<or> (running_job t = Some j \<and> flight (runner t) < flight (runner s))"
  using assms
proof (induction rule: internal_step.induct)
  case (task k s out)
  then obtain n where "length (r_tasks (runner s)) = Suc n" by (cases "r_tasks (runner s)") auto
  with task show ?case by (simp add: flight_def task_ends_def length_remove1)
next
  case (recv s)
  then show ?case by (cases "r_mailbox (runner s)") (auto simp: flight_def runner_receives_def)
next
  case (queue s i res cs)
  let ?s = "s\<lparr>runner := (runner s)\<lparr>r_sent := cs\<rparr>\<rparr>"
  have ready: "ready actor_view (RunnerFinished i res) ?s"
    using queue by (intro queue_takes_ready) (auto simp: sys_inv_def)
  show ?case
  proof (cases "queue_id j = i")
    case True
    have inv: "jobs_inv actor_view s" using queue(2) by (simp add: sys_inv_def queue_inv_def)
    then have "queue_id j \<in> set (r_spawned (runner s))" using queue(3) by (simp add: jobs_inv_def actor_view_def)
    with inv have ids: "\<And>k. k \<in> set (queue ?s) \<Longrightarrow> queue_id j < queue_id k" "queue_id j \<le> job_counter ?s"
      by (auto simp: jobs_inv_def actor_view_def sorted_wrt_append)
    have run: "running_job ?s = Some j" using queue(3) by simp
    note ends = actor.finished_ends [OF ready run True ids]
    have "ended (runner_finished (actor_runner dbg) ?s i res) j"
      using ends True by (simp add: ended_def)
    then have "ended (flush_tags_dirty_marks (runner_finished (actor_runner dbg) ?s i res)) j"
      by (simp add: ended_def outcomes_boundary)
    then show ?thesis by (simp add: handle_def)
  next
    case False
    then have "runner_finished (actor_runner dbg) ?s i res = ?s"
      using queue(3) by (simp add: runner_finished_def)
    with queue(1,3) show ?thesis by (simp add: handle_def flight_def)
  qed
qed

lemma internal_enabled:
  assumes "sys_inv s" and "running_job s = Some j"
  shows "\<exists>t. internal_step dbg s t"
proof -
  have "queue_id j \<in> set (completion_ids (runner s))"
    using assms by (simp add: sys_inv_def queue_inv_def jobs_inv_def actor_view_def)
  then have "completion_ids (runner s) \<noteq> []" by auto
  then consider "r_tasks (runner s) \<noteq> []" | "r_mailbox (runner s) \<noteq> []" | "r_sent (runner s) \<noteq> []"
    by (auto simp: completion_ids_def)
  then show ?thesis
  proof cases
    case 1
    then have "hd (r_tasks (runner s)) \<in> set (r_tasks (runner s))" by simp
    then show ?thesis by (blast intro: internal_step.task)
  next
    case 2
    then show ?thesis by (auto intro: internal_step.recv)
  next
    case 3
    then show ?thesis by (cases "r_sent (runner s)") (auto intro: internal_step.queue)
  qed
qed

text \<open>Every run of internal steps that is long enough has ended the job on its way.\<close>

fun internal_run :: "(api_error \<Rightarrow> string) \<Rightarrow> job_system \<Rightarrow> job_system list \<Rightarrow> bool" where
  "internal_run dbg s [] = True"
| "internal_run dbg s (t # ts) = (internal_step dbg s t \<and> internal_run dbg t ts)"

lemma internal_run_ends:
  assumes "internal_run dbg s ts" and "sys_inv s" and "running_job s = Some j"
    and "flight (runner s) < length ts"
  shows "\<exists>t \<in> set ts. ended t j"
  using assms
proof (induction ts arbitrary: s)
  case Nil
  then show ?case by simp
next
  case (Cons t ts)
  have inv: "sys_inv t"
    using Cons.prems by (auto intro: sys_step_inv internal_is_step)
  from Cons.prems have "internal_step dbg s t" by simp
  from internal_progress [OF this Cons.prems(2,3)] show ?case
  proof
    assume "ended t j"
    then show ?thesis by simp
  next
    assume "running_job t = Some j \<and> flight (runner t) < flight (runner s)"
    with Cons.IH [of t] Cons.prems inv show ?thesis by auto
  qed
qed

lemma internal_run_exists:
  assumes "sys_inv s" and "running_job s = Some j"
  shows "\<exists>t. (internal_step dbg)\<^sup>*\<^sup>* s t \<and> ended t j"
  using assms
proof (induction "flight (runner s)" arbitrary: s rule: less_induct)
  case less
  obtain t where t: "internal_step dbg s t" using internal_enabled [OF less.prems] by blast
  have inv: "sys_inv t" using t less.prems by (auto intro: sys_step_inv internal_is_step)
  from internal_progress [OF t less.prems] show ?case
  proof
    assume "ended t j"
    with t show ?thesis by blast
  next
    assume "running_job t = Some j \<and> flight (runner t) < flight (runner s)"
    with less.hyps [of t] inv t show ?thesis by (meson converse_rtranclp_into_rtranclp)
  qed
qed

section \<open>While maintenance runs, nothing new is owed\<close>

definition owed_shrinks :: "'r job_queue_state \<Rightarrow> 'r job_queue_state \<Rightarrow> bool" where
  "owed_shrinks s t \<longleftrightarrow> (\<forall>db c. owed t db = Some c \<longrightarrow> owed s db = Some c)"

lemma owed_shrinks_trans: "owed_shrinks s t \<Longrightarrow> owed_shrinks t u \<Longrightarrow> owed_shrinks s u"
  by (simp add: owed_shrinks_def)

lemma owed_shrinks_eq: "owed t = owed s \<Longrightarrow> owed_shrinks s t"
  by (simp add: owed_shrinks_def)

lemma owed_shrinks_schedule: "owed_shrinks s (maybe_schedule_maintenance s j)"
  by (auto simp: owed_shrinks_def maybe_schedule_maintenance_def Let_def push_maintenance_job_def
      append_job_def split: option.splits if_splits)

lemma owed_shrinks_schedule_all: "owed_shrinks s (foldl maybe_schedule_maintenance s js)"
  by (induction js arbitrary: s)
    (auto intro: owed_shrinks_trans [OF owed_shrinks_schedule] owed_shrinks_eq)

lemma owed_same [simp]:
  "owed_shrinks (s\<lparr>runner := r\<rparr>) t = owed_shrinks s t"
  "owed_shrinks (record_outcome s i st e) t = owed_shrinks s t"
  "owed_shrinks (s\<lparr>running_job := rj\<rparr>) t = owed_shrinks s t"
  "owed_shrinks (record_unreported_batch_load s j) t = owed_shrinks s t"
  "owed_shrinks (record_batch_load s j ok lm) t = owed_shrinks s t"
  by (simp_all add: owed_shrinks_def owed_frames)

lemma owed_shrinks_after [simp]:
  "owed_shrinks s (start_next_job ops t) = owed_shrinks s t"
  "owed_shrinks s (maybe_unload_batch_model t) = owed_shrinks s t"
  "owed_shrinks s (record_unreported_batch_load t j) = owed_shrinks s t"
  "owed_shrinks s (record_batch_load t j ok lm) = owed_shrinks s t"
  "owed_shrinks s (record_outcome t i st e) = owed_shrinks s t"
  "owed_shrinks s (t\<lparr>runner := r\<rparr>) = owed_shrinks s t"
  "owed_shrinks s (t\<lparr>running_job := rj\<rparr>) = owed_shrinks s t"
  "owed_shrinks s s"
  by (simp_all add: owed_shrinks_def owed_frames)

lemma owed_shrinks_then_schedule:
  "owed_shrinks s t \<Longrightarrow> owed_shrinks s (maybe_schedule_maintenance t j)"
  by (rule owed_shrinks_trans [OF _ owed_shrinks_schedule])

lemma owed_shrinks_cancel_inner:
  assumes "\<forall>m. running_job s = Some m \<longrightarrow> job_type m = DbMaintenance"
  shows "owed_shrinks s (fst (cancel_running_job_inner ops s sm))"
  using assms
  by (simp add: cancel_running_job_inner_def Let_def record_owed_def owed_shrinks_then_schedule
      split: option.split prod.split cancel_reply.split)

lemma loop_running: "running_job (fst (cancel_queued_loop s ids)) = running_job s"
  by (induction s ids rule: cancel_queued_loop.induct)
    (auto simp: case_prod_beta remove_queued_def split: option.split)

lemma owed_shrinks_cancel_queued:
  assumes "\<forall>m. running_job s = Some m \<longrightarrow> job_type m = DbMaintenance"
  shows "owed_shrinks s (fst (cancel_queued ops s ids sm))"
proof -
  define s1 where "s1 = fst (cancel_queued_loop s ids)"
  define s2 where "s2 = (case snd (snd (snd (cancel_queued_loop s ids))) of None \<Rightarrow> s1
      | Some _ \<Rightarrow> fst (cancel_running_job_inner ops s1 sm))"
  define s3 where "s3 = (if \<not> sm then foldl maybe_schedule_maintenance s2
      (fst (snd (snd (cancel_queued_loop s ids)))) else s2)"
  have "running_job s1 = running_job s" "owed s1 = owed s"
    by (simp_all add: s1_def loop_running owed_loop_frames)
  then have "owed_shrinks s s1" "owed_shrinks s1 s2"
    using assms by (simp_all add: s2_def owed_shrinks_eq owed_shrinks_cancel_inner split: option.split)
  moreover have "owed_shrinks s2 s3" by (simp add: s3_def owed_shrinks_schedule_all owed_shrinks_eq)
  moreover have "fst (cancel_queued ops s ids sm) = start_next_job ops (maybe_unload_batch_model s3)"
    by (auto simp: cancel_queued_def s3_def s2_def s1_def Let_def case_prod_beta split: option.split)
  ultimately show ?thesis by (simp add: owed_shrinks_def owed_frames)
qed

lemma maintenance_owes_nothing:
  assumes "running_job s = Some m" and "job_type m = DbMaintenance"
  shows "owed_shrinks s (fst (handle ops msg s))"
proof -
  have m: "\<forall>m. running_job s = Some m \<longrightarrow> job_type m = DbMaintenance" using assms by simp
  have fl: "owed_shrinks s (flush_tags_dirty_marks t) = owed_shrinks s t"
    "owed_shrinks s (flush_tags_dirty_marks_on_shutdown t) = owed_shrinks s t" for t
    by (simp_all add: owed_shrinks_def flush_tags_dirty_marks_def flush_tags_dirty_marks_on_shutdown_def)
  show ?thesis
  proof (cases msg)
    case (Enqueue req)
    then show ?thesis
      by (simp add: handle_def enqueue_def case_prod_beta fl) (simp add: owed_shrinks_def owed_frames)
  next
    case (EnqueueBatch reqs ds)
    then show ?thesis
      by (simp add: handle_def enqueue_batch_def case_prod_beta Let_def fl)
        (simp add: owed_shrinks_def owed_loop_frames)
  next
    case (EnqueueMaintenance db udb)
    have "owed_shrinks s (fst (enqueue_maintenance ops s db udb))"
      by (auto simp: enqueue_maintenance_def owed_shrinks_def Let_def case_prod_beta owed_frames
          push_maintenance_job_def append_job_def split: option.splits if_splits)
    with EnqueueMaintenance show ?thesis
      by (auto simp: handle_def fl split: prod.splits option.splits)
  next
    case GetQueueStatus
    then show ?thesis by (simp add: handle_def fl)
  next
    case (CancelQueued ids sm)
    with owed_shrinks_cancel_queued [OF m] show ?thesis by (simp add: handle_def case_prod_beta fl)
  next
    case (CancelRunning sm)
    with owed_shrinks_cancel_inner [OF m] show ?thesis by (simp add: handle_def case_prod_beta fl)
  next
    case (RunnerFinished qid res)
    have "owed_shrinks s (runner_finished ops s qid res)"
      using assms by (simp add: runner_finished_def Let_def record_owed_def owed_shrinks_then_schedule)
    with RunnerFinished show ?thesis by (simp add: handle_def fl)
  next
    case (RecordOwed db sm)
    with assms show ?thesis by (simp add: handle_def)
  next
    case Shutdown
    have "owed_shrinks s (fst (cancel_running_job_inner ops
        (s\<lparr>shutting_down := True, queue := [], queued_jobs := Map.empty\<rparr>) True))"
      using owed_shrinks_cancel_inner [of "s\<lparr>shutting_down := True, queue := [], queued_jobs := Map.empty\<rparr>" ops True] m
      by (simp add: owed_shrinks_def)
    with Shutdown show ?thesis
      by (simp add: handle_def shutdown_queue_def Let_def case_prod_beta fl)
        (simp add: owed_shrinks_def owed_frames)
  qed
qed

end
