(* ===== verification/JobProps.thy ===== *)
theory JobProps
  imports JobFacts
begin

text \<open>
  The properties of the job system: what every reachable state of the queue and the runner
  satisfies, and what single messages do.
\<close>

section \<open>Batches\<close>

definition request_job :: "int \<Rightarrow> job_request \<Rightarrow> job" where
  "request_job i req =
     \<lparr>queue_id = i, job_type = r_job_type req, index_db = r_index_db req,
      user_data_db = r_user_data_db req, metadata = r_metadata req, batch_size = r_batch_size req,
      threshold = r_threshold req, log_id = r_log_id req, tag = r_tag req\<rparr>"

fun request_jobs :: "int \<Rightarrow> job_request list \<Rightarrow> job list" where
  "request_jobs n [] = []"
| "request_jobs n (req # reqs) = request_job (n + 1) req # request_jobs (n + 1) reqs"

lemma push_jobs_live:
  "live_jobs (fst (push_jobs s reqs)) = live_jobs s @ request_jobs (job_counter s) reqs"
  "snd (push_jobs s reqs) = map (\<lambda>j. from_job j False) (request_jobs (job_counter s) reqs)"
proof (induction reqs arbitrary: s)
  case Nil
  {
    case 1
    then show ?case by simp
  next
    case 2
    then show ?case by simp
  }
next
  case (Cons req reqs)
  have st: "job_counter (fst (push_job s req)) = job_counter s + 1"
    "live_jobs (fst (push_job s req)) = live_jobs s @ [request_job (job_counter s + 1) req]"
    "snd (push_job s req) = from_job (request_job (job_counter s + 1) req) False" for s :: "'a job_queue_state"
    by (simp_all add: push_job_def request_job_def append_job_def live_jobs_def Let_def)
  {
    case 1
    then show ?case using Cons(1) [of "fst (push_job s req)"] by (simp add: case_prod_beta st)
  next
    case 2
    then show ?case using Cons(2) [of "fst (push_job s req)"] by (simp add: case_prod_beta st)
  }
qed

lemma skipped_by_spec:
  "distinct acc \<Longrightarrow> distinct (skipped_by s ds acc) \<and>
   set (skipped_by s ds acc) = set acc \<union> d_index_db ` {d \<in> set ds. dedup_conflict s d}"
  by (induction s ds acc rule: skipped_by.induct) auto

lemma handle_batch:
  assumes "sys_inv s" and "\<not> shutting_down s"
    and "accepted = filter (\<lambda>r. r_index_db r \<notin> set (skipped_by s ds [])) reqs"
  shows "live_jobs (fst (handle (actor_runner dbg) (EnqueueBatch reqs ds) s)) =
      live_jobs s @ request_jobs (job_counter s) accepted"
    and "snd (handle (actor_runner dbg) (EnqueueBatch reqs ds) s) =
      ReplyBatch (Inr \<lparr>enqueued = map (\<lambda>j. from_job j False) (request_jobs (job_counter s) accepted),
        skipped_dbs = skipped_by s ds []\<rparr>)"
proof -
  have "queue_inv actor_view (fst (push_jobs s accepted))"
    using assms(1) by (simp add: sys_inv_def actor.inv_push_jobs)
  then have "live_jobs (start_next_job (actor_runner dbg) (fst (push_jobs s accepted))) =
      live_jobs (fst (push_jobs s accepted))"
    by (intro actor.live_jobs_start) (simp add: queue_inv_def)
  then show "live_jobs (fst (handle (actor_runner dbg) (EnqueueBatch reqs ds) s)) =
      live_jobs s @ request_jobs (job_counter s) accepted"
    using assms(2) push_jobs_live(1) [of s accepted]
    by (simp add: handle_def enqueue_batch_def Let_def case_prod_beta live_jobs_same [OF same_jobs_flush]
        flip: assms(3))
  show "snd (handle (actor_runner dbg) (EnqueueBatch reqs ds) s) =
      ReplyBatch (Inr \<lparr>enqueued = map (\<lambda>j. from_job j False) (request_jobs (job_counter s) accepted),
        skipped_dbs = skipped_by s ds []\<rparr>)"
    using assms(2) push_jobs_live(2) [of s accepted]
    by (simp add: handle_def enqueue_batch_def Let_def case_prod_beta flip: assms(3))
qed

section \<open>Shutdown is final\<close>

context job_runner
begin

lemma started_cancel_shutdown:
  assumes "shutting_down s"
  shows "started v (runner (fst (cancel_running_job_inner ops s sm))) = started v (runner s)"
    and "shutting_down (fst (cancel_running_job_inner ops s sm))"
proof -
  have "started v (runner (fst (cancel_running_job_inner ops s sm))) = started v (runner s) \<and>
      shutting_down (fst (cancel_running_job_inner ops s sm))"
    using assms cancel_stops
    by (auto simp: cancel_running_job_inner_def Let_def start_next_job_noop record_outcome_def
        dest: cancel_pair simp: stops_def split: option.split prod.split cancel_reply.split)
  then show "started v (runner (fst (cancel_running_job_inner ops s sm))) = started v (runner s)"
    "shutting_down (fst (cancel_running_job_inner ops s sm))" by auto
qed

lemma stays_shut:
  assumes "shutting_down s"
  shows "shutting_down (fst (handle ops msg s)) \<and>
     started v (runner (fst (handle ops msg s))) = started v (runner s)"
proof (cases msg)
  case (CancelQueued ids sm)
  let ?s1 = "fst (cancel_queued_loop s ids)"
  have "shutting_down ?s1" using assms by simp
  from started_cancel_shutdown [OF this, of sm] assms CancelQueued show ?thesis
    by (cases sm; simp add: handle_def cancel_queued_def Let_def case_prod_beta start_next_job_noop
        split: option.split)
next
  case (CancelRunning sm)
  with started_cancel_shutdown [OF assms] show ?thesis by (simp add: handle_def case_prod_beta)
next
  case (RunnerFinished qid res)
  with assms show ?thesis
    by (simp add: handle_def runner_finished_def Let_def start_next_job_noop split: option.split)
next
  case (RecordOwed db sm)
  with assms show ?thesis by (simp add: handle_def)
next
  case Shutdown
  let ?s1 = "s\<lparr>shutting_down := True, queue := [], queued_jobs := Map.empty\<rparr>"
  have "shutting_down ?s1" by simp
  from started_cancel_shutdown [OF this, of True] Shutdown show ?thesis
    by (simp add: handle_def shutdown_queue_def Let_def case_prod_beta)
qed (use assms in \<open>simp_all add: handle_def\<close>)

end

lemma shut_step:
  assumes "sys_step dbg s t" and "shutting_down s"
  shows "shutting_down t \<and> r_spawned (runner t) = r_spawned (runner s)"
  using assms
proof (induction rule: sys_step.induct)
  case (client msg s)
  with actor.stays_shut [of s dbg msg] show ?case by (simp add: actor_view_def)
next
  case (task_done j s out)
  then show ?case by (simp add: task_ends_def)
next
  case (runner_recv s)
  then show ?case by (simp add: runner_receives_def split: list.split)
next
  case (queue_recv s i res cs)
  with actor.stays_shut [of "s\<lparr>runner := (runner s)\<lparr>r_sent := cs\<rparr>\<rparr>" dbg "RunnerFinished i res"]
  show ?case by (simp add: actor_view_def)
qed

lemma shut_steps:
  "(sys_step dbg)\<^sup>*\<^sup>* s t \<Longrightarrow> shutting_down s \<Longrightarrow>
   shutting_down t \<and> r_spawned (runner t) = r_spawned (runner s)"
  by (induction rule: rtranclp_induct) (auto dest: shut_step)

lemma reachable_steps: "(sys_step dbg)\<^sup>*\<^sup>* s t \<Longrightarrow> reachable dbg s \<Longrightarrow> reachable dbg t"
  by (induction rule: rtranclp_induct) (auto intro: reachable.step)

lemma shutdown_sets: "shutting_down (fst (handle (actor_runner dbg) Shutdown s))"
  using actor.started_cancel_shutdown(2) [of "s\<lparr>shutting_down := True, queue := [], queued_jobs := Map.empty\<rparr>" dbg True]
  by (simp add: handle_def shutdown_queue_def Let_def case_prod_beta)

lemma model_kept:
  assumes "ready actor_view (RunnerFinished qid res) s" and "running_job s = Some j" and "queue_id j = qid"
    and "batch_loaded (fst (handle (actor_runner dbg) (RunnerFinished qid res) s)) = Some m"
  shows "next_batch_setter (live_jobs (fst (handle (actor_runner dbg) (RunnerFinished qid res) s))) = Some m"
proof -
  let ?b = "boundary_state s j res"
  have start: "batch_loaded (start_next_job ops t) = batch_loaded t" for ops :: "'a runner_ops" and t
    by (simp add: start_next_job_def Let_def record_outcome_def split: list.split prod.split run_reply.split)
  have idle: "running_job ?b = None" by (simp add: boundary_state_def)
  have "batch_loaded (maybe_unload_batch_model ?b) = Some m"
    using assms(4) by (simp add: handle_def flush_tags_dirty_marks_def start
        actor.runner_finished_boundary [OF assms(2,3)])
  with idle have "next_batch_setter (queue ?b) = Some m"
    by (auto simp: maybe_unload_batch_model_def take_batch_unload_def split: option.splits if_splits)
  moreover have "live_jobs ?b = queue ?b" using idle by (simp add: live_jobs_def)
  ultimately show ?thesis
    using actor.live_jobs_finished [OF assms(1-3), of dbg]
    by (simp add: handle_def live_jobs_same [OF same_jobs_flush])
qed

lemma delivered:
  assumes "reachable dbg s" and "r_sent (runner s) = (qid, res) # cs"
  shows "ready actor_view (RunnerFinished qid res) (s\<lparr>runner := (runner s)\<lparr>r_sent := cs\<rparr>\<rparr>)"
  using assms reachable_inv by (auto simp: sys_inv_def intro: queue_takes_ready)

section \<open>Concrete states\<close>

text \<open>One file scan running and one extraction waiting; its completion was forwarded.\<close>

definition scan_request :: job_request where
  "scan_request = \<lparr>r_job_type = FolderUpdate, r_index_db = ''main'', r_user_data_db = ''user'',
     r_metadata = None, r_batch_size = None, r_threshold = None, r_log_id = None, r_tag = None\<rparr>"

definition extract_request :: job_request where
  "extract_request = scan_request\<lparr>r_job_type := DataExtraction, r_metadata := Some ''clip'',
     r_tag := Some ''cron''\<rparr>"

abbreviation quiet :: "api_error \<Rightarrow> string" where
  "quiet \<equiv> (\<lambda>_. [])"

definition busy_system :: job_system where
  "busy_system = fst (handle (actor_runner quiet) (Enqueue extract_request)
     (fst (handle (actor_runner quiet) (Enqueue scan_request) (init_queue init_runner))))"

definition scan_result :: job_run_result where
  "scan_result = \<lparr>success = True, error = None,
     summary = Some \<lparr>wrote_data = True, deleted_data = True, tags_changed = False\<rparr>, loaded_model = None\<rparr>"

definition scan_ended :: task_outcome where
  "scan_ended = Returned (Inr \<lparr>js_summary = \<lparr>wrote_data = True, deleted_data = True, tags_changed = False\<rparr>,
     js_loaded_model = None\<rparr>)"

definition done_system :: job_system where
  "done_system = (let r = runner busy_system in
     busy_system\<lparr>runner := runner_receives (task_ends (request_job 1 scan_request) scan_ended r)\<rparr>)"

lemmas concrete = busy_system_def done_system_def scan_request_def extract_request_def scan_result_def
  scan_ended_def init_queue_def init_runner_def handle_def enqueue_def push_job_def append_job_def
  start_next_job_def actor_runner_def runner_run_job_def drain_def flush_tags_dirty_marks_def
  from_job_def task_ends_def runner_receives_def runner_job_completed_def watcher_result_def request_job_def

lemma busy_value:
  "busy_system =
     \<lparr>queue = [request_job 2 extract_request], queued_jobs = [2 \<mapsto> request_job 2 extract_request],
      running_job = Some (request_job 1 scan_request), outcomes = [], job_counter = 2,
      runner = \<lparr>r_running = Some 1, r_mailbox = [], r_sent = [],
        r_tasks = [request_job 1 scan_request], r_spawned = [1]\<rparr>,
      shutting_down = False, owed = Map.empty, batch_loaded = None, pending_marks = [],
      synthesized = [], unloads = [], marked_dirty = [], shutdown_marked_dirty = []\<rparr>"
  by (simp add: concrete Let_def)

lemma busy_reachable: "reachable quiet busy_system"
  unfolding busy_system_def
  by (intro reachable.step [OF reachable.step [OF reachable.init sys_step.client] sys_step.client])
    (simp_all add: client_msg_def extract_request_def scan_request_def)

lemma busy_runs: "running_job busy_system = Some (request_job 1 scan_request)"
  by (simp add: concrete Let_def)

lemma done_reachable: "reachable quiet done_system"
proof -
  let ?s = "busy_system\<lparr>runner := task_ends (request_job 1 scan_request) scan_ended (runner busy_system)\<rparr>"
  have "request_job 1 scan_request \<in> set (r_tasks (runner busy_system))"
    by (simp add: concrete Let_def)
  with busy_reachable have "reachable quiet ?s"
    by (blast intro: reachable.step sys_step.task_done)
  moreover have "r_mailbox (runner ?s) \<noteq> []" by (simp add: task_ends_def)
  ultimately have "reachable quiet (?s\<lparr>runner := runner_receives (runner ?s)\<rparr>)"
    by (blast intro: reachable.step sys_step.runner_recv)
  then show ?thesis by (simp add: done_system_def Let_def)
qed

lemma done_facts:
  "r_sent (runner done_system) = [(1, scan_result)]"
  "running_job done_system = Some (request_job 1 scan_request)"
  "queue done_system = [request_job 2 extract_request]"
  by (simp_all add: concrete Let_def)

section \<open>The properties\<close>

text \<open>
  C2.  Jobs are started in the order in which they were enqueued, and each at most once: in
  every reachable state the ids of the tasks ever spawned, followed by the ids still
  waiting in the queue, increase strictly.
\<close>

theorem jobs_start_in_order:
  assumes "reachable dbg s"
  shows "sorted_wrt (<) (r_spawned (runner s) @ map queue_id (queue s))"
  using assms by (rule reachable_facts(1))

theorem jobs_start_in_order_witness:
  "sorted_wrt (<) (r_spawned (runner done_system) @ map queue_id (queue done_system)) \<and>
   r_spawned (runner done_system) = [1] \<and> map queue_id (queue done_system) = [2]"
  using jobs_start_in_order [OF done_reachable] by (simp add: concrete Let_def)

text \<open>
  No work waits while nothing runs: in every reachable state without a running job the
  queue is empty, no batch model is tracked, and the runner is idle too.
\<close>

theorem idle_queue_is_empty:
  assumes "reachable dbg s" and "running_job s = None"
  shows "queue s = [] \<and> batch_loaded s = None \<and> r_running (runner s) = None"
  using assms by (rule reachable_facts(2))

theorem idle_queue_is_empty_witness:
  "queue (init_queue init_runner) = [] \<and> batch_loaded (init_queue init_runner) = None \<and>
   r_running (runner (init_queue init_runner)) = None"
  using idle_queue_is_empty [OF reachable.init [of quiet]] by (simp add: init_queue_def)

text \<open>
  C21.  The queue is never wedged: from every reachable state with a running job some run of
  task ends and mail deliveries ends that job, and every such run longer than the
  completions in flight allow has ended it on the way, whatever way the tasks end.
\<close>

theorem running_job_ends:
  assumes "reachable dbg s" and "running_job s = Some j"
  shows "(\<exists>t. (internal_step dbg)\<^sup>*\<^sup>* s t \<and> ended t j) \<and>
     (\<forall>ts. internal_run dbg s ts \<longrightarrow> flight (runner s) < length ts \<longrightarrow> (\<exists>t \<in> set ts. ended t j))"
  using internal_run_ends [OF _ reachable_inv [OF assms(1)] assms(2)]
    internal_run_exists [OF reachable_inv [OF assms(1)] assms(2)] by blast

theorem running_job_ends_witness:
  "\<exists>t. (internal_step quiet)\<^sup>*\<^sup>* busy_system t \<and> ended t (request_job 1 scan_request)"
  using running_job_ends [OF busy_reachable busy_runs] by blast

text \<open>
  Shutdown is final: after a \<open>Shutdown\<close> message no interleaving of clients, tasks and
  actors ever starts another job or lets one wait, and the runner stays stopped.
\<close>

theorem shutdown_is_final:
  assumes "reachable dbg s"
    and "(sys_step dbg)\<^sup>*\<^sup>* (fst (handle (actor_runner dbg) Shutdown s)) t"
  shows "shutting_down t \<and> queue t = [] \<and> r_running (runner t) = None \<and>
     r_spawned (runner t) = r_spawned (runner (fst (handle (actor_runner dbg) Shutdown s)))"
proof -
  let ?s = "fst (handle (actor_runner dbg) Shutdown s)"
  have "reachable dbg ?s" using assms(1) by (rule reachable.step) (simp add: sys_step.client client_msg_def)
  then have t: "reachable dbg t" using assms(2) by (blast intro: reachable_steps)
  from shut_steps [OF assms(2) shutdown_sets] reachable_facts(4) [OF t] show ?thesis by simp
qed

theorem shutdown_is_final_witness:
  "shutting_down (fst (handle (actor_runner quiet) Shutdown busy_system)) \<and>
   queue (fst (handle (actor_runner quiet) Shutdown busy_system)) = []"
  using shutdown_is_final [OF busy_reachable rtranclp.rtrancl_refl] by blast

text \<open>
  At most one maintenance job per index database is running or queued.
\<close>

theorem one_maintenance_per_db:
  assumes "reachable dbg s"
  shows "length (filter (is_maintenance_of db) (live_jobs s)) \<le> 1"
  using reachable_inv [OF assms] by (simp add: sys_inv_def maint_unique_def)

theorem one_maintenance_per_db_witness:
  "length (filter (is_maintenance_of ''main'') (live_jobs busy_system)) \<le> 1"
  using one_maintenance_per_db [OF busy_reachable] .

text \<open>
  Between messages the id index is exactly the queue, the outcome list holds at most
  256 entries, owed flags are never empty and a deletion owes the recount, and no durable
  marker is left unwritten.
\<close>

theorem queue_bookkeeping:
  assumes "reachable dbg s"
  shows "queued_jobs s = map_of (map (\<lambda>j. (queue_id j, j)) (queue s)) \<and>
     length (outcomes s) \<le> 256 \<and> pending_marks s = [] \<and>
     (\<forall>db c. owed s db = Some c \<longrightarrow> \<not> is_empty c \<and> (deleted_data c \<longrightarrow> tags_changed c))"
  using reachable_inv [OF assms]
  by (simp add: sys_inv_def queue_inv_def jobs_inv_def book_inv_def settled_def index_jobs_def
      flags_ok_def max_recent_outcomes_def)

theorem queue_bookkeeping_witness:
  "queued_jobs busy_system 2 = Some (request_job 2 extract_request) \<and> pending_marks busy_system = []"
  using queue_bookkeeping [OF busy_reachable] by (simp add: concrete Let_def)

text \<open>
  C28.  A mass cancel keeps and starts none of the jobs it was asked to cancel: afterwards no
  given id (that names a job that existed) waits in the queue, none was started by the message,
  and the runner runs none of them, whichever job it ran before.
\<close>

theorem mass_cancel_starts_none:
  assumes "reachable dbg s" and "i \<in> set ids" and "i \<le> job_counter s"
  shows "i \<notin> queue_id ` set (queue (fst (handle (actor_runner dbg) (CancelQueued ids sm) s))) \<and>
    (i \<in> set (r_spawned (runner (fst (handle (actor_runner dbg) (CancelQueued ids sm) s)))) \<longrightarrow>
      i \<in> set (r_spawned (runner s))) \<and>
    r_running (runner (fst (handle (actor_runner dbg) (CancelQueued ids sm) s))) \<noteq> Some i"
proof -
  have inv: "queue_inv actor_view s" using reachable_inv [OF assms(1)] by (simp add: sys_inv_def)
  from actor.cancel_queued_spares [OF this, of ids dbg sm, unfolded actor.spares_def]
  obtain ns where
    "\<forall>j \<in> set (queue (fst (handle (actor_runner dbg) (CancelQueued ids sm) s))).
       queue_id j \<in> set ids \<longrightarrow> job_counter s < queue_id j"
    "r_spawned (runner (fst (handle (actor_runner dbg) (CancelQueued ids sm) s))) = r_spawned (runner s) @ ns"
    "\<forall>i \<in> set ns. i \<in> set ids \<longrightarrow> job_counter s < i"
    by (auto simp: handle_def case_prod_beta actor_view_def)
  moreover from actor.cancel_queued_frees [OF inv, of ids dbg sm, unfolded actor.frees_def]
  have "r_running (runner (fst (handle (actor_runner dbg) (CancelQueued ids sm) s))) = Some i \<longrightarrow>
      i \<in> set ids \<longrightarrow> job_counter s < i"
    by (auto simp: handle_def case_prod_beta actor_view_def)
  ultimately show ?thesis using assms(2,3) by fastforce
qed

theorem mass_cancel_starts_none_witness:
  "2 \<notin> queue_id ` set (queue (fst (handle (actor_runner quiet) (CancelQueued [1, 2] False) busy_system))) \<and>
   r_running (runner (fst (handle (actor_runner quiet) (CancelQueued [1, 2] False) busy_system))) \<noteq> Some 1"
  using mass_cancel_starts_none [OF busy_reachable, of 2 "[1, 2]" False]
    mass_cancel_starts_none [OF busy_reachable, of 1 "[1, 2]" False] by (simp add: concrete Let_def)

text \<open>
  The reply of a mass cancel is honest: it names exactly the given ids that were
  waiting in the queue, and the running job if the runner (after the completions already
  in its mailbox) still ran it.
\<close>

theorem mass_cancel_reply:
  assumes "reachable dbg s"
  shows "\<exists>cs. snd (handle (actor_runner dbg) (CancelQueued ids sm) s) = ReplyCancelQueued cs \<and>
     set cs = set ids \<inter> (queue_id ` set (queue s) \<union> set_option (r_running (drain (runner s))))"
proof -
  have inv: "queue_inv actor_view s" using reachable_inv [OF assms] by (simp add: sys_inv_def)
  have run: "\<exists>j. running_job s = Some j \<and> queue_id j = i" if "r_running (drain (runner s)) = Some i" for i
    using that inv
    by (auto simp: queue_inv_def jobs_inv_def actor_view_def split: option.splits if_splits)
  have "(case running_job s of None \<Rightarrow> {} | Some r \<Rightarrow>
          if current actor_view (runner s) = Some (queue_id r) \<and>
             snd (cancel_run (actor_runner dbg) (runner s)) \<noteq> CancelConfirmed None then {queue_id r} else {}) =
      set_option (r_running (drain (runner s)))"
    using run
    by (auto simp: actor_view_def actor_runner_def runner_cancel_running_def image_iff
        split: option.splits if_splits) (metis fst_conv)
  with actor.cancel_queued_reply [OF inv, of dbg ids sm] show ?thesis
    by (simp add: handle_def case_prod_beta)
qed

theorem mass_cancel_reply_witness:
  "\<exists>cs. snd (handle (actor_runner quiet) (CancelQueued [1, 2, 7] False) busy_system) = ReplyCancelQueued cs \<and>
     set cs = {1, 2}"
proof -
  have "set [1, 2, 7] \<inter> (queue_id ` set (queue busy_system) \<union>
      set_option (r_running (drain (runner busy_system)))) = {1, 2}"
    by (auto simp: concrete Let_def)
  with mass_cancel_reply [OF busy_reachable, of "[1, 2, 7]" False] show ?thesis by simp
qed

text \<open>
  No owed flag is lost at a job boundary: after a finished job's completion was
  handled, each flag is due for a database (owed, or carried by a live maintenance job)
  exactly if it was before or the finished job owes it, where a job that did not report
  owes its pessimistic summary and a deletion always owes the recount.
\<close>

theorem boundary_keeps_flags:
  assumes "reachable dbg s" and "r_sent (runner s) = (queue_id j, res) # cs"
    and "running_job s = Some j" and "job_type j \<noteq> DbMaintenance" and "a_flag f"
    and "t = fst (handle (actor_runner dbg) (RunnerFinished (queue_id j) res)
      (s\<lparr>runner := (runner s)\<lparr>r_sent := cs\<rparr>\<rparr>))"
  shows "flag_due f t db \<longleftrightarrow> flag_due f s db \<or>
     (db = index_db j \<and> f (derive_tags (case summary res of None \<Rightarrow> pessimistic_summary j | Some c \<Rightarrow> c)))"
proof -
  let ?s = "s\<lparr>runner := (runner s)\<lparr>r_sent := cs\<rparr>\<rparr>"
  have "flag_due f t db = flag_due f (runner_finished (actor_runner dbg) ?s (queue_id j) res) db"
    unfolding assms(6)
    by (simp add: handle_def flag_due_def live_jobs_same [OF same_jobs_flush]) (simp add: flush_tags_dirty_marks_def)
  moreover have "flag_due f ?s db = flag_due f s db" by (simp add: flag_due_def)
  ultimately show ?thesis
    using actor.finished_keeps_flags [OF delivered [OF assms(1,2)] _ refl assms(4,5), of dbg db] assms(3)
    by simp
qed

theorem boundary_keeps_flags_witness:
  "flag_due tags_changed (fst (handle (actor_runner quiet) (RunnerFinished 1 scan_result)
     (done_system\<lparr>runner := (runner done_system)\<lparr>r_sent := []\<rparr>\<rparr>))) ''main''"
proof -
  have "queue_id (request_job 1 scan_request) = 1" "a_flag tags_changed"
    "job_type (request_job 1 scan_request) \<noteq> DbMaintenance"
    by (simp_all add: request_job_def scan_request_def a_flag_def)
  with boundary_keeps_flags [OF done_reachable _ done_facts(2) _ _ refl, of scan_result "[]" tags_changed "''main''"]
  show ?thesis by (simp add: done_facts) (simp add: request_job_def scan_request_def scan_result_def derive_tags_def)
qed

text \<open>
  Maintenance is paid as soon as the database is quiet: after a completion (outside
  shutdown) the database of the finished job owes nothing, or another job of it is live.
\<close>

theorem boundary_pays:
  assumes "reachable dbg s" and "r_sent (runner s) = (queue_id j, res) # cs"
    and "running_job s = Some j" and "\<not> shutting_down s"
    and "t = fst (handle (actor_runner dbg) (RunnerFinished (queue_id j) res)
      (s\<lparr>runner := (runner s)\<lparr>r_sent := cs\<rparr>\<rparr>))"
  shows "owed t (index_db j) = None \<or> (\<exists>k \<in> set (live_jobs t). index_db k = index_db j)"
proof -
  have "owed t = owed (runner_finished (actor_runner dbg) (s\<lparr>runner := (runner s)\<lparr>r_sent := cs\<rparr>\<rparr>) (queue_id j) res)"
    "live_jobs t = live_jobs (runner_finished (actor_runner dbg) (s\<lparr>runner := (runner s)\<lparr>r_sent := cs\<rparr>\<rparr>) (queue_id j) res)"
    unfolding assms(5)
    by (simp_all add: handle_def live_jobs_same [OF same_jobs_flush]) (simp add: flush_tags_dirty_marks_def)
  with actor.finished_pays [OF delivered [OF assms(1,2)], of j dbg] assms(3,4) show ?thesis
    by (simp add: db_busy_def list_ex_iff)
qed

theorem boundary_pays_witness:
  "\<exists>t. t = fst (handle (actor_runner quiet) (RunnerFinished 1 scan_result)
      (done_system\<lparr>runner := (runner done_system)\<lparr>r_sent := []\<rparr>\<rparr>)) \<and>
     (owed t ''main'' = None \<or> (\<exists>k \<in> set (live_jobs t). index_db k = ''main''))"
proof -
  have "r_sent (runner done_system) = (queue_id (request_job 1 scan_request), scan_result) # []"
    "\<not> shutting_down done_system"
    by (simp_all add: done_facts) (simp_all add: concrete Let_def)
  from boundary_pays [OF done_reachable this(1) done_facts(2) this(2) refl] show ?thesis
    by (simp add: request_job_def scan_request_def)
qed

text \<open>
  A recount that becomes owed in memory is made durable by the same message: whatever
  the message, a database that owes \<open>tags_changed\<close> afterwards owed it before or had its
  marker written while the message was handled.
\<close>

theorem owed_recount_is_durable:
  assumes "reachable dbg s" and "tags_owed (fst (handle (actor_runner dbg) msg s)) db"
  shows "tags_owed s db \<or> db \<in> newly_marked s (fst (handle (actor_runner dbg) msg s))"
  using handle_marks [OF reachable_facts(6) [OF assms(1)] assms(2)] .

theorem owed_recount_is_durable_witness:
  "tags_owed busy_system ''main'' \<or>
   ''main'' \<in> newly_marked busy_system (fst (handle (actor_runner quiet) (CancelRunning True) busy_system))"
proof (rule owed_recount_is_durable [OF busy_reachable])
  show "tags_owed (fst (handle (actor_runner quiet) (CancelRunning True) busy_system)) ''main''"
    by (simp add: concrete Let_def tags_owed_def cancel_running_job_inner_def runner_cancel_running_def
        record_outcome_def record_owed_def merge_owed_def pessimistic_summary_def derive_tags_def
        record_unreported_batch_load_def unreported_batch_load_def maybe_unload_batch_model_def
        take_batch_unload_def is_empty_def default_summary_def)
qed

text \<open>
  Maintenance never owes maintenance: while a maintenance job runs, no message of any
  kind, completions and cancels included, adds or changes an owed flag.
\<close>

theorem maintenance_adds_no_debt:
  assumes "running_job s = Some m" and "job_type m = DbMaintenance"
    and "owed (fst (handle ops msg s)) db = Some c"
  shows "owed s db = Some c"
  using maintenance_owes_nothing [OF assms(1,2), of ops msg] assms(3) by (simp add: owed_shrinks_def)

theorem maintenance_adds_no_debt_witness:
  "\<exists>s. owed s ''a'' = Some all_summary \<and>
     owed (fst (handle (actor_runner quiet) (RecordOwed ''a'' all_summary) s)) ''a'' = Some all_summary"
proof -
  let ?m = "(request_job 1 scan_request)\<lparr>job_type := DbMaintenance\<rparr>"
  let ?s = "(init_queue init_runner)\<lparr>running_job := Some ?m, owed := [''a'' \<mapsto> all_summary]\<rparr>"
  have "owed (fst (handle (actor_runner quiet) (RecordOwed ''a'' all_summary) ?s)) ''a'' = Some all_summary"
    by (simp add: handle_def)
  with maintenance_adds_no_debt [of ?s ?m "actor_runner quiet" "RecordOwed ''a'' all_summary" "''a''" all_summary]
  show ?thesis by (intro exI [of _ ?s]) simp
qed

text \<open>
  A batch drops exactly the conflicting databases: the skipped databases are those
  with a live job of the given tag, each once; the other requests are appended in their
  order with the next ids, and the reply lists just those.
\<close>

theorem batch_drops_conflicts_only:
  assumes "reachable dbg s" and "\<not> shutting_down s"
  shows "\<exists>skipped accepted.
     distinct skipped \<and>
     set skipped = {db. \<exists>d \<in> set ds. d_index_db d = db \<and>
       (\<exists>j \<in> set (live_jobs s). tag j = Some (d_tag d) \<and> index_db j = db)} \<and>
     accepted = request_jobs (job_counter s) (filter (\<lambda>r. r_index_db r \<notin> set skipped) reqs) \<and>
     live_jobs (fst (handle (actor_runner dbg) (EnqueueBatch reqs ds) s)) = live_jobs s @ accepted \<and>
     snd (handle (actor_runner dbg) (EnqueueBatch reqs ds) s) =
       ReplyBatch (Inr \<lparr>enqueued = map (\<lambda>j. from_job j False) accepted, skipped_dbs = skipped\<rparr>)"
proof -
  have "distinct (skipped_by s ds [])"
    "set (skipped_by s ds []) = {db. \<exists>d \<in> set ds. d_index_db d = db \<and>
       (\<exists>j \<in> set (live_jobs s). tag j = Some (d_tag d) \<and> index_db j = db)}"
    using skipped_by_spec [of "[]" s ds] by (auto simp: dedup_conflict_def list_ex_iff)
  with handle_batch [OF reachable_inv [OF assms(1)] assms(2) refl, where dbg = dbg and reqs = reqs and ds = ds]
  show ?thesis by blast
qed

theorem batch_drops_conflicts_only_witness:
  "\<exists>skipped accepted. set skipped = {''main''} \<and>
     snd (handle (actor_runner quiet) (EnqueueBatch [extract_request, extract_request\<lparr>r_index_db := ''b''\<rparr>]
       [\<lparr>d_tag = ''cron'', d_index_db = ''main''\<rparr>, \<lparr>d_tag = ''cron'', d_index_db = ''b''\<rparr>]) busy_system) =
     ReplyBatch (Inr \<lparr>enqueued = map (\<lambda>j. from_job j False) accepted, skipped_dbs = skipped\<rparr>)"
proof -
  have live: "live_jobs busy_system = [request_job 1 scan_request, request_job 2 extract_request]"
    "\<not> shutting_down busy_system"
    by (simp_all add: live_jobs_def concrete Let_def)
  have "{db. \<exists>d \<in> set [\<lparr>d_tag = ''cron'', d_index_db = ''main''\<rparr>, \<lparr>d_tag = ''cron'', d_index_db = ''b''\<rparr>].
      d_index_db d = db \<and> (\<exists>j \<in> set (live_jobs busy_system). tag j = Some (d_tag d) \<and> index_db j = db)} = {''main''}"
    by (auto simp: live request_job_def scan_request_def extract_request_def)
  with batch_drops_conflicts_only [OF busy_reachable live(2),
      of "[\<lparr>d_tag = ''cron'', d_index_db = ''main''\<rparr>, \<lparr>d_tag = ''cron'', d_index_db = ''b''\<rparr>]"
         "[extract_request, extract_request\<lparr>r_index_db := ''b''\<rparr>]"]
  show ?thesis by auto
qed

text \<open>
  The batch model stays loaded only for its next user: if a model is still tracked
  after a completion, the first extraction among the live jobs (maintenance aside, with no
  other kind of job before it) wants that same model.
\<close>

theorem model_kept_for_next_user:
  assumes "reachable dbg s" and "r_sent (runner s) = (queue_id j, res) # cs"
    and "running_job s = Some j"
    and "t = fst (handle (actor_runner dbg) (RunnerFinished (queue_id j) res)
      (s\<lparr>runner := (runner s)\<lparr>r_sent := cs\<rparr>\<rparr>))"
    and "batch_loaded t = Some m"
  shows "next_batch_setter (live_jobs t) = Some m"
  using model_kept [OF delivered [OF assms(1,2)] _ refl, of dbg m] assms(3,4,5) by simp

theorem model_kept_for_next_user_witness:
  "\<exists>t :: job_system. batch_loaded t = Some ''clip'' \<and> next_batch_setter (live_jobs t) = Some ''clip''"
proof -
  let ?res = "scan_result\<lparr>loaded_model := Some ''clip''\<rparr>"
  let ?out = "Returned (Inr \<lparr>js_summary = \<lparr>wrote_data = True, deleted_data = True, tags_changed = False\<rparr>,
     js_loaded_model = Some ''clip''\<rparr>)"
  let ?s1 = "busy_system\<lparr>runner := task_ends (request_job 1 scan_request) ?out (runner busy_system)\<rparr>"
  let ?s = "?s1\<lparr>runner := runner_receives (runner ?s1)\<rparr>"
  have "request_job 1 scan_request \<in> set (r_tasks (runner busy_system))"
    by (simp add: concrete Let_def)
  with busy_reachable have "reachable quiet ?s1" by (blast intro: reachable.step sys_step.task_done)
  moreover have "r_mailbox (runner ?s1) \<noteq> []" by (simp add: task_ends_def)
  ultimately have r: "reachable quiet ?s" by (blast intro: reachable.step sys_step.runner_recv)
  have s: "r_sent (runner ?s) = (queue_id (request_job 1 scan_request), ?res) # []"
    "running_job ?s = Some (request_job 1 scan_request)"
    by (simp_all add: busy_value task_ends_def runner_receives_def runner_job_completed_def
        watcher_result_def scan_result_def request_job_def)
  define t where "t = fst (handle (actor_runner quiet) (RunnerFinished (queue_id (request_job 1 scan_request)) ?res)
      (?s\<lparr>runner := (runner ?s)\<lparr>r_sent := []\<rparr>\<rparr>))"
  have jobs: "queue_id (request_job 1 scan_request) = 1" "queue_id (request_job 2 extract_request) = 2"
    "index_db (request_job 1 scan_request) = ''main''" "index_db (request_job 2 extract_request) = ''main''"
    "job_type (request_job 1 scan_request) = FolderUpdate" "job_type (request_job 2 extract_request) = DataExtraction"
    "metadata (request_job 2 extract_request) = Some ''clip''"
    by (simp_all add: request_job_def scan_request_def extract_request_def)
  have res: "success ?res" "summary ?res = Some \<lparr>wrote_data = True, deleted_data = True, tags_changed = False\<rparr>"
    "error ?res = None" "loaded_model ?res = Some ''clip''"
    by (simp_all add: scan_result_def)
  have l: "batch_loaded t = Some ''clip''"
    unfolding t_def busy_value handle_def
    by (simp add: res jobs runner_finished_def Let_def record_outcome_def record_owed_def merge_owed_def
        derive_tags_def is_empty_def default_summary_def record_batch_load_def
        maybe_schedule_maintenance_def db_busy_def live_jobs_def maybe_unload_batch_model_def
        take_batch_unload_def or_with_def start_next_job_def actor_runner_def runner_run_job_def
        drain_def flush_tags_dirty_marks_def task_ends_def runner_receives_def runner_job_completed_def
        split: prod.split)
  from l model_kept_for_next_user [OF r s t_def l] show ?thesis by blast
qed

text \<open>
  The flags of a maintenance job survive their textual form: reading back the
  metadata written for a summary gives the summary.
\<close>

theorem maintenance_metadata_roundtrip:
  "from_metadata (Some (to_metadata c)) = c"
  by (rule metadata_roundtrip)

end
