(* ===== verification/LinkedMap.thy ===== *)
theory LinkedMap
  imports Prelude "HOL-Library.DAList"
begin

text \<open>
  The interface of the insertion-ordered maps the program takes from the \<open>hashlink\<close>
  crate: \<open>LinkedHashMap\<close> and, on top of it, \<open>LruCache\<close>.  The crate is not part of the
  repository, so its maps are a parameter: a record of the calls the program makes, and
  a locale with the behaviour the crate documents, stated over the iteration order
  (front, least recently used, first).  \<open>LruCache\<close> is always created with an unreachable
  capacity or bounded by the program itself, so an insertion never evicts.
\<close>

record ('k, 'v, 'l) linked_ops =
  lk_empty :: 'l
  lk_iter :: "'l \<Rightarrow> ('k \<times> 'v) list"
  lk_len :: "'l \<Rightarrow> nat"
  lk_peek :: "'k \<Rightarrow> 'l \<Rightarrow> 'v option"
  lk_insert :: "'k \<Rightarrow> 'v \<Rightarrow> 'l \<Rightarrow> 'l \<times> 'v option"
  lk_remove :: "'k \<Rightarrow> 'l \<Rightarrow> 'l \<times> 'v option"
  lk_pop_front :: "'l \<Rightarrow> 'l \<times> ('k \<times> 'v) option"
  lk_set :: "'k \<Rightarrow> 'v \<Rightarrow> 'l \<Rightarrow> 'l"
  lk_get :: "'k \<Rightarrow> 'l \<Rightarrow> 'l \<times> 'v option"

locale linked_map =
  fixes ops :: "('k, 'v, 'l) linked_ops"
  assumes iter_distinct: "distinct (map fst (lk_iter ops l))"
    and iter_empty: "lk_iter ops (lk_empty ops) = []"
    and len_iter: "lk_len ops l = length (lk_iter ops l)"
    and peek_iter: "lk_peek ops k l = map_of (lk_iter ops l) k"
    and insert_iter: "lk_iter ops (fst (lk_insert ops k v l)) = AList.delete k (lk_iter ops l) @ [(k, v)]"
    and insert_prev: "snd (lk_insert ops k v l) = map_of (lk_iter ops l) k"
    and remove_iter: "lk_iter ops (fst (lk_remove ops k l)) = AList.delete k (lk_iter ops l)"
    and remove_value: "snd (lk_remove ops k l) = map_of (lk_iter ops l) k"
    and pop_iter: "lk_iter ops (fst (lk_pop_front ops l)) = tl (lk_iter ops l)"
    and pop_value: "snd (lk_pop_front ops l) =
      (case lk_iter ops l of [] \<Rightarrow> None | e # es \<Rightarrow> Some e)"
    and set_iter: "lk_iter ops (lk_set ops k v l) = AList.map_entry k (\<lambda>_. v) (lk_iter ops l)"

text \<open>\<open>LruCache::get\<close> also moves the entry to the back.\<close>

locale lru_map = linked_map ops for ops :: "('k, 'v, 'l) linked_ops" +
  assumes get_iter: "lk_iter ops (fst (lk_get ops k l)) =
      (case map_of (lk_iter ops l) k of
         None \<Rightarrow> lk_iter ops l
       | Some v \<Rightarrow> AList.delete k (lk_iter ops l) @ [(k, v)])"
    and get_value: "snd (lk_get ops k l) = map_of (lk_iter ops l) k"

section \<open>Association lists\<close>

lemma map_of_delete [simp]: "map_of (AList.delete k xs) = (map_of xs)(k := None)"
  by (rule delete_conv')

lemma delete_notin: "k \<notin> fst ` set xs \<Longrightarrow> AList.delete k xs = xs"
  by (simp add: AList.delete_eq) (metis (mono_tags, lifting) filter_True image_eqI prod.collapse case_prod_unfold)

lemma set_delete: "set (AList.delete k xs) = {p \<in> set xs. fst p \<noteq> k}"
  by (auto simp: AList.delete_eq)

lemma distinct_move_back:
  "distinct (map fst xs) \<Longrightarrow> distinct (map fst (AList.delete k xs @ [(k, v)]))"
  by (auto simp: distinct_delete set_delete)

lemma map_of_move_back: "map_of (AList.delete k xs @ [(k, v)]) = (map_of xs)(k \<mapsto> v)"
  by (auto simp: fun_eq_iff map_add_def split: option.split)

lemma sum_list_delete:
  fixes f :: "'v \<Rightarrow> nat"
  assumes "distinct (map fst xs)"
  shows "sum_list (map (f \<circ> snd) xs) =
     sum_list (map (f \<circ> snd) (AList.delete k xs)) + (case map_of xs k of None \<Rightarrow> 0 | Some v \<Rightarrow> f v)"
  using assms
proof (induction xs)
  case Nil
  then show ?case by simp
next
  case (Cons x xs)
  then show ?case by (cases "fst x = k") (auto simp: delete_notin map_of_eq_None_iff split: option.splits)
qed

context linked_map
begin

text \<open>The interface as lookups.\<close>

lemma insert_map: "map_of (lk_iter ops (fst (lk_insert ops k v l))) = (map_of (lk_iter ops l))(k \<mapsto> v)"
  unfolding insert_iter by (rule map_of_move_back)

lemma remove_map: "map_of (lk_iter ops (fst (lk_remove ops k l))) = (map_of (lk_iter ops l))(k := None)"
  unfolding remove_iter by (rule map_of_delete)

end

context lru_map
begin

lemma get_map: "map_of (lk_iter ops (fst (lk_get ops k l))) = map_of (lk_iter ops l)"
proof (cases "map_of (lk_iter ops l) k")
  case None
  then show ?thesis by (simp add: get_iter)
next
  case (Some v)
  then have "map_of (lk_iter ops (fst (lk_get ops k l))) = (map_of (lk_iter ops l))(k \<mapsto> v)"
    using map_of_move_back [of k "lk_iter ops l" v] by (simp add: get_iter del: map_of_append)
  with Some show ?thesis by (auto simp: fun_eq_iff)
qed

lemma get_sum:
  fixes f :: "'v \<Rightarrow> nat"
  shows "sum_list (map (f \<circ> snd) (lk_iter ops (fst (lk_get ops k l)))) = sum_list (map (f \<circ> snd) (lk_iter ops l))"
  using sum_list_delete [OF iter_distinct, of f l k] by (simp add: get_iter split: option.split)

end

section \<open>A reference implementation\<close>

text \<open>
  Duplicate-free association lists satisfy the interface; they serve as the concrete map
  of the witnesses.
\<close>

definition list_pop :: "('k, 'v) alist \<Rightarrow> ('k, 'v) alist \<times> ('k \<times> 'v) option" where
  "list_pop l = (case DAList.impl_of l of
      [] \<Rightarrow> (l, None)
    | e # es \<Rightarrow> (DAList.delete (fst e) l, Some e))"

definition list_back :: "'k \<Rightarrow> 'v \<Rightarrow> ('k, 'v) alist \<Rightarrow> ('k, 'v) alist" where
  "list_back k v l = DAList.update k v (DAList.delete k l)"

definition list_ops :: "('k, 'v, ('k, 'v) alist) linked_ops" where
  "list_ops =
     \<lparr>lk_empty = DAList.empty,
      lk_iter = DAList.impl_of,
      lk_len = (\<lambda>l. length (DAList.impl_of l)),
      lk_peek = (\<lambda>k l. DAList.lookup l k),
      lk_insert = (\<lambda>k v l. (list_back k v l, DAList.lookup l k)),
      lk_remove = (\<lambda>k l. (DAList.delete k l, DAList.lookup l k)),
      lk_pop_front = list_pop,
      lk_set = (\<lambda>k v l. DAList.map_entry k (\<lambda>_. v) l),
      lk_get = (\<lambda>k l. case DAList.lookup l k of
                  None \<Rightarrow> (l, None) | Some v \<Rightarrow> (list_back k v l, Some v))\<rparr>"

lemma impl_of_back: "DAList.impl_of (list_back k v l) = AList.delete k (DAList.impl_of l) @ [(k, v)]"
proof -
  have "AList.update k v xs = xs @ [(k, v)]" if "k \<notin> fst ` set xs" for xs :: "('a \<times> 'b) list"
    using that by (induction xs) auto
  moreover have "k \<notin> fst ` set (AList.delete k (DAList.impl_of l))" by (auto simp: set_delete)
  ultimately show ?thesis
    by (simp add: list_back_def update.rep_eq delete.rep_eq)
qed

interpretation listed: lru_map list_ops
proof unfold_locales
  fix l :: "('a, 'b) alist" and k :: 'a
  show "distinct (map fst (lk_iter list_ops l))"
    using impl_of [of l] by (simp add: list_ops_def)
  have pop: "AList.delete (fst e) (e # es) = es" if "distinct (map fst (e # es))" for e :: "'a \<times> 'b" and es
    using that by (simp add: delete_notin)
  show "lk_iter list_ops (fst (lk_pop_front list_ops l)) = tl (lk_iter list_ops l)"
    using pop impl_of_distinct [of l]
    by (cases "DAList.impl_of l") (simp_all add: list_ops_def list_pop_def delete.rep_eq)
  show "snd (lk_pop_front list_ops l) = (case lk_iter list_ops l of [] \<Rightarrow> None | e # es \<Rightarrow> Some e)"
    by (auto simp: list_ops_def list_pop_def split: list.split)
  show "lk_iter list_ops (fst (lk_get list_ops k l)) =
      (case map_of (lk_iter list_ops l) k of
         None \<Rightarrow> lk_iter list_ops l
       | Some v \<Rightarrow> AList.delete k (lk_iter list_ops l) @ [(k, v)])"
    by (simp add: list_ops_def lookup.rep_eq impl_of_back split: option.split)
qed (simp_all add: list_ops_def empty.rep_eq lookup.rep_eq impl_of_back delete.rep_eq map_entry.rep_eq
      split: option.split)

end
