(* ===== verification/SearchCache.thy ===== *)
theory SearchCache
  imports LinkedMap
begin

text \<open>
  The result cache of \<open>POST /api/search/pql\<close>
  (\<open>panoptikon/src/api/search_cache.rs\<close>) and the epoch counters that validate it
  (\<open>panoptikon/src/db/epochs.rs\<close>).  Rows are of any type; \<open>enc\<close> stands for the length of
  their JSON text, and \<open>ops\<close> for the LRU map.  Each function of the source locks the
  global cache for its whole body, so it is one function from state to state.  Offsets,
  starts and limits are \<open>u64\<close> values, kept as \<open>nat\<close> with the saturating operations the
  code uses; byte counts are sums of sizes of values in memory.
\<close>

section \<open>Epochs\<close>

record epoch_counters =
  index_epochs :: "string \<Rightarrow> nat"
  user_epochs :: "string \<Rightarrow> nat"

definition zero_epochs :: epoch_counters where
  "zero_epochs = \<lparr>index_epochs = (\<lambda>_. 0), user_epochs = (\<lambda>_. 0)\<rparr>"

text \<open>\<open>fetch_add\<close> on an \<open>AtomicU64\<close> wraps.\<close>

definition bump_index_epoch :: "string \<Rightarrow> epoch_counters \<Rightarrow> epoch_counters" where
  "bump_index_epoch db ep =
     ep\<lparr>index_epochs := (index_epochs ep)(db := (index_epochs ep db + 1) mod 2 ^ 64)\<rparr>"

definition bump_user_data_epoch :: "string \<Rightarrow> epoch_counters \<Rightarrow> epoch_counters" where
  "bump_user_data_epoch db ep =
     ep\<lparr>user_epochs := (user_epochs ep)(db := (user_epochs ep db + 1) mod 2 ^ 64)\<rparr>"

section \<open>Data\<close>

definition span_rows :: nat where "span_rows = 256"
definition span_overhead_bytes :: nat where "span_overhead_bytes = 128"
definition group_overhead_bytes :: nat where "group_overhead_bytes = 128"

record query_key =
  qk_index_db :: string
  qk_user_data_db :: "string option"
  qk_sql :: string
  qk_params :: string

definition key_bytes :: "query_key \<Rightarrow> nat" where
  "key_bytes q =
     group_overhead_bytes + length (qk_index_db q) +
     (case qk_user_data_db q of None \<Rightarrow> 0 | Some d \<Rightarrow> length d) +
     length (qk_sql q) + length (qk_params q)"

record span_key =
  sk_query :: query_key
  sk_start :: nat

datatype 'r span_value = Rows "'r list" | Count int

record 'r span =
  sp_value :: "'r span_value"
  sp_bytes :: nat

definition row_len :: "'r span \<Rightarrow> nat" where
  "row_len sp = (case sp_value sp of Rows rows \<Rightarrow> length rows | Count _ \<Rightarrow> 0)"

text \<open>A \<open>BTreeSet\<close> is its increasing list.\<close>

record group_index =
  starts :: "nat list"
  index_epoch :: nat
  user_data_epoch :: "nat option"
  known_end :: "nat option"
  g_bytes :: nat

record epoch_snapshot =
  es_index :: nat
  es_user_data :: "nat option"

definition take_snapshot :: "epoch_counters \<Rightarrow> query_key \<Rightarrow> epoch_snapshot" where
  "take_snapshot ep q =
     \<lparr>es_index = index_epochs ep (qk_index_db q),
      es_user_data = map_option (user_epochs ep) (qk_user_data_db q)\<rparr>"

definition is_current :: "epoch_counters \<Rightarrow> query_key \<Rightarrow> group_index \<Rightarrow> bool" where
  "is_current ep q g \<longleftrightarrow>
     index_epoch g = index_epochs ep (qk_index_db q) \<and>
     user_data_epoch g = map_option (user_epochs ep) (qk_user_data_db q)"

datatype epoch_order = Older | Same | Newer

datatype 'a cache_lookup = Hit 'a | Stale | Miss

record 'l cache_state =
  lru :: 'l
  groups :: "(query_key \<times> group_index) list"
  used_bytes :: nat
  budget_bytes :: nat
  limit_bytes :: nat
  hits :: nat
  misses :: nat
  stale_hits :: nat
  evictions :: nat

type_synonym ('r, 'l) span_ops = "(span_key, 'r span, 'l) linked_ops"

definition init_cache :: "('r, 'l) span_ops \<Rightarrow> 'l cache_state" where
  "init_cache ops =
     \<lparr>lru = lk_empty ops, groups = [], used_bytes = 0, budget_bytes = 0, limit_bytes = u64_max,
      hits = 0, misses = 0, stale_hits = 0, evictions = 0\<rparr>"

definition group_of :: "'l cache_state \<Rightarrow> query_key \<Rightarrow> group_index option" where
  "group_of s q = map_of (groups s) q"

definition set_group :: "query_key \<Rightarrow> group_index \<Rightarrow> 'l cache_state \<Rightarrow> 'l cache_state" where
  "set_group q g s = s\<lparr>groups := AList.update q g (groups s)\<rparr>"

definition the_key :: "query_key \<Rightarrow> nat \<Rightarrow> span_key" where
  "the_key q st = \<lparr>sk_query = q, sk_start = st\<rparr>"

text \<open>\<open>range(..=a).next_back()\<close>, \<open>range(a..b)\<close>, \<open>insert\<close> and \<open>remove\<close> of a \<open>BTreeSet\<close>.\<close>

definition last_up_to :: "nat \<Rightarrow> nat list \<Rightarrow> nat option" where
  "last_up_to a xs = (case filter (\<lambda>x. x \<le> a) xs of [] \<Rightarrow> None | ys \<Rightarrow> Some (last ys))"

definition range_from :: "nat \<Rightarrow> nat \<Rightarrow> nat list \<Rightarrow> nat list" where
  "range_from a b xs = filter (\<lambda>x. a \<le> x \<and> x < b) xs"

definition add_start :: "nat \<Rightarrow> nat list \<Rightarrow> nat list" where
  "add_start x xs = (if x \<in> set xs then xs else insort x xs)"

section \<open>Eviction and the group index\<close>

definition value_bytes :: "('r list \<Rightarrow> nat) \<Rightarrow> 'r span_value \<Rightarrow> nat" where
  "value_bytes enc v = (case v of Rows rows \<Rightarrow> enc rows | Count _ \<Rightarrow> 8)"

definition detach_span :: "span_key \<Rightarrow> 'l cache_state \<Rightarrow> 'l cache_state" where
  "detach_span k s =
     (case group_of s (sk_query k) of
        None \<Rightarrow> s
      | Some g \<Rightarrow>
          (let g' = g\<lparr>starts := remove1 (sk_start k) (starts g)\<rparr> in
           if starts g' = []
           then s\<lparr>groups := AList.delete (sk_query k) (groups s),
                  used_bytes := used_bytes s - g_bytes g'\<rparr>
           else set_group (sk_query k) g' s))"

text \<open>
  The loop of \<open>evict_to_budget\<close>, with fuel: every round pops a span, so one more round
  than there are spans reaches the end.
\<close>

fun evict_loop :: "('r, 'l) span_ops \<Rightarrow> nat \<Rightarrow> 'l cache_state \<Rightarrow> 'l cache_state" where
  "evict_loop ops 0 s = s"
| "evict_loop ops (Suc n) s =
     (if used_bytes s > budget_bytes s then
        (case lk_pop_front ops (lru s) of
           (l, Some (k, sp)) \<Rightarrow>
             (let s1 = s\<lparr>lru := l, used_bytes := used_bytes s - sp_bytes sp\<rparr>;
                  s2 = detach_span k s1
              in evict_loop ops n (s2\<lparr>evictions := evictions s2 + 1\<rparr>))
         | (l, None) \<Rightarrow> s\<lparr>lru := l, groups := [], used_bytes := 0\<rparr>)
      else s)"

definition evict_to_budget :: "('r, 'l) span_ops \<Rightarrow> 'l cache_state \<Rightarrow> 'l cache_state" where
  "evict_to_budget ops s = evict_loop ops (Suc (lk_len ops (lru s))) s"

fun remove_spans :: "('r, 'l) span_ops \<Rightarrow> query_key \<Rightarrow> nat list \<Rightarrow> 'l cache_state \<Rightarrow> 'l cache_state" where
  "remove_spans ops q [] s = s"
| "remove_spans ops q (st # sts) s =
     remove_spans ops q sts
       (case lk_remove ops (the_key q st) (lru s) of
          (l, Some sp) \<Rightarrow> s\<lparr>lru := l, used_bytes := used_bytes s - sp_bytes sp\<rparr>
        | (l, None) \<Rightarrow> s\<lparr>lru := l\<rparr>)"

definition clear_group_spans ::
  "('r, 'l) span_ops \<Rightarrow> query_key \<Rightarrow> 'l cache_state \<Rightarrow> 'l cache_state" where
  "clear_group_spans ops q s =
     (case group_of s q of
        None \<Rightarrow> s
      | Some g \<Rightarrow> remove_spans ops q (starts g) (set_group q (g\<lparr>starts := [], known_end := None\<rparr>) s))"

definition drop_group :: "('r, 'l) span_ops \<Rightarrow> query_key \<Rightarrow> 'l cache_state \<Rightarrow> 'l cache_state" where
  "drop_group ops q s =
     (let s1 = clear_group_spans ops q s in
      case group_of s1 q of
        None \<Rightarrow> s1
      | Some g \<Rightarrow> s1\<lparr>groups := AList.delete q (groups s1), used_bytes := used_bytes s1 - g_bytes g\<rparr>)"

section \<open>Stamping and storing\<close>

definition epoch_order_of :: "epoch_snapshot \<Rightarrow> group_index \<Rightarrow> epoch_order" where
  "epoch_order_of snap g =
     (let le = (case (es_user_data snap, user_data_epoch g) of
                  (Some a, Some b) \<Rightarrow> b \<le> a
                | (None, None) \<Rightarrow> True
                | _ \<Rightarrow> False);
          eq = (case (es_user_data snap, user_data_epoch g) of
                  (Some a, Some b) \<Rightarrow> a = b
                | (None, None) \<Rightarrow> True
                | _ \<Rightarrow> False)
      in if es_index snap = index_epoch g \<and> eq then Same
         else if index_epoch g \<le> es_index snap \<and> le then Newer
         else Older)"

definition new_group :: "query_key \<Rightarrow> epoch_snapshot \<Rightarrow> group_index" where
  "new_group q snap =
     \<lparr>starts = [], index_epoch = es_index snap, user_data_epoch = es_user_data snap,
      known_end = None, g_bytes = key_bytes q\<rparr>"

definition reconcile_epochs ::
  "('r, 'l) span_ops \<Rightarrow> query_key \<Rightarrow> epoch_snapshot \<Rightarrow> 'l cache_state \<Rightarrow> 'l cache_state \<times> bool" where
  "reconcile_epochs ops q snap s =
     (case group_of s q of
        None \<Rightarrow>
          (let s1 = set_group q (new_group q snap) s
           in (s1\<lparr>used_bytes := used_bytes s1 + g_bytes (new_group q snap)\<rparr>, True))
      | Some g \<Rightarrow>
          (case epoch_order_of snap g of
             Older \<Rightarrow> (s, False)
           | Same \<Rightarrow> (s, True)
           | Newer \<Rightarrow>
               (let s1 = clear_group_spans ops q s in
                (case group_of s1 q of
                   None \<Rightarrow> s1
                 | Some g1 \<Rightarrow> set_group q (g1\<lparr>index_epoch := es_index snap,
                                 user_data_epoch := es_user_data snap\<rparr>) s1, True))))"

definition store_span ::
  "('r, 'l) span_ops \<Rightarrow> ('r list \<Rightarrow> nat) \<Rightarrow> span_key \<Rightarrow> 'r span_value \<Rightarrow> 'l cache_state \<Rightarrow> 'l cache_state" where
  "store_span ops enc k v s =
     (let bytes = span_overhead_bytes + value_bytes enc v;
          s1 = (case group_of s (sk_query k) of
                  None \<Rightarrow> s
                | Some g \<Rightarrow> set_group (sk_query k) (g\<lparr>starts := add_start (sk_start k) (starts g)\<rparr>) s);
          (l, previous) = lk_insert ops k \<lparr>sp_value = v, sp_bytes = bytes\<rparr> (lru s1);
          s2 = (case previous of
                  None \<Rightarrow> s1\<lparr>lru := l\<rparr>
                | Some p \<Rightarrow> s1\<lparr>lru := l, used_bytes := used_bytes s1 - sp_bytes p\<rparr>)
      in s2\<lparr>used_bytes := used_bytes s2 + bytes\<rparr>)"

section \<open>The budget\<close>

definition wipe :: "('r, 'l) span_ops \<Rightarrow> 'l cache_state \<Rightarrow> 'l cache_state" where
  "wipe ops s = s\<lparr>lru := lk_empty ops, groups := [], used_bytes := 0\<rparr>"

definition set_budget_mb :: "('r, 'l) span_ops \<Rightarrow> nat \<Rightarrow> 'l cache_state \<Rightarrow> 'l cache_state" where
  "set_budget_mb ops size_mb s =
     (let s1 = s\<lparr>budget_bytes := min (sat_mul size_mb (1024 * 1024)) (limit_bytes s)\<rparr>
      in if budget_bytes s1 = 0 then wipe ops s1 else evict_to_budget ops s1)"

definition set_budget_limit_mb :: "('r, 'l) span_ops \<Rightarrow> nat \<Rightarrow> 'l cache_state \<Rightarrow> 'l cache_state" where
  "set_budget_limit_mb ops limit_mb s =
     (let s1 = s\<lparr>limit_bytes := sat_mul limit_mb (1024 * 1024)\<rparr>
      in if budget_bytes s1 > limit_bytes s1
         then evict_to_budget ops (s1\<lparr>budget_bytes := limit_bytes s1\<rparr>)
         else s1)"

definition budget_limit_mb :: "'l cache_state \<Rightarrow> nat" where
  "budget_limit_mb s = limit_bytes s div (1024 * 1024)"

definition is_enabled :: "'l cache_state \<Rightarrow> bool" where
  "is_enabled s \<longleftrightarrow> budget_bytes s > 0"

text \<open>\<open>resize_result_cache\<close>: the request is refused above the ceiling.\<close>

definition resize_result_cache ::
  "('r, 'l) span_ops \<Rightarrow> nat \<Rightarrow> 'l cache_state \<Rightarrow> nat + 'l cache_state" where
  "resize_result_cache ops size_mb s =
     (if size_mb > budget_limit_mb s then Inl (budget_limit_mb s) else Inr (set_budget_mb ops size_mb s))"

section \<open>Reading\<close>

definition row_slice :: "'r list \<Rightarrow> nat \<Rightarrow> nat \<Rightarrow> 'r list" where
  "row_slice rows a b = take (b - a) (drop a rows)"

text \<open>The gathering loop: the map, the covered end and the rows gathered so far.\<close>

fun gather ::
  "('r, 'l) span_ops \<Rightarrow> query_key \<Rightarrow> nat \<Rightarrow> nat list \<Rightarrow> nat \<Rightarrow> 'r list \<Rightarrow> 'l \<Rightarrow> 'l \<times> nat \<times> 'r list" where
  "gather ops q want_end [] covered acc l = (l, covered, acc)"
| "gather ops q want_end (st # sts) covered acc l =
     (if st > covered then (l, covered, acc)
      else case lk_get ops (the_key q st) l of
        (l', None) \<Rightarrow> (l', covered, acc)
      | (l', Some sp) \<Rightarrow>
          (case sp_value sp of
             Count _ \<Rightarrow> (l', covered, acc)
           | Rows rows \<Rightarrow>
               (let e = st + length rows in
                if e \<le> covered then gather ops q want_end sts covered acc l'
                else (let acc' = acc @ row_slice rows (covered - st) (min e want_end - st);
                          covered' = min e want_end
                      in if covered' \<ge> want_end then (l', covered', acc')
                         else gather ops q want_end sts covered' acc' l'))))"

definition lookup_rows ::
  "('r, 'l) span_ops \<Rightarrow> epoch_counters \<Rightarrow> query_key \<Rightarrow> nat \<Rightarrow> nat option \<Rightarrow> 'l cache_state \<Rightarrow>
     'l cache_state \<times> 'r list cache_lookup" where
  "lookup_rows ops ep q offset limit s =
     (if budget_bytes s = 0 then (s, Miss)
      else case group_of s q of
        None \<Rightarrow> (s\<lparr>misses := misses s + 1\<rparr>, Miss)
      | Some g \<Rightarrow>
          if \<not> is_current ep q g then (s\<lparr>stale_hits := stale_hits s + 1\<rparr>, Stale)
          else
            (case (case (limit, known_end g) of
                     (Some lim, Some e) \<Rightarrow> Some (min (sat_add offset lim) e)
                   | (Some lim, None) \<Rightarrow> Some (sat_add offset lim)
                   | (None, Some e) \<Rightarrow> Some e
                   | (None, None) \<Rightarrow> None) of
               None \<Rightarrow> (s\<lparr>misses := misses s + 1\<rparr>, Miss)
             | Some want_end \<Rightarrow>
                 if want_end \<le> offset then (s\<lparr>hits := hits s + 1\<rparr>, Hit [])
                 else
                   (case last_up_to offset (starts g) of
                      None \<Rightarrow> (s\<lparr>misses := misses s + 1\<rparr>, Miss)
                    | Some first \<Rightarrow>
                        (case gather ops q want_end (range_from first want_end (starts g)) offset [] (lru s) of
                           (l, covered, gathered) \<Rightarrow>
                             if covered \<ge> want_end
                             then (s\<lparr>lru := l, hits := hits s + 1\<rparr>, Hit gathered)
                             else (s\<lparr>lru := l, misses := misses s + 1\<rparr>, Miss)))))"

definition lookup_count ::
  "('r, 'l) span_ops \<Rightarrow> epoch_counters \<Rightarrow> query_key \<Rightarrow> 'l cache_state \<Rightarrow>
     'l cache_state \<times> int cache_lookup" where
  "lookup_count ops ep q s =
     (if budget_bytes s = 0 then (s, Miss)
      else case group_of s q of
        None \<Rightarrow> (s\<lparr>misses := misses s + 1\<rparr>, Miss)
      | Some g \<Rightarrow>
          if \<not> is_current ep q g then (s\<lparr>stale_hits := stale_hits s + 1\<rparr>, Stale)
          else
            (case lk_get ops (the_key q 0) (lru s) of
               (l, Some sp) \<Rightarrow>
                 (case sp_value sp of
                    Count tot \<Rightarrow> (s\<lparr>lru := l, hits := hits s + 1\<rparr>, Hit tot)
                  | Rows _ \<Rightarrow> (s\<lparr>lru := l, misses := misses s + 1\<rparr>, Miss))
             | (l, None) \<Rightarrow> (s\<lparr>lru := l, misses := misses s + 1\<rparr>, Miss)))"

section \<open>Writing\<close>

text \<open>
  \<open>push_grid_split\<close>: the pieces it pushes.  \<open>to\<close> is a \<open>u64\<close>, which the guard spells out.
\<close>

function grid_split :: "nat \<Rightarrow> nat \<Rightarrow> (nat \<times> nat) list" where
  "grid_split start to =
     (if start < to \<and> to \<le> u64_max
      then (let grid_next = sat_mul (start div span_rows + 1) span_rows;
                stop = min to grid_next
            in (start, stop) # grid_split stop to)
      else [])"
  by pat_completeness auto

lemma grid_next_above:
  assumes "start < to" and "to \<le> u64_max"
  shows "start < min to (sat_mul (start div span_rows + 1) span_rows)"
proof -
  have "start < (start div 256 + 1) * 256"
    using dividend_less_div_times [of 256 start] by simp
  with assms show ?thesis unfolding sat_mul_def span_rows_def by simp
qed

termination grid_split
proof (relation "measure (\<lambda>(start, to). to - start)")
  fix start to x xa :: nat
  assume a: "start < to \<and> to \<le> u64_max" "x = sat_mul (start div span_rows + 1) span_rows" "xa = min to x"
  with grid_next_above [of start to] have "start < xa" by simp
  moreover have "start < to" using a by simp
  ultimately have "to - xa < to - start" by (rule diff_less_mono2)
  then show "((xa, to), start, to) \<in> measure (\<lambda>(start, to). to - start)" by simp
qed simp

declare grid_split.simps [simp del]

definition occupied_ranges ::
  "('r, 'l) span_ops \<Rightarrow> 'l cache_state \<Rightarrow> query_key \<Rightarrow> nat \<Rightarrow> nat \<Rightarrow> (nat \<times> nat) list" where
  "occupied_ranges ops s q from to =
     (case group_of s q of
        None \<Rightarrow> []
      | Some g \<Rightarrow>
          (let begin_at = (case last_up_to from (starts g) of None \<Rightarrow> from | Some a \<Rightarrow> a)
           in List.map_filter
                (\<lambda>st. case lk_peek ops (the_key q st) (lru s) of
                   None \<Rightarrow> None
                 | Some sp \<Rightarrow> (let e = st + row_len sp in if e > from then Some (st, e) else None))
                (range_from begin_at to (starts g))))"

text \<open>The loop over the occupied ranges, then the rest: the pieces to store.\<close>

fun carve :: "(nat \<times> nat) list \<Rightarrow> nat \<Rightarrow> nat \<Rightarrow> (nat \<times> nat) list" where
  "carve [] cursor e = (if cursor < e then grid_split cursor e else [])"
| "carve ((st, stop) # occ) cursor e =
     (let pieces = (if st > cursor then grid_split cursor (min st e) else []);
          cursor' = max cursor stop
      in if cursor' \<ge> e then pieces else pieces @ carve occ cursor' e)"

fun store_pieces ::
  "('r, 'l) span_ops \<Rightarrow> ('r list \<Rightarrow> nat) \<Rightarrow> query_key \<Rightarrow> nat \<Rightarrow> 'r list \<Rightarrow> (nat \<times> nat) list \<Rightarrow>
     'l cache_state \<Rightarrow> 'l cache_state" where
  "store_pieces ops enc q offset rows [] s = s"
| "store_pieces ops enc q offset rows ((st, stop) # ps) s =
     store_pieces ops enc q offset rows ps
       (store_span ops enc (the_key q st) (Rows (row_slice rows (st - offset) (stop - offset))) s)"

definition insert_rows ::
  "('r, 'l) span_ops \<Rightarrow> ('r list \<Rightarrow> nat) \<Rightarrow> query_key \<Rightarrow> epoch_snapshot \<Rightarrow> nat \<Rightarrow> nat option \<Rightarrow>
     'r list \<Rightarrow> 'l cache_state \<Rightarrow> 'l cache_state" where
  "insert_rows ops enc q snap offset executed_limit rows s =
     (if budget_bytes s = 0 then s
      else case reconcile_epochs ops q snap s of
        (s1, False) \<Rightarrow> s1
      | (s1, True) \<Rightarrow>
          (let e = sat_add offset (length rows);
               short = (case executed_limit of None \<Rightarrow> True | Some lim \<Rightarrow> length rows < lim);
               s2 = (case group_of s1 q of
                       None \<Rightarrow> s1
                     | Some g \<Rightarrow> if short then set_group q (g\<lparr>known_end := Some e\<rparr>) s1 else s1);
               pieces = carve (occupied_ranges ops s2 q offset e) offset e;
               s3 = store_pieces ops enc q offset rows pieces s2;
               s4 = (case group_of s3 q of
                       None \<Rightarrow> s3
                     | Some g \<Rightarrow>
                         if starts g = [] then store_span ops enc (the_key q offset) (Rows []) s3 else s3)
           in evict_to_budget ops s4))"

definition insert_count ::
  "('r, 'l) span_ops \<Rightarrow> ('r list \<Rightarrow> nat) \<Rightarrow> query_key \<Rightarrow> epoch_snapshot \<Rightarrow> int \<Rightarrow>
     'l cache_state \<Rightarrow> 'l cache_state" where
  "insert_count ops enc q snap tot s =
     (if budget_bytes s = 0 then s
      else case reconcile_epochs ops q snap s of
        (s1, False) \<Rightarrow> s1
      | (s1, True) \<Rightarrow>
          evict_to_budget ops (store_span ops enc (the_key q 0) (Count tot) s1))"

definition clear_matches :: "string option \<Rightarrow> string option \<Rightarrow> query_key \<Rightarrow> bool" where
  "clear_matches idb udb q \<longleftrightarrow>
     (case idb of None \<Rightarrow> True | Some n \<Rightarrow> qk_index_db q = n) \<and>
     (case udb of None \<Rightarrow> True | Some n \<Rightarrow> qk_user_data_db q = Some n)"

definition clear_cache ::
  "('r, 'l) span_ops \<Rightarrow> string option \<Rightarrow> string option \<Rightarrow> 'l cache_state \<Rightarrow> 'l cache_state" where
  "clear_cache ops idb udb s =
     (if idb = None \<and> udb = None then wipe ops s
      else foldl (\<lambda>t q. drop_group ops q t) s (filter (clear_matches idb udb) (map fst (groups s))))"

end
