(* ===== verification/SearchCacheInv.thy ===== *)
theory SearchCacheInv
  imports SearchCache
begin

text \<open>
  The invariant of the result cache: the LRU and the group index hold the same spans, the
  byte account is exact, every group owns a span, and the account is within the budget.
  Everything is proved for any LRU map that keeps the contract of \<open>lru_map\<close>.
\<close>

section \<open>Increasing lists\<close>

lemma sorted_add_start: "sorted_wrt (<) xs \<Longrightarrow> sorted_wrt (<) (add_start x xs)"
  unfolding add_start_def strict_sorted_iff by (auto simp: distinct_insort sorted_insort)

lemma set_add_start [simp]: "set (add_start x xs) = insert x (set xs)"
  by (auto simp: add_start_def set_insort_key)

lemma sorted_remove1: "sorted_wrt (<) (xs :: nat list) \<Longrightarrow> sorted_wrt (<) (remove1 x xs)"
  unfolding strict_sorted_iff by (auto simp: sorted_remove1)

lemma set_remove1_sorted: "sorted_wrt (<) (xs :: nat list) \<Longrightarrow> set (remove1 x xs) = set xs - {x}"
  unfolding strict_sorted_iff by simp

lemma sorted_le_last: "sorted xs \<Longrightarrow> x \<in> set xs \<Longrightarrow> x \<le> last xs"
  by (induction xs) (auto split: if_splits)

lemma last_up_to_Some:
  assumes "last_up_to a xs = Some b" and "sorted_wrt (<) xs"
  shows "b \<in> set xs \<and> b \<le> a \<and> (\<forall>x \<in> set xs. x \<le> a \<longrightarrow> x \<le> b)"
proof -
  let ?f = "filter (\<lambda>x. x \<le> a) xs"
  have ne: "?f \<noteq> []" and b: "b = last ?f" using assms(1) by (auto simp: last_up_to_def split: list.splits)
  have "sorted ?f" using assms(2) by (simp add: strict_sorted_iff sorted_wrt_filter)
  then have "\<forall>x \<in> set ?f. x \<le> last ?f"
    by (simp add: sorted_le_last)
  moreover have "last ?f \<in> set ?f" using ne by (rule last_in_set)
  ultimately show ?thesis using b by auto
qed

lemma last_up_to_None: "last_up_to a xs = None \<longleftrightarrow> (\<forall>x \<in> set xs. a < x)"
  by (cases "filter (\<lambda>x. x \<le> a) xs") (auto simp: last_up_to_def filter_empty_conv not_le dest: filter_eq_ConsD)

section \<open>The cache over any LRU map\<close>

lemma the_key_eq [simp]: "the_key q st = the_key q' st' \<longleftrightarrow> q = q' \<and> st = st'"
  by (simp add: the_key_def)

lemma the_key_sel [simp]: "sk_query (the_key q st) = q" "sk_start (the_key q st) = st"
  by (simp_all add: the_key_def)

lemma the_key_surj: "k = the_key (sk_query k) (sk_start k)"
  by (simp add: the_key_def)

lemma group_of_set [simp]:
  "group_of (set_group q g s) q' = (if q' = q then Some g else group_of s q')"
  by (simp add: group_of_def set_group_def update_conv')

lemma set_group_frame [simp]:
  "lru (set_group q g s) = lru s" "used_bytes (set_group q g s) = used_bytes s"
  "budget_bytes (set_group q g s) = budget_bytes s" "limit_bytes (set_group q g s) = limit_bytes s"
  "evictions (set_group q g s) = evictions s"
  by (simp_all add: set_group_def)

lemma group_of_fields [simp]:
  "group_of (s\<lparr>lru := l\<rparr>) = group_of s" "group_of (s\<lparr>used_bytes := n\<rparr>) = group_of s"
  "group_of (s\<lparr>evictions := n\<rparr>) = group_of s" "group_of (s\<lparr>budget_bytes := n\<rparr>) = group_of s"
  "group_of (s\<lparr>hits := n\<rparr>) = group_of s" "group_of (s\<lparr>misses := n\<rparr>) = group_of s"
  "group_of (s\<lparr>stale_hits := n\<rparr>) = group_of s" "group_of (s\<lparr>limit_bytes := n\<rparr>) = group_of s"
  by (simp_all add: group_of_def fun_eq_iff)

definition group_total :: "'l cache_state \<Rightarrow> nat" where
  "group_total s = sum_list (map (g_bytes \<circ> snd) (groups s))"

lemma sum_update:
  fixes f :: "'v \<Rightarrow> nat"
  assumes "distinct (map fst xs)"
  shows "sum_list (map (f \<circ> snd) (AList.update k v xs)) + (case map_of xs k of None \<Rightarrow> 0 | Some w \<Rightarrow> f w) =
     sum_list (map (f \<circ> snd) xs) + f v"
  using assms
proof (induction xs)
  case Nil
  then show ?case by simp
next
  case (Cons x xs)
  have "map_of xs k = None" if "fst x = k" using Cons.prems that by (auto simp: map_of_eq_None_iff)
  with Cons show ?case by (cases x) (auto split: option.splits)
qed

locale span_cache = lru_map ops for ops :: "('r, 'l) span_ops" +
  fixes enc :: "'r list \<Rightarrow> nat"
begin

definition span_at :: "'l cache_state \<Rightarrow> span_key \<Rightarrow> 'r span option" where
  "span_at s k = map_of (lk_iter ops (lru s)) k"

definition span_total :: "'l cache_state \<Rightarrow> nat" where
  "span_total s = sum_list (map (sp_bytes \<circ> snd) (lk_iter ops (lru s)))"

definition synced :: "'l cache_state \<Rightarrow> bool" where
  "synced s \<longleftrightarrow>
     distinct (map fst (groups s)) \<and>
     (\<forall>k. span_at s k \<noteq> None \<longleftrightarrow>
        (\<exists>g. group_of s (sk_query k) = Some g \<and> sk_start k \<in> set (starts g))) \<and>
     (\<forall>q g. group_of s q = Some g \<longrightarrow> sorted_wrt (<) (starts g) \<and> g_bytes g = key_bytes q) \<and>
     (\<forall>k sp. span_at s k = Some sp \<longrightarrow> sp_bytes sp = span_overhead_bytes + value_bytes enc (sp_value sp)) \<and>
     used_bytes s = span_total s + group_total s"

definition anchored :: "'l cache_state \<Rightarrow> bool" where
  "anchored s \<longleftrightarrow> (\<forall>q g. group_of s q = Some g \<longrightarrow> starts g \<noteq> [])"

lemma span_at_fields [simp]:
  "span_at (s\<lparr>used_bytes := n\<rparr>) = span_at s" "span_at (s\<lparr>evictions := n\<rparr>) = span_at s"
  "span_at (s\<lparr>groups := gs\<rparr>) = span_at s" "span_at (set_group q g s) = span_at s"
  "span_at (s\<lparr>budget_bytes := n\<rparr>) = span_at s" "span_at (s\<lparr>limit_bytes := n\<rparr>) = span_at s"
  "span_at (s\<lparr>hits := n\<rparr>) = span_at s" "span_at (s\<lparr>misses := n\<rparr>) = span_at s"
  "span_at (s\<lparr>stale_hits := n\<rparr>) = span_at s"
  by (simp_all add: span_at_def set_group_def fun_eq_iff)

lemma synced_fields [simp]:
  "synced (s\<lparr>evictions := n\<rparr>) = synced s" "synced (s\<lparr>budget_bytes := n\<rparr>) = synced s"
  "synced (s\<lparr>limit_bytes := n\<rparr>) = synced s" "synced (s\<lparr>hits := n\<rparr>) = synced s"
  "synced (s\<lparr>misses := n\<rparr>) = synced s" "synced (s\<lparr>stale_hits := n\<rparr>) = synced s"
  by (simp_all add: synced_def span_total_def group_total_def)

lemma anchored_fields [simp]:
  "anchored (s\<lparr>evictions := n\<rparr>) = anchored s" "anchored (s\<lparr>budget_bytes := n\<rparr>) = anchored s"
  "anchored (s\<lparr>limit_bytes := n\<rparr>) = anchored s" "anchored (s\<lparr>hits := n\<rparr>) = anchored s"
  "anchored (s\<lparr>misses := n\<rparr>) = anchored s" "anchored (s\<lparr>stale_hits := n\<rparr>) = anchored s"
  "anchored (s\<lparr>lru := l\<rparr>) = anchored s" "anchored (s\<lparr>used_bytes := m\<rparr>) = anchored s"
  by (simp_all add: anchored_def)

lemma syncedD:
  assumes "synced s"
  shows "distinct (map fst (groups s))"
    and "span_at s k \<noteq> None \<longleftrightarrow> (\<exists>g. group_of s (sk_query k) = Some g \<and> sk_start k \<in> set (starts g))"
    and "group_of s q = Some g \<Longrightarrow> sorted_wrt (<) (starts g)"
    and "group_of s q = Some g \<Longrightarrow> g_bytes g = key_bytes q"
    and "span_at s k = Some sp \<Longrightarrow> sp_bytes sp = span_overhead_bytes + value_bytes enc (sp_value sp)"
    and "used_bytes s = span_total s + group_total s"
  using assms unfolding synced_def by blast+

text \<open>How the sums change when one entry of either map does.\<close>

lemma span_total_remove:
  "span_total s = span_total (s\<lparr>lru := fst (lk_remove ops k (lru s))\<rparr>) +
     (case span_at s k of None \<Rightarrow> 0 | Some sp \<Rightarrow> sp_bytes sp)"
  using sum_list_delete [OF iter_distinct, of sp_bytes "lru s" k]
  by (simp add: span_total_def span_at_def remove_iter)

lemma span_total_insert:
  "span_total (s\<lparr>lru := fst (lk_insert ops k v (lru s))\<rparr>) +
     (case span_at s k of None \<Rightarrow> 0 | Some sp \<Rightarrow> sp_bytes sp) = span_total s + sp_bytes v"
  using sum_list_delete [OF iter_distinct, of sp_bytes "lru s" k]
  by (simp add: span_total_def span_at_def insert_iter)

lemma span_at_remove:
  "span_at (s\<lparr>lru := fst (lk_remove ops k l)\<rparr>) = (\<lambda>k'. if k' = k then None else map_of (lk_iter ops l) k')"
  by (auto simp: span_at_def remove_map)

lemma span_at_insert:
  "span_at (s\<lparr>lru := fst (lk_insert ops k v l)\<rparr>) = (\<lambda>k'. if k' = k then Some v else map_of (lk_iter ops l) k')"
  by (auto simp: span_at_def insert_map)

lemma group_total_set:
  "distinct (map fst (groups s)) \<Longrightarrow>
   group_total (set_group q g s) + (case group_of s q of None \<Rightarrow> 0 | Some h \<Rightarrow> g_bytes h) =
     group_total s + g_bytes g"
  using sum_update [of "groups s" g_bytes q g]
  by (simp add: group_total_def set_group_def group_of_def)

lemma group_total_delete:
  "distinct (map fst (groups s)) \<Longrightarrow>
   group_total s = group_total (s\<lparr>groups := AList.delete q (groups s)\<rparr>) +
     (case group_of s q of None \<Rightarrow> 0 | Some g \<Rightarrow> g_bytes g)"
  using sum_list_delete [of "groups s" g_bytes q]
  by (simp add: group_total_def group_of_def)

lemma totals_fields [simp]:
  "span_total (s\<lparr>used_bytes := n\<rparr>) = span_total s" "span_total (s\<lparr>groups := gs\<rparr>) = span_total s"
  "span_total (set_group q g s) = span_total s"
  "group_total (s\<lparr>used_bytes := n\<rparr>) = group_total s" "group_total (s\<lparr>lru := l\<rparr>) = group_total s"
  by (simp_all add: span_total_def group_total_def set_group_def)

section \<open>Storing a span\<close>

lemma store_span_at:
  assumes "group_of s (sk_query k) = Some g"
  shows "span_at (store_span ops enc k v s) =
      (span_at s)(k \<mapsto> \<lparr>sp_value = v, sp_bytes = span_overhead_bytes + value_bytes enc v\<rparr>)"
    and "group_of (store_span ops enc k v s) =
      (group_of s)(sk_query k \<mapsto> g\<lparr>starts := add_start (sk_start k) (starts g)\<rparr>)"
  using assms
  by (auto simp: store_span_def Let_def case_prod_beta fun_eq_iff span_at_def insert_map
      split: option.split)

lemma store_span_frame [simp]:
  "budget_bytes (store_span ops enc k v s) = budget_bytes s"
  "evictions (store_span ops enc k v s) = evictions s"
  "limit_bytes (store_span ops enc k v s) = limit_bytes s"
  by (auto simp: store_span_def Let_def case_prod_beta split: option.split)

lemma synced_store_span:
  assumes "synced s" and "group_of s (sk_query k) = Some g"
  shows "synced (store_span ops enc k v s)"
proof -
  let ?g = "g\<lparr>starts := add_start (sk_start k) (starts g)\<rparr>"
  let ?sp = "\<lparr>sp_value = v, sp_bytes = span_overhead_bytes + value_bytes enc v\<rparr>"
  let ?t = "store_span ops enc k v s"
  note at = store_span_at [OF assms(2), of v] and d = syncedD [OF assms(1)]
  have "distinct (map fst (groups ?t))"
    using d(1) assms(2)
    by (auto simp: store_span_def Let_def case_prod_beta set_group_def distinct_update split: option.split)
  moreover have "span_at ?t k' \<noteq> None \<longleftrightarrow>
      (\<exists>g. group_of ?t (sk_query k') = Some g \<and> sk_start k' \<in> set (starts g))" for k'
    using d(2) [of k'] assms(2) unfolding at by (cases k; cases k') auto
  moreover have "group_of ?t q = Some h \<Longrightarrow> sorted_wrt (<) (starts h) \<and> g_bytes h = key_bytes q" for q h
    using d(3,4) [of q] d(3,4) [OF assms(2)] unfolding at
    by (auto simp: sorted_add_start split: if_splits)
  moreover have "span_at ?t k' = Some sp \<Longrightarrow>
      sp_bytes sp = span_overhead_bytes + value_bytes enc (sp_value sp)" for k' sp
    using d(5) unfolding at by (auto split: if_splits)
  moreover have "used_bytes ?t = span_total ?t + group_total ?t"
  proof -
    let ?s1 = "set_group (sk_query k) ?g s"
    have gt: "group_total ?s1 = group_total s"
      using group_total_set [OF d(1), of "sk_query k" ?g] assms(2) by simp
    have st: "span_total (?s1\<lparr>lru := fst (lk_insert ops k ?sp (lru ?s1))\<rparr>) +
        (case span_at s k of None \<Rightarrow> 0 | Some sp \<Rightarrow> sp_bytes sp) = span_total s + sp_bytes ?sp"
      using span_total_insert [of k ?sp ?s1] by simp
    have "span_total ?t = span_total (?s1\<lparr>lru := fst (lk_insert ops k ?sp (lru ?s1))\<rparr>)"
      "group_total ?t = group_total ?s1"
      using assms(2) by (auto simp: store_span_def Let_def case_prod_beta span_total_def group_total_def
          split: option.split)
    moreover have "used_bytes ?t = used_bytes s - (case span_at s k of None \<Rightarrow> 0 | Some sp \<Rightarrow> sp_bytes sp) + sp_bytes ?sp"
      using assms(2) by (auto simp: store_span_def Let_def case_prod_beta insert_prev span_at_def split: option.split)
    moreover have "(case span_at s k of None \<Rightarrow> 0 | Some sp \<Rightarrow> sp_bytes sp) \<le> used_bytes s"
      using span_total_remove [of s k] d(6) by simp
    ultimately show ?thesis using gt st d(6) by simp
  qed
  ultimately show ?thesis unfolding synced_def by blast
qed

section \<open>Clearing a group\<close>

lemma remove_spans_frame [simp]:
  "groups (remove_spans ops q sts s) = groups s"
  "budget_bytes (remove_spans ops q sts s) = budget_bytes s"
  "limit_bytes (remove_spans ops q sts s) = limit_bytes s"
  "evictions (remove_spans ops q sts s) = evictions s"
  by (induction sts arbitrary: s) (auto simp: case_prod_beta split: option.split)

lemma remove_spans_group [simp]: "group_of (remove_spans ops q sts s) = group_of s"
  by (simp add: group_of_def fun_eq_iff)

lemma remove_spans_at:
  "span_at (remove_spans ops q sts s) =
     (\<lambda>k. if sk_query k = q \<and> sk_start k \<in> set sts then None else span_at s k)"
proof (induction sts arbitrary: s)
  case Nil
  then show ?case by simp
next
  case (Cons st sts)
  have key: "k = the_key q st \<longleftrightarrow> sk_query k = q \<and> sk_start k = st" for k :: span_key
    by (cases k) (simp add: the_key_def)
  let ?r = "lk_remove ops (the_key q st) (lru s)"
  have "span_at (case ?r of (l, Some sp) \<Rightarrow> s\<lparr>lru := l, used_bytes := used_bytes s - sp_bytes sp\<rparr>
      | (l, None) \<Rightarrow> s\<lparr>lru := l\<rparr>) = (\<lambda>k. if k = the_key q st then None else span_at s k)"
    by (auto simp: case_prod_beta span_at_def remove_map fun_eq_iff split: option.split)
  with Cons.IH show ?case by (auto simp: key fun_eq_iff)
qed

lemma remove_spans_used:
  assumes "span_total s \<le> used_bytes s"
  shows "used_bytes (remove_spans ops q sts s) + span_total s =
     used_bytes s + span_total (remove_spans ops q sts s) \<and>
     span_total (remove_spans ops q sts s) \<le> used_bytes (remove_spans ops q sts s)"
  using assms
proof (induction sts arbitrary: s)
  case Nil
  then show ?case by simp
next
  case (Cons st sts)
  let ?r = "lk_remove ops (the_key q st) (lru s)"
  let ?s1 = "case ?r of (l, Some sp) \<Rightarrow> s\<lparr>lru := l, used_bytes := used_bytes s - sp_bytes sp\<rparr>
      | (l, None) \<Rightarrow> s\<lparr>lru := l\<rparr>"
  have "span_total ?s1 = span_total (s\<lparr>lru := fst ?r\<rparr>)"
    by (auto simp: case_prod_beta span_total_def split: option.split)
  moreover have "used_bytes ?s1 = used_bytes s - (case span_at s (the_key q st) of None \<Rightarrow> 0 | Some sp \<Rightarrow> sp_bytes sp)"
    by (auto simp: case_prod_beta remove_value span_at_def split: option.split)
  ultimately have "used_bytes ?s1 + span_total s = used_bytes s + span_total ?s1 \<and> span_total ?s1 \<le> used_bytes ?s1"
    using span_total_remove [of s "the_key q st"] Cons.prems by simp
  with Cons.IH [of ?s1] show ?case by simp
qed

lemma clear_group_at:
  assumes "synced s" and "group_of s q = Some g"
  shows "span_at (clear_group_spans ops q s) = (\<lambda>k. if sk_query k = q then None else span_at s k)"
    and "group_of (clear_group_spans ops q s) = (group_of s)(q \<mapsto> g\<lparr>starts := [], known_end := None\<rparr>)"
    and "synced (clear_group_spans ops q s)"
proof -
  let ?g = "g\<lparr>starts := [], known_end := None\<rparr>"
  let ?s1 = "set_group q ?g s"
  let ?t = "clear_group_spans ops q s"
  have t: "?t = remove_spans ops q (starts g) ?s1"
    using assms(2) by (simp add: clear_group_spans_def)
  note d = syncedD [OF assms(1)]
  show at: "span_at ?t = (\<lambda>k. if sk_query k = q then None else span_at s k)"
  proof
    fix k
    show "span_at ?t k = (if sk_query k = q then None else span_at s k)"
      using d(2) [of k] assms(2) by (auto simp: t remove_spans_at)
  qed
  show gr: "group_of ?t = (group_of s)(q \<mapsto> ?g)"
    by (auto simp: t fun_eq_iff)
  have "distinct (map fst (groups ?t))"
    using d(1) by (simp add: t set_group_def distinct_update)
  moreover have "span_at ?t k \<noteq> None \<longleftrightarrow>
      (\<exists>g. group_of ?t (sk_query k) = Some g \<and> sk_start k \<in> set (starts g))" for k
    using d(2) [of k] unfolding at gr by auto
  moreover have "group_of ?t q' = Some h \<Longrightarrow> sorted_wrt (<) (starts h) \<and> g_bytes h = key_bytes q'" for q' h
    using d(3,4) [of q'] d(4) [OF assms(2)] unfolding gr by (auto split: if_splits)
  moreover have "span_at ?t k = Some sp \<Longrightarrow>
      sp_bytes sp = span_overhead_bytes + value_bytes enc (sp_value sp)" for k sp
    using d(5) unfolding at by (auto split: if_splits)
  moreover have "used_bytes ?t = span_total ?t + group_total ?t"
  proof -
    have g1: "group_total ?s1 = group_total s"
      using group_total_set [OF d(1), of q ?g] assms(2) by simp
    have "group_total ?t = group_total ?s1" by (simp add: t group_total_def)
    moreover have "used_bytes ?t + span_total ?s1 = used_bytes ?s1 + span_total ?t"
      unfolding t using remove_spans_used [of ?s1 q "starts g"] d(6) by simp
    ultimately show ?thesis using g1 d(6) by simp
  qed
  ultimately show "synced ?t" unfolding synced_def by blast
qed

lemma clear_group_frame [simp]:
  "budget_bytes (clear_group_spans ops q s) = budget_bytes s"
  "limit_bytes (clear_group_spans ops q s) = limit_bytes s"
  "evictions (clear_group_spans ops q s) = evictions s"
  by (auto simp: clear_group_spans_def split: option.split)

lemma synced_delete_group:
  assumes "synced s" and "group_of s q = Some g" and "starts g = []"
  shows "synced (s\<lparr>groups := AList.delete q (groups s), used_bytes := used_bytes s - g_bytes g\<rparr>)"
    and "group_of (s\<lparr>groups := AList.delete q (groups s), used_bytes := used_bytes s - g_bytes g\<rparr>) =
      (group_of s)(q := None)"
proof -
  let ?t = "s\<lparr>groups := AList.delete q (groups s), used_bytes := used_bytes s - g_bytes g\<rparr>"
  note d = syncedD [OF assms(1)]
  show gr: "group_of ?t = (group_of s)(q := None)"
    by (simp add: group_of_def fun_eq_iff)
  have "distinct (map fst (groups ?t))" using d(1) by (simp add: distinct_delete)
  moreover have "span_at ?t k \<noteq> None \<longleftrightarrow>
      (\<exists>g. group_of ?t (sk_query k) = Some g \<and> sk_start k \<in> set (starts g))" for k
    using d(2) [of k] assms(2,3) unfolding gr by auto
  moreover have "group_of ?t q' = Some h \<Longrightarrow> sorted_wrt (<) (starts h) \<and> g_bytes h = key_bytes q'" for q' h
    using d(3,4) [of q'] unfolding gr by (auto split: if_splits)
  moreover have "span_at ?t k = Some sp \<Longrightarrow>
      sp_bytes sp = span_overhead_bytes + value_bytes enc (sp_value sp)" for k sp
    using d(5) by simp
  moreover have "used_bytes ?t = span_total ?t + group_total ?t"
    using group_total_delete [OF d(1), of q] assms(2) d(6) by simp
  ultimately show "synced ?t" unfolding synced_def by blast
qed

lemma drop_group_at:
  assumes "synced s"
  shows "synced (drop_group ops q s)"
    and "group_of (drop_group ops q s) = (group_of s)(q := None)"
    and "span_at (drop_group ops q s) = (\<lambda>k. if sk_query k = q then None else span_at s k)"
proof -
  have "synced (drop_group ops q s) \<and> group_of (drop_group ops q s) = (group_of s)(q := None) \<and>
      span_at (drop_group ops q s) = (\<lambda>k. if sk_query k = q then None else span_at s k)"
  proof (cases "group_of s q")
    case None
    then have "span_at s k = None" if "sk_query k = q" for k using that syncedD(2) [OF assms, of k] by simp
    with None assms show ?thesis
      by (auto simp: drop_group_def clear_group_spans_def fun_eq_iff)
  next
    case (Some g)
    let ?s1 = "clear_group_spans ops q s"
    note c = clear_group_at [OF assms Some]
    have g1: "group_of ?s1 q = Some (g\<lparr>starts := [], known_end := None\<rparr>)" using c(2) by simp
    from synced_delete_group [OF c(3) g1] g1 c show ?thesis
      by (simp add: drop_group_def Let_def)
  qed
  then show "synced (drop_group ops q s)" "group_of (drop_group ops q s) = (group_of s)(q := None)"
    "span_at (drop_group ops q s) = (\<lambda>k. if sk_query k = q then None else span_at s k)" by blast+
qed

lemma drop_group_frame [simp]:
  "budget_bytes (drop_group ops q s) = budget_bytes s"
  "limit_bytes (drop_group ops q s) = limit_bytes s"
  by (auto simp: drop_group_def Let_def split: option.split)

section \<open>Eviction\<close>

text \<open>What remains after spans were dropped: no span or group is new or changed.\<close>

definition subcache :: "'l cache_state \<Rightarrow> 'l cache_state \<Rightarrow> bool" where
  "subcache s t \<longleftrightarrow>
     (\<forall>k sp. span_at t k = Some sp \<longrightarrow> span_at s k = Some sp) \<and>
     (\<forall>q g'. group_of t q = Some g' \<longrightarrow>
        (\<exists>g. group_of s q = Some g \<and> index_epoch g' = index_epoch g \<and>
           user_data_epoch g' = user_data_epoch g \<and> known_end g' = known_end g))"

lemma subcache_refl [simp]: "subcache s s"
  by (simp add: subcache_def)

lemma subcache_trans: "subcache s t \<Longrightarrow> subcache t u \<Longrightarrow> subcache s u"
proof -
  assume st: "subcache s t" and tu: "subcache t u"
  have "span_at u k = Some sp \<Longrightarrow> span_at s k = Some sp" for k sp
    using st tu by (simp add: subcache_def)
  moreover have "\<exists>g. group_of s q = Some g \<and> index_epoch g' = index_epoch g \<and>
      user_data_epoch g' = user_data_epoch g \<and> known_end g' = known_end g"
    if u: "group_of u q = Some g'" for q g'
  proof -
    obtain h where "group_of t q = Some h" "index_epoch g' = index_epoch h"
      "user_data_epoch g' = user_data_epoch h" "known_end g' = known_end h"
      using tu u unfolding subcache_def by blast
    moreover then obtain g where "group_of s q = Some g" "index_epoch h = index_epoch g"
      "user_data_epoch h = user_data_epoch g" "known_end h = known_end g"
      using st unfolding subcache_def by blast
    ultimately show ?thesis by simp
  qed
  ultimately show "subcache s u" unfolding subcache_def by blast
qed

lemma subcache_fields [simp]:
  "subcache s (t\<lparr>evictions := n\<rparr>) = subcache s t" "subcache s (t\<lparr>budget_bytes := n\<rparr>) = subcache s t"
  "subcache s (t\<lparr>limit_bytes := n\<rparr>) = subcache s t" "subcache s (t\<lparr>hits := n\<rparr>) = subcache s t"
  "subcache s (t\<lparr>misses := n\<rparr>) = subcache s t" "subcache s (t\<lparr>stale_hits := n\<rparr>) = subcache s t"
  "subcache (s\<lparr>budget_bytes := n\<rparr>) t = subcache s t" "subcache (s\<lparr>limit_bytes := n\<rparr>) t = subcache s t"
  by (simp_all add: subcache_def)

lemma anchored_sub:
  "anchored s \<Longrightarrow> (\<And>q g. group_of t q = Some g \<Longrightarrow> starts g \<noteq> [] \<or> group_of s q = Some g) \<Longrightarrow> anchored t"
  unfolding anchored_def by blast

lemma pop_step:
  assumes syn: "synced s" and anc: "anchored s"
    and pop: "lk_pop_front ops (lru s) = (l, Some (k, sp))"
    and t: "t = detach_span k (s\<lparr>lru := l, used_bytes := used_bytes s - sp_bytes sp\<rparr>)"
  shows "synced t" and "anchored t" and "subcache s t"
    and "lk_iter ops (lru t) = tl (lk_iter ops (lru s))"
    and "span_at s k = Some sp" and "used_bytes t < used_bytes s"
proof -
  let ?s1 = "s\<lparr>lru := l, used_bytes := used_bytes s - sp_bytes sp\<rparr>"
  note d = syncedD [OF syn]
  have it: "lk_iter ops (lru s) = (k, sp) # lk_iter ops l"
    using pop_iter [of "lru s"] pop_value [of "lru s"] pop by (auto split: list.splits)
  show k: "span_at s k = Some sp" by (simp add: span_at_def it)
  have kn: "k \<notin> fst ` set (lk_iter ops l)" using iter_distinct [of "lru s"] it by simp
  have at1: "span_at ?s1 = (span_at s)(k := None)"
    using kn by (auto simp: span_at_def it fun_eq_iff map_of_eq_None_iff)
  have tot: "span_total s = sp_bytes sp + span_total ?s1"
    by (simp add: span_total_def it)
  obtain g where g: "group_of s (sk_query k) = Some g" "sk_start k \<in> set (starts g)"
    using d(2) [of k] k by auto
  note srt = d(3) [OF g(1)]
  let ?g = "g\<lparr>starts := remove1 (sk_start k) (starts g)\<rparr>"
  let ?s2 = "?s1\<lparr>groups := AList.delete (sk_query k) (groups s), used_bytes := used_bytes ?s1 - g_bytes g\<rparr>"
  let ?s3 = "set_group (sk_query k) ?g ?s1"
  have t': "t = (if starts ?g = [] then ?s2 else ?s3)"
    unfolding t using g(1) by (simp add: detach_span_def Let_def)
  have at: "span_at t = (span_at s)(k := None)"
    using at1 by (auto simp: t' span_at_def set_group_def)
  have gr: "group_of t = (if starts ?g = [] then (group_of s)(sk_query k := None)
      else (group_of s)(sk_query k \<mapsto> ?g))"
    by (auto simp: t' group_of_def set_group_def update_conv' fun_eq_iff)
  have same: "k' = k \<longleftrightarrow> sk_query k' = sk_query k \<and> sk_start k' = sk_start k" for k'
    by (metis the_key_surj)
  have st: "set (starts ?g) = set (starts g) - {sk_start k}" using srt by (simp add: set_remove1_sorted)
  have "distinct (map fst (groups t))"
    using d(1) by (simp add: t' set_group_def distinct_update distinct_delete)
  moreover have "span_at t k' \<noteq> None \<longleftrightarrow>
      (\<exists>g. group_of t (sk_query k') = Some g \<and> sk_start k' \<in> set (starts g))" for k'
  proof (cases "sk_query k' = sk_query k")
    case False
    then have "k' \<noteq> k" by blast
    with False d(2) [of k'] show ?thesis by (simp add: at gr)
  next
    case True
    then have "span_at t k' \<noteq> None \<longleftrightarrow> sk_start k' \<in> set (starts ?g)"
      using d(2) [of k'] g(1) unfolding st at by (simp add: same)
    moreover have "(\<exists>g. group_of t (sk_query k') = Some g \<and> sk_start k' \<in> set (starts g)) \<longleftrightarrow>
        sk_start k' \<in> set (starts ?g)"
      unfolding gr True by (cases "starts ?g") simp_all
    ultimately show ?thesis by simp
  qed
  moreover have "group_of t q = Some h \<Longrightarrow> sorted_wrt (<) (starts h) \<and> g_bytes h = key_bytes q" for q h
    using d(3,4) [of q] srt d(4) [OF g(1)] unfolding gr by (auto simp: sorted_remove1 split: if_splits)
  moreover have "span_at t k' = Some sp' \<Longrightarrow>
      sp_bytes sp' = span_overhead_bytes + value_bytes enc (sp_value sp')" for k' sp'
    using d(5) unfolding at by (auto split: if_splits)
  moreover have used: "used_bytes t = span_total t + group_total t"
  proof (cases "starts ?g = []")
    case True
    then have t2: "t = ?s2" by (simp add: t')
    have "used_bytes t = used_bytes s - sp_bytes sp - g_bytes g"
      unfolding t2 by simp
    moreover have "span_total t = span_total ?s1" unfolding t2 by (simp add: span_total_def)
    moreover have "group_total t + g_bytes g = group_total s"
      using group_total_delete [OF d(1), of "sk_query k"] g(1) unfolding t2 by (simp add: group_total_def)
    ultimately show ?thesis using d(6) tot by linarith
  next
    case False
    then have t3: "t = ?s3" by (simp add: t')
    have "group_total t + g_bytes g = group_total ?s1 + g_bytes g"
      using group_total_set [of ?s1 "sk_query k" ?g] d(1) g(1) unfolding t3 by simp
    moreover have "used_bytes t = used_bytes s - sp_bytes sp" unfolding t3 by simp
    moreover have "span_total t = span_total ?s1" unfolding t3 by (simp add: span_total_def)
    moreover have "group_total ?s1 = group_total s" by (simp add: group_total_def)
    ultimately show ?thesis using d(6) tot by linarith
  qed
  ultimately show "synced t" unfolding synced_def by blast
  show "anchored t"
    using anc unfolding anchored_def gr by (auto split: if_splits)
  show "subcache s t"
    using g(1) unfolding subcache_def at gr by (auto split: if_splits)
  show "lk_iter ops (lru t) = tl (lk_iter ops (lru s))"
    using it by (simp add: t' set_group_def)
  have "0 < sp_bytes sp" using d(5) [OF k] by (simp add: span_overhead_bytes_def)
  moreover have "used_bytes t \<le> used_bytes s - sp_bytes sp"
    by (simp add: t') (simp add: diff_le_mono2)
  moreover have "sp_bytes sp \<le> used_bytes s" using d(6) tot by simp
  ultimately show "used_bytes t < used_bytes s" by simp
qed

lemma detach_frame [simp]:
  "budget_bytes (detach_span k s) = budget_bytes s" "limit_bytes (detach_span k s) = limit_bytes s"
  "evictions (detach_span k s) = evictions s"
  by (auto simp: detach_span_def Let_def split: option.split)

lemma no_spans:
  assumes "synced s" and "anchored s" and "lk_iter ops (lru s) = []"
  shows "used_bytes s = 0"
proof -
  have "group_of s q = None" for q
  proof (cases "group_of s q")
    case (Some g)
    then have "starts g \<noteq> []" using assms(2) by (simp add: anchored_def)
    then have "span_at s (the_key q (hd (starts g))) \<noteq> None"
      using syncedD(2) [OF assms(1), of "the_key q (hd (starts g))"] Some by simp
    with assms(3) show ?thesis by (simp add: span_at_def)
  qed simp
  then have "map_of (groups s) = Map.empty" by (simp add: group_of_def fun_eq_iff)
  then have "groups s = []" by simp
  with syncedD(6) [OF assms(1)] assms(3) show ?thesis by (simp add: span_total_def group_total_def)
qed

lemma evict_loop_correct:
  assumes "synced s" and "anchored s" and "length (lk_iter ops (lru s)) < n"
  shows "synced (evict_loop ops n s) \<and> anchored (evict_loop ops n s) \<and>
     subcache s (evict_loop ops n s) \<and> used_bytes (evict_loop ops n s) \<le> budget_bytes s \<and>
     budget_bytes (evict_loop ops n s) = budget_bytes s \<and>
     limit_bytes (evict_loop ops n s) = limit_bytes s \<and> evictions s \<le> evictions (evict_loop ops n s) \<and>
     (evictions (evict_loop ops n s) = evictions s \<longrightarrow> evict_loop ops n s = s)"
  using assms
proof (induction n arbitrary: s)
  case 0
  then show ?case by simp
next
  case (Suc n)
  show ?case
  proof (cases "used_bytes s > budget_bytes s")
    case False
    with Suc.prems show ?thesis by simp
  next
    case True
    obtain l e where pop: "lk_pop_front ops (lru s) = (l, e)" by fastforce
    show ?thesis
    proof (cases e)
      case None
      then have "lk_iter ops (lru s) = []" using pop_value [of "lru s"] pop by (simp split: list.splits)
      with no_spans Suc.prems True show ?thesis by simp
    next
      case (Some p)
      obtain k sp where p: "p = (k, sp)" by (cases p)
      let ?t = "detach_span k (s\<lparr>lru := l, used_bytes := used_bytes s - sp_bytes sp\<rparr>)"
      note ps = pop_step [OF Suc.prems(1,2) pop [unfolded Some p] refl]
      let ?u = "?t\<lparr>evictions := evictions ?t + 1\<rparr>"
      have "lk_iter ops (lru s) \<noteq> []" using pop_value [of "lru s"] pop Some by (auto split: list.splits)
      then have "length (lk_iter ops (lru ?u)) < n"
        using ps(4) Suc.prems(3) by (cases "lk_iter ops (lru s)") simp_all
      with Suc.IH [of ?u] ps(1,2) have ih: "synced (evict_loop ops n ?u)" "anchored (evict_loop ops n ?u)"
        "subcache ?u (evict_loop ops n ?u)" "used_bytes (evict_loop ops n ?u) \<le> budget_bytes s"
        "budget_bytes (evict_loop ops n ?u) = budget_bytes s" "limit_bytes (evict_loop ops n ?u) = limit_bytes s"
        "evictions ?u \<le> evictions (evict_loop ops n ?u)"
        by simp_all
      moreover have "evict_loop ops (Suc n) s = evict_loop ops n ?u"
        using True pop Some p by (simp add: Let_def)
      moreover have "subcache s (evict_loop ops n ?u)"
        by (rule subcache_trans [OF _ ih(3)]) (simp add: ps(3))
      moreover have "evictions ?u = Suc (evictions s)" by simp
      ultimately show ?thesis by (simp del: evict_loop.simps)
    qed
  qed
qed

lemma evict_correct:
  assumes "synced s" and "anchored s"
  shows "synced (evict_to_budget ops s)" and "anchored (evict_to_budget ops s)"
    and "subcache s (evict_to_budget ops s)"
    and "used_bytes (evict_to_budget ops s) \<le> budget_bytes s"
    and "budget_bytes (evict_to_budget ops s) = budget_bytes s"
    and "limit_bytes (evict_to_budget ops s) = limit_bytes s"
    and "evictions (evict_to_budget ops s) = evictions s \<Longrightarrow> evict_to_budget ops s = s"
  using evict_loop_correct [OF assms, of "Suc (lk_len ops (lru s))"]
  unfolding evict_to_budget_def by (simp_all add: len_iter)

text \<open>Eviction takes the spans from the front of the LRU, oldest first.\<close>

lemma detach_lru [simp]: "lru (detach_span k s) = lru s" "evictions (detach_span k s) = evictions s"
  by (auto simp: detach_span_def Let_def split: option.split)

lemma evict_loop_drop:
  "\<exists>m. lk_iter ops (lru (evict_loop ops n s)) = drop m (lk_iter ops (lru s)) \<and>
    evictions (evict_loop ops n s) = evictions s + m"
proof (induction n arbitrary: s)
  case 0
  show ?case by (intro exI [of _ 0]) simp
next
  case (Suc n)
  show ?case
  proof (cases "used_bytes s > budget_bytes s")
    case False
    then show ?thesis by (intro exI [of _ 0]) simp
  next
    case True
    obtain l r where pop: "lk_pop_front ops (lru s) = (l, r)" by fastforce
    have tl: "lk_iter ops l = tl (lk_iter ops (lru s))" using pop_iter [of "lru s"] pop by simp
    show ?thesis
    proof (cases r)
      case None
      then have "lk_iter ops (lru s) = []" using pop_value [of "lru s"] pop by (cases "lk_iter ops (lru s)") auto
      with True pop None tl show ?thesis by (intro exI [of _ 0]) simp
    next
      case (Some e)
      obtain k sp where e: "e = (k, sp)" by (cases e)
      let ?s2 = "detach_span k (s\<lparr>lru := l, used_bytes := used_bytes s - sp_bytes sp\<rparr>)"
      let ?u = "?s2\<lparr>evictions := evictions ?s2 + 1\<rparr>"
      from Suc.IH [of ?u] obtain m where m: "lk_iter ops (lru (evict_loop ops n ?u)) = drop m (lk_iter ops l)"
        "evictions (evict_loop ops n ?u) = evictions s + 1 + m" by auto
      have "evict_loop ops (Suc n) s = evict_loop ops n ?u" using True pop Some e by (simp add: Let_def)
      with m tl show ?thesis by (intro exI [of _ "Suc m"]) (simp add: drop_Suc del: evict_loop.simps)
    qed
  qed
qed

end

end
