(* ===== verification/SpanLayout.thy ===== *)
theory SpanLayout
  imports SearchCacheInv
begin

text \<open>
  The arithmetic of spans: what \<open>push_grid_split\<close> and the carving loop of \<open>insert_rows\<close>
  produce, and when a list of pieces fits between the spans that are already stored.
\<close>

section \<open>Pieces\<close>

text \<open>No piece is empty or crosses a multiple of \<open>span_rows\<close>.\<close>

definition grid_piece :: "nat \<times> nat \<Rightarrow> bool" where
  "grid_piece p \<longleftrightarrow> fst p < snd p \<and> snd p \<le> (fst p div span_rows + 1) * span_rows"

definition in_order :: "(nat \<times> nat) list \<Rightarrow> bool" where
  "in_order ps \<longleftrightarrow> sorted_wrt (\<lambda>p p'. snd p \<le> fst p') ps"

definition covers :: "(nat \<times> nat) list \<Rightarrow> nat \<Rightarrow> bool" where
  "covers ps x \<longleftrightarrow> (\<exists>p \<in> set ps. fst p \<le> x \<and> x < snd p)"

lemma covers_simps [simp]:
  "covers [] x \<longleftrightarrow> False"
  "covers (p # ps) x \<longleftrightarrow> (fst p \<le> x \<and> x < snd p) \<or> covers ps x"
  "covers (ps @ qs) x \<longleftrightarrow> covers ps x \<or> covers qs x"
  by (auto simp: covers_def)

lemma in_order_append:
  "in_order (ps @ qs) \<longleftrightarrow> in_order ps \<and> in_order qs \<and> (\<forall>p \<in> set ps. \<forall>q \<in> set qs. snd p \<le> fst q)"
  by (simp add: in_order_def sorted_wrt_append)

lemma grid_split_props:
  "(\<forall>p \<in> set (grid_split start to). grid_piece p \<and> start \<le> fst p \<and> snd p \<le> to) \<and>
   in_order (grid_split start to) \<and>
   (\<forall>x. to \<le> u64_max \<longrightarrow> start \<le> x \<longrightarrow> x < to \<longrightarrow> covers (grid_split start to) x)"
proof (induction start to rule: grid_split.induct)
  case (1 start to)
  show ?case
  proof (cases "start < to \<and> to \<le> u64_max")
    case False
    then show ?thesis by (subst (1 2 3) grid_split.simps) (auto simp: in_order_def)
  next
    case True
    define stop where "stop = min to (sat_mul (start div span_rows + 1) span_rows)"
    have eq: "grid_split start to = (start, stop) # grid_split stop to"
      using True unfolding stop_def by (subst grid_split.simps) (simp add: Let_def)
    have lt: "start < stop" using True unfolding stop_def by (blast intro: grid_next_above)
    then have piece: "grid_piece (start, stop)"
      unfolding stop_def by (simp add: grid_piece_def sat_mul_def)
    note ih = 1 [OF True refl refl, folded stop_def]
    have bound: "stop \<le> to" by (simp add: stop_def)
    have inner: "grid_piece p \<and> start \<le> fst p \<and> snd p \<le> to" if "p \<in> set (grid_split stop to)" for p
      using bspec [OF conjunct1 [OF ih] that] lt by simp
    have ord: "in_order ((start, stop) # grid_split stop to)"
      using ih by (simp add: in_order_def)
    have cov: "covers ((start, stop) # grid_split stop to) x" if "to \<le> u64_max" "start \<le> x" "x < to" for x
    proof (cases "x < stop")
      case True
      with that show ?thesis by simp
    next
      case False
      then have "covers (grid_split stop to) x" using ih that by simp
      then show ?thesis by simp
    qed
    show ?thesis
      unfolding eq using ord cov inner piece lt bound by simp
  qed
qed

text \<open>
  The carving loop, for occupied ranges in order: the pieces are in order, lie in the
  window, meet no occupied range, and together with the ranges cover the window.
\<close>

definition apart :: "nat \<times> nat \<Rightarrow> nat \<times> nat \<Rightarrow> bool" where
  "apart p r \<longleftrightarrow> snd p \<le> fst r \<or> snd r \<le> fst p"

lemma carve_props:
  assumes "in_order occ" and "\<forall>r \<in> set occ. fst r \<le> snd r" and "e \<le> u64_max"
  shows "(\<forall>p \<in> set (carve occ cursor e). grid_piece p \<and> cursor \<le> fst p \<and> snd p \<le> e) \<and>
     in_order (carve occ cursor e) \<and>
     (\<forall>p \<in> set (carve occ cursor e). \<forall>r \<in> set occ. cursor < snd r \<longrightarrow> apart p r) \<and>
     (\<forall>x. cursor \<le> x \<longrightarrow> x < e \<longrightarrow> covers (carve occ cursor e) x \<or> covers occ x)"
  using assms
proof (induction occ cursor e rule: carve.induct)
  case (1 cursor e)
  show ?case
    using grid_split_props [of cursor e] "1.prems" by (auto simp: in_order_def)
next
  case (2 st stop occ cursor e)
  define pieces where "pieces = (if st > cursor then grid_split cursor (min st e) else [])"
  define cursor' where "cursor' = max cursor stop"
  have later: "\<forall>r \<in> set occ. stop \<le> fst r" using "2.prems"(1) by (auto simp: in_order_def)
  have ord: "in_order occ" "\<forall>r \<in> set occ. fst r \<le> snd r" using "2.prems" by (auto simp: in_order_def)
  have le: "st \<le> stop" using "2.prems"(2) by simp
  have p: "\<forall>p \<in> set pieces. grid_piece p \<and> cursor \<le> fst p \<and> snd p \<le> min st e" "in_order pieces"
    using grid_split_props [of cursor "min st e"] by (auto simp: in_order_def pieces_def)
  have pc: "covers pieces x" if "cursor \<le> x" "x < min st e" for x
    using that grid_split_props [of cursor "min st e"] "2.prems"(3) by (simp add: pieces_def)
  have ap: "apart q r" if "q \<in> set pieces" "r \<in> set ((st, stop) # occ)" for q r
    using that p(1) later le by (fastforce simp: apart_def)
  show ?case
  proof (cases "cursor' \<ge> e")
    case True
    then have eq: "carve ((st, stop) # occ) cursor e = pieces" by (simp add: Let_def pieces_def cursor'_def)
    have "covers pieces x \<or> covers ((st, stop) # occ) x" if "cursor \<le> x" "x < e" for x
      using that pc [of x] True by (cases "x < st") (auto simp: cursor'_def)
    moreover have "grid_piece q \<and> cursor \<le> fst q \<and> snd q \<le> e" if "q \<in> set pieces" for q
      using bspec [OF p(1) that] by simp
    ultimately show ?thesis unfolding eq using p(2) ap by blast
  next
    case False
    then have eq: "carve ((st, stop) # occ) cursor e = pieces @ carve occ cursor' e"
      by (simp add: Let_def pieces_def cursor'_def)
    note ih = 2(1) [OF pieces_def cursor'_def False ord "2.prems"(3)]
    have ge: "cursor \<le> cursor'" "stop \<le> cursor'" by (simp_all add: cursor'_def)
    have rest: "\<forall>q \<in> set (carve occ cursor' e). stop \<le> fst q \<and> cursor \<le> fst q \<and> grid_piece q \<and> snd q \<le> e"
      using ih ge by (meson le_trans)
    have "in_order (pieces @ carve occ cursor' e)"
      unfolding in_order_append using p ih rest le by (meson le_trans min.boundedE)
    moreover have "apart q r" if "q \<in> set (carve occ cursor' e)" "r \<in> set ((st, stop) # occ)" "cursor < snd r" for q r
    proof (cases "r = (st, stop)")
      case True
      with rest that(1) show ?thesis by (auto simp: apart_def)
    next
      case False
      then have r: "r \<in> set occ" using that(2) by simp
      show ?thesis
      proof (cases "cursor' < snd r")
        case True
        with ih r that(1) show ?thesis by blast
      next
        case False
        moreover have "cursor' \<le> fst q" using ih that(1) by blast
        ultimately show ?thesis by (simp add: apart_def)
      qed
    qed
    moreover have "covers (pieces @ carve occ cursor' e) x \<or> covers ((st, stop) # occ) x"
      if "cursor \<le> x" "x < e" for x
    proof (cases "x < st")
      case True
      with that pc [of x] show ?thesis by simp
    next
      case st: False
      show ?thesis
      proof (cases "x < stop")
        case True
        with st show ?thesis by simp
      next
        case False
        with that ih have "covers (carve occ cursor' e) x \<or> covers occ x" by (simp add: cursor'_def)
        then show ?thesis by auto
      qed
    qed
    moreover have "grid_piece q \<and> cursor \<le> fst q \<and> snd q \<le> e" if "q \<in> set (pieces @ carve occ cursor' e)" for q
      using that bspec [OF p(1), of q] bspec [OF rest, of q] by auto
    ultimately show ?thesis unfolding eq using ap by (auto simp del: carve.simps)
  qed
qed

section \<open>The spans of one query\<close>

lemma in_order_map_filter:
  assumes "sorted_wrt (<) xs"
    and "\<And>x y p r. x \<in> set xs \<Longrightarrow> y \<in> set xs \<Longrightarrow> x < y \<Longrightarrow> f x = Some p \<Longrightarrow> f y = Some r \<Longrightarrow> snd p \<le> fst r"
  shows "in_order (List.map_filter f (xs :: nat list))"
  using assms
proof (induction xs)
  case Nil
  then show ?case by (simp add: in_order_def map_filter_simps)
next
  case (Cons x xs)
  have ih: "in_order (List.map_filter f xs)"
  proof (rule Cons.IH)
    show "sorted_wrt (<) xs" using Cons.prems(1) by simp
    show "snd p \<le> fst r" if "y \<in> set xs" "z \<in> set xs" "y < z" "f y = Some p" "f z = Some r" for y z p r
      using Cons.prems(2) [of y z p r] that by simp
  qed
  have mem: "r \<in> set (List.map_filter f xs) \<Longrightarrow> \<exists>y \<in> set xs. f y = Some r" for r
    by (auto simp: map_filter_def)
  show ?case
  proof (cases "f x")
    case None
    with ih show ?thesis by (simp add: map_filter_simps)
  next
    case (Some p)
    have "snd p \<le> fst r" if r: "r \<in> set (List.map_filter f xs)" for r
    proof -
      obtain y where y: "y \<in> set xs" "f y = Some r" using mem [OF r] by blast
      with Cons.prems(1) have "x < y" by simp
      with Cons.prems(2) [of x y p r] y Some show ?thesis by simp
    qed
    with ih Some show ?thesis by (simp add: map_filter_simps in_order_def)
  qed
qed

lemma in_order_distinct:
  "in_order ps \<Longrightarrow> \<forall>p \<in> set ps. grid_piece p \<Longrightarrow> distinct (map fst ps)"
  by (induction ps) (fastforce simp: in_order_def grid_piece_def)+

context span_cache
begin

text \<open>The spans of a query do not overlap, and stay within their grid cell.\<close>

definition layout :: "query_key \<Rightarrow> 'l cache_state \<Rightarrow> bool" where
  "layout q s \<longleftrightarrow>
     (\<forall>st st' sp. span_at s (the_key q st) = Some sp \<longrightarrow> span_at s (the_key q st') \<noteq> None \<longrightarrow>
        st < st' \<longrightarrow> st + row_len sp \<le> st') \<and>
     (\<forall>st sp. span_at s (the_key q st) = Some sp \<longrightarrow>
        st + row_len sp \<le> (st div span_rows + 1) * span_rows)"

definition fits :: "query_key \<Rightarrow> 'l cache_state \<Rightarrow> nat \<times> nat \<Rightarrow> bool" where
  "fits q s p \<longleftrightarrow>
     (\<forall>st sp. span_at s (the_key q st) = Some sp \<longrightarrow> st + row_len sp \<le> fst p \<or> snd p \<le> st)"

definition held :: "query_key \<Rightarrow> 'l cache_state \<Rightarrow> nat \<Rightarrow> bool" where
  "held q s x \<longleftrightarrow> (\<exists>st sp. span_at s (the_key q st) = Some sp \<and> st \<le> x \<and> x < st + row_len sp)"

lemma layoutD:
  assumes "layout q s" and "span_at s (the_key q st) = Some sp"
  shows "span_at s (the_key q st') \<noteq> None \<Longrightarrow> st < st' \<Longrightarrow> st + row_len sp \<le> st'"
    and "st + row_len sp \<le> (st div span_rows + 1) * span_rows"
  using assms unfolding layout_def by blast+

lemma layout_sub:
  "(\<And>st sp. span_at t (the_key q st) = Some sp \<Longrightarrow> span_at s (the_key q st) = Some sp) \<Longrightarrow>
   layout q s \<Longrightarrow> layout q t"
  unfolding layout_def by (metis not_None_eq)

text \<open>The occupied ranges are the stored spans that reach into the window, in order.\<close>

lemma occupied_props:
  assumes "synced s" and "layout q s" and "group_of s q = Some g"
  shows "in_order (occupied_ranges ops s q a e)"
    and "r \<in> set (occupied_ranges ops s q a e) \<Longrightarrow>
      \<exists>sp. span_at s (the_key q (fst r)) = Some sp \<and> snd r = fst r + row_len sp \<and> a < snd r"
    and "span_at s (the_key q st) = Some sp \<Longrightarrow> a < st + row_len sp \<Longrightarrow> st < e \<Longrightarrow>
      (st, st + row_len sp) \<in> set (occupied_ranges ops s q a e)"
proof -
  define b where "b = (case last_up_to a (starts g) of None \<Rightarrow> a | Some b \<Rightarrow> b)"
  define f where "f = (\<lambda>st. case lk_peek ops (the_key q st) (lru s) of None \<Rightarrow> None
      | Some sp \<Rightarrow> (let e = st + row_len sp in if e > a then Some (st, e) else None))"
  have occ: "occupied_ranges ops s q a e = List.map_filter f (range_from b e (starts g))"
    using assms(3) by (simp add: occupied_ranges_def f_def b_def)
  have srt: "sorted_wrt (<) (starts g)" using syncedD(3) [OF assms(1,3)] .
  have f: "f st = Some r \<longleftrightarrow> (\<exists>sp. span_at s (the_key q st) = Some sp \<and> r = (st, st + row_len sp) \<and> a < st + row_len sp)"
    for st r by (auto simp: f_def peek_iter span_at_def Let_def split: option.split)
  show "in_order (occupied_ranges ops s q a e)"
    unfolding occ
  proof (rule in_order_map_filter)
    show "sorted_wrt (<) (range_from b e (starts g))"
      using srt by (simp add: range_from_def sorted_wrt_filter)
    fix x y p r
    assume "x < y" "f x = Some p" "f y = Some r"
    then show "snd p \<le> fst r" using layoutD(1) [OF assms(2)] by (auto simp: f)
  qed
  show "\<exists>sp. span_at s (the_key q (fst r)) = Some sp \<and> snd r = fst r + row_len sp \<and> a < snd r"
    if "r \<in> set (occupied_ranges ops s q a e)"
  proof -
    from that obtain st where "f st = Some r" unfolding occ map_filter_def by auto
    then show ?thesis by (auto simp: f)
  qed
  show "(st, st + row_len sp) \<in> set (occupied_ranges ops s q a e)"
    if sp: "span_at s (the_key q st) = Some sp" "a < st + row_len sp" "st < e"
  proof -
    have mem: "st \<in> set (starts g)" using syncedD(2) [OF assms(1), of "the_key q st"] sp(1) assms(3) by simp
    have "b \<le> st"
    proof (cases "last_up_to a (starts g)")
      case None
      then have "a < st" using mem unfolding last_up_to_None by blast
      with None show ?thesis by (simp add: b_def)
    next
      case (Some c)
      from last_up_to_Some [OF Some srt] have c: "c \<in> set (starts g)" "c \<le> a" by auto
      have "span_at s (the_key q c) \<noteq> None"
        using syncedD(2) [OF assms(1), of "the_key q c"] assms(3) c(1) by simp
      with layoutD(1) [OF assms(2) sp(1), of c] c(2) sp(2) have "\<not> st < c" by auto
      with Some show ?thesis by (simp add: b_def)
    qed
    moreover have "f st = Some (st, st + row_len sp)" using sp by (simp add: f)
    ultimately show ?thesis
      unfolding occ map_filter_def using mem sp(3) by (force simp: range_from_def)
  qed
qed

text \<open>So the carved pieces fit, and after storing them the whole window is held.\<close>

lemma carved_pieces:
  assumes "synced s" and "layout q s" and "group_of s q = Some g" and "e \<le> u64_max"
    and "ps = carve (occupied_ranges ops s q a e) a e"
  shows "\<forall>p \<in> set ps. grid_piece p \<and> a \<le> fst p \<and> snd p \<le> e \<and> fits q s p" and "in_order ps"
    and "a \<le> x \<Longrightarrow> x < e \<Longrightarrow> covers ps x \<or> held q s x"
proof -
  let ?occ = "occupied_ranges ops s q a e"
  note o = occupied_props [OF assms(1-3), where a = a and e = e]
  have r: "\<forall>r \<in> set ?occ. fst r \<le> snd r" using o(2) by fastforce
  note c = carve_props [OF o(1) r assms(4), of a, folded assms(5)]
  show "in_order ps" using c by blast
  show "covers ps x \<or> held q s x" if "a \<le> x" "x < e"
  proof -
    from c that have "covers ps x \<or> covers ?occ x" by blast
    then show ?thesis using o(2) unfolding held_def covers_def by fastforce
  qed
  have "fits q s p" if p: "p \<in> set ps" for p
    unfolding fits_def
  proof (intro allI impI)
    fix st sp assume sp: "span_at s (the_key q st) = Some sp"
    have pw: "a \<le> fst p" "snd p \<le> e" using c p by blast+
    show "st + row_len sp \<le> fst p \<or> snd p \<le> st"
    proof (cases "a < st + row_len sp \<and> st < e")
      case False
      with pw show ?thesis by auto
    next
      case True
      with o(3) [OF sp] have "(st, st + row_len sp) \<in> set ?occ" by simp
      with c p True have "apart p (st, st + row_len sp)" by fastforce
      then show ?thesis by (auto simp: apart_def)
    qed
  qed
  with c show "\<forall>p \<in> set ps. grid_piece p \<and> a \<le> fst p \<and> snd p \<le> e \<and> fits q s p" by blast
qed

section \<open>Storing the pieces\<close>

definition piece_span :: "nat \<Rightarrow> 'r list \<Rightarrow> nat \<Rightarrow> nat \<Rightarrow> 'r span" where
  "piece_span off rows a b =
     (let v = Rows (row_slice rows (a - off) (b - off))
      in \<lparr>sp_value = v, sp_bytes = span_overhead_bytes + value_bytes enc v\<rparr>)"

lemma store_pieces_props:
  assumes "synced s" and "group_of s q = Some g" and "distinct (map fst ps)"
  shows "synced (store_pieces ops enc q off rows ps s) \<and>
    (\<exists>sts. group_of (store_pieces ops enc q off rows ps s) = (group_of s)(q \<mapsto> g\<lparr>starts := sts\<rparr>) \<and>
       set sts = set (starts g) \<union> fst ` set ps) \<and>
    span_at (store_pieces ops enc q off rows ps s) = (\<lambda>k.
      if sk_query k = q then
        (case map_of ps (sk_start k) of Some b \<Rightarrow> Some (piece_span off rows (sk_start k) b)
         | None \<Rightarrow> span_at s k)
      else span_at s k)"
  using assms
proof (induction ps arbitrary: s g)
  case Nil
  then show ?case by (auto simp: fun_eq_iff intro: exI [of _ "starts g"])
next
  case (Cons p ps)
  obtain a b where p: "p = (a, b)" by (cases p)
  let ?s1 = "store_span ops enc (the_key q a) (Rows (row_slice rows (a - off) (b - off))) s"
  let ?g1 = "g\<lparr>starts := add_start a (starts g)\<rparr>"
  have gk: "group_of s (sk_query (the_key q a)) = Some g" using Cons.prems(2) by simp
  note at = store_span_at [OF gk, of "Rows (row_slice rows (a - off) (b - off))"]
  have s1: "synced ?s1" using synced_store_span [OF Cons.prems(1) gk] .
  have g1: "group_of ?s1 q = Some ?g1" using at(2) by simp
  have "distinct (map fst ps)" using Cons.prems(3) by simp
  from Cons.IH [OF s1 g1 this] obtain sts where
    ih: "synced (store_pieces ops enc q off rows ps ?s1)"
    "group_of (store_pieces ops enc q off rows ps ?s1) = (group_of ?s1)(q \<mapsto> ?g1\<lparr>starts := sts\<rparr>)"
    "set sts = set (starts ?g1) \<union> fst ` set ps"
    "span_at (store_pieces ops enc q off rows ps ?s1) = (\<lambda>k. if sk_query k = q then
        (case map_of ps (sk_start k) of Some b \<Rightarrow> Some (piece_span off rows (sk_start k) b) | None \<Rightarrow> span_at ?s1 k)
      else span_at ?s1 k)" by blast
  have none: "map_of ps a = None" using Cons.prems(3) p by (simp add: map_of_eq_None_iff image_iff)
  have "span_at (store_pieces ops enc q off rows (p # ps) s) k =
      (if sk_query k = q then
        (case map_of (p # ps) (sk_start k) of Some b \<Rightarrow> Some (piece_span off rows (sk_start k) b)
         | None \<Rightarrow> span_at s k)
      else span_at s k)" for k
  proof (cases "k = the_key q a")
    case True
    with none show ?thesis by (simp add: p ih(4) at(1) piece_span_def Let_def)
  next
    case False
    then have "\<not> (sk_query k = q \<and> sk_start k = a)" using the_key_surj [of k] by metis
    moreover have "span_at ?s1 k = span_at s k" using False by (simp add: at(1))
    ultimately show ?thesis by (auto simp: p ih(4) split: option.split)
  qed
  moreover have "group_of (store_pieces ops enc q off rows (p # ps) s) = (group_of s)(q \<mapsto> g\<lparr>starts := sts\<rparr>)"
    using ih(2) at(2) by (simp add: p fun_eq_iff)
  moreover have "set sts = set (starts g) \<union> fst ` set (p # ps)" using ih(3) p by auto
  ultimately show ?case using ih(1) by (auto simp: p)
qed

lemma store_pieces_frame [simp]:
  "budget_bytes (store_pieces ops enc q off rows ps s) = budget_bytes s"
  "limit_bytes (store_pieces ops enc q off rows ps s) = limit_bytes s"
  "evictions (store_pieces ops enc q off rows ps s) = evictions s"
  by (induction ps arbitrary: s) auto

end

end
