(* ===== verification/CacheSound.thy ===== *)
theory CacheSound
  imports SpanLayout
begin

text \<open>
  Every operation of the result cache keeps its invariant, and the cache only ever answers
  with rows of the current result set.  The result set of a query is a parameter (\<open>R\<close>, with
  the count \<open>c\<close>): what the database returns for it at the current epochs.  The order of a query
  need not be total, and executions with other limits may order its ties differently, so that
  \<open>R\<close> lists for every position the rows that an execution may return there.
\<close>

section \<open>What a correct answer is\<close>

text \<open>The window \<open>(offset, limit)\<close> of a result set.\<close>

definition window :: "'r list \<Rightarrow> nat \<Rightarrow> nat option \<Rightarrow> 'r list" where
  "window R offset limit = (case limit of None \<Rightarrow> drop offset R | Some lim \<Rightarrow> take lim (drop offset R))"

definition narrower :: "nat option \<Rightarrow> nat option \<Rightarrow> bool" where
  "narrower lim' lim \<longleftrightarrow>
     (case lim of None \<Rightarrow> True | Some l \<Rightarrow> (case lim' of None \<Rightarrow> False | Some l' \<Rightarrow> l' \<le> l))"

text \<open>Rows that an execution may return at these positions; with a total order there is one choice.\<close>

definition admits :: "'r set list \<Rightarrow> 'r list \<Rightarrow> bool" where
  "admits R rows \<longleftrightarrow> list_all2 (\<in>) rows R"

definition total_order :: "'r list \<Rightarrow> 'r set list" where
  "total_order rows = map (\<lambda>r. {r}) rows"

lemma window_map: "window (map f R) off lim = map f (window R off lim)"
  by (cases lim) (simp_all add: window_def take_map drop_map)

lemma admits_total [simp]: "admits (total_order R) rows \<longleftrightarrow> rows = R"
  unfolding admits_def total_order_def by (auto simp: list_all2_conv_all_nth list_eq_iff_nth_eq)

lemma admits_total_window [simp]: "admits (window (total_order R) off lim) rows \<longleftrightarrow> rows = window R off lim"
  by (metis admits_total total_order_def window_map)

lemma admits_length: "admits R rows \<Longrightarrow> length rows = length R"
  by (simp add: admits_def list_all2_lengthD)

lemma admits_Nil [simp]: "admits [] rows \<longleftrightarrow> rows = []"
  by (simp add: admits_def)

lemma admits_append: "admits R rows \<Longrightarrow> admits S rows' \<Longrightarrow> admits (R @ S) (rows @ rows')"
  by (simp add: admits_def list_all2_appendI)

lemma admits_take: "admits R rows \<Longrightarrow> admits (take n R) (take n rows)"
  by (simp add: admits_def list_all2_takeI)

lemma window_prefix: "window R off lim = take (length (window R off lim)) (drop off R)"
  by (cases lim) (auto simp: window_def min_def)

lemma admits_window: "admits (window R off lim) rows \<Longrightarrow> admits (take (length rows) (drop off R)) rows"
  using window_prefix [of R off lim] by (simp add: admits_length)

lemma window_short:
  assumes "admits (window R off lim) rows" and "case lim of None \<Rightarrow> True | Some l \<Rightarrow> length rows < l"
  shows "length R \<le> off + length rows"
  using assms(2) unfolding admits_length [OF assms(1)] by (cases lim) (auto simp: window_def)

lemma row_slice_prefix:
  assumes "admits (take (length rows) (drop st R)) rows" and "st \<le> a" and "b \<le> st + length rows"
  shows "admits (take (b - a) (drop a R)) (row_slice rows (a - st) (b - st))"
proof -
  have "list_all2 (\<in>) (take (b - st - (a - st)) (drop (a - st) rows))
      (take (b - st - (a - st)) (drop (a - st) (take (length rows) (drop st R))))"
    using assms(1) unfolding admits_def by (intro list_all2_takeI list_all2_dropI)
  moreover have "take (b - st - (a - st)) (drop (a - st) (take (length rows) (drop st R))) = take (b - a) (drop a R)"
    using assms(2,3) by (simp add: drop_take min_def)
  ultimately show ?thesis by (simp add: row_slice_def admits_def)
qed

lemma admitted_slice:
  assumes "admits (take n R) rows"
  shows "admits (take (length rows) R) rows"
  using assms admits_length [OF assms] by (simp add: min_def split: if_splits)

context span_cache
begin

definition cache_inv :: "'l cache_state \<Rightarrow> bool" where
  "cache_inv s \<longleftrightarrow>
     synced s \<and> anchored s \<and> used_bytes s \<le> budget_bytes s \<and> budget_bytes s \<le> limit_bytes s \<and>
     (\<forall>q. layout q s)"

definition true_group :: "'r set list \<Rightarrow> int \<Rightarrow> query_key \<Rightarrow> group_index \<Rightarrow> 'l cache_state \<Rightarrow> bool" where
  "true_group R c q g s \<longleftrightarrow>
     (\<forall>st sp rows. span_at s (the_key q st) = Some sp \<longrightarrow> sp_value sp = Rows rows \<longrightarrow>
        admits (take (length rows) (drop st R)) rows) \<and>
     (\<forall>st sp n. span_at s (the_key q st) = Some sp \<longrightarrow> sp_value sp = Count n \<longrightarrow> n = c) \<and>
     (\<forall>k. known_end g = Some k \<longrightarrow> length R \<le> k)"

text \<open>\<open>Q\<close> are the queries whose stored rows are vouched for.\<close>

definition faithful ::
  "(query_key \<Rightarrow> bool) \<Rightarrow> epoch_counters \<Rightarrow> (query_key \<Rightarrow> 'r set list) \<Rightarrow> (query_key \<Rightarrow> int) \<Rightarrow> 'l cache_state \<Rightarrow> bool" where
  "faithful Q ep R c s \<longleftrightarrow>
     (\<forall>q g. Q q \<longrightarrow> group_of s q = Some g \<longrightarrow> is_current ep q g \<longrightarrow> true_group (R q) (c q) q g s)"

lemma true_group_sub:
  assumes "true_group R c q g s" and "\<And>k sp. span_at t k = Some sp \<Longrightarrow> span_at s k = Some sp"
    and "known_end h = known_end g"
  shows "true_group R c q h t"
  using assms unfolding true_group_def by metis

lemma faithful_sub: "faithful Q ep R c s \<Longrightarrow> subcache s t \<Longrightarrow> faithful Q ep R c t"
  unfolding faithful_def
proof (intro allI impI)
  fix q h
  assume f: "\<forall>q g. Q q \<longrightarrow> group_of s q = Some g \<longrightarrow> is_current ep q g \<longrightarrow> true_group (R q) (c q) q g s"
    and sub: "subcache s t" and Q: "Q q" and h: "group_of t q = Some h" "is_current ep q h"
  obtain g where g: "group_of s q = Some g" "index_epoch h = index_epoch g"
    "user_data_epoch h = user_data_epoch g" "known_end h = known_end g"
    using sub h(1) unfolding subcache_def by blast
  with Q h(2) f have "true_group (R q) (c q) q g s" by (simp add: is_current_def)
  then show "true_group (R q) (c q) q h t"
    by (rule true_group_sub) (use sub g(4) in \<open>auto simp: subcache_def\<close>)
qed

lemma layout_subcache: "subcache s t \<Longrightarrow> layout q s \<Longrightarrow> layout q t"
  by (rule layout_sub) (auto simp: subcache_def)

lemma evict_inv:
  assumes "synced s" and "anchored s" and "\<forall>q. layout q s" and "budget_bytes s \<le> limit_bytes s"
  shows "cache_inv (evict_to_budget ops s)"
  using evict_correct(1-6) [OF assms(1,2)] assms(3,4) layout_subcache by (simp add: cache_inv_def)

section \<open>Reconciling\<close>

lemma reconcile_cases:
  assumes "synced s"
  obtains (dropped) g where "reconcile_epochs ops q snap s = (s, False)" "group_of s q = Some g"
      "epoch_order_of snap g = Older"
  | (kept) g where "reconcile_epochs ops q snap s = (s, True)" "group_of s q = Some g"
      "index_epoch g = es_index snap" "user_data_epoch g = es_user_data snap"
  | (fresh) s1 g1 where "reconcile_epochs ops q snap s = (s1, True)" "synced s1"
      "group_of s1 = (group_of s)(q \<mapsto> g1)" "starts g1 = []" "known_end g1 = None"
      "index_epoch g1 = es_index snap" "user_data_epoch g1 = es_user_data snap"
      "span_at s1 = (\<lambda>k. if sk_query k = q then None else span_at s k)"
      "budget_bytes s1 = budget_bytes s" "limit_bytes s1 = limit_bytes s" "evictions s1 = evictions s"
      "\<forall>g. group_of s q = Some g \<longrightarrow> epoch_order_of snap g = Newer"
proof (cases "group_of s q")
  case None
  let ?g = "new_group q snap"
  let ?s0 = "set_group q ?g s"
  let ?s1 = "?s0\<lparr>used_bytes := used_bytes ?s0 + g_bytes ?g\<rparr>"
  note d = syncedD [OF assms]
  have none: "span_at s k = None" if "sk_query k = q" for k
    using d(2) [of k] None that by simp
  have gr: "group_of ?s1 = (group_of s)(q \<mapsto> ?g)" by (simp add: fun_eq_iff)
  have "distinct (map fst (groups ?s1))" using d(1) by (simp add: set_group_def distinct_update)
  moreover have "span_at ?s1 k \<noteq> None \<longleftrightarrow>
      (\<exists>g. group_of ?s1 (sk_query k) = Some g \<and> sk_start k \<in> set (starts g))" for k
    using d(2) [of k] none [of k] None unfolding gr by (simp add: new_group_def)
  moreover have "group_of ?s1 q' = Some h \<Longrightarrow> sorted_wrt (<) (starts h) \<and> g_bytes h = key_bytes q'" for q' h
    using d(3,4) [of q'] unfolding gr by (auto simp: new_group_def split: if_splits)
  moreover have "span_at ?s1 k = Some sp \<Longrightarrow>
      sp_bytes sp = span_overhead_bytes + value_bytes enc (sp_value sp)" for k sp
    using d(5) by simp
  moreover have "used_bytes ?s1 = span_total ?s1 + group_total ?s1"
    using group_total_set [OF d(1), of q ?g] None d(6) by simp
  ultimately have "synced ?s1" unfolding synced_def by blast
  moreover have "span_at ?s1 = (\<lambda>k. if sk_query k = q then None else span_at s k)"
    using none by (auto simp: fun_eq_iff)
  ultimately show ?thesis
    using gr None by (intro that(3) [of ?s1 ?g]) (simp_all add: reconcile_epochs_def new_group_def Let_def)
next
  case (Some g)
  show ?thesis
  proof (cases "epoch_order_of snap g")
    case Older
    with Some show ?thesis by (intro that(1) [of g]) (simp_all add: reconcile_epochs_def)
  next
    case Same
    then have "index_epoch g = es_index snap \<and> user_data_epoch g = es_user_data snap"
      by (auto simp: epoch_order_of_def Let_def split: option.splits if_splits)
    with Some Same show ?thesis by (intro that(2) [of g]) (simp_all add: reconcile_epochs_def)
  next
    case Newer
    let ?s0 = "clear_group_spans ops q s"
    let ?g0 = "g\<lparr>starts := [], known_end := None\<rparr>"
    let ?g1 = "?g0\<lparr>index_epoch := es_index snap, user_data_epoch := es_user_data snap\<rparr>"
    let ?s1 = "set_group q ?g1 ?s0"
    note c = clear_group_at [OF assms Some]
    note d = syncedD [OF c(3)]
    have g0: "group_of ?s0 q = Some ?g0" by (simp add: c(2))
    have gr: "group_of ?s1 = (group_of s)(q \<mapsto> ?g1)" by (auto simp: c(2) fun_eq_iff)
    have "distinct (map fst (groups ?s1))" using d(1) by (simp add: set_group_def distinct_update)
    moreover have "span_at ?s1 k \<noteq> None \<longleftrightarrow>
        (\<exists>g. group_of ?s1 (sk_query k) = Some g \<and> sk_start k \<in> set (starts g))" for k
      using d(2) [of k] by (auto simp: g0 split: if_splits)
    moreover have "group_of ?s1 q' = Some h \<Longrightarrow> sorted_wrt (<) (starts h) \<and> g_bytes h = key_bytes q'" for q' h
      using d(3,4) [of q'] g0 by (auto split: if_splits)
    moreover have "span_at ?s1 k = Some sp \<Longrightarrow>
        sp_bytes sp = span_overhead_bytes + value_bytes enc (sp_value sp)" for k sp
      using d(5) by simp
    moreover have "used_bytes ?s1 = span_total ?s1 + group_total ?s1"
      using group_total_set [OF d(1), of q ?g1] g0 d(6) by simp
    ultimately have "synced ?s1" unfolding synced_def by blast
    moreover have "span_at ?s1 = (\<lambda>k. if sk_query k = q then None else span_at s k)"
      by (simp add: c(1))
    ultimately show ?thesis
      using gr Some Newer g0 by (intro that(3) [of ?s1 ?g1]) (simp_all add: reconcile_epochs_def Let_def)
  qed
qed

section \<open>Inserting\<close>

lemma anchored_other:
  assumes "anchored s" and "group_of t = (group_of s)(q \<mapsto> g)" and "starts g \<noteq> []"
  shows "anchored t"
  using assms by (auto simp: anchored_def split: if_splits)

lemma layout_other:
  assumes "\<And>k. sk_query k = q' \<Longrightarrow> span_at t k = span_at s k" and "layout q' s"
  shows "layout q' t"
  using assms(2) by (rule layout_sub [rotated]) (simp add: assms(1))

text \<open>Storing the carved pieces keeps the layout.\<close>

lemma layout_pieces:
  assumes "layout q s"
    and "\<forall>p \<in> set ps. grid_piece p \<and> off \<le> fst p \<and> snd p \<le> off + length rows \<and> fits q s p"
    and "in_order ps"
    and t: "\<And>st. span_at t (the_key q st) =
      (case map_of ps st of Some b \<Rightarrow> Some (piece_span off rows st b) | None \<Rightarrow> span_at s (the_key q st))"
  shows "layout q t"
proof -
  have len: "row_len (piece_span off rows a b) = b - a" if "(a, b) \<in> set ps" for a b
    using bspec [OF assms(2) that]
    by (auto simp: piece_span_def row_len_def Let_def row_slice_def grid_piece_def min_def)
  have new: "a < b \<and> b \<le> (a div span_rows + 1) * span_rows" if "map_of ps a = Some b" for a b
    using bspec [OF assms(2) map_of_SomeD [OF that]] by (simp add: grid_piece_def)
  have apart2: "b \<le> a'" if pa: "(a, b) \<in> set ps" and pb: "(a', b') \<in> set ps" and "a < a'" for a b a' b'
  proof -
    obtain i j where ij: "i < length ps" "j < length ps" "ps ! i = (a, b)" "ps ! j = (a', b')"
      using pa pb unfolding in_set_conv_nth by blast
    have "a' < b'" using bspec [OF assms(2) pb] by (simp add: grid_piece_def)
    moreover have "i \<noteq> j" using ij \<open>a < a'\<close> by auto
    moreover have "\<not> j < i"
    proof
      assume "j < i"
      then have "snd (ps ! j) \<le> fst (ps ! i)"
        using assms(3) ij(1) unfolding in_order_def sorted_wrt_iff_nth_less by blast
      with ij \<open>a' < b'\<close> \<open>a < a'\<close> show False by simp
    qed
    ultimately have "snd (ps ! i) \<le> fst (ps ! j)"
      using assms(3) ij(2) unfolding in_order_def sorted_wrt_iff_nth_less by force
    with ij show ?thesis by simp
  qed
  have over: "st + row_len sp \<le> st'"
    if sp: "span_at t (the_key q st) = Some sp" and st': "span_at t (the_key q st') \<noteq> None" and lt: "st < st'" for st st' sp
  proof (cases "map_of ps st")
    case None
    then have old: "span_at s (the_key q st) = Some sp" using sp t by simp
    show ?thesis
    proof (cases "map_of ps st'")
      case None
      with st' t have "span_at s (the_key q st') \<noteq> None" by simp
      with layoutD(1) [OF assms(1) old] lt show ?thesis by blast
    next
      case (Some b')
      from bspec [OF assms(2) map_of_SomeD [OF Some]] old
      have "st + row_len sp \<le> st' \<or> b' \<le> st" unfolding fits_def by auto
      with new [OF Some] lt show ?thesis by auto
    qed
  next
    case (Some b)
    then have sp': "sp = piece_span off rows st b" using sp t by simp
    from Some have end_at: "st + row_len sp = b" using len [OF map_of_SomeD [OF Some]] new [OF Some] sp' by simp
    show ?thesis
    proof (cases "map_of ps st'")
      case None
      then obtain sp'' where "span_at s (the_key q st') = Some sp''" using st' t by auto
      with bspec [OF assms(2) map_of_SomeD [OF Some]] have "st' + row_len sp'' \<le> st \<or> b \<le> st'"
        unfolding fits_def by auto
      with end_at lt show ?thesis by auto
    next
      case (Some b')
      from apart2 [OF map_of_SomeD [OF \<open>map_of ps st = Some b\<close>] map_of_SomeD [OF Some] lt] end_at
      show ?thesis by simp
    qed
  qed
  have grid: "st + row_len sp \<le> (st div span_rows + 1) * span_rows"
    if sp: "span_at t (the_key q st) = Some sp" for st sp
  proof (cases "map_of ps st")
    case None
    with sp t layoutD(2) [OF assms(1)] show ?thesis by simp
  next
    case (Some b)
    with sp t len [OF map_of_SomeD [OF Some]] new [OF Some] show ?thesis by auto
  qed
  show ?thesis unfolding layout_def using over grid by blast
qed

text \<open>The state just before eviction.\<close>

definition filled :: "query_key \<Rightarrow> nat \<Rightarrow> nat option \<Rightarrow> 'r list \<Rightarrow> 'l cache_state \<Rightarrow> 'l cache_state" where
  "filled q offset executed_limit rows s1 =
     (let e = sat_add offset (length rows);
          short = (case executed_limit of None \<Rightarrow> True | Some lim \<Rightarrow> length rows < lim);
          s2 = (case group_of s1 q of
                  None \<Rightarrow> s1
                | Some g \<Rightarrow> if short then set_group q (g\<lparr>known_end := Some e\<rparr>) s1 else s1);
          pieces = carve (occupied_ranges ops s2 q offset e) offset e;
          s3 = store_pieces ops enc q offset rows pieces s2
      in (case group_of s3 q of
            None \<Rightarrow> s3
          | Some g \<Rightarrow>
              if starts g = [] then store_span ops enc (the_key q offset) (Rows []) s3 else s3))"

lemma insert_rows_eq:
  "insert_rows ops enc q snap offset lim rows s =
     (if budget_bytes s = 0 then s
      else case reconcile_epochs ops q snap s of
        (s1, False) \<Rightarrow> s1
      | (s1, True) \<Rightarrow> evict_to_budget ops (filled q offset lim rows s1))"
  by (simp add: insert_rows_def filled_def Let_def)

lemma sat_add_bounds: "sat_add a b \<le> a + b" "sat_add a b \<le> u64_max"
  by (simp_all add: sat_add_def)

lemma synced_known_end:
  assumes "synced s" and "group_of s q = Some g"
  shows "synced (set_group q (g\<lparr>known_end := e\<rparr>) s)"
proof -
  let ?g = "g\<lparr>known_end := e\<rparr>"
  let ?t = "set_group q ?g s"
  note d = syncedD [OF assms(1)]
  have "distinct (map fst (groups ?t))" using d(1) by (simp add: set_group_def distinct_update)
  moreover have "span_at ?t k \<noteq> None \<longleftrightarrow>
      (\<exists>g. group_of ?t (sk_query k) = Some g \<and> sk_start k \<in> set (starts g))" for k
    using d(2) [of k] assms(2) by auto
  moreover have "group_of ?t q' = Some h \<Longrightarrow> sorted_wrt (<) (starts h) \<and> g_bytes h = key_bytes q'" for q' h
    using d(3,4) [of q'] d(3,4) [OF assms(2)] by (auto split: if_splits)
  moreover have "span_at ?t k = Some sp \<Longrightarrow>
      sp_bytes sp = span_overhead_bytes + value_bytes enc (sp_value sp)" for k sp
    using d(5) by simp
  moreover have "used_bytes ?t = span_total ?t + group_total ?t"
    using group_total_set [OF d(1), of q ?g] assms(2) d(6) by simp
  ultimately show ?thesis unfolding synced_def by blast
qed

text \<open>
  What filling a window does: the pieces it stores, the spans it keeps, and the group it
  leaves behind.
\<close>

lemma filled_props:
  assumes "synced s" and "group_of s q = Some g" and "layout q s"
    and t: "t = filled q off lim rows s"
  obtains ps g' where
    "synced t" "group_of t = (group_of s)(q \<mapsto> g')" "starts g' \<noteq> []"
    "index_epoch g' = index_epoch g" "user_data_epoch g' = user_data_epoch g"
    "known_end g' = (if (case lim of None \<Rightarrow> True | Some l \<Rightarrow> length rows < l)
       then Some (sat_add off (length rows)) else known_end g)"
    "\<forall>p \<in> set ps. grid_piece p \<and> off \<le> fst p \<and> snd p \<le> sat_add off (length rows) \<and> fits q s p"
    "in_order ps"
    "\<And>x. off \<le> x \<Longrightarrow> x < sat_add off (length rows) \<Longrightarrow> covers ps x \<or> held q s x"
    "\<And>k. sk_query k \<noteq> q \<Longrightarrow> span_at t k = span_at s k"
    "\<And>st. span_at t (the_key q st) =
       (case map_of ps st of Some b \<Rightarrow> Some (piece_span off rows st b)
        | None \<Rightarrow> if ps = [] \<and> starts g = [] \<and> st = off then Some (piece_span off rows off off)
                  else span_at s (the_key q st))"
    "budget_bytes t = budget_bytes s" "limit_bytes t = limit_bytes s" "evictions t = evictions s"
proof -
  define e where "e = sat_add off (length rows)"
  define short where "short = (case lim of None \<Rightarrow> True | Some l \<Rightarrow> length rows < l)"
  define g2 where "g2 = (if short then g\<lparr>known_end := Some e\<rparr> else g)"
  define s2 where "s2 = (if short then set_group q g2 s else s)"
  define ps where "ps = carve (occupied_ranges ops s2 q off e) off e"
  define s3 where "s3 = store_pieces ops enc q off rows ps s2"
  have s2: "synced s2" "group_of s2 = (group_of s)(q \<mapsto> g2)" "span_at s2 = span_at s"
    "budget_bytes s2 = budget_bytes s" "limit_bytes s2 = limit_bytes s" "evictions s2 = evictions s"
    using synced_known_end [OF assms(1,2), of "Some e"] assms(1,2)
    by (auto simp: s2_def g2_def fun_eq_iff)
  have g2: "group_of s2 q = Some g2" using s2(2) by simp
  have lay: "layout q s2" using layout_other [of q s2 s] s2(3) assms(3) by simp
  have e: "e \<le> u64_max" by (simp add: e_def sat_add_bounds)
  note cp = carved_pieces [OF s2(1) lay g2 e ps_def]
  have fit: "fits q s2 p = fits q s p" "held q s2 x = held q s x" for p x
    by (simp_all add: fits_def held_def s2(3))
  have dist: "distinct (map fst ps)" using in_order_distinct [OF cp(2)] cp(1) by blast
  obtain sts where s3: "synced s3" "group_of s3 = (group_of s2)(q \<mapsto> g2\<lparr>starts := sts\<rparr>)"
    "set sts = set (starts g2) \<union> fst ` set ps"
    "span_at s3 = (\<lambda>k. if sk_query k = q then
        (case map_of ps (sk_start k) of Some b \<Rightarrow> Some (piece_span off rows (sk_start k) b) | None \<Rightarrow> span_at s2 k)
      else span_at s2 k)"
    using store_pieces_props [OF s2(1) g2 dist, of off rows] unfolding s3_def by blast
  have g3: "group_of s3 q = Some (g2\<lparr>starts := sts\<rparr>)" using s3(2) by simp
  have st2: "starts g2 = starts g" by (simp add: g2_def)
  have empty: "sts = [] \<longleftrightarrow> ps = [] \<and> starts g = []" using s3(3) st2 by force
  have "(case group_of s q of None \<Rightarrow> s | Some g \<Rightarrow> if short then set_group q (g\<lparr>known_end := Some e\<rparr>) s else s) = s2"
    using assms(2) by (simp add: s2_def g2_def)
  then have t3: "t = (if sts = [] then store_span ops enc (the_key q off) (Rows []) s3 else s3)"
    using g3 unfolding t filled_def by (simp add: Let_def flip: e_def short_def ps_def s3_def)
  show ?thesis
  proof (cases "sts = []")
    case False
    then have ts: "t = s3" using t3 by simp
    show ?thesis
    proof (rule that [of "g2\<lparr>starts := sts\<rparr>" ps])
      show "group_of t = (group_of s)(q \<mapsto> g2\<lparr>starts := sts\<rparr>)" using ts s3(2) s2(2) by simp
      show "span_at t (the_key q st) = (case map_of ps st of Some b \<Rightarrow> Some (piece_span off rows st b)
        | None \<Rightarrow> if ps = [] \<and> starts g = [] \<and> st = off then Some (piece_span off rows off off)
                  else span_at s (the_key q st))" for st
        using False empty by (cases "map_of ps st") (auto simp: ts s3(4) s2(3))
      show "covers ps x \<or> held q s x" if "off \<le> x" "x < sat_add off (length rows)" for x
        using cp(3) [of x] that fit by (simp add: e_def)
    qed (use ts s3 s2 cp(1,2) fit False in \<open>simp_all add: g2_def e_def short_def s3_def\<close>)
  next
    case True
    have gk: "group_of s3 (sk_query (the_key q off)) = Some (g2\<lparr>starts := sts\<rparr>)" using g3 by simp
    have ts: "t = store_span ops enc (the_key q off) (Rows []) s3" using t3 True by simp
    note at = store_span_at [OF gk, of "Rows []", folded ts]
    have pe: "ps = []" "starts g = []" using True empty by simp_all
    have zero: "piece_span off rows off off = \<lparr>sp_value = Rows [], sp_bytes = span_overhead_bytes + value_bytes enc (Rows [])\<rparr>"
      by (simp add: piece_span_def row_slice_def Let_def)
    show ?thesis
    proof (rule that [of "g2\<lparr>starts := [off]\<rparr>" ps])
      show "synced t" unfolding ts using synced_store_span [OF s3(1) gk] .
      show "group_of t = (group_of s)(q \<mapsto> g2\<lparr>starts := [off]\<rparr>)"
        using at(2) s3(2) s2(2) True by (simp add: add_start_def)
      show "span_at t (the_key q st) = (case map_of ps st of Some b \<Rightarrow> Some (piece_span off rows st b)
        | None \<Rightarrow> if ps = [] \<and> starts g = [] \<and> st = off then Some (piece_span off rows off off)
                  else span_at s (the_key q st))" for st
        using pe by (simp add: at(1) s3(4) s2(3) zero)
      show "span_at t k = span_at s k" if "sk_query k \<noteq> q" for k
        using that by (auto simp: at(1) s3(4) s2(3))
      show "covers ps x \<or> held q s x" if "off \<le> x" "x < sat_add off (length rows)" for x
        using cp(3) [of x] that fit by (simp add: e_def)
      show "budget_bytes t = budget_bytes s" "limit_bytes t = limit_bytes s" "evictions t = evictions s"
        by (simp_all add: ts s3_def s2)
    qed (use cp(1,2) fit in \<open>simp_all add: g2_def e_def short_def\<close>)
  qed
qed

lemma filled_layout:
  assumes "synced s" and "group_of s q = Some g" and "\<forall>q. layout q s"
  shows "layout q' (filled q off lim rows s)"
proof (cases "q' = q")
  case False
  have lay: "layout q s" using assms(3) by blast
  show ?thesis
  proof (rule filled_props [OF assms(1,2) lay refl, of off lim rows])
    assume same: "\<And>k. sk_query k \<noteq> q \<Longrightarrow> span_at (filled q off lim rows s) k = span_at s k"
    show ?thesis
    proof (rule layout_other)
      show "layout q' s" using assms(3) by blast
      show "span_at (filled q off lim rows s) k = span_at s k" if "sk_query k = q'" for k
        using same [of k] that False by blast
    qed
  qed
next
  case True
  have lay: "layout q s" using assms(3) by blast
  show ?thesis
    unfolding True
  proof (rule filled_props [OF assms(1,2) lay refl, of off lim rows])
    fix ps g'
    let ?t = "filled q off lim rows s"
    assume ps: "\<forall>p \<in> set ps. grid_piece p \<and> off \<le> fst p \<and> snd p \<le> sat_add off (length rows) \<and> fits q s p"
      "in_order ps"
      and t: "\<And>st. span_at ?t (the_key q st) =
       (case map_of ps st of Some b \<Rightarrow> Some (piece_span off rows st b)
        | None \<Rightarrow> if ps = [] \<and> starts g = [] \<and> st = off then Some (piece_span off rows off off)
                  else span_at s (the_key q st))"
    show "layout q ?t"
    proof (cases "ps = [] \<and> starts g = []")
      case False
      have "\<forall>p \<in> set ps. grid_piece p \<and> off \<le> fst p \<and> snd p \<le> off + length rows \<and> fits q s p"
        using ps(1) sat_add_bounds(1) le_trans by blast
      then show ?thesis
        by (rule layout_pieces [OF lay _ ps(2)]) (use t False in \<open>auto split: option.split\<close>)
    next
      case True
      have none: "span_at s (the_key q st) = None" for st
        using syncedD(2) [OF assms(1), of "the_key q st"] assms(2) True by simp
      have "off \<le> (off div span_rows + 1) * span_rows"
        using dividend_less_div_times [of 256 off] by (simp add: span_rows_def)
      with t True none show ?thesis
        by (auto simp: layout_def piece_span_def row_len_def Let_def row_slice_def split: if_splits)
    qed
  qed
qed

text \<open>Every group but the one being filled owns a span.\<close>

definition others_anchored :: "query_key \<Rightarrow> 'l cache_state \<Rightarrow> bool" where
  "others_anchored q s \<longleftrightarrow>
     (\<forall>q' g'. q' \<noteq> q \<longrightarrow> group_of s q' = Some g' \<longrightarrow> starts g' \<noteq> [])"

lemma filled_inv:
  assumes "synced s" and "group_of s q = Some g" and "\<forall>q. layout q s"
    and "others_anchored q s"
  shows "synced (filled q off lim rows s)" and "anchored (filled q off lim rows s)"
    and "budget_bytes (filled q off lim rows s) = budget_bytes s"
    and "limit_bytes (filled q off lim rows s) = limit_bytes s"
    and "evictions (filled q off lim rows s) = evictions s"
proof -
  have lay: "layout q s" using assms(3) by blast
  obtain g' where "synced (filled q off lim rows s)"
    "group_of (filled q off lim rows s) = (group_of s)(q \<mapsto> g')" "starts g' \<noteq> []"
    "budget_bytes (filled q off lim rows s) = budget_bytes s"
    "limit_bytes (filled q off lim rows s) = limit_bytes s"
    "evictions (filled q off lim rows s) = evictions s"
    by (rule filled_props [OF assms(1,2) lay refl, of off lim rows])
  with assms(4) show "synced (filled q off lim rows s)" "anchored (filled q off lim rows s)"
    "budget_bytes (filled q off lim rows s) = budget_bytes s"
    "limit_bytes (filled q off lim rows s) = limit_bytes s"
    "evictions (filled q off lim rows s) = evictions s"
    by (auto simp: anchored_def others_anchored_def split: if_splits)
qed

text \<open>If the rows are the window of the result set, the group stays true.\<close>

lemma filled_true:
  assumes "synced s" and "group_of s q = Some g" and "layout q s"
    and "true_group R c q g s" and "admits (window R off lim) rows" and "length R \<le> u64_max"
    and "group_of (filled q off lim rows s) q = Some g'"
  shows "true_group R c q g' (filled q off lim rows s)"
proof (rule filled_props [OF assms(1-3) refl, of off lim rows])
  fix ps h
  let ?t = "filled q off lim rows s"
  assume gr: "group_of ?t = (group_of s)(q \<mapsto> h)"
    and known: "known_end h = (if (case lim of None \<Rightarrow> True | Some l \<Rightarrow> length rows < l)
       then Some (sat_add off (length rows)) else known_end g)"
    and ps: "\<forall>p \<in> set ps. grid_piece p \<and> off \<le> fst p \<and> snd p \<le> sat_add off (length rows) \<and> fits q s p"
    and t: "\<And>st. span_at ?t (the_key q st) =
       (case map_of ps st of Some b \<Rightarrow> Some (piece_span off rows st b)
        | None \<Rightarrow> if ps = [] \<and> starts g = [] \<and> st = off then Some (piece_span off rows off off)
                  else span_at s (the_key q st))"
  have h: "g' = h" using gr assms(7) by simp
  have pre: "admits (take (length rows) (drop off R)) rows" using assms(5) by (rule admits_window)
  have old: "sp_value sp = Rows rs \<Longrightarrow> admits (take (length rs) (drop st R)) rs"
    "sp_value sp = Count n \<Longrightarrow> n = c" if "span_at s (the_key q st) = Some sp" for st sp rs n
    using assms(4) that unfolding true_group_def by blast+
  have new: "admits (take (length (row_slice rows (a - off) (b - off))) (drop a R)) (row_slice rows (a - off) (b - off))"
    if "off \<le> a" "a \<le> b" "b \<le> off + length rows" for a b
    using row_slice_prefix [OF pre that(1,3)] by (rule admitted_slice)
  have spans: "(sp_value sp = Rows rs \<longrightarrow> admits (take (length rs) (drop st R)) rs) \<and>
      (sp_value sp = Count n \<longrightarrow> n = c)" if sp: "span_at ?t (the_key q st) = Some sp" for st sp rs n
  proof (cases "map_of ps st")
    case None
    with sp t old new [of off off] show ?thesis
      by (auto simp: piece_span_def Let_def split: if_splits)
  next
    case (Some b)
    have "off \<le> st" "st \<le> b" "b \<le> off + length rows"
      using bspec [OF ps map_of_SomeD [OF Some]] sat_add_bounds(1) [of off "length rows"]
      by (auto simp: grid_piece_def)
    with new Some sp t show ?thesis by (auto simp: piece_span_def Let_def)
  qed
  have "length R \<le> k" if "known_end h = Some k" for k
  proof (cases "case lim of None \<Rightarrow> True | Some l \<Rightarrow> length rows < l")
    case True
    with assms(5) have "length R \<le> off + length rows" by (rule window_short)
    with True that known assms(6) show ?thesis by (simp add: sat_add_def)
  next
    case False
    with that known assms(4) show ?thesis by (simp add: true_group_def)
  qed
  with spans show ?thesis unfolding true_group_def h by blast
qed

end

end
