(* ===== verification/CacheSystem.thy ===== *)
theory CacheSystem
  imports CacheSound
begin

text \<open>
  The operations of the result cache as a whole: each keeps the invariant and the truth of
  what is stored, a hit answers with a window of the current result set, and the window
  that was just stored is a hit.
\<close>

context span_cache
begin

section \<open>Inserting keeps the invariant and the truth\<close>

lemma reconcile_layout:
  assumes "\<forall>q. layout q s" and "span_at s1 = (\<lambda>k. if sk_query k = q then None else span_at s k)"
  shows "\<forall>q. layout q s1"
proof
  fix q'
  show "layout q' s1" by (rule layout_sub [of s1 q' s]) (use assms in \<open>auto split: if_splits\<close>)
qed

lemma cache_invD:
  assumes "cache_inv s"
  shows "synced s" "anchored s" "used_bytes s \<le> budget_bytes s" "budget_bytes s \<le> limit_bytes s"
    "\<forall>q. layout q s"
  using assms by (simp_all add: cache_inv_def)

lemma insert_rows_inv:
  assumes "cache_inv s"
  shows "cache_inv (insert_rows ops enc q snap off lim rows s)"
proof (cases "budget_bytes s = 0")
  case True
  with assms show ?thesis by (simp add: insert_rows_eq)
next
  case False
  note i = cache_invD [OF assms]
  show ?thesis
  proof (rule reconcile_cases [OF i(1), of q snap])
    fix g assume "reconcile_epochs ops q snap s = (s, False)"
    with assms False show ?thesis by (simp add: insert_rows_eq)
  next
    fix g assume r: "reconcile_epochs ops q snap s = (s, True)" "group_of s q = Some g"
    have "others_anchored q s"
      using i(2) by (simp add: anchored_def others_anchored_def)
    note f = filled_inv [OF i(1) r(2) i(5) this, of off lim rows]
    have "cache_inv (evict_to_budget ops (filled q off lim rows s))"
      using f i(4) filled_layout [OF i(1) r(2) i(5)] by (intro evict_inv) simp_all
    with r(1) False show ?thesis by (simp add: insert_rows_eq)
  next
    fix s1 g1
    assume r: "reconcile_epochs ops q snap s = (s1, True)" "synced s1"
      "group_of s1 = (group_of s)(q \<mapsto> g1)"
      "span_at s1 = (\<lambda>k. if sk_query k = q then None else span_at s k)"
      "budget_bytes s1 = budget_bytes s" "limit_bytes s1 = limit_bytes s"
    have lay: "\<forall>q. layout q s1" by (rule reconcile_layout [OF i(5) r(4)])
    have g: "group_of s1 q = Some g1" using r(3) by simp
    have "others_anchored q s1"
      using i(2) r(3) by (auto simp: anchored_def others_anchored_def)
    note f = filled_inv [OF r(2) g lay this, of off lim rows]
    have "cache_inv (evict_to_budget ops (filled q off lim rows s1))"
      using f i(4) r(5,6) filled_layout [OF r(2) g lay] by (intro evict_inv) simp_all
    with r(1) False show ?thesis by (simp add: insert_rows_eq)
  qed
qed

text \<open>
  Truth.  The rows are required to be the window only if no write was committed between
  the snapshot and now: otherwise they may be anything.
\<close>

lemma is_current_snapshot:
  "index_epoch g = es_index snap \<Longrightarrow> user_data_epoch g = es_user_data snap \<Longrightarrow>
   is_current ep q g \<longleftrightarrow> snap = take_snapshot ep q"
  by (cases snap) (auto simp: is_current_def take_snapshot_def)

lemma filled_faithful:
  assumes "synced s" and "group_of s q = Some g" and "layout q s"
    and "faithful Q ep R c s"
    and "index_epoch g = es_index snap" "user_data_epoch g = es_user_data snap"
    and "Q q \<Longrightarrow> snap = take_snapshot ep q \<Longrightarrow> admits (window (R q) off lim) rows" and "length (R q) \<le> u64_max"
  shows "faithful Q ep R c (filled q off lim rows s)"
  unfolding faithful_def
proof (intro allI impI)
  fix q' h
  let ?t = "filled q off lim rows s"
  assume Q: "Q q'" and h: "group_of ?t q' = Some h" and cur: "is_current ep q' h"
  obtain g' where t: "group_of ?t = (group_of s)(q \<mapsto> g')" "index_epoch g' = index_epoch g"
    "user_data_epoch g' = user_data_epoch g" "\<And>k. sk_query k \<noteq> q \<Longrightarrow> span_at ?t k = span_at s k"
    by (rule filled_props [OF assms(1-3) refl, of off lim rows]) blast
  show "true_group (R q') (c q') q' h ?t"
  proof (cases "q' = q")
    case True
    with h t have h': "h = g'" "group_of ?t q = Some g'" by simp_all
    with cur t(2,3) True have "is_current ep q g" by (simp add: is_current_def)
    then have "true_group (R q) (c q) q g s" "snap = take_snapshot ep q"
      using Q True assms(2,4) is_current_snapshot [OF assms(5,6)] by (auto simp: faithful_def)
    with filled_true [OF assms(1-3) _ assms(7) assms(8) h'(2)] h'(1) Q True show ?thesis by simp
  next
    case False
    with h t(1) have "group_of s q' = Some h" by simp
    with Q cur assms(4) have "true_group (R q') (c q') q' h s" by (simp add: faithful_def)
    with t(4) False show ?thesis by (simp add: true_group_def)
  qed
qed

lemma reconcile_faithful:
  assumes "faithful Q ep R c s" and "group_of s1 = (group_of s)(q \<mapsto> g1)" and "known_end g1 = None"
    and "span_at s1 = (\<lambda>k. if sk_query k = q then None else span_at s k)"
  shows "faithful Q ep R c s1"
  unfolding faithful_def
proof (intro allI impI)
  fix q' h assume Q: "Q q'" and h: "group_of s1 q' = Some h" "is_current ep q' h"
  show "true_group (R q') (c q') q' h s1"
  proof (cases "q' = q")
    case True
    with h assms(2,3) show ?thesis by (simp add: true_group_def assms(4))
  next
    case False
    with Q h assms(1,2) have "true_group (R q') (c q') q' h s" by (simp add: faithful_def)
    with False show ?thesis by (simp add: true_group_def assms(4))
  qed
qed

lemma insert_rows_faithful:
  assumes "cache_inv s" and "faithful Q ep R c s"
    and "Q q \<Longrightarrow> snap = take_snapshot ep q \<Longrightarrow> admits (window (R q) off lim) rows" and "length (R q) \<le> u64_max"
  shows "faithful Q ep R c (insert_rows ops enc q snap off lim rows s)"
proof (cases "budget_bytes s = 0")
  case True
  with assms show ?thesis by (simp add: insert_rows_eq)
next
  case False
  note i = cache_invD [OF assms(1)]
  show ?thesis
  proof (rule reconcile_cases [OF i(1), of q snap])
    fix g assume "reconcile_epochs ops q snap s = (s, False)"
    with assms False show ?thesis by (simp add: insert_rows_eq)
  next
    fix g assume r: "reconcile_epochs ops q snap s = (s, True)" "group_of s q = Some g"
      "index_epoch g = es_index snap" "user_data_epoch g = es_user_data snap"
    have other: "others_anchored q s"
      using i(2) by (simp add: anchored_def others_anchored_def)
    have lay: "layout q s" using i(5) by blast
    note f = filled_inv [OF i(1) r(2) i(5) other, of off lim rows]
    have "faithful Q ep R c (filled q off lim rows s)"
      by (rule filled_faithful [OF i(1) r(2) lay assms(2) r(3,4) assms(3,4)])
    then have "faithful Q ep R c (evict_to_budget ops (filled q off lim rows s))"
      using evict_correct(3) [OF f(1,2)] by (rule faithful_sub)
    with r(1) False show ?thesis by (simp add: insert_rows_eq)
  next
    fix s1 g1
    assume r: "reconcile_epochs ops q snap s = (s1, True)" "synced s1"
      "group_of s1 = (group_of s)(q \<mapsto> g1)" "known_end g1 = None"
      "index_epoch g1 = es_index snap" "user_data_epoch g1 = es_user_data snap"
      "span_at s1 = (\<lambda>k. if sk_query k = q then None else span_at s k)"
    have lay: "\<forall>q. layout q s1" by (rule reconcile_layout [OF i(5) r(7)])
    have g: "group_of s1 q = Some g1" using r(3) by simp
    have other: "others_anchored q s1"
      using i(2) r(3) by (auto simp: anchored_def others_anchored_def)
    note f = filled_inv [OF r(2) g lay other, of off lim rows]
    have l: "layout q s1" using lay by blast
    have "faithful Q ep R c (filled q off lim rows s1)"
      by (rule filled_faithful [OF r(2) g l reconcile_faithful [OF assms(2) r(3,4,7)] r(5,6) assms(3,4)])
    then have "faithful Q ep R c (evict_to_budget ops (filled q off lim rows s1))"
      using evict_correct(3) [OF f(1,2)] by (rule faithful_sub)
    with r(1) False show ?thesis by (simp add: insert_rows_eq)
  qed
qed

section \<open>Counts\<close>

lemma count_store:
  assumes "synced s" and "group_of s q = Some g" and "\<forall>q. layout q s"
    and "others_anchored q s"
  shows "synced (store_span ops enc (the_key q 0) (Count n) s)"
    and "anchored (store_span ops enc (the_key q 0) (Count n) s)"
    and "layout q' (store_span ops enc (the_key q 0) (Count n) s)"
proof -
  have gk: "group_of s (sk_query (the_key q 0)) = Some g" using assms(2) by simp
  note at = store_span_at [OF gk, of "Count n"]
  show "synced (store_span ops enc (the_key q 0) (Count n) s)"
    by (rule synced_store_span [OF assms(1) gk])
  show "anchored (store_span ops enc (the_key q 0) (Count n) s)"
    unfolding anchored_def at(2) using assms(4)
    by (auto simp: others_anchored_def add_start_def split: if_splits)
  have lay: "layout q' s" using assms(3) by blast
  show "layout q' (store_span ops enc (the_key q 0) (Count n) s)"
    using lay unfolding layout_def at(1) by (auto simp: row_len_def)
qed

lemma insert_count_inv:
  assumes "cache_inv s"
  shows "cache_inv (insert_count ops enc q snap n s)"
proof (cases "budget_bytes s = 0")
  case True
  with assms show ?thesis by (simp add: insert_count_def)
next
  case False
  note i = cache_invD [OF assms]
  show ?thesis
  proof (rule reconcile_cases [OF i(1), of q snap])
    fix g assume "reconcile_epochs ops q snap s = (s, False)"
    with assms False show ?thesis by (simp add: insert_count_def)
  next
    fix g assume r: "reconcile_epochs ops q snap s = (s, True)" "group_of s q = Some g"
    have "others_anchored q s"
      using i(2) by (simp add: anchored_def others_anchored_def)
    note f = count_store [OF i(1) r(2) i(5) this]
    have "cache_inv (evict_to_budget ops (store_span ops enc (the_key q 0) (Count n) s))"
      using f i(4) by (intro evict_inv) simp_all
    with r(1) False show ?thesis by (simp add: insert_count_def)
  next
    fix s1 g1
    assume r: "reconcile_epochs ops q snap s = (s1, True)" "synced s1"
      "group_of s1 = (group_of s)(q \<mapsto> g1)"
      "span_at s1 = (\<lambda>k. if sk_query k = q then None else span_at s k)"
      "budget_bytes s1 = budget_bytes s" "limit_bytes s1 = limit_bytes s"
    have lay: "\<forall>q. layout q s1" by (rule reconcile_layout [OF i(5) r(4)])
    have g: "group_of s1 q = Some g1" using r(3) by simp
    have "others_anchored q s1"
      using i(2) r(3) by (auto simp: anchored_def others_anchored_def)
    note f = count_store [OF r(2) g lay this]
    have "cache_inv (evict_to_budget ops (store_span ops enc (the_key q 0) (Count n) s1))"
      using f i(4) r(5,6) by (intro evict_inv) simp_all
    with r(1) False show ?thesis by (simp add: insert_count_def)
  qed
qed

lemma count_faithful:
  assumes "group_of s q = Some g" and "faithful Q ep R c s"
    and "index_epoch g = es_index snap" "user_data_epoch g = es_user_data snap"
    and "Q q \<Longrightarrow> snap = take_snapshot ep q \<Longrightarrow> n = c q"
  shows "faithful Q ep R c (store_span ops enc (the_key q 0) (Count n) s)"
  unfolding faithful_def
proof (intro allI impI)
  fix q' h
  let ?t = "store_span ops enc (the_key q 0) (Count n) s"
  have gk: "group_of s (sk_query (the_key q 0)) = Some g" using assms(1) by simp
  note at = store_span_at [OF gk, of "Count n"]
  assume Q: "Q q'" and h: "group_of ?t q' = Some h" and cur: "is_current ep q' h"
  show "true_group (R q') (c q') q' h ?t"
  proof (cases "q' = q")
    case True
    with h have h': "h = g\<lparr>starts := add_start 0 (starts g)\<rparr>" by (simp add: at(2))
    with cur True have "is_current ep q g" by (simp add: is_current_def)
    then have "true_group (R q) (c q) q g s" "n = c q"
      using Q True assms(1,2,5) is_current_snapshot [OF assms(3,4)] by (auto simp: faithful_def)
    with True h' show ?thesis unfolding true_group_def at(1) by auto
  next
    case False
    with h have "group_of s q' = Some h" by (simp add: at(2))
    with Q cur assms(2) have "true_group (R q') (c q') q' h s" by (simp add: faithful_def)
    with False show ?thesis unfolding true_group_def at(1) by auto
  qed
qed

lemma insert_count_faithful:
  assumes "cache_inv s" and "faithful Q ep R c s" and "Q q \<Longrightarrow> snap = take_snapshot ep q \<Longrightarrow> n = c q"
  shows "faithful Q ep R c (insert_count ops enc q snap n s)"
proof (cases "budget_bytes s = 0")
  case True
  with assms show ?thesis by (simp add: insert_count_def)
next
  case False
  note i = cache_invD [OF assms(1)]
  show ?thesis
  proof (rule reconcile_cases [OF i(1), of q snap])
    fix g assume "reconcile_epochs ops q snap s = (s, False)"
    with assms False show ?thesis by (simp add: insert_count_def)
  next
    fix g assume r: "reconcile_epochs ops q snap s = (s, True)" "group_of s q = Some g"
      "index_epoch g = es_index snap" "user_data_epoch g = es_user_data snap"
    have "others_anchored q s"
      using i(2) by (simp add: anchored_def others_anchored_def)
    note f = count_store [OF i(1) r(2) i(5) this]
    have "faithful Q ep R c (evict_to_budget ops (store_span ops enc (the_key q 0) (Count n) s))"
      using count_faithful [OF r(2) assms(2) r(3,4) assms(3)] evict_correct(3) [OF f(1,2)]
      by (rule faithful_sub)
    with r(1) False show ?thesis by (simp add: insert_count_def)
  next
    fix s1 g1
    assume r: "reconcile_epochs ops q snap s = (s1, True)" "synced s1"
      "group_of s1 = (group_of s)(q \<mapsto> g1)" "known_end g1 = None"
      "index_epoch g1 = es_index snap" "user_data_epoch g1 = es_user_data snap"
      "span_at s1 = (\<lambda>k. if sk_query k = q then None else span_at s k)"
    have lay: "\<forall>q. layout q s1" by (rule reconcile_layout [OF i(5) r(7)])
    have g: "group_of s1 q = Some g1" using r(3) by simp
    have "others_anchored q s1"
      using i(2) r(3) by (auto simp: anchored_def others_anchored_def)
    note f = count_store [OF r(2) g lay this]
    have "faithful Q ep R c (evict_to_budget ops (store_span ops enc (the_key q 0) (Count n) s1))"
      using count_faithful [OF g reconcile_faithful [OF assms(2) r(3,4,7)] r(5,6) assms(3)]
        evict_correct(3) [OF f(1,2)] by (rule faithful_sub)
    with r(1) False show ?thesis by (simp add: insert_count_def)
  qed
qed

section \<open>Reading\<close>

text \<open>A read reorders the LRU and nothing else.\<close>

lemma gather_keeps:
  "map_of (lk_iter ops (fst (gather ops q we sts covered acc l))) = map_of (lk_iter ops l)"
  "sum_list (map (sp_bytes \<circ> snd) (lk_iter ops (fst (gather ops q we sts covered acc l)))) =
     sum_list (map (sp_bytes \<circ> snd) (lk_iter ops l))"
proof -
  have "map_of (lk_iter ops (fst (gather ops q we sts covered acc l))) = map_of (lk_iter ops l) \<and>
   sum_list (map (sp_bytes \<circ> snd) (lk_iter ops (fst (gather ops q we sts covered acc l)))) =
     sum_list (map (sp_bytes \<circ> snd) (lk_iter ops l))"
  proof (induction sts arbitrary: covered acc l)
    case Nil
    then show ?case by simp
  next
    case (Cons st sts)
    obtain l' r where g: "lk_get ops (the_key q st) l = (l', r)" by fastforce
    have m: "map_of (lk_iter ops l') = map_of (lk_iter ops l)"
      using get_map [of "the_key q st" l] g by simp
    have n: "sum_list (map (sp_bytes \<circ> snd) (lk_iter ops l')) = sum_list (map (sp_bytes \<circ> snd) (lk_iter ops l))"
      using get_sum [of sp_bytes "the_key q st" l] g by simp
    show ?case using Cons.IH m n [unfolded comp_def] g by (simp add: Let_def comp_def split: option.split span_value.split)
  qed
  then show "map_of (lk_iter ops (fst (gather ops q we sts covered acc l))) = map_of (lk_iter ops l)"
    "sum_list (map (sp_bytes \<circ> snd) (lk_iter ops (fst (gather ops q we sts covered acc l)))) =
     sum_list (map (sp_bytes \<circ> snd) (lk_iter ops l))" by blast+
qed

text \<open>What is gathered are rows the rest of the result set begins with.\<close>

lemma gather_true:
  assumes m: "\<And>st sp rows. map_of (lk_iter ops l) (the_key q st) = Some sp \<Longrightarrow> sp_value sp = Rows rows \<Longrightarrow>
      admits (take (length rows) (drop st R)) rows"
    and "off \<le> covered" "covered \<le> we" "admits (take (covered - off) (drop off R)) acc"
    and "covered = off \<or> covered \<le> length R"
    and g: "gather ops q we sts covered acc l = (l', covered', acc')"
  shows "off \<le> covered' \<and> covered' \<le> we \<and> admits (take (covered' - off) (drop off R)) acc' \<and>
     (covered' = off \<or> covered' \<le> length R)"
  using assms
proof (induction sts arbitrary: covered acc l)
  case Nil
  then show ?case by auto
next
  case (Cons st sts)
  obtain l1 r where get: "lk_get ops (the_key q st) l = (l1, r)" by fastforce
  have m1: "map_of (lk_iter ops l1) = map_of (lk_iter ops l)"
    using get_map [of "the_key q st" l] get by simp
  have r: "r = map_of (lk_iter ops l) (the_key q st)" using get_value [of "the_key q st" l] get by simp
  show ?case
  proof (cases "st > covered \<or> r = None \<or> (\<exists>sp n. r = Some sp \<and> sp_value sp = Count n)")
    case True
    then have "snd (gather ops q we (st # sts) covered acc l) = (covered, acc)"
      using get by (auto split: option.split)
    then have "covered' = covered" "acc' = acc" using Cons.prems(6) by auto
    with Cons.prems(2-5) show ?thesis by simp
  next
    case False
    then obtain sp rows where sp: "r = Some sp" "sp_value sp = Rows rows" "st \<le> covered"
      by (cases r) (auto, metis span_value.exhaust)
    have rows: "admits (take (length rows) (drop st R)) rows" using Cons.prems(1) [of st sp rows] sp r by simp
    have step: "gather ops q we (st # sts) covered acc l =
      (let e = st + length rows in
       if e \<le> covered then gather ops q we sts covered acc l1
       else (let acc' = acc @ row_slice rows (covered - st) (min e we - st);
                 covered' = min e we
             in if covered' \<ge> we then (l1, covered', acc') else gather ops q we sts covered' acc' l1))"
      using sp get by simp
    show ?thesis
    proof (cases "st + length rows \<le> covered")
      case True
      then show ?thesis
        using Cons.IH [of l1 covered acc] Cons.prems step m1 by simp
    next
      case False
      let ?c = "min (st + length rows) we"
      let ?a = "acc @ row_slice rows (covered - st) (?c - st)"
      have c: "covered \<le> ?c" using False Cons.prems(3) by simp
      have piece: "admits (take (?c - covered) (drop covered R)) (row_slice rows (covered - st) (?c - st))"
        by (rule row_slice_prefix [OF rows sp(3)]) simp
      have there: "drop (covered - off) (drop off R) = drop covered R"
        using Cons.prems(2) by simp
      have sum: "?c - off = (covered - off) + (?c - covered)"
        using Cons.prems(2) c by simp
      have a: "admits (take (?c - off) (drop off R)) ?a"
        unfolding sum take_add there by (rule admits_append [OF Cons.prems(4) piece])
      have "length rows \<le> length R - st" using admits_length [OF rows] by (simp add: min_def split: if_splits)
      with False sp(3) have len: "?c \<le> length R" by simp
      have eq: "gather ops q we (st # sts) covered acc l =
          (if ?c \<ge> we then (l1, ?c, ?a) else gather ops q we sts ?c ?a l1)"
        unfolding step using False by (simp add: Let_def)
      show ?thesis
      proof (cases "?c \<ge> we")
        case True
        then have "covered' = ?c" "acc' = ?a" using Cons.prems(6) unfolding eq by auto
        with a len c Cons.prems(2) show ?thesis by simp
      next
        case no: False
        have "gather ops q we sts ?c ?a l1 = (l', covered', acc')" using Cons.prems(6) no unfolding eq by simp
        moreover have "off \<le> ?c" using Cons.prems(2) c by (rule le_trans)
        moreover have "?c = off \<or> ?c \<le> length R" using len by blast
        ultimately show ?thesis
          by (intro Cons.IH [OF _ _ min.cobounded2 a]) (simp_all only: m1 Cons.prems(1))
      qed
    qed
  qed
qed

lemma reordered_inv:
  assumes "map_of (lk_iter ops l) = map_of (lk_iter ops (lru s))"
    and "sum_list (map (sp_bytes \<circ> snd) (lk_iter ops l)) = sum_list (map (sp_bytes \<circ> snd) (lk_iter ops (lru s)))"
  shows "span_at (s\<lparr>lru := l\<rparr>) = span_at s" and "cache_inv (s\<lparr>lru := l\<rparr>) = cache_inv s"
    and "faithful Q ep R c (s\<lparr>lru := l\<rparr>) = faithful Q ep R c s"
proof -
  show at: "span_at (s\<lparr>lru := l\<rparr>) = span_at s" using assms(1) by (simp add: span_at_def fun_eq_iff)
  have "span_total (s\<lparr>lru := l\<rparr>) = span_total s" using assms(2) by (simp add: span_total_def)
  then have "synced (s\<lparr>lru := l\<rparr>) = synced s" by (simp add: synced_def at)
  moreover have "layout q (s\<lparr>lru := l\<rparr>) = layout q s" for q by (simp add: layout_def at)
  ultimately show "cache_inv (s\<lparr>lru := l\<rparr>) = cache_inv s" by (simp add: cache_inv_def)
  show "faithful Q ep R c (s\<lparr>lru := l\<rparr>) = faithful Q ep R c s" by (simp add: faithful_def true_group_def at)
qed

lemma counter_inv [simp]:
  "cache_inv (s\<lparr>hits := n\<rparr>) = cache_inv s" "cache_inv (s\<lparr>misses := n\<rparr>) = cache_inv s"
  "cache_inv (s\<lparr>stale_hits := n\<rparr>) = cache_inv s"
  "faithful Q ep R c (s\<lparr>hits := n\<rparr>) = faithful Q ep R c s" "faithful Q ep R c (s\<lparr>misses := n\<rparr>) = faithful Q ep R c s"
  "faithful Q ep R c (s\<lparr>stale_hits := n\<rparr>) = faithful Q ep R c s"
  by (simp_all add: cache_inv_def faithful_def true_group_def layout_def)

text \<open>Every lookup leaves a reordered state with other counters.\<close>

lemma lookup_rows_keeps:
  "cache_inv (fst (lookup_rows ops ep q off lim s)) = cache_inv s"
  "faithful Q ep' R c (fst (lookup_rows ops ep q off lim s)) = faithful Q ep' R c s"
proof -
  note g = reordered_inv [OF gather_keeps(1) gather_keeps(2), where s = s]
  show "cache_inv (fst (lookup_rows ops ep q off lim s)) = cache_inv s"
    "faithful Q ep' R c (fst (lookup_rows ops ep q off lim s)) = faithful Q ep' R c s"
    by (simp_all add: lookup_rows_def case_prod_beta g(2,3) split: option.split)
qed

lemma lookup_rows_spans: "span_at (fst (lookup_rows ops ep q off lim s)) = span_at s"
  using gather_keeps(1)
  by (auto simp: lookup_rows_def case_prod_beta span_at_def fun_eq_iff split: option.split)

lemma lookup_count_keeps:
  "cache_inv (fst (lookup_count ops ep q s)) = cache_inv s"
  "faithful Q ep' R c (fst (lookup_count ops ep q s)) = faithful Q ep' R c s"
proof -
  note g = reordered_inv [OF get_map get_sum, where s = s]
  show "cache_inv (fst (lookup_count ops ep q s)) = cache_inv s"
    "faithful Q ep' R c (fst (lookup_count ops ep q s)) = faithful Q ep' R c s"
    by (simp_all add: lookup_count_def case_prod_beta g(2,3) split: option.split span_value.split)
qed

text \<open>The end of the window that a lookup wants covered.\<close>

definition wanted_end :: "nat \<Rightarrow> nat option \<Rightarrow> nat option \<Rightarrow> nat option" where
  "wanted_end off lim known =
     (case (lim, known) of
        (Some l, Some e) \<Rightarrow> Some (min (sat_add off l) e)
      | (Some l, None) \<Rightarrow> Some (sat_add off l)
      | (None, Some e) \<Rightarrow> Some e
      | (None, None) \<Rightarrow> None)"

lemma wanted_window:
  assumes "wanted_end off lim known = Some we" and "length R \<le> u64_max"
    and "\<And>k. known = Some k \<Longrightarrow> length R \<le> k"
  shows "we \<le> off \<Longrightarrow> window R off lim = []"
    and "off < we \<Longrightarrow> we \<le> length R \<Longrightarrow> window R off lim = take (we - off) (drop off R)"
proof -
  show "window R off lim = []" if "we \<le> off"
    using assms that
    by (auto simp: wanted_end_def window_def sat_add_def min_def split: option.splits if_splits)
  show "window R off lim = take (we - off) (drop off R)" if "off < we" "we \<le> length R"
    using assms that
    by (auto simp: wanted_end_def window_def sat_add_def min_def split: option.splits if_splits)
qed

lemma lookup_rows_true:
  assumes "faithful Q ep R c s" and "Q q" and "length (R q) \<le> u64_max"
    and "snd (lookup_rows ops ep q off lim s) = Hit rows"
  shows "admits (window (R q) off lim) rows"
proof -
  obtain g where g: "group_of s q = Some g" "is_current ep q g"
    using assms(4) by (auto simp: lookup_rows_def split: option.splits if_splits)
  then have t: "true_group (R q) (c q) q g s" using assms(1,2) by (simp add: faithful_def)
  have b: "budget_bytes s \<noteq> 0" using assms(4) by (auto simp: lookup_rows_def split: if_splits)
  obtain we where we: "wanted_end off lim (known_end g) = Some we"
    using assms(4) g b by (cases lim; cases "known_end g") (auto simp: lookup_rows_def wanted_end_def)
  have known: "\<And>k. known_end g = Some k \<Longrightarrow> length (R q) \<le> k" using t by (simp add: true_group_def)
  note w = wanted_window [OF we assms(3) known]
  have eq: "lookup_rows ops ep q off lim s =
      (if we \<le> off then (s\<lparr>hits := hits s + 1\<rparr>, Hit [])
       else case last_up_to off (starts g) of
         None \<Rightarrow> (s\<lparr>misses := misses s + 1\<rparr>, Miss)
       | Some first \<Rightarrow>
           (case gather ops q we (range_from first we (starts g)) off [] (lru s) of
              (l, covered, gathered) \<Rightarrow>
                if covered \<ge> we then (s\<lparr>lru := l, hits := hits s + 1\<rparr>, Hit gathered)
                else (s\<lparr>lru := l, misses := misses s + 1\<rparr>, Miss)))"
    using g b we unfolding lookup_rows_def wanted_end_def by simp
  show ?thesis
  proof (cases "we \<le> off")
    case True
    with w(1) assms(4) eq show ?thesis by simp
  next
    case False
    then obtain first where f: "last_up_to off (starts g) = Some first"
      using assms(4) eq by (auto split: option.splits)
    obtain l cov acc where ga: "gather ops q we (range_from first we (starts g)) off [] (lru s) = (l, cov, acc)"
      by (cases "gather ops q we (range_from first we (starts g)) off [] (lru s)") auto
    from False f ga assms(4) eq have hit: "we \<le> cov" "rows = acc" by (auto split: if_splits)
    have m: "admits (take (length rs) (drop st (R q))) rs"
      if "map_of (lk_iter ops (lru s)) (the_key q st) = Some sp" "sp_value sp = Rows rs" for st sp rs
      using t that unfolding true_group_def span_at_def by blast
    have "off \<le> cov \<and> cov \<le> we \<and> admits (take (cov - off) (drop off (R q))) acc \<and> (cov = off \<or> cov \<le> length (R q))"
      by (rule gather_true [OF m _ _ _ _ ga]) (use False in simp_all)
    with hit False have "cov = we" "we \<le> length (R q)" "admits (take (we - off) (drop off (R q))) rows" by auto
    with w(2) False show ?thesis by simp
  qed
qed

lemma lookup_count_true:
  assumes "faithful Q ep R c s" and "Q q" and "snd (lookup_count ops ep q s) = Hit n"
  shows "n = c q"
proof -
  obtain g where g: "group_of s q = Some g" "is_current ep q g"
    using assms(3) by (auto simp: lookup_count_def split: option.splits if_splits)
  then have t: "true_group (R q) (c q) q g s" using assms(1,2) by (simp add: faithful_def)
  obtain sp where "snd (lk_get ops (the_key q 0) (lru s)) = Some sp" "sp_value sp = Count n"
    using assms(3) g by (auto simp: lookup_count_def case_prod_beta split: option.splits if_splits span_value.splits)
  then have "span_at s (the_key q 0) = Some sp" "sp_value sp = Count n" by (simp_all add: get_value span_at_def)
  with t show ?thesis unfolding true_group_def by blast
qed

section \<open>A stored window is a hit\<close>

lemma gather_complete:
  assumes "sorted_wrt (<) sts"
    and "\<And>st. st \<in> set sts \<Longrightarrow> \<exists>sp rows. map_of (lk_iter ops l) (the_key q st) = Some sp \<and> sp_value sp = Rows rows"
    and "\<And>st sp. map_of (lk_iter ops l) (the_key q st) = Some sp \<Longrightarrow> st < we \<Longrightarrow> covered < st + row_len sp \<Longrightarrow>
      st \<in> set sts"
    and "\<And>x. covered \<le> x \<Longrightarrow> x < we \<Longrightarrow>
      \<exists>st sp. map_of (lk_iter ops l) (the_key q st) = Some sp \<and> st \<le> x \<and> x < st + row_len sp"
    and "covered < we"
  shows "we \<le> fst (snd (gather ops q we sts covered acc l))"
  using assms
proof (induction sts arbitrary: covered acc l)
  case Nil
  from Nil.prems(4) [of covered] Nil.prems(3,5) show ?case by fastforce
next
  case (Cons h sts)
  obtain l1 r where get: "lk_get ops (the_key q h) l = (l1, r)" by fastforce
  have m1: "map_of (lk_iter ops l1) = map_of (lk_iter ops l)"
    using get_map [of "the_key q h" l] get by simp
  obtain sp rows where sp: "map_of (lk_iter ops l) (the_key q h) = Some sp" "sp_value sp = Rows rows"
    using Cons.prems(2) [of h] by auto
  then have r: "r = Some sp" using get_value [of "the_key q h" l] get by simp
  have len: "row_len sp = length rows" using sp(2) by (simp add: row_len_def)
  obtain st sp' where st: "map_of (lk_iter ops l) (the_key q st) = Some sp'" "st \<le> covered" "covered < st + row_len sp'"
    using Cons.prems(4) [of covered] Cons.prems(5) by blast
  then have "st \<in> set (h # sts)" using Cons.prems(3,5) by simp
  then have "h \<le> covered" using Cons.prems(1) st(2) by auto
  then have step: "gather ops q we (h # sts) covered acc l =
    (let e = h + length rows in
     if e \<le> covered then gather ops q we sts covered acc l1
     else (let acc' = acc @ row_slice rows (covered - h) (min e we - h);
               covered' = min e we
           in if covered' \<ge> we then (l1, covered', acc') else gather ops q we sts covered' acc' l1))"
    using get r sp(2) by simp
  have rest: "sorted_wrt (<) sts" "\<And>st. st \<in> set sts \<Longrightarrow>
      \<exists>sp rows. map_of (lk_iter ops l1) (the_key q st) = Some sp \<and> sp_value sp = Rows rows"
    using Cons.prems(1,2) m1 by auto
  have remaining: "st \<in> set sts"
    if "map_of (lk_iter ops l1) (the_key q st) = Some sp2" "st < we" "covered < st + row_len sp2"
      "h + length rows < st + row_len sp2 \<or> h + length rows \<le> covered" for st sp2
  proof -
    have "st \<in> set (h # sts)" using Cons.prems(3) that(1-3) m1 by simp
    moreover have "st \<noteq> h" using that(1,3,4) sp(1) m1 len by auto
    ultimately show ?thesis by simp
  qed
  show ?case
  proof (cases "h + length rows \<le> covered")
    case True
    have "we \<le> fst (snd (gather ops q we sts covered acc l1))"
      by (rule Cons.IH [OF rest]) (use remaining True Cons.prems(4,5) m1 in auto)
    with True show ?thesis unfolding step by (simp add: Let_def)
  next
    case False
    show ?thesis
    proof (cases "we \<le> h + length rows")
      case True
      with False show ?thesis unfolding step by (simp add: Let_def)
    next
      case short: False
      have "we \<le> fst (snd (gather ops q we sts (h + length rows)
          (acc @ row_slice rows (covered - h) (h + length rows - h)) l1))"
        by (rule Cons.IH [OF rest]) (use remaining False short Cons.prems(4,5) m1 in auto)
      with False short show ?thesis unfolding step by (simp add: Let_def min_def)
    qed
  qed
qed

definition rows_only :: "query_key \<Rightarrow> 'l cache_state \<Rightarrow> bool" where
  "rows_only q s \<longleftrightarrow> (\<forall>st sp. span_at s (the_key q st) = Some sp \<longrightarrow> (\<exists>rows. sp_value sp = Rows rows))"

text \<open>A window that is held up to the wanted end is a hit.\<close>

lemma lookup_rows_hit:
  assumes "synced s" and "layout q s" and "rows_only q s" and "budget_bytes s \<noteq> 0"
    and g: "group_of s q = Some g" "is_current ep q g"
    and we: "wanted_end off lim (known_end g) = Some we"
    and held: "\<And>x. off \<le> x \<Longrightarrow> x < we \<Longrightarrow> held q s x"
  shows "\<exists>rows. snd (lookup_rows ops ep q off lim s) = Hit rows"
proof (cases "we \<le> off")
  case True
  with g we assms(4) show ?thesis
    by (cases lim; cases "known_end g") (auto simp: lookup_rows_def wanted_end_def)
next
  case False
  have srt: "sorted_wrt (<) (starts g)" by (rule syncedD(3) [OF assms(1) g(1)])
  have mem: "span_at s (the_key q st) \<noteq> None \<longleftrightarrow> st \<in> set (starts g)" for st
    using syncedD(2) [OF assms(1), of "the_key q st"] g(1) by simp
  obtain st0 sp0 where "span_at s (the_key q st0) = Some sp0" "st0 \<le> off"
    using held [of off] False unfolding held_def by auto
  then obtain first where f: "last_up_to off (starts g) = Some first"
    using mem [of st0] by (cases "last_up_to off (starts g)") (auto simp: last_up_to_None)
  note fp = last_up_to_Some [OF f srt]
  let ?sts = "range_from first we (starts g)"
  have "we \<le> fst (snd (gather ops q we ?sts off [] (lru s)))"
  proof (rule gather_complete)
    show "sorted_wrt (<) ?sts" using srt by (simp add: range_from_def sorted_wrt_filter)
    show "\<exists>sp rows. map_of (lk_iter ops (lru s)) (the_key q st) = Some sp \<and> sp_value sp = Rows rows"
      if "st \<in> set ?sts" for st
    proof -
      have "span_at s (the_key q st) \<noteq> None" using that mem by (simp add: range_from_def)
      with assms(3) show ?thesis unfolding rows_only_def span_at_def by blast
    qed
    show "st \<in> set ?sts"
      if "map_of (lk_iter ops (lru s)) (the_key q st) = Some sp" "st < we" "off < st + row_len sp" for st sp
    proof -
      have sp: "span_at s (the_key q st) = Some sp" using that(1) by (simp add: span_at_def)
      have "\<not> st < first"
        using layoutD(1) [OF assms(2) sp, of first] fp mem [of first] that(3) by auto
      with mem [of st] sp that(2) show ?thesis by (auto simp: range_from_def)
    qed
    show "\<exists>st sp. map_of (lk_iter ops (lru s)) (the_key q st) = Some sp \<and> st \<le> x \<and> x < st + row_len sp"
      if "off \<le> x" "x < we" for x
      using held [OF that] by (simp add: held_def span_at_def)
    show "off < we" using False by simp
  qed
  with g we assms(4) f False show ?thesis
    by (cases lim; cases "known_end g") (auto simp: lookup_rows_def wanted_end_def case_prod_beta)
qed

text \<open>
  Storing the window of the current result set and asking for it again, or for its
  beginning, is a hit, unless the insertion itself had to evict.
\<close>

lemma insert_then_hit:
  assumes inv: "cache_inv s" and "budget_bytes s \<noteq> 0" and "rows_only q s"
    and snap: "snap = take_snapshot ep q"
    and old: "\<And>g. group_of s q = Some g \<Longrightarrow> epoch_order_of snap g \<noteq> Older"
    and faith: "faithful Q ep R c s" and Q: "Q q"
    and rows: "admits (window (R q) off lim) rows" and len: "length (R q) \<le> u64_max" and "off \<le> length (R q)"
    and t: "t = insert_rows ops enc q snap off lim rows s" and ev: "evictions t = evictions s"
    and nar: "narrower lim' lim"
  shows "\<exists>rs. snd (lookup_rows ops ep q off lim' t) = Hit rs \<and> admits (window (R q) off lim') rs"
proof -
  note i = cache_invD [OF inv]
  have it: "cache_inv t" unfolding t by (rule insert_rows_inv [OF inv])
  have ft: "faithful Q ep R c t" unfolding t
    by (rule insert_rows_faithful [OF inv faith _ len]) (use rows in simp)
  obtain s1 g1 where s1: "reconcile_epochs ops q snap s = (s1, True)" "synced s1" "\<forall>q. layout q s1"
    "group_of s1 q = Some g1" "others_anchored q s1" "index_epoch g1 = es_index snap"
    "user_data_epoch g1 = es_user_data snap" "rows_only q s1" "budget_bytes s1 = budget_bytes s"
    "evictions s1 = evictions s" "faithful Q ep R c s1"
  proof (rule reconcile_cases [OF i(1), of q snap])
    fix g assume "group_of s q = Some g" "epoch_order_of snap g = Older"
    with old show ?thesis by blast
  next
    fix g assume r: "reconcile_epochs ops q snap s = (s, True)" "group_of s q = Some g"
      "index_epoch g = es_index snap" "user_data_epoch g = es_user_data snap"
    have "others_anchored q s" using i(2) by (simp add: anchored_def others_anchored_def)
    with r i assms(3) faith show ?thesis by (intro that [of s g]) simp_all
  next
    fix s1 g1
    assume r: "reconcile_epochs ops q snap s = (s1, True)" "synced s1"
      "group_of s1 = (group_of s)(q \<mapsto> g1)" "known_end g1 = None"
      "index_epoch g1 = es_index snap" "user_data_epoch g1 = es_user_data snap"
      "span_at s1 = (\<lambda>k. if sk_query k = q then None else span_at s k)"
      "budget_bytes s1 = budget_bytes s" "evictions s1 = evictions s"
    have "others_anchored q s1" using i(2) r(3) by (auto simp: anchored_def others_anchored_def)
    moreover have "rows_only q s1" by (simp add: rows_only_def r(7))
    ultimately show ?thesis
      using r reconcile_layout [OF i(5) r(7)] reconcile_faithful [OF faith r(3,4,7)]
      by (intro that [of s1 g1]) simp_all
  qed
  let ?f = "filled q off lim rows s1"
  note f = filled_inv [OF s1(2,4,3,5), of off lim rows]
  have "t = evict_to_budget ops ?f" using s1(1) assms(2) by (simp add: t insert_rows_eq)
  then have tf: "t = ?f" using evict_correct(7) [OF f(1,2)] ev f(5) s1(10) by simp
  have lay: "layout q s1" using s1(3) by blast
  show ?thesis
  proof (rule filled_props [OF s1(2,4) lay refl, of off lim rows])
    fix ps g'
    assume gr: "group_of ?f = (group_of s1)(q \<mapsto> g')"
      and ep: "index_epoch g' = index_epoch g1" "user_data_epoch g' = user_data_epoch g1"
      and known: "known_end g' = (if (case lim of None \<Rightarrow> True | Some l \<Rightarrow> length rows < l)
         then Some (sat_add off (length rows)) else known_end g1)"
      and ps: "\<forall>p \<in> set ps. grid_piece p \<and> off \<le> fst p \<and> snd p \<le> sat_add off (length rows) \<and> fits q s1 p"
        "in_order ps"
      and cov: "\<And>x. off \<le> x \<Longrightarrow> x < sat_add off (length rows) \<Longrightarrow> covers ps x \<or> held q s1 x"
      and at: "\<And>st. span_at ?f (the_key q st) =
       (case map_of ps st of Some b \<Rightarrow> Some (piece_span off rows st b)
        | None \<Rightarrow> if ps = [] \<and> starts g1 = [] \<and> st = off then Some (piece_span off rows off off)
                  else span_at s1 (the_key q st))"
    have gt: "group_of t q = Some g'" using gr tf by simp
    have cur: "is_current ep q g'"
      using ep s1(6,7) snap by (simp add: is_current_def take_snapshot_def)
    have only: "rows_only q t"
      using s1(8) unfolding rows_only_def tf at
      by (auto simp: piece_span_def Let_def split: option.splits if_splits)
    have plen: "row_len (piece_span off rows a b) = b - a" if "(a, b) \<in> set ps" for a b
      using bspec [OF ps(1) that] sat_add_bounds(1) [of off "length rows"]
      by (auto simp: piece_span_def row_len_def Let_def row_slice_def grid_piece_def min_def)
    have dist: "distinct (map fst ps)" using in_order_distinct [OF ps(2)] ps(1) by blast
    have held: "held q t x" if x: "off \<le> x" "x < sat_add off (length rows)" for x
    proof (cases "covers ps x")
      case True
      then obtain a b where ab: "(a, b) \<in> set ps" "a \<le> x" "x < b" by (auto simp: covers_def)
      then have "span_at t (the_key q a) = Some (piece_span off rows a b)"
        using dist by (simp add: tf at map_of_eq_Some_iff)
      with ab plen show ?thesis unfolding held_def by (intro exI conjI) auto
    next
      case False
      then obtain st sp where sp: "span_at s1 (the_key q st) = Some sp" "st \<le> x" "x < st + row_len sp"
        using cov [OF x] unfolding held_def by blast
      have "map_of ps st = None"
      proof (rule ccontr)
        assume "map_of ps st \<noteq> None"
        then obtain b where "(st, b) \<in> set ps" by (auto dest: map_of_SomeD)
        from bspec [OF ps(1) this] have b: "grid_piece (st, b)" "fits q s1 (st, b)" by simp_all
        from b(2) [unfolded fits_def, rule_format, OF sp(1)] have "st + row_len sp \<le> st \<or> b \<le> st" by simp
        with b(1) sp(2,3) show False by (simp add: grid_piece_def)
      qed
      moreover have "starts g1 \<noteq> []" using syncedD(2) [OF s1(2), of "the_key q st"] sp(1) s1(4) by auto
      ultimately have "span_at t (the_key q st) = Some sp" using sp(1) by (simp add: tf at)
      with sp show ?thesis unfolding held_def by blast
    qed
    have true: "true_group (R q) (c q) q g' t" using ft gt cur Q by (simp add: faithful_def)
    obtain we where we: "wanted_end off lim' (known_end g') = Some we" "we \<le> sat_add off (length rows)"
    proof (cases "case lim of None \<Rightarrow> True | Some l \<Rightarrow> length rows < l")
      case True
      with known have "known_end g' = Some (sat_add off (length rows))" by simp
      then show ?thesis
        by (cases lim') (auto simp: wanted_end_def intro: that)
    next
      case False
      then obtain l where "lim = Some l" "l \<le> length rows" by (auto split: option.splits)
      moreover from this nar obtain l' where "lim' = Some l'" "l' \<le> l"
        by (auto simp: narrower_def split: option.splits)
      moreover from calculation have "sat_add off l' \<le> sat_add off (length rows)" by (auto simp: sat_add_def)
      ultimately show ?thesis
        by (cases "known_end g'") (auto simp: wanted_end_def min_le_iff_disj intro: that)
    qed
    have "\<exists>rs. snd (lookup_rows ops ep q off lim' t) = Hit rs"
    proof (rule lookup_rows_hit [OF _ _ only _ gt cur we(1)])
      show "synced t" "layout q t" using it by (simp_all add: cache_inv_def)
      show "budget_bytes t \<noteq> 0" using assms(2) f(3) s1(9) tf by simp
      show "held q t x" if "off \<le> x" "x < we" for x using held that we(2) by simp
    qed
    then obtain rs where rs: "snd (lookup_rows ops ep q off lim' t) = Hit rs" ..
    with lookup_rows_true [OF ft Q len rs] show ?thesis by blast
  qed
qed

end

end
