(* ===== verification/SearchRequests.thy ===== *)
theory SearchRequests
  imports CacheSystem
begin

text \<open>
  The requests that use the result cache (\<open>search_pql\<close> and \<open>execute_results\<close> of
  \<open>panoptikon/src/api/search.rs\<close>), the other operations on the cache, and the system they
  form with the writers: requests read the cache, run their query and store its rows in
  separate steps, with commits and other requests in between.
\<close>

section \<open>A request on its own\<close>

record pagination =
  pg_limit :: nat
  pg_offset :: nat

datatype cache_outcome = OutHit | OutStale | OutMiss | OutBypass | OutDisabled

definition executed_limit :: "pagination option \<Rightarrow> nat \<Rightarrow> nat option" where
  "executed_limit p prefetch = map_option (\<lambda>p. max (pg_limit p) prefetch) p"

definition page_offset :: "pagination option \<Rightarrow> nat" where
  "page_offset p = (case p of None \<Rightarrow> 0 | Some p \<Rightarrow> pg_offset p)"

definition page_len :: "pagination option \<Rightarrow> 'r list \<Rightarrow> nat" where
  "page_len p mapped = (case p of None \<Rightarrow> length mapped | Some p \<Rightarrow> min (pg_limit p) (length mapped))"

text \<open>
  \<open>run\<close> executes the compiled query at an offset with a limit and maps its rows, or fails.
\<close>

definition execute_results ::
  "('r, 'l) span_ops \<Rightarrow> ('r list \<Rightarrow> nat) \<Rightarrow> (nat \<Rightarrow> nat option \<Rightarrow> 'e + 'r list) \<Rightarrow>
     pagination option \<Rightarrow> nat \<Rightarrow> (query_key \<times> epoch_snapshot) option \<Rightarrow> 'l cache_state \<Rightarrow>
     'l cache_state \<times> ('e + 'r list \<times> nat)" where
  "execute_results ops enc run p prefetch_rows cache_target s =
     (let prefetch = (if cache_target = None then 0 else prefetch_rows);
          lim = executed_limit p prefetch
      in case run (page_offset p) lim of
           Inl e \<Rightarrow> (s, Inl e)
         | Inr mapped \<Rightarrow>
             (let n = page_len p mapped;
                  prefetched = length mapped - n;
                  s' = (case cache_target of
                          None \<Rightarrow> s
                        | Some (key, snap) \<Rightarrow> insert_rows ops enc key snap (page_offset p) lim mapped s)
              in (s', Inr (take n mapped, prefetched))))"

definition search_results ::
  "('r, 'l) span_ops \<Rightarrow> ('r list \<Rightarrow> nat) \<Rightarrow> epoch_counters \<Rightarrow> (nat \<Rightarrow> nat option \<Rightarrow> 'e + 'r list) \<Rightarrow>
     query_key \<Rightarrow> pagination option \<Rightarrow> nat \<Rightarrow> 'l cache_state \<Rightarrow>
     'l cache_state \<times> ('e + 'r list \<times> cache_outcome \<times> nat)" where
  "search_results ops enc ep run key p prefetch_rows s =
     (let snap = take_snapshot ep key in
      case lookup_rows ops ep key (page_offset p) (map_option pg_limit p) s of
        (s1, Hit cached) \<Rightarrow> (s1, Inr (cached, OutHit, 0))
      | (s1, other) \<Rightarrow>
          (case execute_results ops enc run p prefetch_rows (Some (key, snap)) s1 of
             (s2, Inl e) \<Rightarrow> (s2, Inl e)
           | (s2, Inr (page, prefetched)) \<Rightarrow>
               (s2, Inr (page, if other = Stale then OutStale else OutMiss, prefetched))))"

definition search_count ::
  "('r, 'l) span_ops \<Rightarrow> ('r list \<Rightarrow> nat) \<Rightarrow> epoch_counters \<Rightarrow> ('e + int) \<Rightarrow>
     query_key \<Rightarrow> 'l cache_state \<Rightarrow> 'l cache_state \<times> ('e + int \<times> cache_outcome)" where
  "search_count ops enc ep run key s =
     (let snap = take_snapshot ep key in
      case lookup_count ops ep key s of
        (s1, Hit n) \<Rightarrow> (s1, Inr (n, OutHit))
      | (s1, other) \<Rightarrow>
          (case run of
             Inl e \<Rightarrow> (s1, Inl e)
           | Inr n \<Rightarrow> (insert_count ops enc key snap n s1,
               Inr (n, if other = Stale then OutStale else OutMiss))))"

text \<open>Without the cache, \<open>execute_results\<close> runs with no prefetch and stores nothing.\<close>

definition search_uncached ::
  "('r, 'l) span_ops \<Rightarrow> ('r list \<Rightarrow> nat) \<Rightarrow> (nat \<Rightarrow> nat option \<Rightarrow> 'e + 'r list) \<Rightarrow>
     bool \<Rightarrow> pagination option \<Rightarrow> 'l cache_state \<Rightarrow> 'l cache_state \<times> ('e + 'r list \<times> cache_outcome \<times> nat)" where
  "search_uncached ops enc run cache_available p s =
     (case execute_results ops enc run p 0 None s of
        (s1, Inl e) \<Rightarrow> (s1, Inl e)
      | (s1, Inr (page, _)) \<Rightarrow> (s1, Inr (page, if cache_available then OutBypass else OutDisabled, 0)))"

section \<open>Requests in flight\<close>

datatype 'r request =
  Asked query_key epoch_snapshot "pagination option"
| Executing query_key epoch_snapshot "pagination option"
| Fetched query_key epoch_snapshot "pagination option" "'r list"
| CountAsked query_key epoch_snapshot
| Counting query_key epoch_snapshot
| Counted query_key epoch_snapshot int

text \<open>
  The world: the cache, the epochs, what the databases currently hold (for every query the rows
  each position of its result may show, and the count), and the requests in flight.  A database
  announces a write only after its commit: the index writer bumps the epoch after the transaction,
  a user-data connection when it is released.  \<open>sw_index_pending\<close> counts the commits of an index
  database that are not announced, \<open>sw_user_pending\<close> the open connections that committed to a
  user-data database.
\<close>

record ('r, 'l) search_world =
  sw_cache :: "'l cache_state"
  sw_epochs :: epoch_counters
  sw_results :: "query_key \<Rightarrow> 'r set list"
  sw_counts :: "query_key \<Rightarrow> int"
  sw_index_pending :: "string \<Rightarrow> nat"
  sw_user_pending :: "string \<Rightarrow> nat"
  sw_requests :: "'r request list"

definition set_request :: "nat \<Rightarrow> 'r request \<Rightarrow> ('r, 'l) search_world \<Rightarrow> ('r, 'l) search_world" where
  "set_request i r w = w\<lparr>sw_requests := (sw_requests w)[i := r]\<rparr>"

definition end_request :: "nat \<Rightarrow> ('r, 'l) search_world \<Rightarrow> ('r, 'l) search_world" where
  "end_request i w = w\<lparr>sw_requests := take i (sw_requests w) @ drop (Suc i) (sw_requests w)\<rparr>"

text \<open>Every commit to the databases of the query has bumped its epoch.\<close>

definition announced :: "('r, 'l) search_world \<Rightarrow> query_key \<Rightarrow> bool" where
  "announced w q \<longleftrightarrow> sw_index_pending w (qk_index_db q) = 0 \<and>
     (case qk_user_data_db q of None \<Rightarrow> True | Some n \<Rightarrow> sw_user_pending w n = 0)"

text \<open>A commit changes the results of the queries over its own database only.\<close>

definition only_changes ::
  "(query_key \<Rightarrow> bool) \<Rightarrow> (query_key \<Rightarrow> 'r set list) \<Rightarrow> (query_key \<Rightarrow> int) \<Rightarrow> ('r, 'l) search_world \<Rightarrow> bool" where
  "only_changes P R c w \<longleftrightarrow>
     (\<forall>q. \<not> P q \<longrightarrow> R q = sw_results w q \<and> c q = sw_counts w q) \<and> (\<forall>q. length (R q) \<le> u64_max)"

definition answered_rows :: "('r, 'l) span_ops \<Rightarrow> query_key \<Rightarrow> pagination option \<Rightarrow> ('r, 'l) search_world \<Rightarrow>
    'l cache_state \<times> 'r list cache_lookup" where
  "answered_rows ops q p w =
     lookup_rows ops (sw_epochs w) q (page_offset p) (map_option pg_limit p) (sw_cache w)"

inductive search_step ::
  "('r, 'l) span_ops \<Rightarrow> ('r list \<Rightarrow> nat) \<Rightarrow> nat \<Rightarrow> ('r, 'l) search_world \<Rightarrow> ('r, 'l) search_world \<Rightarrow> bool"
  for ops enc prefetch where
  commit_index: "only_changes (\<lambda>q. qk_index_db q = n) R c w \<Longrightarrow>
    search_step ops enc prefetch w (w\<lparr>sw_results := R, sw_counts := c,
      sw_index_pending := (sw_index_pending w)(n := sw_index_pending w n + 1)\<rparr>)"
| announce_index: "0 < sw_index_pending w n \<Longrightarrow> index_epochs (sw_epochs w) n < u64_max \<Longrightarrow>
    search_step ops enc prefetch w (w\<lparr>sw_epochs := bump_index_epoch n (sw_epochs w),
      sw_index_pending := (sw_index_pending w)(n := sw_index_pending w n - 1)\<rparr>)"
| commit_user: "only_changes (\<lambda>q. qk_user_data_db q = Some n) R c w \<Longrightarrow>
    search_step ops enc prefetch w (w\<lparr>sw_results := R, sw_counts := c,
      sw_user_pending := (sw_user_pending w)(n := sw_user_pending w n + 1)\<rparr>)"
| commit_again: "only_changes (\<lambda>q. qk_user_data_db q = Some n) R c w \<Longrightarrow> 0 < sw_user_pending w n \<Longrightarrow>
    search_step ops enc prefetch w (w\<lparr>sw_results := R, sw_counts := c\<rparr>)"
| release_user: "0 < sw_user_pending w n \<Longrightarrow> user_epochs (sw_epochs w) n < u64_max \<Longrightarrow>
    search_step ops enc prefetch w (w\<lparr>sw_epochs := bump_user_data_epoch n (sw_epochs w),
      sw_user_pending := (sw_user_pending w)(n := sw_user_pending w n - 1)\<rparr>)"
| release_clean: "user_epochs (sw_epochs w) n < u64_max \<Longrightarrow>
    search_step ops enc prefetch w (w\<lparr>sw_epochs := bump_user_data_epoch n (sw_epochs w)\<rparr>)"
| ask: "search_step ops enc prefetch w
      (w\<lparr>sw_requests := sw_requests w @ [Asked q (take_snapshot (sw_epochs w) q) p]\<rparr>)"
| ask_count: "search_step ops enc prefetch w
      (w\<lparr>sw_requests := sw_requests w @ [CountAsked q (take_snapshot (sw_epochs w) q)]\<rparr>)"
| look: "i < length (sw_requests w) \<Longrightarrow> sw_requests w ! i = Asked q snap p \<Longrightarrow>
    answered_rows ops q p w = (s, r) \<Longrightarrow>
    search_step ops enc prefetch w
      (case r of Hit _ \<Rightarrow> end_request i (w\<lparr>sw_cache := s\<rparr>)
       | _ \<Rightarrow> set_request i (Executing q snap p) (w\<lparr>sw_cache := s\<rparr>))"
| look_count: "i < length (sw_requests w) \<Longrightarrow> sw_requests w ! i = CountAsked q snap \<Longrightarrow>
    lookup_count ops (sw_epochs w) q (sw_cache w) = (s, r) \<Longrightarrow>
    search_step ops enc prefetch w
      (case r of Hit _ \<Rightarrow> end_request i (w\<lparr>sw_cache := s\<rparr>)
       | _ \<Rightarrow> set_request i (Counting q snap) (w\<lparr>sw_cache := s\<rparr>))"
| execute: "i < length (sw_requests w) \<Longrightarrow> sw_requests w ! i = Executing q snap p \<Longrightarrow>
    admits (window (sw_results w q) (page_offset p) (executed_limit p prefetch)) rows \<Longrightarrow>
    search_step ops enc prefetch w (set_request i (Fetched q snap p rows) w)"
| execute_count: "i < length (sw_requests w) \<Longrightarrow> sw_requests w ! i = Counting q snap \<Longrightarrow>
    search_step ops enc prefetch w (set_request i (Counted q snap (sw_counts w q)) w)"
| store: "i < length (sw_requests w) \<Longrightarrow> sw_requests w ! i = Fetched q snap p rows \<Longrightarrow>
    search_step ops enc prefetch w
      (end_request i (w\<lparr>sw_cache :=
         insert_rows ops enc q snap (page_offset p) (executed_limit p prefetch) rows (sw_cache w)\<rparr>))"
| store_count: "i < length (sw_requests w) \<Longrightarrow> sw_requests w ! i = Counted q snap n \<Longrightarrow>
    search_step ops enc prefetch w
      (end_request i (w\<lparr>sw_cache := insert_count ops enc q snap n (sw_cache w)\<rparr>))"
| abandon: "i < length (sw_requests w) \<Longrightarrow> search_step ops enc prefetch w (end_request i w)"
| clear: "search_step ops enc prefetch w (w\<lparr>sw_cache := clear_cache ops idb udb (sw_cache w)\<rparr>)"
| resize: "resize_result_cache ops mb (sw_cache w) = Inr s \<Longrightarrow>
    search_step ops enc prefetch w (w\<lparr>sw_cache := s\<rparr>)"
| set_ceiling: "search_step ops enc prefetch w (w\<lparr>sw_cache := set_budget_limit_mb ops mb (sw_cache w)\<rparr>)"

definition initial_world ::
  "('r, 'l) span_ops \<Rightarrow> (query_key \<Rightarrow> 'r set list) \<Rightarrow> (query_key \<Rightarrow> int) \<Rightarrow> ('r, 'l) search_world" where
  "initial_world ops R c =
     \<lparr>sw_cache = init_cache ops, sw_epochs = zero_epochs, sw_results = R, sw_counts = c,
      sw_index_pending = (\<lambda>_. 0), sw_user_pending = (\<lambda>_. 0), sw_requests = []\<rparr>"

text \<open>The worlds that the startup and any interleaving of the steps can reach.\<close>

inductive search_reachable ::
  "('r, 'l) span_ops \<Rightarrow> ('r list \<Rightarrow> nat) \<Rightarrow> nat \<Rightarrow> ('r, 'l) search_world \<Rightarrow> bool"
  for ops enc prefetch where
  startup: "\<forall>q. length (R q) \<le> u64_max \<Longrightarrow> search_reachable ops enc prefetch (initial_world ops R c)"
| step: "search_reachable ops enc prefetch w \<Longrightarrow> search_step ops enc prefetch w w' \<Longrightarrow>
    search_reachable ops enc prefetch w'"

end
