(* ===== verification/SearchReach.thy ===== *)
theory SearchReach
  imports SearchRequests
begin

text \<open>
  The invariant of the interleaved system: the cache invariant, current groups hold rows of
  the present result sets, no stamp is ahead of the live epochs, and a request whose
  snapshot is still current carries rows the database holds, for every query whose databases
  announced all their commits.
\<close>

definition stamp_le :: "epoch_counters \<Rightarrow> query_key \<Rightarrow> nat \<Rightarrow> nat option \<Rightarrow> bool" where
  "stamp_le ep q i u \<longleftrightarrow>
     i \<le> index_epochs ep (qk_index_db q) \<and>
     (case (u, qk_user_data_db q) of
        (Some a, Some n) \<Rightarrow> a \<le> user_epochs ep n
      | (None, None) \<Rightarrow> True
      | _ \<Rightarrow> False)"

lemma stamp_le_current: "snap = take_snapshot ep q \<Longrightarrow> stamp_le ep q (es_index snap) (es_user_data snap)"
  by (auto simp: stamp_le_def take_snapshot_def split: option.split)

text \<open>Epochs only grow, until they reach the end of \<open>u64\<close>.\<close>

definition epochs_le :: "epoch_counters \<Rightarrow> epoch_counters \<Rightarrow> bool" where
  "epochs_le a b \<longleftrightarrow> (\<forall>n. index_epochs a n \<le> index_epochs b n) \<and> (\<forall>n. user_epochs a n \<le> user_epochs b n)"

lemma bump_index: "index_epochs ep n < u64_max \<Longrightarrow>
    index_epochs (bump_index_epoch n ep) = (index_epochs ep)(n := Suc (index_epochs ep n)) \<and>
    user_epochs (bump_index_epoch n ep) = user_epochs ep"
  by (simp add: bump_index_epoch_def u64_max_def)

lemma bump_user: "user_epochs ep n < u64_max \<Longrightarrow>
    user_epochs (bump_user_data_epoch n ep) = (user_epochs ep)(n := Suc (user_epochs ep n)) \<and>
    index_epochs (bump_user_data_epoch n ep) = index_epochs ep"
  by (simp add: bump_user_data_epoch_def u64_max_def)

lemma stamp_le_mono: "stamp_le a q i u \<Longrightarrow> epochs_le a b \<Longrightarrow> stamp_le b q i u"
  unfolding stamp_le_def epochs_le_def by (auto split: option.splits intro: order_trans)

text \<open>After a commit, a stamp from before it is current only for queries it does not touch.\<close>

lemma stale_after_index:
  assumes "index_epochs ep n < u64_max" and "stamp_le ep q i u"
    and "i = index_epochs (bump_index_epoch n ep) (qk_index_db q)"
  shows "qk_index_db q \<noteq> n"
  using assms bump_index [OF assms(1)] by (auto simp: stamp_le_def)

lemma stale_after_user:
  assumes "user_epochs ep n < u64_max" and "stamp_le ep q i u"
    and "u = map_option (user_epochs (bump_user_data_epoch n ep)) (qk_user_data_db q)"
  shows "qk_user_data_db q \<noteq> Some n"
  using assms bump_user [OF assms(1)] by (auto simp: stamp_le_def)

lemma announced_iff:
  "announced w q \<longleftrightarrow> sw_index_pending w (qk_index_db q) = 0 \<and> (\<forall>n. qk_user_data_db q = Some n \<longrightarrow> sw_user_pending w n = 0)"
  by (auto simp: announced_def split: option.split)

lemma announced_update [simp]:
  "announced (w\<lparr>sw_cache := s\<rparr>) = announced w" "announced (w\<lparr>sw_requests := rs\<rparr>) = announced w"
  by (simp_all add: announced_iff fun_eq_iff)

definition request_ok ::
  "(query_key \<Rightarrow> bool) \<Rightarrow> epoch_counters \<Rightarrow> (query_key \<Rightarrow> 'r set list) \<Rightarrow> (query_key \<Rightarrow> int) \<Rightarrow> nat \<Rightarrow> 'r request \<Rightarrow> bool" where
  "request_ok Q ep R c prefetch r \<longleftrightarrow>
     (case r of
        Asked q snap _ \<Rightarrow> stamp_le ep q (es_index snap) (es_user_data snap)
      | Executing q snap _ \<Rightarrow> stamp_le ep q (es_index snap) (es_user_data snap)
      | Fetched q snap p rows \<Rightarrow> stamp_le ep q (es_index snap) (es_user_data snap) \<and>
          (Q q \<longrightarrow> snap = take_snapshot ep q \<longrightarrow> admits (window (R q) (page_offset p) (executed_limit p prefetch)) rows)
      | CountAsked q snap \<Rightarrow> stamp_le ep q (es_index snap) (es_user_data snap)
      | Counting q snap \<Rightarrow> stamp_le ep q (es_index snap) (es_user_data snap)
      | Counted q snap n \<Rightarrow> stamp_le ep q (es_index snap) (es_user_data snap) \<and>
          (Q q \<longrightarrow> snap = take_snapshot ep q \<longrightarrow> n = c q))"

lemma request_ok_change:
  assumes "request_ok Q ep R c prefetch r" and "epochs_le ep ep'"
    and "\<And>q snap. stamp_le ep q (es_index snap) (es_user_data snap) \<Longrightarrow> snap = take_snapshot ep' q \<Longrightarrow> Q' q \<Longrightarrow>
      snap = take_snapshot ep q \<and> Q q \<and> R' q = R q \<and> c' q = c q"
  shows "request_ok Q' ep' R' c' prefetch r"
proof -
  have up: "stamp_le ep' q i u" if "stamp_le ep q i u" for q i u
    using stamp_le_mono [OF that assms(2)] .
  show ?thesis
  proof (cases r)
    case (Fetched q snap p rows)
    with assms(1) have f: "stamp_le ep q (es_index snap) (es_user_data snap)"
      "Q q \<longrightarrow> snap = take_snapshot ep q \<longrightarrow> admits (window (R q) (page_offset p) (executed_limit p prefetch)) rows"
      by (simp_all add: request_ok_def)
    have "admits (window (R' q) (page_offset p) (executed_limit p prefetch)) rows" if "Q' q" "snap = take_snapshot ep' q"
      using assms(3) [OF f(1) that(2,1)] f(2) by simp
    with up [OF f(1)] Fetched show ?thesis by (simp add: request_ok_def)
  next
    case (Counted q snap n)
    with assms(1) have f: "stamp_le ep q (es_index snap) (es_user_data snap)"
      "Q q \<longrightarrow> snap = take_snapshot ep q \<longrightarrow> n = c q"
      by (simp_all add: request_ok_def)
    have "n = c' q" if "Q' q" "snap = take_snapshot ep' q"
      using assms(3) [OF f(1) that(2,1)] f(2) by simp
    with up [OF f(1)] Counted show ?thesis by (simp add: request_ok_def)
  qed (use assms(1) up in \<open>simp_all add: request_ok_def\<close>)
qed

context span_cache
begin

section \<open>Stamps\<close>

definition stamped :: "epoch_counters \<Rightarrow> 'l cache_state \<Rightarrow> bool" where
  "stamped ep s \<longleftrightarrow> (\<forall>q g. group_of s q = Some g \<longrightarrow> stamp_le ep q (index_epoch g) (user_data_epoch g))"

lemma stamped_sub: "stamped ep s \<Longrightarrow> subcache s t \<Longrightarrow> stamped ep t"
  unfolding stamped_def subcache_def by metis

lemma stamped_update:
  "stamped ep s \<Longrightarrow> group_of t = (group_of s)(q \<mapsto> g) \<Longrightarrow>
   stamp_le ep q (index_epoch g) (user_data_epoch g) \<Longrightarrow> stamped ep t"
  unfolding stamped_def by auto

lemma stamped_fields [simp]:
  "stamped ep (s\<lparr>lru := l\<rparr>) = stamped ep s" "stamped ep (s\<lparr>hits := n\<rparr>) = stamped ep s"
  "stamped ep (s\<lparr>misses := n\<rparr>) = stamped ep s" "stamped ep (s\<lparr>stale_hits := n\<rparr>) = stamped ep s"
  "stamped ep (s\<lparr>budget_bytes := n\<rparr>) = stamped ep s" "stamped ep (s\<lparr>limit_bytes := n\<rparr>) = stamped ep s"
  by (simp_all add: stamped_def)

lemma insert_rows_stamped:
  assumes "cache_inv s" and "stamped ep s" and "stamp_le ep q (es_index snap) (es_user_data snap)"
  shows "stamped ep (insert_rows ops enc q snap off lim rows s)"
proof (cases "budget_bytes s = 0")
  case True
  with assms show ?thesis by (simp add: insert_rows_eq)
next
  case False
  note i = cache_invD [OF assms(1)]
  show ?thesis
  proof (rule reconcile_cases [OF i(1), of q snap])
    fix g assume "reconcile_epochs ops q snap s = (s, False)"
    with assms False show ?thesis by (simp add: insert_rows_eq)
  next
    fix g assume r: "reconcile_epochs ops q snap s = (s, True)" "group_of s q = Some g"
    have l: "layout q s" using i(5) by blast
    have other: "others_anchored q s" using i(2) by (simp add: anchored_def others_anchored_def)
    note f = filled_inv [OF i(1) r(2) i(5) other, of off lim rows]
    have "stamped ep (filled q off lim rows s)"
    proof (rule filled_props [OF i(1) r(2) l refl, of off lim rows])
      fix g' assume "group_of (filled q off lim rows s) = (group_of s)(q \<mapsto> g')"
        "index_epoch g' = index_epoch g" "user_data_epoch g' = user_data_epoch g"
      with r(2) assms(2) show ?thesis by (intro stamped_update [OF assms(2)]) (auto simp: stamped_def)
    qed
    then have "stamped ep (evict_to_budget ops (filled q off lim rows s))"
      using evict_correct(3) [OF f(1,2)] by (rule stamped_sub)
    with r(1) False show ?thesis by (simp add: insert_rows_eq)
  next
    fix s1 g1
    assume r: "reconcile_epochs ops q snap s = (s1, True)" "synced s1"
      "group_of s1 = (group_of s)(q \<mapsto> g1)"
      "index_epoch g1 = es_index snap" "user_data_epoch g1 = es_user_data snap"
      "span_at s1 = (\<lambda>k. if sk_query k = q then None else span_at s k)"
    have lay: "\<forall>q. layout q s1" by (rule reconcile_layout [OF i(5) r(6)])
    have g: "group_of s1 q = Some g1" using r(3) by simp
    have other: "others_anchored q s1" using i(2) r(3) by (auto simp: anchored_def others_anchored_def)
    have l: "layout q s1" using lay by blast
    have st1: "stamped ep s1" by (rule stamped_update [OF assms(2) r(3)]) (simp add: r(4,5) assms(3))
    note f = filled_inv [OF r(2) g lay other, of off lim rows]
    have "stamped ep (filled q off lim rows s1)"
    proof (rule filled_props [OF r(2) g l refl, of off lim rows])
      fix g' assume "group_of (filled q off lim rows s1) = (group_of s1)(q \<mapsto> g')"
        "index_epoch g' = index_epoch g1" "user_data_epoch g' = user_data_epoch g1"
      with r(4,5) assms(3) show ?thesis by (intro stamped_update [OF st1]) auto
    qed
    then have "stamped ep (evict_to_budget ops (filled q off lim rows s1))"
      using evict_correct(3) [OF f(1,2)] by (rule stamped_sub)
    with r(1) False show ?thesis by (simp add: insert_rows_eq)
  qed
qed

lemma insert_count_stamped:
  assumes "cache_inv s" and "stamped ep s" and "stamp_le ep q (es_index snap) (es_user_data snap)"
  shows "stamped ep (insert_count ops enc q snap n s)"
proof (cases "budget_bytes s = 0")
  case True
  with assms show ?thesis by (simp add: insert_count_def)
next
  case False
  note i = cache_invD [OF assms(1)]
  have stored: "stamped ep (evict_to_budget ops (store_span ops enc (the_key q 0) (Count n) t))"
    if t: "synced t" "group_of t q = Some g" "\<forall>q. layout q t" "others_anchored q t" "stamped ep t" for t g
  proof -
    have gk: "group_of t (sk_query (the_key q 0)) = Some g" using t(2) by simp
    have "stamp_le ep q (index_epoch g) (user_data_epoch g)" using t(2,5) by (simp add: stamped_def)
    then have "stamped ep (store_span ops enc (the_key q 0) (Count n) t)"
      by (intro stamped_update [OF t(5) store_span_at(2) [OF gk, simplified]]) simp
    then show ?thesis
      by (rule stamped_sub) (rule evict_correct(3) [OF count_store(1,2) [OF t(1-4)]])
  qed
  show ?thesis
  proof (rule reconcile_cases [OF i(1), of q snap])
    fix g assume "reconcile_epochs ops q snap s = (s, False)"
    with assms False show ?thesis by (simp add: insert_count_def)
  next
    fix g assume r: "reconcile_epochs ops q snap s = (s, True)" "group_of s q = Some g"
    have "others_anchored q s" using i(2) by (simp add: anchored_def others_anchored_def)
    from stored [OF i(1) r(2) i(5) this assms(2)] r(1) False show ?thesis by (simp add: insert_count_def)
  next
    fix s1 g1
    assume r: "reconcile_epochs ops q snap s = (s1, True)" "synced s1"
      "group_of s1 = (group_of s)(q \<mapsto> g1)"
      "index_epoch g1 = es_index snap" "user_data_epoch g1 = es_user_data snap"
      "span_at s1 = (\<lambda>k. if sk_query k = q then None else span_at s k)"
    have lay: "\<forall>q. layout q s1" by (rule reconcile_layout [OF i(5) r(6)])
    have g: "group_of s1 q = Some g1" using r(3) by simp
    have other: "others_anchored q s1" using i(2) r(3) by (auto simp: anchored_def others_anchored_def)
    have "stamped ep s1" by (rule stamped_update [OF assms(2) r(3)]) (simp add: r(4,5) assms(3))
    from stored [OF r(2) g lay other this] r(1) False show ?thesis by (simp add: insert_count_def)
  qed
qed

section \<open>Budget and clearing\<close>

lemma wipe_at [simp]: "group_of (wipe ops s) = (\<lambda>_. None)" "span_at (wipe ops s) = (\<lambda>_. None)"
  by (simp_all add: wipe_def group_of_def span_at_def iter_empty fun_eq_iff)

lemma wipe_inv: "budget_bytes s \<le> limit_bytes s \<Longrightarrow> cache_inv (wipe ops s)"
  by (auto simp: cache_inv_def synced_def anchored_def layout_def)
    (simp_all add: wipe_def span_total_def group_total_def iter_empty)

lemma wipe_sub: "subcache s (wipe ops s)"
  by (simp add: subcache_def)

lemma set_budget_inv: "cache_inv s \<Longrightarrow> cache_inv (set_budget_mb ops mb s) \<and> subcache s (set_budget_mb ops mb s)"
proof -
  assume inv: "cache_inv s"
  note i = cache_invD [OF inv]
  let ?s1 = "s\<lparr>budget_bytes := min (sat_mul mb (1024 * 1024)) (limit_bytes s)\<rparr>"
  have s1: "synced ?s1" "anchored ?s1" "\<forall>q. layout q ?s1" "budget_bytes ?s1 \<le> limit_bytes ?s1"
    using i by (simp_all add: layout_def)
  show ?thesis
  proof (cases "budget_bytes ?s1 = 0")
    case True
    then have "set_budget_mb ops mb s = wipe ops ?s1" by (simp add: set_budget_mb_def Let_def)
    then show ?thesis using wipe_inv [OF s1(4)] wipe_sub [of ?s1] by (simp only: subcache_fields)
  next
    case False
    then have "set_budget_mb ops mb s = evict_to_budget ops ?s1"
      unfolding set_budget_mb_def Let_def by (simp only: if_False)
    then show ?thesis using evict_inv [OF s1] evict_correct(3) [OF s1(1,2)] by (simp only: subcache_fields)
  qed
qed

lemma set_limit_inv:
  "cache_inv s \<Longrightarrow> cache_inv (set_budget_limit_mb ops mb s) \<and> subcache s (set_budget_limit_mb ops mb s)"
proof -
  assume inv: "cache_inv s"
  note i = cache_invD [OF inv]
  let ?l = "sat_mul mb (1024 * 1024)"
  let ?s1 = "s\<lparr>limit_bytes := ?l, budget_bytes := ?l\<rparr>"
  have s1: "synced ?s1" "anchored ?s1" "\<forall>q. layout q ?s1" "budget_bytes ?s1 \<le> limit_bytes ?s1"
    using i by (simp_all add: layout_def)
  have "cache_inv (s\<lparr>limit_bytes := ?l\<rparr>)" if "\<not> budget_bytes s > ?l"
    using i that by (simp add: cache_inv_def layout_def)
  moreover have "subcache s (s\<lparr>limit_bytes := ?l\<rparr>)" by simp
  ultimately show ?thesis
    using evict_inv [OF s1] evict_correct(3) [OF s1(1,2)]
    unfolding set_budget_limit_mb_def Let_def by simp
qed

lemma remove_spans_shrink: "used_bytes (remove_spans ops q sts s) \<le> used_bytes s"
proof (induction sts arbitrary: s)
  case Nil
  then show ?case by simp
next
  case (Cons st sts)
  show ?case
    by (auto simp: case_prod_beta split: option.split intro: order_trans [OF Cons.IH])
qed

lemma drop_group_shrink: "used_bytes (drop_group ops q s) \<le> used_bytes s"
proof -
  have "used_bytes (clear_group_spans ops q s) \<le> used_bytes s"
  proof (cases "group_of s q")
    case (Some g)
    then show ?thesis
      using remove_spans_shrink [of q "starts g" "set_group q (g\<lparr>starts := [], known_end := None\<rparr>) s"]
      by (simp add: clear_group_spans_def)
  qed (simp add: clear_group_spans_def)
  then show ?thesis by (auto simp: drop_group_def Let_def intro: order_trans [OF diff_le_self] split: option.split)
qed

lemma drop_group_inv: "cache_inv s \<Longrightarrow> cache_inv (drop_group ops q s) \<and> subcache s (drop_group ops q s)"
proof -
  assume inv: "cache_inv s"
  note i = cache_invD [OF inv] and d = drop_group_at [OF i(1), of q]
  have sub: "subcache s (drop_group ops q s)" unfolding subcache_def d(2,3) by auto
  have used: "used_bytes (drop_group ops q s) \<le> used_bytes s"
    by (rule drop_group_shrink)
  show ?thesis
    using sub used d i layout_subcache [OF sub] by (simp add: cache_inv_def anchored_def)
qed

lemma clear_inv: "cache_inv s \<Longrightarrow> cache_inv (clear_cache ops idb udb s) \<and> subcache s (clear_cache ops idb udb s)"
proof -
  assume inv: "cache_inv s"
  have fold: "cache_inv (foldl (\<lambda>t q. drop_group ops q t) t qs) \<and> subcache t (foldl (\<lambda>t q. drop_group ops q t) t qs)"
    if "cache_inv t" for t and qs :: "query_key list"
    using that
  proof (induction qs arbitrary: t)
    case Nil
    then show ?case by simp
  next
    case (Cons q qs)
    with drop_group_inv [of t q] Cons.IH [of "drop_group ops q t"] show ?case
      by (auto intro: subcache_trans)
  qed
  show ?thesis
    using fold [OF inv] wipe_inv [of s] wipe_sub [of s] cache_invD(4) [OF inv]
    by (simp add: clear_cache_def)
qed

section \<open>The system\<close>

definition world_inv :: "nat \<Rightarrow> ('r, 'l) search_world \<Rightarrow> bool" where
  "world_inv prefetch w \<longleftrightarrow>
     cache_inv (sw_cache w) \<and>
     faithful (announced w) (sw_epochs w) (sw_results w) (sw_counts w) (sw_cache w) \<and>
     stamped (sw_epochs w) (sw_cache w) \<and>
     (\<forall>q. length (sw_results w q) \<le> u64_max) \<and>
     (\<forall>r \<in> set (sw_requests w). request_ok (announced w) (sw_epochs w) (sw_results w) (sw_counts w) prefetch r)"

lemma world_invD:
  assumes "world_inv prefetch w"
  shows "cache_inv (sw_cache w)" "faithful (announced w) (sw_epochs w) (sw_results w) (sw_counts w) (sw_cache w)"
    "stamped (sw_epochs w) (sw_cache w)" "length (sw_results w q) \<le> u64_max"
    "r \<in> set (sw_requests w) \<Longrightarrow> request_ok (announced w) (sw_epochs w) (sw_results w) (sw_counts w) prefetch r"
  using assms by (simp_all add: world_inv_def)

text \<open>The three ways a step changes the world: the cache, the requests, or the data.\<close>

lemma world_cache:
  assumes "world_inv prefetch w" and "cache_inv s" and "stamped (sw_epochs w) s"
    and "faithful (announced w) (sw_epochs w) (sw_results w) (sw_counts w) s"
  shows "world_inv prefetch (w\<lparr>sw_cache := s\<rparr>)"
  using assms by (simp add: world_inv_def)

lemma world_sub:
  assumes "world_inv prefetch w" and "cache_inv s \<and> subcache (sw_cache w) s"
  shows "world_inv prefetch (w\<lparr>sw_cache := s\<rparr>)"
  using assms world_invD [OF assms(1)] stamped_sub faithful_sub by (intro world_cache) blast+

lemma world_set_request:
  "world_inv prefetch w \<Longrightarrow> request_ok (announced w) (sw_epochs w) (sw_results w) (sw_counts w) prefetch r \<Longrightarrow>
   world_inv prefetch (set_request i r w)"
  unfolding world_inv_def set_request_def by (auto dest!: set_update_subset_insert [THEN subsetD])

lemma world_end_request: "world_inv prefetch w \<Longrightarrow> world_inv prefetch (end_request i w)"
  unfolding world_inv_def end_request_def by (auto dest: in_set_takeD in_set_dropD)

lemma world_change:
  assumes inv: "world_inv prefetch w" and le: "epochs_le (sw_epochs w) (sw_epochs w')"
    and rest: "sw_cache w' = sw_cache w" "sw_requests w' = sw_requests w"
    and same: "\<And>q i u. stamp_le (sw_epochs w) q i u \<Longrightarrow> i = index_epochs (sw_epochs w') (qk_index_db q) \<Longrightarrow>
      u = map_option (user_epochs (sw_epochs w')) (qk_user_data_db q) \<Longrightarrow> announced w' q \<Longrightarrow>
      i = index_epochs (sw_epochs w) (qk_index_db q) \<and>
      u = map_option (user_epochs (sw_epochs w)) (qk_user_data_db q) \<and> announced w q \<and>
      sw_results w' q = sw_results w q \<and> sw_counts w' q = sw_counts w q"
    and len: "\<forall>q. length (sw_results w' q) \<le> u64_max"
  shows "world_inv prefetch w'"
proof -
  note i = world_invD [OF inv]
  have "stamped (sw_epochs w') (sw_cache w)" using i(3) stamp_le_mono [OF _ le] by (simp add: stamped_def)
  moreover have "faithful (announced w') (sw_epochs w') (sw_results w') (sw_counts w') (sw_cache w)"
    unfolding faithful_def
  proof (intro allI impI)
    fix q g assume Q: "announced w' q" and g: "group_of (sw_cache w) q = Some g" "is_current (sw_epochs w') q g"
    have "stamp_le (sw_epochs w) q (index_epoch g) (user_data_epoch g)"
      using i(3) g(1) by (simp add: stamped_def)
    from same [OF this _ _ Q] g(2) have eq: "is_current (sw_epochs w) q g" "announced w q"
      "sw_results w' q = sw_results w q" "sw_counts w' q = sw_counts w q"
      by (simp_all add: is_current_def)
    with i(2) g(1) show "true_group (sw_results w' q) (sw_counts w' q) q g (sw_cache w)" by (simp add: faithful_def)
  qed
  moreover have "request_ok (announced w') (sw_epochs w') (sw_results w') (sw_counts w') prefetch r"
    if "r \<in> set (sw_requests w)" for r
  proof (rule request_ok_change [OF i(5) [OF that] le])
    fix q snap
    assume "stamp_le (sw_epochs w) q (es_index snap) (es_user_data snap)" "snap = take_snapshot (sw_epochs w') q"
      "announced w' q"
    from same [OF this(1) _ _ this(3)] this(2)
    show "snap = take_snapshot (sw_epochs w) q \<and> announced w q \<and>
        sw_results w' q = sw_results w q \<and> sw_counts w' q = sw_counts w q"
      by (simp add: take_snapshot_def)
  qed
  ultimately show ?thesis using i(1) len rest by (simp add: world_inv_def)
qed

lemma epochs_le_refl [simp]: "epochs_le ep ep"
  by (simp add: epochs_le_def)

lemma lookup_keeps_groups:
  "groups (fst (lookup_rows ops ep q off lim s)) = groups s"
  "groups (fst (lookup_count ops ep q s)) = groups s"
  by (auto simp: lookup_rows_def lookup_count_def case_prod_beta split: option.split span_value.split)

lemma lookup_world:
  assumes "world_inv prefetch w"
  shows "world_inv prefetch (w\<lparr>sw_cache := fst (lookup_rows ops ep q off lim (sw_cache w))\<rparr>)"
    and "world_inv prefetch (w\<lparr>sw_cache := fst (lookup_count ops ep q (sw_cache w))\<rparr>)"
  using assms world_invD [OF assms]
  by (auto intro!: world_cache simp: lookup_rows_keeps lookup_count_keeps)
    (simp_all add: stamped_def group_of_def lookup_keeps_groups)

lemma step_world:
  assumes "search_step ops enc prefetch w w'" and inv: "world_inv prefetch w"
  shows "world_inv prefetch w'"
proof -
  note i = world_invD [OF inv]
  have ok: "request_ok (announced w) (sw_epochs w) (sw_results w) (sw_counts w) prefetch (sw_requests w ! j)"
    if "j < length (sw_requests w)" for j
    using that by (intro i(5) nth_mem)
  have look_rows: "world_inv prefetch (w\<lparr>sw_cache := s\<rparr>)"
    if "answered_rows ops q p w = (s, r)" for q p s r
    using lookup_world(1) [OF inv, of "sw_epochs w" q "page_offset p" "map_option pg_limit p"] that
    by (simp add: answered_rows_def)
  have look_cnt: "world_inv prefetch (w\<lparr>sw_cache := s\<rparr>)"
    if "lookup_count ops (sw_epochs w) q (sw_cache w) = (s, r)" for q s r
    using lookup_world(2) [OF inv, of "sw_epochs w" q] that by simp
  from assms(1) show ?thesis
  proof cases
    case (commit_index n R c)
    show ?thesis unfolding commit_index(1)
      by (rule world_change [OF inv]) (use commit_index(2) in \<open>auto simp: only_changes_def announced_iff split: if_splits\<close>)
  next
    case (announce_index n)
    let ?w = "(w\<lparr>sw_epochs := bump_index_epoch n (sw_epochs w),
        sw_index_pending := (sw_index_pending w)(n := sw_index_pending w n - 1)\<rparr>)"
    note bump = bump_index [OF announce_index(3)]
    have same: "i = index_epochs (sw_epochs w) (qk_index_db q) \<and>
        u = map_option (user_epochs (sw_epochs w)) (qk_user_data_db q) \<and> announced w q"
      if st: "stamp_le (sw_epochs w) q i u" and e: "i = index_epochs (sw_epochs ?w) (qk_index_db q)"
        "u = map_option (user_epochs (sw_epochs ?w)) (qk_user_data_db q)" and an: "announced ?w q" for q i u
    proof -
      have "qk_index_db q \<noteq> n" using stale_after_index [OF announce_index(3) st] e by simp
      then show ?thesis using e an bump by (cases "qk_user_data_db q") (auto simp: announced_iff)
    qed
    have "epochs_le (sw_epochs w) (sw_epochs ?w)" using bump by (simp add: epochs_le_def)
    from world_change [OF inv this] same i(4) show ?thesis unfolding announce_index(1) by simp
  next
    case (commit_user n R c)
    show ?thesis unfolding commit_user(1)
      by (rule world_change [OF inv]) (use commit_user(2) in \<open>auto simp: only_changes_def announced_iff split: if_splits\<close>)
  next
    case (commit_again n R c)
    show ?thesis unfolding commit_again(1)
      by (rule world_change [OF inv]) (use commit_again(2,3) in \<open>auto simp: only_changes_def announced_iff split: if_splits\<close>)
  next
    case (release_user n)
    let ?w = "(w\<lparr>sw_epochs := bump_user_data_epoch n (sw_epochs w),
        sw_user_pending := (sw_user_pending w)(n := sw_user_pending w n - 1)\<rparr>)"
    note bump = bump_user [OF release_user(3)]
    have same: "i = index_epochs (sw_epochs w) (qk_index_db q) \<and>
        u = map_option (user_epochs (sw_epochs w)) (qk_user_data_db q) \<and> announced w q"
      if st: "stamp_le (sw_epochs w) q i u" and e: "i = index_epochs (sw_epochs ?w) (qk_index_db q)"
        "u = map_option (user_epochs (sw_epochs ?w)) (qk_user_data_db q)" and an: "announced ?w q" for q i u
    proof -
      have "qk_user_data_db q \<noteq> Some n" using stale_after_user [OF release_user(3) st] e by simp
      then show ?thesis using e an bump by (cases "qk_user_data_db q") (auto simp: announced_iff)
    qed
    have "epochs_le (sw_epochs w) (sw_epochs ?w)" using bump by (simp add: epochs_le_def)
    from world_change [OF inv this] same i(4) show ?thesis unfolding release_user(1) by simp
  next
    case (release_clean n)
    let ?w = "(w\<lparr>sw_epochs := bump_user_data_epoch n (sw_epochs w)\<rparr>)"
    note bump = bump_user [OF release_clean(2)]
    have same: "i = index_epochs (sw_epochs w) (qk_index_db q) \<and>
        u = map_option (user_epochs (sw_epochs w)) (qk_user_data_db q) \<and> announced w q"
      if st: "stamp_le (sw_epochs w) q i u" and e: "i = index_epochs (sw_epochs ?w) (qk_index_db q)"
        "u = map_option (user_epochs (sw_epochs ?w)) (qk_user_data_db q)" and an: "announced ?w q" for q i u
    proof -
      have "qk_user_data_db q \<noteq> Some n" using stale_after_user [OF release_clean(2) st] e by simp
      then show ?thesis using e an bump by (cases "qk_user_data_db q") (auto simp: announced_iff)
    qed
    have "epochs_le (sw_epochs w) (sw_epochs ?w)" using bump by (simp add: epochs_le_def)
    from world_change [OF inv this] same i(4) show ?thesis unfolding release_clean(1) by simp
  next
    case (ask q p)
    then show ?thesis using inv by (auto simp: world_inv_def request_ok_def stamp_le_current)
  next
    case (ask_count q)
    then show ?thesis using inv by (auto simp: world_inv_def request_ok_def stamp_le_current)
  next
    case (look j q snap p s r)
    have "request_ok (announced w) (sw_epochs w) (sw_results w) (sw_counts w) prefetch (Executing q snap p)"
      using ok [OF look(2)] look(3) by (simp add: request_ok_def)
    with look_rows [OF look(4)] show ?thesis unfolding look(1)
      by (cases r) (simp_all add: world_end_request world_set_request)
  next
    case (look_count j q snap s r)
    have "request_ok (announced w) (sw_epochs w) (sw_results w) (sw_counts w) prefetch (Counting q snap)"
      using ok [OF look_count(2)] look_count(3) by (simp add: request_ok_def)
    with look_cnt [OF look_count(4)] show ?thesis unfolding look_count(1)
      by (cases r) (simp_all add: world_end_request world_set_request)
  next
    case (execute j q snap p rows)
    with ok [OF execute(2)] show ?thesis
      by (auto intro!: world_set_request [OF inv] simp: request_ok_def)
  next
    case (execute_count j q snap)
    with ok [OF execute_count(2)] show ?thesis
      by (auto intro!: world_set_request [OF inv] simp: request_ok_def)
  next
    case (store j q snap p rows)
    from ok [OF store(2)] store(3) have r: "stamp_le (sw_epochs w) q (es_index snap) (es_user_data snap)"
      "announced w q \<longrightarrow> snap = take_snapshot (sw_epochs w) q \<longrightarrow>
        admits (window (sw_results w q) (page_offset p) (executed_limit p prefetch)) rows"
      by (simp_all add: request_ok_def)
    have "world_inv prefetch (w\<lparr>sw_cache :=
        insert_rows ops enc q snap (page_offset p) (executed_limit p prefetch) rows (sw_cache w)\<rparr>)"
      by (intro world_cache [OF inv] insert_rows_inv insert_rows_stamped insert_rows_faithful i r(1))
        (use r(2) in simp)
    then show ?thesis unfolding store(1) by (rule world_end_request)
  next
    case (store_count j q snap n)
    from ok [OF store_count(2)] store_count(3) have r: "stamp_le (sw_epochs w) q (es_index snap) (es_user_data snap)"
      "announced w q \<longrightarrow> snap = take_snapshot (sw_epochs w) q \<longrightarrow> n = sw_counts w q"
      by (simp_all add: request_ok_def)
    have "world_inv prefetch (w\<lparr>sw_cache := insert_count ops enc q snap n (sw_cache w)\<rparr>)"
      by (intro world_cache [OF inv] insert_count_inv insert_count_stamped insert_count_faithful i r(1))
        (use r(2) in simp)
    then show ?thesis unfolding store_count(1) by (rule world_end_request)
  next
    case (abandon j)
    then show ?thesis using world_end_request [OF inv] by simp
  next
    case (clear idb udb)
    then show ?thesis using world_sub [OF inv clear_inv [OF i(1)]] by simp
  next
    case (resize mb s)
    then have "s = set_budget_mb ops mb (sw_cache w)" by (simp add: resize_result_cache_def split: if_splits)
    then show ?thesis using world_sub [OF inv set_budget_inv [OF i(1)]] resize(1) by simp
  next
    case (set_ceiling mb)
    then show ?thesis using world_sub [OF inv set_limit_inv [OF i(1)]] by simp
  qed
qed

lemma init_inv: "cache_inv (init_cache ops)"
  by (auto simp: cache_inv_def synced_def anchored_def layout_def init_cache_def span_at_def group_of_def iter_empty
      span_total_def group_total_def)

lemma reachable_world: "search_reachable ops enc prefetch w \<Longrightarrow> world_inv prefetch w"
proof (induction rule: search_reachable.induct)
  case (startup R c)
  then show ?case
    using init_inv by (simp add: world_inv_def initial_world_def faithful_def stamped_def init_cache_def group_of_def)
next
  case (step w w')
  then show ?case using step_world by blast
qed

end

end
