(* ===== verification/SearchStats.thy ===== *)
theory SearchStats
  imports SearchReach "HOL-Library.List_Lexorder" "HOL-Library.Char_ord" "HOL-Library.Option_ord"
    "HOL-Library.Product_Lexorder"
begin

text \<open>
  The statistics page of the result cache (\<open>stats\<close> in
  \<open>panoptikon/src/api/search_cache.rs\<close>) and its agreement with the cache's account.
\<close>

record search_cache_db_group =
  dg_index_db :: string
  dg_user_data_db :: "string option"
  dg_index_epoch :: nat
  dg_user_data_epoch :: "nat option"
  dg_entries :: nat
  dg_bytes :: nat
  dg_stale_entries :: nat

record search_cache_entry_info =
  ei_sql :: string
  ei_kind :: string
  ei_start :: "nat option"
  ei_end :: "nat option"
  ei_rows :: "nat option"
  ei_bytes :: nat
  ei_valid :: bool

record search_cache_stats =
  st_entries :: nat
  st_used_bytes :: nat
  st_capacity_bytes :: nat
  st_hits :: nat
  st_misses :: nat
  st_stale_hits :: nat
  st_evictions :: nat
  st_databases :: "search_cache_db_group list"
  st_page :: nat
  st_page_size :: nat
  st_cached :: "search_cache_entry_info list"

definition entry_sql_preview_chars :: nat where "entry_sql_preview_chars = 200"

definition db_pair :: "query_key \<Rightarrow> string \<times> string option" where
  "db_pair q = (qk_index_db q, qk_user_data_db q)"

definition group_stat_bytes :: "('r, 'l) span_ops \<Rightarrow> 'l cache_state \<Rightarrow> query_key \<Rightarrow> group_index \<Rightarrow> nat" where
  "group_stat_bytes ops s q g =
     g_bytes g +
     sum_list (map (\<lambda>st. case lk_peek ops (the_key q st) (lru s) of None \<Rightarrow> 0 | Some sp \<Rightarrow> sp_bytes sp) (starts g))"

text \<open>The entry of one pair of databases: its groups, added up.\<close>

definition db_stat ::
  "('r, 'l) span_ops \<Rightarrow> epoch_counters \<Rightarrow> 'l cache_state \<Rightarrow> string \<times> string option \<Rightarrow> search_cache_db_group" where
  "db_stat ops ep s db =
     (let mine = filter (\<lambda>(q, g). db_pair q = db) (groups s) in
      \<lparr>dg_index_db = fst db, dg_user_data_db = snd db,
       dg_index_epoch = index_epochs ep (fst db),
       dg_user_data_epoch = map_option (user_epochs ep) (snd db),
       dg_entries = sum_list (map (\<lambda>(q, g). length (starts g)) mine),
       dg_bytes = sum_list (map (\<lambda>(q, g). group_stat_bytes ops s q g) mine),
       dg_stale_entries = sum_list (map (\<lambda>(q, g). if is_current ep q g then 0 else length (starts g)) mine)\<rparr>)"

text \<open>
  The source collects the entries in a hash map and sorts them by database names; the
  names are the hash map's keys.
\<close>

definition db_stats :: "('r, 'l) span_ops \<Rightarrow> epoch_counters \<Rightarrow> 'l cache_state \<Rightarrow> search_cache_db_group list" where
  "db_stats ops ep s = map (db_stat ops ep s) (sort (remdups (map (db_pair \<circ> fst) (groups s))))"

definition entry_info ::
  "epoch_counters \<Rightarrow> 'l cache_state \<Rightarrow> span_key \<times> 'r span \<Rightarrow> search_cache_entry_info" where
  "entry_info ep s e =
     (case e of (k, sp) \<Rightarrow>
       \<lparr>ei_sql = take entry_sql_preview_chars (qk_sql (sk_query k)),
        ei_kind = (case sp_value sp of Rows _ \<Rightarrow> ''results'' | Count _ \<Rightarrow> ''count''),
        ei_start = (case sp_value sp of Rows _ \<Rightarrow> Some (sk_start k) | Count _ \<Rightarrow> None),
        ei_end = (case sp_value sp of Rows _ \<Rightarrow> Some (sk_start k + row_len sp) | Count _ \<Rightarrow> None),
        ei_rows = (case sp_value sp of Rows rows \<Rightarrow> Some (length rows) | Count _ \<Rightarrow> None),
        ei_bytes = sp_bytes sp,
        ei_valid = (case group_of s (sk_query k) of None \<Rightarrow> False | Some g \<Rightarrow> is_current ep (sk_query k) g)\<rparr>)"

definition cache_stats ::
  "('r, 'l) span_ops \<Rightarrow> epoch_counters \<Rightarrow> nat \<Rightarrow> nat \<Rightarrow> 'l cache_state \<Rightarrow> search_cache_stats" where
  "cache_stats ops ep page page_size s =
     (let cached = rev (map (entry_info ep s) (lk_iter ops (lru s)));
          page = max page 1;
          page_size = max page_size 1;
          start = sat_mul (page - 1) page_size
      in \<lparr>st_entries = lk_len ops (lru s), st_used_bytes = used_bytes s, st_capacity_bytes = budget_bytes s,
          st_hits = hits s, st_misses = misses s, st_stale_hits = stale_hits s, st_evictions = evictions s,
          st_databases = db_stats ops ep s, st_page = page, st_page_size = page_size,
          st_cached = take page_size (drop start cached)\<rparr>)"

section \<open>The sums agree\<close>

text \<open>Grouping a sum by a key does not change it.\<close>

lemma sum_by_key:
  fixes f :: "'a \<Rightarrow> nat"
  assumes "distinct ks" and "h ` set xs \<subseteq> set ks"
  shows "sum_list (map (\<lambda>k. sum_list (map f (filter (\<lambda>x. h x = k) xs))) ks) = sum_list (map f xs)"
  using assms(2)
proof (induction xs)
  case Nil
  then show ?case by simp
next
  case (Cons x xs)
  have one: "sum_list (map (\<lambda>k. if h x = k then f x else 0) ks) = f x"
    using Cons.prems assms(1) by (simp add: sum_list_distinct_conv_sum_set)
  have "(\<lambda>k. sum_list (map f (filter (\<lambda>x. h x = k) (x # xs)))) =
      (\<lambda>k. (if h x = k then f x else 0) + sum_list (map f (filter (\<lambda>x. h x = k) xs)))"
    by auto
  then show ?case using Cons one by (simp add: sum_list_addf)
qed

lemma db_stats_sum:
  "sum_list (map dg_bytes (db_stats ops ep s)) = sum_list (map (\<lambda>(q, g). group_stat_bytes ops s q g) (groups s))"
  "sum_list (map dg_entries (db_stats ops ep s)) = sum_list (map (\<lambda>(q, g). length (starts g)) (groups s))"
  using sum_by_key [of "sort (remdups (map (db_pair \<circ> fst) (groups s)))" "db_pair \<circ> fst" "groups s"]
  by (simp_all add: db_stats_def db_stat_def Let_def comp_def case_prod_unfold image_image)

text \<open>The spans of all groups are the spans of the LRU.\<close>

context span_cache
begin

lemma spans_of_groups:
  assumes "synced s"
  shows "set (map fst (lk_iter ops (lru s))) = set (concat (map (\<lambda>(q, g). map (the_key q) (starts g)) (groups s)))"
    and "distinct (concat (map (\<lambda>(q, g). map (the_key q) (starts g)) (groups s)))"
proof -
  note d = syncedD [OF assms]
  have grp: "(q, g) \<in> set (groups s) \<longleftrightarrow> group_of s q = Some g" for q g
    using d(1) by (simp add: group_of_def map_of_eq_Some_iff)
  show "set (map fst (lk_iter ops (lru s))) =
      set (concat (map (\<lambda>(q, g). map (the_key q) (starts g)) (groups s)))"
  proof (intro set_eqI)
    fix k
    have "k \<in> set (map fst (lk_iter ops (lru s))) \<longleftrightarrow> span_at s k \<noteq> None"
      by (simp add: span_at_def map_of_eq_None_iff)
    also have "\<dots> \<longleftrightarrow> (\<exists>g. (sk_query k, g) \<in> set (groups s) \<and> sk_start k \<in> set (starts g))"
      unfolding d(2) grp ..
    also have "\<dots> \<longleftrightarrow> (\<exists>(q, g) \<in> set (groups s). \<exists>st \<in> set (starts g). k = the_key q st)"
    proof
      assume "\<exists>g. (sk_query k, g) \<in> set (groups s) \<and> sk_start k \<in> set (starts g)"
      then obtain g where g: "(sk_query k, g) \<in> set (groups s)" "sk_start k \<in> set (starts g)" by blast
      moreover have "k = the_key (sk_query k) (sk_start k)" by (rule the_key_surj)
      ultimately show "\<exists>(q, g) \<in> set (groups s). \<exists>st \<in> set (starts g). k = the_key q st" by blast
    qed auto
    also have "\<dots> \<longleftrightarrow> k \<in> set (concat (map (\<lambda>(q, g). map (the_key q) (starts g)) (groups s)))"
      by (auto simp: case_prod_unfold)
    finally show "k \<in> set (map fst (lk_iter ops (lru s))) \<longleftrightarrow>
        k \<in> set (concat (map (\<lambda>(q, g). map (the_key q) (starts g)) (groups s)))" .
  qed
  have dist: "distinct (concat (map (\<lambda>(q, g). map (the_key q) (starts g)) gs))"
    if "distinct (map fst gs)" "\<And>q g. (q, g) \<in> set gs \<Longrightarrow> distinct (starts g)" for gs :: "(query_key \<times> group_index) list"
    using that
  proof (induction gs)
    case Nil
    then show ?case by simp
  next
    case (Cons e gs)
    obtain q g where e: "e = (q, g)" by (cases e)
    have "distinct (starts g)" by (rule Cons.prems(2) [of q g]) (simp add: e)
    moreover have "distinct (concat (map (\<lambda>(q, g). map (the_key q) (starts g)) gs))"
    proof (rule Cons.IH)
      show "distinct (map fst gs)" using Cons.prems(1) by simp
      show "distinct (starts g)" if "(q, g) \<in> set gs" for q g
        by (rule Cons.prems(2) [of q g]) (simp add: that)
    qed
    moreover have "q \<notin> fst ` set gs" using Cons.prems(1) e by simp
    ultimately show ?case
      by (auto simp: e distinct_map inj_on_def image_iff split: prod.splits)
  qed
  show "distinct (concat (map (\<lambda>(q, g). map (the_key q) (starts g)) (groups s)))"
    using dist [OF d(1)] d(3) by (simp add: grp strict_sorted_iff)
qed

lemma group_sums:
  assumes "synced s"
  shows "sum_list (map (\<lambda>(q, g). length (starts g)) (groups s)) = lk_len ops (lru s)"
    and "sum_list (map (\<lambda>(q, g). group_stat_bytes ops s q g) (groups s)) = used_bytes s"
proof -
  let ?ks = "concat (map (\<lambda>(q, g). map (the_key q) (starts g)) (groups s))"
  note sp = spans_of_groups [OF assms]
  let ?b = "\<lambda>k. case lk_peek ops k (lru s) of None \<Rightarrow> 0 | Some sp \<Rightarrow> sp_bytes sp"
  have "length ?ks = length (map fst (lk_iter ops (lru s)))"
    using sp distinct_card [OF sp(2)] distinct_card [OF iter_distinct, of "lru s"] by simp
  then show "sum_list (map (\<lambda>(q, g). length (starts g)) (groups s)) = lk_len ops (lru s)"
    by (simp add: length_concat len_iter comp_def case_prod_unfold)
  have "sum_list (map ?b ?ks) = sum ?b (set ?ks)" using sp(2) by (simp add: sum_list_distinct_conv_sum_set)
  also have "\<dots> = sum ?b (set (map fst (lk_iter ops (lru s))))" using sp(1) by simp
  also have "\<dots> = sum_list (map ?b (map fst (lk_iter ops (lru s))))"
    using iter_distinct by (simp only: sum_list_distinct_conv_sum_set)
  also have "\<dots> = span_total s"
    unfolding span_total_def map_map
    by (rule arg_cong [where f = sum_list], rule map_cong [OF refl])
      (auto simp: peek_iter map_of_is_SomeI iter_distinct)
  finally have tot: "sum_list (map ?b ?ks) = span_total s" .
  have cat: "sum_list (map ?b (concat (map (\<lambda>(q, g). map (the_key q) (starts g)) gs))) =
      sum_list (map (\<lambda>(q, g). sum_list (map (\<lambda>st. ?b (the_key q st)) (starts g))) gs)"
    for gs :: "(query_key \<times> group_index) list"
    by (induction gs) (auto simp: comp_def)
  have "sum_list (map (\<lambda>(q, g). group_stat_bytes ops s q g) (groups s)) = group_total s + span_total s"
    using tot unfolding cat group_total_def group_stat_bytes_def
    by (simp add: case_prod_unfold sum_list_addf comp_def)
  then show "sum_list (map (\<lambda>(q, g). group_stat_bytes ops s q g) (groups s)) = used_bytes s"
    using syncedD(6) [OF assms] by simp
qed

end

end
