(* ===== verification/SearchProps.thy ===== *)
theory SearchProps
  imports SearchStats
begin

text \<open>
  The properties of the search result cache, stated over the model of the code alone: the
  LRU map is any one that keeps the contract of \<open>lru_map\<close>, and the witnesses run the code on
  the reference map.
\<close>

interpretation listed_cache: span_cache list_ops enc for enc :: "'r list \<Rightarrow> nat"
  by unfold_locales

lemma span_cacheI: "lru_map ops \<Longrightarrow> span_cache ops"
  by (rule span_cache.intro)

section \<open>A concrete run\<close>

text \<open>
  One database, one user database, five rows; a request for two rows from the second on,
  executed with a prefetch of three rows and stored.
\<close>

definition demo_query :: query_key where
  "demo_query = \<lparr>qk_index_db = ''i'', qk_user_data_db = Some ''u'', qk_sql = ''s'', qk_params = ''p''\<rparr>"

definition demo_snap :: epoch_snapshot where
  "demo_snap = \<lparr>es_index = 0, es_user_data = Some 0\<rparr>"

definition demo_page :: "pagination option" where
  "demo_page = Some \<lparr>pg_limit = 2, pg_offset = 1\<rparr>"

definition demo_rows :: "nat list" where
  "demo_rows = [10, 11, 12, 13, 14]"

type_synonym demo_lru = "(span_key, nat span) alist"

definition demo_start :: "(nat, demo_lru) search_world" where
  "demo_start = initial_world list_ops (\<lambda>_. total_order demo_rows) (\<lambda>_. 5)"

definition demo_open :: "(nat, demo_lru) search_world" where
  "demo_open = demo_start\<lparr>sw_cache := set_budget_mb list_ops 1 (init_cache list_ops)\<rparr>"

definition demo_missed :: "(nat, demo_lru) search_world" where
  "demo_missed = demo_open\<lparr>sw_cache := (sw_cache demo_open)\<lparr>misses := 1\<rparr>\<rparr>"

definition demo_world :: "(nat, demo_lru) search_world" where
  "demo_world = demo_missed\<lparr>sw_cache :=
     insert_rows list_ops length demo_query demo_snap 1 (Some 3) [11, 12, 13] (sw_cache demo_missed)\<rparr>"

definition demo_counted :: "(nat, demo_lru) search_world" where
  "demo_counted = demo_missed\<lparr>sw_cache :=
     insert_count list_ops length demo_query demo_snap 5 (sw_cache demo_missed)\<rparr>"

lemmas list_ops_simps = list_ops_def empty.rep_eq lookup.rep_eq impl_of_back delete.rep_eq map_entry.rep_eq

lemmas demo_defs = demo_query_def demo_snap_def demo_page_def demo_rows_def demo_start_def demo_open_def
  initial_world_def zero_epochs_def page_offset_def answered_rows_def

lemmas cache_run = init_cache_def set_budget_mb_def wipe_def evict_to_budget_def insert_rows_def
  reconcile_epochs_def new_group_def set_group_def group_of_def key_bytes_def group_overhead_bytes_def
  span_overhead_bytes_def occupied_ranges_def last_up_to_def range_from_def store_span_def value_bytes_def
  add_start_def the_key_def row_slice_def lookup_rows_def is_current_def map_filter_simps grid_split.simps
  u64_max_def sat_add_def sat_mul_def span_rows_def row_len_def lookup_count_def insert_count_def
  epoch_order_of_def

lemma demo_open_reachable: "search_reachable list_ops length 3 demo_open"
proof -
  have "search_reachable list_ops length 3 demo_start"
    unfolding demo_start_def by (rule startup) (simp add: demo_rows_def total_order_def u64_max_def)
  moreover have "search_step list_ops length 3 demo_start demo_open"
    unfolding demo_open_def
    by (rule resize [of list_ops 1])
      (simp add: resize_result_cache_def budget_limit_mb_def demo_start_def initial_world_def init_cache_def u64_max_def)
  ultimately show ?thesis by (rule step)
qed

lemma demo_requests: "sw_requests demo_open = []" "sw_requests demo_missed = []"
  by (simp_all add: demo_open_def demo_missed_def demo_start_def initial_world_def)

lemma demo_snapshot: "take_snapshot (sw_epochs demo_open) demo_query = demo_snap"
  by (simp add: demo_defs take_snapshot_def)

lemma demo_look: "answered_rows list_ops demo_query demo_page demo_open = (sw_cache demo_missed, Miss)"
  by (simp add: demo_missed_def demo_defs cache_run list_ops_simps)

lemma demo_look_count:
  "lookup_count list_ops (sw_epochs demo_open) demo_query (sw_cache demo_open) = (sw_cache demo_missed, Miss)"
  by (simp add: demo_missed_def demo_defs cache_run list_ops_simps)

lemma demo_window: "admits (window (sw_results demo_open demo_query) (page_offset demo_page) (executed_limit demo_page 3))
    [11, 12, 13]"
  by (simp add: demo_defs) (simp add: executed_limit_def window_def)

lemma demo_announced:
  "announced demo_open q" "announced demo_missed q" "announced demo_world q" "announced demo_counted q"
  by (simp_all add: announced_iff demo_world_def demo_counted_def demo_missed_def demo_open_def demo_start_def initial_world_def)

lemmas demo_steps = search_reachable.step [of list_ops "length :: nat list \<Rightarrow> nat" 3]

text \<open>The request of the run: ask, miss, execute, store.\<close>

lemma demo_world_reachable: "search_reachable list_ops length 3 demo_world"
proof -
  let ?w1 = "demo_open\<lparr>sw_requests := [Asked demo_query demo_snap demo_page]\<rparr>"
  let ?w2 = "demo_missed\<lparr>sw_requests := [Executing demo_query demo_snap demo_page]\<rparr>"
  let ?w3 = "demo_missed\<lparr>sw_requests := [Fetched demo_query demo_snap demo_page [11, 12, 13]]\<rparr>"
  have 1: "search_step list_ops length 3 demo_open ?w1"
    using ask [of list_ops length 3 demo_open demo_query demo_page] by (simp add: demo_requests demo_snapshot)
  have 2: "search_step list_ops length 3 ?w1 ?w2"
    using look [of 0 ?w1 demo_query demo_snap demo_page list_ops "sw_cache demo_missed" Miss length 3] demo_look
    by (simp add: answered_rows_def set_request_def demo_missed_def)
  have 3: "search_step list_ops length 3 ?w2 ?w3"
    using execute [of 0 ?w2 demo_query demo_snap demo_page 3 "[11, 12, 13]" list_ops length] demo_window
    by (simp add: set_request_def demo_missed_def)
  have 4: "search_step list_ops length 3 ?w3 demo_world"
    using store [of 0 ?w3 demo_query demo_snap demo_page "[11, 12, 13]" list_ops length 3]
    by (simp add: end_request_def demo_world_def demo_page_def page_offset_def executed_limit_def)
      (simp add: demo_missed_def demo_open_def demo_start_def initial_world_def)
  show ?thesis by (rule demo_steps [OF demo_steps [OF demo_steps [OF demo_steps [OF demo_open_reachable 1] 2] 3] 4])
qed

lemma demo_counted_reachable: "search_reachable list_ops length 3 demo_counted"
proof -
  let ?w1 = "demo_open\<lparr>sw_requests := [CountAsked demo_query demo_snap]\<rparr>"
  let ?w2 = "demo_missed\<lparr>sw_requests := [Counting demo_query demo_snap]\<rparr>"
  let ?w3 = "demo_missed\<lparr>sw_requests := [Counted demo_query demo_snap 5]\<rparr>"
  have 1: "search_step list_ops length 3 demo_open ?w1"
    using ask_count [of list_ops length 3 demo_open demo_query] by (simp add: demo_requests demo_snapshot)
  have 2: "search_step list_ops length 3 ?w1 ?w2"
    using look_count [of 0 ?w1 demo_query demo_snap list_ops "sw_cache demo_missed" Miss length 3] demo_look_count
    by (simp add: set_request_def demo_missed_def)
  have 3: "search_step list_ops length 3 ?w2 ?w3"
    using execute_count [of 0 ?w2 demo_query demo_snap list_ops length 3]
    by (simp add: set_request_def demo_missed_def demo_open_def demo_start_def initial_world_def)
  have 4: "search_step list_ops length 3 ?w3 demo_counted"
    using store_count [of 0 ?w3 demo_query demo_snap 5 list_ops length 3]
    by (simp add: end_request_def demo_counted_def)
      (simp add: demo_missed_def demo_open_def demo_start_def initial_world_def)
  show ?thesis by (rule demo_steps [OF demo_steps [OF demo_steps [OF demo_steps [OF demo_open_reachable 1] 2] 3] 4])
qed

lemma demo_hit: "snd (answered_rows list_ops demo_query demo_page demo_world) = Hit [11, 12]"
  by (simp add: demo_world_def demo_missed_def demo_defs cache_run list_ops_simps)

lemma demo_count_hit:
  "snd (lookup_count list_ops (sw_epochs demo_counted) demo_query (sw_cache demo_counted)) = Hit 5"
  by (simp add: demo_counted_def demo_missed_def demo_defs cache_run list_ops_simps)

section \<open>Soundness\<close>

text \<open>
  C1.  A page answered from the result cache holds, position by position, rows that the query shows
  there at that moment, as many as the window has, in every interleaving of requests, commits,
  announcements, clears and resizes, once every commit to the databases of the query was announced;
  and when the order of the query is total, the page is the window of its result: no outdated,
  missing, repeated or misplaced row.
\<close>

theorem cached_rows_are_current:
  assumes "lru_map ops" and "search_reachable ops enc prefetch w" and "announced w q"
    and "answered_rows ops q p w = (s, Hit rows)"
  shows "admits (window (sw_results w q) (page_offset p) (map_option pg_limit p)) rows \<and>
    (\<forall>R. sw_results w q = total_order R \<longrightarrow> rows = window R (page_offset p) (map_option pg_limit p))"
proof -
  have sc: "span_cache ops" using assms(1) by (rule span_cacheI)
  note inv = span_cache.reachable_world [OF sc assms(2)]
  have "admits (window (sw_results w q) (page_offset p) (map_option pg_limit p)) rows"
    by (rule span_cache.lookup_rows_true [OF sc span_cache.world_invD(2) [OF sc inv] assms(3) span_cache.world_invD(4) [OF sc inv]])
      (use assms(4) in \<open>simp add: answered_rows_def\<close>)
  then show ?thesis by auto
qed

theorem cached_rows_are_current_witness: "[11, 12] = window demo_rows 1 (Some 2)"
proof -
  obtain s where "answered_rows list_ops demo_query demo_page demo_world = (s, Hit [11, 12])"
    using demo_hit by (metis prod.collapse)
  from cached_rows_are_current [OF listed.lru_map_axioms demo_world_reachable demo_announced(3) this]
  have "sw_results demo_world demo_query = total_order demo_rows \<longrightarrow>
      [11, 12] = window demo_rows (page_offset demo_page) (map_option pg_limit demo_page)" by blast
  moreover have "sw_results demo_world demo_query = total_order demo_rows"
    by (simp add: demo_world_def demo_missed_def demo_open_def demo_start_def initial_world_def)
  ultimately show ?thesis by (simp add: demo_page_def page_offset_def)
qed

text \<open>Between a commit and its announcement the page from before the commit is still served.\<close>

lemma page_before_announcement:
  "\<exists>(w :: (nat, demo_lru) search_world) s. search_reachable list_ops length 3 w \<and> sw_results w demo_query = [] \<and> \<not> announced w demo_query \<and>
     answered_rows list_ops demo_query demo_page w = (s, Hit [11, 12])"
proof -
  let ?R = "\<lambda>q. if qk_index_db q = ''i'' then [] else sw_results demo_world q"
  let ?c = "\<lambda>q. if qk_index_db q = ''i'' then 0 else sw_counts demo_world q"
  let ?w = "demo_world\<lparr>sw_results := ?R, sw_counts := ?c,
    sw_index_pending := (sw_index_pending demo_world)(''i'' := sw_index_pending demo_world ''i'' + 1)\<rparr>"
  have "only_changes (\<lambda>q. qk_index_db q = ''i'') ?R ?c demo_world"
    by (simp add: only_changes_def demo_world_def demo_missed_def demo_open_def demo_start_def initial_world_def
        demo_rows_def total_order_def u64_max_def)
  then have "search_step list_ops length 3 demo_world ?w" by (rule commit_index)
  then have "search_reachable list_ops length 3 ?w" by (rule step [OF demo_world_reachable])
  moreover obtain s where "answered_rows list_ops demo_query demo_page demo_world = (s, Hit [11, 12])"
    using demo_hit by (metis prod.collapse)
  ultimately show ?thesis
    by (intro exI [of _ ?w] exI [of _ s]) (simp add: answered_rows_def announced_iff demo_query_def)
qed

text \<open>
  A cached count is the number the database returns at that moment, once every commit was announced.
\<close>

theorem cached_count_is_current:
  assumes "lru_map ops" and "search_reachable ops enc prefetch w" and "announced w q"
    and "snd (lookup_count ops (sw_epochs w) q (sw_cache w)) = Hit n"
  shows "n = sw_counts w q"
proof -
  have sc: "span_cache ops" using assms(1) by (rule span_cacheI)
  note inv = span_cache.reachable_world [OF sc assms(2)]
  show ?thesis
    by (rule span_cache.lookup_count_true [OF sc span_cache.world_invD(2) [OF sc inv] assms(3,4)])
qed

theorem cached_count_is_current_witness: "sw_counts demo_counted demo_query = 5"
  using cached_count_is_current [OF listed.lru_map_axioms demo_counted_reachable demo_announced(4) demo_count_hit] by simp

text \<open>
  C24.  The byte account of the cache is exact and within the budget, and the LRU and the
  group index hold the same spans.
\<close>

theorem cache_account_exact:
  assumes "lru_map ops" and "search_reachable ops enc prefetch w"
  shows "used_bytes (sw_cache w) =
      sum_list (map (sp_bytes \<circ> snd) (lk_iter ops (lru (sw_cache w)))) +
      sum_list (map (g_bytes \<circ> snd) (groups (sw_cache w))) \<and>
    used_bytes (sw_cache w) \<le> budget_bytes (sw_cache w) \<and>
    budget_bytes (sw_cache w) \<le> limit_bytes (sw_cache w) \<and>
    (\<forall>k. lk_peek ops k (lru (sw_cache w)) \<noteq> None \<longleftrightarrow>
      (\<exists>g. group_of (sw_cache w) (sk_query k) = Some g \<and> sk_start k \<in> set (starts g)))"
proof -
  have sc: "span_cache ops" using assms(1) by (rule span_cacheI)
  note inv = span_cache.world_invD(1) [OF sc span_cache.reachable_world [OF sc assms(2)]]
  note i = span_cache.cache_invD [OF sc inv]
  note d = span_cache.syncedD [OF sc i(1)]
  have "lk_peek ops k (lru (sw_cache w)) = span_cache.span_at ops (sw_cache w) k" for k
    using assms(1) by (simp add: span_cache.span_at_def [OF sc] lru_map_def linked_map.peek_iter)
  with d(2,6) i(3,4) show ?thesis
    by (simp add: span_cache.span_total_def [OF sc] group_total_def)
qed

theorem cache_account_exact_witness:
  "used_bytes (sw_cache demo_world) \<le> budget_bytes (sw_cache demo_world) \<and> used_bytes (sw_cache demo_world) > 0"
proof -
  have "used_bytes (sw_cache demo_world) > 0"
    by (simp add: demo_world_def demo_missed_def demo_defs cache_run list_ops_simps)
  with cache_account_exact [OF listed.lru_map_axioms demo_world_reachable] show ?thesis by simp
qed

text \<open>
  C36.  The row spans of a query never overlap, and each stays within one cell of the
  256-row grid, whatever page sizes the clients asked for.
\<close>

theorem spans_do_not_overlap:
  assumes "lru_map ops" and "search_reachable ops enc prefetch w"
    and "lk_peek ops (the_key q st) (lru (sw_cache w)) = Some sp"
  shows "st + row_len sp \<le> (st div span_rows + 1) * span_rows \<and>
    (\<forall>st'. st < st' \<longrightarrow> lk_peek ops (the_key q st') (lru (sw_cache w)) \<noteq> None \<longrightarrow> st + row_len sp \<le> st')"
proof -
  have sc: "span_cache ops" using assms(1) by (rule span_cacheI)
  note inv = span_cache.world_invD(1) [OF sc span_cache.reachable_world [OF sc assms(2)]]
  have lay: "span_cache.layout ops q (sw_cache w)" using span_cache.cache_invD(5) [OF sc inv] by blast
  have peek: "lk_peek ops k (lru (sw_cache w)) = span_cache.span_at ops (sw_cache w) k" for k
    using assms(1) by (simp add: span_cache.span_at_def [OF sc] lru_map_def linked_map.peek_iter)
  show ?thesis
    using span_cache.layoutD [OF sc lay assms(3) [unfolded peek]] unfolding peek by blast
qed

theorem spans_do_not_overlap_witness:
  "lk_peek list_ops (the_key demo_query 1) (lru (sw_cache demo_world)) = Some \<lparr>sp_value = Rows [11, 12, 13], sp_bytes = 131\<rparr> \<and>
   (1::nat) + 3 \<le> 256"
proof -
  have p: "lk_peek list_ops (the_key demo_query 1) (lru (sw_cache demo_world)) =
      Some \<lparr>sp_value = Rows [11, 12, 13], sp_bytes = 131\<rparr>"
    by (simp add: demo_world_def demo_missed_def demo_defs cache_run list_ops_simps)
  from spans_do_not_overlap [OF listed.lru_map_axioms demo_world_reachable p] p
  show ?thesis by (simp add: row_len_def span_rows_def)
qed

section \<open>Cached and uncached searches agree\<close>

text \<open>The page cut out of what was executed, with or without a prefetch.\<close>

lemma executed_page:
  assumes "admits (window R (page_offset p) (executed_limit p k)) rows"
  shows "admits (window R (page_offset p) (map_option pg_limit p)) (take (page_len p rows) rows)"
proof (cases p)
  case None
  then show ?thesis using assms by (simp add: page_len_def executed_limit_def)
next
  case (Some pg)
  have "take (page_len p rows) rows = take (pg_limit pg) rows" by (simp add: Some page_len_def min_def)
  then show ?thesis
    using admits_take [OF assms, of "pg_limit pg"] by (simp add: Some executed_limit_def window_def min_def)
qed

definition runs_query :: "('r, 'l) search_world \<Rightarrow> query_key \<Rightarrow> (nat \<Rightarrow> nat option \<Rightarrow> 'e + 'r list) \<Rightarrow> bool" where
  "runs_query w q run \<longleftrightarrow> (\<forall>off lim. \<exists>rows. run off lim = Inr rows \<and> admits (window (sw_results w q) off lim) rows)"

text \<open>A search through the cache, and one without it, serve rows the window may show.\<close>

lemma uncached_page:
  assumes "runs_query w q run"
  shows "\<exists>page. map_sum id fst (snd (search_uncached ops enc run available p (sw_cache w))) = Inr page \<and>
    admits (window (sw_results w q) (page_offset p) (map_option pg_limit p)) page"
proof -
  obtain rows where rows: "run (page_offset p) (executed_limit p 0) = Inr rows"
    "admits (window (sw_results w q) (page_offset p) (executed_limit p 0)) rows"
    using assms unfolding runs_query_def by blast
  show ?thesis using executed_page [OF rows(2)] rows(1) by (simp add: search_uncached_def execute_results_def Let_def)
qed

lemma cached_page:
  assumes "lru_map ops" and "search_reachable ops enc prefetch w" and "announced w q" and "runs_query w q run"
  shows "\<exists>page. map_sum id fst (snd (search_results ops enc (sw_epochs w) run q p k (sw_cache w))) = Inr page \<and>
    admits (window (sw_results w q) (page_offset p) (map_option pg_limit p)) page"
proof -
  have sc: "span_cache ops" using assms(1) by (rule span_cacheI)
  note inv = span_cache.reachable_world [OF sc assms(2)]
  obtain s r where look: "lookup_rows ops (sw_epochs w) q (page_offset p) (map_option pg_limit p) (sw_cache w) = (s, r)"
    by fastforce
  obtain rows where rows: "run (page_offset p) (executed_limit p k) = Inr rows"
    "admits (window (sw_results w q) (page_offset p) (executed_limit p k)) rows"
    using assms(4) unfolding runs_query_def by blast
  have hit: "admits (window (sw_results w q) (page_offset p) (map_option pg_limit p)) page" if "r = Hit page" for page
    by (rule span_cache.lookup_rows_true [OF sc span_cache.world_invD(2) [OF sc inv] assms(3) span_cache.world_invD(4) [OF sc inv]])
      (use look that in simp)
  show ?thesis
    using look hit executed_page [OF rows(2)] rows(1)
    by (cases r) (simp_all add: search_results_def execute_results_def Let_def)
qed

text \<open>
  C11.  Once every commit to the databases of a query was announced, a search through the cache and
  the search without it both serve, whether it is a hit, a miss or a stale entry, and for any
  prefetch budget, the rows of the same window: as many rows, each of them one that the query shows
  at its position; and the same page when the order of the query is total.
\<close>

theorem search_equals_uncached:
  assumes "lru_map ops" and "search_reachable ops enc prefetch w" and "announced w q" and "runs_query w q run"
  shows "\<exists>page plain.
    map_sum id fst (snd (search_results ops enc (sw_epochs w) run q p k (sw_cache w))) = Inr page \<and>
    map_sum id fst (snd (search_uncached ops enc run available p (sw_cache w))) = Inr plain \<and>
    admits (window (sw_results w q) (page_offset p) (map_option pg_limit p)) page \<and>
    admits (window (sw_results w q) (page_offset p) (map_option pg_limit p)) plain \<and>
    length page = length plain \<and> (\<forall>R. sw_results w q = total_order R \<longrightarrow> page = plain)"
proof -
  obtain page where page: "map_sum id fst (snd (search_results ops enc (sw_epochs w) run q p k (sw_cache w))) = Inr page"
    "admits (window (sw_results w q) (page_offset p) (map_option pg_limit p)) page"
    using cached_page [OF assms] by blast
  obtain plain where plain: "map_sum id fst (snd (search_uncached ops enc run available p (sw_cache w))) = Inr plain"
    "admits (window (sw_results w q) (page_offset p) (map_option pg_limit p)) plain"
    using uncached_page [OF assms(4)] by blast
  have "length page = length plain" using admits_length [OF page(2)] admits_length [OF plain(2)] by simp
  moreover have "page = plain" if "sw_results w q = total_order R" for R
    using page(2) plain(2) unfolding that by simp
  ultimately show ?thesis using page plain by blast
qed

theorem search_equals_uncached_witness:
  "map_sum id fst (snd (search_results list_ops length (sw_epochs demo_world)
     (\<lambda>off lim. Inr (window demo_rows off lim) :: string + nat list) demo_query demo_page 3 (sw_cache demo_world))) =
   Inr [11, 12]"
proof -
  have total: "sw_results demo_world demo_query = total_order demo_rows"
    by (simp add: demo_world_def demo_missed_def demo_open_def demo_start_def initial_world_def)
  then have "runs_query demo_world demo_query (\<lambda>off lim. Inr (window demo_rows off lim) :: string + nat list)"
    by (simp add: runs_query_def)
  from search_equals_uncached [OF listed.lru_map_axioms demo_world_reachable demo_announced(3) this, of demo_page 3 True] total
  show ?thesis
    by (auto simp: search_uncached_def execute_results_def executed_limit_def page_len_def page_offset_def
        demo_page_def demo_rows_def window_def)
qed

text \<open>
  After a page was served from the database, asking for it again is a hit, unless the insertion
  had to evict; the count and the rows of a query never share a key.
\<close>

theorem served_page_is_cached:
  assumes "lru_map ops" and "search_reachable ops enc prefetch w" and "announced w q" and "runs_query w q run"
    and "is_enabled (sw_cache w)"
    and "\<forall>st sp. lk_peek ops (the_key q st) (lru (sw_cache w)) = Some sp \<longrightarrow> (\<exists>rows. sp_value sp = Rows rows)"
    and "page_offset p \<le> length (sw_results w q)"
    and first: "search_results ops enc (sw_epochs w) run q p k (sw_cache w) = (t, Inr (page, out, n))"
    and "evictions t = evictions (sw_cache w)" and "out \<noteq> OutHit"
  shows "\<exists>again. snd (search_results ops enc (sw_epochs w) run q p k t) = Inr (again, OutHit, 0) \<and>
    admits (window (sw_results w q) (page_offset p) (map_option pg_limit p)) again \<and>
    (\<forall>R. sw_results w q = total_order R \<longrightarrow> again = page)"
proof -
  have sc: "span_cache ops" using assms(1) by (rule span_cacheI)
  note inv = span_cache.reachable_world [OF sc assms(2)]
  note i = span_cache.world_invD [OF sc inv]
  let ?snap = "take_snapshot (sw_epochs w) q"
  let ?lim = "executed_limit p k"
  obtain rows where rows: "run (page_offset p) ?lim = Inr rows"
    "admits (window (sw_results w q) (page_offset p) ?lim) rows"
    using assms(4) unfolding runs_query_def by blast
  define l where "l = lookup_rows ops (sw_epochs w) q (page_offset p) (map_option pg_limit p) (sw_cache w)"
  have miss: "snd l = Miss \<or> snd l = Stale"
    using first assms(10) by (cases "snd l") (auto simp: search_results_def l_def [symmetric] Let_def case_prod_beta)
  then have t: "t = insert_rows ops enc q ?snap (page_offset p) ?lim rows (fst l)"
    and page: "page = take (page_len p rows) rows"
    using first by (auto simp: search_results_def l_def [symmetric] Let_def case_prod_beta execute_results_def rows(1))
  have keep: "groups (fst l) = groups (sw_cache w)"
    unfolding l_def by (rule span_cache.lookup_keeps_groups(1) [OF sc])
  have inv1: "span_cache.cache_inv ops enc (fst l)"
    and f1: "span_cache.faithful ops (announced w) (sw_epochs w) (sw_results w) (sw_counts w) (fst l)"
    unfolding l_def using span_cache.lookup_rows_keeps [OF sc] i(1,2) by blast+
  have "budget_bytes (fst l) = budget_bytes (sw_cache w)" "evictions (fst l) = evictions (sw_cache w)"
    by (auto simp: l_def lookup_rows_def case_prod_beta split: option.split)
  note same = this
  have at: "span_cache.span_at ops (fst l) = span_cache.span_at ops (sw_cache w)"
    unfolding l_def by (rule span_cache.lookup_rows_spans [OF sc])
  have only: "span_cache.rows_only ops q (fst l)"
    using assms(1,6)
    by (simp add: span_cache.rows_only_def [OF sc] at span_cache.span_at_def [OF sc] lru_map_def linked_map.peek_iter)
  have old: "epoch_order_of ?snap g \<noteq> Older" if "group_of (fst l) q = Some g" for g
  proof -
    have "group_of (sw_cache w) q = Some g" using that keep by (simp add: group_of_def)
    then have "stamp_le (sw_epochs w) q (index_epoch g) (user_data_epoch g)"
      using i(3) by (simp add: span_cache.stamped_def [OF sc])
    then show ?thesis
      by (auto simp: stamp_le_def epoch_order_of_def take_snapshot_def split: option.splits)
  qed
  have "narrower (map_option pg_limit p) ?lim"
    by (cases p) (simp_all add: narrower_def executed_limit_def)
  then have "\<exists>again. snd (lookup_rows ops (sw_epochs w) q (page_offset p) (map_option pg_limit p) t) = Hit again \<and>
      admits (window (sw_results w q) (page_offset p) (map_option pg_limit p)) again"
    using same assms(5,7,9) i(4)
    by (intro span_cache.insert_then_hit [OF sc inv1 _ only refl old f1 assms(3) rows(2) _ _ t])
      (simp_all add: is_enabled_def)
  then obtain again where again: "snd (lookup_rows ops (sw_epochs w) q (page_offset p) (map_option pg_limit p) t) = Hit again"
    "admits (window (sw_results w q) (page_offset p) (map_option pg_limit p)) again" by blast
  have "again = page" if "sw_results w q = total_order R" for R
    using executed_page [OF rows(2)] again(2) unfolding that page by simp
  then show ?thesis using again
    by (intro exI [of _ again]) (simp add: search_results_def Let_def case_prod_beta)
qed

definition demo_run :: "nat \<Rightarrow> nat option \<Rightarrow> string + nat list" where
  "demo_run off lim = Inr (window demo_rows off lim)"

definition demo_served :: "demo_lru cache_state" where
  "demo_served = fst (search_results list_ops length (sw_epochs demo_open) demo_run demo_query demo_page 3 (sw_cache demo_open))"

theorem served_page_is_cached_witness:
  "snd (search_results list_ops length (sw_epochs demo_open) demo_run demo_query demo_page 3 demo_served) =
     Inr ([11, 12], OutHit, 0)"
proof -
  have served: "demo_served = sw_cache demo_world"
    and first: "snd (search_results list_ops length (sw_epochs demo_open) demo_run demo_query demo_page 3 (sw_cache demo_open)) =
      Inr ([11, 12], OutMiss, 1)"
    using demo_look
    by (simp_all add: demo_served_def search_results_def answered_rows_def execute_results_def demo_run_def
        demo_world_def demo_page_def page_offset_def executed_limit_def page_len_def demo_rows_def window_def
        demo_snapshot Let_def)
  have total: "sw_results demo_open demo_query = total_order demo_rows"
    by (simp add: demo_open_def demo_start_def initial_world_def)
  have run: "search_results list_ops length (sw_epochs demo_open) demo_run demo_query demo_page 3 (sw_cache demo_open) =
      (demo_served, Inr ([11, 12], OutMiss, 1))"
    using first by (metis demo_served_def prod.collapse)
  have q: "runs_query demo_open demo_query demo_run"
    using total by (simp add: runs_query_def demo_run_def)
  have enabled: "is_enabled (sw_cache demo_open)"
    by (simp add: is_enabled_def demo_defs cache_run list_ops_simps)
  have only: "\<forall>st sp. lk_peek list_ops (the_key demo_query st) (lru (sw_cache demo_open)) = Some sp \<longrightarrow>
      (\<exists>rows. sp_value sp = Rows rows)"
    by (simp add: demo_defs cache_run list_ops_simps)
  have off: "page_offset demo_page \<le> length (sw_results demo_open demo_query)"
    by (simp add: demo_defs total_order_def)
  have kept: "evictions demo_served = evictions (sw_cache demo_open)"
    unfolding served by (simp add: demo_world_def demo_missed_def demo_defs cache_run list_ops_simps)
  have miss: "OutMiss \<noteq> OutHit" by simp
  from served_page_is_cached [OF listed.lru_map_axioms demo_open_reachable demo_announced(1) q enabled only off run kept miss] total
  show ?thesis by auto
qed

section \<open>Budget and grid\<close>

text \<open>
  Resizing is refused above the ceiling and changes nothing; otherwise the cache ends
  within the new size, keeping the most recently used spans: only a prefix of the
  recency order is gone.
\<close>

theorem resize_evicts_oldest:
  assumes "lru_map ops" and "search_reachable ops enc prefetch w"
  shows "case resize_result_cache ops mb (sw_cache w) of
      Inl ceiling \<Rightarrow> ceiling = limit_bytes (sw_cache w) div (1024 * 1024) \<and> ceiling < mb
    | Inr t \<Rightarrow> mb \<le> limit_bytes (sw_cache w) div (1024 * 1024) \<and>
        used_bytes t \<le> mb * (1024 * 1024) \<and> (is_enabled t \<longrightarrow> mb > 0) \<and>
        (\<exists>m. lk_iter ops (lru t) = drop m (lk_iter ops (lru (sw_cache w))))"
proof -
  have sc: "span_cache ops" using assms(1) by (rule span_cacheI)
  note inv = span_cache.world_invD(1) [OF sc span_cache.reachable_world [OF sc assms(2)]]
  let ?t = "set_budget_mb ops mb (sw_cache w)"
  let ?s1 = "(sw_cache w)\<lparr>budget_bytes := min (sat_mul mb (1024 * 1024)) (limit_bytes (sw_cache w))\<rparr>"
  note it = span_cache.cache_invD [OF sc conjunct1 [OF span_cache.set_budget_inv [OF sc inv]], of mb]
  have eq: "?t = (if budget_bytes ?s1 = 0 then wipe ops ?s1 else evict_to_budget ops ?s1)"
    by (simp only: set_budget_mb_def Let_def)
  note i = span_cache.cache_invD [OF sc inv]
  have "span_cache.synced ops enc ?s1" "span_cache.anchored ?s1"
    using i(1,2) by (simp_all add: span_cache.synced_fields [OF sc] span_cache.anchored_fields [OF sc])
  note ev = span_cache.evict_correct [OF sc this]
  have b: "budget_bytes ?t = min (sat_mul mb (1024 * 1024)) (limit_bytes (sw_cache w))"
    unfolding eq using ev(5) by (simp add: wipe_def)
  then have "budget_bytes ?t \<le> mb * (1024 * 1024)" by (simp add: sat_mul_def)
  moreover have "\<exists>m. lk_iter ops (lru ?t) = drop m (lk_iter ops (lru (sw_cache w)))"
  proof (cases "budget_bytes ?s1 = 0")
    case True
    then have "lk_iter ops (lru ?t) = []"
      unfolding eq using assms(1) by (simp add: wipe_def lru_map_def linked_map.iter_empty)
    then show ?thesis by (intro exI [of _ "length (lk_iter ops (lru (sw_cache w)))"]) simp
  next
    case False
    then have "?t = evict_to_budget ops ?s1" unfolding eq by (simp only: if_False)
    then show ?thesis
      using span_cache.evict_loop_drop [OF sc, of "Suc (lk_len ops (lru ?s1))" ?s1]
      by (simp add: evict_to_budget_def del: evict_loop.simps) blast
  qed
  moreover note it(3) b
  ultimately show ?thesis
    by (auto simp: resize_result_cache_def budget_limit_mb_def is_enabled_def sat_mul_def)
qed

theorem resize_evicts_oldest_witness:
  "\<exists>t m. resize_result_cache list_ops 0 (sw_cache demo_world) = Inr t \<and> used_bytes t = 0 \<and>
     lk_iter list_ops (lru t) = drop m (lk_iter list_ops (lru (sw_cache demo_world)))"
  using resize_evicts_oldest [OF listed.lru_map_axioms demo_world_reachable, of 0]
  by (auto simp: resize_result_cache_def split: sum.splits if_splits)

text \<open>
  Splitting a range on the grid covers every row of it once, in order, with pieces of
  at most 256 rows that do not cross a grid line.
\<close>

theorem grid_split_covers:
  assumes "to \<le> u64_max"
  shows "concat (map (\<lambda>(a, b). [a..<b]) (grid_split start to)) = [start..<to] \<and>
    (\<forall>(a, b) \<in> set (grid_split start to). a < b \<and> b - a \<le> span_rows \<and>
       a div span_rows = (b - 1) div span_rows)"
  using assms
proof (induction start to rule: grid_split.induct)
  case (1 start to)
  show ?case
  proof (cases "start < to")
    case False
    then show ?thesis by (simp add: grid_split.simps)
  next
    case True
    let ?stop = "min to (sat_mul (start div span_rows + 1) span_rows)"
    have split: "grid_split start to = (start, ?stop) # grid_split ?stop to"
      using True 1(2) by (subst grid_split.simps) (simp add: Let_def)
    have above: "start < ?stop" using grid_next_above [OF True 1(2)] .
    have grid: "?stop \<le> (start div 256 + 1) * 256" by (auto simp: sat_mul_def span_rows_def)
    have "start div 256 * 256 \<le> start" by simp
    then have "(start div 256 + 1) * 256 - start \<le> 256" by (simp add: distrib_right)
    with grid have "?stop - start \<le> 256" by (meson diff_le_mono le_trans)
    moreover have "(?stop - 1) div 256 = start div 256"
    proof (rule antisym)
      have "?stop - 1 < (start div 256 + 1) * 256" using grid above by linarith
      then show "(?stop - 1) div 256 \<le> start div 256" by (simp add: less_mult_imp_div_less)
      show "start div 256 \<le> (?stop - 1) div 256" using above by (intro div_le_mono) linarith
    qed
    moreover have "[start..<to] = [start..<?stop] @ [?stop..<to]"
      using above upt_add_eq_append [of start ?stop "to - ?stop"] by simp
    ultimately show ?thesis
      using 1(1) [OF conjI [OF True 1(2)] refl refl 1(2)] above unfolding split by (simp add: span_rows_def)
  qed
qed

theorem grid_split_covers_witness:
  "concat (map (\<lambda>(a, b). [a..<b]) (grid_split 250 600)) = [250..<600] \<and>
   grid_split 250 600 = [(250, 256), (256, 512), (512, 600)]"
  using grid_split_covers [of 600 250]
  by (simp add: u64_max_def grid_split.simps sat_mul_def span_rows_def del: upt_rec_numeral)

text \<open>
  The statistics page accounts for the whole cache: the database entries add up to the
  used bytes and to the number of spans, and the listing, most recently used first, gives
  page after page every span once.
\<close>

theorem stats_account_for_cache:
  assumes "lru_map ops" and "search_reachable ops enc prefetch w" and "ep = sw_epochs w"
  shows "sum_list (map dg_bytes (st_databases (cache_stats ops ep page n (sw_cache w)))) =
      st_used_bytes (cache_stats ops ep page n (sw_cache w)) \<and>
    sum_list (map dg_entries (st_databases (cache_stats ops ep page n (sw_cache w)))) =
      st_entries (cache_stats ops ep page n (sw_cache w)) \<and>
    st_cached (cache_stats ops ep 1 (st_entries (cache_stats ops ep page n (sw_cache w))) (sw_cache w)) =
      map (entry_info ep (sw_cache w)) (rev (lk_iter ops (lru (sw_cache w))))"
proof -
  have sc: "span_cache ops" using assms(1) by (rule span_cacheI)
  note inv = span_cache.world_invD(1) [OF sc span_cache.reachable_world [OF sc assms(2)]]
  note g = span_cache.group_sums [OF sc span_cache.cache_invD(1) [OF sc inv]]
  have "lk_len ops (lru (sw_cache w)) = length (lk_iter ops (lru (sw_cache w)))"
    using assms(1) by (simp add: lru_map_def linked_map.len_iter)
  with g show ?thesis
    by (simp add: cache_stats_def Let_def db_stats_sum rev_map sat_mul_def)
qed

theorem stats_account_for_cache_witness:
  "sum_list (map dg_bytes (st_databases (cache_stats list_ops zero_epochs 1 50 (sw_cache demo_world)))) = 263 \<and>
   st_entries (cache_stats list_ops zero_epochs 1 50 (sw_cache demo_world)) = 1"
proof -
  have ep: "zero_epochs = sw_epochs demo_world"
    by (simp add: demo_world_def demo_missed_def demo_open_def demo_start_def initial_world_def)
  have "used_bytes (sw_cache demo_world) = 263" "lk_len list_ops (lru (sw_cache demo_world)) = 1"
    by (simp_all add: demo_world_def demo_missed_def demo_defs cache_run list_ops_simps)
  with stats_account_for_cache [OF listed.lru_map_axioms demo_world_reachable ep, of 1 50] show ?thesis
    by (simp add: cache_stats_def Let_def)
qed

section \<open>The recorded end of a result set\<close>

text \<open>
  \<open>known_end\<close> is an upper bound of the row count rather than the count: a page past the end
  records its offset.
\<close>

lemma known_end_past_the_end:
  "map_option known_end (group_of (insert_rows list_ops length demo_query demo_snap 10 (Some 5)
     (window demo_rows 10 (Some 5)) (sw_cache demo_open)) demo_query) = Some (Some 10) \<and> length demo_rows = 5"
  by (simp add: demo_defs window_def cache_run list_ops_simps)

end
