(* ===== verification/ModelCache.thy ===== *)
theory ModelCache
  imports LinkedMap "HOL-Library.List_Lexorder" "HOL-Library.Char_ord"
begin

text \<open>
  The bookkeeping of loaded models (\<open>CacheState\<close> in
  \<open>panoptikon/src/inferio/manager.rs\<close>): per cache key an LRU of model ids with their
  expirations, per model the cache keys that reference it, and the pin counts.  Instants
  are integers; \<open>after\<close> is \<open>chrono\<close>'s checked addition of seconds.  Hash maps are association
  lists with distinct keys, hash sets are sets.
\<close>

type_synonym instant = int

datatype expiration = Never | At instant

type_synonym ttl_clock = "instant \<Rightarrow> int \<Rightarrow> instant option"

definition new_expiration :: "ttl_clock \<Rightarrow> int \<Rightarrow> instant \<Rightarrow> expiration" where
  "new_expiration after ttl_seconds now =
     (if ttl_seconds < 0 then Never
      else case after now ttl_seconds of Some t \<Rightarrow> At t | None \<Rightarrow> Never)"

definition render :: "(instant \<Rightarrow> string) \<Rightarrow> expiration \<Rightarrow> string option" where
  "render isoformat e = (case e of Never \<Rightarrow> None | At t \<Rightarrow> Some (isoformat t))"

type_synonym 'l model_ops = "(string, expiration, 'l) linked_ops"

record 'l model_cache =
  lru_caches :: "(string \<times> 'l) list"
  cache_refs :: "(string \<times> string set) list"
  pins :: "(string \<times> nat) list"

definition empty_cache :: "'l model_cache" where
  "empty_cache = \<lparr>lru_caches = [], cache_refs = [], pins = []\<rparr>"

definition lru_of :: "'l model_cache \<Rightarrow> string \<Rightarrow> 'l option" where
  "lru_of c key = map_of (lru_caches c) key"

definition refs_of :: "'l model_cache \<Rightarrow> string \<Rightarrow> string set" where
  "refs_of c model = (case map_of (cache_refs c) model of None \<Rightarrow> {} | Some ks \<Rightarrow> ks)"

definition pins_of :: "'l model_cache \<Rightarrow> string \<Rightarrow> nat" where
  "pins_of c model = (case map_of (pins c) model of None \<Rightarrow> 0 | Some n \<Rightarrow> n)"

text \<open>
  Dropping the reference of a cache key to a model: the model is reported when that was the
  last one.
\<close>

definition drop_ref ::
  "string \<Rightarrow> string \<Rightarrow> (string \<times> string set) list \<Rightarrow> (string \<times> string set) list \<times> string list" where
  "drop_ref key model refs =
     (case map_of refs model of
        None \<Rightarrow> (refs, [])
      | Some ks \<Rightarrow>
          if ks - {key} = {} then (AList.delete model refs, [model])
          else (AList.update model (ks - {key}) refs, []))"

text \<open>
  The loop of \<open>resize\<close> on the LRU of one cache key, with fuel: every round pops an entry.
\<close>

fun resize_loop ::
  "'l model_ops \<Rightarrow> string \<Rightarrow> int \<Rightarrow> nat \<Rightarrow> 'l \<Rightarrow> (string \<times> string set) list \<Rightarrow> string list \<Rightarrow>
     'l \<times> (string \<times> string set) list \<times> string list" where
  "resize_loop ops key lru_size 0 lru refs unloads = (lru, refs, unloads)"
| "resize_loop ops key lru_size (Suc n) lru refs unloads =
     (if int (lk_len ops lru) > lru_size then
        (case lk_pop_front ops lru of
           (lru', None) \<Rightarrow> (lru', refs, unloads)
         | (lru', Some (evicted, _)) \<Rightarrow>
             (case drop_ref key evicted refs of
                (refs', gone) \<Rightarrow> resize_loop ops key lru_size n lru' refs' (unloads @ gone)))
      else (lru, refs, unloads))"

definition resize_lru :: "'l model_ops \<Rightarrow> string \<Rightarrow> int \<Rightarrow> 'l model_cache \<Rightarrow> 'l model_cache \<times> string list" where
  "resize_lru ops key lru_size c =
     (case lru_of c key of
        None \<Rightarrow> (c, [])
      | Some lru \<Rightarrow>
          (case resize_loop ops key lru_size (Suc (lk_len ops lru)) lru (cache_refs c) [] of
             (lru', refs, unloads) \<Rightarrow>
               (c\<lparr>lru_caches := AList.update key lru' (lru_caches c), cache_refs := refs\<rparr>, unloads)))"

definition touch_load ::
  "'l model_ops \<Rightarrow> ttl_clock \<Rightarrow> string \<Rightarrow> string \<Rightarrow> int \<Rightarrow> int \<Rightarrow> instant \<Rightarrow> 'l model_cache \<Rightarrow>
     'l model_cache \<times> string list" where
  "touch_load ops after model key lru_size ttl_seconds now c =
     (let refs = AList.update model (insert key (refs_of c model)) (cache_refs c);
          lru = (case lru_of c key of None \<Rightarrow> lk_empty ops | Some l \<Rightarrow> l);
          lru = fst (lk_remove ops model lru);
          lru = fst (lk_insert ops model (new_expiration after ttl_seconds now) lru)
      in resize_lru ops key lru_size
           (c\<lparr>cache_refs := refs, lru_caches := AList.update key lru (lru_caches c)\<rparr>))"

text \<open>The outcome: whether the entry was present, and the model to unload.\<close>

definition remove_entry ::
  "'l model_ops \<Rightarrow> string \<Rightarrow> string \<Rightarrow> 'l model_cache \<Rightarrow> 'l model_cache \<times> bool \<times> string option" where
  "remove_entry ops key model c =
     (case lru_of c key of
        None \<Rightarrow> (c, False, None)
      | Some lru \<Rightarrow>
          (case lk_remove ops model lru of
             (lru', None) \<Rightarrow> (c\<lparr>lru_caches := AList.update key lru' (lru_caches c)\<rparr>, False, None)
           | (lru', Some _) \<Rightarrow>
               (case drop_ref key model (cache_refs c) of
                  (refs, gone) \<Rightarrow>
                    (c\<lparr>lru_caches := AList.update key lru' (lru_caches c), cache_refs := refs\<rparr>,
                     True, (case gone of [] \<Rightarrow> None | m # _ \<Rightarrow> Some m)))))"

fun drop_refs ::
  "string \<Rightarrow> string list \<Rightarrow> (string \<times> string set) list \<Rightarrow> string list \<Rightarrow>
     (string \<times> string set) list \<times> string list" where
  "drop_refs key [] refs unloads = (refs, unloads)"
| "drop_refs key (m # ms) refs unloads =
     (case drop_ref key m refs of (refs', gone) \<Rightarrow> drop_refs key ms refs' (unloads @ gone))"

definition clear_key ::
  "'l model_ops \<Rightarrow> string \<Rightarrow> 'l model_cache \<Rightarrow> 'l model_cache \<times> nat \<times> string list" where
  "clear_key ops key c =
     (case lru_of c key of
        None \<Rightarrow> (c, 0, [])
      | Some lru \<Rightarrow>
          (case drop_refs key (map fst (lk_iter ops lru)) (cache_refs c) [] of
             (refs, unloads) \<Rightarrow>
               (c\<lparr>lru_caches := AList.delete key (lru_caches c), cache_refs := refs\<rparr>,
                lk_len ops lru, unloads)))"

definition is_expired :: "instant \<Rightarrow> expiration \<Rightarrow> bool" where
  "is_expired now e = (case e of Never \<Rightarrow> False | At t \<Rightarrow> now > t)"

definition expired_entries :: "'l model_ops \<Rightarrow> instant \<Rightarrow> 'l model_cache \<Rightarrow> (string \<times> string) list" where
  "expired_entries ops now c =
     concat (map (\<lambda>(key, lru). map (\<lambda>(m, _). (key, m))
       (filter (\<lambda>(m, e). pins_of c m = 0 \<and> is_expired now e) (lk_iter ops lru))) (lru_caches c))"

fun remove_entries ::
  "'l model_ops \<Rightarrow> (string \<times> string) list \<Rightarrow> 'l model_cache \<Rightarrow> string list \<Rightarrow> 'l model_cache \<times> string list" where
  "remove_entries ops [] c unloads = (c, unloads)"
| "remove_entries ops ((key, m) # es) c unloads =
     (case remove_entry ops key m c of
        (c', _, gone) \<Rightarrow>
          remove_entries ops es c' (unloads @ (case gone of None \<Rightarrow> [] | Some g \<Rightarrow> [g])))"

definition expire_entries :: "'l model_ops \<Rightarrow> instant \<Rightarrow> 'l model_cache \<Rightarrow> 'l model_cache \<times> string list" where
  "expire_entries ops now c = remove_entries ops (expired_entries ops now c) c []"

definition pin :: "string \<Rightarrow> 'l model_cache \<Rightarrow> 'l model_cache" where
  "pin model c = c\<lparr>pins := AList.update model (pins_of c model + 1) (pins c)\<rparr>"

definition unpin :: "string \<Rightarrow> 'l model_cache \<Rightarrow> 'l model_cache" where
  "unpin model c =
     (case map_of (pins c) model of
        None \<Rightarrow> c
      | Some n \<Rightarrow>
          (if n - 1 = 0 then c\<lparr>pins := AList.delete model (pins c)\<rparr>
           else c\<lparr>pins := AList.update model (n - 1) (pins c)\<rparr>))"

definition unpin_restore ::
  "'l model_ops \<Rightarrow> ttl_clock \<Rightarrow> string \<Rightarrow> string \<Rightarrow> int \<Rightarrow> instant \<Rightarrow> 'l model_cache \<Rightarrow> 'l model_cache" where
  "unpin_restore ops after model key ttl_seconds now c =
     (let c = unpin model c in
      case lru_of c key of
        None \<Rightarrow> c
      | Some lru \<Rightarrow>
          c\<lparr>lru_caches := AList.update key
              (lk_set ops model (new_expiration after ttl_seconds now) lru) (lru_caches c)\<rparr>)"

definition remove_everywhere :: "'l model_ops \<Rightarrow> string \<Rightarrow> 'l model_cache \<Rightarrow> 'l model_cache" where
  "remove_everywhere ops model c =
     c\<lparr>lru_caches := map (\<lambda>(key, lru). (key, fst (lk_remove ops model lru))) (lru_caches c),
       cache_refs := AList.delete model (cache_refs c)\<rparr>"

definition refs_non_empty :: "string \<Rightarrow> 'l model_cache \<Rightarrow> bool" where
  "refs_non_empty model c =
     (case map_of (cache_refs c) model of None \<Rightarrow> False | Some ks \<Rightarrow> ks \<noteq> {})"

text \<open>The listings: sorted maps, as lists in key order.\<close>

definition cached_models :: "'l model_cache \<Rightarrow> (string \<times> string list) list" where
  "cached_models c =
     map (\<lambda>(m, ks). (m, sorted_list_of_set ks)) (sort_key fst (cache_refs c))"

definition cache_keys :: "string \<Rightarrow> 'l model_cache \<Rightarrow> string list" where
  "cache_keys model c = sorted_list_of_set (refs_of c model)"

definition expirations ::
  "'l model_ops \<Rightarrow> (instant \<Rightarrow> string) \<Rightarrow> string \<Rightarrow> 'l model_cache \<Rightarrow> (string \<times> string option) list" where
  "expirations ops isoformat key c =
     (case lru_of c key of
        None \<Rightarrow> []
      | Some lru \<Rightarrow> map (\<lambda>(m, e). (m, render isoformat e)) (sort_key fst (lk_iter ops lru)))"

section \<open>References\<close>

definition refset :: "(string \<times> string set) list \<Rightarrow> string \<Rightarrow> string set" where
  "refset refs m = (case map_of refs m of None \<Rightarrow> {} | Some ks \<Rightarrow> ks)"

definition tidy :: "(string \<times> string set) list \<Rightarrow> bool" where
  "tidy refs \<longleftrightarrow> distinct (map fst refs) \<and> (\<forall>m ks. map_of refs m = Some ks \<longrightarrow> ks \<noteq> {} \<and> finite ks)"

definition last_ref :: "string \<Rightarrow> (string \<times> string set) list \<Rightarrow> string \<Rightarrow> bool" where
  "last_ref key refs m \<longleftrightarrow> refset refs m = {key}"

lemma refs_of_refset: "refs_of c m = refset (cache_refs c) m"
  by (simp add: refs_of_def refset_def)

lemma tidy_refset: "tidy refs \<Longrightarrow> refset refs m = {} \<longleftrightarrow> map_of refs m = None"
  by (auto simp: tidy_def refset_def split: option.split)

lemma tidy_finite: "tidy refs \<Longrightarrow> finite (refset refs m)"
  by (auto simp: tidy_def refset_def split: option.split)

lemma refset_update: "refset (AList.update m ks refs) = (refset refs)(m := ks)"
  by (auto simp: refset_def update_conv' fun_eq_iff)

lemma tidy_update: "tidy refs \<Longrightarrow> ks \<noteq> {} \<Longrightarrow> finite ks \<Longrightarrow> tidy (AList.update m ks refs)"
  by (auto simp: tidy_def distinct_update update_conv')

lemma drop_ref_props:
  assumes "tidy refs"
  shows "tidy (fst (drop_ref key m refs))"
    and "refset (fst (drop_ref key m refs)) = (refset refs)(m := refset refs m - {key})"
    and "key \<in> refset refs m \<Longrightarrow> snd (drop_ref key m refs) = (if last_ref key refs m then [m] else [])"
    and "set (snd (drop_ref key m refs)) \<subseteq> {m}"
proof -
  have fin: "finite ks" "ks \<noteq> {}" "distinct (map fst refs)" if "map_of refs m = Some ks" for ks
    using assms that by (auto simp: tidy_def)
  show "tidy (fst (drop_ref key m refs))"
  proof (cases "map_of refs m")
    case None
    with assms show ?thesis by (simp add: drop_ref_def)
  next
    case (Some ks)
    have "tidy (AList.delete m refs)" using assms by (auto simp: tidy_def distinct_delete)
    moreover have "ks - {key} \<noteq> {} \<Longrightarrow> tidy (AList.update m (ks - {key}) refs)"
      using fin [OF Some] assms by (intro tidy_update) auto
    ultimately show ?thesis using Some by (simp add: drop_ref_def)
  qed
  show "refset (fst (drop_ref key m refs)) = (refset refs)(m := refset refs m - {key})"
    by (auto simp: drop_ref_def refset_def update_conv' fun_eq_iff split: option.split)
  show "key \<in> refset refs m \<Longrightarrow> snd (drop_ref key m refs) = (if last_ref key refs m then [m] else [])"
    by (auto simp: drop_ref_def last_ref_def refset_def split: option.splits)
  show "set (snd (drop_ref key m refs)) \<subseteq> {m}"
    by (auto simp: drop_ref_def split: option.splits)
qed

lemma drop_refs_props:
  assumes "tidy refs" and "distinct ms" and "\<forall>m \<in> set ms. key \<in> refset refs m"
  shows "tidy (fst (drop_refs key ms refs unloads)) \<and>
    refset (fst (drop_refs key ms refs unloads)) = (\<lambda>m. if m \<in> set ms then refset refs m - {key} else refset refs m) \<and>
    snd (drop_refs key ms refs unloads) = unloads @ filter (last_ref key refs) ms"
  using assms
proof (induction ms arbitrary: refs unloads)
  case Nil
  then show ?case by simp
next
  case (Cons m ms)
  obtain refs' gone where d: "drop_ref key m refs = (refs', gone)" by fastforce
  note p = drop_ref_props [OF Cons.prems(1), of key m, unfolded d, simplified]
  have gone: "gone = (if last_ref key refs m then [m] else [])" using p(3) Cons.prems(3) by simp
  have "last_ref key refs' m' = last_ref key refs m'" if "m' \<in> set ms" for m'
    using that Cons.prems(2) by (auto simp: last_ref_def p(2))
  then have f: "filter (last_ref key refs') ms = filter (last_ref key refs) ms" by (auto intro: filter_cong)
  have "\<forall>m' \<in> set ms. key \<in> refset refs' m'" using Cons.prems(2,3) by (auto simp: p(2))
  with Cons.IH [OF p(1), of "unloads @ gone"] Cons.prems(2) d gone f p(2) show ?case
    by (auto simp: fun_eq_iff)
qed

section \<open>The invariant\<close>

text \<open>
  A cache key references a model exactly when the model is in its LRU, and no model has an
  empty set of references.
\<close>

locale model_lrus = linked_map ops for ops :: "'l model_ops"
begin

definition entry :: "'l model_cache \<Rightarrow> string \<Rightarrow> string \<Rightarrow> expiration option" where
  "entry c key m = (case lru_of c key of None \<Rightarrow> None | Some l \<Rightarrow> map_of (lk_iter ops l) m)"

definition agrees :: "'l model_cache \<Rightarrow> bool" where
  "agrees c \<longleftrightarrow>
     distinct (map fst (lru_caches c)) \<and> tidy (cache_refs c) \<and> distinct (map fst (pins c)) \<and>
     (\<forall>key m. key \<in> refs_of c m \<longleftrightarrow> entry c key m \<noteq> None)"

lemma agreesD:
  assumes "agrees c"
  shows "distinct (map fst (lru_caches c))" "tidy (cache_refs c)" "distinct (map fst (pins c))"
    "key \<in> refs_of c m \<longleftrightarrow> entry c key m \<noteq> None"
  using assms by (simp_all add: agrees_def)

lemma refs_non_empty_iff: "agrees c \<Longrightarrow> refs_non_empty m c \<longleftrightarrow> (\<exists>key. entry c key m \<noteq> None)"
proof -
  assume a: "agrees c"
  have "refs_non_empty m c \<longleftrightarrow> refs_of c m \<noteq> {}"
    by (auto simp: refs_non_empty_def refs_of_def split: option.split)
  also have "\<dots> \<longleftrightarrow> (\<exists>key. key \<in> refs_of c m)" by blast
  finally show ?thesis using agreesD(4) [OF a] by blast
qed

lemma lru_of_update: "lru_of (c\<lparr>lru_caches := AList.update key l (lru_caches c)\<rparr>) = (lru_of c)(key \<mapsto> l)"
  by (auto simp: lru_of_def update_conv' fun_eq_iff)

lemma entry_fields [simp]:
  "entry (c\<lparr>cache_refs := r\<rparr>) = entry c" "entry (c\<lparr>pins := p\<rparr>) = entry c"
  by (auto simp: entry_def lru_of_def fun_eq_iff)

lemma entry_update:
  "entry (c\<lparr>lru_caches := AList.update key l (lru_caches c)\<rparr>) =
     (\<lambda>key' m. if key' = key then map_of (lk_iter ops l) m else entry c key' m)"
  by (auto simp: entry_def lru_of_update fun_eq_iff)

text \<open>The resizing loop pops the oldest entries over the size and drops their references.\<close>

definition over :: "int \<Rightarrow> nat \<Rightarrow> nat" where
  "over lru_size n = min n (nat (int n - lru_size))"

lemma resize_loop_eq:
  assumes "lk_len ops l < n"
  shows "lk_iter ops (fst (resize_loop ops key size' n l refs unloads)) =
      drop (over size' (lk_len ops l)) (lk_iter ops l) \<and>
    snd (resize_loop ops key size' n l refs unloads) =
      drop_refs key (map fst (take (over size' (lk_len ops l)) (lk_iter ops l))) refs unloads"
  using assms
proof (induction n arbitrary: l refs unloads)
  case 0
  then show ?case by simp
next
  case (Suc n)
  show ?case
  proof (cases "int (lk_len ops l) > size'")
    case False
    then show ?thesis by (simp add: over_def)
  next
    case True
    obtain l' r where pop: "lk_pop_front ops l = (l', r)" by fastforce
    have tl: "lk_iter ops l' = tl (lk_iter ops l)" and r: "r = (case lk_iter ops l of [] \<Rightarrow> None | e # es \<Rightarrow> Some e)"
      using pop_iter [of l] pop_value [of l] pop by simp_all
    show ?thesis
    proof (cases "lk_iter ops l")
      case Nil
      then show ?thesis using True pop tl r by simp
    next
      case (Cons e es)
      obtain m x where e: "e = (m, x)" by (cases e)
      obtain refs' gone where d: "drop_ref key m refs = (refs', gone)" by fastforce
      have len: "lk_len ops l = Suc (lk_len ops l')" using Cons tl by (simp add: len_iter)
      then have o: "over size' (lk_len ops l) = Suc (over size' (lk_len ops l'))"
        using True by (simp add: over_def)
      have step: "resize_loop ops key size' (Suc n) l refs unloads =
          resize_loop ops key size' n l' refs' (unloads @ gone)"
        using True pop r Cons e d by simp
      have "lk_len ops l' < n" using Suc.prems len by simp
      note ih = Suc.IH [OF this, of refs' "unloads @ gone"]
      show ?thesis
        unfolding step o using ih tl Cons e d by simp
    qed
  qed
qed

section \<open>Dropping entries\<close>

text \<open>The models that lost their last reference between two states.\<close>

definition lost :: "'l model_cache \<Rightarrow> 'l model_cache \<Rightarrow> string set" where
  "lost c c' = {m. refs_of c m \<noteq> {} \<and> refs_of c' m = {}}"

lemma lost_iff:
  assumes "agrees c" and "agrees c'"
  shows "m \<in> lost c c' \<longleftrightarrow> (\<exists>key. entry c key m \<noteq> None) \<and> (\<forall>key. entry c' key m = None)"
proof -
  have "refs_of c m \<noteq> {} \<longleftrightarrow> (\<exists>key. key \<in> refs_of c m)" "refs_of c' m = {} \<longleftrightarrow> (\<forall>key. key \<notin> refs_of c' m)"
    by blast+
  then show ?thesis by (simp add: lost_def agreesD(4) [OF assms(1)] agreesD(4) [OF assms(2)])
qed

lemma pruned:
  assumes "agrees c" and "distinct ms" and "\<forall>m \<in> set ms. entry c key m \<noteq> None"
    and "drop_refs key ms (cache_refs c) [] = (cache_refs c', u)"
    and "distinct (map fst (lru_caches c'))" and "pins c' = pins c"
    and at: "entry c' = (\<lambda>key' m. if key' = key \<and> m \<in> set ms then None else entry c key' m)"
  shows "agrees c'" and "set u = lost c c'"
proof -
  note a = agreesD [OF assms(1)]
  have "\<forall>m \<in> set ms. key \<in> refset (cache_refs c) m"
    using assms(3) a(4) by (simp add: refs_of_refset)
  note d = drop_refs_props [OF a(2) assms(2) this, of "[]", unfolded assms(4), simplified]
  have refs: "refs_of c' m = (if m \<in> set ms then refs_of c m - {key} else refs_of c m)" for m
    using d by (simp add: refs_of_refset)
  have "key' \<in> refs_of c' m \<longleftrightarrow> entry c' key' m \<noteq> None" for key' m
    using a(4) [of key' m] by (auto simp: refs at)
  with d a(3) assms(5,6) show "agrees c'" by (simp add: agrees_def)
  show "set u = lost c c'"
  proof (intro set_eqI)
    fix m
    have "m \<in> set u \<longleftrightarrow> m \<in> set ms \<and> refs_of c m = {key}"
      using d by (auto simp: last_ref_def refs_of_refset)
    also have "\<dots> \<longleftrightarrow> refs_of c m \<noteq> {} \<and> refs_of c' m = {}"
      using a(4) [of key m] assms(3) by (auto simp: refs)
    finally show "m \<in> set u \<longleftrightarrow> m \<in> lost c c'" by (simp add: lost_def)
  qed
qed

lemma distinct_lru_update:
  "distinct (map fst (lru_caches c)) \<Longrightarrow> distinct (map fst (AList.update key l (lru_caches c)))"
  by (rule distinct_update)

lemma map_of_drop_distinct:
  "distinct (map fst xs) \<Longrightarrow>
   map_of (drop k xs) m = (if m \<in> fst ` set (take k xs) then None else map_of xs m)"
proof -
  assume d: "distinct (map fst xs)"
  have "map_of xs = map_of (drop k xs) ++ map_of (take k xs)"
    using arg_cong [OF append_take_drop_id [of k xs], of map_of] by (simp only: map_of_append)
  then have "map_of xs m = (map_of (drop k xs) ++ map_of (take k xs)) m" by simp
  moreover have "m \<in> fst ` set (take k xs) \<Longrightarrow> m \<notin> fst ` set (drop k xs)"
  proof -
    have "distinct (map fst (take k xs) @ map fst (drop k xs))" using d by (simp flip: map_append)
    then show "m \<in> fst ` set (take k xs) \<Longrightarrow> m \<notin> fst ` set (drop k xs)" by auto
  qed
  moreover have "m \<notin> fst ` set (take k xs) \<Longrightarrow> map_of (take k xs) m = None"
    by (simp add: map_of_eq_None_iff)
  moreover have "m \<notin> fst ` set (drop k xs) \<Longrightarrow> map_of (drop k xs) m = None"
    by (simp add: map_of_eq_None_iff)
  ultimately show ?thesis
    by (cases "m \<in> fst ` set (take k xs)") (simp_all add: map_add_def)
qed

lemma resize_lru_props:
  assumes "agrees c" and "lru_of c key = Some l" and "resize_lru ops key lru_size c = (c', u)"
  shows "agrees c'" and "set u = lost c c'" and "pins c' = pins c"
    and "\<exists>l'. lru_of c' key = Some l' \<and> lk_iter ops l' = drop (over lru_size (lk_len ops l)) (lk_iter ops l)"
    and "key' \<noteq> key \<Longrightarrow> lru_of c' key' = lru_of c key'"
proof -
  let ?k = "over lru_size (lk_len ops l)"
  let ?r = "resize_loop ops key lru_size (Suc (lk_len ops l)) l (cache_refs c) []"
  note e = resize_loop_eq [where l = l and n = "Suc (lk_len ops l)" and key = key and size' = lru_size
      and refs = "cache_refs c" and unloads = "[]", OF lessI]
  define l' where "l' = fst ?r"
  have c': "c' = c\<lparr>lru_caches := AList.update key l' (lru_caches c), cache_refs := fst (snd ?r)\<rparr>"
    and u: "u = snd (snd ?r)"
    using assms(2,3) by (auto simp: resize_lru_def l'_def case_prod_beta simp del: resize_loop.simps)
  have it: "lk_iter ops l' = drop ?k (lk_iter ops l)" using e unfolding l'_def by blast
  show "\<exists>l'. lru_of c' key = Some l' \<and> lk_iter ops l' = drop ?k (lk_iter ops l)"
    using it by (auto simp: c' lru_of_def update_conv')
  show "key' \<noteq> key \<Longrightarrow> lru_of c' key' = lru_of c key'" by (simp add: c' lru_of_def update_conv')
  show p: "pins c' = pins c" by (simp add: c')
  let ?ms = "map fst (take ?k (lk_iter ops l))"
  have dist: "distinct ?ms" using iter_distinct [of l] by (simp add: take_map [symmetric])
  have mem: "\<forall>m \<in> set ?ms. entry c key m \<noteq> None"
    using assms(2) by (auto simp: entry_def map_of_eq_None_iff dest: in_set_takeD)
  have dr: "drop_refs key ?ms (cache_refs c) [] = (cache_refs c', u)"
    using e by (simp add: c' u)
  have dl: "distinct (map fst (lru_caches c'))"
    using agreesD(1) [OF assms(1)] by (simp add: c' distinct_update)
  have en: "entry c' = entry (c\<lparr>lru_caches := AList.update key l' (lru_caches c)\<rparr>)"
    by (auto simp: c' entry_def lru_of_def fun_eq_iff)
  have at: "entry c' = (\<lambda>key' m. if key' = key \<and> m \<in> set ?ms then None else entry c key' m)"
    unfolding en entry_update it using assms(2) map_of_drop_distinct [OF iter_distinct, of ?k l]
    by (auto simp: fun_eq_iff entry_def)
  show "agrees c'" by (rule pruned(1) [OF assms(1) dist mem dr dl p at])
  show "set u = lost c c'" by (rule pruned(2) [OF assms(1) dist mem dr dl p at])
qed

lemma remove_entry_props:
  assumes "agrees c" and "remove_entry ops key model c = (c', present, gone)"
  shows "agrees c'" and "set_option gone = lost c c'" and "pins c' = pins c"
    and "present \<longleftrightarrow> entry c key model \<noteq> None"
    and "entry c' = (\<lambda>key' m. if key' = key \<and> m = model then None else entry c key' m)"
proof -
  note a = agreesD [OF assms(1)]
  have same: "lost c c = {}" by (auto simp: lost_def)
  have "agrees c' \<and> set_option gone = lost c c' \<and> pins c' = pins c \<and> (present \<longleftrightarrow> entry c key model \<noteq> None) \<and>
     entry c' = (\<lambda>key' m. if key' = key \<and> m = model then None else entry c key' m)"
  proof (cases "lru_of c key")
    case None
    then have "entry c key model = None" by (simp add: entry_def)
    with None assms same show ?thesis by (auto simp: remove_entry_def fun_eq_iff)
  next
    case (Some l)
    obtain l' r where rem: "lk_remove ops model l = (l', r)" by fastforce
    have it: "lk_iter ops l' = AList.delete model (lk_iter ops l)" and r: "r = map_of (lk_iter ops l) model"
      using remove_iter [of model l] remove_value [of model l] rem by simp_all
    have rm: "r = entry c key model" using Some r by (simp add: entry_def)
    let ?c1 = "c\<lparr>lru_caches := AList.update key l' (lru_caches c)\<rparr>"
    have at: "entry ?c1 = (\<lambda>key' m. if key' = key \<and> m = model then None else entry c key' m)"
      unfolding entry_update it using Some by (auto simp: entry_def fun_eq_iff)
    have dl: "distinct (map fst (lru_caches ?c1))" using a(1) by (simp add: distinct_update)
    show ?thesis
    proof (cases r)
      case None
      then have c': "c' = ?c1" "present = False" "gone = None"
        using assms(2) Some rem by (simp_all add: remove_entry_def)
      have "entry ?c1 = entry c" using at rm None by (auto simp: fun_eq_iff)
      then have "agrees ?c1" using a dl by (simp add: agrees_def refs_of_def)
      moreover have "lost c ?c1 = {}" by (auto simp: lost_def refs_of_def)
      ultimately show ?thesis using c' at rm None by simp
    next
      case r: (Some e)
      obtain refs u where d: "drop_ref key model (cache_refs c) = (refs, u)" by fastforce
      have c': "c' = ?c1\<lparr>cache_refs := refs\<rparr>" "present = True" "gone = (case u of [] \<Rightarrow> None | m # _ \<Rightarrow> Some m)"
        using assms(2) Some rem r d by (simp_all add: remove_entry_def)
      have at': "entry c' = (\<lambda>key' m. if key' = key \<and> m \<in> set [model] then None else entry c key' m)"
        unfolding c'(1) entry_fields at by (simp add: fun_eq_iff)
      have ent: "entry c key model = Some e" using rm r by simp
      then have mem: "\<forall>m \<in> set [model]. entry c key m \<noteq> None" by simp
      have dr: "drop_refs key [model] (cache_refs c) [] = (cache_refs c', u)" using d by (simp add: c'(1))
      have dl': "distinct (map fst (lru_caches c'))" using dl by (simp add: c'(1))
      have p: "pins c' = pins c" by (simp add: c'(1))
      note pr = pruned [OF assms(1) _ mem dr dl' p at', simplified]
      have "set u \<subseteq> {model}" "key \<in> refset (cache_refs c) model"
        using drop_ref_props(4) [OF a(2), of key model] d mem a(4) by (auto simp: refs_of_refset)
      with drop_ref_props(3) [OF a(2) this(2)] d have "set_option gone = set u"
        by (auto simp: c'(3) split: if_splits)
      with pr p at' ent c'(2) show ?thesis by simp
    qed
  qed
  then show "agrees c'" "set_option gone = lost c c'" "pins c' = pins c" "present \<longleftrightarrow> entry c key model \<noteq> None"
    "entry c' = (\<lambda>key' m. if key' = key \<and> m = model then None else entry c key' m)" by blast+
qed

lemma lost_trans:
  assumes "agrees c" and "agrees c'" and "agrees c''"
    and "\<And>key m. entry c' key m \<noteq> None \<Longrightarrow> entry c key m \<noteq> None"
    and "\<And>key m. entry c'' key m \<noteq> None \<Longrightarrow> entry c' key m \<noteq> None"
  shows "lost c c'' = lost c c' \<union> lost c' c''"
  unfolding set_eq_iff Un_iff lost_iff [OF assms(1,2)] lost_iff [OF assms(2,3)] lost_iff [OF assms(1,3)]
  using assms(4,5) by blast

lemma remove_entries_props:
  assumes "agrees c" and "remove_entries ops es c u0 = (c', u)"
  shows "agrees c' \<and> set u = set u0 \<union> lost c c' \<and> pins c' = pins c \<and>
    entry c' = (\<lambda>key m. if (key, m) \<in> set es then None else entry c key m)"
  using assms
proof (induction es arbitrary: c u0)
  case Nil
  then show ?case by (auto simp: lost_def fun_eq_iff)
next
  case (Cons e es)
  obtain key m where e: "e = (key, m)" by (cases e)
  obtain c1 present gone where r: "remove_entry ops key m c = (c1, present, gone)" by (metis prod_cases3)
  note p = remove_entry_props [OF Cons.prems(1) r]
  have "remove_entries ops es c1 (u0 @ (case gone of None \<Rightarrow> [] | Some g \<Rightarrow> [g])) = (c', u)"
    using Cons.prems(2) e r by simp
  note ih = Cons.IH [OF p(1) this]
  have l: "lost c c' = lost c c1 \<union> lost c1 c'"
    by (rule lost_trans) (use Cons.prems(1) p(1,5) ih in \<open>auto split: if_splits\<close>)
  have g: "set (case gone of None \<Rightarrow> [] | Some g \<Rightarrow> [g]) = lost c c1"
    using p(2) by (cases gone) auto
  show ?case using ih l g p(3,5) by (auto simp: e fun_eq_iff)
qed

section \<open>The operations\<close>

text \<open>
  \<open>touch_load\<close> leaves the LRU of the key as the old one without the model, then the model,
  cut at the front to the size; the models without a reference afterwards are reported,
  the loaded one among them if the size leaves no room.
\<close>

lemma touch_load_props:
  assumes "agrees c" and "touch_load ops after model key lru_size ttl now c = (c', u)"
  shows "agrees c'" and "pins c' = pins c"
    and "set u = {m. (m = model \<or> refs_of c m \<noteq> {}) \<and> refs_of c' m = {}}"
    and "\<exists>l l'. (lru_of c key = Some l \<or> lru_of c key = None \<and> l = lk_empty ops) \<and> lru_of c' key = Some l' \<and>
      (let xs = AList.delete model (lk_iter ops l) @ [(model, new_expiration after ttl now)]
       in lk_iter ops l' = drop (over lru_size (length xs)) xs)"
    and "key' \<noteq> key \<Longrightarrow> lru_of c' key' = lru_of c key'"
proof -
  define l where "l = (case lru_of c key of None \<Rightarrow> lk_empty ops | Some l \<Rightarrow> l)"
  define e where "e = new_expiration after ttl now"
  define l2 where "l2 = fst (lk_insert ops model e (fst (lk_remove ops model l)))"
  define c1 where "c1 = c\<lparr>cache_refs := AList.update model (insert key (refs_of c model)) (cache_refs c),
      lru_caches := AList.update key l2 (lru_caches c)\<rparr>"
  note a = agreesD [OF assms(1)]
  have run: "resize_lru ops key lru_size c1 = (c', u)"
    using assms(2) by (simp add: touch_load_def Let_def c1_def l2_def l_def e_def)
  have it2: "lk_iter ops l2 = AList.delete model (lk_iter ops l) @ [(model, e)]"
    by (simp add: l2_def insert_iter remove_iter delete_idem)
  have m2: "map_of (lk_iter ops l2) = (map_of (lk_iter ops l))(model \<mapsto> e)"
    unfolding it2 by (rule map_of_move_back)
  have lent: "map_of (lk_iter ops l) m = entry c key m" for m
    by (simp add: l_def entry_def iter_empty split: option.split)
  have en: "entry c1 = (\<lambda>key' m. if key' = key \<and> m = model then Some e else entry c key' m)"
  proof -
    have "entry c1 = entry (c\<lparr>lru_caches := AList.update key l2 (lru_caches c)\<rparr>)"
      by (auto simp: c1_def entry_def lru_of_def fun_eq_iff)
    then show ?thesis unfolding entry_update m2 by (auto simp: fun_eq_iff lent)
  qed
  have refs: "refs_of c1 m = (if m = model then insert key (refs_of c model) else refs_of c m)" for m
    by (simp add: c1_def refs_of_refset refset_update)
  have fin: "finite (refs_of c model)" using tidy_finite [OF a(2)] by (simp add: refs_of_refset)
  have "key' \<in> refs_of c1 m \<longleftrightarrow> entry c1 key' m \<noteq> None" for key' m
    using a(4) [of key' m] a(4) [of key' model] by (auto simp: refs en)
  then have a1: "agrees c1"
    using a fin by (auto simp: agrees_def c1_def distinct_update intro!: tidy_update)
  have lru1: "lru_of c1 key = Some l2" by (simp add: c1_def lru_of_def update_conv')
  note r = resize_lru_props [OF a1 lru1 run]
  show "agrees c'" by (rule r(1))
  show "pins c' = pins c" using r(3) by (simp add: c1_def)
  show "set u = {m. (m = model \<or> refs_of c m \<noteq> {}) \<and> refs_of c' m = {}}"
    unfolding r(2) lost_def by (auto simp: refs)
  show "\<exists>l l'. (lru_of c key = Some l \<or> lru_of c key = None \<and> l = lk_empty ops) \<and> lru_of c' key = Some l' \<and>
      (let xs = AList.delete model (lk_iter ops l) @ [(model, new_expiration after ttl now)]
       in lk_iter ops l' = drop (over lru_size (length xs)) xs)"
  proof -
    have "lru_of c key = Some l \<or> lru_of c key = None \<and> l = lk_empty ops"
      by (simp add: l_def split: option.split)
    with r(4) show ?thesis unfolding len_iter it2 e_def Let_def by blast
  qed
  show "lru_of c' key' = lru_of c key'" if "key' \<noteq> key"
    using r(5) [OF that] that by (simp add: c1_def lru_of_def update_conv')
qed

lemma clear_key_props:
  assumes "agrees c" and "clear_key ops key c = (c', n, u)"
  shows "agrees c'" and "set u = lost c c'" and "pins c' = pins c"
    and "entry c' = (\<lambda>key' m. if key' = key then None else entry c key' m)"
proof -
  note a = agreesD [OF assms(1)]
  have "agrees c' \<and> set u = lost c c' \<and> pins c' = pins c \<and>
      entry c' = (\<lambda>key' m. if key' = key then None else entry c key' m)"
  proof (cases "lru_of c key")
    case None
    then show ?thesis using assms by (auto simp: clear_key_def lost_def entry_def fun_eq_iff)
  next
    case (Some l)
    let ?ms = "map fst (lk_iter ops l)"
    obtain refs u' where d: "drop_refs key ?ms (cache_refs c) [] = (refs, u')" by fastforce
    have c': "c' = c\<lparr>lru_caches := AList.delete key (lru_caches c), cache_refs := refs\<rparr>" "u = u'"
      using assms(2) Some d by (simp_all add: clear_key_def)
    have mem: "\<forall>m \<in> set ?ms. entry c key m \<noteq> None"
      using Some by (auto simp: entry_def map_of_eq_None_iff)
    have none: "entry c key m = None" if "m \<notin> set ?ms" for m
      using that Some by (auto simp: entry_def map_of_eq_None_iff)
    have at0: "entry c' = (\<lambda>key' m. if key' = key then None else entry c key' m)"
      by (auto simp: c'(1) entry_def lru_of_def fun_eq_iff)
    then have at: "entry c' = (\<lambda>key' m. if key' = key \<and> m \<in> set ?ms then None else entry c key' m)"
      using none by (auto simp: fun_eq_iff)
    have dl: "distinct (map fst (lru_caches c'))" using a(1) by (simp add: c'(1) distinct_delete)
    have dr: "drop_refs key ?ms (cache_refs c) [] = (cache_refs c', u)" using d by (simp add: c')
    have p: "pins c' = pins c" by (simp add: c'(1))
    from pruned [OF assms(1) iter_distinct mem dr dl p at] p at0 show ?thesis by simp
  qed
  then show "agrees c'" "set u = lost c c'" "pins c' = pins c"
    "entry c' = (\<lambda>key' m. if key' = key then None else entry c key' m)" by blast+
qed

lemma expired_iff:
  assumes "agrees c"
  shows "(key, m) \<in> set (expired_entries ops now c) \<longleftrightarrow>
    pins_of c m = 0 \<and> (\<exists>e. entry c key m = Some e \<and> is_expired now e)"
proof -
  have mem: "(key, l) \<in> set (lru_caches c) \<longleftrightarrow> lru_of c key = Some l" for key l
    using agreesD(1) [OF assms] by (simp add: lru_of_def map_of_eq_Some_iff)
  have it: "(m, e) \<in> set (lk_iter ops l) \<longleftrightarrow> map_of (lk_iter ops l) m = Some e" for m e l
    using iter_distinct [of l] by (simp add: map_of_eq_Some_iff)
  have "(key, m) \<in> set (expired_entries ops now c) \<longleftrightarrow>
      (\<exists>l e. (key, l) \<in> set (lru_caches c) \<and> (m, e) \<in> set (lk_iter ops l) \<and> pins_of c m = 0 \<and> is_expired now e)"
    by (fastforce simp: expired_entries_def image_iff)
  then show ?thesis unfolding mem it by (auto simp: entry_def split: option.splits)
qed

lemma expire_props:
  assumes "agrees c" and "expire_entries ops now c = (c', u)"
  shows "agrees c'" and "set u = lost c c'" and "pins c' = pins c"
    and "entry c' key m = (case entry c key m of None \<Rightarrow> None
      | Some e \<Rightarrow> if pins_of c m = 0 \<and> is_expired now e then None else Some e)"
  using remove_entries_props [OF assms(1), of "expired_entries ops now c" "[]" c' u] assms(2)
    expired_iff [OF assms(1), of key m now]
  by (auto simp: expire_entries_def split: option.split)

text \<open>Pins.\<close>

lemma pin_props:
  assumes "agrees c"
  shows "agrees (pin model c)" and "entry (pin model c) = entry c" and "refs_of (pin model c) = refs_of c"
    and "pins_of (pin model c) = (pins_of c)(model := pins_of c model + 1)"
proof -
  show "entry (pin model c) = entry c" "refs_of (pin model c) = refs_of c"
    by (simp_all add: pin_def refs_of_def fun_eq_iff)
  then show "agrees (pin model c)"
    using agreesD [OF assms] by (auto simp: agrees_def pin_def distinct_update)
  show "pins_of (pin model c) = (pins_of c)(model := pins_of c model + 1)"
    by (auto simp: pins_of_def pin_def update_conv' fun_eq_iff)
qed

lemma unpin_props:
  assumes "agrees c"
  shows "agrees (unpin model c)" and "entry (unpin model c) = entry c" and "refs_of (unpin model c) = refs_of c"
    and "pins_of (unpin model c) = (pins_of c)(model := pins_of c model - 1)"
proof -
  show e: "entry (unpin model c) = entry c" and r: "refs_of (unpin model c) = refs_of c"
    by (auto simp: unpin_def refs_of_def fun_eq_iff split: option.split)
  have "distinct (map fst (pins (unpin model c)))"
    using agreesD(3) [OF assms] by (auto simp: unpin_def distinct_update distinct_delete split: option.split)
  moreover have "lru_caches (unpin model c) = lru_caches c" "cache_refs (unpin model c) = cache_refs c"
    by (auto simp: unpin_def split: option.split)
  ultimately show "agrees (unpin model c)"
    using agreesD [OF assms] e r by (simp add: agrees_def)
  show "pins_of (unpin model c) = (pins_of c)(model := pins_of c model - 1)"
    by (auto simp: pins_of_def unpin_def update_conv' fun_eq_iff split: option.splits)
qed

lemma unpin_restore_props:
  assumes "agrees c"
  shows "agrees (unpin_restore ops after model key ttl now c)"
    and "pins_of (unpin_restore ops after model key ttl now c) = (pins_of c)(model := pins_of c model - 1)"
    and "refs_of (unpin_restore ops after model key ttl now c) = refs_of c"
    and "entry (unpin_restore ops after model key ttl now c) = (\<lambda>key' m.
      if key' = key \<and> m = model \<and> entry c key model \<noteq> None then Some (new_expiration after ttl now) else entry c key' m)"
proof -
  let ?c1 = "unpin model c"
  let ?e = "new_expiration after ttl now"
  note u = unpin_props [OF assms, of model]
  let ?t = "unpin_restore ops after model key ttl now c"
  have "lru_of ?c1 = lru_of c" by (auto simp: lru_of_def unpin_def fun_eq_iff split: option.split)
  note lru = fun_cong [OF this]
  have t: "?t = (case lru_of c key of None \<Rightarrow> ?c1
      | Some l \<Rightarrow> ?c1\<lparr>lru_caches := AList.update key (lk_set ops model ?e l) (lru_caches ?c1)\<rparr>)"
    by (simp add: unpin_restore_def Let_def lru)
  show p: "pins_of ?t = (pins_of c)(model := pins_of c model - 1)"
    unfolding u(4) [symmetric] by (auto simp: t pins_of_def fun_eq_iff split: option.split)
  show r: "refs_of ?t = refs_of c"
    unfolding u(3) [symmetric] by (auto simp: t refs_of_def fun_eq_iff split: option.split)
  show e: "entry ?t = (\<lambda>key' m. if key' = key \<and> m = model \<and> entry c key model \<noteq> None
      then Some ?e else entry c key' m)"
  proof (cases "lru_of c key")
    case None
    then show ?thesis using u(2) by (auto simp: t entry_def fun_eq_iff)
  next
    case (Some l)
    have "map_of (AList.map_entry model (\<lambda>_. ?e) xs) m =
        (if m = model \<and> map_of xs m \<noteq> None then Some ?e else map_of xs m)" for xs m
      by (induction xs) auto
    then show ?thesis using Some u(2)
      by (auto simp: t entry_update set_iter fun_eq_iff) (auto simp: entry_def)
  qed
  have "key' \<in> refs_of ?t m \<longleftrightarrow> entry ?t key' m \<noteq> None" for key' m
    unfolding r e using agreesD(4) [OF assms, of key' m] by auto
  moreover have "cache_refs ?t = cache_refs ?c1" "pins ?t = pins ?c1"
    by (auto simp: t split: option.split)
  moreover have "distinct (map fst (lru_caches ?t))"
    using agreesD(1) [OF u(1)] by (auto simp: t distinct_update split: option.split)
  ultimately show "agrees ?t" using agreesD(2,3) [OF u(1)] by (simp add: agrees_def)
qed

lemma remove_everywhere_props:
  assumes "agrees c"
  shows "agrees (remove_everywhere ops model c)"
    and "entry (remove_everywhere ops model c) = (\<lambda>key m. if m = model then None else entry c key m)"
    and "pins (remove_everywhere ops model c) = pins c"
    and "refs_of (remove_everywhere ops model c) = (refs_of c)(model := {})"
proof -
  let ?t = "remove_everywhere ops model c"
  note a = agreesD [OF assms]
  show p: "pins ?t = pins c" by (simp add: remove_everywhere_def)
  show r: "refs_of ?t = (refs_of c)(model := {})"
    by (auto simp: remove_everywhere_def refs_of_def fun_eq_iff)
  have "map_of (map (\<lambda>(key, lru). (key, fst (lk_remove ops model lru))) xs) key =
      map_option (\<lambda>lru. fst (lk_remove ops model lru)) (map_of xs key)" for xs :: "(string \<times> 'l) list" and key
    by (induction xs) auto
  then show e: "entry ?t = (\<lambda>key m. if m = model then None else entry c key m)"
    by (auto simp: entry_def lru_of_def remove_everywhere_def remove_map fun_eq_iff split: option.split)
  have "map fst (lru_caches ?t) = map fst (lru_caches c)"
    by (simp add: remove_everywhere_def case_prod_unfold comp_def)
  moreover have "tidy (cache_refs ?t)"
    using a(2) by (auto simp: remove_everywhere_def tidy_def distinct_delete)
  moreover have "key \<in> refs_of ?t m \<longleftrightarrow> entry ?t key m \<noteq> None" for key m
    using a(4) by (simp add: r e)
  ultimately show "agrees ?t" using a(1,3) p by (simp add: agrees_def)
qed

lemma refs_of_empty [simp]: "refs_of empty_cache m = {}"
  by (simp add: refs_of_def empty_cache_def)

lemma agrees_empty: "agrees empty_cache"
  by (simp add: agrees_def empty_cache_def tidy_def refs_of_def entry_def lru_of_def)

end

end
