(* ===== verification/ModelManager.thy ===== *)
theory ModelManager
  imports ModelCache
begin

text \<open>
  The model manager (\<open>ModelManager\<close> in \<open>panoptikon/src/inferio/manager.rs\<close>).  Every
  critical section of its state mutex is one function; the slow phases between them (the
  load lock, spawning, predicting) are the steps of a transition system.  A loaded model is
  the generation of its dispatcher: the channel and the task carry that name.
\<close>

section \<open>State and critical sections\<close>

datatype drain_task = Dispatcher nat | Discard string

record 'l manager_state =
  mcache :: "'l model_cache"
  models :: "(string \<times> nat) list"
  draining :: "drain_task list"
  next_generation :: nat
  shutting_down :: bool
  shutdowns_sent :: "nat list"

definition new_manager :: "'l manager_state" where
  "new_manager =
     \<lparr>mcache = empty_cache, models = [], draining = [], next_generation = 0, shutting_down = False,
      shutdowns_sent = []\<rparr>"

definition begin_unload :: "'l manager_state \<Rightarrow> string \<Rightarrow> 'l manager_state" where
  "begin_unload st model =
     (case map_of (models st) model of
        None \<Rightarrow> st
      | Some g \<Rightarrow>
          st\<lparr>models := AList.delete model (models st), shutdowns_sent := shutdowns_sent st @ [g],
             draining := draining st @ [Dispatcher g]\<rparr>)"

definition begin_unloads :: "string list \<Rightarrow> 'l manager_state \<Rightarrow> 'l manager_state" where
  "begin_unloads ms st = foldl begin_unload st ms"

definition unload_model :: "'l model_ops \<Rightarrow> string \<Rightarrow> string \<Rightarrow> 'l manager_state \<Rightarrow> 'l manager_state \<times> bool" where
  "unload_model ops key model st =
     (case remove_entry ops key model (mcache st) of
        (c, was_present, gone) \<Rightarrow>
          (let st1 = st\<lparr>mcache := c\<rparr> in
           ((case gone of None \<Rightarrow> st1 | Some m \<Rightarrow> begin_unload st1 m), was_present)))"

definition clear_model_cache :: "'l model_ops \<Rightarrow> string \<Rightarrow> 'l manager_state \<Rightarrow> 'l manager_state \<times> nat" where
  "clear_model_cache ops key st =
     (case clear_key ops key (mcache st) of
        (c, count, unloads) \<Rightarrow> (begin_unloads unloads (st\<lparr>mcache := c\<rparr>), count))"

definition sweep :: "'l model_ops \<Rightarrow> instant \<Rightarrow> (drain_task \<Rightarrow> bool) \<Rightarrow> 'l manager_state \<Rightarrow> 'l manager_state" where
  "sweep ops now is_finished st =
     (if shutting_down st then st
      else
        (let st1 = st\<lparr>draining := filter (\<lambda>t. \<not> is_finished t) (draining st)\<rparr> in
         case expire_entries ops now (mcache st1) of
           (c, unloads) \<Rightarrow> begin_unloads unloads (st1\<lparr>mcache := c\<rparr>)))"

text \<open>
  \<open>shutdown\<close>: the section that flips the flag and takes the tasks, and the one after the
  load lock.  Both return the tasks that the shutdown awaits.
\<close>

definition shutdown_begin :: "'l manager_state \<Rightarrow> 'l manager_state \<times> drain_task list" where
  "shutdown_begin st =
     (let gens = map snd (models st) in
      (st\<lparr>shutting_down := True, models := [], shutdowns_sent := shutdowns_sent st @ gens,
          draining := [], mcache := empty_cache\<rparr>,
       map Dispatcher gens @ draining st))"

definition shutdown_rest :: "'l manager_state \<Rightarrow> 'l manager_state \<times> drain_task list" where
  "shutdown_rest st = (st\<lparr>draining := []\<rparr>, draining st)"

definition handle_worker_death :: "'l model_ops \<Rightarrow> string \<Rightarrow> nat \<Rightarrow> 'l manager_state \<Rightarrow> 'l manager_state" where
  "handle_worker_death ops model generation st =
     (if map_of (models st) model = Some generation
      then st\<lparr>models := AList.delete model (models st),
              draining := draining st @ [Dispatcher generation],
              mcache := remove_everywhere ops model (mcache st)\<rparr>
      else st)"

section \<open>Loading\<close>

record load_request =
  lr_model :: string
  lr_key :: string
  lr_size :: int
  lr_ttl :: int
  lr_pin :: bool

datatype load_error = ShuttingDown | EvictedAtOnce | SpawnFailed | UnloadedWhileLoading

datatype load_start = Refused load_error | Ready "nat option" | Spawning

definition load_begin ::
  "'l model_ops \<Rightarrow> ttl_clock \<Rightarrow> instant \<Rightarrow> load_request \<Rightarrow> 'l manager_state \<Rightarrow> 'l manager_state \<times> load_start" where
  "load_begin ops after now r st =
     (if shutting_down st then (st, Refused ShuttingDown)
      else case touch_load ops after (lr_model r) (lr_key r) (lr_size r) (lr_ttl r) now (mcache st) of
        (c, unloads) \<Rightarrow>
          (let st1 = begin_unloads unloads (st\<lparr>mcache := c\<rparr>);
               pinned = st1\<lparr>mcache := pin (lr_model r) (mcache st1)\<rparr>
           in if \<not> refs_non_empty (lr_model r) (mcache st1) then (st1, Refused EvictedAtOnce)
              else case map_of (models st1) (lr_model r) of
                Some g \<Rightarrow> if lr_pin r then (pinned, Ready (Some g)) else (st1, Ready None)
              | None \<Rightarrow> (pinned, Spawning)))"

text \<open>The section after the spawn; \<open>spawned\<close> tells whether the whole worker set came up.\<close>

definition load_finish ::
  "'l model_ops \<Rightarrow> load_request \<Rightarrow> bool \<Rightarrow> 'l manager_state \<Rightarrow> 'l manager_state \<times> (load_error + nat option)" where
  "load_finish ops r spawned st =
     (let model = lr_model r;
          st1 = st\<lparr>mcache := unpin model (mcache st)\<rparr>
      in if \<not> spawned then
           (case remove_entry ops (lr_key r) model (mcache st1) of
              (c, _, gone) \<Rightarrow>
                (let st2 = st1\<lparr>mcache := c\<rparr> in
                 ((case gone of None \<Rightarrow> st2 | Some m \<Rightarrow> begin_unload st2 m), Inl SpawnFailed)))
         else if shutting_down st1 \<or> \<not> refs_non_empty model (mcache st1) then
           (st1\<lparr>draining := draining st1 @ [Discard model]\<rparr>, Inl UnloadedWhileLoading)
         else
           (let g = next_generation st1;
                st2 = st1\<lparr>next_generation := g + 1\<rparr>;
                st3 = (if lr_pin r then st2\<lparr>mcache := pin model (mcache st2)\<rparr> else st2)
            in (st3\<lparr>models := AList.update model g (models st3)\<rparr>, Inr (if lr_pin r then Some g else None))))"

text \<open>Releasing a \<open>PinGuard\<close>.\<close>

definition release_pin ::
  "'l model_ops \<Rightarrow> ttl_clock \<Rightarrow> instant \<Rightarrow> string \<Rightarrow> (string \<times> int) option \<Rightarrow> 'l manager_state \<Rightarrow> 'l manager_state" where
  "release_pin ops after now model restore st =
     (case restore of
        Some (key, ttl) \<Rightarrow> st\<lparr>mcache := unpin_restore ops after model key ttl now (mcache st)\<rparr>
      | None \<Rightarrow> st\<lparr>mcache := unpin model (mcache st)\<rparr>)"

section \<open>Spawning a worker set\<close>

text \<open>
  What the outside answers while one replica starts: \<open>configure\<close> on a claimed worker (fine,
  refused by the worker, or a dead worker), a fresh spawn, and \<open>load\<close>.
\<close>

datatype 'e configure_result = Configured | WorkerRefused 'e | WorkerDied

record ('w, 'e) replica_answers =
  ra_configure :: "'e configure_result"
  ra_fresh :: "'e + 'w"
  ra_load :: "'e option"

definition claim_replica :: "bool \<Rightarrow> string option list \<Rightarrow> nat option" where
  "claim_replica env_is_clean devices =
     (if env_is_clean then (case filter (\<lambda>i. devices ! i = None) [0..<length devices] of [] \<Rightarrow> None | i # _ \<Rightarrow> Some i)
      else None)"

text \<open>Both return the workers they killed, and the worker or the error.\<close>

definition configure_claimed :: "'w \<Rightarrow> ('w, 'e) replica_answers \<Rightarrow> 'w list \<times> ('e + 'w)" where
  "configure_claimed w a =
     (case ra_configure a of
        Configured \<Rightarrow> ([], Inr w)
      | WorkerRefused e \<Rightarrow> ([w], Inl e)
      | WorkerDied \<Rightarrow> ([], ra_fresh a))"

definition start_replica :: "'w option \<Rightarrow> ('w, 'e) replica_answers \<Rightarrow> 'w list \<times> ('e + 'w)" where
  "start_replica claimed a =
     (case (case claimed of Some w \<Rightarrow> configure_claimed w a | None \<Rightarrow> ([], ra_fresh a)) of
        (killed, Inl e) \<Rightarrow> (killed, Inl e)
      | (killed, Inr w) \<Rightarrow>
          (case ra_load a of None \<Rightarrow> (killed, Inr w) | Some e \<Rightarrow> (killed @ [w], Inl e)))"

fun collect_replicas ::
  "('w list \<times> ('e + 'w)) list \<Rightarrow> 'w list \<Rightarrow> 'w list \<Rightarrow> 'e option \<Rightarrow> 'w list \<times> 'w list \<times> 'e option" where
  "collect_replicas [] killed workers first = (killed, workers, first)"
| "collect_replicas ((k, Inr w) # rs) killed workers first = collect_replicas rs (killed @ k) (workers @ [w]) first"
| "collect_replicas ((k, Inl e) # rs) killed workers first =
     collect_replicas rs (killed @ k) workers (case first of None \<Rightarrow> Some e | Some f \<Rightarrow> Some f)"

definition spawn_model ::
  "bool \<Rightarrow> string option list \<Rightarrow> 'w option \<Rightarrow> (nat \<Rightarrow> ('w, 'e) replica_answers) \<Rightarrow> 'w list \<times> ('e + 'w list)" where
  "spawn_model env_is_clean devices pooled answers =
     (let replica = claim_replica env_is_clean devices;
          claimed = (case replica of None \<Rightarrow> None | Some _ \<Rightarrow> pooled);
          results = map (\<lambda>i. start_replica (if Some i = replica then claimed else None) (answers i)) [0..<length devices]
      in case collect_replicas results [] [] None of
           (killed, workers, Some e) \<Rightarrow> (killed @ workers, Inl e)
         | (killed, workers, None) \<Rightarrow> (killed, Inr workers))"

section \<open>The registry's batch size\<close>

text \<open>
  \<open>registry_default_batch\<close>: metadata values are given by their \<open>as_i64\<close> reading.
\<close>

record registry_group =
  rg_metadata :: "(string \<times> int option) list"
  rg_models :: "(string \<times> (string \<times> int option) list) list"

fun split_once :: "char \<Rightarrow> string \<Rightarrow> (string \<times> string) option" where
  "split_once c [] = None"
| "split_once c (x # xs) =
     (if x = c then Some ([], xs)
      else case split_once c xs of None \<Rightarrow> None | Some (a, b) \<Rightarrow> Some (x # a, b))"

definition registry_default_batch :: "(string \<times> registry_group) list \<Rightarrow> string \<Rightarrow> nat option" where
  "registry_default_batch groups model =
     (case split_once (CHR ''/'') model of
        None \<Rightarrow> None
      | Some (gname, mname) \<Rightarrow>
          (case map_of groups gname of
             None \<Rightarrow> None
           | Some grp \<Rightarrow>
               (case map_of (rg_models grp) mname of
                  None \<Rightarrow> None
                | Some meta \<Rightarrow>
                    (case (case map_of meta ''default_batch_size'' of
                             Some v \<Rightarrow> Some v
                           | None \<Rightarrow> map_of (rg_metadata grp) ''default_batch_size'') of
                       Some (Some v) \<Rightarrow> if 0 < v \<and> v \<le> int u32_max then Some (nat v) else None
                     | _ \<Rightarrow> None))))"

section \<open>The system\<close>

record predict_guard =
  pg_model :: string
  pg_key :: string
  pg_ttl :: int
  pg_generation :: nat

text \<open>
  The manager with the load that holds the load lock, the predicts in flight, the tasks the
  shutdown awaits, and the finished tasks that the sweeper reaped.
\<close>

record 'l manager_world =
  mw_state :: "'l manager_state"
  mw_loading :: "load_request option"
  mw_predicts :: "predict_guard list"
  mw_awaited :: "drain_task list"
  mw_reaped :: "drain_task list"

definition new_world :: "'l manager_world" where
  "new_world = \<lparr>mw_state = new_manager, mw_loading = None, mw_predicts = [], mw_awaited = [], mw_reaped = []\<rparr>"

definition guard_of :: "load_request \<Rightarrow> nat \<Rightarrow> predict_guard" where
  "guard_of r g = \<lparr>pg_model = lr_model r, pg_key = lr_key r, pg_ttl = lr_ttl r, pg_generation = g\<rparr>"

definition without :: "nat \<Rightarrow> 'a list \<Rightarrow> 'a list" where
  "without i xs = take i xs @ drop (Suc i) xs"

inductive manager_step :: "'l model_ops \<Rightarrow> ttl_clock \<Rightarrow> 'l manager_world \<Rightarrow> 'l manager_world \<Rightarrow> bool"
  for ops after where
  load_starts: "mw_loading w = None \<Longrightarrow> load_begin ops after now r (mw_state w) = (st, out) \<Longrightarrow>
    manager_step ops after w
      (case out of
         Refused _ \<Rightarrow> w\<lparr>mw_state := st\<rparr>
       | Ready None \<Rightarrow> w\<lparr>mw_state := st\<rparr>
       | Ready (Some g) \<Rightarrow> w\<lparr>mw_state := st, mw_predicts := mw_predicts w @ [guard_of r g]\<rparr>
       | Spawning \<Rightarrow> w\<lparr>mw_state := st, mw_loading := Some r\<rparr>)"
| load_ends: "mw_loading w = Some r \<Longrightarrow> load_finish ops r spawned (mw_state w) = (st, out) \<Longrightarrow>
    manager_step ops after w
      (case out of
         Inr (Some g) \<Rightarrow>
           w\<lparr>mw_state := st, mw_loading := None, mw_predicts := mw_predicts w @ [guard_of r g]\<rparr>
       | _ \<Rightarrow> w\<lparr>mw_state := st, mw_loading := None\<rparr>)"
| load_cancelled: "mw_loading w = Some r \<Longrightarrow>
    manager_step ops after w
      (w\<lparr>mw_state := release_pin ops after now (lr_model r) None (mw_state w), mw_loading := None\<rparr>)"
| predict_ends: "i < length (mw_predicts w) \<Longrightarrow> p = mw_predicts w ! i \<Longrightarrow>
    manager_step ops after w
      (w\<lparr>mw_state := release_pin ops after now (pg_model p) (Some (pg_key p, pg_ttl p)) (mw_state w),
         mw_predicts := without i (mw_predicts w)\<rparr>)"
| unload: "manager_step ops after w (w\<lparr>mw_state := fst (unload_model ops key model (mw_state w))\<rparr>)"
| clear_all: "manager_step ops after w (w\<lparr>mw_state := fst (clear_model_cache ops key (mw_state w))\<rparr>)"
| sweeps: "manager_step ops after w
      (w\<lparr>mw_state := sweep ops now is_finished (mw_state w),
         mw_reaped := mw_reaped w @
           (if shutting_down (mw_state w) then [] else filter is_finished (draining (mw_state w)))\<rparr>)"
| death: "manager_step ops after w (w\<lparr>mw_state := handle_worker_death ops model g (mw_state w)\<rparr>)"
| shutdown_starts: "shutdown_begin (mw_state w) = (st, handles) \<Longrightarrow>
    manager_step ops after w (w\<lparr>mw_state := st, mw_awaited := mw_awaited w @ handles\<rparr>)"
| shutdown_ends: "mw_loading w = None \<Longrightarrow> shutting_down (mw_state w) \<Longrightarrow>
    shutdown_rest (mw_state w) = (st, handles) \<Longrightarrow>
    manager_step ops after w (w\<lparr>mw_state := st, mw_awaited := mw_awaited w @ handles\<rparr>)"

inductive manager_reachable :: "'l model_ops \<Rightarrow> ttl_clock \<Rightarrow> 'l manager_world \<Rightarrow> bool"
  for ops after where
  new_reachable: "manager_reachable ops after new_world"
| step_reachable: "manager_reachable ops after w \<Longrightarrow> manager_step ops after w w' \<Longrightarrow>
    manager_reachable ops after w'"

end
