(* ===== verification/ModelManagerInv.thy ===== *)
theory ModelManagerInv
  imports ModelManager
begin

text \<open>
  The invariant of the model manager: a loaded model is referenced by a cache key, the pin
  counts are the predicts and loads in flight, and every dispatcher ever started is loaded,
  draining, awaited by the shutdown or finished.
\<close>

context model_lrus
begin

definition sound :: "'l manager_state \<Rightarrow> bool" where
  "sound st \<longleftrightarrow>
     agrees (mcache st) \<and> distinct (map fst (models st)) \<and> distinct (map snd (models st)) \<and>
     (\<forall>g \<in> snd ` set (models st). g < next_generation st) \<and>
     (\<forall>m. map_of (models st) m \<noteq> None \<longrightarrow> refs_of (mcache st) m \<noteq> {}) \<and>
     (shutting_down st \<longrightarrow> models st = [] \<and> (\<forall>m. refs_of (mcache st) m = {}))"

definition covered :: "drain_task set \<Rightarrow> 'l manager_state \<Rightarrow> bool" where
  "covered T st \<longleftrightarrow>
     (\<forall>g < next_generation st. g \<in> snd ` set (models st) \<or> Dispatcher g \<in> set (draining st) \<union> T)"

lemma soundD:
  assumes "sound st"
  shows "agrees (mcache st)" "distinct (map fst (models st))" "distinct (map snd (models st))"
    "g \<in> snd ` set (models st) \<Longrightarrow> g < next_generation st"
    "map_of (models st) m \<noteq> None \<Longrightarrow> refs_of (mcache st) m \<noteq> {}"
    "shutting_down st \<Longrightarrow> models st = []" "shutting_down st \<Longrightarrow> refs_of (mcache st) m = {}"
  using assms unfolding sound_def by blast+

lemma begin_unload_frame [simp]:
  "mcache (begin_unload st m) = mcache st" "next_generation (begin_unload st m) = next_generation st"
  "shutting_down (begin_unload st m) = shutting_down st"
  by (simp_all add: begin_unload_def split: option.split)

lemma begin_unloads_simps [simp]:
  "begin_unloads [] st = st" "begin_unloads (m # ms) st = begin_unloads ms (begin_unload st m)"
  by (simp_all add: begin_unloads_def)

lemma begin_unloads_frame [simp]:
  "mcache (begin_unloads ms st) = mcache st" "next_generation (begin_unloads ms st) = next_generation st"
  "shutting_down (begin_unloads ms st) = shutting_down st"
  by (induction ms arbitrary: st) simp_all

lemma begin_unload_models: "models (begin_unload st m) = AList.delete m (models st)"
  by (auto simp: begin_unload_def delete_notin map_of_eq_None_iff split: option.split)

lemma begin_unloads_models: "models (begin_unloads ms st) = filter (\<lambda>(m, g). m \<notin> set ms) (models st)"
proof (induction ms arbitrary: st)
  case Nil
  then show ?case by simp
next
  case (Cons m ms)
  have "AList.delete m xs = filter (\<lambda>(k, g). k \<noteq> m) xs" for xs :: "(string \<times> nat) list"
    by (auto simp: AList.delete_eq case_prod_unfold intro: filter_cong)
  with Cons show ?case
    by (simp add: begin_unload_models) (metis (mono_tags, lifting) case_prod_unfold)
qed

lemma begin_unloads_map: "map_of (models (begin_unloads ms st)) m = (if m \<in> set ms then None else map_of (models st) m)"
proof -
  have "map_of (filter (\<lambda>(k, g). k \<notin> S) xs) m = (if m \<in> S then None else map_of xs m)"
    for xs :: "(string \<times> nat) list" and S
    by (induction xs) auto
  then show ?thesis by (simp add: begin_unloads_models)
qed

lemma begin_unload_draining:
  assumes "distinct (map fst (models st))"
  shows "set (draining (begin_unload st m)) = set (draining st) \<union> {Dispatcher g |g. (m, g) \<in> set (models st)}"
proof -
  have "(m, g) \<in> set (models st) \<longleftrightarrow> map_of (models st) m = Some g" for g
    using assms by (simp add: map_of_eq_Some_iff)
  then show ?thesis by (auto simp: begin_unload_def split: option.split)
qed

lemma begin_unloads_covered:
  assumes "distinct (map fst (models st))" and "covered T st"
  shows "covered T (begin_unloads ms st) \<and> set (draining st) \<subseteq> set (draining (begin_unloads ms st))"
  using assms
proof (induction ms arbitrary: st)
  case Nil
  then show ?case by simp
next
  case (Cons m ms)
  let ?t = "begin_unload st m"
  have d: "distinct (map fst (models ?t))"
    using Cons.prems(1) by (simp add: begin_unload_models distinct_delete)
  have dr: "set (draining ?t) = set (draining st) \<union> {Dispatcher g |g. (m, g) \<in> set (models st)}"
    by (rule begin_unload_draining [OF Cons.prems(1)])
  have "covered T ?t"
    unfolding covered_def
  proof (intro allI impI)
    fix g assume "g < next_generation ?t"
    then have "g \<in> snd ` set (models st) \<or> Dispatcher g \<in> set (draining st) \<union> T"
      using Cons.prems(2) by (simp add: covered_def)
    then show "g \<in> snd ` set (models ?t) \<or> Dispatcher g \<in> set (draining ?t) \<union> T"
      unfolding dr begin_unload_models set_delete by force
  qed
  from Cons.IH [OF d this] dr show ?case by auto
qed

text \<open>
  Replacing the cache and unloading the models without a reference.
\<close>

lemma unloading:
  assumes "sound st" and "covered T st" and "agrees c"
    and "\<And>m. map_of (models st) m \<noteq> None \<Longrightarrow> refs_of c m = {} \<Longrightarrow> m \<in> set u"
    and "shutting_down st \<Longrightarrow> \<forall>m. refs_of c m = {}"
    and t: "t = begin_unloads u (st\<lparr>mcache := c\<rparr>)"
  shows "sound t" and "covered T t" and "mcache t = c" and "set (draining st) \<subseteq> set (draining t)"
    and "map_of (models t) m = (if m \<in> set u then None else map_of (models st) m)"
    and "next_generation t = next_generation st" and "shutting_down t = shutting_down st"
proof -
  note s = soundD [OF assms(1)]
  let ?s = "st\<lparr>mcache := c\<rparr>"
  have cov: "covered T ?s" using assms(2) by (simp add: covered_def)
  have d: "distinct (map fst (models ?s))" using s(2) by simp
  note b = begin_unloads_covered [OF d cov, of u]
  show m: "mcache t = c" "next_generation t = next_generation st" "shutting_down t = shutting_down st"
    by (simp_all add: t)
  show mo: "map_of (models t) m = (if m \<in> set u then None else map_of (models st) m)" for m
    by (simp add: t begin_unloads_map)
  show "covered T t" "set (draining st) \<subseteq> set (draining t)" using b by (simp_all add: t)
  have sub: "models t = filter (\<lambda>(m, g). m \<notin> set u) (models st)" by (simp add: t begin_unloads_models)
  have "distinct (map fst (models t))" "distinct (map snd (models t))"
    unfolding sub using s(2,3) by (simp_all add: distinct_map_filter)
  moreover have "\<forall>g \<in> snd ` set (models t). g < next_generation t"
    using s(4) by (auto simp: sub m)
  moreover have "refs_of c m \<noteq> {}" if "map_of (models t) m \<noteq> None" for m
    using that assms(4) [of m] mo [of m] by (auto split: if_splits)
  moreover have "models t = [] \<and> (\<forall>m. refs_of c m = {})" if "shutting_down t"
    using that assms(5) s(6) by (simp add: m sub)
  ultimately show "sound t" using assms(3) by (simp add: sound_def m)
qed

lemma lost_covers:
  assumes "sound st" and "set u = lost (mcache st) c"
    and "map_of (models st) m \<noteq> None" and "refs_of c m = {}"
  shows "m \<in> set u"
  using assms soundD(5) [OF assms(1,3)] by (simp add: lost_def)

text \<open>The operations that only drop entries.\<close>

lemma shrink:
  assumes "agrees c" and "agrees c'" and "\<And>key m. entry c' key m \<noteq> None \<Longrightarrow> entry c key m \<noteq> None"
    and "refs_of c m = {}"
  shows "refs_of c' m = {}"
  using assms(3,4) agreesD(4) [OF assms(1)] agreesD(4) [OF assms(2)] by blast

lemma unload_model_ok:
  assumes "sound st" and "covered T st"
    and t_def: "t = fst (unload_model ops key model st)"
  shows "sound t" and "covered T t" and "set (draining st) \<subseteq> set (draining t)"
    and "pins_of (mcache t) = pins_of (mcache st)" and "next_generation t = next_generation st"
    and "shutting_down t = shutting_down st" and "map_of (models t) m \<in> {None, map_of (models st) m}"
proof -
  obtain c present gone where r: "remove_entry ops key model (mcache st) = (c, present, gone)" by (metis prod_cases3)
  note s = soundD [OF assms(1)]
  note p = remove_entry_props [OF s(1) r]
  let ?u = "case gone of None \<Rightarrow> [] | Some m \<Rightarrow> [m]"
  have t: "t = begin_unloads ?u (st\<lparr>mcache := c\<rparr>)"
    by (cases gone) (simp_all add: t_def unload_model_def r Let_def)
  have u: "set ?u = lost (mcache st) c" using p(2) by (cases gone) auto
  have "refs_of c m = {}" if "shutting_down st" for m
    by (rule shrink [OF s(1) p(1)]) (use p(5) s(7) that in \<open>auto split: if_splits\<close>)
  note un = unloading [OF assms(1,2) p(1) lost_covers [OF assms(1) u] _ t]
  show "sound t" "covered T t" "set (draining st) \<subseteq> set (draining t)" "next_generation t = next_generation st"
    "shutting_down t = shutting_down st" "map_of (models t) m \<in> {None, map_of (models st) m}"
    using un \<open>\<And>m. shutting_down st \<Longrightarrow> refs_of c m = {}\<close> by auto
  have "mcache t = c" using un(3) \<open>\<And>m. shutting_down st \<Longrightarrow> refs_of c m = {}\<close> by simp
  with p(3) show "pins_of (mcache t) = pins_of (mcache st)" by (simp add: pins_of_def fun_eq_iff)
qed

lemma clear_model_cache_ok:
  assumes "sound st" and "covered T st"
    and t_def: "t = fst (clear_model_cache ops key st)"
  shows "sound t" and "covered T t" and "set (draining st) \<subseteq> set (draining t)"
    and "pins_of (mcache t) = pins_of (mcache st)" and "next_generation t = next_generation st"
    and "shutting_down t = shutting_down st" and "map_of (models t) m \<in> {None, map_of (models st) m}"
proof -
  obtain c n u where r: "clear_key ops key (mcache st) = (c, n, u)" by (metis prod_cases3)
  note s = soundD [OF assms(1)]
  note p = clear_key_props [OF s(1) r]
  have t: "t = begin_unloads u (st\<lparr>mcache := c\<rparr>)" by (simp add: t_def clear_model_cache_def r)
  have "refs_of c m = {}" if "shutting_down st" for m
    by (rule shrink [OF s(1) p(1)]) (use p(4) s(7) that in \<open>auto split: if_splits\<close>)
  note empty = this
  note un = unloading [OF assms(1,2) p(1) lost_covers [OF assms(1) p(2)] _ t]
  show "sound t" "covered T t" "set (draining st) \<subseteq> set (draining t)" "next_generation t = next_generation st"
    "shutting_down t = shutting_down st" "map_of (models t) m \<in> {None, map_of (models st) m}"
    using un empty by auto
  have "mcache t = c" using un(3) empty by simp
  with p(3) show "pins_of (mcache t) = pins_of (mcache st)" by (simp add: pins_of_def fun_eq_iff)
qed

lemma sweep_ok:
  assumes "sound st" and "covered T st"
    and t_def: "t = sweep ops now fin st"
  shows "sound t" and "covered (T \<union> set (filter fin (draining st))) t"
    and "pins_of (mcache t) = pins_of (mcache st)" and "next_generation t = next_generation st"
    and "shutting_down t = shutting_down st" and "map_of (models t) m \<in> {None, map_of (models st) m}"
    and "shutting_down st \<Longrightarrow> t = st"
proof -
  show same: "shutting_down st \<Longrightarrow> t = st" by (simp add: t_def sweep_def)
  let ?s1 = "st\<lparr>draining := filter (\<lambda>t. \<not> fin t) (draining st)\<rparr>"
  have s1: "sound ?s1" using assms(1) by (simp add: sound_def)
  have c1: "covered (T \<union> set (filter fin (draining st))) ?s1" using assms(2) by (auto simp: covered_def)
  obtain c u where r: "expire_entries ops now (mcache ?s1) = (c, u)" by fastforce
  note s = soundD [OF s1]
  note p = expire_props [OF s(1) r]
  have all: "sound t \<and> covered (T \<union> set (filter fin (draining st))) t \<and>
      pins_of (mcache t) = pins_of (mcache st) \<and> next_generation t = next_generation st \<and>
      shutting_down t = shutting_down st \<and> map_of (models t) m \<in> {None, map_of (models st) m}" for m
  proof (cases "shutting_down st")
    case True
    then show ?thesis using same assms(1,2) by (auto simp: covered_def)
  next
    case False
    have t: "t = begin_unloads u (?s1\<lparr>mcache := c\<rparr>)"
      using False r by (simp add: t_def sweep_def Let_def)
    note un = unloading [OF s1 c1 p(1) lost_covers [OF s1 p(2)] _ t]
    have "mcache t = c" using un(3) False by simp
    with p(3) have "pins_of (mcache t) = pins_of (mcache st)" by (simp add: pins_of_def fun_eq_iff)
    with un False show ?thesis by simp
  qed
  from all show "sound t" "covered (T \<union> set (filter fin (draining st))) t"
    "pins_of (mcache t) = pins_of (mcache st)" "next_generation t = next_generation st"
    "shutting_down t = shutting_down st" "map_of (models t) m \<in> {None, map_of (models st) m}" by blast+
qed

section \<open>Loading\<close>

lemma load_begin_ok:
  assumes "sound st" and "covered T st" and run: "load_begin ops after now r st = (t, out)"
  shows "sound t" and "covered T t" and "next_generation t = next_generation st"
    and "shutting_down t = shutting_down st"
    and "pins_of (mcache t) = (pins_of (mcache st))(lr_model r := pins_of (mcache st) (lr_model r) +
      (case out of Refused _ \<Rightarrow> 0 | Ready None \<Rightarrow> 0 | Ready (Some g) \<Rightarrow> 1 | Spawning \<Rightarrow> 1))"
    and "out = Spawning \<Longrightarrow> map_of (models t) (lr_model r) = None \<and> \<not> shutting_down st"
    and "out = Ready (Some g) \<Longrightarrow> map_of (models t) (lr_model r) = Some g \<and> \<not> shutting_down st"
proof -
  note s = soundD [OF assms(1)]
  have "sound t \<and> covered T t \<and> next_generation t = next_generation st \<and> shutting_down t = shutting_down st \<and>
    pins_of (mcache t) = (pins_of (mcache st))(lr_model r := pins_of (mcache st) (lr_model r) +
      (case out of Refused _ \<Rightarrow> 0 | Ready None \<Rightarrow> 0 | Ready (Some g) \<Rightarrow> 1 | Spawning \<Rightarrow> 1)) \<and>
    (out = Spawning \<longrightarrow> map_of (models t) (lr_model r) = None \<and> \<not> shutting_down st) \<and>
    (\<forall>g. out = Ready (Some g) \<longrightarrow> map_of (models t) (lr_model r) = Some g \<and> \<not> shutting_down st)"
  proof (cases "shutting_down st")
    case True
    then show ?thesis using assms by (auto simp: load_begin_def)
  next
    case False
    obtain c u where tl: "touch_load ops after (lr_model r) (lr_key r) (lr_size r) (lr_ttl r) now (mcache st) = (c, u)"
      by fastforce
    note p = touch_load_props [OF s(1) tl]
    define s1 where "s1 = begin_unloads u (st\<lparr>mcache := c\<rparr>)"
    have u: "m \<in> set u" if "map_of (models st) m \<noteq> None" "refs_of c m = {}" for m
      using p(3) s(5) [OF that(1)] that(2) by auto
    note un = unloading [OF assms(1,2) p(1) u _ s1_def]
    have s1: "sound s1" "covered T s1" "mcache s1 = c" "next_generation s1 = next_generation st"
      "shutting_down s1 = shutting_down st"
      using un False by simp_all
    have pins1: "pins_of (mcache s1) = pins_of (mcache st)" using p(2) s1(3) by (simp add: pins_of_def fun_eq_iff)
    let ?pn = "s1\<lparr>mcache := pin (lr_model r) (mcache s1)\<rparr>"
    note pn = pin_props [OF soundD(1) [OF s1(1)], of "lr_model r"]
    have pinned: "sound ?pn" "covered T ?pn"
      using s1(1,2) pn by (simp_all add: sound_def covered_def)
    have run': "(t, out) = (if \<not> refs_non_empty (lr_model r) (mcache s1) then (s1, Refused EvictedAtOnce)
        else case map_of (models s1) (lr_model r) of
            Some g \<Rightarrow> if lr_pin r then (?pn, Ready (Some g)) else (s1, Ready None)
          | None \<Rightarrow> (?pn, Spawning))"
      unfolding run [symmetric] load_begin_def tl prod.case Let_def s1_def [symmetric]
      using False by (simp only: if_False)
    show ?thesis
    proof (cases "refs_non_empty (lr_model r) (mcache s1)")
      case no: False
      then have "t = s1" "out = Refused EvictedAtOnce" using run' by auto
      with s1 pins1 False show ?thesis by simp
    next
      case yes: True
      show ?thesis
      proof (cases "map_of (models s1) (lr_model r)")
        case None
        then have "t = ?pn" "out = Spawning" using run' yes by auto
        with s1 pins1 pinned pn False None show ?thesis by simp
      next
        case (Some g)
        with run' yes have "t = (if lr_pin r then ?pn else s1)" "out = Ready (if lr_pin r then Some g else None)"
          by (auto split: if_splits)
        with s1 pins1 pinned pn False Some show ?thesis by (cases "lr_pin r") simp_all
      qed
    qed
  qed
  then show "sound t" "covered T t" "next_generation t = next_generation st" "shutting_down t = shutting_down st"
    "pins_of (mcache t) = (pins_of (mcache st))(lr_model r := pins_of (mcache st) (lr_model r) +
      (case out of Refused _ \<Rightarrow> 0 | Ready None \<Rightarrow> 0 | Ready (Some g) \<Rightarrow> 1 | Spawning \<Rightarrow> 1))"
    "out = Spawning \<Longrightarrow> map_of (models t) (lr_model r) = None \<and> \<not> shutting_down st"
    "out = Ready (Some g) \<Longrightarrow> map_of (models t) (lr_model r) = Some g \<and> \<not> shutting_down st" by blast+
qed

lemma unpinned_sound:
  assumes "sound st"
  shows "sound (st\<lparr>mcache := unpin m (mcache st)\<rparr>)"
    and "pins_of (mcache (st\<lparr>mcache := unpin m (mcache st)\<rparr>)) =
      (pins_of (mcache st))(m := pins_of (mcache st) m - 1)"
  using assms unpin_props [OF soundD(1) [OF assms], of m] by (simp_all add: sound_def)

lemma load_finish_ok:
  assumes "sound st" and "covered T st" and none: "map_of (models st) (lr_model r) = None"
    and run: "load_finish ops r spawned st = (t, out)"
  shows "sound t" and "covered T t" and "shutting_down t = shutting_down st"
    and "pins_of (mcache t) = (pins_of (mcache st))(lr_model r := pins_of (mcache st) (lr_model r) - 1 +
      (case out of Inr (Some g) \<Rightarrow> 1 | _ \<Rightarrow> 0))"
    and "out = Inr (Some g) \<Longrightarrow> map_of (models t) (lr_model r) = Some g"
    and "set (draining st) \<subseteq> set (draining t)"
proof -
  let ?m = "lr_model r"
  let ?s1 = "st\<lparr>mcache := unpin ?m (mcache st)\<rparr>"
  note s1 = unpinned_sound [OF assms(1), of ?m]
  have c1: "covered T ?s1" using assms(2) by (simp add: covered_def)
  note d = soundD [OF s1(1)]
  have "sound t \<and> covered T t \<and> shutting_down t = shutting_down st \<and>
    pins_of (mcache t) = (pins_of (mcache st))(?m := pins_of (mcache st) ?m - 1 +
      (case out of Inr (Some g) \<Rightarrow> 1 | _ \<Rightarrow> 0)) \<and>
    (\<forall>g. out = Inr (Some g) \<longrightarrow> map_of (models t) ?m = Some g) \<and> set (draining st) \<subseteq> set (draining t)"
  proof (cases spawned)
    case False
    have t: "t = fst (unload_model ops (lr_key r) ?m ?s1)" and out: "out = Inl SpawnFailed"
      using run False by (auto simp: load_finish_def unload_model_def Let_def split: prod.splits option.splits)
    note u = unload_model_ok [OF s1(1) c1 t]
    from u(1-6) out s1(2) show ?thesis by simp
  next
    case True
    show ?thesis
    proof (cases "shutting_down ?s1 \<or> \<not> refs_non_empty ?m (mcache ?s1)")
      case yes: True
      then have t: "t = ?s1\<lparr>draining := draining ?s1 @ [Discard ?m]\<rparr>" and out: "out = Inl UnloadedWhileLoading"
        using run True by (auto simp: load_finish_def Let_def)
      have "sound t" using s1(1) by (simp add: t sound_def)
      moreover have "covered T t" using c1 by (auto simp: t covered_def)
      ultimately show ?thesis using s1(2) out by (auto simp: t)
    next
      case no: False
      let ?g = "next_generation ?s1"
      have t: "t = (if lr_pin r then ?s1\<lparr>next_generation := ?g + 1, mcache := pin ?m (mcache ?s1), models := AList.update ?m ?g (models ?s1)\<rparr>
            else ?s1\<lparr>next_generation := ?g + 1, models := AList.update ?m ?g (models ?s1)\<rparr>)"
        and out: "out = Inr (if lr_pin r then Some ?g else None)"
        using run True no by (auto simp: load_finish_def Let_def)
      have mods: "models t = models st @ [(?m, ?g)]"
      proof -
        have "AList.update k v xs = xs @ [(k, v)]" if "map_of xs k = None" for k v and xs :: "(string \<times> nat) list"
          using that by (induction xs) auto
        then show ?thesis using none by (simp add: t)
      qed
      have mmap: "map_of (models t) = (map_of (models st))(?m \<mapsto> ?g)" by (simp add: t update_conv')
      have refs: "refs_of (mcache t) = refs_of (mcache st)" and ag: "agrees (mcache t)"
        using pin_props [OF d(1), of ?m] unpin_props(3) [OF soundD(1) [OF assms(1)], of ?m] d(1) by (simp_all add: t)
      have pin: "pins_of (mcache t) = (pins_of (mcache st))(?m := pins_of (mcache st) ?m - 1 + (if lr_pin r then 1 else 0))"
        using pin_props(4) [OF d(1), of ?m] s1(2) by (simp add: t)
      have ng: "next_generation t = Suc ?g" and sd: "shutting_down t = shutting_down st" "\<not> shutting_down st"
        and dr: "draining t = draining st" using no by (simp_all add: t)
      have ne: "refs_of (mcache st) ?m \<noteq> {}"
        using no unpin_props(3) [OF soundD(1) [OF assms(1)], of ?m]
        by (auto simp: refs_non_empty_def refs_of_def fun_eq_iff split: option.splits)
      note s = soundD [OF assms(1)]
      have "?m \<notin> fst ` set (models st)" using none by (simp add: map_of_eq_None_iff)
      moreover have "?g \<notin> snd ` set (models st)" using s(4) by auto
      ultimately have "distinct (map fst (models t))" "distinct (map snd (models t))"
        using s(2,3) by (simp_all add: mods)
      moreover have "\<forall>g \<in> snd ` set (models t). g < next_generation t" using s(4) by (auto simp: mods ng less_SucI)
      moreover have "map_of (models t) m \<noteq> None \<longrightarrow> refs_of (mcache t) m \<noteq> {}" for m
        using s(5) [of m] ne by (auto simp: mmap refs)
      ultimately have "sound t" using ag sd by (simp add: sound_def)
      moreover have "covered T t"
        using assms(2) by (auto simp: covered_def mods ng dr less_Suc_eq)
      moreover have "map_of (models t) ?m = Some ?g" by (simp add: mmap)
      ultimately show ?thesis using sd dr pin out by auto
    qed
  qed
  then show "sound t" "covered T t" "shutting_down t = shutting_down st"
    "pins_of (mcache t) = (pins_of (mcache st))(lr_model r := pins_of (mcache st) (lr_model r) - 1 +
      (case out of Inr (Some g) \<Rightarrow> 1 | _ \<Rightarrow> 0))"
    "out = Inr (Some g) \<Longrightarrow> map_of (models t) (lr_model r) = Some g"
    "set (draining st) \<subseteq> set (draining t)" by blast+
qed

section \<open>Death, shutdown and released pins\<close>

lemma death_ok:
  assumes "sound st" and "covered T st" and t: "t = handle_worker_death ops m g st"
  shows "sound t" and "covered T t" and "pins_of (mcache t) = pins_of (mcache st)"
    and "shutting_down t = shutting_down st" and "map_of (models t) m' \<in> {None, map_of (models st) m'}"
proof -
  have "sound t \<and> covered T t \<and> pins_of (mcache t) = pins_of (mcache st) \<and>
    shutting_down t = shutting_down st \<and> map_of (models t) m' \<in> {None, map_of (models st) m'}" for m'
  proof (cases "map_of (models st) m = Some g")
    case False
    then show ?thesis using assms by (simp add: handle_worker_death_def)
  next
    case True
    note s = soundD [OF assms(1)] and p = remove_everywhere_props [OF soundD(1) [OF assms(1)], of m]
    have t': "t = st\<lparr>models := AList.delete m (models st), draining := draining st @ [Dispatcher g],
        mcache := remove_everywhere ops m (mcache st)\<rparr>"
      using True by (simp add: t handle_worker_death_def)
    have mm: "map_of (models t) m' = (if m' = m then None else map_of (models st) m')" for m'
      by (simp add: t')
    have "distinct (map fst (models t))" "distinct (map snd (models t))"
      using s(2,3) by (simp_all add: t' AList.delete_eq distinct_map_filter)
    moreover have "\<forall>g \<in> snd ` set (models t). g < next_generation t"
      using s(4) by (auto simp: t' set_delete)
    moreover have "map_of (models t) m' \<noteq> None \<longrightarrow> refs_of (mcache t) m' \<noteq> {}" for m'
      using s(5) [of m'] by (auto simp: mm) (simp add: t' p(4))
    moreover have "shutting_down t \<longrightarrow> models t = [] \<and> (\<forall>m. refs_of (mcache t) m = {})"
      using s(6,7) by (simp add: t' p(4))
    moreover have "agrees (mcache t)" using p(1) by (simp add: t')
    ultimately have "sound t" unfolding sound_def by blast
    moreover have "covered T t"
      unfolding covered_def
    proof (intro allI impI)
      fix h assume "h < next_generation t"
      then have "h \<in> snd ` set (models st) \<or> Dispatcher h \<in> set (draining st) \<union> T"
        using assms(2) by (simp add: covered_def t')
      then show "h \<in> snd ` set (models t) \<or> Dispatcher h \<in> set (draining t) \<union> T"
      proof
        assume "h \<in> snd ` set (models st)"
        then obtain k where k: "(k, h) \<in> set (models st)" by auto
        show ?thesis
        proof (cases "k = m")
          case True
          with k map_of_is_SomeI [OF s(2), of m h] \<open>map_of (models st) m = Some g\<close> have "h = g" by simp
          then show ?thesis by (simp add: t')
        next
          case False
          with k have "(k, h) \<in> set (models t)" by (simp add: t' set_delete)
          then show ?thesis by force
        qed
      qed (auto simp: t')
    qed
    moreover have "pins_of (mcache t) = pins_of (mcache st)"
      by (simp add: t' pins_of_def p(3) fun_eq_iff)
    moreover have "shutting_down t = shutting_down st" by (simp add: t')
    ultimately show ?thesis using mm by simp
  qed
  then show "sound t" "covered T t" "pins_of (mcache t) = pins_of (mcache st)"
    "shutting_down t = shutting_down st" "map_of (models t) m' \<in> {None, map_of (models st) m'}" by blast+
qed

lemma shutdown_begin_ok:
  assumes "sound st" and "covered T st" and "shutdown_begin st = (t, hs)"
  shows "sound t" and "covered (T \<union> set hs) t" and "shutting_down t" and "models t = []"
proof -
  have t: "t = st\<lparr>shutting_down := True, models := [], shutdowns_sent := shutdowns_sent st @ map snd (models st),
      draining := [], mcache := empty_cache\<rparr>" and hs: "hs = map Dispatcher (map snd (models st)) @ draining st"
    using assms(3) by (auto simp: shutdown_begin_def Let_def)
  show "sound t" by (simp add: sound_def t agrees_empty)
  show "covered (T \<union> set hs) t" using assms(2) by (force simp: covered_def t hs)
  show "shutting_down t" "models t = []" by (simp_all add: t)
qed

lemma shutdown_rest_ok:
  assumes "sound st" and "covered T st" and "shutdown_rest st = (t, hs)"
  shows "sound t" and "covered (T \<union> set hs) t" and "shutting_down t = shutting_down st"
    and "mcache t = mcache st" and "models t = models st"
proof -
  have t: "t = st\<lparr>draining := []\<rparr>" "hs = draining st" using assms(3) by (simp_all add: shutdown_rest_def)
  show "sound t" using assms(1) by (simp add: sound_def t(1))
  show "covered (T \<union> set hs) t" using assms(2) by (auto simp: covered_def t)
  show "shutting_down t = shutting_down st" "mcache t = mcache st" "models t = models st" by (simp_all add: t)
qed

lemma release_ok:
  assumes "sound st" and "covered T st" and t: "t = release_pin ops after now m restore st"
  shows "sound t" and "covered T t" and "shutting_down t = shutting_down st" and "models t = models st"
    and "pins_of (mcache t) = (pins_of (mcache st))(m := pins_of (mcache st) m - 1)"
proof -
  note d = soundD(1) [OF assms(1)]
  show "shutting_down t = shutting_down st" "models t = models st" "covered T t"
    using assms(2) by (auto simp: t release_pin_def covered_def split: option.split)
  show "sound t" "pins_of (mcache t) = (pins_of (mcache st))(m := pins_of (mcache st) m - 1)"
    using assms(1) unpin_props [OF d] unpin_restore_props [OF d]
    by (auto simp: t release_pin_def sound_def split: option.split)
qed

section \<open>The system\<close>

definition pin_count :: "'l manager_world \<Rightarrow> string \<Rightarrow> nat" where
  "pin_count w m =
     length (filter (\<lambda>p. pg_model p = m) (mw_predicts w)) +
     (case mw_loading w of Some r \<Rightarrow> if lr_model r = m then 1 else 0 | None \<Rightarrow> 0)"

definition manager_inv :: "'l manager_world \<Rightarrow> bool" where
  "manager_inv w \<longleftrightarrow>
     sound (mw_state w) \<and> covered (set (mw_awaited w) \<union> set (mw_reaped w)) (mw_state w) \<and>
     (\<not> shutting_down (mw_state w) \<longrightarrow> pins_of (mcache (mw_state w)) = pin_count w) \<and>
     (\<forall>r. mw_loading w = Some r \<longrightarrow> map_of (models (mw_state w)) (lr_model r) = None)"

lemma manager_invI:
  assumes "sound (mw_state w)" and "covered (set (mw_awaited w) \<union> set (mw_reaped w)) (mw_state w)"
    and "\<And>m. \<not> shutting_down (mw_state w) \<Longrightarrow> pins_of (mcache (mw_state w)) m = pin_count w m"
    and "\<And>r. mw_loading w = Some r \<Longrightarrow> map_of (models (mw_state w)) (lr_model r) = None"
  shows "manager_inv w"
  using assms by (simp add: manager_inv_def fun_eq_iff)

lemma manager_invD:
  assumes "manager_inv w"
  shows "sound (mw_state w)" "covered (set (mw_awaited w) \<union> set (mw_reaped w)) (mw_state w)"
    "\<not> shutting_down (mw_state w) \<Longrightarrow> pins_of (mcache (mw_state w)) m = pin_count w m"
    "mw_loading w = Some r \<Longrightarrow> map_of (models (mw_state w)) (lr_model r) = None"
  using assms by (simp_all add: manager_inv_def)

lemma covered_mono: "covered T st \<Longrightarrow> T \<subseteq> U \<Longrightarrow> covered U st"
  by (auto simp: covered_def)

text \<open>A step that neither loads nor releases a pin.\<close>

lemma quiet_step:
  assumes inv: "manager_inv w" and "sound st" and "covered (set (mw_awaited w) \<union> set (mw_reaped w)) st"
    and "pins_of (mcache st) = pins_of (mcache (mw_state w))" and "shutting_down st = shutting_down (mw_state w)"
    and "\<And>m. map_of (models st) m \<in> {None, map_of (models (mw_state w)) m}"
  shows "manager_inv (w\<lparr>mw_state := st\<rparr>)"
proof (rule manager_invI)
  note i = manager_invD [OF inv]
  show "pins_of (mcache (mw_state (w\<lparr>mw_state := st\<rparr>))) m = pin_count (w\<lparr>mw_state := st\<rparr>) m"
    if "\<not> shutting_down (mw_state (w\<lparr>mw_state := st\<rparr>))" for m
    using that i(3) [of m] assms(4,5) by (simp add: pin_count_def)
  show "map_of (models (mw_state (w\<lparr>mw_state := st\<rparr>))) (lr_model r) = None"
    if "mw_loading (w\<lparr>mw_state := st\<rparr>) = Some r" for r
    using that i(4) [of r] assms(6) [of "lr_model r"] by simp
qed (use assms(2,3) in simp_all)

lemma filter_without:
  assumes "i < length xs"
  shows "length (filter P (without i xs)) = length (filter P xs) - (if P (xs ! i) then 1 else 0)"
proof -
  have "xs = take i xs @ xs ! i # drop (Suc i) xs" using assms by (simp add: id_take_nth_drop)
  then have "length (filter P xs) = length (filter P (take i xs @ xs ! i # drop (Suc i) xs))" by simp
  then show ?thesis by (simp add: without_def)
qed

lemma manager_step_inv:
  assumes "manager_step ops after w w'" and inv: "manager_inv w"
  shows "manager_inv w'"
proof -
  note i = manager_invD [OF inv]
  let ?T = "set (mw_awaited w) \<union> set (mw_reaped w)"
  from assms(1) show ?thesis
  proof cases
    case (load_starts now r st out)
    note b = load_begin_ok [OF i(1,2) load_starts(3)]
    note pn = fun_cong [OF b(5)]
    show ?thesis
    proof (cases out)
      case (Refused e)
      then show ?thesis unfolding load_starts(1)
        using b i(3) load_starts(2) pn by (auto intro!: manager_invI simp: pin_count_def)
    next
      case (Ready g)
      then show ?thesis unfolding load_starts(1)
        using b i(3) load_starts(2) pn
        by (cases g) (auto intro!: manager_invI simp: pin_count_def guard_of_def)
    next
      case Spawning
      then show ?thesis unfolding load_starts(1)
        using b i(3) load_starts(2) pn by (auto intro!: manager_invI simp: pin_count_def)
    qed
  next
    case (load_ends r spawned st out)
    note f = load_finish_ok [OF i(1,2) i(4) [OF load_ends(2)] load_ends(3)]
    note pn = fun_cong [OF f(4)]
    show ?thesis
      unfolding load_ends(1) using f(1-3) i(3) load_ends(2) pn
      by (auto intro!: manager_invI simp: pin_count_def guard_of_def split: sum.splits option.splits)
  next
    case (load_cancelled r now)
    note r = release_ok [OF i(1,2) refl, where now = now and after = after and m = "lr_model r" and restore = None]
    show ?thesis
      unfolding load_cancelled(1) using r(1-4) i(3) fun_cong [OF r(5)] load_cancelled(2)
      by (auto intro!: manager_invI simp: pin_count_def)
  next
    case (predict_ends j p now)
    note r' = release_ok [OF i(1,2) refl, where now = now and after = after and m = "pg_model p" and restore = "Some (pg_key p, pg_ttl p)"]
    show ?thesis
    proof (rule manager_invI)
      show "map_of (models (mw_state w')) (lr_model r) = None" if "mw_loading w' = Some r" for r
        using that i(4) [of r] r'(4) by (simp add: predict_ends(1))
      show "pins_of (mcache (mw_state w')) m = pin_count w' m" if "\<not> shutting_down (mw_state w')" for m
      proof -
        have nsd: "\<not> shutting_down (mw_state w)" using that r'(3) by (simp add: predict_ends(1))
        have "0 < length (filter (\<lambda>q. pg_model q = pg_model p) (mw_predicts w))"
          using predict_ends(2,3) by (auto simp: filter_empty_conv intro: nth_mem)
        then obtain k where k: "length (filter (\<lambda>q. pg_model q = pg_model p) (mw_predicts w)) = Suc k"
          by (meson Suc_pred')
        show ?thesis
        proof (cases "m = pg_model p")
          case True
          then show ?thesis
            using i(3) [OF nsd, of m] fun_cong [OF r'(5), of m] predict_ends(2,3) k
            by (simp add: predict_ends(1) pin_count_def filter_without)
        next
          case False
          then show ?thesis
            using i(3) [OF nsd, of m] fun_cong [OF r'(5), of m] predict_ends(2,3)
            by (simp add: predict_ends(1) pin_count_def filter_without)
        qed
      qed
    qed (use r'(1,2) in \<open>simp_all add: predict_ends(1)\<close>)
  next
    case (unload key model)
    note u = unload_model_ok [OF i(1,2) refl]
    show ?thesis unfolding unload by (rule quiet_step [OF inv u(1,2,4,6,7)])
  next
    case (clear_all key)
    note u = clear_model_cache_ok [OF i(1,2) refl]
    show ?thesis unfolding clear_all by (rule quiet_step [OF inv u(1,2,4,6,7)])
  next
    case (sweeps fin now)
    note u = sweep_ok [OF i(1,2) refl, where now = now and fin = fin]
    let ?w = "w\<lparr>mw_reaped := mw_reaped w @ (if shutting_down (mw_state w) then [] else filter fin (draining (mw_state w)))\<rparr>"
    have inv': "manager_inv ?w"
      using inv by (auto simp: manager_inv_def pin_count_def fun_eq_iff intro: covered_mono)
    have cov: "covered (set (mw_awaited ?w) \<union> set (mw_reaped ?w)) (sweep ops now fin (mw_state w))"
    proof (cases "shutting_down (mw_state w)")
      case True
      then show ?thesis using u(7) i(2) by simp
    next
      case False
      then show ?thesis by (auto intro: covered_mono [OF u(2)])
    qed
    have "w' = ?w\<lparr>mw_state := sweep ops now fin (mw_state w)\<rparr>" by (simp add: sweeps)
    then show ?thesis using quiet_step [OF inv' u(1) cov] u(3,5,6) by simp
  next
    case (death m g)
    note u = death_ok [OF i(1,2) refl]
    show ?thesis unfolding death by (rule quiet_step [OF inv u(1-5)])
  next
    case (shutdown_starts st hs)
    note u = shutdown_begin_ok [OF i(1,2) shutdown_starts(2)]
    show ?thesis unfolding shutdown_starts(1)
      using u by (auto intro!: manager_invI intro: covered_mono)
  next
    case (shutdown_ends st hs)
    note u = shutdown_rest_ok [OF i(1,2) shutdown_ends(4)]
    show ?thesis unfolding shutdown_ends(1)
      using u shutdown_ends(2,3) by (auto intro!: manager_invI intro: covered_mono)
  qed
qed

lemma manager_reachable_inv: "manager_reachable ops after w \<Longrightarrow> manager_inv w"
proof (induction rule: manager_reachable.induct)
  case new_reachable
  have "pins_of (empty_cache :: 'l model_cache) m = 0" for m by (simp add: pins_of_def empty_cache_def)
  then show ?case
    by (simp add: manager_inv_def new_world_def new_manager_def sound_def covered_def agrees_empty pin_count_def
        fun_eq_iff)
next
  case (step_reachable w w')
  then show ?case using manager_step_inv by blast
qed

end

end
