(* ===== verification/ModelProps.thy ===== *)
theory ModelProps
  imports ModelManagerInv
begin

text \<open>
  The properties of the model manager, for every map that keeps the contract of
  \<open>linked_map\<close> and every interleaving of requests, sweeps, deaths and the shutdown.
\<close>

interpretation listed_lrus: model_lrus list_ops
  by (rule model_lrus.intro) (rule listed.linked_map_axioms)

definition model_entry :: "'l model_ops \<Rightarrow> 'l model_cache \<Rightarrow> string \<Rightarrow> string \<Rightarrow> expiration option" where
  "model_entry ops c key m = (case lru_of c key of None \<Rightarrow> None | Some l \<Rightarrow> lk_peek ops m l)"

definition busy :: "'l manager_world \<Rightarrow> string \<Rightarrow> bool" where
  "busy w m \<longleftrightarrow> m \<in> pg_model ` set (mw_predicts w) \<or> (\<exists>r. mw_loading w = Some r \<and> lr_model r = m)"

context model_lrus
begin

lemma model_entry_eq: "model_entry ops = entry"
  by (auto simp: fun_eq_iff model_entry_def entry_def peek_iter split: option.split)

lemma expirations_iff:
  "m \<in> fst ` set (expirations ops render_at key c) \<longleftrightarrow> entry c key m \<noteq> None"
proof (cases "lru_of c key")
  case None
  then show ?thesis by (simp add: expirations_def entry_def)
next
  case (Some l)
  have "map_of (lk_iter ops l) m \<noteq> None \<longleftrightarrow> m \<in> fst ` set (lk_iter ops l)"
    by (simp add: map_of_eq_None_iff)
  with Some show ?thesis by (simp add: expirations_def entry_def image_image case_prod_unfold)
qed

lemma cached_models_iff:
  assumes "agrees c"
  shows "(\<exists>keys. (m, keys) \<in> set (cached_models c) \<and> key \<in> set keys) \<longleftrightarrow> key \<in> refs_of c m"
    and "(m, keys) \<in> set (cached_models c) \<Longrightarrow> keys \<noteq> []"
    and "m \<in> fst ` set (cached_models c) \<longleftrightarrow> refs_of c m \<noteq> {}"
proof -
  note t = agreesD(2) [OF assms]
  have mem: "(m, ks) \<in> set (cache_refs c) \<longleftrightarrow> map_of (cache_refs c) m = Some ks" for m ks
    using t by (simp add: tidy_def map_of_eq_Some_iff)
  have fin: "finite ks" "ks \<noteq> {}" if "map_of (cache_refs c) m = Some ks" for m ks
    using t that by (auto simp: tidy_def)
  have cm: "(m, keys) \<in> set (cached_models c) \<longleftrightarrow>
      (\<exists>ks. map_of (cache_refs c) m = Some ks \<and> keys = sorted_list_of_set ks)" for m keys
    by (auto simp: cached_models_def mem [symmetric])
  show "(\<exists>keys. (m, keys) \<in> set (cached_models c) \<and> key \<in> set keys) \<longleftrightarrow> key \<in> refs_of c m"
    using fin [of m] by (auto simp: cm refs_of_def split: option.split)
  show "keys \<noteq> []" if "(m, keys) \<in> set (cached_models c)"
    using that fin [of m] by (auto simp: cm)
  have "m \<in> fst ` set (cached_models c) \<longleftrightarrow> (\<exists>keys. (m, keys) \<in> set (cached_models c))" by force
  also have "\<dots> \<longleftrightarrow> refs_of c m \<noteq> {}"
    using fin [of m] by (auto simp: cm refs_of_def split: option.split)
  finally show "m \<in> fst ` set (cached_models c) \<longleftrightarrow> refs_of c m \<noteq> {}" .
qed

lemma busy_pins: "busy w m \<longleftrightarrow> pin_count w m \<noteq> 0"
  by (auto simp: busy_def pin_count_def filter_empty_conv split: option.split)

end

lemma model_lrusI: "linked_map ops \<Longrightarrow> model_lrus ops"
  by (rule model_lrus.intro)

section \<open>A concrete run\<close>

text \<open>Two models under one key of size one; the second is predicting.\<close>

definition demo_clock :: ttl_clock where
  "demo_clock now ttl = Some (now + ttl)"

definition demo_load :: "string \<Rightarrow> bool \<Rightarrow> load_request" where
  "demo_load m p = \<lparr>lr_model = m, lr_key = ''k'', lr_size = 1, lr_ttl = 10, lr_pin = p\<rparr>"

lemma demo_load_sel [simp]:
  "lr_model (demo_load m p) = m" "lr_key (demo_load m p) = ''k''" "lr_size (demo_load m p) = 1"
  "lr_ttl (demo_load m p) = 10" "lr_pin (demo_load m p) = p"
  by (simp_all add: demo_load_def)

type_synonym demo_models = "(string, expiration) alist"

definition demo_loading :: "demo_models manager_world" where
  "demo_loading = new_world\<lparr>mw_state := fst (load_begin list_ops demo_clock 0 (demo_load ''g/a'' True) new_manager),
     mw_loading := Some (demo_load ''g/a'' True)\<rparr>"

definition demo_predicting :: "demo_models manager_world" where
  "demo_predicting = new_world\<lparr>mw_state := fst (load_finish list_ops (demo_load ''g/a'' True) True (mw_state demo_loading)),
     mw_predicts := [guard_of (demo_load ''g/a'' True) 0]\<rparr>"

lemmas list_map_simps = list_ops_def empty.rep_eq lookup.rep_eq impl_of_back delete.rep_eq map_entry.rep_eq

lemmas manager_run = load_begin_def load_finish_def touch_load_def resize_lru_def new_manager_def empty_cache_def
  demo_clock_def new_expiration_def lru_of_def refs_of_def refs_non_empty_def pin_def unpin_def
  pins_of_def Let_def

lemma demo_loading_reachable: "manager_reachable list_ops demo_clock demo_loading"
proof -
  have out: "snd (load_begin list_ops demo_clock 0 (demo_load ''g/a'' True) (new_manager :: demo_models manager_state)) = Spawning"
    by (simp add: manager_run list_map_simps)
  then have "load_begin list_ops demo_clock 0 (demo_load ''g/a'' True) (mw_state (new_world :: demo_models manager_world)) =
      (mw_state demo_loading, Spawning)"
    by (simp add: demo_loading_def new_world_def prod_eq_iff)
  from load_starts [OF _ this] have "manager_step list_ops demo_clock new_world demo_loading"
    by (simp add: demo_loading_def new_world_def)
  with new_reachable show ?thesis by (rule step_reachable)
qed

lemma demo_predicting_reachable: "manager_reachable list_ops demo_clock demo_predicting"
proof -
  have "snd (load_finish list_ops (demo_load ''g/a'' True) True (mw_state demo_loading)) = Inr (Some 0)"
    by (simp add: demo_loading_def manager_run list_map_simps)
  then have run: "load_finish list_ops (demo_load ''g/a'' True) True (mw_state demo_loading) =
      (mw_state demo_predicting, Inr (Some 0))"
    by (simp add: demo_predicting_def prod_eq_iff)
  have "mw_loading demo_loading = Some (demo_load ''g/a'' True)" by (simp add: demo_loading_def)
  from load_ends [OF this run, where after = demo_clock]
  have "manager_step list_ops demo_clock demo_loading demo_predicting"
    by (simp add: demo_predicting_def demo_loading_def new_world_def)
  with demo_loading_reachable show ?thesis by (rule step_reachable)
qed

lemma demo_models_loaded: "map_of (models (mw_state demo_predicting)) ''g/a'' = Some 0"
  by (simp add: demo_predicting_def demo_loading_def manager_run list_map_simps)

section \<open>Listings and references\<close>

text \<open>
  C3.  No worker is kept without a user: every loaded model is listed under at least one
  cache key, in every interleaving of loads, predicts, unloads, expiries and deaths.
\<close>

theorem loaded_models_are_listed:
  assumes "linked_map ops" and "manager_reachable ops after w"
    and "map_of (models (mw_state w)) m = Some g"
  shows "\<exists>keys. (m, keys) \<in> set (cached_models (mcache (mw_state w))) \<and> keys \<noteq> []"
proof -
  have ml: "model_lrus ops" using assms(1) by (rule model_lrusI)
  note s = model_lrus.manager_invD(1) [OF ml model_lrus.manager_reachable_inv [OF ml assms(2)]]
  note ag = model_lrus.soundD(1) [OF ml s]
  have "refs_of (mcache (mw_state w)) m \<noteq> {}" using model_lrus.soundD(5) [OF ml s] assms(3) by simp
  then have "m \<in> fst ` set (cached_models (mcache (mw_state w)))"
    using model_lrus.cached_models_iff(3) [OF ml ag] by blast
  then show ?thesis using model_lrus.cached_models_iff(2) [OF ml ag] by force
qed

theorem loaded_models_are_listed_witness:
  "\<exists>keys. (''g/a'', keys) \<in> set (cached_models (mcache (mw_state demo_predicting))) \<and> keys \<noteq> []"
  by (rule loaded_models_are_listed [OF listed.linked_map_axioms demo_predicting_reachable demo_models_loaded])

text \<open>
  The two listings of the API agree: a model is listed under a cache key by
  \<open>cached_models\<close> exactly when the key's own listing shows it with an expiration.
\<close>

lemma listings_agree:
  assumes "linked_map ops" and "manager_reachable ops after w"
  shows "(\<exists>keys. (m, keys) \<in> set (cached_models (mcache (mw_state w))) \<and> key \<in> set keys) \<longleftrightarrow>
    m \<in> fst ` set (expirations ops render_at key (mcache (mw_state w)))"
proof -
  have ml: "model_lrus ops" using assms(1) by (rule model_lrusI)
  note s = model_lrus.manager_invD(1) [OF ml model_lrus.manager_reachable_inv [OF ml assms(2)]]
  note ag = model_lrus.soundD(1) [OF ml s]
  show ?thesis
    unfolding model_lrus.cached_models_iff(1) [OF ml ag] model_lrus.expirations_iff [OF ml]
    by (rule model_lrus.agreesD(4) [OF ml ag])
qed

lemma listings_agree_witness:
  "''g/a'' \<in> fst ` set (expirations list_ops (\<lambda>_. ''t'') ''k'' (mcache (mw_state demo_predicting)))"
proof -
  have "(''g/a'', [''k'']) \<in> set (cached_models (mcache (mw_state demo_predicting)))"
    by (simp add: demo_predicting_def demo_loading_def manager_run list_map_simps cached_models_def)
  with listings_agree [OF listed.linked_map_axioms demo_predicting_reachable, of "''g/a''" "''k''" "\<lambda>_. ''t''"]
  show ?thesis by force
qed

section \<open>Loading\<close>

text \<open>What entering the model into the LRU of its key does.\<close>

lemma touch_load_fills:
  assumes "linked_map ops" and "manager_reachable ops after w"
    and tl: "touch_load ops after m k cap ttl now (mcache (mw_state w)) = (c, u)"
    and ys_def: "ys = (case lru_of (mcache (mw_state w)) k of None \<Rightarrow> [] | Some l0 \<Rightarrow> AList.delete m (lk_iter ops l0))"
  shows "\<exists>l. lru_of c k = Some l \<and> int (lk_len ops l) \<le> max 0 cap \<and>
      lk_iter ops l = drop (Suc (length ys) - nat cap) (ys @ [(m, new_expiration after ttl now)])"
    and "key \<noteq> k \<Longrightarrow> lru_of c key = lru_of (mcache (mw_state w)) key"
    and "refs_non_empty m c \<longleftrightarrow> 0 < cap \<or> (\<exists>key. key \<noteq> k \<and> model_entry ops (mcache (mw_state w)) key m \<noteq> None)"
    and "refs_non_empty m c \<Longrightarrow> m \<notin> set u"
proof -
  have ml: "model_lrus ops" using assms(1) by (rule model_lrusI)
  note s = model_lrus.manager_invD(1) [OF ml model_lrus.manager_reachable_inv [OF ml assms(2)]]
  note p = model_lrus.touch_load_props [OF ml model_lrus.soundD(1) [OF ml s] tl]
  let ?e = "(m, new_expiration after ttl now)"
  obtain l l' where l: "lru_of (mcache (mw_state w)) k = Some l \<or> lru_of (mcache (mw_state w)) k = None \<and> l = lk_empty ops"
    "lru_of c k = Some l'"
    "let xs = AList.delete m (lk_iter ops l) @ [?e] in lk_iter ops l' = drop (model_lrus.over cap (length xs)) xs"
    using p(4) by blast
  have ys: "AList.delete m (lk_iter ops l) = ys" using l(1) assms(1) by (auto simp: ys_def linked_map.iter_empty)
  have over: "model_lrus.over cap (Suc n) = Suc n - nat cap" for n
    by (cases "cap \<le> 0") (auto simp: model_lrus.over_def [OF ml] nat_diff_distrib')
  have it: "lk_iter ops l' = drop (Suc (length ys) - nat cap) (ys @ [?e])" using l(3) by (simp add: ys Let_def over)
  then show "\<exists>l. lru_of c k = Some l \<and> int (lk_len ops l) \<le> max 0 cap \<and>
      lk_iter ops l = drop (Suc (length ys) - nat cap) (ys @ [?e])"
    using l(2) assms(1) by (simp add: linked_map.len_iter)
  show "lru_of c key = lru_of (mcache (mw_state w)) key" if "key \<noteq> k" for key using p(5) [OF that] .
  have entry: "model_lrus.entry ops c k m \<noteq> None \<longleftrightarrow> 0 < cap"
    using l(2) it by (cases "0 < cap") (auto simp: model_lrus.entry_def [OF ml] map_of_eq_None_iff)
  have other: "model_lrus.entry ops c key m = model_entry ops (mcache (mw_state w)) key m" if "key \<noteq> k" for key
    using p(5) [OF that] assms(1)
    by (auto simp: model_lrus.entry_def [OF ml] model_entry_def linked_map.peek_iter split: option.split)
  show "refs_non_empty m c \<longleftrightarrow> 0 < cap \<or> (\<exists>key. key \<noteq> k \<and> model_entry ops (mcache (mw_state w)) key m \<noteq> None)"
    unfolding model_lrus.refs_non_empty_iff [OF ml p(1)] using entry other by metis
  show "m \<notin> set u" if "refs_non_empty m c"
  proof -
    have "refs_of c m \<noteq> {}" using that by (auto simp: refs_non_empty_def refs_of_def split: option.splits)
    then show ?thesis using p(3) by simp
  qed
qed

text \<open>
  C40.  What a load does at once.  During the shutdown, and only then, it is refused as such and
  changes nothing.  Otherwise the key's LRU gets the model at the most recent end under its new
  expiration, and only the oldest entries go, as many as exceed the requested size; the other
  keys keep theirs.  The load is refused as evicted at once exactly when the size leaves no room
  and no other key holds the model, it is served by a loaded model, and spawns one otherwise.
\<close>

theorem load_bounds_lru:
  assumes "linked_map ops" and "manager_reachable ops after w"
    and "load_begin ops after now r (mw_state w) = (st, out)"
    and ys_def: "ys = (case lru_of (mcache (mw_state w)) (lr_key r) of None \<Rightarrow> []
      | Some l0 \<Rightarrow> AList.delete (lr_model r) (lk_iter ops l0))"
  shows "(out = Refused ShuttingDown \<longleftrightarrow> shutting_down (mw_state w)) \<and>
    (if shutting_down (mw_state w) then st = mw_state w
     else
       (\<exists>l. lru_of (mcache st) (lr_key r) = Some l \<and> int (lk_len ops l) \<le> max 0 (lr_size r) \<and>
          lk_iter ops l = drop (Suc (length ys) - nat (lr_size r))
            (ys @ [(lr_model r, new_expiration after (lr_ttl r) now)])) \<and>
       (\<forall>key. key \<noteq> lr_key r \<longrightarrow> lru_of (mcache st) key = lru_of (mcache (mw_state w)) key) \<and>
       out = (if lr_size r \<le> 0 \<and>
             (\<forall>key. key \<noteq> lr_key r \<longrightarrow> model_entry ops (mcache (mw_state w)) key (lr_model r) = None)
           then Refused EvictedAtOnce
           else case map_of (models (mw_state w)) (lr_model r) of
             Some g \<Rightarrow> Ready (if lr_pin r then Some g else None)
           | None \<Rightarrow> Spawning))"
proof (cases "shutting_down (mw_state w)")
  case True
  then show ?thesis using assms(3) by (auto simp: load_begin_def)
next
  case False
  let ?st = "mw_state w"
  have ml: "model_lrus ops" using assms(1) by (rule model_lrusI)
  obtain c u where tl: "touch_load ops after (lr_model r) (lr_key r) (lr_size r) (lr_ttl r) now (mcache ?st) = (c, u)"
    by fastforce
  note fills = touch_load_fills [OF assms(1,2) tl ys_def]
  define s1 where "s1 = begin_unloads u (?st\<lparr>mcache := c\<rparr>)"
  have m1: "mcache s1 = c" by (simp add: s1_def model_lrus.begin_unloads_frame [OF ml])
  have run: "(st, out) = (if \<not> refs_non_empty (lr_model r) (mcache s1) then (s1, Refused EvictedAtOnce)
      else case map_of (models s1) (lr_model r) of
          Some g \<Rightarrow> if lr_pin r then (s1\<lparr>mcache := pin (lr_model r) (mcache s1)\<rparr>, Ready (Some g)) else (s1, Ready None)
        | None \<Rightarrow> (s1\<lparr>mcache := pin (lr_model r) (mcache s1)\<rparr>, Spawning))"
    unfolding assms(3) [symmetric] load_begin_def tl prod.case Let_def s1_def [symmetric]
    using False by (simp only: if_False)
  have lru: "lru_of (mcache st) = lru_of c"
    using run m1 by (auto simp: lru_of_def pin_def fun_eq_iff split: if_splits option.splits)
  have "map_of (models s1) (lr_model r) = map_of (models ?st) (lr_model r)" if "refs_non_empty (lr_model r) c"
    using fills(4) [OF that] by (simp add: s1_def model_lrus.begin_unloads_map [OF ml])
  moreover have "out = (if \<not> refs_non_empty (lr_model r) c then Refused EvictedAtOnce
      else case map_of (models s1) (lr_model r) of Some g \<Rightarrow> Ready (if lr_pin r then Some g else None) | None \<Rightarrow> Spawning)"
    using run by (auto simp: m1 split: if_splits option.splits)
  ultimately have "out = (if \<not> refs_non_empty (lr_model r) c then Refused EvictedAtOnce
      else case map_of (models ?st) (lr_model r) of Some g \<Rightarrow> Ready (if lr_pin r then Some g else None) | None \<Rightarrow> Spawning)"
    by simp
  moreover from this have "out \<noteq> Refused ShuttingDown" by (auto split: option.split)
  moreover have "\<not> refs_non_empty (lr_model r) c \<longleftrightarrow> lr_size r \<le> 0 \<and>
      (\<forall>key. key \<noteq> lr_key r \<longrightarrow> model_entry ops (mcache ?st) key (lr_model r) = None)"
    unfolding fills(3) by auto
  ultimately show ?thesis using False fills(1,2) by (simp add: lru)
qed

theorem load_bounds_lru_witness:
  "snd (load_begin list_ops demo_clock 5 (demo_load ''g/b'' False) (mw_state demo_predicting)) = Spawning \<and>
   (\<exists>l. lru_of (mcache (fst (load_begin list_ops demo_clock 5 (demo_load ''g/b'' False) (mw_state demo_predicting)))) ''k'' = Some l \<and>
     lk_iter list_ops l = [(''g/b'', At 15)])"
proof -
  let ?r = "load_begin list_ops demo_clock 5 (demo_load ''g/b'' False) (mw_state demo_predicting)"
  have run: "?r = (fst ?r, snd ?r)" by simp
  have open': "\<not> shutting_down (mw_state demo_predicting)" "map_of (models (mw_state demo_predicting)) ''g/b'' = None"
    "\<exists>x. (case lru_of (mcache (mw_state demo_predicting)) ''k'' of None \<Rightarrow> []
      | Some l0 \<Rightarrow> AList.delete ''g/b'' (lk_iter list_ops l0)) = [x]"
    by (simp_all add: demo_predicting_def demo_loading_def manager_run list_map_simps)
  with load_bounds_lru [OF listed.linked_map_axioms demo_predicting_reachable run refl, unfolded demo_load_sel]
  show ?thesis by (auto simp: demo_clock_def new_expiration_def)
qed

section \<open>Expiry and death\<close>

text \<open>
  A sweep drops exactly the expired entries of the models that nothing uses: entries of
  a model that is predicting or being loaded stay as they are, and the model stays loaded.
\<close>

theorem sweep_drops_expired:
  assumes "linked_map ops" and "manager_reachable ops after w" and "\<not> shutting_down (mw_state w)"
    and st_def: "st = mw_state w" and st'_def: "st' = sweep ops now is_finished (mw_state w)"
  shows "model_entry ops (mcache st') key m =
      (case model_entry ops (mcache st) key m of
         None \<Rightarrow> None
       | Some e \<Rightarrow> if is_expired now e \<and> \<not> busy w m then None else Some e) \<and>
    (busy w m \<longrightarrow> map_of (models st') m = map_of (models st) m)"
proof -
  have ml: "model_lrus ops" using assms(1) by (rule model_lrusI)
  note inv = model_lrus.manager_reachable_inv [OF ml assms(2)]
  note i = model_lrus.manager_invD [OF ml inv]
  note ag = model_lrus.soundD(1) [OF ml i(1)]
  let ?s1 = "(mw_state w)\<lparr>draining := filter (\<lambda>t. \<not> is_finished t) (draining (mw_state w))\<rparr>"
  obtain c u where r: "expire_entries ops now (mcache (mw_state w)) = (c, u)" by fastforce
  note p = model_lrus.expire_props [OF ml ag r]
  have st': "st' = begin_unloads u (?s1\<lparr>mcache := c\<rparr>)"
    using assms(3) r by (simp add: st'_def sweep_def Let_def)
  have mc: "mcache st' = c" by (simp add: st' model_lrus.begin_unloads_frame [OF ml])
  have bz: "pins_of (mcache (mw_state w)) m = 0 \<longleftrightarrow> \<not> busy w m" for m
    using i(3) [OF assms(3), of m] model_lrus.busy_pins [OF ml, of w m] by simp
  have ent: "model_lrus.entry ops c key m =
      (case model_lrus.entry ops (mcache (mw_state w)) key m of None \<Rightarrow> None
       | Some e \<Rightarrow> if is_expired now e \<and> \<not> busy w m then None else Some e)" for key m
    using p(4) bz [of m] by (auto split: option.split)
  have "map_of (models st') m = map_of (models st) m" if "busy w m"
  proof -
    have "m \<notin> set u"
    proof
      assume "m \<in> set u"
      then have "m \<in> model_lrus.lost (mcache (mw_state w)) c" using p(2) by simp
      then obtain key where "model_lrus.entry ops (mcache (mw_state w)) key m \<noteq> None" "model_lrus.entry ops c key m = None"
        using model_lrus.lost_iff [OF ml ag p(1)] by blast
      with ent [of key m] that show False by auto
    qed
    then show ?thesis by (simp add: st' st_def model_lrus.begin_unloads_map [OF ml])
  qed
  with ent show ?thesis unfolding model_lrus.model_entry_eq [OF ml] mc st_def by blast
qed

theorem sweep_drops_expired_witness:
  "model_entry list_ops (mcache (sweep list_ops 99 (\<lambda>_. True) (mw_state demo_predicting))) ''k'' ''g/a'' = Some (At 10) \<and>
   map_of (models (sweep list_ops 99 (\<lambda>_. True) (mw_state demo_predicting))) ''g/a'' = Some 0"
proof -
  have "\<not> shutting_down (mw_state demo_predicting)"
    by (simp add: demo_predicting_def demo_loading_def manager_run list_map_simps)
  note sw = sweep_drops_expired [OF listed.linked_map_axioms demo_predicting_reachable this refl refl,
      of 99 "\<lambda>_. True" "''k''" "''g/a''"]
  have "busy demo_predicting ''g/a''"
    by (simp add: busy_def demo_predicting_def guard_of_def)
  moreover have "model_entry list_ops (mcache (mw_state demo_predicting)) ''k'' ''g/a'' = Some (At 10)"
    by (simp add: model_entry_def demo_predicting_def demo_loading_def manager_run list_map_simps)
  ultimately show ?thesis using sw demo_models_loaded by simp
qed

text \<open>
  The death of a worker set removes its model from every listing and from the loaded
  models, and nothing else; the late report of an earlier generation changes nothing.
\<close>

theorem death_drops_its_generation:
  assumes "linked_map ops" and "manager_reachable ops after w"
  shows "let st = mw_state w; st' = handle_worker_death ops m g st in
    if map_of (models st) m = Some g then
      map_of (models st') = (map_of (models st))(m := None) \<and> Dispatcher g \<in> set (draining st') \<and>
      m \<notin> fst ` set (cached_models (mcache st')) \<and>
      (\<forall>key m'. model_entry ops (mcache st') key m' =
         (if m' = m then None else model_entry ops (mcache st) key m'))
    else st' = st"
proof -
  have ml: "model_lrus ops" using assms(1) by (rule model_lrusI)
  note s = model_lrus.manager_invD(1) [OF ml model_lrus.manager_reachable_inv [OF ml assms(2)]]
  note ag = model_lrus.soundD(1) [OF ml s]
  note p = model_lrus.remove_everywhere_props [OF ml ag, of m]
  have "m \<notin> fst ` set (cached_models (remove_everywhere ops m (mcache (mw_state w))))"
    using model_lrus.cached_models_iff(3) [OF ml p(1)] p(4) by simp
  then show ?thesis
    by (simp add: Let_def handle_worker_death_def model_lrus.model_entry_eq [OF ml] p(2) fun_eq_iff)
qed

theorem death_drops_its_generation_witness:
  "handle_worker_death list_ops ''g/a'' 7 (mw_state demo_predicting) = mw_state demo_predicting \<and>
   map_of (models (handle_worker_death list_ops ''g/a'' 0 (mw_state demo_predicting))) ''g/a'' = None"
  using death_drops_its_generation [OF listed.linked_map_axioms demo_predicting_reachable, of "''g/a''" 7]
    death_drops_its_generation [OF listed.linked_map_axioms demo_predicting_reachable, of "''g/a''" 0]
    demo_models_loaded
  by (simp add: Let_def)

text \<open>
  No worker set is abandoned: every dispatcher ever started is loaded, draining,
  awaited by the shutdown or already finished.
\<close>

theorem no_dispatcher_is_lost:
  assumes "linked_map ops" and "manager_reachable ops after w" and "g < next_generation (mw_state w)"
  shows "(\<exists>m. map_of (models (mw_state w)) m = Some g) \<or> Dispatcher g \<in> set (draining (mw_state w)) \<or>
    Dispatcher g \<in> set (mw_awaited w) \<or> Dispatcher g \<in> set (mw_reaped w)"
proof -
  have ml: "model_lrus ops" using assms(1) by (rule model_lrusI)
  note i = model_lrus.manager_invD [OF ml model_lrus.manager_reachable_inv [OF ml assms(2)]]
  have "g \<in> snd ` set (models (mw_state w)) \<or>
      Dispatcher g \<in> set (draining (mw_state w)) \<union> (set (mw_awaited w) \<union> set (mw_reaped w))"
    using i(2) assms(3) by (simp add: model_lrus.covered_def [OF ml])
  moreover have "\<exists>m. map_of (models (mw_state w)) m = Some g" if "g \<in> snd ` set (models (mw_state w))"
    using that model_lrus.soundD(2) [OF ml i(1)] by (force simp: map_of_eq_Some_iff)
  ultimately show ?thesis by blast
qed

theorem no_dispatcher_is_lost_witness:
  "(\<exists>m. map_of (models (mw_state demo_predicting)) m = Some 0) \<or> Dispatcher 0 \<in> set (draining (mw_state demo_predicting))"
proof -
  have "next_generation (mw_state demo_predicting) = 1"
    by (simp add: demo_predicting_def demo_loading_def manager_run list_map_simps)
  then have "0 < next_generation (mw_state demo_predicting)" by simp
  from no_dispatcher_is_lost [OF listed.linked_map_axioms demo_predicting_reachable this]
  show ?thesis by (auto simp: demo_predicting_def new_world_def)
qed

section \<open>Whole-set spawning\<close>

text \<open>The workers that come up while one replica starts.\<close>

definition came_up :: "'w option \<Rightarrow> ('w, 'e) replica_answers \<Rightarrow> 'w list" where
  "came_up claimed a =
     (case claimed of
        Some w \<Rightarrow> (if ra_configure a = WorkerDied then (case ra_fresh a of Inl _ \<Rightarrow> [] | Inr v \<Rightarrow> [v]) else [w])
      | None \<Rightarrow> (case ra_fresh a of Inl _ \<Rightarrow> [] | Inr v \<Rightarrow> [v]))"

definition pooled_for :: "bool \<Rightarrow> string option list \<Rightarrow> 'w option \<Rightarrow> nat \<Rightarrow> 'w option" where
  "pooled_for env_is_clean devices pooled i =
     (if Some i = claim_replica env_is_clean devices then pooled else None)"

lemma start_replica_cases:
  "(\<exists>w. start_replica claimed a = ([], Inr w) \<and> came_up claimed a = [w]) \<or>
   (\<exists>e. start_replica claimed a = (came_up claimed a, Inl e))"
  by (auto simp: start_replica_def configure_claimed_def came_up_def
      split: option.splits sum.splits configure_result.splits)

lemma collect_ok:
  "collect_replicas rs killed workers first = (k, ws, None) \<longleftrightarrow>
     first = None \<and> (\<forall>r \<in> set rs. \<exists>w. snd r = Inr w) \<and> k = killed @ concat (map fst rs) \<and>
     ws = workers @ map (projr \<circ> snd) rs"
  by (induction rs killed workers first rule: collect_replicas.induct)
    (auto split: option.splits)

lemma collect_err:
  "collect_replicas rs killed workers first = (k, ws, Some e) \<Longrightarrow>
     set k \<union> set ws = set killed \<union> set workers \<union> \<Union> (set ` fst ` set rs) \<union> {w. Inr w \<in> snd ` set rs}"
  by (induction rs killed workers first rule: collect_replicas.induct) (auto 0 4 split: option.splits)

text \<open>
  A model loads with its whole worker set or not at all: on success every device has
  its worker and nothing was killed; on failure every worker that came up was killed.
\<close>

theorem spawn_is_all_or_nothing:
  "case spawn_model env_is_clean devices pooled answers of
     (killed, Inr ws) \<Rightarrow> killed = [] \<and> length ws = length devices \<and>
       ws = concat (map (\<lambda>i. came_up (pooled_for env_is_clean devices pooled i) (answers i)) [0..<length devices])
   | (killed, Inl e) \<Rightarrow>
       set killed = (\<Union>i<length devices. set (came_up (pooled_for env_is_clean devices pooled i) (answers i)))"
proof -
  let ?c = "\<lambda>i. came_up (pooled_for env_is_clean devices pooled i) (answers i)"
  define f where "f = (\<lambda>i. start_replica (pooled_for env_is_clean devices pooled i) (answers i))"
  let ?rs = "map f [0..<length devices]"
  have eq: "spawn_model env_is_clean devices pooled answers =
      (case collect_replicas ?rs [] [] None of
         (killed, workers, Some e) \<Rightarrow> (killed @ workers, Inl e) | (killed, workers, None) \<Rightarrow> (killed, Inr workers))"
    unfolding spawn_model_def f_def Let_def pooled_for_def
    by (rule arg_cong [where f = "\<lambda>x. case x of (k, w, Some e) \<Rightarrow> (k @ w, Inl e) | (k, w, None) \<Rightarrow> (k, Inr w)"])
      (auto intro!: arg_cong [where f = "\<lambda>x. collect_replicas x [] [] None"] split: option.split)
  have one: "(\<exists>w. f i = ([], Inr w) \<and> ?c i = [w]) \<or> (\<exists>e. f i = (?c i, Inl e))" for i
    unfolding f_def by (rule start_replica_cases)
  obtain k ws first where run: "collect_replicas ?rs [] [] None = (k, ws, first)" by (metis prod_cases3)
  show ?thesis
  proof (cases first)
    case None
    then have r: "\<forall>r \<in> set ?rs. \<exists>w. snd r = Inr w" "k = concat (map fst ?rs)" "ws = map (projr \<circ> snd) ?rs"
      using run collect_ok [of ?rs "[]" "[]" None k ws] by simp_all
    have ok: "f i = ([], Inr (projr (snd (f i)))) \<and> ?c i = [projr (snd (f i))]" if "i < length devices" for i
    proof -
      have "\<exists>w. snd (f i) = Inr w" using r(1) that by auto
      with one [of i] show ?thesis by auto
    qed
    have "k = []" unfolding r(2) using ok by (auto simp: concat_eq_Nil_conv) (metis fst_conv list.distinct(1) empty_iff empty_set)
    moreover have "concat (map ?c xs) = map (\<lambda>i. projr (snd (f i))) xs" if "set xs \<subseteq> {..<length devices}" for xs
      using that ok by (induction xs) auto
    then have "ws = concat (map ?c [0..<length devices])" by (simp add: r(3) subset_iff comp_def)
    moreover have "length ws = length devices" by (simp add: r(3))
    ultimately show ?thesis using None by (simp add: eq run)
  next
    case (Some e)
    have "set k \<union> set ws = \<Union> (set ` fst ` set ?rs) \<union> {w. Inr w \<in> snd ` set ?rs}"
      using collect_err [OF run [unfolded Some]] by simp
    also have "\<dots> = (\<Union>i<length devices. set (fst (f i)) \<union> {w. snd (f i) = Inr w})"
    proof -
      have "(\<exists>r \<in> set ?rs. P r) \<longleftrightarrow> (\<exists>i<length devices. P (f i))" for P by auto
      then show ?thesis by (auto simp: image_iff eq_commute [of "Inr _"])
    qed
    also have "\<dots> = (\<Union>i<length devices. set (?c i))"
    proof -
      have "set (fst (f i)) \<union> {w. snd (f i) = Inr w} = set (?c i)" for i
        using one [of i] by auto
      then show ?thesis by simp
    qed
    finally show ?thesis using Some by (simp add: eq run)
  qed
qed

section \<open>Two corners of loading\<close>

text \<open>
  A size of zero is refused only when no other cache key holds the model: otherwise the
  load succeeds without an entry under its own key.
\<close>

lemma zero_size_not_refused:
  "snd (load_begin list_ops demo_clock 5 \<lparr>lr_model = ''g/a'', lr_key = ''z'', lr_size = 0, lr_ttl = 10, lr_pin = False\<rparr>
     (mw_state demo_predicting)) = Ready None"
  by (simp add: demo_predicting_def demo_loading_def manager_run list_map_simps list_pop_def drop_ref_def
      begin_unloads_def begin_unload_def)

text \<open>A load cancelled while its workers spawn leaves its entry listed with no worker behind it.\<close>

lemma cancelled_load_stays_listed:
  "let st = release_pin list_ops demo_clock 5 ''g/a'' None (mw_state demo_loading) in
     cached_models (mcache st) = [(''g/a'', [''k''])] \<and> models st = []"
  by (simp add: demo_loading_def manager_run list_map_simps cached_models_def release_pin_def)

end
