(* ===== verification/PrewarmPool.thy ===== *)
theory PrewarmPool
  imports Prelude "HOL-Library.Multiset" "HOL-Library.List_Lexorder" "HOL-Library.Char_ord"
begin

text \<open>
  The pool of prewarmed workers (\<open>panoptikon/src/inferio/prewarm.rs\<close>): at most one parked
  worker per implementation class, warmed by background tasks.  Workers are numbers; a
  warm-up task is identified by a ticket.  A \<open>BTreeMap\<close> is an association list with distinct
  keys.
\<close>

record prewarm_config =
  pw_enabled :: bool
  pw_lazy :: bool
  pw_always_warm :: "string list"

datatype slot = SlotSpawning | Parked nat bool

record pool_state =
  slots :: "(string \<times> slot) list"
  warm_tasks :: "(nat \<times> string) list"
  pool_shutting_down :: bool
  next_ticket :: nat

definition new_pool :: pool_state where
  "new_pool = \<lparr>slots = [], warm_tasks = [], pool_shutting_down = False, next_ticket = 0\<rparr>"

text \<open>\<open>retain\<close> drops the tasks that finished; finished tasks leave the list when they report.\<close>

definition ensure_warm :: "prewarm_config \<Rightarrow> string \<Rightarrow> pool_state \<Rightarrow> pool_state" where
  "ensure_warm cfg c p =
     (if \<not> pw_enabled cfg then p
      else if pool_shutting_down p \<or> map_of (slots p) c \<noteq> None then p
      else p\<lparr>slots := AList.update c SlotSpawning (slots p),
             warm_tasks := warm_tasks p @ [(next_ticket p, c)], next_ticket := next_ticket p + 1\<rparr>)"

definition warm_always :: "prewarm_config \<Rightarrow> pool_state \<Rightarrow> pool_state" where
  "warm_always cfg p = fold (ensure_warm cfg) (pw_always_warm cfg) p"

definition lazy_warm :: "prewarm_config \<Rightarrow> string \<Rightarrow> pool_state \<Rightarrow> pool_state" where
  "lazy_warm cfg c p = (if pw_enabled cfg \<and> pw_lazy cfg then ensure_warm cfg c p else p)"

text \<open>
  \<open>claim\<close>: the worker taken out of the pool, and whether it answered the ping (a worker that
  does not is killed).
\<close>

definition claim_worker :: "prewarm_config \<Rightarrow> string \<Rightarrow> pool_state \<Rightarrow> pool_state \<times> nat option" where
  "claim_worker cfg c p =
     (if \<not> pw_enabled cfg then (p, None)
      else case map_of (slots p) c of
        Some (Parked w _) \<Rightarrow> (p\<lparr>slots := AList.delete c (slots p)\<rparr>, Some w)
      | _ \<Rightarrow> (p, None))"

datatype claim_result = Claimed nat | Killed nat | NoWorker

definition claim :: "prewarm_config \<Rightarrow> bool \<Rightarrow> string \<Rightarrow> pool_state \<Rightarrow> pool_state \<times> claim_result" where
  "claim cfg ping_ok c p =
     (case claim_worker cfg c p of
        (p', None) \<Rightarrow> (p', NoWorker)
      | (p', Some w) \<Rightarrow> (p', if ping_ok then Claimed w else Killed w))"

text \<open>
  The end of \<open>warm_worker_task\<close>: the worker it started and whether \<open>prepare\<close> failed, or a
  fatal error.  A worker that comes too late is shut down.
\<close>

definition warm_done :: "string \<Rightarrow> (nat \<times> bool) option \<Rightarrow> pool_state \<Rightarrow> pool_state \<times> nat option" where
  "warm_done c outcome p =
     (case outcome of
        Some (w, failed_prepare) \<Rightarrow>
          (if pool_shutting_down p then (p, Some w)
           else (p\<lparr>slots := AList.update c (Parked w failed_prepare) (slots p)\<rparr>, None))
      | None \<Rightarrow>
          (if map_of (slots p) c = Some SlotSpawning then (p\<lparr>slots := AList.delete c (slots p)\<rparr>, None)
           else (p, None)))"

definition parked_workers :: "pool_state \<Rightarrow> nat list" where
  "parked_workers p =
     List.map_filter (\<lambda>(_, s). case s of Parked w _ \<Rightarrow> Some w | SlotSpawning \<Rightarrow> None) (slots p)"

text \<open>The workers to shut down and the tasks to abort.\<close>

definition pool_shutdown :: "pool_state \<Rightarrow> pool_state \<times> nat list \<times> (nat \<times> string) list" where
  "pool_shutdown p =
     (p\<lparr>pool_shutting_down := True, slots := [], warm_tasks := []\<rparr>, parked_workers p, warm_tasks p)"

definition slot_state :: "slot \<Rightarrow> string" where
  "slot_state s = (case s of SlotSpawning \<Rightarrow> ''spawning''
     | Parked _ False \<Rightarrow> ''warm'' | Parked _ True \<Rightarrow> ''failed_prepare'')"

definition pool_health :: "prewarm_config \<Rightarrow> pool_state \<Rightarrow> bool \<times> bool \<times> (string \<times> string) list" where
  "pool_health cfg p = (pw_enabled cfg, pw_lazy cfg, map (\<lambda>(c, s). (c, slot_state s)) (slots p))"

section \<open>The eager set\<close>

text \<open>
  One eager pass: per index database the answers of the configuration store, the database
  and the registry (an error skips the database, a setter without an entry is skipped).
\<close>

record eager_db =
  ed_config :: "bool option"
  ed_setters :: "string list option"

fun collect_classes :: "(string \<Rightarrow> string option) \<Rightarrow> eager_db list \<Rightarrow> string list \<Rightarrow> string list" where
  "collect_classes impl_class [] acc = acc"
| "collect_classes impl_class (d # ds) acc =
     (case ed_config d of
        None \<Rightarrow> collect_classes impl_class ds acc
      | Some False \<Rightarrow> collect_classes impl_class ds acc
      | Some True \<Rightarrow>
          (case ed_setters d of
             None \<Rightarrow> collect_classes impl_class ds acc
           | Some ss \<Rightarrow> collect_classes impl_class ds (acc @ List.map_filter impl_class ss)))"

definition eager_tick ::
  "prewarm_config \<Rightarrow> (string \<Rightarrow> string option) option \<Rightarrow> eager_db list option \<Rightarrow> pool_state \<Rightarrow> pool_state" where
  "eager_tick cfg registry dbs p =
     (if \<not> pw_enabled cfg then p
      else (let p1 = warm_always cfg p in
        case (registry, dbs) of
          (Some impl_class, Some ds) \<Rightarrow>
            fold (ensure_warm cfg) (sort (remdups (collect_classes impl_class ds []))) p1
        | _ \<Rightarrow> p1))"

section \<open>The system\<close>

text \<open>
  The pool with the fate of every worker: those handed to a load, and those stopped.  The
  shutdown takes the warm-up tasks out of the pool before it aborts them, so they may still
  report (\<open>po_taken\<close>).
\<close>

record pool_world =
  po_pool :: pool_state
  po_taken :: "(nat \<times> string) list"
  po_started :: "nat list"
  po_claimed :: "nat list"
  po_stopped :: "nat list"

definition new_pool_world :: pool_world where
  "new_pool_world = \<lparr>po_pool = new_pool, po_taken = [], po_started = [], po_claimed = [], po_stopped = []\<rparr>"

definition task_ends :: "nat \<times> string \<Rightarrow> pool_world \<Rightarrow> pool_world" where
  "task_ends t w =
     w\<lparr>po_pool := (po_pool w)\<lparr>warm_tasks := remove1 t (warm_tasks (po_pool w))\<rparr>,
       po_taken := remove1 t (po_taken w)\<rparr>"

inductive pool_step :: "prewarm_config \<Rightarrow> pool_world \<Rightarrow> pool_world \<Rightarrow> bool" for cfg where
  warm: "pool_step cfg w (w\<lparr>po_pool := ensure_warm cfg c (po_pool w)\<rparr>)"
| warm_starts: "v \<notin> set (po_started w) \<Longrightarrow>
    (t, c) \<in> set (warm_tasks (po_pool w)) \<union> set (po_taken w) \<Longrightarrow>
    warm_done c (Some (v, failed)) (po_pool (task_ends (t, c) w)) = (p, stale) \<Longrightarrow>
    pool_step cfg w ((task_ends (t, c) w)\<lparr>po_pool := p, po_started := v # po_started w,
      po_stopped := po_stopped w @ (case stale of None \<Rightarrow> [] | Some x \<Rightarrow> [x])\<rparr>)"
| warm_fails: "(t, c) \<in> set (warm_tasks (po_pool w)) \<union> set (po_taken w) \<Longrightarrow>
    warm_done c None (po_pool (task_ends (t, c) w)) = (p, stale) \<Longrightarrow>
    pool_step cfg w ((task_ends (t, c) w)\<lparr>po_pool := p\<rparr>)"
| claims: "claim cfg ping_ok c (po_pool w) = (p, out) \<Longrightarrow>
    pool_step cfg w (case out of
        Claimed v \<Rightarrow> w\<lparr>po_pool := p, po_claimed := po_claimed w @ [v]\<rparr>
      | Killed v \<Rightarrow> w\<lparr>po_pool := p, po_stopped := po_stopped w @ [v]\<rparr>
      | NoWorker \<Rightarrow> w\<lparr>po_pool := p\<rparr>)"
| shuts_down: "pool_shutdown (po_pool w) = (p, ws, ts) \<Longrightarrow>
    pool_step cfg w (w\<lparr>po_pool := p, po_taken := po_taken w @ ts, po_stopped := po_stopped w @ ws\<rparr>)"

inductive pool_reachable :: "prewarm_config \<Rightarrow> pool_world \<Rightarrow> bool" for cfg where
  fresh_pool: "pool_reachable cfg new_pool_world"
| pool_moves: "pool_reachable cfg w \<Longrightarrow> pool_step cfg w w' \<Longrightarrow> pool_reachable cfg w'"

section \<open>Parked workers\<close>

definition parked_in :: "(string \<times> slot) list \<Rightarrow> nat multiset" where
  "parked_in xs = (\<Sum>(c, s) \<in># mset xs. case s of Parked w _ \<Rightarrow> {#w#} | SlotSpawning \<Rightarrow> {#})"

lemma parked_in_simps [simp]:
  "parked_in [] = {#}"
  "parked_in ((c, s) # xs) = (case s of Parked w _ \<Rightarrow> {#w#} | SlotSpawning \<Rightarrow> {#}) + parked_in xs"
  by (simp_all add: parked_in_def)

lemma parked_workers_mset: "mset (parked_workers p) = parked_in (slots p)"
proof -
  have "mset (List.map_filter (\<lambda>(_, s). case s of Parked w _ \<Rightarrow> Some w | SlotSpawning \<Rightarrow> None) xs) = parked_in xs"
    for xs :: "(string \<times> slot) list"
    by (induction xs) (auto simp: map_filter_simps split: slot.split)
  then show ?thesis by (simp add: parked_workers_def)
qed

lemma parked_update:
  assumes "distinct (map fst xs)" and "map_of xs c \<in> {None, Some SlotSpawning}"
  shows "parked_in (AList.update c s xs) = (case s of Parked w _ \<Rightarrow> {#w#} | SlotSpawning \<Rightarrow> {#}) + parked_in xs"
  using assms
proof (induction xs)
  case Nil
  then show ?case by simp
next
  case (Cons x xs)
  have "map_of xs c = None" if "fst x = c" using Cons.prems(1) that by (auto simp: map_of_eq_None_iff)
  with Cons show ?case by (cases x) (auto split: if_splits)
qed

lemma parked_delete:
  assumes "distinct (map fst xs)" and "map_of xs c = Some s"
  shows "parked_in xs = (case s of Parked w _ \<Rightarrow> {#w#} | SlotSpawning \<Rightarrow> {#}) + parked_in (AList.delete c xs)"
  using assms
proof (induction xs)
  case Nil
  then show ?case by simp
next
  case (Cons x xs)
  have "AList.delete c xs = xs" if "fst x = c"
    by (rule delete_id) (use Cons.prems(1) that in simp)
  with Cons show ?case by (cases x) (auto split: if_splits)
qed

section \<open>The invariant\<close>

definition pool_inv :: "pool_world \<Rightarrow> bool" where
  "pool_inv w \<longleftrightarrow>
     distinct (map fst (slots (po_pool w))) \<and> distinct (map snd (warm_tasks (po_pool w))) \<and>
     (\<forall>t c. (t, c) \<in> set (warm_tasks (po_pool w)) \<longrightarrow> map_of (slots (po_pool w)) c = Some SlotSpawning) \<and>
     (\<not> pool_shutting_down (po_pool w) \<longrightarrow> po_taken w = []) \<and>
     (pool_shutting_down (po_pool w) \<longrightarrow> slots (po_pool w) = [] \<and> warm_tasks (po_pool w) = []) \<and>
     distinct (po_started w) \<and>
     mset (po_started w) = parked_in (slots (po_pool w)) + mset (po_claimed w) + mset (po_stopped w)"

lemma prewarm_invD:
  assumes "pool_inv w"
  shows "distinct (map fst (slots (po_pool w)))" "distinct (map snd (warm_tasks (po_pool w)))"
    "(t, c) \<in> set (warm_tasks (po_pool w)) \<Longrightarrow> map_of (slots (po_pool w)) c = Some SlotSpawning"
    "\<not> pool_shutting_down (po_pool w) \<Longrightarrow> po_taken w = []"
    "pool_shutting_down (po_pool w) \<Longrightarrow> slots (po_pool w) = []"
    "pool_shutting_down (po_pool w) \<Longrightarrow> warm_tasks (po_pool w) = []"
    "distinct (po_started w)"
    "mset (po_started w) = parked_in (slots (po_pool w)) + mset (po_claimed w) + mset (po_stopped w)"
  using assms unfolding pool_inv_def by blast+

lemma other_class:
  assumes "distinct (map snd ts)" and "(t, c) \<in> set ts" and "(t', c') \<in> set (remove1 (t, c) ts)"
  shows "c' \<noteq> c"
proof
  assume eq: "c' = c"
  have "distinct ts" using assms(1) by (metis distinct_map)
  then have "(t', c') \<in> set ts" "(t', c') \<noteq> (t, c)" using assms(3) by (simp_all add: set_remove1_eq)
  moreover have "inj_on snd (set ts)" using assms(1) by (simp add: distinct_map)
  ultimately show False using inj_onD [of snd "set ts" "(t', c')" "(t, c)"] eq assms(2) by simp
qed

lemma distinct_snd_remove1: "distinct (map snd ts) \<Longrightarrow> distinct (map snd (remove1 t ts))"
  by (induction ts) (auto dest: notin_set_remove1 in_set_remove1 [THEN iffD1, rotated] set_remove1_subset [THEN subsetD])

lemma prewarm_step_inv:
  assumes "pool_step cfg w w'" and inv: "pool_inv w"
  shows "pool_inv w'"
proof -
  note i = prewarm_invD [OF inv]
  let ?p = "po_pool w"
  from assms(1) show ?thesis
  proof cases
    case (warm c)
    show ?thesis
    proof (cases "pw_enabled cfg \<and> \<not> pool_shutting_down ?p \<and> map_of (slots ?p) c = None")
      case False
      then have "w' = w" by (auto simp: warm ensure_warm_def)
      with inv show ?thesis by simp
    next
      case True
      then have p: "po_pool w' = ?p\<lparr>slots := AList.update c SlotSpawning (slots ?p),
          warm_tasks := warm_tasks ?p @ [(next_ticket ?p, c)], next_ticket := next_ticket ?p + 1\<rparr>"
        by (simp add: warm ensure_warm_def)
      have "c \<notin> snd ` set (warm_tasks ?p)" using i(3) True by force
      then have "distinct (map snd (warm_tasks (po_pool w')))" using i(2) by (simp add: p)
      moreover have "parked_in (slots (po_pool w')) = parked_in (slots ?p)"
        using parked_update [OF i(1), of c SlotSpawning] True by (simp add: p)
      ultimately show ?thesis
        using i True unfolding pool_inv_def p by (auto simp: warm update_conv' distinct_update)
    qed
  next
    case (warm_starts v t c failed p stale)
    let ?q = "po_pool (task_ends (t, c) w)"
    show ?thesis
    proof (cases "pool_shutting_down ?p")
      case True
      then have "p = ?q" "stale = Some v" using warm_starts(4) by (simp_all add: warm_done_def task_ends_def)
      with i True warm_starts(2) show ?thesis
        by (simp add: pool_inv_def warm_starts(1) task_ends_def)
    next
      case False
      have mem: "(t, c) \<in> set (warm_tasks ?p)" using warm_starts(3) i(4) False by simp
      have p: "p = ?q\<lparr>slots := AList.update c (Parked v failed) (slots ?p)\<rparr>" "stale = None"
        using warm_starts(4) False by (auto simp: warm_done_def task_ends_def)
      have pk: "parked_in (slots p) = add_mset v (parked_in (slots ?p))"
        using parked_update [OF i(1), of c "Parked v failed"] i(3) [OF mem] by (simp add: p)
      have tasks: "map_of (slots p) c' = Some SlotSpawning" if "(t', c') \<in> set (warm_tasks p)" for t' c'
      proof -
        have r: "(t', c') \<in> set (remove1 (t, c) (warm_tasks ?p))" using that by (simp add: p task_ends_def)
        have "c' \<noteq> c" by (rule other_class [OF i(2) mem r])
        moreover have "(t', c') \<in> set (warm_tasks ?p)" using r set_remove1_subset by fastforce
        ultimately show ?thesis using i(3) by (simp add: p update_conv')
      qed
      have "distinct (map snd (warm_tasks p))" using distinct_snd_remove1 [OF i(2)] by (simp add: p task_ends_def)
      moreover have "distinct (map fst (slots p))" using i(1) by (simp add: p distinct_update)
      moreover have "pool_shutting_down p = False" using False by (simp add: p task_ends_def)
      moreover have "po_taken (task_ends (t, c) w) = []" using i(4) False by (simp add: task_ends_def)
      ultimately show ?thesis
        using pk i(7,8) warm_starts(2) tasks unfolding pool_inv_def warm_starts(1)
        by (simp add: p(2)) (simp add: task_ends_def)
    qed
  next
    case (warm_fails t c p stale)
    let ?q = "po_pool (task_ends (t, c) w)"
    show ?thesis
    proof (cases "pool_shutting_down ?p")
      case True
      then have "p = ?q" using warm_fails(3) i(5) by (auto simp: warm_done_def task_ends_def)
      with i True show ?thesis by (simp add: pool_inv_def warm_fails(1) task_ends_def)
    next
      case False
      have mem: "(t, c) \<in> set (warm_tasks ?p)" using warm_fails(2) i(4) False by simp
      have p: "p = ?q\<lparr>slots := AList.delete c (slots ?p)\<rparr>"
        using warm_fails(3) i(3) [OF mem] by (auto simp: warm_done_def task_ends_def)
      have pk: "parked_in (slots p) = parked_in (slots ?p)"
        using parked_delete [OF i(1) i(3) [OF mem]] by (simp add: p)
      have tasks: "map_of (slots p) c' = Some SlotSpawning" if "(t', c') \<in> set (warm_tasks p)" for t' c'
      proof -
        have r: "(t', c') \<in> set (remove1 (t, c) (warm_tasks ?p))" using that by (simp add: p task_ends_def)
        have "c' \<noteq> c" by (rule other_class [OF i(2) mem r])
        moreover have "(t', c') \<in> set (warm_tasks ?p)" using r set_remove1_subset by fastforce
        ultimately show ?thesis using i(3) by (simp add: p delete_conv')
      qed
      have "distinct (map snd (warm_tasks p))" using distinct_snd_remove1 [OF i(2)] by (simp add: p task_ends_def)
      moreover have "distinct (map fst (slots p))" using i(1) by (simp add: p distinct_delete)
      moreover have "pool_shutting_down p = False" using False by (simp add: p task_ends_def)
      moreover have "po_taken (task_ends (t, c) w) = []" using i(4) False by (simp add: task_ends_def)
      ultimately show ?thesis
        using pk i(7,8) tasks unfolding pool_inv_def warm_fails(1) by simp (simp add: task_ends_def)
    qed
  next
    case (claims ping_ok c p out)
    show ?thesis
    proof (cases "pw_enabled cfg \<and> (\<exists>v f. map_of (slots ?p) c = Some (Parked v f))")
      case False
      then have "p = ?p" "out = NoWorker"
        using claims(2) by (auto simp: claim_def claim_worker_def split: option.splits slot.splits if_splits)
      with inv show ?thesis by (simp add: claims(1))
    next
      case True
      then obtain v f where vf: "map_of (slots ?p) c = Some (Parked v f)" by blast
      have p: "p = ?p\<lparr>slots := AList.delete c (slots ?p)\<rparr>" and out: "out = (if ping_ok then Claimed v else Killed v)"
        using claims(2) True vf by (auto simp: claim_def claim_worker_def)
      have pk: "parked_in (slots ?p) = add_mset v (parked_in (slots p))"
        using parked_delete [OF i(1) vf] by (simp add: p)
      have "map_of (slots p) c' = Some SlotSpawning" if "(t', c') \<in> set (warm_tasks p)" for t' c'
        using i(3) [of t' c'] that vf by (auto simp: p delete_conv')
      moreover have "distinct (map fst (slots p))" using i(1) by (simp add: p distinct_delete)
      moreover have "\<not> pool_shutting_down ?p" using i(5) vf by auto
      ultimately show ?thesis
        using pk i unfolding pool_inv_def claims(1) out by (simp add: p)
    qed
  next
    case (shuts_down p ws ts)
    then show ?thesis
      using i parked_workers_mset [of ?p] by (auto simp: pool_inv_def pool_shutdown_def)
  qed
qed

lemma prewarm_reachable_inv: "pool_reachable cfg w \<Longrightarrow> pool_inv w"
proof (induction rule: pool_reachable.induct)
  case fresh_pool
  then show ?case by (simp add: pool_inv_def new_pool_world_def new_pool_def)
next
  case (pool_moves w w')
  then show ?case using prewarm_step_inv by blast
qed

section \<open>The property\<close>

text \<open>
  C39.  Every prewarmed worker is at any time in exactly one place: parked, handed to a
  load, or stopped; a class never has two of them, and none is parked after the shutdown.
\<close>

theorem prewarmed_workers_accounted:
  assumes "pool_reachable cfg w"
  shows "mset (po_started w) = mset (parked_workers (po_pool w)) + mset (po_claimed w) + mset (po_stopped w) \<and>
    distinct (po_started w) \<and> distinct (map fst (slots (po_pool w))) \<and>
    (pool_shutting_down (po_pool w) \<longrightarrow> parked_workers (po_pool w) = [])"
proof -
  note i = prewarm_invD [OF prewarm_reachable_inv [OF assms]]
  show ?thesis using i parked_workers_mset [of "po_pool w"] by (simp add: parked_workers_def map_filter_simps)
qed

definition demo_pool_config :: prewarm_config where
  "demo_pool_config = \<lparr>pw_enabled = True, pw_lazy = True, pw_always_warm = [''clip'']\<rparr>"

definition demo_pool :: pool_world where
  "demo_pool = new_pool_world\<lparr>po_pool := new_pool\<lparr>slots := [(''clip'', Parked 7 False)], next_ticket := 1\<rparr>,
     po_started := [7]\<rparr>"

theorem prewarmed_workers_accounted_witness:
  "mset (po_started demo_pool) = mset (parked_workers (po_pool demo_pool)) \<and> po_started demo_pool = [7]"
proof -
  let ?w1 = "new_pool_world\<lparr>po_pool := ensure_warm demo_pool_config ''clip'' new_pool\<rparr>"
  have 1: "pool_step demo_pool_config new_pool_world ?w1"
    using warm [of demo_pool_config new_pool_world "''clip''"] by (simp add: new_pool_world_def)
  have 2: "pool_step demo_pool_config ?w1 demo_pool"
  proof -
    have "warm_done ''clip'' (Some (7, False)) (po_pool (task_ends (0, ''clip'') ?w1)) = (po_pool demo_pool, None)"
      by (simp add: warm_done_def task_ends_def ensure_warm_def demo_pool_config_def new_pool_def demo_pool_def)
    from warm_starts [OF _ _ this] show ?thesis
      by (simp add: demo_pool_def new_pool_world_def task_ends_def ensure_warm_def demo_pool_config_def new_pool_def)
  qed
  have "pool_reachable demo_pool_config demo_pool"
    by (rule pool_moves [OF pool_moves [OF fresh_pool 1] 2])
  from prewarmed_workers_accounted [OF this] show ?thesis
    by (simp add: demo_pool_def new_pool_world_def)
qed

end
