(* ===== verification/Dispatch.thy ===== *)
theory Dispatch
  imports Prelude
begin

text \<open>
  Batching for one loaded model (\<open>panoptikon/src/inferio/dispatch.rs\<close>): window formation,
  the prediction of one window on one replica, and the dispatcher task as a transition
  system.  A worker is a state \<open>'w\<close> with a function \<open>predict\<close> that answers a batch; replies
  are collected as a list in the order they are sent.
\<close>

section \<open>Requests\<close>

text \<open>A worker input: the JSON text of its data and the bytes of its file.\<close>

record worker_input =
  wi_data :: "string option"
  wi_file :: "8 word list option"

definition max_frame_bytes :: nat where
  "max_frame_bytes = 0x80000000"

definition frame_input_bytes_budget :: nat where
  "frame_input_bytes_budget = max_frame_bytes - 8 * 1024 * 1024"

definition estimate_input_bytes :: "worker_input \<Rightarrow> nat" where
  "estimate_input_bytes i =
     (case wi_data i of None \<Rightarrow> 0 | Some t \<Rightarrow> length t) +
     (case wi_file i of None \<Rightarrow> 0 | Some f \<Rightarrow> length f) + 64"

record dispatch_request =
  rq_id :: nat
  rq_inputs :: "worker_input list"
  rq_max_batch :: "nat option"
  rq_bytes :: nat

text \<open>\<open>predict\<close> answers with one output per input, a refusal, or the death of the worker.\<close>

datatype 'o predict_result = PredOk "'o list" | PredRefused string | PredDied string

datatype 'o reply = Outputs "'o list" | Failed string

type_synonym ('w, 'o) predictor = "'w \<Rightarrow> worker_input list \<Rightarrow> 'w \<times> 'o predict_result"

datatype batch_outcome = Continue | Fatal string

section \<open>Window formation\<close>

definition effective_cap :: "nat option list \<Rightarrow> nat option \<Rightarrow> nat \<Rightarrow> nat" where
  "effective_cap explicit_caps registry_default server_default =
     (let explicit = (case List.map_filter id explicit_caps of [] \<Rightarrow> None | cs \<Rightarrow> Some (Max (set cs)));
          cap = (case explicit of
                   Some c \<Rightarrow> c
                 | None \<Rightarrow> (case registry_default of
                     Some d \<Rightarrow> if d > 0 then d else server_default
                   | None \<Rightarrow> server_default))
      in max cap 1)"

definition admit_cap :: "nat \<Rightarrow> nat option \<Rightarrow> nat" where
  "admit_cap member_cap explicit =
     (case explicit of Some c \<Rightarrow> if c > 0 then min member_cap c else member_cap | None \<Rightarrow> member_cap)"

fun take_loop ::
  "(nat \<times> nat \<times> nat option) list \<Rightarrow> nat \<Rightarrow> nat \<Rightarrow> nat \<Rightarrow> nat \<Rightarrow> nat \<Rightarrow> nat" where
  "take_loop [] budget taken units bytes member_cap = taken"
| "take_loop ((n, sz, explicit) # rs) budget taken units bytes member_cap =
     (let admit = admit_cap member_cap explicit in
      if taken = 0 \<or> units + n \<le> admit \<and> bytes + sz \<le> budget
      then take_loop rs budget (taken + 1) (units + n) (bytes + sz) admit
      else taken)"

definition window_take_count :: "(nat \<times> nat \<times> nat option) list \<Rightarrow> nat \<Rightarrow> nat \<Rightarrow> nat" where
  "window_take_count requests cap byte_budget = take_loop requests byte_budget 0 0 0 cap"

fun sub_batch_loop :: "worker_input list \<Rightarrow> nat \<Rightarrow> nat \<Rightarrow> nat \<Rightarrow> nat" where
  "sub_batch_loop [] budget bytes taken = taken"
| "sub_batch_loop (i # is) budget bytes taken =
     (let bytes' = bytes + estimate_input_bytes i in
      if taken > 0 \<and> bytes' > budget then taken else sub_batch_loop is budget bytes' (taken + 1))"

definition sub_batch_len :: "worker_input list \<Rightarrow> nat \<Rightarrow> nat \<Rightarrow> nat" where
  "sub_batch_len inputs cap byte_budget =
     max (sub_batch_loop (take (max cap 1) inputs) byte_budget 0 0) 1"

section \<open>One window on one replica\<close>

definition fail_requests :: "dispatch_request list \<Rightarrow> string \<Rightarrow> (nat \<times> 'o reply) list" where
  "fail_requests rs message = map (\<lambda>r. (rq_id r, Failed message)) rs"

fun split_window_outputs :: "'o list \<Rightarrow> nat list \<Rightarrow> 'o list list" where
  "split_window_outputs outputs [] = []"
| "split_window_outputs outputs (n # ns) = take n outputs # split_window_outputs (drop n outputs) ns"

text \<open>The sub-batch loop of \<open>run_single\<close>: the outputs so far, or how it ended.\<close>

function sub_batches ::
  "('w, 'o) predictor \<Rightarrow> nat \<Rightarrow> 'w \<Rightarrow> worker_input list \<Rightarrow> 'o list \<Rightarrow> 'w \<times> 'o predict_result" where
  "sub_batches predict cap w rest outputs =
     (if rest = [] then (w, PredOk outputs)
      else let n = sub_batch_len rest cap frame_input_bytes_budget in
        case predict w (take n rest) of
          (w', PredOk os) \<Rightarrow> sub_batches predict cap w' (drop n rest) (outputs @ os)
        | (w', PredRefused e) \<Rightarrow> (w', PredRefused e)
        | (w', PredDied e) \<Rightarrow> (w', PredDied e))"
  by pat_completeness auto

termination sub_batches
  by (relation "measure (\<lambda>(_, _, _, rest, _). length rest)") (auto simp: sub_batch_len_def)

declare sub_batches.simps [simp del]

definition answer :: "dispatch_request \<Rightarrow> 'o predict_result \<Rightarrow> (nat \<times> 'o reply) list \<times> batch_outcome" where
  "answer r res =
     (case res of
        PredOk os \<Rightarrow> ([(rq_id r, Outputs os)], Continue)
      | PredRefused e \<Rightarrow> ([(rq_id r, Failed e)], Continue)
      | PredDied e \<Rightarrow> ([(rq_id r, Failed e)], Fatal e))"

definition run_single ::
  "('w, 'o) predictor \<Rightarrow> 'w \<Rightarrow> dispatch_request \<Rightarrow> nat \<Rightarrow> 'w \<times> (nat \<times> 'o reply) list \<times> batch_outcome" where
  "run_single predict w r cap =
     (case (if length (rq_inputs r) \<le> cap \<and> rq_bytes r \<le> frame_input_bytes_budget
            then predict w (rq_inputs r)
            else sub_batches predict cap w (rq_inputs r) []) of
        (w', res) \<Rightarrow> (w', answer r res))"

text \<open>The fallback: each request on its own, until one kills the worker.\<close>

fun run_each ::
  "('w, 'o) predictor \<Rightarrow> 'w \<Rightarrow> (dispatch_request \<times> nat) list \<Rightarrow> worker_input list \<Rightarrow>
     'w \<times> (nat \<times> 'o reply) list \<times> batch_outcome" where
  "run_each predict w [] combined = (w, [], Continue)"
| "run_each predict w ((r, n) # remaining) combined =
     (case predict w (take n combined) of
        (w', PredOk os) \<Rightarrow>
          (case run_each predict w' remaining (drop n combined) of
             (w'', replies, out) \<Rightarrow> (w'', (rq_id r, Outputs os) # replies, out))
      | (w', PredRefused e) \<Rightarrow>
          (case run_each predict w' remaining (drop n combined) of
             (w'', replies, out) \<Rightarrow> (w'', (rq_id r, Failed e) # replies, out))
      | (w', PredDied e) \<Rightarrow>
          (w', (rq_id r, Failed e) # fail_requests (map fst remaining) e, Fatal e))"

definition run_batch ::
  "('w, 'o) predictor \<Rightarrow> 'w \<Rightarrow> dispatch_request list \<Rightarrow> nat \<Rightarrow> 'w \<times> (nat \<times> 'o reply) list \<times> batch_outcome" where
  "run_batch predict w window cap =
     (case window of
        [r] \<Rightarrow> run_single predict w r cap
      | _ \<Rightarrow>
          (let counts = map (length \<circ> rq_inputs) window;
               combined = concat (map rq_inputs window)
           in case predict w combined of
                (w', PredOk os) \<Rightarrow>
                  (w', zip (map rq_id window) (map Outputs (split_window_outputs os counts)), Continue)
              | (w', PredRefused _) \<Rightarrow> run_each predict w' (zip window counts) combined
              | (w', PredDied e) \<Rightarrow> (w', fail_requests window e, Fatal e)))"

section \<open>The dispatcher task\<close>

datatype end_reason = Graceful | EndFatal string

text \<open>
  The queue, the idle replicas, the windows that run on the others, the replies sent, the
  requests whose reply was dropped when their window was aborted, the order in which
  requests arrived and in which they entered windows, and how the loop ended.
\<close>

record ('w, 'o) dispatcher =
  d_queue :: "dispatch_request list"
  d_free :: "'w list"
  d_in_flight :: "('w \<times> dispatch_request list \<times> nat) list"
  d_replies :: "(nat \<times> 'o reply) list"
  d_dropped :: "nat list"
  d_received :: "dispatch_request list"
  d_windows :: "dispatch_request list list"
  d_end :: "end_reason option"

definition start_dispatcher :: "'w list \<Rightarrow> ('w, 'o) dispatcher" where
  "start_dispatcher workers =
     \<lparr>d_queue = [], d_free = workers, d_in_flight = [], d_replies = [], d_dropped = [], d_received = [],
      d_windows = [], d_end = None\<rparr>"

definition window_cap :: "nat option \<Rightarrow> nat \<Rightarrow> dispatch_request list \<Rightarrow> nat" where
  "window_cap registry_default server_default queue =
     effective_cap (map rq_max_batch queue) registry_default server_default"

definition window_size :: "nat \<Rightarrow> dispatch_request list \<Rightarrow> nat" where
  "window_size cap queue =
     window_take_count (map (\<lambda>r. (length (rq_inputs r), rq_bytes r, rq_max_batch r)) queue) cap
       frame_input_bytes_budget"

definition form_window :: "nat option \<Rightarrow> nat \<Rightarrow> ('w, 'o) dispatcher \<Rightarrow> ('w, 'o) dispatcher" where
  "form_window registry_default server_default d =
     (let cap = window_cap registry_default server_default (d_queue d);
          n = window_size cap (d_queue d);
          window = take n (d_queue d)
      in d\<lparr>d_queue := drop n (d_queue d), d_free := butlast (d_free d),
           d_in_flight := d_in_flight d @ [(last (d_free d), window, cap)],
           d_windows := d_windows d @ [window]\<rparr>)"

function dispatch_windows :: "nat option \<Rightarrow> nat \<Rightarrow> ('w, 'o) dispatcher \<Rightarrow> ('w, 'o) dispatcher" where
  "dispatch_windows registry_default server_default d =
     (if d_queue d = [] \<or> d_free d = [] then d
      else dispatch_windows registry_default server_default (form_window registry_default server_default d))"
  by pat_completeness auto

termination dispatch_windows
  by (relation "measure (\<lambda>(_, _, d). length (d_free d))") (auto simp: form_window_def Let_def)

declare dispatch_windows.simps [simp del]

definition receive :: "dispatch_request \<Rightarrow> ('w, 'o) dispatcher \<Rightarrow> ('w, 'o) dispatcher" where
  "receive r d = d\<lparr>d_queue := d_queue d @ [r], d_received := d_received d @ [r]\<rparr>"

text \<open>A window leaves the set of running tasks; its replies were sent, or dropped with it.\<close>

definition take_window :: "nat \<Rightarrow> ('w, 'o) dispatcher \<Rightarrow> ('w, 'o) dispatcher" where
  "take_window i d = d\<lparr>d_in_flight := take i (d_in_flight d) @ drop (Suc i) (d_in_flight d)\<rparr>"

definition window_ids :: "('w \<times> dispatch_request list \<times> nat) list \<Rightarrow> nat list" where
  "window_ids ws = concat (map (\<lambda>(_, rs, _). map rq_id rs) ws)"

definition answer_window :: "nat \<Rightarrow> (nat \<times> 'o reply) list \<Rightarrow> ('w, 'o) dispatcher \<Rightarrow> ('w, 'o) dispatcher" where
  "answer_window i replies d = (take_window i d)\<lparr>d_replies := d_replies d @ replies\<rparr>"

definition drop_window :: "nat \<Rightarrow> ('w, 'o) dispatcher \<Rightarrow> ('w, 'o) dispatcher" where
  "drop_window i d =
     (take_window i d)\<lparr>d_dropped := d_dropped d @ window_ids [d_in_flight d ! i]\<rparr>"

definition free_replica :: "'w \<Rightarrow> ('w, 'o) dispatcher \<Rightarrow> ('w, 'o) dispatcher" where
  "free_replica w d = d\<lparr>d_free := d_free d @ [w]\<rparr>"

text \<open>
  The teardown after the loop: queued and arriving requests fail with the reason.  The
  windows still in flight run on until they are aborted: at once after a fatal end, when the
  grace is over after a graceful one.
\<close>

definition end_reason_text :: "string \<Rightarrow> end_reason \<Rightarrow> string" where
  "end_reason_text unloaded e = (case e of Graceful \<Rightarrow> unloaded | EndFatal message \<Rightarrow> message)"

definition end_loop ::
  "string \<Rightarrow> end_reason \<Rightarrow> dispatch_request list \<Rightarrow> ('w, 'o) dispatcher \<Rightarrow> ('w, 'o) dispatcher" where
  "end_loop unloaded e arriving d =
     (let reason = end_reason_text unloaded e in
      d\<lparr>d_queue := [], d_received := d_received d @ arriving,
        d_replies := d_replies d @ fail_requests (d_queue d) reason @ fail_requests arriving reason,
        d_end := Some e\<rparr>)"

definition abort_windows :: "('w, 'o) dispatcher \<Rightarrow> ('w, 'o) dispatcher" where
  "abort_windows d = d\<lparr>d_in_flight := [], d_dropped := d_dropped d @ window_ids (d_in_flight d)\<rparr>"

text \<open>A window that ends during the drain of an unload: a replica that died is not put back.\<close>

definition drain_window ::
  "nat \<Rightarrow> 'w \<Rightarrow> (nat \<times> 'o reply) list \<Rightarrow> batch_outcome \<Rightarrow> ('w, 'o) dispatcher \<Rightarrow> ('w, 'o) dispatcher" where
  "drain_window i w replies out d =
     (let d1 = answer_window i replies d in
      case (out, d_end d) of
        (Continue, Some Graceful) \<Rightarrow> free_replica w d1
      | _ \<Rightarrow> d1)"

text \<open>
  The steps: a request arrives, the windows that can form do, a window ends or kills its
  replica or panics, the unload begins (the channel is closed or told so), and after the loop
  the windows end, panic or are aborted.
\<close>

definition fresh_requests :: "dispatch_request list \<Rightarrow> ('w, 'o) dispatcher \<Rightarrow> bool" where
  "fresh_requests rs d \<longleftrightarrow> distinct (map rq_id rs) \<and> rq_id ` set rs \<inter> rq_id ` set (d_received d) = {}"

inductive dispatcher_step ::
  "('w, 'o) predictor \<Rightarrow> nat option \<Rightarrow> nat \<Rightarrow> ('w, 'o) dispatcher \<Rightarrow> ('w, 'o) dispatcher \<Rightarrow> bool"
  for predict registry_default server_default where
  receives: "d_end d = None \<Longrightarrow> fresh_requests [r] d \<Longrightarrow>
    dispatcher_step predict registry_default server_default d (receive r d)"
| dispatches: "d_end d = None \<Longrightarrow>
    dispatcher_step predict registry_default server_default d (dispatch_windows registry_default server_default d)"
| window_ends: "d_end d = None \<Longrightarrow> i < length (d_in_flight d) \<Longrightarrow> d_in_flight d ! i = (w, rs, cap) \<Longrightarrow>
    run_batch predict w rs cap = (w', replies, Continue) \<Longrightarrow>
    dispatcher_step predict registry_default server_default d (free_replica w' (answer_window i replies d))"
| window_kills: "d_end d = None \<Longrightarrow> i < length (d_in_flight d) \<Longrightarrow> d_in_flight d ! i = (w, rs, cap) \<Longrightarrow>
    run_batch predict w rs cap = (w', replies, Fatal message) \<Longrightarrow> fresh_requests arriving d \<Longrightarrow>
    dispatcher_step predict registry_default server_default d
      (end_loop unloaded (EndFatal message) arriving (answer_window i replies d))"
| window_panics: "d_end d = None \<Longrightarrow> i < length (d_in_flight d) \<Longrightarrow> fresh_requests arriving d \<Longrightarrow>
    dispatcher_step predict registry_default server_default d
      (end_loop unloaded (EndFatal message) arriving (drop_window i d))"
| unloads: "d_end d = None \<Longrightarrow> fresh_requests arriving d \<Longrightarrow>
    dispatcher_step predict registry_default server_default d (end_loop unloaded Graceful arriving d)"
| drains: "d_end d = Some e \<Longrightarrow> i < length (d_in_flight d) \<Longrightarrow> d_in_flight d ! i = (w, rs, cap) \<Longrightarrow>
    run_batch predict w rs cap = (w', replies, out) \<Longrightarrow>
    dispatcher_step predict registry_default server_default d (drain_window i w' replies out d)"
| drain_panics: "d_end d = Some e \<Longrightarrow> i < length (d_in_flight d) \<Longrightarrow>
    dispatcher_step predict registry_default server_default d (drop_window i d)"
| aborts: "d_end d = Some e \<Longrightarrow>
    dispatcher_step predict registry_default server_default d (abort_windows d)"

inductive dispatcher_reachable ::
  "('w, 'o) predictor \<Rightarrow> nat option \<Rightarrow> nat \<Rightarrow> ('w, 'o) dispatcher \<Rightarrow> bool"
  for predict registry_default server_default where
  started: "dispatcher_reachable predict registry_default server_default (start_dispatcher workers)"
| moved: "dispatcher_reachable predict registry_default server_default d \<Longrightarrow>
    dispatcher_step predict registry_default server_default d d' \<Longrightarrow>
    dispatcher_reachable predict registry_default server_default d'"

end
