(* ===== verification/DispatchProps.thy ===== *)
theory DispatchProps
  imports Dispatch "HOL-Library.Multiset"
begin

text \<open>
  The properties of the dispatcher: bounded first-come windows, batching that no caller can
  observe, and exactly one fate for every request.
\<close>

section \<open>Windows\<close>

definition final_cap :: "nat \<Rightarrow> (nat \<times> nat \<times> nat option) list \<Rightarrow> nat" where
  "final_cap cap rs = foldl (\<lambda>c (_, _, explicit). admit_cap c explicit) cap rs"

lemma final_cap_simps [simp]:
  "final_cap cap [] = cap"
  "final_cap cap ((n, sz, e) # rs) = final_cap (admit_cap cap e) rs"
  by (simp_all add: final_cap_def)

lemma admit_cap_le: "admit_cap c e \<le> c" "e = Some k \<Longrightarrow> 0 < k \<Longrightarrow> admit_cap c e \<le> k"
  by (auto simp: admit_cap_def split: option.split)

lemma final_cap_le: "final_cap cap rs \<le> cap"
proof (induction rs arbitrary: cap)
  case Nil
  then show ?case by simp
next
  case (Cons r rs)
  obtain n sz e where r: "r = (n, sz, e)" by (metis prod_cases3)
  show ?case using Cons [of "admit_cap cap e"] admit_cap_le(1) [of cap e] by (simp add: r)
qed

lemma final_cap_member: "(n, sz, Some k) \<in> set rs \<Longrightarrow> 0 < k \<Longrightarrow> final_cap cap rs \<le> k"
proof (induction rs arbitrary: cap)
  case Nil
  then show ?case by simp
next
  case (Cons r rs)
  obtain n' sz' e where r: "r = (n', sz', e)" by (metis prod_cases3)
  show ?case
  proof (cases "r = (n, sz, Some k)")
    case True
    then show ?thesis
      using final_cap_le [of "admit_cap cap (Some k)" rs] admit_cap_le(2) [of "Some k" k cap] Cons.prems(2) by simp
  next
    case False
    then have "(n, sz, Some k) \<in> set rs" using Cons.prems(1) by auto
    from Cons.IH [OF this Cons.prems(2)] show ?thesis by (simp add: r)
  qed
qed

abbreviation units_of :: "(nat \<times> nat \<times> nat option) list \<Rightarrow> nat" where
  "units_of rs \<equiv> sum_list (map fst rs)"

fun frame_bytes :: "nat \<times> nat \<times> nat option \<Rightarrow> nat" where
  "frame_bytes (n, sz, e) = sz"

abbreviation bytes_of :: "(nat \<times> nat \<times> nat option) list \<Rightarrow> nat" where
  "bytes_of rs \<equiv> sum_list (map frame_bytes rs)"

lemma zero_less_add_one: "0 < (n::nat) + 1"
  by simp

lemma take_loop_props:
  assumes "0 < taken"
  shows "\<exists>k \<le> length rs. take_loop rs budget taken units bytes cap = taken + k \<and>
    (k = 0 \<or> units + units_of (take k rs) \<le> final_cap cap (take k rs) \<and> bytes + bytes_of (take k rs) \<le> budget)"
  using assms
proof (induction rs arbitrary: taken units bytes cap)
  case Nil
  then show ?case by simp
next
  case (Cons r rs)
  obtain n sz e where r: "r = (n, sz, e)" by (metis prod_cases3)
  let ?a = "admit_cap cap e"
  show ?case
  proof (cases "units + n \<le> ?a \<and> bytes + sz \<le> budget")
    case False
    then show ?thesis using Cons.prems by (intro exI [of _ 0]) (auto simp: r Let_def)
  next
    case True
    obtain k where k: "k \<le> length rs" "take_loop rs budget (taken + 1) (units + n) (bytes + sz) ?a = taken + 1 + k"
      "k = 0 \<or> units + n + units_of (take k rs) \<le> final_cap ?a (take k rs) \<and> bytes + sz + bytes_of (take k rs) \<le> budget"
      using Cons.IH [of "taken + 1" "units + n" "bytes + sz" ?a, OF zero_less_add_one] by blast
    then show ?thesis using True by (intro exI [of _ "Suc k"]) (auto simp: r Let_def add.assoc)
  qed
qed

text \<open>
  C35.  A window is never empty, and a merged window of two or more requests stays within
  the cap, within every member's own positive cap, and within the frame budget.
\<close>

theorem window_is_bounded:
  assumes "requests \<noteq> []" and "n = window_take_count requests cap byte_budget"
  shows "1 \<le> n \<and> n \<le> length requests \<and>
    (2 \<le> n \<longrightarrow> units_of (take n requests) \<le> cap \<and> bytes_of (take n requests) \<le> byte_budget \<and>
       (\<forall>(c, sz, own) \<in> set (take n requests). \<forall>k. own = Some k \<longrightarrow> 0 < k \<longrightarrow> units_of (take n requests) \<le> k))"
proof -
  obtain c sz e rs where r: "requests = (c, sz, e) # rs" using assms(1) by (metis neq_Nil_conv prod_cases3)
  have "n = take_loop rs byte_budget 1 c sz (admit_cap cap e)"
    using assms(2) by (simp add: window_take_count_def r Let_def)
  with take_loop_props [of 1 rs byte_budget c sz "admit_cap cap e"] obtain k where
    k: "k \<le> length rs" "n = Suc k"
    "k = 0 \<or> c + units_of (take k rs) \<le> final_cap (admit_cap cap e) (take k rs) \<and> sz + bytes_of (take k rs) \<le> byte_budget"
    by auto
  have t: "take n requests = (c, sz, e) # take k rs" by (simp add: r k(2))
  have fc: "final_cap (admit_cap cap e) (take k rs) = final_cap cap (take n requests)" by (simp add: t)
  have "units_of (take n requests) \<le> cap \<and> bytes_of (take n requests) \<le> byte_budget \<and>
     (\<forall>(c, sz, own) \<in> set (take n requests). \<forall>k. own = Some k \<longrightarrow> 0 < k \<longrightarrow> units_of (take n requests) \<le> k)"
    if "2 \<le> n"
  proof -
    have u: "units_of (take n requests) \<le> final_cap cap (take n requests)" "bytes_of (take n requests) \<le> byte_budget"
      unfolding fc [symmetric] using k that unfolding t by auto
    have "units_of (take n requests) \<le> j" if "(c', sz', Some j) \<in> set (take n requests)" "0 < j" for c' sz' j
      using u(1) final_cap_member [OF that, of cap] by simp
    with u final_cap_le [of cap "take n requests"] show ?thesis by auto
  qed
  with k show ?thesis by (simp add: r)
qed

theorem window_is_bounded_witness:
  "window_take_count [(3, 10, None), (4, 10, Some 8), (2, 10, None)] 8 100 = 2 \<and> (3::nat) + 4 \<le> 8"
proof -
  have "2 = window_take_count [(3, 10, None), (4, 10, Some 8), (2, 10, None)] 8 100"
    by (simp add: window_take_count_def admit_cap_def Let_def)
  from window_is_bounded [OF _ this] show ?thesis
    by (simp add: window_take_count_def admit_cap_def Let_def)
qed

section \<open>Batching is invisible\<close>

text \<open>
  A worker that computes an output per input and refuses a batch with a bad input.
\<close>

definition item_worker :: "(worker_input \<Rightarrow> 'o) \<Rightarrow> (worker_input \<Rightarrow> bool) \<Rightarrow> string \<Rightarrow> ('w, 'o) predictor" where
  "item_worker f bad e = (\<lambda>w xs. (w, if \<exists>x \<in> set xs. bad x then PredRefused e else PredOk (map f xs)))"

lemma sub_batches_item:
  "sub_batches (item_worker f bad e) cap w rest outputs =
     (w, if \<exists>x \<in> set rest. bad x then PredRefused e else PredOk (outputs @ map f rest))"
proof (induction "length rest" arbitrary: rest outputs rule: less_induct)
  case less
  show ?case
  proof (cases "rest = []")
    case True
    then show ?thesis by (simp add: sub_batches.simps)
  next
    case False
    define n where "n = sub_batch_len rest cap frame_input_bytes_budget"
    have n: "1 \<le> n" by (simp add: n_def sub_batch_len_def)
    have split: "set rest = set (take n rest) \<union> set (drop n rest)" by (metis append_take_drop_id set_append)
    have eq: "sub_batches (item_worker f bad e) cap w rest outputs =
        (if \<exists>x \<in> set (take n rest). bad x then (w, PredRefused e)
         else sub_batches (item_worker f bad e) cap w (drop n rest) (outputs @ map f (take n rest)))"
      using False by (subst sub_batches.simps) (simp add: n_def [symmetric] item_worker_def Let_def)
    have "length (drop n rest) < length rest" using False n by simp
    note ih = less [OF this, of "outputs @ map f (take n rest)"]
    have "map f (take n rest) @ map f (drop n rest) = map f rest"
      by (metis append_take_drop_id map_append)
    then show ?thesis unfolding eq ih using split by auto
  qed
qed

lemma run_each_item:
  "run_each (item_worker f bad e) w (zip rs (map (length \<circ> rq_inputs) rs)) (concat (map rq_inputs rs)) =
     (w, map (\<lambda>r. (rq_id r, if \<exists>x \<in> set (rq_inputs r). bad x then Failed e else Outputs (map f (rq_inputs r)))) rs,
      Continue)"
  by (induction rs) (auto simp: item_worker_def)

lemma split_window_map:
  "split_window_outputs (map f (concat xss)) (map length xss) = map (map f) xss"
  by (induction xss) auto

text \<open>
  C7.  Merging, splitting and the per-request fallback cannot be observed: whatever requests
  share a window and whatever the cap, each gets exactly the outputs of its own inputs in
  order, and a bad input fails its own request only.
\<close>

theorem batching_is_invisible:
  "run_batch (item_worker f bad e) w window cap =
     (w, map (\<lambda>r. (rq_id r, if \<exists>x \<in> set (rq_inputs r). bad x then Failed e else Outputs (map f (rq_inputs r)))) window,
      Continue)"
proof (cases "\<exists>r. window = [r]")
  case True
  then obtain r where "window = [r]" by blast
  then show ?thesis
    using sub_batches_item [of f bad e cap w "rq_inputs r" "[]"]
    by (simp add: run_batch_def run_single_def answer_def) (simp add: item_worker_def)
next
  case False
  let ?counts = "map (length \<circ> rq_inputs) window"
  let ?all = "concat (map rq_inputs window)"
  have run: "run_batch (item_worker f bad e) w window cap =
      (case item_worker f bad e w ?all of
         (w', PredOk os) \<Rightarrow> (w', zip (map rq_id window) (map Outputs (split_window_outputs os ?counts)), Continue)
       | (w', PredRefused _) \<Rightarrow> run_each (item_worker f bad e) w' (zip window ?counts) ?all
       | (w', PredDied m) \<Rightarrow> (w', fail_requests window m, Fatal m))"
    using False by (auto simp: run_batch_def Let_def split: list.split)
  show ?thesis
  proof (cases "\<exists>x \<in> set ?all. bad x")
    case True
    then have "item_worker f bad e w ?all = (w, PredRefused e :: 'b predict_result)"
      by (simp add: item_worker_def)
    then show ?thesis unfolding run by (simp add: run_each_item)
  next
    case no: False
    then have "item_worker f bad e w ?all = (w, PredOk (map f ?all))" by (auto simp: item_worker_def)
    moreover have "split_window_outputs (map f ?all) ?counts = map (map f) (map rq_inputs window)"
      using split_window_map [of f "map rq_inputs window"] by (simp add: comp_def)
    ultimately show ?thesis unfolding run using no
      by (auto simp: zip_map1 zip_map2 zip_same_conv_map comp_def)
  qed
qed

section \<open>Every request has one fate\<close>

lemma split_window_length [simp]: "length (split_window_outputs os ns) = length ns"
  by (induction os ns rule: split_window_outputs.induct) auto

lemma fail_requests_ids [simp]: "map fst (fail_requests rs m) = map rq_id rs"
  by (simp add: fail_requests_def comp_def)

lemma run_each_ids: "map fst (fst (snd (run_each predict w rs combined))) = map (rq_id \<circ> fst) rs"
  by (induction rs arbitrary: w combined)
    (auto simp: fail_requests_def comp_def split: prod.split predict_result.split, (metis fst_conv snd_conv)+)

lemma run_batch_ids:
  assumes "run_batch predict w rs cap = (w', replies, out)"
  shows "map fst replies = map rq_id rs"
proof -
  have one: "map fst (fst (answer r res)) = [rq_id r]" for r and res :: "'b predict_result"
    by (simp add: answer_def split: predict_result.split)
  have "map fst (fst (snd (run_batch predict w rs cap))) = map rq_id rs"
  proof (cases "\<exists>r. rs = [r]")
    case True
    then show ?thesis by (auto simp: run_batch_def run_single_def one split: prod.split)
  next
    case False
    obtain v res where p: "predict w (concat (map rq_inputs rs)) = (v, res)" by fastforce
    have run: "run_batch predict w rs cap =
        (case res of
           PredOk os \<Rightarrow> (v, zip (map rq_id rs) (map Outputs (split_window_outputs os (map (length \<circ> rq_inputs) rs))), Continue)
         | PredRefused _ \<Rightarrow> run_each predict v (zip rs (map (length \<circ> rq_inputs) rs)) (concat (map rq_inputs rs))
         | PredDied m \<Rightarrow> (v, fail_requests rs m, Fatal m))"
      using False p by (cases rs rule: remdups_adj.cases) (simp_all only: run_batch_def Let_def list.case prod.case, blast)
    have "map (rq_id \<circ> fst) (zip rs (map (length \<circ> rq_inputs) rs)) = map rq_id rs"
      by (induction rs) auto
    then show ?thesis
      unfolding run by (cases res) (simp_all add: run_each_ids fail_requests_ids)
  qed
  with assms show ?thesis by simp
qed

definition fates :: "('w, 'o) dispatcher \<Rightarrow> nat multiset" where
  "fates d = mset (map rq_id (d_queue d)) + mset (window_ids (d_in_flight d)) +
     mset (map fst (d_replies d)) + mset (d_dropped d)"

definition dispatcher_inv :: "('w, 'o) dispatcher \<Rightarrow> bool" where
  "dispatcher_inv d \<longleftrightarrow>
     mset (map rq_id (d_received d)) = fates d \<and> distinct (map rq_id (d_received d)) \<and>
     (\<exists>rest. d_received d = concat (d_windows d) @ rest) \<and>
     (d_end d = None \<longrightarrow> d_received d = concat (d_windows d) @ d_queue d) \<and>
     (d_end d = None \<longrightarrow> d_dropped d = []) \<and> (d_end d \<noteq> None \<longrightarrow> d_queue d = [])"

lemma form_window_fates:
  "fates (form_window rd sd d) = fates d"
proof -
  have "mset (map rq_id (d_queue d)) = mset (map rq_id (take n (d_queue d))) + mset (map rq_id (drop n (d_queue d)))" for n
    by (metis append_take_drop_id map_append mset_append)
  note split = this [of "window_size (window_cap rd sd (d_queue d)) (d_queue d)"]
  show ?thesis
    unfolding fates_def split by (simp add: form_window_def Let_def window_ids_def)
qed

lemma form_window_frame [simp]:
  "d_received (form_window rd sd d) = d_received d" "d_end (form_window rd sd d) = d_end d"
  "d_dropped (form_window rd sd d) = d_dropped d"
  "concat (d_windows (form_window rd sd d)) @ d_queue (form_window rd sd d) = concat (d_windows d) @ d_queue d"
  by (simp_all add: form_window_def Let_def)

lemma form_window_inv:
  assumes "d_end d = None" and "dispatcher_inv d"
  shows "dispatcher_inv (form_window rd sd d)"
proof -
  let ?t = "form_window rd sd d"
  have ordered: "d_received ?t = concat (d_windows ?t) @ d_queue ?t"
    using assms unfolding dispatcher_inv_def form_window_frame by blast
  moreover have "mset (map rq_id (d_received ?t)) = fates ?t" "distinct (map rq_id (d_received ?t))" "d_end ?t = None" "d_dropped ?t = []"
    using assms unfolding form_window_fates form_window_frame dispatcher_inv_def by blast+
  ultimately show ?thesis unfolding dispatcher_inv_def by blast
qed

lemma dispatch_windows_inv:
  "d_end d = None \<Longrightarrow> dispatcher_inv d \<Longrightarrow> dispatcher_inv (dispatch_windows rd sd d) \<and> d_end (dispatch_windows rd sd d) = None"
proof (induction rd sd d rule: dispatch_windows.induct)
  case (1 rd sd d)
  show ?case
  proof (cases "d_queue d = [] \<or> d_free d = []")
    case True
    then have "dispatch_windows rd sd d = d" by (subst dispatch_windows.simps) simp
    with 1 show ?thesis by simp
  next
    case False
    then have "dispatch_windows rd sd d = dispatch_windows rd sd (form_window rd sd d)"
      by (subst dispatch_windows.simps) simp
    with 1(1) [OF False] form_window_inv [OF 1(2,3)] 1(2) show ?thesis by simp
  qed
qed

lemma receive_inv:
  assumes "d_end d = None" and "dispatcher_inv d" and "fresh_requests [r] d"
  shows "dispatcher_inv (receive r d)"
proof -
  let ?t = "receive r d"
  have "d_received ?t = concat (d_windows ?t) @ d_queue ?t" "d_end ?t = None" "d_dropped ?t = []"
    using assms(1,2) by (simp_all add: dispatcher_inv_def receive_def)
  moreover have "mset (map rq_id (d_received ?t)) = fates ?t"
    using assms(2) by (simp only: dispatcher_inv_def) (simp add: receive_def fates_def)
  moreover have "distinct (map rq_id (d_received ?t))"
    using assms(2,3) by (simp only: dispatcher_inv_def fresh_requests_def) (simp add: receive_def)
  ultimately show ?thesis unfolding dispatcher_inv_def by blast
qed

lemma taken_ids:
  assumes "i < length ws"
  shows "mset (window_ids ws) = mset (window_ids [ws ! i]) + mset (window_ids (take i ws @ drop (Suc i) ws))"
proof -
  have "ws = take i ws @ ws ! i # drop (Suc i) ws" using assms by (rule id_take_nth_drop)
  then have "mset (window_ids ws) = mset (window_ids (take i ws @ ws ! i # drop (Suc i) ws))" by simp
  then show ?thesis by (simp add: window_ids_def)
qed

text \<open>A backlog with an idle replica never waits.\<close>

lemma dispatch_exhausts:
  "d_queue (dispatch_windows rd sd d) = [] \<or> d_free (dispatch_windows rd sd d) = []"
proof (induction rd sd d rule: dispatch_windows.induct)
  case (1 rd sd d)
  then show ?case by (cases "d_queue d = [] \<or> d_free d = []") (simp_all add: dispatch_windows.simps [of rd sd d])
qed

text \<open>A window that leaves: its requests were answered, or dropped.\<close>

lemma window_leaves:
  assumes "i < length (d_in_flight d)"
    and "map fst replies @ gone = window_ids [d_in_flight d ! i]"
    and "d_in_flight t = take i (d_in_flight d) @ drop (Suc i) (d_in_flight d)"
    and "d_replies t = d_replies d @ replies" "d_dropped t = d_dropped d @ gone" "d_queue t = d_queue d"
  shows "fates t = fates d"
proof -
  have "mset (window_ids [d_in_flight d ! i]) = mset (map fst replies) + mset gone"
    unfolding assms(2) [symmetric] by simp
  then show ?thesis using taken_ids [OF assms(1)] by (simp add: fates_def assms(3-6))
qed

lemma fates_preserved:
  assumes "dispatcher_inv d" and "fates t = fates d"
    and "d_queue t = d_queue d" "d_received t = d_received d" "d_windows t = d_windows d" "d_end t = d_end d"
    and "d_end t = None \<longrightarrow> d_dropped t = d_dropped d"
  shows "dispatcher_inv t"
  using assms by (simp add: dispatcher_inv_def)

lemma end_loop_inv:
  assumes "dispatcher_inv d" and "fresh_requests arriving d"
    and "fates t = fates d" "d_queue t = d_queue d" "d_received t = d_received d" "d_windows t = d_windows d"
  shows "dispatcher_inv (end_loop unloaded e arriving t)"
proof -
  let ?t = "end_loop unloaded e arriving t"
  have "fates ?t = fates t + mset (map rq_id arriving)"
    by (simp add: end_loop_def fates_def Let_def)
  then have "mset (map rq_id (d_received ?t)) = fates ?t"
    using assms by (simp add: dispatcher_inv_def end_loop_def Let_def)
  moreover have "distinct (map rq_id (d_received ?t))"
    using assms by (auto simp: dispatcher_inv_def fresh_requests_def end_loop_def Let_def)
  ultimately show ?thesis
    using assms(1) by (auto simp: dispatcher_inv_def assms(5,6) end_loop_def Let_def)
qed

lemma answered_fates:
  assumes "i < length (d_in_flight d)" and "d_in_flight d ! i = (w, rs, cap)"
    and "run_batch predict w rs cap = (w', replies, out)"
  shows "fates (answer_window i replies d) = fates d"
  by (rule window_leaves [of i d replies "[]"])
    (simp_all add: assms answer_window_def take_window_def window_ids_def run_batch_ids [OF assms(3)])

lemma dropped_fates: "i < length (d_in_flight d) \<Longrightarrow> fates (drop_window i d) = fates d"
  by (rule window_leaves [of i d "[]"]) (simp_all add: drop_window_def take_window_def)

lemmas window_steps = answer_window_def drop_window_def take_window_def free_replica_def drain_window_def

lemma fates_free [simp]: "fates (free_replica w d) = fates d"
  by (simp add: fates_def free_replica_def)

lemma dispatcher_step_inv:
  assumes "dispatcher_step predict rd sd d d'" and inv: "dispatcher_inv d"
  shows "dispatcher_inv d'"
  using assms(1)
proof cases
  case (receives r)
  with receive_inv inv show ?thesis by blast
next
  case dispatches
  with dispatch_windows_inv inv show ?thesis by blast
next
  case (window_ends i w rs cap w' replies)
  have f: "fates (free_replica w' (answer_window i replies d)) = fates d"
    using answered_fates [OF window_ends(3,4,5)] by simp
  show ?thesis
    unfolding window_ends(1) by (rule fates_preserved [OF inv f]) (simp_all add: window_steps)
next
  case (window_kills i w rs cap w' replies message arriving)
  show ?thesis
    unfolding window_kills(1)
    by (rule end_loop_inv [OF inv window_kills(6) answered_fates [OF window_kills(3,4,5)]])
      (simp_all add: window_steps)
next
  case (window_panics i arriving)
  show ?thesis
    unfolding window_panics(1)
    by (rule end_loop_inv [OF inv window_panics(4) dropped_fates [OF window_panics(3)]]) (simp_all add: window_steps)
next
  case (unloads arriving)
  show ?thesis unfolding unloads(1) by (rule end_loop_inv [OF inv unloads(3)]) simp_all
next
  case (drains e i w rs cap w' replies out)
  have "fates (drain_window i w' replies out d) = fates (answer_window i replies d)"
    by (simp add: drain_window_def Let_def split: batch_outcome.split option.split end_reason.split)
  then have f: "fates (drain_window i w' replies out d) = fates d"
    using answered_fates [OF drains(3,4,5)] by simp
  show ?thesis
    unfolding drains(1) using drains(2)
    by (intro fates_preserved [OF inv f])
      (simp_all add: window_steps Let_def split: batch_outcome.split option.split end_reason.split)
next
  case (drain_panics e i)
  show ?thesis
    unfolding drain_panics(1) using drain_panics(2)
    by (intro fates_preserved [OF inv dropped_fates [OF drain_panics(3)]]) (simp_all add: window_steps)
next
  case (aborts e)
  with inv show ?thesis by (simp add: abort_windows_def dispatcher_inv_def fates_def window_ids_def)
qed

lemma dispatcher_reachable_inv: "dispatcher_reachable predict rd sd d \<Longrightarrow> dispatcher_inv d"
proof (induction rule: dispatcher_reachable.induct)
  case (started workers)
  then show ?case by (simp add: dispatcher_inv_def start_dispatcher_def fates_def window_ids_def)
next
  case (moved d d')
  then show ?case using dispatcher_step_inv by blast
qed

text \<open>
  Requests enter windows strictly in the order they arrived: the windows formed so far,
  one after the other, are the requests received up to some point, and while the dispatcher
  runs the queue is exactly the rest.
\<close>

theorem windows_are_first_come:
  assumes "dispatcher_reachable predict rd sd d"
  shows "\<exists>rest. d_received d = concat (d_windows d) @ rest \<and> (d_end d = None \<longrightarrow> rest = d_queue d)"
proof -
  have inv: "dispatcher_inv d" by (rule dispatcher_reachable_inv [OF assms])
  show ?thesis
  proof (cases "d_end d = None")
    case True
    with inv show ?thesis by (intro exI [of _ "d_queue d"]) (simp add: dispatcher_inv_def)
  next
    case False
    with inv show ?thesis by (auto simp: dispatcher_inv_def)
  qed
qed

abbreviation request_1 :: dispatch_request where
  "request_1 \<equiv> \<lparr>rq_id = 5, rq_inputs = [\<lparr>wi_data = None, wi_file = None\<rparr>], rq_max_batch = Some 2, rq_bytes = 64\<rparr>"

abbreviation echo_worker :: "(nat, nat) predictor" where
  "echo_worker \<equiv> item_worker (\<lambda>_. 7) (\<lambda>_. False) []"

text \<open>One replica receives one request: the request is in flight on it.\<close>

lemma one_request_in_flight:
  "dispatch_windows None 4 (receive request_1 (start_dispatcher [0])) =
     \<lparr>d_queue = [], d_free = [], d_in_flight = [(0, [request_1], 2)], d_replies = [], d_dropped = [],
      d_received = [request_1], d_windows = [[request_1]], d_end = None\<rparr>"
  by (simp add: dispatch_windows.simps receive_def start_dispatcher_def form_window_def window_cap_def
      window_size_def window_take_count_def effective_cap_def admit_cap_def Let_def List.map_filter_simps)

lemma one_request_reachable:
  "dispatcher_reachable echo_worker None 4 (dispatch_windows None 4 (receive request_1 (start_dispatcher [0])))"
proof -
  have "dispatcher_reachable echo_worker None 4 (receive request_1 (start_dispatcher [0]))"
    by (rule dispatcher_reachable.moved [OF dispatcher_reachable.started dispatcher_step.receives])
      (simp_all add: start_dispatcher_def fresh_requests_def)
  from dispatcher_reachable.moved [OF this dispatcher_step.dispatches] show ?thesis
    by (simp add: start_dispatcher_def receive_def)
qed

theorem windows_are_first_come_witness:
  "let d = dispatch_windows None 4 (receive request_1 (start_dispatcher [0]) :: (nat, nat) dispatcher) in
   d_windows d = [[request_1]] \<and> (\<exists>rest. d_received d = concat (d_windows d) @ rest)"
  using windows_are_first_come [OF one_request_reachable] unfolding one_request_in_flight Let_def by simp

text \<open>
  C22.  Every request received has exactly one fate at any time: it is queued, in a window in
  flight, answered once, or its reply was dropped with an aborted window; and no reply is
  dropped while the dispatcher runs.
\<close>

theorem requests_have_one_fate:
  assumes "dispatcher_reachable predict rd sd d"
  shows "let ids = map rq_id (d_queue d) @ window_ids (d_in_flight d) @ map fst (d_replies d) @ d_dropped d in
    distinct ids \<and> set ids = rq_id ` set (d_received d) \<and> (d_end d = None \<longrightarrow> d_dropped d = []) \<and>
    (d_end d \<noteq> None \<longrightarrow> d_queue d = [])"
proof -
  let ?ids = "map rq_id (d_queue d) @ window_ids (d_in_flight d) @ map fst (d_replies d) @ d_dropped d"
  have inv: "dispatcher_inv d" by (rule dispatcher_reachable_inv [OF assms])
  then have "mset ?ids = mset (map rq_id (d_received d))" "distinct (map rq_id (d_received d))"
    by (simp_all add: dispatcher_inv_def fates_def)
  then have "distinct ?ids" "set ?ids = set (map rq_id (d_received d))"
    using mset_eq_imp_distinct_iff mset_eq_setD by blast+
  with inv show ?thesis by (simp add: Let_def dispatcher_inv_def)
qed

theorem requests_have_one_fate_witness:
  "let d = dispatch_windows None 4 (receive request_1 (start_dispatcher [0]) :: (nat, nat) dispatcher) in
   window_ids (d_in_flight d) = [5] \<and> map fst (d_replies d) = [] \<and> d_dropped d = []"
  using requests_have_one_fate [OF one_request_reachable]
  unfolding one_request_in_flight window_ids_def Let_def by simp

section \<open>Caps\<close>

text \<open>
  A cap of 0 is ignored when it comes with a request inside a window, but it does count in
  the cap of the window: it overrides the registry default and the server default.
\<close>

lemma zero_cap_has_an_opinion:
  "effective_cap [Some 0, None] (Some 16) 64 = 1" "effective_cap [None, None] (Some 16) 64 = 16"
  "admit_cap 16 (Some 0) = 16"
  by (simp_all add: effective_cap_def admit_cap_def List.map_filter_simps Let_def)

lemma effective_cap_pos: "1 \<le> effective_cap caps rd sd"
  by (simp add: effective_cap_def Let_def)

end
