(* ===== verification/Web.thy ===== *)
theory Web
  imports Prelude
begin

text \<open>
  What the gateway's policy layer and proxy use of HTTP: header maps with lower-case names,
  the decimal form of \<open>u64\<close> values, and the functions of the HTTP, URL and hash crates as
  a record of parameters.  A request carries its raw query string; the form codec is a
  parameter too.
\<close>

section \<open>Text\<close>

definition lower_char :: "char \<Rightarrow> char" where
  "lower_char c = (let n = of_char c :: nat in if 65 \<le> n \<and> n \<le> 90 then char_of (n + 32) else c)"

definition to_lower :: "string \<Rightarrow> string" where
  "to_lower s = map lower_char s"

text \<open>\<open>str::contains\<close> and \<open>str::replace\<close> for a pattern that is not empty.\<close>

fun contains :: "string \<Rightarrow> string \<Rightarrow> bool" where
  "contains [] p = (p = [])"
| "contains (c # s) p = (starts_with (c # s) p \<or> contains s p)"

function replace_all :: "string \<Rightarrow> string \<Rightarrow> string \<Rightarrow> string" where
  "replace_all p r s =
     (if s = [] then []
      else if p \<noteq> [] \<and> starts_with s p then r @ replace_all p r (drop (length p) s)
      else hd s # replace_all p r (tl s))"
  by pat_completeness auto

termination replace_all
  by (relation "measure (\<lambda>(_, _, s). length s)") auto

declare replace_all.simps [simp del]

lemma replace_all_nil [simp]: "replace_all p r [] = []"
  by (simp add: replace_all.simps)

lemma replace_all_cons [simp]:
  "replace_all p r (c # s) =
     (if p \<noteq> [] \<and> starts_with (c # s) p then r @ replace_all p r (drop (length p) (c # s))
      else c # replace_all p r s)"
  by (subst replace_all.simps) simp

section \<open>Numbers\<close>

definition digit :: "nat \<Rightarrow> char" where
  "digit d = char_of (48 + d)"

definition digit_value :: "char \<Rightarrow> nat option" where
  "digit_value c = (let n = of_char c in if 48 \<le> n \<and> n \<le> 57 then Some (n - 48) else None)"

function show_nat :: "nat \<Rightarrow> string" where
  "show_nat n = (if n < 10 then [digit n] else show_nat (n div 10) @ [digit (n mod 10)])"
  by pat_completeness auto

termination show_nat
  by (relation "measure id") auto

declare show_nat.simps [simp del]

fun digits_value :: "nat \<Rightarrow> string \<Rightarrow> nat option" where
  "digits_value a [] = Some a"
| "digits_value a (c # cs) =
     (case digit_value c of Some d \<Rightarrow> digits_value (10 * a + d) cs | None \<Rightarrow> None)"

definition parse_u64 :: "string \<Rightarrow> nat option" where
  "parse_u64 s =
     (let ds = (if starts_with s ''+'' then tl s else s) in
      if ds = [] then None
      else case digits_value 0 ds of
        Some n \<Rightarrow> if n \<le> u64_max then Some n else None
      | None \<Rightarrow> None)"

lemma digit_value_digit [simp]: "d < 10 \<Longrightarrow> digit_value (digit d) = Some d"
  by (simp add: digit_def digit_value_def Let_def of_char_of)

lemma digits_value_append:
  "digits_value a (s @ t) = (case digits_value a s of Some b \<Rightarrow> digits_value b t | None \<Rightarrow> None)"
  by (induction s arbitrary: a) (auto split: option.split)

lemma digits_value_show: "digits_value 0 (show_nat n) = Some n"
proof (induction n rule: less_induct)
  case (less n)
  then show ?case
    by (subst show_nat.simps) (simp add: digits_value_append)
qed

lemma show_nat_digits: "c \<in> set (show_nat n) \<Longrightarrow> \<exists>d < 10. c = digit d"
proof (induction n rule: show_nat.induct)
  case (1 n)
  show ?case
  proof (cases "n < 10")
    case True
    with 1(2) show ?thesis by (auto simp: show_nat.simps [of n])
  next
    case False
    with 1(2) have "c \<in> set (show_nat (n div 10)) \<or> c = digit (n mod 10)" by (auto simp: show_nat.simps [of n])
    with 1(1) [OF False] show ?thesis by (metis mod_less_divisor zero_less_numeral)
  qed
qed

lemma digit_code: "d < 10 \<Longrightarrow> (of_char (digit d) :: nat) = 48 + d"
  by (simp add: digit_def of_char_of)

lemma show_nat_no: "(of_char c :: nat) < 48 \<Longrightarrow> c \<notin> set (show_nat n)"
  using show_nat_digits digit_code by fastforce

lemma show_nat_not_nil [simp]: "show_nat n \<noteq> []"
  by (subst show_nat.simps) simp

theorem parse_show_u64: "n \<le> u64_max \<Longrightarrow> parse_u64 (show_nat n) = Some n"
proof -
  assume n: "n \<le> u64_max"
  have "\<not> starts_with (show_nat n) ''+''"
  proof
    assume "starts_with (show_nat n) ''+''"
    then have "CHR ''+'' \<in> set (show_nat n)" by (auto simp: starts_with_iff)
    moreover have "CHR ''+'' \<notin> set (show_nat n)" by (rule show_nat_no) simp
    ultimately show False by blast
  qed
  with n show ?thesis by (simp add: parse_u64_def digits_value_show)
qed

section \<open>Headers\<close>

text \<open>Names are lower case; a name may occur more than once.  \<open>header_insert\<close> replaces.\<close>

type_synonym header_map = "(string \<times> string) list"

definition header_get :: "header_map \<Rightarrow> string \<Rightarrow> string option" where
  "header_get hs name = map_of hs name"

definition header_get_all :: "header_map \<Rightarrow> string \<Rightarrow> string list" where
  "header_get_all hs name = map snd (filter (\<lambda>(k, _). k = name) hs)"

definition header_remove :: "header_map \<Rightarrow> string \<Rightarrow> header_map" where
  "header_remove hs name = filter (\<lambda>(k, _). k \<noteq> name) hs"

definition header_insert :: "header_map \<Rightarrow> string \<Rightarrow> string \<Rightarrow> header_map" where
  "header_insert hs name v = header_remove hs name @ [(name, v)]"

lemma header_get_remove [simp]: "header_get (header_remove hs a) b = (if a = b then None else header_get hs b)"
  by (induction hs) (auto simp: header_get_def header_remove_def)

lemma header_get_append: "header_get (hs @ ks) b = (case header_get hs b of None \<Rightarrow> header_get ks b | Some v \<Rightarrow> Some v)"
  by (simp add: header_get_def map_add_def split: option.split)

lemma header_get_insert [simp]:
  "header_get (header_insert hs a v) b = (if a = b then Some v else header_get hs b)"
  by (simp add: header_insert_def header_get_append) (simp add: header_get_def split: option.split)

lemma set_header_remove [simp]: "set (header_remove hs a) = {h \<in> set hs. fst h \<noteq> a}"
  by (auto simp: header_remove_def)

section \<open>Requests and libraries\<close>

text \<open>
  The parameters: header values as text, the form codec of query strings, whether a path and
  query is accepted, and SHA-256.
\<close>

record web =
  header_text :: "string \<Rightarrow> string option"
  parse_form :: "string \<Rightarrow> (string \<times> string) list"
  write_form :: "(string \<times> string) list \<Rightarrow> string"
  uri_accepts :: "string \<Rightarrow> bool"
  sha256 :: "string \<Rightarrow> nat list"

end
