(* ===== verification/PolicyConfig.thy ===== *)
theory PolicyConfig
  imports Web
begin

text \<open>
  The policy part of the configuration (\<open>panoptikon/src/config.rs\<close>): rulesets, policies,
  their database rules, and the checks a configuration passes when it is loaded.
\<close>

section \<open>Data\<close>

definition max_db_name_len :: nat where
  "max_db_name_len = 64"

definition max_username_len :: nat where
  "max_username_len = 64"

definition primary_endpoint :: string where
  "primary_endpoint = ''default''"

datatype allow_list = AllowAll | AllowList "string list"

datatype methods_spec = AllMethods | Methods "string list"

record rule_config =
  rc_methods :: methods_spec
  rc_path :: "string option"
  rc_path_prefix :: "string option"

record ruleset_config =
  rs_allow_all :: bool
  rs_allow :: "rule_config list"

record db_policy =
  db_default :: string
  db_allow :: allow_list
  db_tenant_default :: "string option"
  db_prefix_template :: "string option"

record policy_match =
  pm_hosts :: "string list"
  pm_endpoints :: "string list"

text \<open>A value of the free-form \<open>client\<close> table: only booleans are read.\<close>

datatype client_value = ClientBool bool | ClientOther string

record policy_config =
  pc_name :: string
  pc_ruleset :: "string option"
  pc_match :: policy_match
  pc_index_db :: db_policy
  pc_user_data_db :: db_policy
  pc_user_header :: "string option"
  pc_search_cache :: bool
  pc_client :: "(string \<times> client_value) list"

record settings =
  st_policies :: "policy_config list"
  st_rulesets :: "(string \<times> ruleset_config) list"
  st_endpoints :: "string list"
  st_trust_forwarded :: bool
  st_api_local :: bool

fun allows_value :: "allow_list \<Rightarrow> string \<Rightarrow> bool" where
  "allows_value AllowAll v = True"
| "allows_value (AllowList items) v = list_ex (\<lambda>item. item = v) items"

fun is_all :: "allow_list \<Rightarrow> bool" where
  "is_all AllowAll = True"
| "is_all (AllowList items) = False"

fun allows_method :: "methods_spec \<Rightarrow> string \<Rightarrow> bool" where
  "allows_method AllMethods m = True"
| "allows_method (Methods items) m = list_ex (\<lambda>item. item = m) items"

section \<open>Identifiers\<close>

definition is_safe_char :: "char \<Rightarrow> bool" where
  "is_safe_char c =
     (let n = of_char c :: nat in
      97 \<le> n \<and> n \<le> 122 \<or> 65 \<le> n \<and> n \<le> 90 \<or> 48 \<le> n \<and> n \<le> 57 \<or> c = CHR ''.'' \<or> c = CHR ''_'' \<or> c = CHR ''-'')"

definition is_safe_identifier :: "string \<Rightarrow> nat \<Rightarrow> bool" where
  "is_safe_identifier value max_len \<longleftrightarrow>
     \<not> (value = [] \<or> length value > max_len) \<and> list_all is_safe_char value"

lemma is_safe_append:
  "is_safe_identifier p n \<Longrightarrow> is_safe_identifier (p @ s) m \<longleftrightarrow> list_all is_safe_char s \<and> length p + length s \<le> m"
  by (auto simp: is_safe_identifier_def)

section \<open>Checks at load\<close>

text \<open>Why a configuration is refused; the offending name comes along.\<close>

datatype config_error =
    RuleNeedsOnePath string nat
  | PolicyNameInvalid string
  | UserHeaderReserved string
  | NoHostOrEndpoint string
  | UnknownEndpoint string
  | UnknownRuleset string
  | DefaultInvalid string
  | AllWithTenant string
  | AllowEntryInvalid string
  | DefaultNotAllowed string
  | TenantDefaultInvalid string
  | TenantDefaultIsGlobal string
  | TenantNeedsTemplate string
  | TemplateHasDb string
  | TemplateInvalid string

text \<open>The first check that fails decides.\<close>

fun first_failure :: "'e option list \<Rightarrow> 'e option" where
  "first_failure [] = None"
| "first_failure (None # es) = first_failure es"
| "first_failure (Some e # es) = Some e"

lemma first_failure_None [simp]: "first_failure es = None \<longleftrightarrow> (\<forall>e \<in> set es. e = None)"
  by (induction es rule: first_failure.induct) auto

definition refuse :: "bool \<Rightarrow> 'e \<Rightarrow> 'e option" where
  "refuse b e = (if b then Some e else None)"

lemma refuse_None [simp]: "refuse b e = None \<longleftrightarrow> \<not> b"
  by (simp add: refuse_def)

definition given :: "string option \<Rightarrow> bool" where
  "given v = (case v of None \<Rightarrow> False | Some s \<Rightarrow> s \<noteq> [])"

definition validate_rulesets :: "settings \<Rightarrow> config_error option" where
  "validate_rulesets s =
     first_failure (concat (map (\<lambda>(name, rs).
       map (\<lambda>(i, r). refuse (given (rc_path r) = given (rc_path_prefix r)) (RuleNeedsOnePath name i))
         (enumerate 0 (rs_allow rs))) (st_rulesets s)))"

definition validate_prefix_template :: "string \<Rightarrow> config_error option" where
  "validate_prefix_template template =
     first_failure
       [refuse (contains template ''{db}'') (TemplateHasDb template),
        refuse (\<not> is_safe_identifier (replace_all ''{username}'' ''user'' template) max_db_name_len)
          (TemplateInvalid template)]"

definition validate_allow_list :: "db_policy \<Rightarrow> config_error option" where
  "validate_allow_list p =
     (case db_allow p of
        AllowAll \<Rightarrow>
          refuse (db_tenant_default p \<noteq> None \<or> db_prefix_template p \<noteq> None) (AllWithTenant (db_default p))
      | AllowList items \<Rightarrow>
          first_failure
            (map (\<lambda>e. refuse (\<not> is_safe_identifier e max_db_name_len) (AllowEntryInvalid e)) items @
             [refuse (\<not> list_ex (\<lambda>e. e = db_default p) items) (DefaultNotAllowed (db_default p))]))"

definition validate_tenant_default :: "db_policy \<Rightarrow> config_error option" where
  "validate_tenant_default p =
     (case db_tenant_default p of
        None \<Rightarrow> None
      | Some t \<Rightarrow>
          first_failure
            [refuse (\<not> is_safe_identifier t max_db_name_len) (TenantDefaultInvalid t),
             refuse (t = db_default p) (TenantDefaultIsGlobal t),
             refuse (db_prefix_template p = None) (TenantNeedsTemplate t)])"

definition validate_db_policy :: "db_policy \<Rightarrow> config_error option" where
  "validate_db_policy p =
     first_failure
       [refuse (\<not> is_safe_identifier (db_default p) max_db_name_len) (DefaultInvalid (db_default p)),
        validate_allow_list p,
        validate_tenant_default p,
        (case db_prefix_template p of None \<Rightarrow> None | Some t \<Rightarrow> validate_prefix_template t)]"

definition validate_policy :: "settings \<Rightarrow> policy_config \<Rightarrow> config_error option" where
  "validate_policy s p =
     first_failure
       ([refuse (\<not> is_safe_identifier (pc_name p) max_db_name_len) (PolicyNameInvalid (pc_name p)),
         (case pc_user_header p of
            None \<Rightarrow> None
          | Some h \<Rightarrow> refuse (starts_with (to_lower h) ''x-panoptikon-'') (UserHeaderReserved h)),
         refuse (pm_hosts (pc_match p) = [] \<and> pm_endpoints (pc_match p) = []) (NoHostOrEndpoint (pc_name p))] @
        map (\<lambda>e. refuse (\<not> (e = primary_endpoint \<or> list_ex (\<lambda>known. known = e) (st_endpoints s))) (UnknownEndpoint e))
          (pm_endpoints (pc_match p)) @
        [(case pc_ruleset p of
            None \<Rightarrow> None
          | Some r \<Rightarrow> refuse (r \<noteq> ''allow_all'' \<and> map_of (st_rulesets s) r = None) (UnknownRuleset r)),
         validate_db_policy (pc_index_db p),
         validate_db_policy (pc_user_data_db p)])"

definition validate_policies :: "settings \<Rightarrow> config_error option" where
  "validate_policies s = first_failure (map (validate_policy s) (st_policies s))"

text \<open>What a database rule that passed its checks guarantees.\<close>

lemma validated_db_policy:
  assumes "validate_db_policy p = None"
  shows "is_safe_identifier (db_default p) max_db_name_len" "allows_value (db_allow p) (db_default p)"
    and "db_allow p = AllowList items \<Longrightarrow> e \<in> set items \<Longrightarrow> is_safe_identifier e max_db_name_len"
    and "db_tenant_default p = Some t \<Longrightarrow>
      is_safe_identifier t max_db_name_len \<and> t \<noteq> db_default p \<and> (\<exists>tpl. db_prefix_template p = Some tpl)"
    and "db_prefix_template p = Some tpl \<Longrightarrow> \<not> contains tpl ''{db}''"
    and "db_allow p = AllowAll \<Longrightarrow> db_tenant_default p = None \<and> db_prefix_template p = None"
  using assms
  by (auto simp: validate_db_policy_def validate_allow_list_def validate_tenant_default_def
      validate_prefix_template_def list_ex_iff split: allow_list.splits option.splits)

lemma validated_policy_dbs:
  assumes "validate_policies s = None" and "p \<in> set (st_policies s)"
  shows "validate_db_policy (pc_index_db p) = None" "validate_db_policy (pc_user_data_db p) = None"
    "pc_user_header p = Some h \<Longrightarrow> \<not> starts_with (to_lower h) ''x-panoptikon-''"
  using assms by (auto simp: validate_policies_def validate_policy_def)

end
