(* ===== verification/PolicyToken.thy ===== *)
theory PolicyToken
  imports PolicyConfig
begin

text \<open>
  Policy tokens (\<open>panoptikon/src/policy_token.rs\<close>): signing and verification.  HMAC and the
  two codecs are parameters.
\<close>

section \<open>Tokens\<close>

definition token_ttl_secs :: nat where
  "token_ttl_secs = 300"

definition policy_token_header :: string where
  "policy_token_header = ''x-panoptikon-policy''"

datatype token_error = Malformed | BadHmac | Expired

record token_claims =
  tc_policy :: string
  tc_origin :: string

text \<open>
  \<open>b64_decode\<close> stands for the base64 decoder followed by the check that the bytes are
  UTF-8; \<open>hmac\<close> is HMAC-SHA256 with the gateway's key.
\<close>

record token_lib =
  b64_encode :: "string \<Rightarrow> string"
  b64_decode :: "string \<Rightarrow> string option"
  hex_encode :: "string \<Rightarrow> string"
  hex_decode :: "string \<Rightarrow> string option"
  hmac :: "string \<Rightarrow> string"

definition sign :: "token_lib \<Rightarrow> string \<Rightarrow> string \<Rightarrow> nat \<Rightarrow> string" where
  "sign lib policy_name origin expiry =
     (let message = policy_name @ ''.'' @ show_nat expiry @ ''.'' @ b64_encode lib origin
      in message @ ''.'' @ hex_encode lib (hmac lib message))"

definition mint :: "token_lib \<Rightarrow> nat \<Rightarrow> string \<Rightarrow> string \<Rightarrow> string" where
  "mint lib unix_now policy_name origin = sign lib policy_name origin (unix_now + token_ttl_secs)"

text \<open>\<open>rsplitn(4, '.')\<close>: the last three segments and the rest, when there are four.\<close>

text \<open>The segment after the last dot and what comes before it.\<close>

definition rsplit_once :: "string \<Rightarrow> (string \<times> string) option" where
  "rsplit_once s =
     (let seg = takeWhile (\<lambda>c. c \<noteq> CHR ''.'') (rev s); rest = dropWhile (\<lambda>c. c \<noteq> CHR ''.'') (rev s)
      in if rest = [] then None else Some (rev (tl rest), rev seg))"

definition token_segments :: "string \<Rightarrow> (string \<times> string \<times> string \<times> string) option" where
  "token_segments token =
     (case rsplit_once token of
        None \<Rightarrow> None
      | Some (message, tag) \<Rightarrow>
          (case rsplit_once message of
             None \<Rightarrow> None
           | Some (front, origin) \<Rightarrow>
               (case rsplit_once front of
                  None \<Rightarrow> None
                | Some (name, expiry) \<Rightarrow> Some (name, expiry, origin, tag))))"

definition verify_at :: "token_lib \<Rightarrow> string \<Rightarrow> nat \<Rightarrow> token_error + token_claims" where
  "verify_at lib token now =
     (case token_segments token of
        None \<Rightarrow> Inl Malformed
      | Some (name, expiry_str, origin_segment, tag_hex) \<Rightarrow>
          if name = [] then Inl Malformed
          else (case parse_u64 expiry_str of
            None \<Rightarrow> Inl Malformed
          | Some expiry \<Rightarrow>
              (case b64_decode lib origin_segment of
                 None \<Rightarrow> Inl Malformed
               | Some origin \<Rightarrow>
                   if origin = [] then Inl Malformed
                   else (case hex_decode lib tag_hex of
                     None \<Rightarrow> Inl Malformed
                   | Some tag \<Rightarrow>
                       let message = take (length token - length tag_hex - 1) token in
                       if tag \<noteq> hmac lib message then Inl BadHmac
                       else if expiry < now then Inl Expired
                       else Inr \<lparr>tc_policy = name, tc_origin = origin\<rparr>))))"

section \<open>Segments\<close>

lemma rsplit_once_append: "CHR ''.'' \<notin> set seg \<Longrightarrow> rsplit_once (front @ ''.'' @ seg) = Some (front, seg)"
proof -
  assume no: "CHR ''.'' \<notin> set seg"
  then have ne: "\<And>x. x \<in> set (rev seg) \<Longrightarrow> x \<noteq> CHR ''.''" by auto
  have "takeWhile (\<lambda>c. c \<noteq> CHR ''.'') (rev seg @ CHR ''.'' # rev front) = rev seg"
    "dropWhile (\<lambda>c. c \<noteq> CHR ''.'') (rev seg @ CHR ''.'' # rev front) = CHR ''.'' # rev front"
    using takeWhile_append2 [of "rev seg" "\<lambda>c. c \<noteq> CHR ''.''", OF ne]
      dropWhile_append2 [of "rev seg" "\<lambda>c. c \<noteq> CHR ''.''", OF ne] by simp_all
  then show ?thesis by (simp add: rsplit_once_def Let_def)
qed

lemma rsplit_once_SomeD: "rsplit_once s = Some (front, seg) \<Longrightarrow> s = front @ ''.'' @ seg \<and> CHR ''.'' \<notin> set seg"
proof -
  assume a: "rsplit_once s = Some (front, seg)"
  let ?p = "\<lambda>c. c \<noteq> CHR ''.''"
  define d where "d = dropWhile ?p (rev s)"
  define t where "t = takeWhile ?p (rev s)"
  have ne: "d \<noteq> []" and f: "front = rev (tl d)" and g: "seg = rev t"
    using a unfolding rsplit_once_def Let_def d_def [symmetric] t_def [symmetric] by (simp_all split: if_splits)
  have "hd d = CHR ''.''" using ne hd_dropWhile [of ?p "rev s"] by (simp add: d_def)
  with ne obtain r where r: "d = CHR ''.'' # r" by (cases d) auto
  have "t @ d = rev s" unfolding t_def d_def by (rule takeWhile_dropWhile_id)
  then have "s = rev (t @ d)" by (metis rev_rev_ident)
  moreover have "CHR ''.'' \<notin> set t" unfolding t_def by (auto dest: set_takeWhileD)
  ultimately show ?thesis by (simp add: f g r)
qed

lemma token_segments_shape:
  "token_segments token = Some (name, expiry, origin, tag) \<longleftrightarrow>
     token = name @ ''.'' @ expiry @ ''.'' @ origin @ ''.'' @ tag \<and>
     CHR ''.'' \<notin> set expiry \<union> set origin \<union> set tag"
proof
  assume "token_segments token = Some (name, expiry, origin, tag)"
  then show "token = name @ ''.'' @ expiry @ ''.'' @ origin @ ''.'' @ tag \<and>
     CHR ''.'' \<notin> set expiry \<union> set origin \<union> set tag"
    by (auto simp: token_segments_def split: option.splits dest!: rsplit_once_SomeD)
next
  assume a: "token = name @ ''.'' @ expiry @ ''.'' @ origin @ ''.'' @ tag \<and>
     CHR ''.'' \<notin> set expiry \<union> set origin \<union> set tag"
  then have "rsplit_once token = Some (name @ ''.'' @ expiry @ ''.'' @ origin, tag)"
    using rsplit_once_append [of tag "name @ ''.'' @ expiry @ ''.'' @ origin"] by simp
  moreover have "rsplit_once (name @ ''.'' @ expiry @ ''.'' @ origin) = Some (name @ ''.'' @ expiry, origin)"
    using a rsplit_once_append [of origin "name @ ''.'' @ expiry"] by simp
  moreover have "rsplit_once (name @ ''.'' @ expiry) = Some (name, expiry)"
    using a rsplit_once_append [of expiry name] by simp
  ultimately show "token_segments token = Some (name, expiry, origin, tag)"
    by (simp add: token_segments_def)
qed

section \<open>Round trip and soundness\<close>

text \<open>
  C38.  A token verifies to exactly the claims it was signed for until it expires, for every
  policy name, dots included.
\<close>

theorem signed_token_verifies:
  assumes "policy_name \<noteq> []" and "origin \<noteq> []" and "expiry \<le> u64_max"
    and "b64_decode lib (b64_encode lib origin) = Some origin" and "CHR ''.'' \<notin> set (b64_encode lib origin)"
    and "\<forall>m. hex_decode lib (hex_encode lib (hmac lib m)) = Some (hmac lib m) \<and>
      CHR ''.'' \<notin> set (hex_encode lib (hmac lib m))"
  shows "verify_at lib (sign lib policy_name origin expiry) now =
    (if expiry < now then Inl Expired else Inr \<lparr>tc_policy = policy_name, tc_origin = origin\<rparr>)"
proof -
  define message where "message = policy_name @ ''.'' @ show_nat expiry @ ''.'' @ b64_encode lib origin"
  define tag where "tag = hex_encode lib (hmac lib message)"
  have token: "sign lib policy_name origin expiry = message @ ''.'' @ tag"
    by (simp add: sign_def message_def tag_def Let_def)
  have "CHR ''.'' \<notin> set (show_nat expiry)" by (rule show_nat_no) simp
  then have segs: "token_segments (message @ ''.'' @ tag) = Some (policy_name, show_nat expiry, b64_encode lib origin, tag)"
    using assms(5,6) by (simp add: token_segments_shape) (simp add: message_def tag_def)
  have cut: "take (length (message @ ''.'' @ tag) - length tag - 1) (message @ ''.'' @ tag) = message" by simp
  show ?thesis
    unfolding token verify_at_def segs option.case prod.case cut Let_def
    using assms parse_show_u64 [OF assms(3)] by (simp add: tag_def)
qed

definition plain_lib :: token_lib where
  "plain_lib = \<lparr>b64_encode = id, b64_decode = Some, hex_encode = id, hex_decode = Some,
     hmac = (\<lambda>m. show_nat (length m))\<rparr>"

theorem signed_token_verifies_witness:
  "verify_at plain_lib (sign plain_lib ''a.b'' ''http://localhost:80'' 17) 17 =
     Inr \<lparr>tc_policy = ''a.b'', tc_origin = ''http://localhost:80''\<rparr>"
proof -
  have "CHR ''.'' \<notin> set (show_nat (length m))" for m :: string by (rule show_nat_no) simp
  then show ?thesis
    using signed_token_verifies [of "''a.b''" "''http://localhost:80''" 17 plain_lib 17]
    by (simp add: plain_lib_def u64_max_def)
qed

text \<open>
  An accepted token is a name, an expiry that has not passed, an origin segment and the MAC
  of these three: nothing else in the token decides, and no other part can be exchanged
  without a new MAC.
\<close>

lemma verified_token_is_signed:
  assumes "verify_at lib token now = Inr claims"
  shows "\<exists>expiry_str expiry origin_segment tag_hex.
    (let message = tc_policy claims @ ''.'' @ expiry_str @ ''.'' @ origin_segment in
     token = message @ ''.'' @ tag_hex \<and> hex_decode lib tag_hex = Some (hmac lib message)) \<and>
    parse_u64 expiry_str = Some expiry \<and> now \<le> expiry \<and>
    b64_decode lib origin_segment = Some (tc_origin claims) \<and> tc_policy claims \<noteq> []"
proof -
  obtain name expiry_str origin_segment tag_hex where
    segs: "token_segments token = Some (name, expiry_str, origin_segment, tag_hex)"
    using assms by (auto simp: verify_at_def split: option.splits)
  let ?message = "name @ ''.'' @ expiry_str @ ''.'' @ origin_segment"
  have token: "token = ?message @ ''.'' @ tag_hex" using segs token_segments_shape by auto
  have cut: "take (length token - length tag_hex - 1) token = ?message" unfolding token by simp
  from assms show ?thesis
    unfolding verify_at_def segs option.case prod.case cut
    by (intro exI [of _ expiry_str] exI [of _ "the (parse_u64 expiry_str)"] exI [of _ origin_segment] exI [of _ tag_hex])
      (auto simp: token Let_def split: option.splits if_splits)
qed

end
