(* ===== verification/Policy.thy ===== *)
theory Policy
  imports PolicyToken
begin

text \<open>
  The gateway's policy layer (\<open>panoptikon/src/policy.rs\<close>): choice of the policy of a request,
  its ruleset, the database parameters it may name, and the filtered database listing.  The
  fallible steps return an enforcement error or a value, in the order of the code.
\<close>

section \<open>Data\<close>

datatype db_action = Skipped | Unchanged | Injected | Rewritten

fun combine :: "db_action \<Rightarrow> db_action \<Rightarrow> db_action" where
  "combine Rewritten _ = Rewritten"
| "combine _ Rewritten = Rewritten"
| "combine Injected _ = Injected"
| "combine _ Injected = Injected"
| "combine Unchanged Unchanged = Unchanged"
| "combine Skipped b = b"
| "combine a Skipped = a"

text \<open>How much an action changes a request orders the actions.\<close>

instantiation db_action :: linorder
begin

fun db_action_rank :: "db_action \<Rightarrow> nat" where
  "db_action_rank Skipped = 0"
| "db_action_rank Unchanged = 1"
| "db_action_rank Injected = 2"
| "db_action_rank Rewritten = 3"

definition less_eq_db_action :: "db_action \<Rightarrow> db_action \<Rightarrow> bool" where
  "a \<le> b \<longleftrightarrow> db_action_rank a \<le> db_action_rank b"

definition less_db_action :: "db_action \<Rightarrow> db_action \<Rightarrow> bool" where
  "a < b \<longleftrightarrow> db_action_rank a < db_action_rank b"

instance
proof
  fix a b :: db_action
  assume "a \<le> b" and "b \<le> a"
  then show "a = b" by (cases a; cases b) (simp_all add: less_eq_db_action_def)
qed (auto simp: less_eq_db_action_def less_db_action_def)

end

lemma combine_max: "combine a b = max a b"
  by (cases a; cases b) (simp_all add: max_def less_eq_db_action_def)

datatype selected_by = ByToken | ListenerHost

record policy_context =
  cx_policy_name :: string
  cx_db_action :: db_action
  cx_selected_by :: selected_by
  cx_search_cache :: bool

record request =
  req_method :: string
  req_path :: string
  req_query :: "string option"
  req_headers :: header_map
  req_endpoint :: "string option"
  req_context :: "policy_context option"

datatype status = Forbidden | BadRequest | BadGateway

record enforcement_error =
  ee_status :: status
  ee_reason :: string

abbreviation deny :: "status \<Rightarrow> string \<Rightarrow> enforcement_error + 'a" where
  "deny s r \<equiv> Inl \<lparr>ee_status = s, ee_reason = r\<rparr>"

text \<open>The \<open>?\<close> of the code: an error leaves the function.\<close>

definition and_then :: "'e + 'a \<Rightarrow> ('a \<Rightarrow> 'e + 'b) \<Rightarrow> 'e + 'b" where
  "and_then r f = (case r of Inl e \<Rightarrow> Inl e | Inr a \<Rightarrow> f a)"

lemma and_then_Inr: "and_then r f = Inr b \<longleftrightarrow> (\<exists>a. r = Inr a \<and> f a = Inr b)"
  by (simp add: and_then_def split: sum.split)

lemma and_then_simps [simp]: "and_then (Inr a) f = f a" "and_then (Inl e) f = Inl e"
  by (simp_all add: and_then_def)

section \<open>Paths\<close>

definition is_api_surface :: "string \<Rightarrow> bool" where
  "is_api_surface path \<longleftrightarrow>
     path = ''/api'' \<or> starts_with path ''/api/'' \<or> path = ''/docs'' \<or> path = ''/redoc'' \<or> path = ''/openapi.json''"

definition is_inference_path :: "string \<Rightarrow> bool" where
  "is_inference_path path \<longleftrightarrow> path = ''/api/inference'' \<or> starts_with path ''/api/inference/''"

definition is_db_info_path :: "string \<Rightarrow> bool" where
  "is_db_info_path path \<longleftrightarrow> path = ''/api/db''"

definition is_db_create_path :: "string \<Rightarrow> bool" where
  "is_db_create_path path \<longleftrightarrow> path = ''/api/db/create''"

definition is_client_config_path :: "string \<Rightarrow> bool" where
  "is_client_config_path path \<longleftrightarrow> path = ''/api/client-config''"

definition needs_db_params :: "string \<Rightarrow> bool" where
  "needs_db_params path \<longleftrightarrow>
     (if path = ''/docs'' \<or> path = ''/redoc'' \<or> path = ''/openapi.json'' then False
      else if is_db_info_path path \<or> is_db_create_path path \<or> is_inference_path path then False
      else path = ''/api'' \<or> starts_with path ''/api/'')"

section \<open>Hosts\<close>

definition eq_ignore_case :: "string \<Rightarrow> string \<Rightarrow> bool" where
  "eq_ignore_case a b \<longleftrightarrow> to_lower a = to_lower b"

text \<open>\<open>splitn(2, c)\<close>: the piece before the first \<open>c\<close>, and the rest when there is one.\<close>

definition split_once :: "char \<Rightarrow> string \<Rightarrow> string \<times> string option" where
  "split_once c s =
     (takeWhile (\<lambda>x. x \<noteq> c) s,
      case dropWhile (\<lambda>x. x \<noteq> c) s of [] \<Rightarrow> None | _ # r \<Rightarrow> Some r)"

definition unquote :: "string \<Rightarrow> string" where
  "unquote h =
     (if starts_with h [CHR 0x22] \<and> ends_with h [CHR 0x22] \<and> 2 \<le> length h then butlast (tl h) else h)"

fun forwarded_host_of :: "string list \<Rightarrow> string option" where
  "forwarded_host_of [] = None"
| "forwarded_host_of (part # parts) =
     (case split_once (CHR ''='') (trim part) of
        (key, v) \<Rightarrow>
          if \<not> eq_ignore_case (trim key) ''host'' then forwarded_host_of parts
          else (case v of
            None \<Rightarrow> None
          | Some h \<Rightarrow> let host = unquote (trim h) in if host = [] then None else Some host))"

definition parse_forwarded_host :: "string \<Rightarrow> string option" where
  "parse_forwarded_host v = forwarded_host_of (split_on (CHR '';'') (trim (hd (split_on (CHR '','') v))))"

definition normalize_host :: "string \<Rightarrow> string" where
  "normalize_host v =
     (let v = trim v in
      if starts_with v ''['' \<and> CHR '']'' \<in> set v
      then to_lower (tl (takeWhile (\<lambda>c. c \<noteq> CHR '']'') v))
      else to_lower (hd (split_on (CHR '':'') v)))"

definition header_to_str :: "web \<Rightarrow> string option \<Rightarrow> string option" where
  "header_to_str web v = Option.bind v (header_text web)"

definition resolve_effective_host :: "web \<Rightarrow> request \<Rightarrow> bool \<Rightarrow> string option" where
  "resolve_effective_host web r trust_forwarded =
     (let own = map_option normalize_host (header_to_str web (header_get (req_headers r) ''host''));
          by_x_forwarded =
            (case header_to_str web (header_get (req_headers r) ''x-forwarded-host'') of
               Some v \<Rightarrow>
                 (let host = trim (hd (split_on (CHR '','') v))
                  in if host \<noteq> [] then Some (normalize_host host) else own)
             | None \<Rightarrow> own)
      in if \<not> trust_forwarded then own
         else (case Option.bind (header_to_str web (header_get (req_headers r) ''forwarded'')) parse_forwarded_host of
           Some host \<Rightarrow> Some (normalize_host host)
         | None \<Rightarrow> by_x_forwarded))"

section \<open>Choice of the policy\<close>

definition host_matches :: "string \<Rightarrow> string \<Rightarrow> bool" where
  "host_matches pattern host \<longleftrightarrow> pattern = ''*'' \<or> normalize_host pattern = host"

definition policy_matches :: "string option \<Rightarrow> string option \<Rightarrow> policy_config \<Rightarrow> bool" where
  "policy_matches host endpoint p \<longleftrightarrow>
     (let hosts = pm_hosts (pc_match p); endpoints = pm_endpoints (pc_match p) in
      (hosts = [] \<or> (case host of None \<Rightarrow> False | Some h \<Rightarrow> list_ex (\<lambda>item. host_matches item h) hosts)) \<and>
      (endpoints = [] \<or> (case endpoint of None \<Rightarrow> False | Some e \<Rightarrow> list_ex (\<lambda>item. item = e) endpoints)))"

definition select_policy :: "settings \<Rightarrow> string option \<Rightarrow> string option \<Rightarrow> policy_config option" where
  "select_policy s host endpoint = find (policy_matches host endpoint) (st_policies s)"

definition hop_count_header :: string where
  "hop_count_header = ''x-panoptikon-hops''"

text \<open>The token header is removed in every case; a token that names a policy selects it.\<close>

definition consume_policy_token ::
  "web \<Rightarrow> token_lib \<Rightarrow> nat \<Rightarrow> settings \<Rightarrow> request \<Rightarrow> request \<times> policy_config option" where
  "consume_policy_token web lib now s r =
     (case header_get (req_headers r) policy_token_header of
        None \<Rightarrow> (r, None)
      | Some v \<Rightarrow>
          (r\<lparr>req_headers := header_remove (req_headers r) policy_token_header\<rparr>,
           case header_text web v of
             None \<Rightarrow> None
           | Some token \<Rightarrow>
               (case verify_at lib token now of
                  Inl _ \<Rightarrow> None
                | Inr claims \<Rightarrow> find (\<lambda>p. pc_name p = tc_policy claims) (st_policies s))))"

definition strip_inbound_panoptikon_headers :: "header_map \<Rightarrow> header_map" where
  "strip_inbound_panoptikon_headers hs =
     foldl header_remove hs
       (map fst (filter (\<lambda>(name, _). starts_with name ''x-panoptikon-'' \<and> name \<noteq> hop_count_header) hs))"

section \<open>Rulesets\<close>

definition rule_matches :: "rule_config \<Rightarrow> string \<Rightarrow> string \<Rightarrow> bool" where
  "rule_matches rule m path =
     (if \<not> allows_method (rc_methods rule) m then False
      else case rc_path rule of
        Some exact \<Rightarrow> path = exact
      | None \<Rightarrow> (case rc_path_prefix rule of Some p \<Rightarrow> starts_with path p | None \<Rightarrow> False))"

definition ruleset_allows :: "settings \<Rightarrow> policy_config \<Rightarrow> string \<Rightarrow> string \<Rightarrow> bool" where
  "ruleset_allows s p m path =
     (case pc_ruleset p of
        None \<Rightarrow> True
      | Some name \<Rightarrow>
          if name = ''allow_all'' then True
          else (case map_of (st_rulesets s) name of
            None \<Rightarrow> False
          | Some rs \<Rightarrow> if rs_allow_all rs then True else list_ex (\<lambda>rule. rule_matches rule m path) (rs_allow rs)))"

section \<open>Users and tenants\<close>

definition hex_digit :: "nat \<Rightarrow> char" where
  "hex_digit n = (if n < 10 then digit n else char_of (87 + n))"

definition hex_byte :: "nat \<Rightarrow> string" where
  "hex_byte b = [hex_digit (b div 16), hex_digit (b mod 16)]"

definition hash_username :: "web \<Rightarrow> string \<Rightarrow> string" where
  "hash_username web v = concat (map hex_byte (take 16 (sha256 web v)))"

definition extract_username :: "web \<Rightarrow> policy_config \<Rightarrow> request \<Rightarrow> enforcement_error + string option" where
  "extract_username web p r =
     (case pc_user_header p of
        None \<Rightarrow> Inr None
      | Some h \<Rightarrow>
          (case header_get (req_headers r) (to_lower h) of
             None \<Rightarrow> Inr None
           | Some v \<Rightarrow>
               (case header_text web v of
                  None \<Rightarrow> deny BadRequest ''invalid_user_header''
                | Some raw \<Rightarrow>
                    (let value = trim (hd (split_on (CHR '','') raw)) in
                     if value = [] then deny BadRequest ''invalid_username''
                     else if length value > 32 - 2 \<or> \<not> is_safe_identifier value max_username_len
                     then Inr (Some (hash_username web value))
                     else Inr (Some value)))))"

definition render_prefix :: "string \<Rightarrow> string \<Rightarrow> enforcement_error + string" where
  "render_prefix template username =
     (if contains template ''{db}'' then deny BadRequest ''invalid_db_template''
      else let rendered = replace_all ''{username}'' username template in
        if \<not> is_safe_identifier rendered max_db_name_len then deny BadRequest ''invalid_db_value''
        else Inr rendered)"

definition resolve_missing :: "db_policy \<Rightarrow> string \<Rightarrow> string option \<Rightarrow> enforcement_error + string \<times> db_action" where
  "resolve_missing p default_value username =
     and_then
       (case (username, db_tenant_default p) of
          (Some u, Some t) \<Rightarrow>
            (case db_prefix_template p of
               None \<Rightarrow> deny BadRequest ''invalid_db_template''
             | Some template \<Rightarrow> and_then (render_prefix template u) (\<lambda>prefix. Inr (prefix @ t)))
        | _ \<Rightarrow> Inr default_value)
       (\<lambda>v. if \<not> is_safe_identifier v max_db_name_len then deny BadRequest ''invalid_db_value''
            else Inr (v, Injected))"

definition resolve_given :: "db_policy \<Rightarrow> string \<Rightarrow> string option \<Rightarrow> enforcement_error + string \<times> db_action" where
  "resolve_given p v username =
     (if \<not> is_safe_identifier v max_db_name_len then deny BadRequest ''invalid_db_value''
      else if allows_value (db_allow p) v then Inr (v, Unchanged)
      else case (username, db_prefix_template p) of
        (Some u, Some template) \<Rightarrow>
          and_then (render_prefix template u) (\<lambda>prefix.
            if \<not> is_safe_identifier (prefix @ v) max_db_name_len then deny BadRequest ''invalid_db_value''
            else Inr (prefix @ v, Rewritten))
      | _ \<Rightarrow> deny Forbidden ''db_not_allowed'')"

definition resolve_db_param ::
  "string option \<Rightarrow> string \<Rightarrow> db_policy \<Rightarrow> string option \<Rightarrow> enforcement_error + string \<times> db_action" where
  "resolve_db_param provided default_value p username =
     (case provided of
        None \<Rightarrow> resolve_missing p default_value username
      | Some v \<Rightarrow> resolve_given p v username)"

section \<open>Query parameters\<close>

definition query_pairs :: "web \<Rightarrow> request \<Rightarrow> (string \<times> string) list" where
  "query_pairs web r = (case req_query r of None \<Rightarrow> [] | Some q \<Rightarrow> parse_form web q)"

definition build_query :: "web \<Rightarrow> (string \<times> string) list \<Rightarrow> string option" where
  "build_query web pairs = (if pairs = [] then None else Some (write_form web pairs))"

definition set_query :: "web \<Rightarrow> request \<Rightarrow> string option \<Rightarrow> enforcement_error + request" where
  "set_query web r query =
     (let q = (case query of Some q \<Rightarrow> if q \<noteq> [] then Some q else None | None \<Rightarrow> None);
          path_and_query = (case q of Some q \<Rightarrow> req_path r @ ''?'' @ q | None \<Rightarrow> req_path r)
      in if uri_accepts web path_and_query then Inr (r\<lparr>req_query := q\<rparr>)
         else deny BadGateway ''query_rewrite_failed'')"

definition strip_query_params :: "web \<Rightarrow> request \<Rightarrow> string list \<Rightarrow> enforcement_error + request" where
  "strip_query_params web r keys =
     set_query web r (build_query web (filter (\<lambda>(k, _). \<not> list_ex (\<lambda>e. e = k) keys) (query_pairs web r)))"

text \<open>The first value of a key; the pairs whose key is not among some keys.\<close>

definition first_value :: "(string \<times> string) list \<Rightarrow> string \<Rightarrow> string option" where
  "first_value pairs key = map_of pairs key"

definition retain :: "(string \<times> string) list \<Rightarrow> string list \<Rightarrow> (string \<times> string) list" where
  "retain pairs keys = filter (\<lambda>(k, _). k \<notin> set keys) pairs"

text \<open>Both enforcements: the names of the two parameters and the keys that are dropped.\<close>

definition enforce_params ::
  "web \<Rightarrow> policy_config \<Rightarrow> request \<Rightarrow> string option \<Rightarrow> string \<Rightarrow> string \<Rightarrow> string list \<Rightarrow>
     enforcement_error + request \<times> db_action" where
  "enforce_params web p r username index_key user_key dropped =
     (let pairs = query_pairs web r in
      and_then (resolve_db_param (first_value pairs index_key) (db_default (pc_index_db p)) (pc_index_db p) username)
        (\<lambda>(index_value, index_action).
      and_then (resolve_db_param (first_value pairs user_key) (db_default (pc_user_data_db p)) (pc_user_data_db p) username)
        (\<lambda>(user_value, user_action).
      and_then (set_query web r (build_query web
          (retain pairs dropped @ [(index_key, index_value), (user_key, user_value)])))
        (\<lambda>r'. Inr (r', combine index_action user_action)))))"

definition enforce_db_params ::
  "web \<Rightarrow> policy_config \<Rightarrow> request \<Rightarrow> string option \<Rightarrow> enforcement_error + request \<times> db_action" where
  "enforce_db_params web p r username =
     enforce_params web p r username ''index_db'' ''user_data_db'' [''index_db'', ''user_data_db'']"

definition enforce_db_create_params ::
  "web \<Rightarrow> policy_config \<Rightarrow> request \<Rightarrow> string option \<Rightarrow> enforcement_error + request \<times> db_action" where
  "enforce_db_create_params web p r username =
     enforce_params web p r username ''new_index_db'' ''new_user_data_db''
       [''new_index_db'', ''new_user_data_db'', ''index_db'', ''user_data_db'']"

section \<open>The policy layer\<close>

record policy_decision =
  pd_policy :: policy_config
  pd_username :: "string option"
  pd_db_action :: db_action
  pd_is_db_info :: bool
  pd_selected_by :: selected_by

definition desktop_allowed :: "policy_config \<Rightarrow> bool" where
  "desktop_allowed p \<longleftrightarrow> map_of (pc_client p) ''desktop'' = Some (ClientBool True)"

definition is_client_config :: "settings \<Rightarrow> request \<Rightarrow> bool" where
  "is_client_config s r \<longleftrightarrow> st_api_local s \<and> req_method r = ''GET'' \<and> is_client_config_path (req_path r)"

definition is_relay_bootstrap :: "settings \<Rightarrow> request \<Rightarrow> bool" where
  "is_relay_bootstrap s r \<longleftrightarrow>
     st_api_local s \<and>
     (starts_with (req_path r) ''/api/relay/pairings/'' \<or> starts_with (req_path r) ''/api/relay/pairing-operations/'')"

definition choose_policy ::
  "web \<Rightarrow> settings \<Rightarrow> request \<Rightarrow> policy_config option \<Rightarrow> enforcement_error + policy_config \<times> selected_by" where
  "choose_policy web s r token_policy =
     (case token_policy of
        Some p \<Rightarrow> Inr (p, ByToken)
      | None \<Rightarrow>
          (case select_policy s (resolve_effective_host web r (st_trust_forwarded s)) (req_endpoint r) of
             None \<Rightarrow> deny Forbidden ''no_policy''
           | Some p \<Rightarrow> Inr (p, ListenerHost)))"

definition admit :: "settings \<Rightarrow> policy_config \<Rightarrow> request \<Rightarrow> enforcement_error + unit" where
  "admit s p r =
     (if starts_with (req_path r) ''/api/desktop/'' \<and> \<not> desktop_allowed p
      then deny Forbidden ''desktop_policy_required''
      else if is_api_surface (req_path r) \<and> \<not> is_client_config s r \<and> \<not> is_relay_bootstrap s r \<and>
          \<not> ruleset_allows s p (req_method r) (req_path r)
      then deny Forbidden ''ruleset_denied''
      else Inr ())"

definition applies_db_params :: "settings \<Rightarrow> request \<Rightarrow> bool" where
  "applies_db_params s r =
     (if is_inference_path (req_path r) \<or> is_db_info_path (req_path r) \<or> is_db_create_path (req_path r) then False
      else if is_client_config s r \<or> is_relay_bootstrap s r then False
      else if is_api_surface (req_path r) then needs_db_params (req_path r)
      else False)"

definition strip_if :: "web \<Rightarrow> bool \<Rightarrow> request \<Rightarrow> enforcement_error + request" where
  "strip_if web b r = (if b then strip_query_params web r [''index_db'', ''user_data_db''] else Inr r)"

definition enforce_db ::
  "web \<Rightarrow> settings \<Rightarrow> policy_config \<Rightarrow> string option \<Rightarrow> request \<Rightarrow> enforcement_error + request \<times> db_action" where
  "enforce_db web s p username r =
     and_then (if applies_db_params s r then enforce_db_params web p r username else Inr (r, Skipped))
       (\<lambda>(r1, action).
     if is_db_create_path (req_path r1)
     then and_then (enforce_db_create_params web p r1 username) (\<lambda>(r2, a). Inr (r2, combine action a))
     else Inr (r1, action))"

definition apply_policy ::
  "web \<Rightarrow> token_lib \<Rightarrow> nat \<Rightarrow> settings \<Rightarrow> request \<Rightarrow> enforcement_error + request \<times> policy_decision" where
  "apply_policy web lib now s r =
     (case consume_policy_token web lib now s r of (r1, token_policy) \<Rightarrow>
      let r2 = r1\<lparr>req_headers := strip_inbound_panoptikon_headers (req_headers r1)\<rparr> in
      and_then (choose_policy web s r2 token_policy) (\<lambda>(p, by).
      and_then (admit s p r2) (\<lambda>_.
      and_then (extract_username web p r2) (\<lambda>username.
      and_then (strip_if web (is_inference_path (req_path r2)) r2) (\<lambda>r3.
      and_then (strip_if web (is_db_info_path (req_path r3)) r3) (\<lambda>r4.
      and_then (enforce_db web s p username r4) (\<lambda>(r5, action).
        Inr (r5\<lparr>req_context := Some \<lparr>cx_policy_name = pc_name p, cx_db_action = action, cx_selected_by = by,
                  cx_search_cache = pc_search_cache p\<rparr>\<rparr>,
             \<lparr>pd_policy = p, pd_username = username, pd_db_action = action,
              pd_is_db_info = is_db_info_path (req_path r), pd_selected_by = by\<rparr>))))))))"

section \<open>The database listing\<close>

record single_db_info =
  di_current :: string
  di_all :: "string list"

record db_info =
  di_index :: single_db_info
  di_user_data :: single_db_info

definition resolve_default_db :: "db_policy \<Rightarrow> string \<Rightarrow> string option \<Rightarrow> enforcement_error + string" where
  "resolve_default_db p default_value username =
     (let v = (case (username, db_tenant_default p) of (Some _, Some t) \<Rightarrow> t | _ \<Rightarrow> default_value) in
      if \<not> is_safe_identifier v max_db_name_len then deny BadRequest ''invalid_db_value'' else Inr v)"

definition matches_prefix :: "string option \<Rightarrow> string \<Rightarrow> string \<Rightarrow> bool" where
  "matches_prefix template username candidate =
     (case template of
        None \<Rightarrow> False
      | Some t \<Rightarrow>
          (case render_prefix t username of
             Inl _ \<Rightarrow> False
           | Inr prefix \<Rightarrow>
               if length candidate \<le> length prefix \<or> length candidate > max_db_name_len then False
               else if \<not> starts_with candidate prefix then False
               else is_safe_identifier (drop (length prefix) candidate) max_db_name_len))"

definition strip_tenant_prefix :: "string \<Rightarrow> db_policy \<Rightarrow> string option \<Rightarrow> string option" where
  "strip_tenant_prefix v p username =
     (case (username, db_prefix_template p) of
        (Some u, Some t) \<Rightarrow>
          (case render_prefix t u of
             Inl _ \<Rightarrow> None
           | Inr prefix \<Rightarrow>
               if \<not> starts_with v prefix then None
               else let rest = drop (length prefix) v in
                 if rest = [] \<or> \<not> is_safe_identifier rest max_db_name_len then None else Some rest)
      | _ \<Rightarrow> None)"

definition push_new :: "string list \<Rightarrow> string \<Rightarrow> string list" where
  "push_new xs x = (if list_ex (\<lambda>e. e = x) xs then xs else xs @ [x])"

definition shown_name :: "db_policy \<Rightarrow> string option \<Rightarrow> string \<Rightarrow> string" where
  "shown_name p username name = (case strip_tenant_prefix name p username of Some rest \<Rightarrow> rest | None \<Rightarrow> name)"

definition visible :: "db_policy \<Rightarrow> string option \<Rightarrow> string \<Rightarrow> bool" where
  "visible p username name =
     (if allows_value (db_allow p) name then True
      else case username of None \<Rightarrow> False | Some u \<Rightarrow> matches_prefix (db_prefix_template p) u name)"

definition filter_db_list :: "string list \<Rightarrow> db_policy \<Rightarrow> string option \<Rightarrow> string list" where
  "filter_db_list names p username =
     (if is_all (db_allow p) then names
      else let filtered = filter (visible p username) names;
               filtered = (case (username, db_tenant_default p) of
                 (Some _, Some t) \<Rightarrow> push_new filtered t
               | _ \<Rightarrow> filtered)
           in foldl (\<lambda>deduped name. push_new deduped (shown_name p username name)) [] filtered)"

definition filter_db_info_payload :: "db_info \<Rightarrow> policy_config \<Rightarrow> string option \<Rightarrow> enforcement_error + db_info" where
  "filter_db_info_payload info p username =
     and_then (resolve_default_db (pc_index_db p) (db_default (pc_index_db p)) username) (\<lambda>index_current.
     and_then (resolve_default_db (pc_user_data_db p) (db_default (pc_user_data_db p)) username) (\<lambda>user_current.
       Inr \<lparr>di_index = \<lparr>di_current = index_current, di_all = filter_db_list (di_all (di_index info)) (pc_index_db p) username\<rparr>,
            di_user_data = \<lparr>di_current = user_current,
              di_all = filter_db_list (di_all (di_user_data info)) (pc_user_data_db p) username\<rparr>\<rparr>))"

section \<open>The service around the handlers\<close>

text \<open>
  A response; its body is \<open>None\<close> when reading it failed.  The JSON codec of the listing is a
  parameter.
\<close>

record response =
  rp_status :: nat
  rp_headers :: header_map
  rp_body :: "string option"

fun status_code :: "status \<Rightarrow> nat" where
  "status_code Forbidden = 403"
| "status_code BadRequest = 400"
| "status_code BadGateway = 502"

definition plain_response :: "nat \<Rightarrow> response" where
  "plain_response code = \<lparr>rp_status = code, rp_headers = [], rp_body = Some []\<rparr>"

definition filter_db_info_response ::
  "(string \<Rightarrow> db_info option) \<Rightarrow> (db_info \<Rightarrow> string option) \<Rightarrow> response \<Rightarrow> policy_config \<Rightarrow> string option \<Rightarrow> response" where
  "filter_db_info_response parse_info write_info resp p username =
     (case rp_body resp of
        None \<Rightarrow> plain_response 502
      | Some bytes \<Rightarrow>
          if \<not> (200 \<le> rp_status resp \<and> rp_status resp < 300) then resp
          else (case parse_info bytes of
            None \<Rightarrow> resp
          | Some info \<Rightarrow>
              (case filter_db_info_payload info p username of
                 Inl e \<Rightarrow> plain_response (status_code (ee_status e))
               | Inr info' \<Rightarrow>
                   (case write_info info' of
                      None \<Rightarrow> resp
                    | Some body \<Rightarrow>
                        resp\<lparr>rp_headers := header_remove (rp_headers resp) ''content-length'', rp_body := Some body\<rparr>))))"

definition serve_request ::
  "web \<Rightarrow> token_lib \<Rightarrow> (string \<Rightarrow> db_info option) \<Rightarrow> (db_info \<Rightarrow> string option) \<Rightarrow> (request \<Rightarrow> response) \<Rightarrow>
     nat \<Rightarrow> settings \<Rightarrow> request \<Rightarrow> response" where
  "serve_request web lib parse_info write_info inner now s r =
     (case apply_policy web lib now s r of
        Inl e \<Rightarrow> plain_response (status_code (ee_status e))
      | Inr (r', d) \<Rightarrow>
          let resp = inner r' in
          if pd_is_db_info d then filter_db_info_response parse_info write_info resp (pd_policy d) (pd_username d)
          else resp)"

end
