(* ===== verification/Proxy.thy ===== *)
theory Proxy
  imports Policy
begin

text \<open>
  What the reverse proxy (\<open>panoptikon/src/proxy.rs\<close>) does to the headers of a request it
  forwards: the hop guard, hop-by-hop hygiene, the policy token and the forwarding headers.
\<close>

section \<open>Headers\<close>

definition max_proxy_hops :: nat where
  "max_proxy_hops = 4"

definition hop_by_hop_headers :: "string list" where
  "hop_by_hop_headers =
     [''connection'', ''keep-alive'', ''proxy-connection'', ''proxy-authenticate'', ''proxy-authorization'', ''te'',
      ''trailer'', ''transfer-encoding'', ''upgrade'']"

text \<open>The comma-separated values of the \<open>Connection\<close> headers.\<close>

definition connection_tokens :: "web \<Rightarrow> header_map \<Rightarrow> string list" where
  "connection_tokens web hs =
     concat (map (\<lambda>v. map trim (split_on (CHR '','') v))
       (List.map_filter (header_text web) (header_get_all hs ''connection'')))"

definition strip_hop_by_hop_headers :: "web \<Rightarrow> header_map \<Rightarrow> header_map" where
  "strip_hop_by_hop_headers web hs =
     foldl header_remove (foldl header_remove hs (map to_lower (connection_tokens web hs))) hop_by_hop_headers"

definition sanitize_proxy_headers :: "web \<Rightarrow> header_map \<Rightarrow> string option \<Rightarrow> header_map" where
  "sanitize_proxy_headers web hs upgrade =
     (let hs = strip_hop_by_hop_headers web hs in
      case upgrade of
        None \<Rightarrow> hs
      | Some protocol \<Rightarrow> header_insert (header_insert hs ''upgrade'' protocol) ''connection'' ''upgrade'')"

definition requested_upgrade :: "web \<Rightarrow> header_map \<Rightarrow> string option" where
  "requested_upgrade web hs =
     (if \<not> list_ex (\<lambda>t. eq_ignore_case t ''upgrade'') (connection_tokens web hs) then None
      else header_get hs ''upgrade'')"

definition hop_count :: "web \<Rightarrow> header_map \<Rightarrow> nat" where
  "hop_count web hs =
     (case Option.bind (header_to_str web (header_get hs hop_count_header)) parse_u64 of Some n \<Rightarrow> n | None \<Rightarrow> 0)"

section \<open>Forwarding\<close>

datatype upstream_kind = UpstreamUi | UpstreamApi | UpstreamInference

text \<open>
  An upstream with the authority of its base URL; \<open>header_value\<close> tells whether a text may be
  a header value.
\<close>

record upstream =
  up_authority :: "string option"
  up_scheme :: "string option"

definition append_forwarded_for :: "web \<Rightarrow> header_map \<Rightarrow> string \<Rightarrow> header_map" where
  "append_forwarded_for web hs client_ip =
     header_insert hs ''x-forwarded-for''
       (case header_to_str web (header_get hs ''x-forwarded-for'') of
          Some existing \<Rightarrow> existing @ '', '' @ client_ip
        | None \<Rightarrow> client_ip)"

definition build_upstream_headers :: "web \<Rightarrow> upstream \<Rightarrow> string \<Rightarrow> string option \<Rightarrow> header_map \<Rightarrow> header_map" where
  "build_upstream_headers web up client_ip original_host hs =
     (let hs = (case up_authority up of None \<Rightarrow> hs | Some a \<Rightarrow> header_insert hs ''host'' a);
          hs = (case original_host of None \<Rightarrow> hs | Some h \<Rightarrow> header_insert hs ''x-forwarded-host'' h);
          hs = header_insert hs ''x-forwarded-proto'' (case up_scheme up of Some p \<Rightarrow> p | None \<Rightarrow> ''http'')
      in append_forwarded_for web hs client_ip)"

definition inject_policy_token ::
  "token_lib \<Rightarrow> nat \<Rightarrow> (string \<Rightarrow> bool) \<Rightarrow> upstream_kind \<Rightarrow> string \<Rightarrow> policy_context option \<Rightarrow> header_map \<Rightarrow> header_map" where
  "inject_policy_token lib now header_value kind origin context hs =
     (case (kind, context) of
        (UpstreamUi, Some c) \<Rightarrow>
          (let token = mint lib now (cx_policy_name c) origin
           in if header_value token then header_insert hs policy_token_header token else hs)
      | _ \<Rightarrow> hs)"

text \<open>
  The forwarded request, or \<open>None\<close> when the hop guard refuses it.  \<open>can_upgrade\<close> tells
  whether the connection can hand over its raw stream, \<open>origin\<close> is the loopback URL of the
  listener.
\<close>

definition forward ::
  "web \<Rightarrow> token_lib \<Rightarrow> nat \<Rightarrow> (string \<Rightarrow> bool) \<Rightarrow> upstream_kind \<Rightarrow> upstream \<Rightarrow> string \<Rightarrow> string \<Rightarrow> bool \<Rightarrow>
     request \<Rightarrow> request option" where
  "forward web lib now header_value kind up client_ip origin can_upgrade r =
     (let original_host = header_to_str web (header_get (req_headers r) ''host'');
          hops = hop_count web (req_headers r)
      in if hops \<ge> max_proxy_hops then None
         else let upgrade = (if can_upgrade then requested_upgrade web (req_headers r) else None);
                  hs = sanitize_proxy_headers web (req_headers r) upgrade;
                  hs = header_insert hs hop_count_header (show_nat (hops + 1));
                  hs = inject_policy_token lib now header_value kind origin (req_context r) hs;
                  hs = build_upstream_headers web up client_ip original_host hs
              in Some (r\<lparr>req_headers := hs\<rparr>))"

text \<open>One gateway: the policy layer admits the request and the proxy forwards it.\<close>

inductive gateway_hop :: "web \<Rightarrow> token_lib \<Rightarrow> request \<Rightarrow> request \<Rightarrow> bool" for web lib where
  hop: "apply_policy web lib now s r = Inr (r1, d) \<Longrightarrow>
    forward web lib now header_value kind up client_ip origin can_upgrade r1 = Some r2 \<Longrightarrow>
    gateway_hop web lib r (r2\<lparr>req_endpoint := endpoint, req_context := None\<rparr>)"

inductive_cases gateway_hopE: "gateway_hop web lib r r'"

end
