(* ===== verification/PolicyProps.thy ===== *)
theory PolicyProps
  imports Proxy
begin

text \<open>
  The properties of the policy layer and the proxy: whose authority a request gets, which
  databases it can reach, what the listing shows, and that forwarding ends.
\<close>

section \<open>Headers\<close>

lemma header_get_foldl_remove [simp]:
  "header_get (foldl header_remove hs ns) b = (if b \<in> set ns then None else header_get hs b)"
  by (induction ns arbitrary: hs) auto

lemma set_foldl_remove [simp]: "set (foldl header_remove hs ns) = {h \<in> set hs. fst h \<notin> set ns}"
  by (induction ns arbitrary: hs) auto

lemma names_filter: "set (map fst (filter (\<lambda>(n, _). P n) hs)) = {n \<in> fst ` set hs. P n}"
  by force

lemma strip_inbound_unfold:
  "strip_inbound_panoptikon_headers hs = foldl header_remove hs
     (map fst (filter (\<lambda>(n, _). (\<lambda>n. starts_with n ''x-panoptikon-'' \<and> n \<noteq> hop_count_header) n) hs))"
  unfolding strip_inbound_panoptikon_headers_def ..

lemma set_strip_inbound:
  "h \<in> set (strip_inbound_panoptikon_headers hs) \<longleftrightarrow>
     h \<in> set hs \<and> (starts_with (fst h) ''x-panoptikon-'' \<longrightarrow> fst h = hop_count_header)"
  unfolding strip_inbound_unfold set_foldl_remove names_filter by blast

lemma strip_inbound_keeps_hops [simp]:
  "header_get (strip_inbound_panoptikon_headers hs) hop_count_header = header_get hs hop_count_header"
  unfolding strip_inbound_unfold header_get_foldl_remove names_filter by simp

section \<open>The parts of an admitted request\<close>

lemma set_query_Inr:
  "set_query web r q = Inr r' \<Longrightarrow> r' = r\<lparr>req_query := (case q of Some t \<Rightarrow> if t \<noteq> [] then Some t else None | None \<Rightarrow> None)\<rparr>"
  by (auto simp: set_query_def Let_def split: if_splits)

lemma strip_if_Inr: "strip_if web b r = Inr r' \<Longrightarrow> \<exists>q. r' = r\<lparr>req_query := q\<rparr>"
  by (auto simp: strip_if_def strip_query_params_def dest!: set_query_Inr split: if_splits) (metis request.surjective request.update_convs(3))

lemma enforce_params_Inr:
  assumes "enforce_params web p r username ik uk dropped = Inr (r', action)"
  shows "\<exists>iv ia uv ua.
    resolve_db_param (first_value (query_pairs web r) ik) (db_default (pc_index_db p)) (pc_index_db p) username = Inr (iv, ia) \<and>
    resolve_db_param (first_value (query_pairs web r) uk) (db_default (pc_user_data_db p)) (pc_user_data_db p) username = Inr (uv, ua) \<and>
    set_query web r (build_query web (retain (query_pairs web r) dropped @ [(ik, iv), (uk, uv)])) = Inr r' \<and>
    action = combine ia ua"
  using assms by (auto simp: enforce_params_def Let_def and_then_Inr)

lemma enforce_params_frame: "enforce_params web p r username ik uk dropped = Inr (r', action) \<Longrightarrow> \<exists>q. r' = r\<lparr>req_query := q\<rparr>"
  by (drule enforce_params_Inr) (blast dest: set_query_Inr)

lemma enforce_db_frame:
  assumes "enforce_db web s p username r = Inr (r', action)"
  shows "\<exists>q. r' = r\<lparr>req_query := q\<rparr>"
proof -
  obtain x where x: "(if applies_db_params s r then enforce_db_params web p r username else Inr (r, Skipped)) = Inr x"
    and cont: "(case x of (r1, a1) \<Rightarrow>
      if is_db_create_path (req_path r1)
      then and_then (enforce_db_create_params web p r1 username) (\<lambda>(r2, a). Inr (r2, combine a1 a))
      else Inr (r1, a1)) = Inr (r', action)"
    using assms unfolding enforce_db_def and_then_Inr by blast
  obtain r1 a1 where xr: "x = (r1, a1)" by (cases x)
  note r1 = x [unfolded xr]
  have rest: "r' = r1 \<or> (\<exists>a. enforce_db_create_params web p r1 username = Inr (r', a))"
    using cont unfolding xr by (auto simp: and_then_Inr split: if_splits)
  have "\<exists>q. r1 = r\<lparr>req_query := q\<rparr>"
  proof (cases "applies_db_params s r")
    case True
    with r1 show ?thesis unfolding enforce_db_params_def by (simp add: enforce_params_frame)
  next
    case False
    with r1 show ?thesis by (intro exI [of _ "req_query r"]) simp
  qed
  then obtain q where q: "r1 = r\<lparr>req_query := q\<rparr>" by blast
  from rest show ?thesis
  proof
    assume "\<exists>a. enforce_db_create_params web p r1 username = Inr (r', a)"
    then obtain q' where "r' = r1\<lparr>req_query := q'\<rparr>" unfolding enforce_db_create_params_def using enforce_params_frame by blast
    with q show ?thesis by auto
  qed (use q in blast)
qed

definition ingress :: "web \<Rightarrow> token_lib \<Rightarrow> nat \<Rightarrow> settings \<Rightarrow> request \<Rightarrow> request" where
  "ingress web lib now s r =
     (let r1 = fst (consume_policy_token web lib now s r)
      in r1\<lparr>req_headers := strip_inbound_panoptikon_headers (req_headers r1)\<rparr>)"

lemma ingress_fields [simp]:
  "req_method (ingress web lib now s r) = req_method r" "req_path (ingress web lib now s r) = req_path r"
  "req_query (ingress web lib now s r) = req_query r" "req_endpoint (ingress web lib now s r) = req_endpoint r"
  by (simp_all add: ingress_def Let_def consume_policy_token_def split: option.split)

lemma apply_policy_Inr:
  assumes "apply_policy web lib now s r = Inr (r', d)"
  shows "\<exists>p sel username r3 r4 r5 action.
    choose_policy web s (ingress web lib now s r) (snd (consume_policy_token web lib now s r)) = Inr (p, sel) \<and>
    admit s p (ingress web lib now s r) = Inr () \<and>
    extract_username web p (ingress web lib now s r) = Inr username \<and>
    strip_if web (is_inference_path (req_path r)) (ingress web lib now s r) = Inr r3 \<and>
    strip_if web (is_db_info_path (req_path r)) r3 = Inr r4 \<and>
    enforce_db web s p username r4 = Inr (r5, action) \<and>
    (\<exists>cx. r' = r5\<lparr>req_context := cx\<rparr>) \<and>
    d = \<lparr>pd_policy = p, pd_username = username, pd_db_action = action,
         pd_is_db_info = is_db_info_path (req_path r), pd_selected_by = sel\<rparr>"
proof -
  obtain r1 tp where c: "consume_policy_token web lib now s r = (r1, tp)" by fastforce
  have i: "r1\<lparr>req_headers := strip_inbound_panoptikon_headers (req_headers r1)\<rparr> = ingress web lib now s r"
    by (simp add: ingress_def c)
  have path: "strip_if web b x = Inr y \<Longrightarrow> req_path y = req_path x" for b x y
    using strip_if_Inr by fastforce
  from assms obtain p sel username r3 r4 r5 action where
    a: "choose_policy web s (ingress web lib now s r) tp = Inr (p, sel)" "admit s p (ingress web lib now s r) = Inr ()"
      "extract_username web p (ingress web lib now s r) = Inr username"
    and r3: "strip_if web (is_inference_path (req_path r)) (ingress web lib now s r) = Inr r3"
    and r4: "strip_if web (is_db_info_path (req_path r3)) r3 = Inr r4"
    and b: "enforce_db web s p username r4 = Inr (r5, action)"
      "r' = r5\<lparr>req_context := Some \<lparr>cx_policy_name = pc_name p, cx_db_action = action, cx_selected_by = sel,
        cx_search_cache = pc_search_cache p\<rparr>\<rparr>"
      "d = \<lparr>pd_policy = p, pd_username = username, pd_db_action = action,
         pd_is_db_info = is_db_info_path (req_path r), pd_selected_by = sel\<rparr>"
    unfolding apply_policy_def c prod.case Let_def i ingress_fields
    by (auto simp: and_then_Inr split: prod.splits)
  have "req_path r3 = req_path r" using path [OF r3] by simp
  with r4 have r4': "strip_if web (is_db_info_path (req_path r)) r3 = Inr r4" by simp
  show ?thesis
    unfolding c snd_conv
    by (intro exI conjI, rule a, rule a, rule a, rule r3, rule r4', rule b, rule b, rule b)
qed

lemma frame_r4:
  assumes "strip_if web b1 (ingress web lib now s r) = Inr r3" and "strip_if web b2 r3 = Inr r4"
  shows "\<exists>q. r4 = (ingress web lib now s r)\<lparr>req_query := q\<rparr>"
  using strip_if_Inr [OF assms(1)] strip_if_Inr [OF assms(2)] by auto

lemma apply_policy_headers:
  assumes "apply_policy web lib now s r = Inr (r', d)"
  shows "req_headers r' = req_headers (ingress web lib now s r)" "req_path r' = req_path r" "req_method r' = req_method r"
proof -
  obtain p username r3 r4 r5 action cx where
    e: "strip_if web (is_inference_path (req_path r)) (ingress web lib now s r) = Inr r3"
    "strip_if web (is_db_info_path (req_path r)) r3 = Inr r4"
    "enforce_db web s p username r4 = Inr (r5, action)" "r' = r5\<lparr>req_context := cx\<rparr>"
    using apply_policy_Inr [OF assms] by blast
  obtain q where "r4 = (ingress web lib now s r)\<lparr>req_query := q\<rparr>" using frame_r4 [OF e(1,2)] by blast
  moreover obtain q' where "r5 = r4\<lparr>req_query := q'\<rparr>" using enforce_db_frame [OF e(3)] by blast
  ultimately show "req_headers r' = req_headers (ingress web lib now s r)" "req_path r' = req_path r"
    "req_method r' = req_method r"
    using e(4) by simp_all
qed

section \<open>Whose authority a request gets\<close>

text \<open>The configured way a policy is chosen: a valid token naming it, or the first match.\<close>

definition justified ::
  "web \<Rightarrow> token_lib \<Rightarrow> nat \<Rightarrow> settings \<Rightarrow> request \<Rightarrow> policy_config \<Rightarrow> selected_by \<Rightarrow> bool" where
  "justified web lib now s r p sel =
     (case sel of
        ByToken \<Rightarrow> (\<exists>v token claims.
          header_get (req_headers r) policy_token_header = Some v \<and> header_text web v = Some token \<and>
          verify_at lib token now = Inr claims \<and> find (\<lambda>p. pc_name p = tc_policy claims) (st_policies s) = Some p)
      | ListenerHost \<Rightarrow> (\<exists>before after host.
          st_policies s = before @ p # after \<and> policy_matches host (req_endpoint r) p \<and>
          (\<forall>q \<in> set before. \<not> policy_matches host (req_endpoint r) q) \<and>
          host = resolve_effective_host web (ingress web lib now s r) (st_trust_forwarded s)))"

lemma find_first: "find P xs = Some x \<Longrightarrow> \<exists>us vs. xs = us @ x # vs \<and> P x \<and> (\<forall>u \<in> set us. \<not> P u)"
proof (induction xs)
  case Nil
  then show ?case by simp
next
  case (Cons y ys)
  show ?case
  proof (cases "P y")
    case True
    with Cons.prems show ?thesis by (intro exI [of _ "[]"] exI [of _ ys]) simp
  next
    case False
    with Cons obtain us vs where "ys = us @ x # vs \<and> P x \<and> (\<forall>u \<in> set us. \<not> P u)" by auto
    with False show ?thesis by (intro exI [of _ "y # us"] exI [of _ vs]) simp
  qed
qed

lemma choose_policy_justified:
  assumes "choose_policy web s (ingress web lib now s r) (snd (consume_policy_token web lib now s r)) = Inr (p, sel)"
  shows "justified web lib now s r p sel"
proof (cases "snd (consume_policy_token web lib now s r)")
  case (Some q)
  then have "sel = ByToken" "p = q" using assms by (simp_all add: choose_policy_def)
  with Some show ?thesis
    by (auto simp: justified_def consume_policy_token_def split: option.splits sum.splits)
next
  case None
  let ?host = "resolve_effective_host web (ingress web lib now s r) (st_trust_forwarded s)"
  have "sel = ListenerHost" and "find (policy_matches ?host (req_endpoint r)) (st_policies s) = Some p"
    using assms None by (auto simp: choose_policy_def select_policy_def split: option.splits)
  with find_first [OF this(2)] show ?thesis by (auto simp: justified_def)
qed

lemma exemptions_ingress [simp]:
  "is_client_config s (ingress web lib now s r) = is_client_config s r"
  "is_relay_bootstrap s (ingress web lib now s r) = is_relay_bootstrap s r"
  by (simp_all add: is_client_config_def is_relay_bootstrap_def)

lemma admit_Inr:
  "admit s p r = Inr () \<Longrightarrow>
    (is_api_surface (req_path r) \<longrightarrow>
       ruleset_allows s p (req_method r) (req_path r) \<or> is_client_config s r \<or> is_relay_bootstrap s r) \<and>
    (starts_with (req_path r) ''/api/desktop/'' \<longrightarrow> desktop_allowed p)"
  by (auto simp: admit_def split: if_splits)

text \<open>
  C12.  A request that passes the policy layer has the authority it was given: its policy was
  named by a token with a valid MAC that has not expired, or is the first configured policy
  that matches host and listener; an API path was admitted by the policy's ruleset unless it
  is one of the two exemptions, and a Desktop path only with a Desktop policy; and the headers
  that go on carry no reserved name but the hop count.
\<close>

theorem admitted_request_is_authorized:
  assumes "apply_policy web lib now s r = Inr (r', d)"
  shows "justified web lib now s r (pd_policy d) (pd_selected_by d) \<and>
    (is_api_surface (req_path r) \<longrightarrow>
       ruleset_allows s (pd_policy d) (req_method r) (req_path r) \<or> is_client_config s r \<or> is_relay_bootstrap s r) \<and>
    (starts_with (req_path r) ''/api/desktop/'' \<longrightarrow> desktop_allowed (pd_policy d)) \<and>
    (\<forall>(n, v) \<in> set (req_headers r').
       starts_with n ''x-panoptikon-'' \<longrightarrow> n = hop_count_header \<and> (n, v) \<in> set (req_headers r))"
proof -
  obtain p sel where a: "choose_policy web s (ingress web lib now s r) (snd (consume_policy_token web lib now s r)) = Inr (p, sel)"
    "admit s p (ingress web lib now s r) = Inr ()" "pd_policy d = p" "pd_selected_by d = sel"
    using apply_policy_Inr [OF assms] by auto
  have "h \<in> set (req_headers r) \<and> (starts_with (fst h) ''x-panoptikon-'' \<longrightarrow> fst h = hop_count_header)"
    if "h \<in> set (req_headers r')" for h
    using that unfolding apply_policy_headers(1) [OF assms]
    by (auto simp: ingress_def Let_def set_strip_inbound consume_policy_token_def split: option.splits)
  then have "\<forall>(n, v) \<in> set (req_headers r').
       starts_with n ''x-panoptikon-'' \<longrightarrow> n = hop_count_header \<and> (n, v) \<in> set (req_headers r)"
    by fastforce
  with admit_Inr [OF a(2)] choose_policy_justified [OF a(1)] show ?thesis
    unfolding a(3,4) exemptions_ingress ingress_fields by blast
qed

section \<open>Which databases a request reaches\<close>

text \<open>
  A database a policy lets a user name: the default, an allowed one, or one under the user's
  own prefix.
\<close>

definition permitted :: "db_policy \<Rightarrow> string option \<Rightarrow> string \<Rightarrow> bool" where
  "permitted p username v \<longleftrightarrow>
     is_safe_identifier v max_db_name_len \<and>
     (v = db_default p \<or> allows_value (db_allow p) v \<or>
      (\<exists>u t prefix. username = Some u \<and> db_prefix_template p = Some t \<and> render_prefix t u = Inr prefix \<and>
         starts_with v prefix))"

lemma resolved_is_permitted:
  "resolve_db_param provided (db_default p) p username = Inr (v, a) \<Longrightarrow> permitted p username v"
  by (auto simp: resolve_db_param_def resolve_missing_def resolve_given_def permitted_def and_then_Inr
      split: option.splits if_splits)

definition values_of :: "web \<Rightarrow> request \<Rightarrow> string \<Rightarrow> string list" where
  "values_of web r key = map snd (filter (\<lambda>(k, _). k = key) (query_pairs web r))"

definition form_codec :: "web \<Rightarrow> bool" where
  "form_codec web \<longleftrightarrow> (\<forall>ps. ps \<noteq> [] \<longrightarrow> parse_form web (write_form web ps) = ps \<and> write_form web ps \<noteq> [])"

lemma retain_none: "k \<in> set keys \<Longrightarrow> filter (\<lambda>(x, _). x = k) (retain pairs keys) = []"
  by (auto simp: retain_def filter_empty_conv)

lemma enforce_params_serves:
  assumes "enforce_params web p r username ik uk dropped = Inr (r', action)" and "form_codec web"
    and "ik \<in> set dropped" "uk \<in> set dropped" "ik \<noteq> uk"
  shows "\<exists>iv uv. values_of web r' ik = [iv] \<and> values_of web r' uk = [uv] \<and>
    permitted (pc_index_db p) username iv \<and> permitted (pc_user_data_db p) username uv"
proof -
  obtain iv ia uv ua where
    res: "resolve_db_param (first_value (query_pairs web r) ik) (db_default (pc_index_db p)) (pc_index_db p) username = Inr (iv, ia)"
    "resolve_db_param (first_value (query_pairs web r) uk) (db_default (pc_user_data_db p)) (pc_user_data_db p) username = Inr (uv, ua)"
    and set: "set_query web r (build_query web (retain (query_pairs web r) dropped @ [(ik, iv), (uk, uv)])) = Inr r'"
    using enforce_params_Inr [OF assms(1)] by blast
  let ?ps = "retain (query_pairs web r) dropped @ [(ik, iv), (uk, uv)]"
  have ps: "parse_form web (write_form web ?ps) = ?ps" "write_form web ?ps \<noteq> []"
    using assms(2) by (simp_all add: form_codec_def)
  have "query_pairs web r' = ?ps"
    using set_query_Inr [OF set] ps by (simp add: build_query_def query_pairs_def)
  then have "values_of web r' ik = [iv]" "values_of web r' uk = [uv]"
    using assms(3-5) by (simp_all add: values_of_def retain_none)
  with res [THEN resolved_is_permitted] show ?thesis by blast
qed

lemma applies_db_params_query [simp]: "applies_db_params s (r\<lparr>req_query := q\<rparr>) = applies_db_params s r"
  unfolding applies_db_params_def is_client_config_def is_relay_bootstrap_def
  by (cases r) (simp only: request.select_convs request.update_convs)

lemma applies_db_params_ingress [simp]: "applies_db_params s (ingress web lib now s r) = applies_db_params s r"
  unfolding applies_db_params_def exemptions_ingress ingress_fields ..

lemma enforced_request:
  assumes "apply_policy web lib now s r = Inr (r', d)"
  shows "\<exists>r4 r5 action cx. enforce_db web s (pd_policy d) (pd_username d) r4 = Inr (r5, action) \<and>
    req_path r4 = req_path r \<and> applies_db_params s r4 = applies_db_params s r \<and> r' = r5\<lparr>req_context := cx\<rparr>"
proof -
  obtain p username r3 r4 r5 action cx where
    e: "strip_if web (is_inference_path (req_path r)) (ingress web lib now s r) = Inr r3"
    "strip_if web (is_db_info_path (req_path r)) r3 = Inr r4"
    "enforce_db web s p username r4 = Inr (r5, action)" "r' = r5\<lparr>req_context := cx\<rparr>"
    "pd_policy d = p" "pd_username d = username"
    using apply_policy_Inr [OF assms] by auto
  obtain q where "r4 = (ingress web lib now s r)\<lparr>req_query := q\<rparr>" using frame_r4 [OF e(1,2)] by blast
  then have "req_path r4 = req_path r" "applies_db_params s r4 = applies_db_params s r" by simp_all
  with e(3-6) show ?thesis by blast
qed

lemma applies_not_create: "applies_db_params s r \<Longrightarrow> \<not> is_db_create_path (req_path r)"
  by (simp add: applies_db_params_def split: if_splits)

text \<open>
  C6.  Whatever a client put in the query string, the handler behind the policy layer sees
  exactly one value for each database parameter, and the policy permits the user that
  database: on every route that takes database parameters, and for the names of a database
  to create.
\<close>

theorem enforced_databases_are_permitted:
  assumes "apply_policy web lib now s r = Inr (r', d)" and "form_codec web"
  shows "(applies_db_params s r \<longrightarrow>
      (\<exists>iv uv. values_of web r' ''index_db'' = [iv] \<and> values_of web r' ''user_data_db'' = [uv] \<and>
         permitted (pc_index_db (pd_policy d)) (pd_username d) iv \<and>
         permitted (pc_user_data_db (pd_policy d)) (pd_username d) uv)) \<and>
    (is_db_create_path (req_path r) \<longrightarrow>
      (\<exists>iv uv. values_of web r' ''new_index_db'' = [iv] \<and> values_of web r' ''new_user_data_db'' = [uv] \<and>
         permitted (pc_index_db (pd_policy d)) (pd_username d) iv \<and>
         permitted (pc_user_data_db (pd_policy d)) (pd_username d) uv))"
proof -
  obtain r4 r5 action cx where
    e: "enforce_db web s (pd_policy d) (pd_username d) r4 = Inr (r5, action)"
    and path: "req_path r4 = req_path r" and app: "applies_db_params s r4 = applies_db_params s r"
    and r': "r' = r5\<lparr>req_context := cx\<rparr>"
    using enforced_request [OF assms(1)] by blast
  have same: "values_of web r' = values_of web r5" by (simp add: r' values_of_def query_pairs_def fun_eq_iff)
  show ?thesis
  proof (intro conjI impI, goal_cases)
    case 1
    then have ap: "applies_db_params s r4" "\<not> is_db_create_path (req_path r4)" using app path applies_not_create by auto
    then obtain r1 a1 where r1: "enforce_db_params web (pd_policy d) r4 (pd_username d) = Inr (r1, a1)"
      and rest: "is_db_create_path (req_path r1) \<or> r5 = r1"
      using e by (auto simp: enforce_db_def and_then_Inr split: if_splits)
    have "req_path r1 = req_path r4" using r1 enforce_params_frame unfolding enforce_db_params_def by fastforce
    with rest ap r1 have "\<exists>a. enforce_db_params web (pd_policy d) r4 (pd_username d) = Inr (r5, a)" by auto
    then show ?case
      unfolding same enforce_db_params_def using enforce_params_serves [OF _ assms(2)] by fastforce
  next
    case 2
    then have "\<not> applies_db_params s r4" "is_db_create_path (req_path r4)" using app applies_not_create path by auto
    with e have "\<exists>a. enforce_db_create_params web (pd_policy d) r4 (pd_username d) = Inr (r5, a)"
      by (auto simp: enforce_db_def and_then_Inr split: if_splits)
    then show ?case
      unfolding same enforce_db_create_params_def using enforce_params_serves [OF _ assms(2)] by fastforce
  qed
qed

section \<open>The hop guard\<close>

lemma other_headers:
  "''host'' \<noteq> hop_count_header" "''x-forwarded-host'' \<noteq> hop_count_header" "''x-forwarded-proto'' \<noteq> hop_count_header"
  "''x-forwarded-for'' \<noteq> hop_count_header" "policy_token_header \<noteq> hop_count_header"
  by (simp_all add: hop_count_header_def policy_token_header_def)

lemma apply_policy_hops:
  assumes "apply_policy web lib now s r = Inr (r', d)"
  shows "hop_count web (req_headers r') = hop_count web (req_headers r)"
proof -
  have "header_get (req_headers (ingress web lib now s r)) hop_count_header = header_get (req_headers r) hop_count_header"
    using other_headers(5) by (simp add: ingress_def Let_def consume_policy_token_def split: option.split)
  then show ?thesis unfolding apply_policy_headers(1) [OF assms] hop_count_def by simp
qed

lemma build_keeps_hops:
  "header_get (build_upstream_headers web up ip oh hs) hop_count_header = header_get hs hop_count_header"
  by (simp add: build_upstream_headers_def append_forwarded_for_def Let_def other_headers split: option.split)

lemma inject_keeps_hops:
  "header_get (inject_policy_token lib now hv kind origin cx hs) hop_count_header = header_get hs hop_count_header"
  by (simp add: inject_policy_token_def Let_def other_headers split: option.split upstream_kind.split)

lemma forward_hops:
  assumes "forward web lib now hv kind up ip origin cu r = Some r'"
    and "\<forall>n. header_text web (show_nat n) = Some (show_nat n)"
  shows "hop_count web (req_headers r) < max_proxy_hops"
    "hop_count web (req_headers r') = hop_count web (req_headers r) + 1"
proof -
  let ?n = "hop_count web (req_headers r)"
  show small: "?n < max_proxy_hops" using assms(1) by (auto simp: forward_def Let_def split: if_splits)
  have "header_get (req_headers r') hop_count_header = Some (show_nat (?n + 1))"
    using assms(1) small by (auto simp: forward_def Let_def build_keeps_hops inject_keeps_hops)
  moreover have "parse_u64 (show_nat (?n + 1)) = Some (?n + 1)"
    using small by (intro parse_show_u64) (simp add: max_proxy_hops_def u64_max_def)
  ultimately show "hop_count web (req_headers r') = ?n + 1"
    using assms(2) by (simp add: hop_count_def header_to_str_def)
qed

lemma gateway_hop_counts:
  assumes "gateway_hop web lib r r'" and "\<forall>n. header_text web (show_nat n) = Some (show_nat n)"
  shows "hop_count web (req_headers r) < max_proxy_hops \<and>
    hop_count web (req_headers r') = hop_count web (req_headers r) + 1"
  using assms(1)
proof (rule gateway_hopE)
  fix now s r1 d hv kind up ip origin cu r2 endpoint
  assume r': "r' = r2\<lparr>req_endpoint := endpoint, req_context := None\<rparr>"
    and a: "apply_policy web lib now s r = Inr (r1, d)"
    and f: "forward web lib now hv kind up ip origin cu r1 = Some r2"
  show ?thesis
    using forward_hops [OF f assms(2)] apply_policy_hops [OF a] by (simp add: r')
qed

text \<open>
  C37.  Forwarding ends: whatever headers a client sends and however gateways point at each
  other or at themselves, a request is forwarded at most four times, because the policy
  layers keep the hop count, every proxy adds one to it, and none forwards a request that
  has made four.
\<close>

theorem proxy_loops_end:
  assumes "(gateway_hop web lib ^^ k) r r'" and "\<forall>n. header_text web (show_nat n) = Some (show_nat n)"
  shows "k \<le> max_proxy_hops"
proof -
  have "k = 0 \<or> hop_count web (req_headers r') = hop_count web (req_headers r) + k \<and>
      hop_count web (req_headers r) + k \<le> max_proxy_hops"
    using assms(1)
  proof (induction k arbitrary: r')
    case 0
    then show ?case by simp
  next
    case (Suc k)
    then obtain m where "(gateway_hop web lib ^^ k) r m" and "gateway_hop web lib m r'" by auto
    with Suc.IH [of m] gateway_hop_counts [OF this(2) assms(2)] show ?case by (auto simp: relpowp_0_I)
  qed
  then show ?thesis by auto
qed

section \<open>The listing\<close>

lemma set_push_new [simp]: "set (push_new xs x) = insert x (set xs)"
  by (auto simp: push_new_def list_ex_iff)

lemma distinct_push_new: "distinct xs \<Longrightarrow> distinct (push_new xs x)"
  by (auto simp: push_new_def list_ex_iff)

lemma set_foldl_push: "set (foldl (\<lambda>acc x. push_new acc (f x)) acc xs) = set acc \<union> f ` set xs"
  by (induction xs arbitrary: acc) auto

lemma distinct_foldl_push: "distinct acc \<Longrightarrow> distinct (foldl (\<lambda>acc x. push_new acc (f x)) acc xs)"
  by (induction xs arbitrary: acc) (auto simp: distinct_push_new)

text \<open>The tenant's prefix renders, and the tenant's default fits behind it.\<close>

definition tenant_fits :: "db_policy \<Rightarrow> string option \<Rightarrow> bool" where
  "tenant_fits p username \<longleftrightarrow>
     (\<forall>u t. username = Some u \<and> db_prefix_template p = Some t \<longrightarrow>
        (\<exists>prefix. render_prefix t u = Inr prefix \<and>
           (\<forall>d. db_tenant_default p = Some d \<longrightarrow> length prefix + length d \<le> max_db_name_len)))"

lemma render_prefix_safe: "render_prefix t u = Inr prefix \<Longrightarrow> is_safe_identifier prefix max_db_name_len"
  by (auto simp: render_prefix_def Let_def split: if_splits)

lemma safe_parts:
  "is_safe_identifier s n \<Longrightarrow> s = a @ b \<Longrightarrow> b \<noteq> [] \<Longrightarrow> is_safe_identifier b n"
  by (auto simp: is_safe_identifier_def)

lemma listed_names:
  assumes "db_allow p = AllowList items" and "n \<in> set (filter_db_list names p username)"
  obtains m where "n = shown_name p username m"
    and "m \<in> set names \<and> visible p username m \<or> username \<noteq> None \<and> db_tenant_default p = Some m"
proof -
  let ?f = "filter (visible p username) names"
  let ?g = "case (username, db_tenant_default p) of (Some _, Some t) \<Rightarrow> push_new ?f t | _ \<Rightarrow> ?f"
  have "n \<in> shown_name p username ` set ?g"
    using assms unfolding filter_db_list_def Let_def by (simp add: set_foldl_push)
  then obtain m where "n = shown_name p username m" "m \<in> set ?g" by blast
  then show thesis by (intro that [of m]) (auto split: option.splits)
qed

text \<open>A name that is shown is allowed, or the policy puts the user's prefix before it.\<close>

lemma shown_is_given:
  assumes valid: "validate_db_policy p = None" and allow: "db_allow p = AllowList items" and fits: "tenant_fits p username"
    and m: "m \<in> set names \<and> visible p username m \<or> username \<noteq> None \<and> db_tenant_default p = Some m"
    and n: "n = shown_name p username m" and no: "\<not> allows_value (db_allow p) n"
  shows "\<exists>u t prefix. username = Some u \<and> db_prefix_template p = Some t \<and> render_prefix t u = Inr prefix \<and>
    is_safe_identifier n max_db_name_len \<and> is_safe_identifier (prefix @ n) max_db_name_len"
proof -
  have safe_m: "is_safe_identifier m max_db_name_len" if "allows_value (db_allow p) m \<or> db_tenant_default p = Some m"
    using that validated_db_policy(3,4) [OF valid] allow by (auto simp: list_ex_iff)
  have given_template: "\<exists>u t prefix. username = Some u \<and> db_prefix_template p = Some t \<and> render_prefix t u = Inr prefix"
  proof (cases "strip_tenant_prefix m p username")
    case None
    then have "n = m" using n by (simp add: shown_name_def)
    with no m have "username \<noteq> None \<and> (db_tenant_default p = Some m \<or> db_prefix_template p \<noteq> None)"
      by (auto simp: visible_def matches_prefix_def split: option.splits if_splits)
    with validated_db_policy(4) [OF valid] fits show ?thesis by (fastforce simp: tenant_fits_def)
  next
    case (Some rest)
    then show ?thesis by (auto simp: strip_tenant_prefix_def split: option.splits sum.splits)
  qed
  then obtain u t prefix where u: "username = Some u" "db_prefix_template p = Some t" "render_prefix t u = Inr prefix"
    by blast
  note prefix = render_prefix_safe [OF u(3)]
  have "is_safe_identifier n max_db_name_len \<and> is_safe_identifier (prefix @ n) max_db_name_len"
  proof (cases "strip_tenant_prefix m p username")
    case None
    then have nm: "n = m" using n by (simp add: shown_name_def)
    have "\<not> matches_prefix (Some t) u m"
      using None u by (auto simp: strip_tenant_prefix_def matches_prefix_def Let_def split: if_splits)
    with m no nm u have d: "db_tenant_default p = Some m" by (auto simp: visible_def)
    with fits u have "length prefix + length m \<le> max_db_name_len" by (auto simp: tenant_fits_def)
    with safe_m d prefix nm show ?thesis by (simp add: is_safe_append) (simp add: is_safe_identifier_def)
  next
    case (Some rest)
    then have r: "n = rest" "m = prefix @ rest" "is_safe_identifier rest max_db_name_len"
      using n u starts_with_drop [of m prefix]
      by (auto simp: shown_name_def strip_tenant_prefix_def Let_def split: if_splits)
    have "length m \<le> max_db_name_len"
    proof (cases "allows_value (db_allow p) m \<or> db_tenant_default p = Some m")
      case True
      then show ?thesis using safe_m by (simp add: is_safe_identifier_def)
    next
      case False
      with m u have "matches_prefix (Some t) u m" by (auto simp: visible_def)
      with u show ?thesis by (auto simp: matches_prefix_def split: if_splits)
    qed
    with r prefix show ?thesis by (simp add: is_safe_append) (simp add: is_safe_identifier_def)
  qed
  with u show ?thesis by blast
qed

text \<open>
  The listing and the enforcement agree: with a database rule that passed its checks at
  load and a tenant whose prefix fits, the names that \<open>/api/db\<close> shows a user are distinct, and
  every one of them, sent back as a parameter, resolves to a database: itself when it is
  allowed, otherwise the one under the user's own prefix.
\<close>

theorem listed_databases_resolve:
  assumes "validate_db_policy p = None" and "db_allow p = AllowList items" and "tenant_fits p username"
  shows "distinct (filter_db_list names p username) \<and>
    (\<forall>n \<in> set (filter_db_list names p username).
       if allows_value (db_allow p) n
       then resolve_db_param (Some n) (db_default p) p username = Inr (n, Unchanged)
       else \<exists>u t prefix. username = Some u \<and> db_prefix_template p = Some t \<and> render_prefix t u = Inr prefix \<and>
         resolve_db_param (Some n) (db_default p) p username = Inr (prefix @ n, Rewritten))"
proof (intro conjI ballI)
  show "distinct (filter_db_list names p username)"
    using assms(2) by (simp add: filter_db_list_def Let_def distinct_foldl_push)
next
  fix n
  assume n: "n \<in> set (filter_db_list names p username)"
  obtain m where m: "n = shown_name p username m"
    "m \<in> set names \<and> visible p username m \<or> username \<noteq> None \<and> db_tenant_default p = Some m"
    by (rule listed_names [OF assms(2) n])
  show "if allows_value (db_allow p) n
       then resolve_db_param (Some n) (db_default p) p username = Inr (n, Unchanged)
       else \<exists>u t prefix. username = Some u \<and> db_prefix_template p = Some t \<and> render_prefix t u = Inr prefix \<and>
         resolve_db_param (Some n) (db_default p) p username = Inr (prefix @ n, Rewritten)"
  proof (cases "allows_value (db_allow p) n")
    case True
    then have "is_safe_identifier n max_db_name_len"
      using validated_db_policy(3) [OF assms(1,2)] assms(2) by (auto simp: list_ex_iff)
    with True show ?thesis by (simp add: resolve_db_param_def resolve_given_def)
  next
    case False
    from shown_is_given [OF assms m(2,1) False] False show ?thesis
      by (auto simp: resolve_db_param_def resolve_given_def)
  qed
qed

section \<open>A gateway with one policy\<close>

text \<open>A form codec: every character is marked, so that no separator is needed.\<close>

definition put_text :: "string \<Rightarrow> string" where
  "put_text s = concat (map (\<lambda>c. [CHR ''c'', c]) s) @ ''.''"

fun get_text :: "string \<Rightarrow> string \<times> string" where
  "get_text [] = ([], [])"
| "get_text (m # s) =
     (if m = CHR ''c'' then (case s of [] \<Rightarrow> ([], []) | c # r \<Rightarrow> (c # fst (get_text r), snd (get_text r))) else ([], s))"

fun get_pairs :: "nat \<Rightarrow> string \<Rightarrow> (string \<times> string) list" where
  "get_pairs 0 s = []"
| "get_pairs (Suc n) s =
     (if s = [] then []
      else let (k, r) = get_text s; (v, r') = get_text r in (k, v) # get_pairs n r')"

definition put_pairs :: "(string \<times> string) list \<Rightarrow> string" where
  "put_pairs ps = concat (map (\<lambda>(k, v). put_text k @ put_text v) ps)"

definition plain_web :: web where
  "plain_web = \<lparr>header_text = Some, parse_form = (\<lambda>s. get_pairs (length s) s), write_form = put_pairs,
     uri_accepts = (\<lambda>_. True), sha256 = (\<lambda>_. replicate 32 0)\<rparr>"

lemma get_put_text [simp]: "get_text (put_text s @ r) = (s, r)"
  by (induction s) (simp_all add: put_text_def)

lemma put_text_not_nil [simp]: "put_text s \<noteq> []"
  by (simp add: put_text_def)

lemma get_put_pairs: "length ps \<le> n \<Longrightarrow> get_pairs n (put_pairs ps) = ps"
proof (induction ps arbitrary: n)
  case Nil
  then show ?case by (cases n) (simp_all add: put_pairs_def)
next
  case (Cons kv ps)
  obtain k v where kv: "kv = (k, v)" by (cases kv)
  obtain m where n: "n = Suc m" "length ps \<le> m" using Cons.prems by (cases n) auto
  have "put_pairs (kv # ps) = put_text k @ put_text v @ put_pairs ps" by (simp add: put_pairs_def kv)
  with Cons.IH [OF n(2)] show ?case by (simp add: n(1) kv)
qed

lemma put_pairs_length: "length ps \<le> length (put_pairs ps)"
proof (induction ps)
  case (Cons kv ps)
  have "1 \<le> length (put_text (fst kv))" by (simp add: put_text_def)
  with Cons show ?case by (cases kv) (simp add: put_pairs_def)
qed (simp add: put_pairs_def)

lemma plain_codec: "form_codec plain_web"
proof -
  have "put_pairs ps \<noteq> []" if "ps \<noteq> []" for ps using that put_pairs_length [of ps] by auto
  then show ?thesis by (simp add: form_codec_def plain_web_def get_put_pairs put_pairs_length)
qed

definition demo_db :: db_policy where
  "demo_db = \<lparr>db_default = ''default'', db_allow = AllowList [''default''], db_tenant_default = None,
     db_prefix_template = Some ''u_{username}_''\<rparr>"

definition demo_policy :: policy_config where
  "demo_policy = \<lparr>pc_name = ''local'', pc_ruleset = None, pc_match = \<lparr>pm_hosts = [''*''], pm_endpoints = []\<rparr>,
     pc_index_db = demo_db, pc_user_data_db = demo_db, pc_user_header = None, pc_search_cache = True, pc_client = []\<rparr>"

definition demo_settings :: settings where
  "demo_settings = \<lparr>st_policies = [demo_policy], st_rulesets = [], st_endpoints = [], st_trust_forwarded = False,
     st_api_local = True\<rparr>"

definition demo_request :: request where
  "demo_request = \<lparr>req_method = ''GET'', req_path = ''/api/tags'', req_query = None,
     req_headers = [(''host'', ''localhost''), (''x-panoptikon-hops'', ''0'')], req_endpoint = None, req_context = None\<rparr>"

lemma demo_ingress: "ingress plain_web plain_lib 0 demo_settings demo_request = demo_request"
  by (simp add: ingress_def consume_policy_token_def Let_def demo_request_def header_get_def policy_token_header_def
      strip_inbound_panoptikon_headers_def hop_count_header_def starts_with_def)

lemma demo_token: "consume_policy_token plain_web plain_lib 0 demo_settings demo_request = (demo_request, None)"
  by (simp add: consume_policy_token_def demo_request_def header_get_def policy_token_header_def)

lemma demo_choice: "choose_policy plain_web demo_settings demo_request None = Inr (demo_policy, ListenerHost)"
  by (simp add: choose_policy_def select_policy_def demo_settings_def demo_policy_def policy_matches_def
      resolve_effective_host_def header_to_str_def header_get_def demo_request_def plain_web_def host_matches_def Let_def)

lemma demo_admit: "admit demo_settings demo_policy demo_request = Inr ()"
  by (simp add: admit_def demo_request_def demo_policy_def ruleset_allows_def starts_with_def)

lemma demo_paths:
  "\<not> is_inference_path ''/api/tags''" "\<not> is_db_info_path ''/api/tags''" "\<not> is_db_create_path ''/api/tags''"
  "applies_db_params demo_settings demo_request"
  by (simp_all add: is_inference_path_def is_db_info_path_def is_db_create_path_def applies_db_params_def
      is_client_config_def is_client_config_path_def is_relay_bootstrap_def is_api_surface_def needs_db_params_def
      demo_settings_def demo_request_def starts_with_def)

lemma demo_resolve: "resolve_db_param None ''default'' demo_db None = Inr (''default'', Injected)"
  by (simp add: resolve_db_param_def resolve_missing_def demo_db_def is_safe_identifier_def is_safe_char_def
      max_db_name_len_def Let_def)

lemma demo_enforce:
  "\<exists>r. enforce_db plain_web demo_settings demo_policy None demo_request = Inr (r, Injected)"
proof -
  have dbs: "pc_index_db demo_policy = demo_db" "pc_user_data_db demo_policy = demo_db" "db_default demo_db = ''default''"
    by (simp_all add: demo_policy_def demo_db_def)
  have q: "query_pairs plain_web demo_request = []" by (simp add: query_pairs_def demo_request_def)
  have "\<exists>r. set_query plain_web demo_request x = Inr r" for x
    by (simp add: set_query_def plain_web_def Let_def)
  then obtain r where r: "set_query plain_web demo_request
      (build_query plain_web [(''index_db'', ''default''), (''user_data_db'', ''default'')]) = Inr r" by blast
  have "enforce_db_params plain_web demo_policy demo_request None = Inr (r, Injected)"
    by (simp add: enforce_db_params_def enforce_params_def q dbs first_value_def retain_def demo_resolve r)
  moreover have "req_path r = ''/api/tags''" using set_query_Inr [OF r] by (simp add: demo_request_def)
  ultimately show ?thesis by (simp add: enforce_db_def demo_paths)
qed

lemma demo_admitted:
  "\<exists>r d. apply_policy plain_web plain_lib 0 demo_settings demo_request = Inr (r, d) \<and>
     pd_policy d = demo_policy \<and> pd_username d = None"
proof -
  have ing: "demo_request\<lparr>req_headers := strip_inbound_panoptikon_headers (req_headers demo_request)\<rparr> = demo_request"
    using demo_ingress by (simp add: ingress_def demo_token)
  have path: "req_path demo_request = ''/api/tags''" by (simp add: demo_request_def)
  have user: "extract_username plain_web demo_policy demo_request = Inr None"
    by (simp add: extract_username_def demo_policy_def)
  obtain r where "enforce_db plain_web demo_settings demo_policy None demo_request = Inr (r, Injected)"
    using demo_enforce by blast
  then show ?thesis
    by (simp add: apply_policy_def demo_token ing demo_choice demo_admit user path strip_if_def demo_paths)
qed

theorem admitted_request_is_authorized_witness:
  "\<exists>r d. apply_policy plain_web plain_lib 0 demo_settings demo_request = Inr (r, d) \<and>
     justified plain_web plain_lib 0 demo_settings demo_request demo_policy (pd_selected_by d)"
proof -
  obtain r d where a: "apply_policy plain_web plain_lib 0 demo_settings demo_request = Inr (r, d)"
    and p: "pd_policy d = demo_policy"
    using demo_admitted by blast
  from admitted_request_is_authorized [OF a] a p show ?thesis by metis
qed

theorem enforced_databases_are_permitted_witness:
  "\<exists>r d. apply_policy plain_web plain_lib 0 demo_settings demo_request = Inr (r, d) \<and>
     values_of plain_web r ''index_db'' = [''default'']"
proof -
  obtain r d where a: "apply_policy plain_web plain_lib 0 demo_settings demo_request = Inr (r, d)"
    and p: "pd_policy d = demo_policy" "pd_username d = None"
    using demo_admitted by blast
  from enforced_databases_are_permitted [OF a plain_codec] demo_paths(4) p a show ?thesis
    by (auto simp: permitted_def demo_policy_def demo_db_def)
qed

theorem proxy_loops_end_witness:
  "\<exists>r. (gateway_hop plain_web plain_lib ^^ 1) demo_request r \<and> 1 \<le> max_proxy_hops"
proof -
  obtain r1 d where a: "apply_policy plain_web plain_lib 0 demo_settings demo_request = Inr (r1, d)"
    using demo_admitted by blast
  have "hop_count plain_web (req_headers demo_request) = 0"
    by (simp add: hop_count_def header_to_str_def header_get_def demo_request_def hop_count_header_def plain_web_def
        parse_u64_def starts_with_def digit_value_def Let_def)
  then have "hop_count plain_web (req_headers r1) = 0" using apply_policy_hops [OF a] by simp
  then have "\<exists>r2. forward plain_web plain_lib 0 (\<lambda>_. True) UpstreamApi \<lparr>up_authority = None, up_scheme = None\<rparr>
      ''1.1.1.1'' ''http://localhost'' False r1 = Some r2"
    by (simp add: forward_def Let_def max_proxy_hops_def)
  then obtain r2 where "gateway_hop plain_web plain_lib demo_request r2" using gateway_hop.hop [OF a] by blast
  then have hop: "(gateway_hop plain_web plain_lib ^^ 1) demo_request r2" by auto
  have "\<forall>n. header_text plain_web (show_nat n) = Some (show_nat n)" by (simp add: plain_web_def)
  from proxy_loops_end [OF hop this] hop show ?thesis by blast
qed

theorem listed_databases_resolve_witness:
  "filter_db_list [''default'', ''u_a_x'', ''u_b_y''] demo_db (Some ''a'') = [''default'', ''x''] \<and>
   resolve_db_param (Some ''x'') ''default'' demo_db (Some ''a'') = Inr (''u_a_x'', Rewritten)"
proof -
  have render: "render_prefix ''u_{username}_'' ''a'' = Inr ''u_a_''"
    by (simp add: render_prefix_def starts_with_def is_safe_identifier_def is_safe_char_def max_db_name_len_def Let_def)
  have valid: "validate_db_policy demo_db = None"
    by (simp add: validate_db_policy_def validate_allow_list_def validate_tenant_default_def validate_prefix_template_def
        demo_db_def starts_with_def is_safe_identifier_def is_safe_char_def max_db_name_len_def Let_def)
  have fits: "tenant_fits demo_db (Some ''a'')" by (simp add: tenant_fits_def demo_db_def render)
  have listed: "filter_db_list [''default'', ''u_a_x'', ''u_b_y''] demo_db (Some ''a'') = [''default'', ''x'']"
    by (simp add: filter_db_list_def demo_db_def visible_def matches_prefix_def shown_name_def strip_tenant_prefix_def
        render push_new_def starts_with_def is_safe_identifier_def is_safe_char_def max_db_name_len_def Let_def)
  have "db_allow demo_db = AllowList [''default'']" by (simp add: demo_db_def)
  from listed_databases_resolve [OF valid this fits, of "[''default'', ''u_a_x'', ''u_b_y'']"] listed render
  show ?thesis by (auto simp: demo_db_def)
qed

section \<open>Limits of the tenant rules\<close>

text \<open>
  Two users whose names and database names split a prefix differently reach the same
  database.
\<close>

lemma tenant_prefixes_collide:
  "resolve_given demo_db ''b_x'' (Some ''a'') = Inr (''u_a_b_x'', Rewritten)"
  "resolve_given demo_db ''x'' (Some ''a_b'') = Inr (''u_a_b_x'', Rewritten)"
  by (simp_all add: resolve_given_def demo_db_def render_prefix_def starts_with_def is_safe_identifier_def
      is_safe_char_def max_db_name_len_def Let_def)

end
