(* ===== verification/TranscodePool.thy ===== *)
theory TranscodePool
  imports Prelude
begin

text \<open>
  The transcode worker pool (\<open>panoptikon/src/media_tools/transcode/pool.rs\<close>): one actor with a
  FIFO queue, a join map by cache key, the running encodes and a ring of finished jobs.  A job
  is a request \<open>'r\<close>, its artifact an \<open>'a\<close>; the encode and the artifact cache are outside, so
  a message that depends on them carries what they answered.  Job ids are numbers.
\<close>

section \<open>State\<close>

datatype job_weight = Light | Exclusive

datatype 'a job_event =
    EvQueued nat
  | EvRunning "nat option"
  | EvDone 'a
  | EvFailed string bool

fun is_terminal :: "'a job_event \<Rightarrow> bool" where
  "is_terminal (EvDone a) = True"
| "is_terminal (EvFailed e c) = True"
| "is_terminal _ = False"

record ('r, 'a) job_entry =
  je_key :: string
  je_weight :: job_weight
  je_cancel :: bool
  je_event :: "'a job_event"
  je_pending :: "'r option"

text \<open>
  \<open>pl_tasks\<close> are the spawned encodes that have not reported back, \<open>pl_issued\<close> all job ids
  handed out, \<open>pl_replied\<close> whether the shutdown was answered.
\<close>

record ('r, 'a) pool_state =
  pl_max_concurrent :: nat
  pl_terminal_ttl :: nat
  pl_terminal_capacity :: nat
  pl_queued :: "nat list"
  pl_jobs :: "nat \<Rightarrow> ('r, 'a) job_entry option"
  pl_by_key :: "string \<Rightarrow> nat option"
  pl_terminal :: "(nat \<times> nat) list"
  pl_running :: nat
  pl_exclusive_running :: bool
  pl_shutting_down :: bool
  pl_drained :: bool
  pl_tasks :: "nat list"
  pl_issued :: "nat list"
  pl_replied :: bool

definition pre_start :: "nat \<Rightarrow> nat \<Rightarrow> nat \<Rightarrow> ('r, 'a) pool_state" where
  "pre_start max_concurrent ttl capacity =
     \<lparr>pl_max_concurrent = max max_concurrent 1, pl_terminal_ttl = ttl, pl_terminal_capacity = capacity,
      pl_queued = [], pl_jobs = (\<lambda>_. None), pl_by_key = (\<lambda>_. None), pl_terminal = [], pl_running = 0,
      pl_exclusive_running = False, pl_shutting_down = False, pl_drained = False, pl_tasks = [], pl_issued = [],
      pl_replied = False\<rparr>"

type_synonym 'a job_snapshot = "nat \<times> 'a job_event"

definition snapshot_of :: "('r, 'a) pool_state \<Rightarrow> nat \<Rightarrow> 'a job_snapshot option" where
  "snapshot_of st i = map_option (\<lambda>e. (i, je_event e)) (pl_jobs st i)"

definition publish_event :: "nat \<Rightarrow> 'a job_event \<Rightarrow> ('r, 'a) pool_state \<Rightarrow> ('r, 'a) pool_state" where
  "publish_event i ev st =
     (case pl_jobs st i of
        None \<Rightarrow> st
      | Some e \<Rightarrow> st\<lparr>pl_jobs := (pl_jobs st)(i \<mapsto> e\<lparr>je_event := ev\<rparr>)\<rparr>)"

section \<open>Finished jobs\<close>

fun prune_loop ::
  "nat \<Rightarrow> nat \<Rightarrow> nat \<Rightarrow> (nat \<times> nat) list \<Rightarrow> (nat \<Rightarrow> ('r, 'a) job_entry option) \<Rightarrow>
     (nat \<times> nat) list \<times> (nat \<Rightarrow> ('r, 'a) job_entry option)" where
  "prune_loop now ttl capacity [] jobs = ([], jobs)"
| "prune_loop now ttl capacity ((i, finished_at) # rest) jobs =
     (let expired = now - finished_at \<ge> ttl in
      if \<not> expired \<and> length ((i, finished_at) # rest) \<le> capacity then ((i, finished_at) # rest, jobs)
      else prune_loop now ttl capacity rest (jobs(i := None)))"

definition prune_terminal :: "nat \<Rightarrow> ('r, 'a) pool_state \<Rightarrow> ('r, 'a) pool_state" where
  "prune_terminal now st =
     (case prune_loop now (pl_terminal_ttl st) (pl_terminal_capacity st) (pl_terminal st) (pl_jobs st) of
        (terminal, jobs) \<Rightarrow> st\<lparr>pl_terminal := terminal, pl_jobs := jobs\<rparr>)"

definition release_key :: "string \<Rightarrow> nat \<Rightarrow> ('r, 'a) pool_state \<Rightarrow> ('r, 'a) pool_state" where
  "release_key key i st = (if pl_by_key st key = Some i then st\<lparr>pl_by_key := (pl_by_key st)(key := None)\<rparr> else st)"

definition retire :: "nat \<Rightarrow> nat \<Rightarrow> ('r, 'a) pool_state \<Rightarrow> ('r, 'a) pool_state" where
  "retire now i st = prune_terminal now (st\<lparr>pl_terminal := pl_terminal st @ [(i, now)]\<rparr>)"

text \<open>A job that ends without having run: event, key, ring.\<close>

definition settle :: "nat \<Rightarrow> nat \<Rightarrow> 'a job_event \<Rightarrow> ('r, 'a) pool_state \<Rightarrow> ('r, 'a) pool_state" where
  "settle now i ev st =
     (case pl_jobs st i of
        None \<Rightarrow> st
      | Some e \<Rightarrow> retire now i (release_key (je_key e) i (publish_event i ev st)))"

definition insert_terminal_job ::
  "nat \<Rightarrow> nat \<Rightarrow> string \<Rightarrow> 'a job_event \<Rightarrow> ('r, 'a) pool_state \<Rightarrow> ('r, 'a) pool_state \<times> 'a job_snapshot" where
  "insert_terminal_job now i key ev st =
     (let e = \<lparr>je_key = key, je_weight = Light, je_cancel = False, je_event = ev, je_pending = None\<rparr> in
      (retire now i (st\<lparr>pl_jobs := (pl_jobs st)(i \<mapsto> e), pl_issued := pl_issued st @ [i]\<rparr>), (i, ev)))"

section \<open>Dispatch\<close>

definition start_job :: "nat \<Rightarrow> ('r, 'a) pool_state \<Rightarrow> ('r, 'a) pool_state option" where
  "start_job i st =
     (case pl_jobs st i of
        None \<Rightarrow> None
      | Some e \<Rightarrow>
          (case je_pending e of
             None \<Rightarrow> None
           | Some req \<Rightarrow>
               Some (st\<lparr>pl_jobs := (pl_jobs st)(i \<mapsto> e\<lparr>je_pending := None, je_event := EvRunning None\<rparr>),
                        pl_tasks := pl_tasks st @ [i]\<rparr>)))"

definition fail_undispatchable :: "nat \<Rightarrow> nat \<Rightarrow> ('r, 'a) pool_state \<Rightarrow> ('r, 'a) pool_state" where
  "fail_undispatchable now i st = settle now i (EvFailed ''job vanished before dispatch'' False) st"

lemma pl_queued_settle [simp]: "pl_queued (settle now i ev st) = pl_queued st"
  by (auto simp: settle_def retire_def prune_terminal_def release_key_def publish_event_def
      split: option.split prod.split)

function dispatch_loop :: "nat \<Rightarrow> ('r, 'a) pool_state \<Rightarrow> ('r, 'a) pool_state" where
  "dispatch_loop now st =
     (if pl_shutting_down st \<or> \<not> pl_running st < pl_max_concurrent st \<or> pl_exclusive_running st then st
      else case pl_queued st of
        [] \<Rightarrow> st
      | i # rest \<Rightarrow>
          (let weight = map_option je_weight (pl_jobs st i) in
           if weight = Some Exclusive \<and> pl_running st > 0 then st
           else (case start_job i (st\<lparr>pl_queued := rest\<rparr>) of
             None \<Rightarrow> dispatch_loop now (fail_undispatchable now i (st\<lparr>pl_queued := rest\<rparr>))
           | Some st1 \<Rightarrow>
               dispatch_loop now
                 (st1\<lparr>pl_running := pl_running st1 + 1,
                      pl_exclusive_running := (weight = Some Exclusive) \<or> pl_exclusive_running st1\<rparr>))))"
  by pat_completeness auto

termination dispatch_loop
  by (relation "measure (\<lambda>(_, st). length (pl_queued st))")
    (auto simp: fail_undispatchable_def start_job_def split: option.splits)

declare dispatch_loop.simps [simp del]

definition rebroadcast_positions :: "('r, 'a) pool_state \<Rightarrow> ('r, 'a) pool_state" where
  "rebroadcast_positions st =
     foldl (\<lambda>s (index, i).
       (case pl_jobs s i of
          None \<Rightarrow> s
        | Some e \<Rightarrow> if je_event e = EvQueued (index + 1) then s else publish_event i (EvQueued (index + 1)) s))
       st (enumerate 0 (pl_queued st))"

definition dispatch :: "nat \<Rightarrow> ('r, 'a) pool_state \<Rightarrow> ('r, 'a) pool_state" where
  "dispatch now st = rebroadcast_positions (dispatch_loop now st)"

section \<open>Messages\<close>

datatype 'a submit_outcome =
    Hit 'a
  | Created "'a job_snapshot"
  | Joined "'a job_snapshot"
  | KnownFailure "'a job_snapshot"

record 'r submit_request =
  sr_key :: string
  sr_weight :: job_weight
  sr_job :: 'r

text \<open>\<open>hit\<close> and \<open>failure\<close> are the answers of the artifact cache for the key; \<open>i\<close> is the new id.\<close>

definition submit_job ::
  "nat \<Rightarrow> nat \<Rightarrow> 'r submit_request \<Rightarrow> 'a option \<Rightarrow> string option \<Rightarrow> ('r, 'a) pool_state \<Rightarrow>
     ('r, 'a) pool_state \<times> 'a submit_outcome" where
  "submit_job now i r hit failure st =
     (case hit of
        Some a \<Rightarrow> (st, Hit a)
      | None \<Rightarrow>
          (case Option.bind (pl_by_key st (sr_key r)) (snapshot_of st) of
             Some snap \<Rightarrow> (st, Joined snap)
           | None \<Rightarrow>
               if pl_shutting_down st then
                 (case insert_terminal_job now i (sr_key r) (EvFailed ''server is shutting down'' True) st of
                    (st1, snap) \<Rightarrow> (st1, KnownFailure snap))
               else (case failure of
                 Some err \<Rightarrow>
                   (case insert_terminal_job now i (sr_key r) (EvFailed err False) st of
                      (st1, snap) \<Rightarrow> (st1, KnownFailure snap))
               | None \<Rightarrow>
                   (let position = length (pl_queued st) + 1;
                        e = \<lparr>je_key = sr_key r, je_weight = sr_weight r, je_cancel = False,
                             je_event = EvQueued position, je_pending = Some (sr_job r)\<rparr>;
                        st1 = dispatch now (st\<lparr>pl_jobs := (pl_jobs st)(i \<mapsto> e),
                                pl_by_key := (pl_by_key st)(sr_key r \<mapsto> i),
                                pl_queued := pl_queued st @ [i], pl_issued := pl_issued st @ [i]\<rparr>)
                    in (st1, Created (case snapshot_of st1 i of Some snap \<Rightarrow> snap | None \<Rightarrow> (i, EvQueued position)))))))"

definition report_progress :: "nat \<Rightarrow> nat option \<Rightarrow> ('r, 'a) pool_state \<Rightarrow> ('r, 'a) pool_state" where
  "report_progress i progress st =
     (case pl_jobs st i of
        None \<Rightarrow> st
      | Some e \<Rightarrow> if \<not> is_terminal (je_event e) then publish_event i (EvRunning progress) st else st)"

datatype 'a job_outcome = Done 'a | Failed string bool

fun outcome_event :: "'a job_outcome \<Rightarrow> 'a job_event" where
  "outcome_event (Done a) = EvDone a"
| "outcome_event (Failed e c) = EvFailed e c"

text \<open>The report of an encode; the task is gone with it.\<close>

definition finish_job :: "nat \<Rightarrow> nat \<Rightarrow> 'a job_outcome \<Rightarrow> ('r, 'a) pool_state \<Rightarrow> ('r, 'a) pool_state" where
  "finish_job now i out st0 =
     (let st = st0\<lparr>pl_tasks := remove1 i (pl_tasks st0)\<rparr> in
      case pl_jobs st i of
        None \<Rightarrow> st
      | Some e \<Rightarrow>
          (let st1 = release_key (je_key e) i (publish_event i (outcome_event out) st);
               st2 = (if je_weight e = Exclusive then st1\<lparr>pl_exclusive_running := False\<rparr> else st1);
               st3 = retire now i (st2\<lparr>pl_running := pl_running st2 - 1\<rparr>);
               st4 = (if pl_running st3 = 0 \<and> pl_drained st3
                      then st3\<lparr>pl_drained := False, pl_replied := True\<rparr> else st3)
           in dispatch now st4))"

definition cancel_job :: "nat \<Rightarrow> nat \<Rightarrow> ('r, 'a) pool_state \<Rightarrow> ('r, 'a) pool_state \<times> bool" where
  "cancel_job now i st =
     (case pl_jobs st i of
        None \<Rightarrow> (st, False)
      | Some e \<Rightarrow>
          if is_terminal (je_event e) then (st, False)
          else (let st1 = release_key (je_key e) i (st\<lparr>pl_jobs := (pl_jobs st)(i \<mapsto> e\<lparr>je_cancel := True\<rparr>)\<rparr>) in
            if i \<in> set (pl_queued st1)
            then (rebroadcast_positions (retire now i (publish_event i (EvFailed ''cancelled'' True)
                    (st1\<lparr>pl_queued := remove1 i (pl_queued st1)\<rparr>))), True)
            else (st1, True)))"

definition shutdown_pool :: "nat \<Rightarrow> ('r, 'a) pool_state \<Rightarrow> ('r, 'a) pool_state" where
  "shutdown_pool now st =
     (let st1 = foldl (\<lambda>s i. settle now i (EvFailed ''server is shutting down'' True) s)
                  (st\<lparr>pl_shutting_down := True, pl_queued := []\<rparr>) (pl_queued st);
          st2 = st1\<lparr>pl_jobs := (\<lambda>i. map_option (\<lambda>e. e\<lparr>je_cancel := True\<rparr>) (pl_jobs st1 i))\<rparr>
      in if pl_running st2 = 0 then st2\<lparr>pl_replied := True\<rparr> else st2\<lparr>pl_drained := True\<rparr>)"

definition job_for_key :: "('r, 'a) pool_state \<Rightarrow> string \<Rightarrow> 'a job_snapshot option" where
  "job_for_key st key = Option.bind (pl_by_key st key) (snapshot_of st)"

section \<open>One encode\<close>

text \<open>How the encode ended, and how storing its artifact did.\<close>

datatype encode_result = EncodeOk | EncodeCancelled | EncodeSpawn string | EncodeFailed string | EncodePanicked string

text \<open>
  The outcome of a job and the failure recorded for its key, if any: only ffmpeg's own
  refusal of a single file is a verdict.
\<close>

definition run_one ::
  "bool \<Rightarrow> encode_result \<Rightarrow> string + 'a \<Rightarrow> 'a job_outcome \<times> string option" where
  "run_one records_failures encoded commit =
     (case encoded of
        EncodeOk \<Rightarrow>
          (case commit of
             Inr a \<Rightarrow> (Done a, None)
           | Inl err \<Rightarrow> (Failed (''failed to store the encoded artifact: '' @ err) False, None))
      | EncodeCancelled \<Rightarrow> (Failed ''cancelled'' True, None)
      | EncodeSpawn detail \<Rightarrow> (Failed detail False, None)
      | EncodeFailed detail \<Rightarrow> (Failed detail False, if records_failures then Some detail else None)
      | EncodePanicked err \<Rightarrow> (Failed (''the transcode task failed: '' @ err) False, None))"

section \<open>Runs\<close>

text \<open>An encode reports once; a progress report comes from an encode, late or not.\<close>

inductive pool_step :: "('r, 'a) pool_state \<Rightarrow> ('r, 'a) pool_state \<Rightarrow> bool" where
  submit: "i \<notin> set (pl_issued st) \<Longrightarrow> pool_step st (fst (submit_job now i r hit failure st))"
| cancel: "pool_step st (fst (cancel_job now i st))"
| progress: "i \<notin> set (pl_queued st) \<Longrightarrow> pool_step st (report_progress i p st)"
| finished: "i \<in> set (pl_tasks st) \<Longrightarrow> pool_step st (finish_job now i out st)"
| shutdown: "pool_step st (shutdown_pool now st)"

inductive pool_reachable :: "('r, 'a) pool_state \<Rightarrow> bool" where
  started: "pool_reachable (pre_start max_concurrent ttl capacity)"
| stepped: "pool_reachable st \<Longrightarrow> pool_step st st' \<Longrightarrow> pool_reachable st'"

end
