(* ===== verification/PoolInv.thy ===== *)
theory PoolInv
  imports TranscodePool
begin

text \<open>
  The invariant of the transcode pool: which lists a job is in and what its entry looks like
  there, the join map, the slots, the published positions, the shutdown reply; and that every
  message keeps it.
\<close>

section \<open>The invariant\<close>

text \<open>
  Inside a handler a job may be between the lists: \<open>limbo\<close> holds it.  The parts: which
  lists a job is in, what its entry looks like there, the join map, and the slots.
\<close>

definition all_ids :: "nat list \<Rightarrow> ('r, 'a) pool_state \<Rightarrow> nat list" where
  "all_ids limbo st = limbo @ pl_queued st @ pl_tasks st @ map fst (pl_terminal st)"

definition waiting_entry :: "('r, 'a) job_entry \<Rightarrow> bool" where
  "waiting_entry e \<longleftrightarrow> (\<exists>n. je_event e = EvQueued n) \<and> je_pending e \<noteq> None \<and> \<not> je_cancel e"

definition running_entry :: "('r, 'a) job_entry \<Rightarrow> bool" where
  "running_entry e \<longleftrightarrow> (\<exists>p. je_event e = EvRunning p) \<and> je_pending e = None"

definition entries_are :: "(('r, 'a) job_entry \<Rightarrow> bool) \<Rightarrow> ('r, 'a) pool_state \<Rightarrow> nat list \<Rightarrow> bool" where
  "entries_are P st js = list_all (\<lambda>i. \<exists>e. pl_jobs st i = Some e \<and> P e) js"

definition lists_ok :: "nat list \<Rightarrow> ('r, 'a) pool_state \<Rightarrow> bool" where
  "lists_ok limbo st \<longleftrightarrow>
     distinct (all_ids limbo st) \<and> dom (pl_jobs st) = set (all_ids limbo st) \<and>
     set (all_ids limbo st) \<subseteq> set (pl_issued st)"

definition entries_ok :: "('r, 'a) pool_state \<Rightarrow> bool" where
  "entries_ok st \<longleftrightarrow>
     entries_are waiting_entry st (pl_queued st) \<and> entries_are running_entry st (pl_tasks st) \<and>
     entries_are (\<lambda>e. is_terminal (je_event e)) st (map fst (pl_terminal st))"

definition keys_ok :: "nat list \<Rightarrow> ('r, 'a) pool_state \<Rightarrow> bool" where
  "keys_ok limbo st \<longleftrightarrow>
     (\<forall>k i. pl_by_key st k = Some i \<longrightarrow>
        i \<in> set (limbo @ pl_queued st @ pl_tasks st) \<and> (\<exists>e. pl_jobs st i = Some e \<and> je_key e = k)) \<and>
     (\<forall>i \<in> set (pl_queued st @ pl_tasks st). \<forall>e. pl_jobs st i = Some e \<longrightarrow> \<not> je_cancel e \<longrightarrow>
        pl_by_key st (je_key e) = Some i)"

definition exclusive_job :: "('r, 'a) pool_state \<Rightarrow> nat \<Rightarrow> bool" where
  "exclusive_job st i \<longleftrightarrow> map_option je_weight (pl_jobs st i) = Some Exclusive"

definition slots_ok :: "('r, 'a) pool_state \<Rightarrow> bool" where
  "slots_ok st \<longleftrightarrow>
     pl_running st = length (pl_tasks st) \<and> pl_running st \<le> pl_max_concurrent st \<and> 1 \<le> pl_max_concurrent st \<and>
     (pl_exclusive_running st \<longleftrightarrow> (\<exists>i \<in> set (pl_tasks st). exclusive_job st i)) \<and>
     (pl_exclusive_running st \<longrightarrow> pl_running st = 1) \<and>
     (pl_shutting_down st \<longrightarrow> pl_queued st = [])"

definition pool_core :: "nat list \<Rightarrow> ('r, 'a) pool_state \<Rightarrow> bool" where
  "pool_core limbo st \<longleftrightarrow> lists_ok limbo st \<and> entries_ok st \<and> keys_ok limbo st \<and> slots_ok st"

lemmas pool_parts = pool_core_def lists_ok_def entries_ok_def keys_ok_def slots_ok_def

lemma entries_are_cong:
  "entries_are P st js \<Longrightarrow> (\<And>i. i \<in> set js \<Longrightarrow> pl_jobs st' i = pl_jobs st i) \<Longrightarrow> entries_are P st' js"
  by (simp add: entries_are_def list_all_iff)

lemma entries_areD: "entries_are P st js \<Longrightarrow> i \<in> set js \<Longrightarrow> \<exists>e. pl_jobs st i = Some e \<and> P e"
  by (simp add: entries_are_def list_all_iff)

lemma keys_okI:
  assumes "\<And>k i. pl_by_key st k = Some i \<Longrightarrow> i \<in> set (limbo @ pl_queued st @ pl_tasks st)"
    and "\<And>k i. pl_by_key st k = Some i \<Longrightarrow> \<exists>e. pl_jobs st i = Some e \<and> je_key e = k"
    and "\<And>i e. i \<in> set (pl_queued st @ pl_tasks st) \<Longrightarrow> pl_jobs st i = Some e \<Longrightarrow> \<not> je_cancel e \<Longrightarrow>
      pl_by_key st (je_key e) = Some i"
  shows "keys_ok limbo st"
  using assms unfolding keys_ok_def by blast

lemma keys_okD:
  assumes "keys_ok limbo st"
  shows "pl_by_key st k = Some i \<Longrightarrow> i \<in> set (limbo @ pl_queued st @ pl_tasks st)"
    and "pl_by_key st k = Some i \<Longrightarrow> \<exists>e. pl_jobs st i = Some e \<and> je_key e = k"
    and "i \<in> set (pl_queued st @ pl_tasks st) \<Longrightarrow> pl_jobs st i = Some e \<Longrightarrow> \<not> je_cancel e \<Longrightarrow>
      pl_by_key st (je_key e) = Some i"
  using assms unfolding keys_ok_def by blast+

lemma slots_ok_same:
  assumes "slots_ok st" and "pl_running st' = pl_running st" "pl_max_concurrent st' = pl_max_concurrent st"
    and "pl_tasks st' = pl_tasks st" "pl_exclusive_running st' = pl_exclusive_running st"
    and "pl_shutting_down st' = pl_shutting_down st" "pl_queued st' = pl_queued st"
    and "\<And>i. i \<in> set (pl_tasks st) \<Longrightarrow> exclusive_job st' i = exclusive_job st i"
  shows "slots_ok st'"
proof -
  have "(\<exists>i \<in> set (pl_tasks st). exclusive_job st' i) = (\<exists>i \<in> set (pl_tasks st). exclusive_job st i)"
    using assms(8) by blast
  with assms(1) show ?thesis unfolding slots_ok_def assms(2-7) by metis
qed

section \<open>Finished jobs leave\<close>

lemma prune_loop_drop:
  "\<exists>k. prune_loop now ttl cap t jobs = (drop k t, \<lambda>i. if i \<in> set (map fst (take k t)) then None else jobs i)"
proof (induction now ttl cap t jobs rule: prune_loop.induct)
  case (1 now ttl capacity jobs)
  then show ?case by simp
next
  case (2 now ttl capacity i finished_at rest jobs)
  show ?case
  proof (cases "\<not> now - finished_at \<ge> ttl \<and> length ((i, finished_at) # rest) \<le> capacity")
    case True
    then show ?thesis by (intro exI [of _ 0]) (simp add: Let_def)
  next
    case False
    then obtain k where "prune_loop now ttl capacity rest (jobs(i := None)) =
        (drop k rest, \<lambda>j. if j \<in> set (map fst (take k rest)) then None else (jobs(i := None)) j)"
      using 2 by (fastforce simp: Let_def)
    with False show ?thesis by (intro exI [of _ "Suc k"]) (auto simp: Let_def fun_eq_iff)
  qed
qed

definition forget :: "nat \<Rightarrow> ('r, 'a) pool_state \<Rightarrow> ('r, 'a) pool_state" where
  "forget k st = st\<lparr>pl_terminal := drop k (pl_terminal st),
     pl_jobs := (\<lambda>i. if i \<in> set (map fst (take k (pl_terminal st))) then None else pl_jobs st i)\<rparr>"

lemma prune_forgets: "\<exists>k. prune_terminal now st = forget k st"
  using prune_loop_drop [of now "pl_terminal_ttl st" "pl_terminal_capacity st" "pl_terminal st" "pl_jobs st"]
  by (auto simp: prune_terminal_def forget_def)

lemma pool_core_forget:
  assumes "pool_core limbo st"
  shows "pool_core limbo (forget n st)"
proof -
  let ?gone = "set (map fst (take n (pl_terminal st)))"
  have split: "map fst (pl_terminal st) = map fst (take n (pl_terminal st)) @ map fst (drop n (pl_terminal st))"
    by (metis append_take_drop_id map_append)
  have dis: "distinct (limbo @ pl_queued st @ pl_tasks st @ map fst (take n (pl_terminal st)) @ map fst (drop n (pl_terminal st)))"
    using assms unfolding pool_core_def lists_ok_def all_ids_def split by simp
  have kept: "pl_jobs (forget n st) i = pl_jobs st i" if "i \<notin> ?gone" for i using that by (simp add: forget_def)
  have out: "i \<notin> ?gone" if "i \<in> set (limbo @ pl_queued st @ pl_tasks st @ map fst (drop n (pl_terminal st)))" for i
    using that dis by auto
  have fields: "pl_queued (forget n st) = pl_queued st" "pl_tasks (forget n st) = pl_tasks st"
    "pl_terminal (forget n st) = drop n (pl_terminal st)" "pl_by_key (forget n st) = pl_by_key st"
    "pl_issued (forget n st) = pl_issued st"
    by (simp_all add: forget_def)
  have "lists_ok limbo (forget n st)"
  proof -
    have "dom (pl_jobs (forget n st)) = dom (pl_jobs st) - ?gone" by (force simp: forget_def split: if_splits)
    also have "dom (pl_jobs st) = set (limbo @ pl_queued st @ pl_tasks st @ map fst (take n (pl_terminal st)) @ map fst (drop n (pl_terminal st)))"
      using assms unfolding pool_core_def lists_ok_def all_ids_def split by blast
    also have "\<dots> - ?gone = set (all_ids limbo (forget n st))" using dis unfolding all_ids_def fields by auto
    finally have "dom (pl_jobs (forget n st)) = set (all_ids limbo (forget n st))" .
    moreover have "set (all_ids limbo st) \<subseteq> set (pl_issued st)" using assms by (simp add: pool_parts)
    then have "set (all_ids limbo (forget n st)) \<subseteq> set (pl_issued (forget n st))"
      unfolding all_ids_def fields split by auto
    moreover have "distinct (all_ids limbo (forget n st))" using dis unfolding all_ids_def fields by auto
    ultimately show ?thesis unfolding lists_ok_def by blast
  qed
  moreover have "entries_ok (forget n st)"
  proof -
    have "entries_are P st (map fst (pl_terminal st)) \<Longrightarrow> entries_are P st (map fst (drop n (pl_terminal st)))" for P
      unfolding split entries_are_def list_all_append by blast
    then have parts: "entries_are waiting_entry st (pl_queued st)" "entries_are running_entry st (pl_tasks st)"
      "entries_are (\<lambda>e. is_terminal (je_event e)) st (map fst (drop n (pl_terminal st)))"
      using assms unfolding pool_core_def entries_ok_def by blast+
    have keep: "entries_are P st js \<Longrightarrow> set js \<subseteq> set (limbo @ pl_queued st @ pl_tasks st @ map fst (drop n (pl_terminal st))) \<Longrightarrow>
      entries_are P (forget n st) js" for P js
      by (rule entries_are_cong [of P st]) (use kept out in blast)+
    show ?thesis
      unfolding entries_ok_def fields by (intro conjI keep parts) auto
  qed
  moreover have keys: "keys_ok limbo st" using assms by (simp add: pool_core_def)
  have "keys_ok limbo (forget n st)"
  proof (rule keys_okI, goal_cases)
    case (1 k i)
    then show ?case using keys_okD(1) [OF keys] unfolding fields by blast
  next
    case (2 k i)
    then have "i \<in> set (limbo @ pl_queued st @ pl_tasks st)" using keys_okD(1) [OF keys] unfolding fields by blast
    then have "pl_jobs (forget n st) i = pl_jobs st i" by (intro kept out) auto
    then show ?case using 2 keys_okD(2) [OF keys] unfolding fields by metis
  next
    case (3 i e)
    then have "pl_jobs (forget n st) i = pl_jobs st i" unfolding fields by (intro kept out) auto
    then show ?case using 3 keys_okD(3) [OF keys] unfolding fields by metis
  qed
  moreover have "slots_ok (forget n st)"
  proof -
    have "exclusive_job (forget n st) i = exclusive_job st i" if "i \<in> set (pl_tasks st)" for i
      using that kept out by (simp add: exclusive_job_def)
    with assms show ?thesis by - (rule slots_ok_same [of st], simp_all add: pool_core_def forget_def)
  qed
  ultimately show ?thesis unfolding pool_core_def by blast
qed

lemma pool_core_prune: "pool_core limbo st \<Longrightarrow> pool_core limbo (prune_terminal now st)"
  using prune_forgets pool_core_forget by metis

section \<open>A job settles\<close>

lemma lists_okD:
  assumes "lists_ok limbo st"
  shows "distinct (limbo @ pl_queued st @ pl_tasks st @ map fst (pl_terminal st))"
    "pl_jobs st i \<noteq> None \<longleftrightarrow> i \<in> set (limbo @ pl_queued st @ pl_tasks st @ map fst (pl_terminal st))"
  using assms by (auto simp: lists_ok_def all_ids_def)

lemma pool_core_publish_limbo:
  assumes "pool_core limbo st" and "i \<in> set limbo"
  shows "pool_core limbo (publish_event i ev st)"
proof -
  have core: "lists_ok limbo st" "entries_ok st" "keys_ok limbo st" "slots_ok st" using assms(1) by (simp_all add: pool_core_def)
  have "pl_jobs st i \<noteq> None" using lists_okD(2) [OF core(1)] assms(2) by simp
  then obtain e where e: "pl_jobs st i = Some e" by blast
  have out: "i \<notin> set (pl_queued st @ pl_tasks st @ map fst (pl_terminal st))"
    using lists_okD(1) [OF core(1)] assms(2) by auto
  let ?st = "publish_event i ev st"
  have st: "?st = st\<lparr>pl_jobs := (pl_jobs st)(i \<mapsto> e\<lparr>je_event := ev\<rparr>)\<rparr>" by (simp add: publish_event_def e)
  have same: "pl_jobs ?st j = pl_jobs st j" if "j \<in> set (pl_queued st @ pl_tasks st @ map fst (pl_terminal st))" for j
    using that out by (auto simp: st)
  have "lists_ok limbo ?st" using core(1) e by (auto simp: lists_ok_def all_ids_def st)
  moreover have "entries_ok ?st"
    using core(2) same unfolding entries_ok_def by (auto simp: st intro!: entries_are_cong [of _ st])
  moreover have "keys_ok limbo ?st"
  proof (rule keys_okI, goal_cases)
    case (1 k j)
    then show ?case using keys_okD(1) [OF core(3), of k j] by (simp add: st)
  next
    case (2 k j)
    then have k: "pl_by_key st k = Some j" by (simp add: st)
    from keys_okD(2) [OF core(3) this] e show ?case by (cases "j = i") (auto simp: st)
  next
    case (3 j f)
    then have "j \<noteq> i" using out by (auto simp: st)
    with 3 keys_okD(3) [OF core(3), of j f] show ?case by (simp add: st)
  qed
  moreover have "slots_ok ?st"
  proof -
    have "exclusive_job ?st j = exclusive_job st j" for j using e by (simp add: exclusive_job_def st)
    with core(4) show ?thesis by - (rule slots_ok_same [of st], simp_all add: st)
  qed
  ultimately show ?thesis by (simp add: pool_core_def)
qed

lemma pool_core_release:
  assumes "pool_core limbo st" and "i \<in> set limbo" and "pl_jobs st i = Some e"
  shows "pool_core limbo (release_key (je_key e) i st)"
    and "pl_by_key (release_key (je_key e) i st) k \<noteq> Some i"
proof -
  have core: "lists_ok limbo st" "entries_ok st" "keys_ok limbo st" "slots_ok st" using assms(1) by (simp_all add: pool_core_def)
  have out: "i \<notin> set (pl_queued st @ pl_tasks st)" using lists_okD(1) [OF core(1)] assms(2) by auto
  show "pl_by_key (release_key (je_key e) i st) k \<noteq> Some i"
    using keys_okD(2) [OF core(3), of k i] assms(3) by (auto simp: release_key_def)
  show "pool_core limbo (release_key (je_key e) i st)"
  proof (cases "pl_by_key st (je_key e) = Some i")
    case False
    then show ?thesis using assms(1) by (simp add: release_key_def)
  next
    case True
    then have st: "release_key (je_key e) i st = st\<lparr>pl_by_key := (pl_by_key st)(je_key e := None)\<rparr>"
      by (simp add: release_key_def)
    have "je_key f \<noteq> je_key e" if "j \<in> set (pl_queued st @ pl_tasks st)" "pl_jobs st j = Some f" "\<not> je_cancel f" for j f
    proof
      assume "je_key f = je_key e"
      then have "pl_by_key st (je_key e) = Some j" using core(3) that unfolding keys_ok_def by metis
      with True that(1) out show False by simp
    qed
    note other = this
    have "keys_ok limbo (release_key (je_key e) i st)"
    proof (rule keys_okI, goal_cases)
      case (1 k j)
      then show ?case using keys_okD(1) [OF core(3), of k j] by (simp add: st split: if_splits)
    next
      case (2 k j)
      then show ?case using keys_okD(2) [OF core(3), of k j] by (simp add: st split: if_splits)
    next
      case (3 j f)
      then show ?case using keys_okD(3) [OF core(3), of j f] other [of j f] by (simp add: st)
    qed
    moreover have "lists_ok limbo (release_key (je_key e) i st)" using core(1) by (simp add: lists_ok_def all_ids_def st)
    moreover have "entries_ok (release_key (je_key e) i st)" using core(2) by (simp add: entries_ok_def entries_are_def st)
    moreover have "slots_ok (release_key (je_key e) i st)"
      using core(4) by - (rule slots_ok_same [of st], simp_all add: exclusive_job_def st)
    ultimately show ?thesis by (simp add: pool_core_def)
  qed
qed

lemma pool_core_retire:
  assumes "pool_core (i # limbo) st" and "pl_jobs st i = Some e" "is_terminal (je_event e)"
    and "\<And>k. pl_by_key st k \<noteq> Some i"
  shows "pool_core limbo (retire now i st)"
proof -
  let ?st = "st\<lparr>pl_terminal := pl_terminal st @ [(i, now)]\<rparr>"
  have core: "lists_ok (i # limbo) st" "entries_ok st" "keys_ok (i # limbo) st" "slots_ok st"
    using assms(1) by (simp_all add: pool_core_def)
  have "lists_ok limbo ?st" using core(1) by (auto simp: lists_ok_def all_ids_def)
  moreover have "entries_ok ?st" using core(2) assms(2,3) by (simp add: entries_ok_def entries_are_def)
  moreover have "keys_ok limbo ?st"
  proof (rule keys_okI, goal_cases)
    case (1 k j)
    then show ?case using keys_okD(1) [OF core(3), of k j] assms(4) [of k] by auto
  next
    case (2 k j)
    then show ?case using keys_okD(2) [OF core(3), of k j] by simp
  next
    case (3 j f)
    then show ?case using keys_okD(3) [OF core(3), of j f] by simp
  qed
  moreover have "slots_ok ?st" using core(4) by - (rule slots_ok_same [of st], simp_all add: exclusive_job_def)
  ultimately have "pool_core limbo ?st" by (simp add: pool_core_def)
  then show ?thesis unfolding retire_def by (rule pool_core_prune)
qed

lemma pool_core_settle:
  assumes "pool_core (i # limbo) st" and "is_terminal ev"
  shows "pool_core limbo (settle now i ev st)"
proof -
  have "pl_jobs st i \<noteq> None" using assms(1) lists_okD(2) [of "i # limbo" st i] by (simp add: pool_core_def)
  then obtain e where e: "pl_jobs st i = Some e" by blast
  let ?s1 = "publish_event i ev st"
  let ?e = "e\<lparr>je_event := ev\<rparr>"
  have e1: "pl_jobs ?s1 i = Some ?e" by (simp add: publish_event_def e)
  have c1: "pool_core (i # limbo) ?s1" by (rule pool_core_publish_limbo [OF assms(1)]) simp
  have c2: "pool_core (i # limbo) (release_key (je_key ?e) i ?s1)"
    and nk: "pl_by_key (release_key (je_key ?e) i ?s1) k \<noteq> Some i" for k
    using pool_core_release [OF c1 _ e1] by simp_all
  have e2: "pl_jobs (release_key (je_key ?e) i ?s1) i = Some ?e" by (simp add: release_key_def e1)
  have "pool_core limbo (retire now i (release_key (je_key ?e) i ?s1))"
    by (rule pool_core_retire [OF c2 e2 _ nk]) (simp add: assms(2))
  then show ?thesis by (simp add: settle_def e)
qed

section \<open>Dispatch\<close>

text \<open>The head of the queue starts.\<close>

lemma start_job_Some:
  assumes "pool_core [] st" and "pl_queued st = i # rest"
  obtains e req where "pl_jobs st i = Some e" "je_pending e = Some req" "waiting_entry e"
    "start_job i (st\<lparr>pl_queued := rest\<rparr>) = Some (st\<lparr>pl_queued := rest,
       pl_jobs := (pl_jobs st)(i \<mapsto> e\<lparr>je_pending := None, je_event := EvRunning None\<rparr>), pl_tasks := pl_tasks st @ [i]\<rparr>)"
proof -
  obtain e where e: "pl_jobs st i = Some e" "waiting_entry e"
    using assms entries_areD [of waiting_entry st "pl_queued st" i] by (auto simp: pool_core_def entries_ok_def)
  then obtain req where "je_pending e = Some req" by (auto simp: waiting_entry_def)
  with e that show thesis by (simp add: start_job_def)
qed

definition started :: "nat \<Rightarrow> nat list \<Rightarrow> ('r, 'a) job_entry \<Rightarrow> ('r, 'a) pool_state \<Rightarrow> ('r, 'a) pool_state" where
  "started i rest e st = st\<lparr>pl_queued := rest,
     pl_jobs := (pl_jobs st)(i \<mapsto> e\<lparr>je_pending := None, je_event := EvRunning None\<rparr>), pl_tasks := pl_tasks st @ [i],
     pl_running := pl_running st + 1,
     pl_exclusive_running := je_weight e = Exclusive \<or> pl_exclusive_running st\<rparr>"

lemma pool_core_started:
  assumes "pool_core [] st" and q: "pl_queued st = i # rest" and e: "pl_jobs st i = Some e" "waiting_entry e"
    and free: "pl_running st < pl_max_concurrent st" "\<not> pl_exclusive_running st"
      "je_weight e = Exclusive \<longrightarrow> pl_running st = 0"
  shows "pool_core [] (started i rest e st)"
proof -
  have core: "lists_ok [] st" "entries_ok st" "keys_ok [] st" "slots_ok st" using assms(1) by (simp_all add: pool_core_def)
  let ?st = "started i rest e st"
  have dis: "distinct (i # rest @ pl_tasks st @ map fst (pl_terminal st))" using lists_okD(1) [OF core(1)] q by simp
  have same: "pl_jobs ?st j = pl_jobs st j" if "j \<in> set (rest @ pl_tasks st @ map fst (pl_terminal st))" for j
    using that dis by (auto simp: started_def)
  have "lists_ok [] ?st"
    using core(1) e q by (auto simp: lists_ok_def all_ids_def started_def)
  moreover have "entries_ok ?st"
  proof -
    have "entries_are waiting_entry st rest" using core(2) q by (simp add: entries_ok_def entries_are_def)
    then have "entries_are waiting_entry ?st rest" using dis same by (auto intro!: entries_are_cong [of _ st])
    moreover have "entries_are running_entry ?st (pl_tasks st)"
      using core(2) dis same unfolding entries_ok_def by (auto intro!: entries_are_cong [of _ st])
    moreover have "entries_are (\<lambda>e. is_terminal (je_event e)) ?st (map fst (pl_terminal st))"
      using core(2) dis same unfolding entries_ok_def by (auto intro!: entries_are_cong [of _ st])
    ultimately show ?thesis by (simp add: entries_ok_def) (simp add: entries_are_def started_def running_entry_def)
  qed
  moreover have "keys_ok [] ?st"
  proof (rule keys_okI, goal_cases)
    case (1 k j)
    then show ?case using keys_okD(1) [OF core(3), of k j] q by (auto simp: started_def)
  next
    case (2 k j)
    then show ?case using keys_okD(2) [OF core(3), of k j] e(1) by (auto simp: started_def)
  next
    case (3 j f)
    show ?case
    proof (cases "j = i")
      case True
      then show ?thesis using 3 keys_okD(3) [OF core(3), of i e] e(1) q by (auto simp: started_def)
    next
      case False
      then show ?thesis using 3 keys_okD(3) [OF core(3), of j f] q by (auto simp: started_def)
    qed
  qed
  moreover have "slots_ok ?st"
  proof -
    have ex: "exclusive_job ?st j = exclusive_job st j" for j using e(1) by (simp add: exclusive_job_def started_def)
    have none: "\<forall>j \<in> set (pl_tasks st). \<not> exclusive_job st j" and run: "pl_running st = length (pl_tasks st)"
      and shut: "\<not> pl_shutting_down st"
      using core(4) free(2) q by (auto simp: slots_ok_def)
    have "exclusive_job st i = (je_weight e = Exclusive)" using e(1) by (simp add: exclusive_job_def)
    then show ?thesis using core(4) none run shut free ex unfolding slots_ok_def by (auto simp: started_def)
  qed
  ultimately show ?thesis by (simp add: pool_core_def)
qed

text \<open>
  One round of the loop; the loop ends in a state where the head cannot start.
\<close>

definition head_blocked :: "('r, 'a) pool_state \<Rightarrow> bool" where
  "head_blocked st \<longleftrightarrow>
     pl_shutting_down st \<or> pl_running st = pl_max_concurrent st \<or> pl_exclusive_running st \<or> pl_queued st = [] \<or>
     exclusive_job st (hd (pl_queued st)) \<and> 0 < pl_running st"

definition dispatched :: "('r, 'a) pool_state \<Rightarrow> ('r, 'a) pool_state \<Rightarrow> bool" where
  "dispatched st st' \<longleftrightarrow>
     pl_drained st' = pl_drained st \<and> pl_replied st' = pl_replied st \<and> pl_shutting_down st' = pl_shutting_down st \<and>
     pl_running st \<le> pl_running st' \<and> pl_max_concurrent st' = pl_max_concurrent st \<and>
     pl_by_key st' = pl_by_key st \<and> pl_issued st' = pl_issued st \<and> pl_terminal st' = pl_terminal st \<and>
     (\<exists>new. pl_queued st = new @ pl_queued st' \<and> pl_tasks st' = pl_tasks st @ new)"

lemma dispatched_refl: "dispatched st st"
  by (simp add: dispatched_def)

lemma dispatched_started:
  "pl_queued st = i # rest \<Longrightarrow> dispatched (started i rest e st) st' \<Longrightarrow> dispatched st st'"
  by (auto simp: dispatched_def started_def)

lemma dispatch_loop_round:
  assumes "pool_core [] st"
  obtains (stays) "dispatch_loop now st = st" "head_blocked st"
  | (starts) i rest e where "pl_queued st = i # rest" "pl_jobs st i = Some e" "waiting_entry e"
      "pl_running st < pl_max_concurrent st" "\<not> pl_exclusive_running st" "je_weight e = Exclusive \<longrightarrow> pl_running st = 0"
      "dispatch_loop now st = dispatch_loop now (started i rest e st)"
proof (cases "pl_shutting_down st \<or> \<not> pl_running st < pl_max_concurrent st \<or> pl_exclusive_running st \<or> pl_queued st = []")
  case True
  then have "dispatch_loop now st = st" by (subst dispatch_loop.simps) (auto split: list.split)
  moreover have "head_blocked st" using True assms by (auto simp: head_blocked_def slots_ok_def pool_core_def)
  ultimately show thesis by (rule stays)
next
  case False
  then obtain i rest where q: "pl_queued st = i # rest" by (cases "pl_queued st") auto
  obtain e req where e: "pl_jobs st i = Some e" "je_pending e = Some req" "waiting_entry e"
    and start: "start_job i (st\<lparr>pl_queued := rest\<rparr>) = Some (st\<lparr>pl_queued := rest,
      pl_jobs := (pl_jobs st)(i \<mapsto> e\<lparr>je_pending := None, je_event := EvRunning None\<rparr>), pl_tasks := pl_tasks st @ [i]\<rparr>)"
    using start_job_Some [OF assms q] by blast
  show thesis
  proof (cases "je_weight e = Exclusive \<and> 0 < pl_running st")
    case True
    then have "dispatch_loop now st = st" by (subst dispatch_loop.simps) (simp add: q e(1))
    moreover have "head_blocked st" using True q e(1) by (simp add: head_blocked_def exclusive_job_def)
    ultimately show thesis by (rule stays)
  next
    case go: False
    have "dispatch_loop now st = dispatch_loop now (started i rest e st)"
      by (subst dispatch_loop.simps) (use False go in \<open>auto simp: q e(1) start Let_def started_def\<close>)
    then show thesis by (rule starts [OF q e(1) e(3), rotated -1]) (use False go in auto)
  qed
qed

lemma dispatch_loop_core:
  "pool_core [] st \<Longrightarrow>
    pool_core [] (dispatch_loop now st) \<and> head_blocked (dispatch_loop now st) \<and> dispatched st (dispatch_loop now st)"
proof (induction "length (pl_queued st)" arbitrary: st rule: less_induct)
  case less
  from less.prems show ?case
  proof (cases rule: dispatch_loop_round [where now = now])
    case stays
    then show ?thesis using less.prems dispatched_refl by simp
  next
    case (starts i rest e)
    have core: "pool_core [] (started i rest e st)"
      by (rule pool_core_started [OF less.prems starts(1-6)])
    have "length (pl_queued (started i rest e st)) < length (pl_queued st)" by (simp add: starts(1) started_def)
    from less.hyps [OF this core] dispatched_started [OF starts(1)] show ?thesis unfolding starts(7) by blast
  qed
qed

section \<open>Entries change in place\<close>

lemma pool_core_update:
  assumes "pool_core limbo st"
    and f: "\<And>i e. je_key (f i e) = je_key e" "\<And>i e. je_weight (f i e) = je_weight e"
      "\<And>i e. je_cancel e \<Longrightarrow> je_cancel (f i e)"
    and "\<And>i e. i \<in> set (pl_queued st) \<Longrightarrow> waiting_entry e \<Longrightarrow> waiting_entry (f i e)"
    and "\<And>i e. i \<in> set (pl_tasks st) \<Longrightarrow> running_entry e \<Longrightarrow> running_entry (f i e)"
    and "\<And>i e. i \<in> fst ` set (pl_terminal st) \<Longrightarrow> is_terminal (je_event e) \<Longrightarrow> is_terminal (je_event (f i e))"
  shows "pool_core limbo (st\<lparr>pl_jobs := (\<lambda>i. map_option (f i) (pl_jobs st i))\<rparr>)"
proof -
  let ?st = "st\<lparr>pl_jobs := (\<lambda>i. map_option (f i) (pl_jobs st i))\<rparr>"
  have core: "lists_ok limbo st" "entries_ok st" "keys_ok limbo st" "slots_ok st" using assms(1) by (simp_all add: pool_core_def)
  have tr: "entries_are Q ?st js" if "entries_are P st js" "\<And>i e. i \<in> set js \<Longrightarrow> P e \<Longrightarrow> Q (f i e)" for P Q js
    using that by (fastforce simp: entries_are_def list_all_iff)
  have "dom (pl_jobs ?st) = dom (pl_jobs st)" by (auto simp: dom_def)
  with core(1) have "lists_ok limbo ?st" by (simp add: lists_ok_def all_ids_def)
  moreover have "entries_ok ?st"
    using core(2) assms(5-7) unfolding entries_ok_def by (auto intro!: tr)
  moreover have "keys_ok limbo ?st"
  proof (rule keys_okI, goal_cases)
    case (1 k i)
    then show ?case using keys_okD(1) [OF core(3), of k i] by simp
  next
    case (2 k i)
    then show ?case using keys_okD(2) [OF core(3), of k i] f(1) by auto
  next
    case (3 i e)
    then obtain e0 where "pl_jobs st i = Some e0" "e = f i e0" by auto
    moreover from this 3 f(3) have "\<not> je_cancel e0" by blast
    ultimately show ?case using 3 keys_okD(3) [OF core(3), of i e0] f(1) by simp
  qed
  moreover have "slots_ok ?st"
  proof (rule slots_ok_same [OF core(4)])
    show "exclusive_job ?st i = exclusive_job st i" for i
      using f(2) by (simp add: exclusive_job_def option.map_comp comp_def)
  qed simp_all
  ultimately show ?thesis by (simp add: pool_core_def)
qed

text \<open>The positions of the waiting jobs are published.\<close>

lemma announce_step:
  "(case pl_jobs s i of
      None \<Rightarrow> s
    | Some e \<Rightarrow> if je_event e = EvQueued n then s else publish_event i (EvQueued n) s) =
   s\<lparr>pl_jobs := (pl_jobs s)(i := map_option (\<lambda>e. e\<lparr>je_event := EvQueued n\<rparr>) (pl_jobs s i))\<rparr>"
proof (cases "pl_jobs s i")
  case None
  then have "(pl_jobs s)(i := map_option (\<lambda>e. e\<lparr>je_event := EvQueued n\<rparr>) (pl_jobs s i)) = pl_jobs s" by auto
  with None show ?thesis by simp
next
  case (Some e)
  show ?thesis
  proof (cases "je_event e = EvQueued n")
    case True
    then have "e\<lparr>je_event := EvQueued n\<rparr> = e" by simp
    with Some have "(pl_jobs s)(i := map_option (\<lambda>e. e\<lparr>je_event := EvQueued n\<rparr>) (pl_jobs s i)) = pl_jobs s" by auto
    with Some True show ?thesis by simp
  next
    case False
    with Some show ?thesis by (simp add: publish_event_def)
  qed
qed

text \<open>The place of a job in a list, counted from \<open>n\<close>.\<close>

fun place :: "nat \<Rightarrow> nat list \<Rightarrow> nat \<Rightarrow> nat" where
  "place n [] i = n"
| "place n (x # xs) i = (if x = i then n else place (Suc n) xs i)"

lemma place_nth: "distinct xs \<Longrightarrow> k < length xs \<Longrightarrow> place n xs (xs ! k) = n + k"
  by (induction xs arbitrary: n k) (auto simp: nth_Cons split: nat.split)

definition with_place :: "nat list \<Rightarrow> nat \<Rightarrow> nat \<Rightarrow> ('r, 'a) job_entry \<Rightarrow> ('r, 'a) job_entry" where
  "with_place q n i e = (if i \<in> set q then e\<lparr>je_event := EvQueued (place n q i + 1)\<rparr> else e)"

lemma announce_all:
  "distinct q \<Longrightarrow>
    foldl (\<lambda>s (index, i).
       (case pl_jobs s i of
          None \<Rightarrow> s
        | Some e \<Rightarrow> if je_event e = EvQueued (index + 1) then s else publish_event i (EvQueued (index + 1)) s))
      st (enumerate n q) =
    st\<lparr>pl_jobs := (\<lambda>i. map_option (with_place q n i) (pl_jobs st i))\<rparr>"
proof (induction q arbitrary: n st)
  case Nil
  then show ?case by (simp add: with_place_def option.map_ident)
next
  case (Cons x q)
  let ?j = "(pl_jobs st)(x := map_option (\<lambda>e. e\<lparr>je_event := EvQueued (n + 1)\<rparr>) (pl_jobs st x))"
  have "map_option (with_place q (Suc n) i) (?j i) = map_option (with_place (x # q) n i) (pl_jobs st i)" for i
    using Cons.prems by (cases "pl_jobs st i") (auto simp: with_place_def)
  then have eq: "(\<lambda>i. map_option (with_place q (Suc n) i) (?j i)) = (\<lambda>i. map_option (with_place (x # q) n i) (pl_jobs st i))"
    by blast
  note ih = Cons.IH [where n = "Suc n" and st = "st\<lparr>pl_jobs := ?j\<rparr>", unfolded announce_step]
  have "distinct q" using Cons.prems by simp
  note ih = ih [OF this]
  show ?case
    unfolding enumerate_simps foldl.simps prod.case announce_step ih using eq by simp
qed

lemma rebroadcast_map:
  "pool_core limbo st \<Longrightarrow>
    rebroadcast_positions st = st\<lparr>pl_jobs := (\<lambda>i. map_option (with_place (pl_queued st) 0 i) (pl_jobs st i))\<rparr>"
  unfolding rebroadcast_positions_def
  by (rule announce_all) (use lists_okD(1) [of limbo st] in \<open>simp add: pool_core_def\<close>)

lemma with_place_waiting: "waiting_entry e \<Longrightarrow> waiting_entry (with_place q n i e)"
  by (simp add: waiting_entry_def with_place_def)

definition positions_ok :: "('r, 'a) pool_state \<Rightarrow> bool" where
  "positions_ok st \<longleftrightarrow> (\<forall>k < length (pl_queued st). \<exists>e. pl_jobs st (pl_queued st ! k) = Some e \<and> je_event e = EvQueued (k + 1))"

lemma pool_core_rebroadcast:
  assumes "pool_core limbo st"
  shows "pool_core limbo (rebroadcast_positions st)" "positions_ok (rebroadcast_positions st)"
proof -
  have l: "lists_ok limbo st" and e: "entries_ok st" using assms by (simp_all add: pool_core_def)
  have out: "i \<notin> set (pl_queued st)" if "i \<in> set (pl_tasks st) \<or> i \<in> fst ` set (pl_terminal st)" for i
    using that lists_okD(1) [OF l] by auto
  show "pool_core limbo (rebroadcast_positions st)"
    unfolding rebroadcast_map [OF assms]
    by (rule pool_core_update [OF assms]) (use out in \<open>simp_all add: with_place_def waiting_entry_def\<close>)
  have "distinct (pl_queued st)" using lists_okD(1) [OF l] by simp
  then show "positions_ok (rebroadcast_positions st)"
    using e unfolding rebroadcast_map [OF assms] positions_ok_def entries_ok_def entries_are_def
    by (auto simp: with_place_def place_nth list_all_length)
qed

section \<open>Between messages\<close>

text \<open>Shutdown is answered when no encode runs, and waits for the encodes until then.\<close>

definition drain_ok :: "('r, 'a) pool_state \<Rightarrow> bool" where
  "drain_ok st \<longleftrightarrow>
     (if pl_shutting_down st then if pl_running st = 0 then pl_replied st else pl_drained st
      else \<not> pl_drained st \<and> \<not> pl_replied st)"

definition pool_inv :: "('r, 'a) pool_state \<Rightarrow> bool" where
  "pool_inv st \<longleftrightarrow> pool_core [] st \<and> positions_ok st \<and> (pl_queued st \<noteq> [] \<longrightarrow> 0 < pl_running st) \<and> drain_ok st"

lemma rebroadcast_frame:
  assumes "pool_core limbo st"
  shows "pl_queued (rebroadcast_positions st) = pl_queued st" "pl_tasks (rebroadcast_positions st) = pl_tasks st"
    "pl_running (rebroadcast_positions st) = pl_running st" "pl_by_key (rebroadcast_positions st) = pl_by_key st"
    "pl_shutting_down (rebroadcast_positions st) = pl_shutting_down st"
    "pl_drained (rebroadcast_positions st) = pl_drained st" "pl_replied (rebroadcast_positions st) = pl_replied st"
    "pl_max_concurrent (rebroadcast_positions st) = pl_max_concurrent st"
    "pl_exclusive_running (rebroadcast_positions st) = pl_exclusive_running st"
    "pl_terminal (rebroadcast_positions st) = pl_terminal st" "pl_issued (rebroadcast_positions st) = pl_issued st"
  unfolding rebroadcast_map [OF assms] by simp_all

lemma drain_ok_same:
  "drain_ok st \<Longrightarrow> pl_shutting_down st' = pl_shutting_down st \<Longrightarrow> pl_running st' = pl_running st \<Longrightarrow>
    pl_drained st' = pl_drained st \<Longrightarrow> pl_replied st' = pl_replied st \<Longrightarrow> drain_ok st'"
  by (simp add: drain_ok_def)

lemma blocked_runs: "head_blocked st \<Longrightarrow> slots_ok st \<Longrightarrow> pl_queued st \<noteq> [] \<Longrightarrow> 0 < pl_running st"
  by (auto simp: head_blocked_def slots_ok_def)

lemma dispatch_inv:
  assumes "pool_core [] st" and "drain_ok st"
  shows "pool_inv (dispatch now st)"
proof -
  let ?st = "dispatch_loop now st"
  have d: "pool_core [] ?st" "head_blocked ?st" "dispatched st ?st" using dispatch_loop_core [OF assms(1)] by auto
  have "drain_ok ?st"
  proof (cases "pl_shutting_down st")
    case True
    then have "?st = st" by (subst dispatch_loop.simps) simp
    with assms(2) show ?thesis by simp
  next
    case False
    with d(3) assms(2) show ?thesis by (auto simp: dispatched_def drain_ok_def)
  qed
  then have "drain_ok (rebroadcast_positions ?st)" by (rule drain_ok_same) (simp_all add: rebroadcast_frame [OF d(1)])
  moreover have "pl_queued ?st \<noteq> [] \<longrightarrow> 0 < pl_running ?st" using blocked_runs [OF d(2)] d(1) by (simp add: pool_core_def)
  ultimately show ?thesis
    using pool_core_rebroadcast [OF d(1)] by (simp add: pool_inv_def dispatch_def rebroadcast_frame [OF d(1)])
qed

section \<open>The messages keep the invariant\<close>

lemma settle_frame [simp]:
  "pl_tasks (settle now i ev st) = pl_tasks st" "pl_running (settle now i ev st) = pl_running st"
  "pl_shutting_down (settle now i ev st) = pl_shutting_down st" "pl_drained (settle now i ev st) = pl_drained st"
  "pl_replied (settle now i ev st) = pl_replied st" "pl_max_concurrent (settle now i ev st) = pl_max_concurrent st"
  "pl_exclusive_running (settle now i ev st) = pl_exclusive_running st" "pl_issued (settle now i ev st) = pl_issued st"
  by (auto simp: settle_def retire_def prune_terminal_def release_key_def publish_event_def
      split: option.split prod.split)

lemma new_job_core:
  assumes "pool_core [] st" and i: "i \<notin> set (pl_issued st)" and "pl_by_key st key = None" and "\<not> pl_shutting_down st"
    and e: "e = \<lparr>je_key = key, je_weight = w, je_cancel = False, je_event = EvQueued n, je_pending = Some req\<rparr>"
  shows "pool_core [] (st\<lparr>pl_jobs := (pl_jobs st)(i \<mapsto> e), pl_by_key := (pl_by_key st)(key \<mapsto> i),
    pl_queued := pl_queued st @ [i], pl_issued := pl_issued st @ [i]\<rparr>)"
    (is "pool_core [] ?st")
proof -
  have core: "lists_ok [] st" "entries_ok st" "keys_ok [] st" "slots_ok st" using assms(1) by (simp_all add: pool_core_def)
  have out: "i \<notin> set (pl_queued st @ pl_tasks st @ map fst (pl_terminal st))"
    using i core(1) by (auto simp: lists_ok_def all_ids_def)
  then have none: "pl_jobs st i = None" using lists_okD(2) [OF core(1), of i] by auto
  have "lists_ok [] ?st" using core(1) out by (auto simp: lists_ok_def all_ids_def)
  moreover have "entries_ok ?st"
  proof -
    have keep: "entries_are P st js \<Longrightarrow> set js \<subseteq> set (pl_queued st @ pl_tasks st @ map fst (pl_terminal st)) \<Longrightarrow>
      entries_are P ?st js" for P js
      by (rule entries_are_cong [of P st]) (use out in auto)
    have parts: "entries_are waiting_entry ?st (pl_queued st)" "entries_are running_entry ?st (pl_tasks st)"
      "entries_are (\<lambda>e. is_terminal (je_event e)) ?st (map fst (pl_terminal st))"
      using core(2) unfolding entries_ok_def by (auto intro!: keep)
    have "entries_are waiting_entry ?st [i]" by (simp add: entries_are_def waiting_entry_def e)
    with parts show ?thesis by (simp add: entries_ok_def) (simp add: entries_are_def)
  qed
  moreover have "keys_ok [] ?st"
  proof (rule keys_okI, goal_cases)
    case (1 k j)
    then show ?case using keys_okD(1) [OF core(3), of k j] by (auto split: if_splits)
  next
    case (2 k j)
    then show ?case using keys_okD(2) [OF core(3), of k j] none e by (auto split: if_splits)
  next
    case (3 j f)
    show ?case
    proof (cases "j = i")
      case True
      then have "f = e" using 3 by simp
      then have "je_key f = key" using e by simp
      with True show ?thesis by simp
    next
      case False
      then have "pl_by_key st (je_key f) = Some j" using 3 keys_okD(3) [OF core(3), of j f] by auto
      then show ?thesis using assms(3) by auto
    qed
  qed
  moreover have "slots_ok ?st"
  proof -
    have "(\<exists>j \<in> set (pl_tasks st). exclusive_job ?st j) = (\<exists>j \<in> set (pl_tasks st). exclusive_job st j)"
      using out by (auto simp: exclusive_job_def)
    with core(4) assms(4) show ?thesis unfolding slots_ok_def by auto
  qed
  ultimately show ?thesis by (simp add: pool_core_def)
qed

lemma born_terminal_core:
  assumes "pool_core [] st" and i: "i \<notin> set (pl_issued st)" and "is_terminal ev"
  shows "pool_core [] (fst (insert_terminal_job now i key ev st))"
proof -
  let ?e = "\<lparr>je_key = key, je_weight = Light, je_cancel = False, je_event = ev, je_pending = None\<rparr>"
  let ?st = "st\<lparr>pl_jobs := (pl_jobs st)(i \<mapsto> ?e), pl_issued := pl_issued st @ [i]\<rparr>"
  have core: "lists_ok [] st" "entries_ok st" "keys_ok [] st" "slots_ok st" using assms(1) by (simp_all add: pool_core_def)
  have out: "i \<notin> set (pl_queued st @ pl_tasks st @ map fst (pl_terminal st))"
    using i core(1) by (auto simp: lists_ok_def all_ids_def)
  have nokey: "pl_by_key st k \<noteq> Some i" for k using keys_okD(1) [OF core(3), of k i] out by auto
  have "lists_ok [i] ?st" using core(1) out by (auto simp: lists_ok_def all_ids_def)
  moreover have "entries_ok ?st"
    using core(2) out unfolding entries_ok_def by (auto intro!: entries_are_cong [of _ st])
  moreover have "keys_ok [i] ?st"
  proof (rule keys_okI, goal_cases)
    case (1 k j)
    then show ?case using keys_okD(1) [OF core(3), of k j] by simp
  next
    case (2 k j)
    then show ?case using keys_okD(2) [OF core(3), of k j] nokey [of k] by auto
  next
    case (3 j f)
    then have "j \<noteq> i" using out by auto
    then show ?case using 3 keys_okD(3) [OF core(3), of j f] by simp
  qed
  moreover have "slots_ok ?st"
    by (rule slots_ok_same [OF core(4)]) (use out in \<open>auto simp: exclusive_job_def\<close>)
  ultimately have "pool_core [i] ?st" by (simp add: pool_core_def)
  from pool_core_retire [OF this, of ?e] nokey assms(3) show ?thesis
    by (simp add: insert_terminal_job_def Let_def)
qed

lemma retire_frame [simp]:
  "pl_queued (retire now i st) = pl_queued st" "pl_tasks (retire now i st) = pl_tasks st"
  "pl_running (retire now i st) = pl_running st" "pl_shutting_down (retire now i st) = pl_shutting_down st"
  "pl_drained (retire now i st) = pl_drained st" "pl_replied (retire now i st) = pl_replied st"
  "pl_issued (retire now i st) = pl_issued st"
  by (auto simp: retire_def prune_terminal_def split: prod.split)

lemma retire_jobs: "j \<notin> fst ` set (pl_terminal st) \<Longrightarrow> j \<noteq> i \<Longrightarrow> pl_jobs (retire now i st) j = pl_jobs st j"
proof -
  assume j: "j \<notin> fst ` set (pl_terminal st)" "j \<noteq> i"
  let ?s = "st\<lparr>pl_terminal := pl_terminal st @ [(i, now)]\<rparr>"
  obtain k where "prune_terminal now ?s = forget k ?s" using prune_forgets by blast
  moreover have "j \<notin> set (map fst (take k (pl_terminal st @ [(i, now)])))"
    using j by (auto dest!: in_set_takeD)
  ultimately show ?thesis by (simp add: retire_def forget_def)
qed

lemma positions_ok_same:
  assumes "positions_ok st" and "pl_queued st' = pl_queued st"
    and "\<And>i. i \<in> set (pl_queued st) \<Longrightarrow> pl_jobs st' i = pl_jobs st i"
  shows "positions_ok st'"
  using assms by (simp add: positions_ok_def)

lemma born_terminal_inv:
  assumes "pool_inv st" and i: "i \<notin> set (pl_issued st)" and "is_terminal ev"
  shows "pool_inv (fst (insert_terminal_job now i key ev st))"
proof -
  let ?t = "fst (insert_terminal_job now i key ev st)"
  have core: "pool_core [] st" using assms(1) by (simp add: pool_inv_def)
  then have l: "lists_ok [] st" by (simp add: pool_core_def)
  have f: "pl_queued ?t = pl_queued st" "pl_running ?t = pl_running st" "pl_shutting_down ?t = pl_shutting_down st"
    "pl_drained ?t = pl_drained st" "pl_replied ?t = pl_replied st"
    by (simp_all add: insert_terminal_job_def Let_def)
  have "pl_jobs ?t j = pl_jobs st j" if "j \<in> set (pl_queued st)" for j
  proof -
    have "j \<notin> fst ` set (pl_terminal st)" using that lists_okD(1) [OF l] by auto
    moreover have "j \<in> set (pl_issued st)" using that l by (auto simp: lists_ok_def all_ids_def)
    moreover have "j \<noteq> i" using \<open>j \<in> set (pl_issued st)\<close> i by blast
    ultimately show ?thesis by (simp add: insert_terminal_job_def Let_def retire_jobs)
  qed
  then have "positions_ok ?t"
    by - (rule positions_ok_same [of st], use assms(1) f(1) in \<open>simp_all add: pool_inv_def\<close>)
  moreover have "drain_ok ?t" by (rule drain_ok_same [of st]) (use assms(1) f in \<open>simp_all add: pool_inv_def\<close>)
  ultimately show ?thesis using born_terminal_core [OF core i assms(3)] assms(1) f by (simp add: pool_inv_def)
qed

definition new_entry :: "'r submit_request \<Rightarrow> ('r, 'a) pool_state \<Rightarrow> ('r, 'a) job_entry" where
  "new_entry r st = \<lparr>je_key = sr_key r, je_weight = sr_weight r, je_cancel = False,
     je_event = EvQueued (length (pl_queued st) + 1), je_pending = Some (sr_job r)\<rparr>"

definition queued_new :: "nat \<Rightarrow> 'r submit_request \<Rightarrow> ('r, 'a) pool_state \<Rightarrow> ('r, 'a) pool_state" where
  "queued_new i r st = st\<lparr>pl_jobs := (pl_jobs st)(i \<mapsto> new_entry r st), pl_by_key := (pl_by_key st)(sr_key r \<mapsto> i),
     pl_queued := pl_queued st @ [i], pl_issued := pl_issued st @ [i]\<rparr>"

lemma submit_cases:
  assumes "pool_core [] st" and "i \<notin> set (pl_issued st)"
  obtains (found) "fst (submit_job now i r hit failure st) = st"
  | (refused) m c where "fst (submit_job now i r hit failure st) = fst (insert_terminal_job now i (sr_key r) (EvFailed m c) st)"
  | (created) "fst (submit_job now i r hit failure st) = dispatch now (queued_new i r st)" "pool_core [] (queued_new i r st)"
      "\<not> pl_shutting_down st"
proof (cases "hit = None \<and> Option.bind (pl_by_key st (sr_key r)) (snapshot_of st) = None")
  case False
  then have "fst (submit_job now i r hit failure st) = st" by (auto simp: submit_job_def split: option.split)
  then show thesis by (rule found)
next
  case True
  then have none: "hit = None" by simp
  have k: "keys_ok [] st" using assms(1) by (simp add: pool_core_def)
  have key: "pl_by_key st (sr_key r) = None"
  proof (cases "pl_by_key st (sr_key r)")
    case (Some j)
    with keys_okD(2) [OF k Some] True show ?thesis by (auto simp: snapshot_of_def)
  qed simp
  show thesis
  proof (cases "pl_shutting_down st \<or> failure \<noteq> None")
    case True
    then obtain m c where "fst (submit_job now i r hit failure st) = fst (insert_terminal_job now i (sr_key r) (EvFailed m c) st)"
      using key none
      by (cases "pl_shutting_down st"; cases failure) (simp_all add: submit_job_def case_prod_unfold)
    then show thesis by (rule refused)
  next
    case False
    have "pool_core [] (queued_new i r st)" unfolding queued_new_def
      by (rule new_job_core [OF assms key]) (use False in \<open>simp_all add: new_entry_def\<close>)
    moreover have "fst (submit_job now i r hit failure st) = dispatch now (queued_new i r st)"
      using False none key by (simp add: submit_job_def Let_def queued_new_def new_entry_def)
    ultimately show thesis using created False by blast
  qed
qed

lemma submit_inv:
  assumes "pool_inv st" and i: "i \<notin> set (pl_issued st)"
  shows "pool_inv (fst (submit_job now i r hit failure st))"
proof -
  have core: "pool_core [] st" using assms(1) by (simp add: pool_inv_def)
  from core i show ?thesis
  proof (cases rule: submit_cases [where now = now and r = r and hit = hit and failure = failure])
    case found
    then show ?thesis using assms(1) by simp
  next
    case (refused m c)
    then show ?thesis using born_terminal_inv [OF assms, of "EvFailed m c"] by simp
  next
    case created
    with assms(1) show ?thesis
      unfolding created(1) by (intro dispatch_inv) (simp_all add: pool_inv_def drain_ok_def queued_new_def)
  qed
qed

lemma progress_inv:
  assumes "pool_inv st" and "i \<notin> set (pl_queued st)"
  shows "pool_inv (report_progress i p st)"
proof (cases "pl_jobs st i")
  case None
  then show ?thesis using assms(1) by (simp add: report_progress_def)
next
  case (Some e)
  show ?thesis
  proof (cases "is_terminal (je_event e)")
    case True
    with Some assms(1) show ?thesis by (simp add: report_progress_def)
  next
    case False
    let ?f = "\<lambda>j e. if j = i then e\<lparr>je_event := EvRunning p\<rparr> else e"
    have core: "pool_core [] st" using assms(1) by (simp add: pool_inv_def)
    then have ent: "entries_ok st" by (simp add: pool_core_def)
    have notterm: "i \<notin> fst ` set (pl_terminal st)"
    proof
      assume "i \<in> fst ` set (pl_terminal st)"
      then have "i \<in> set (map fst (pl_terminal st))" by simp
      with ent Some False show False by (auto simp: entries_ok_def dest!: entries_areD [of "\<lambda>e. is_terminal (je_event e)"])
    qed
    have st: "report_progress i p st = st\<lparr>pl_jobs := (\<lambda>j. map_option (?f j) (pl_jobs st j))\<rparr>"
    proof -
      have "(pl_jobs st)(i \<mapsto> e\<lparr>je_event := EvRunning p\<rparr>) = (\<lambda>j. map_option (?f j) (pl_jobs st j))"
        using Some by (auto simp: fun_eq_iff option.map_ident)
      with Some False show ?thesis by (simp add: report_progress_def publish_event_def)
    qed
    have "pool_core [] (report_progress i p st)"
      unfolding st by (rule pool_core_update [OF core]) (use assms(2) notterm in \<open>auto simp: running_entry_def\<close>)
    moreover have "positions_ok (report_progress i p st)"
    proof (rule positions_ok_same [of st])
      show "positions_ok st" using assms(1) by (simp add: pool_inv_def)
      show "pl_queued (report_progress i p st) = pl_queued st" by (simp add: st)
      show "pl_jobs (report_progress i p st) j = pl_jobs st j" if "j \<in> set (pl_queued st)" for j
        using that assms(2) by (cases "pl_jobs st j") (auto simp: st)
    qed
    moreover have "drain_ok (report_progress i p st)"
      by (rule drain_ok_same [of st]) (use assms(1) in \<open>simp_all add: st pool_inv_def\<close>)
    ultimately show ?thesis using assms(1) by (simp add: pool_inv_def st)
  qed
qed

text \<open>A running job leaves its slot.\<close>

definition vacate :: "nat \<Rightarrow> ('r, 'a) job_entry \<Rightarrow> ('r, 'a) pool_state \<Rightarrow> ('r, 'a) pool_state" where
  "vacate i e st = st\<lparr>pl_tasks := remove1 i (pl_tasks st), pl_running := pl_running st - 1,
     pl_exclusive_running := je_weight e \<noteq> Exclusive \<and> pl_exclusive_running st\<rparr>"

lemma vacate_core:
  assumes "pool_core [] st" and i: "i \<in> set (pl_tasks st)" and e: "pl_jobs st i = Some e"
  shows "pool_core [i] (vacate i e st)"
proof -
  let ?st = "vacate i e st"
  have core: "lists_ok [] st" "entries_ok st" "keys_ok [] st" "slots_ok st" using assms(1) by (simp_all add: pool_core_def)
  have dis: "distinct (pl_tasks st)" using lists_okD(1) [OF core(1)] by simp
  have ids: "set (all_ids [i] ?st) = set (all_ids [] st)" using dis i by (auto simp: all_ids_def vacate_def)
  have "distinct (all_ids [i] ?st)" using lists_okD(1) [OF core(1)] i by (auto simp: all_ids_def vacate_def)
  then have "lists_ok [i] ?st" using core(1) unfolding lists_ok_def ids by (simp add: vacate_def)
  moreover have "entries_ok ?st"
    using core(2) by (auto simp: entries_ok_def entries_are_def vacate_def list_all_iff dest: notin_set_remove1)
  moreover have "keys_ok [i] ?st"
  proof (rule keys_okI, goal_cases)
    case (1 k j)
    then show ?case using keys_okD(1) [OF core(3), of k j] by (auto simp: vacate_def)
  next
    case (2 k j)
    then show ?case using keys_okD(2) [OF core(3), of k j] by (simp add: vacate_def)
  next
    case (3 j f)
    then have "j \<in> set (pl_queued st @ pl_tasks st)" by (auto simp: vacate_def dest: notin_set_remove1)
    with 3 keys_okD(3) [OF core(3), of j f] show ?case by (simp add: vacate_def)
  qed
  moreover have "slots_ok ?st"
  proof -
    have len: "length (remove1 i (pl_tasks st)) = pl_running st - 1" using i core(4) by (simp add: slots_ok_def length_remove1)
    have one: "pl_tasks st = [i]" if "pl_exclusive_running st"
      using that core(4) i by (cases "pl_tasks st") (auto simp: slots_ok_def)
    have ex: "exclusive_job ?st j = exclusive_job st j" for j by (simp add: exclusive_job_def vacate_def)
    have "(\<exists>j \<in> set (remove1 i (pl_tasks st)). exclusive_job st j) \<longleftrightarrow> je_weight e \<noteq> Exclusive \<and> pl_exclusive_running st"
    proof (cases "pl_exclusive_running st")
      case True
      then have "exclusive_job st i" using core(4) one by (auto simp: slots_ok_def)
      with True one e show ?thesis by (simp add: exclusive_job_def)
    next
      case False
      with core(4) show ?thesis by (auto simp: slots_ok_def dest: notin_set_remove1)
    qed
    moreover have "je_weight e \<noteq> Exclusive \<and> pl_exclusive_running st \<longrightarrow> False"
    proof
      assume a: "je_weight e \<noteq> Exclusive \<and> pl_exclusive_running st"
      then have "exclusive_job st i" using core(4) one by (auto simp: slots_ok_def)
      with a e show False by (simp add: exclusive_job_def)
    qed
    ultimately show ?thesis
      using core(4) len unfolding slots_ok_def ex by (auto simp: vacate_def)
  qed
  ultimately show ?thesis by (simp add: pool_core_def)
qed

lemma finish_as_settle:
  assumes "pl_jobs st i = Some e" and "i \<in> set (pl_tasks st)"
  shows "finish_job now i out st =
    (let st3 = settle now i (outcome_event out) (vacate i e st) in
     dispatch now (if pl_running st3 = 0 \<and> pl_drained st3 then st3\<lparr>pl_drained := False, pl_replied := True\<rparr> else st3))"
proof -
  let ?s = "st\<lparr>pl_tasks := remove1 i (pl_tasks st)\<rparr>"
  let ?p = "release_key (je_key e) i (publish_event i (outcome_event out) ?s)"
  have "(if je_weight e = Exclusive then ?p\<lparr>pl_exclusive_running := False\<rparr> else ?p)\<lparr>pl_running :=
      pl_running (if je_weight e = Exclusive then ?p\<lparr>pl_exclusive_running := False\<rparr> else ?p) - 1\<rparr> =
    release_key (je_key e) i (publish_event i (outcome_event out) (vacate i e st))"
    by (simp add: release_key_def publish_event_def vacate_def assms(1))
  note eq = this
  have j: "pl_jobs ?s i = Some e" "pl_jobs (vacate i e st) i = Some e" using assms(1) by (simp_all add: vacate_def)
  show ?thesis unfolding finish_job_def settle_def Let_def j option.case eq ..
qed

definition answered :: "('r, 'a) pool_state \<Rightarrow> ('r, 'a) pool_state" where
  "answered st = (if pl_running st = 0 \<and> pl_drained st then st\<lparr>pl_drained := False, pl_replied := True\<rparr> else st)"

lemma finish_eq:
  assumes "pool_core [] st" and i: "i \<in> set (pl_tasks st)"
  obtains e where "pl_jobs st i = Some e"
    "finish_job now i out st = dispatch now (answered (settle now i (outcome_event out) (vacate i e st)))"
    "pool_core [] (answered (settle now i (outcome_event out) (vacate i e st)))"
proof -
  obtain e where e: "pl_jobs st i = Some e"
    using assms entries_areD [of running_entry st "pl_tasks st" i] by (auto simp: pool_core_def entries_ok_def)
  have "pool_core [] (settle now i (outcome_event out) (vacate i e st))"
    by (rule pool_core_settle [OF vacate_core [OF assms(1) i e]]) (cases out, simp_all)
  then have "pool_core [] (answered (settle now i (outcome_event out) (vacate i e st)))"
    by (auto simp: answered_def pool_core_def lists_ok_def all_ids_def entries_ok_def entries_are_def keys_ok_def slots_ok_def
        exclusive_job_def)
  moreover have "finish_job now i out st = dispatch now (answered (settle now i (outcome_event out) (vacate i e st)))"
    unfolding finish_as_settle [OF e i] answered_def Let_def ..
  ultimately show thesis using that [OF e] by blast
qed

lemma finish_inv:
  assumes "pool_inv st" and i: "i \<in> set (pl_tasks st)"
  shows "pool_inv (finish_job now i out st)"
proof -
  have core: "pool_core [] st" using assms(1) by (simp add: pool_inv_def)
  obtain e where e: "finish_job now i out st = dispatch now (answered (settle now i (outcome_event out) (vacate i e st)))"
    "pool_core [] (answered (settle now i (outcome_event out) (vacate i e st)))"
    using finish_eq [OF core i] by metis
  have run: "0 < pl_running st" using core i by (auto simp: pool_core_def slots_ok_def)
  have "drain_ok (answered (settle now i (outcome_event out) (vacate i e st)))"
    using assms(1) run by (auto simp: pool_inv_def drain_ok_def vacate_def answered_def split: if_splits)
  with e show ?thesis using dispatch_inv by metis
qed

text \<open>A cancelled job gives up its key.\<close>

lemma release_cancelled_core:
  assumes "pool_core [] st" and "pl_jobs st i = Some e" and "je_cancel e"
  shows "pool_core [] (release_key (je_key e) i st)"
proof (cases "pl_by_key st (je_key e) = Some i")
  case False
  then show ?thesis using assms(1) by (simp add: release_key_def)
next
  case True
  have core: "lists_ok [] st" "entries_ok st" "keys_ok [] st" "slots_ok st" using assms(1) by (simp_all add: pool_core_def)
  have st: "release_key (je_key e) i st = st\<lparr>pl_by_key := (pl_by_key st)(je_key e := None)\<rparr>"
    using True by (simp add: release_key_def)
  have "keys_ok [] (release_key (je_key e) i st)"
  proof (rule keys_okI, goal_cases)
    case (1 k j)
    then show ?case using keys_okD(1) [OF core(3), of k j] by (simp add: st split: if_splits)
  next
    case (2 k j)
    then show ?case using keys_okD(2) [OF core(3), of k j] by (simp add: st split: if_splits)
  next
    case (3 j f)
    then have k: "pl_by_key st (je_key f) = Some j" using keys_okD(3) [OF core(3), of j f] by (simp add: st)
    have "je_key f \<noteq> je_key e"
    proof
      assume "je_key f = je_key e"
      with k True have "j = i" by simp
      with 3 assms(2,3) show False by (simp add: st)
    qed
    with k show ?case by (simp add: st)
  qed
  moreover have "lists_ok [] (release_key (je_key e) i st)" using core(1) by (simp add: lists_ok_def all_ids_def st)
  moreover have "entries_ok (release_key (je_key e) i st)" using core(2) by (simp add: entries_ok_def entries_are_def st)
  moreover have "slots_ok (release_key (je_key e) i st)"
    by (rule slots_ok_same [OF core(4)]) (simp_all add: exclusive_job_def st)
  ultimately show ?thesis by (simp add: pool_core_def)
qed

definition mark_cancel :: "nat \<Rightarrow> ('r, 'a) pool_state \<Rightarrow> ('r, 'a) pool_state" where
  "mark_cancel i st =
     st\<lparr>pl_jobs := (\<lambda>j. map_option (\<lambda>e. if j = i then e\<lparr>je_cancel := True\<rparr> else e) (pl_jobs st j))\<rparr>"

lemma mark_cancel_eq:
  "pl_jobs st i = Some e \<Longrightarrow> st\<lparr>pl_jobs := (pl_jobs st)(i \<mapsto> e\<lparr>je_cancel := True\<rparr>)\<rparr> = mark_cancel i st"
proof -
  assume "pl_jobs st i = Some e"
  then have "((pl_jobs st)(i \<mapsto> e\<lparr>je_cancel := True\<rparr>)) j =
      map_option (\<lambda>e. if j = i then e\<lparr>je_cancel := True\<rparr> else e) (pl_jobs st j)" for j
    by (cases "pl_jobs st j") auto
  then show ?thesis unfolding mark_cancel_def by presburger
qed

lemma mark_cancel_core:
  assumes "pool_core limbo st" and "i \<notin> set (pl_queued st)"
  shows "pool_core limbo (mark_cancel i st)"
  unfolding mark_cancel_def
  by (rule pool_core_update [OF assms(1)]) (use assms(2) in \<open>auto simp: running_entry_def\<close>)

lemma unqueue_core:
  assumes "pool_core [] st" and i: "i \<in> set (pl_queued st)"
  shows "pool_core [i] (st\<lparr>pl_queued := remove1 i (pl_queued st)\<rparr>)"
proof -
  let ?st = "st\<lparr>pl_queued := remove1 i (pl_queued st)\<rparr>"
  have core: "lists_ok [] st" "entries_ok st" "keys_ok [] st" "slots_ok st" using assms(1) by (simp_all add: pool_core_def)
  have dis: "distinct (pl_queued st)" using lists_okD(1) [OF core(1)] by simp
  have ids: "set (all_ids [i] ?st) = set (all_ids [] st)" using dis i by (auto simp: all_ids_def)
  have "distinct (all_ids [i] ?st)" using lists_okD(1) [OF core(1)] i by (auto simp: all_ids_def dest: notin_set_remove1)
  then have "lists_ok [i] ?st" using core(1) unfolding lists_ok_def ids by simp
  moreover have "entries_ok ?st"
    using core(2) by (auto simp: entries_ok_def entries_are_def list_all_iff dest: notin_set_remove1)
  moreover have "keys_ok [i] ?st"
  proof (rule keys_okI, goal_cases)
    case (1 k j)
    then show ?case using keys_okD(1) [OF core(3), of k j] by auto
  next
    case (2 k j)
    then show ?case using keys_okD(2) [OF core(3), of k j] by simp
  next
    case (3 j f)
    then have "j \<in> set (pl_queued st @ pl_tasks st)" using set_remove1_subset [of i "pl_queued st"] by auto
    with 3 keys_okD(3) [OF core(3), of j f] show ?case by simp
  qed
  moreover have "slots_ok ?st" using core(4) i by (auto simp: slots_ok_def exclusive_job_def)
  ultimately show ?thesis by (simp add: pool_core_def)
qed

lemma cancel_as_settle:
  assumes e: "pl_jobs st i = Some e"
  shows "retire now i (publish_event i ev
      ((release_key (je_key e) i (mark_cancel i st))\<lparr>pl_queued := remove1 i (pl_queued st)\<rparr>)) =
    settle now i ev (mark_cancel i (st\<lparr>pl_queued := remove1 i (pl_queued st)\<rparr>))"
proof -
  let ?u = "st\<lparr>pl_queued := remove1 i (pl_queued st)\<rparr>"
  let ?e = "e\<lparr>je_cancel := True\<rparr>"
  have je: "pl_jobs (mark_cancel i ?u) i = Some ?e" by (simp add: mark_cancel_def e)
  have "release_key (je_key ?e) i (publish_event i ev (mark_cancel i ?u)) =
      publish_event i ev ((release_key (je_key e) i (mark_cancel i st))\<lparr>pl_queued := remove1 i (pl_queued st)\<rparr>)"
    by (rule pool_state.equality) (simp_all add: publish_event_def release_key_def mark_cancel_def e)
  then show ?thesis by (simp add: settle_def je)
qed

lemma unqueued_cancelled_core:
  assumes "pool_core [] st" and i: "i \<in> set (pl_queued st)"
  shows "pool_core [i] (mark_cancel i (st\<lparr>pl_queued := remove1 i (pl_queued st)\<rparr>))"
proof -
  have "distinct (pl_queued st)" using assms(1) lists_okD(1) [of "[]" st] by (simp add: pool_core_def)
  then show ?thesis by (intro mark_cancel_core [OF unqueue_core [OF assms]]) simp
qed

lemma cancel_waiting_core:
  assumes "pool_core [] st" and i: "i \<in> set (pl_queued st)" and e: "pl_jobs st i = Some e" and ev: "is_terminal ev"
  shows "pool_core [] (retire now i (publish_event i ev
    ((release_key (je_key e) i (mark_cancel i st))\<lparr>pl_queued := remove1 i (pl_queued st)\<rparr>)))"
  unfolding cancel_as_settle [OF e] by (rule pool_core_settle [OF unqueued_cancelled_core [OF assms(1,2)] ev])

lemma cancel_inv:
  assumes "pool_inv st"
  shows "pool_inv (fst (cancel_job now i st))"
proof (cases "pl_jobs st i")
  case None
  then show ?thesis using assms by (simp add: cancel_job_def)
next
  case (Some e)
  have core: "pool_core [] st" using assms by (simp add: pool_inv_def)
  show ?thesis
  proof (cases "is_terminal (je_event e)")
    case True
    with Some assms show ?thesis by (simp add: cancel_job_def)
  next
    case live: False
    let ?r = "release_key (je_key e) i (mark_cancel i st)"
    have fr: "pl_queued ?r = pl_queued st" "pl_running ?r = pl_running st" "pl_shutting_down ?r = pl_shutting_down st"
      "pl_drained ?r = pl_drained st" "pl_replied ?r = pl_replied st"
      by (simp_all add: release_key_def mark_cancel_def)
    show ?thesis
    proof (cases "i \<in> set (pl_queued st)")
      case True
      let ?q = "publish_event i (EvFailed ''cancelled'' True) (?r\<lparr>pl_queued := remove1 i (pl_queued st)\<rparr>)"
      let ?t = "retire now i ?q"
      have c: "pool_core [] ?t" by (rule cancel_waiting_core [OF core True Some]) simp
      have eq: "fst (cancel_job now i st) = rebroadcast_positions ?t"
        using Some live True fr(1) by (simp add: cancel_job_def Let_def mark_cancel_eq [OF Some])
      have ff: "pl_queued ?q = remove1 i (pl_queued st)" "pl_running ?q = pl_running st" "pl_shutting_down ?q = pl_shutting_down st"
        "pl_drained ?q = pl_drained st" "pl_replied ?q = pl_replied st"
        using fr by (simp_all add: publish_event_def split: option.split)
      have "drain_ok (rebroadcast_positions ?t)"
        by (rule drain_ok_same [of st]) (use assms in \<open>simp_all add: rebroadcast_frame [OF c] ff pool_inv_def\<close>)
      moreover have "remove1 i (pl_queued st) \<noteq> [] \<longrightarrow> 0 < pl_running st" using assms by (auto simp: pool_inv_def)
      ultimately show ?thesis
        using pool_core_rebroadcast [OF c] by (simp add: eq pool_inv_def rebroadcast_frame [OF c] ff)
    next
      case False
      have m: "pl_jobs (mark_cancel i st) i = Some (e\<lparr>je_cancel := True\<rparr>)" by (simp add: mark_cancel_def Some)
      have "pool_core [] ?r" using release_cancelled_core [OF mark_cancel_core [OF core False] m] by simp
      moreover have "positions_ok ?r"
      proof (rule positions_ok_same [of st])
        show "pl_jobs ?r j = pl_jobs st j" if "j \<in> set (pl_queued st)" for j
          using that False by (cases "pl_jobs st j") (auto simp: release_key_def mark_cancel_def)
      qed (use assms fr in \<open>simp_all add: pool_inv_def\<close>)
      moreover have "drain_ok ?r" by (rule drain_ok_same [of st]) (use assms fr in \<open>simp_all add: pool_inv_def\<close>)
      moreover have "fst (cancel_job now i st) = ?r"
        using Some live False fr(1) by (simp add: cancel_job_def Let_def mark_cancel_eq [OF Some])
      ultimately show ?thesis using assms fr by (simp add: pool_inv_def)
    qed
  qed
qed

lemma settle_all_core:
  "pool_core js st \<Longrightarrow> is_terminal ev \<Longrightarrow> pool_core [] (foldl (\<lambda>s i. settle now i ev s) st js)"
  by (induction js arbitrary: st) (auto intro: pool_core_settle)

lemma settle_all_frame:
  "pl_tasks (foldl (\<lambda>s i. settle now i ev s) st js) = pl_tasks st"
  "pl_running (foldl (\<lambda>s i. settle now i ev s) st js) = pl_running st"
  "pl_shutting_down (foldl (\<lambda>s i. settle now i ev s) st js) = pl_shutting_down st"
  "pl_drained (foldl (\<lambda>s i. settle now i ev s) st js) = pl_drained st"
  "pl_replied (foldl (\<lambda>s i. settle now i ev s) st js) = pl_replied st"
  "pl_queued (foldl (\<lambda>s i. settle now i ev s) st js) = pl_queued st"
  by (induction js arbitrary: st) auto

lemma all_limbo_core:
  assumes "pool_core [] st"
  shows "pool_core (pl_queued st) (st\<lparr>pl_shutting_down := True, pl_queued := []\<rparr>)"
proof -
  let ?s0 = "st\<lparr>pl_shutting_down := True, pl_queued := []\<rparr>"
  have core: "lists_ok [] st" "entries_ok st" "keys_ok [] st" "slots_ok st" using assms by (simp_all add: pool_core_def)
  have "lists_ok (pl_queued st) ?s0" using core(1) by (simp add: lists_ok_def all_ids_def)
  moreover have "entries_ok ?s0" using core(2) by (simp add: entries_ok_def entries_are_def)
  moreover have "keys_ok (pl_queued st) ?s0"
    using core(3) unfolding keys_ok_def by auto
  moreover have "slots_ok ?s0" using core(4) by (auto simp: slots_ok_def exclusive_job_def)
  ultimately show ?thesis by (simp add: pool_core_def)
qed

lemma shutdown_inv:
  assumes "pool_inv st"
  shows "pool_inv (shutdown_pool now st)"
proof -
  let ?ev = "EvFailed ''server is shutting down'' True"
  let ?s0 = "st\<lparr>pl_shutting_down := True, pl_queued := []\<rparr>"
  let ?s1 = "foldl (\<lambda>s i. settle now i ?ev s) ?s0 (pl_queued st)"
  let ?s2 = "?s1\<lparr>pl_jobs := (\<lambda>i. map_option (\<lambda>e. e\<lparr>je_cancel := True\<rparr>) (pl_jobs ?s1 i))\<rparr>"
  have "pool_core (pl_queued st) ?s0" by (rule all_limbo_core) (use assms in \<open>simp add: pool_inv_def\<close>)
  then have c1: "pool_core [] ?s1" by (rule settle_all_core) simp
  have q: "pl_queued ?s1 = []" by (simp add: settle_all_frame)
  have c2: "pool_core [] ?s2"
    by (rule pool_core_update [OF c1]) (use q in \<open>auto simp: running_entry_def\<close>)
  let ?t = "if pl_running ?s2 = 0 then ?s2\<lparr>pl_replied := True\<rparr> else ?s2\<lparr>pl_drained := True\<rparr>"
  have t: "shutdown_pool now st = ?t" by (simp add: shutdown_pool_def Let_def)
  have "pool_core [] ?t"
    using c2 by (auto simp: pool_core_def lists_ok_def all_ids_def entries_ok_def entries_are_def keys_ok_def slots_ok_def
        exclusive_job_def)
  moreover have "positions_ok ?t" using q by (simp add: positions_ok_def)
  moreover have "drain_ok ?t" by (simp add: drain_ok_def settle_all_frame)
  ultimately show ?thesis unfolding t using q by (simp add: pool_inv_def)
qed

lemma pool_step_inv: "pool_step st st' \<Longrightarrow> pool_inv st \<Longrightarrow> pool_inv st'"
  by (induction rule: pool_step.induct) (auto intro: submit_inv cancel_inv progress_inv finish_inv shutdown_inv)

lemma pool_reachable_inv: "pool_reachable st \<Longrightarrow> pool_inv st"
proof (induction rule: pool_reachable.induct)
  case (started m t c)
  show ?case
    by (simp add: pre_start_def pool_inv_def pool_core_def lists_ok_def all_ids_def entries_ok_def entries_are_def
        keys_ok_def slots_ok_def positions_ok_def drain_ok_def)
next
  case (stepped st st')
  then show ?case using pool_step_inv by blast
qed

end
