(* ===== verification/PoolProps.thy ===== *)
theory PoolProps
  imports PoolInv
begin

text \<open>
  The properties of the transcode pool: bounded slots with an exclusive job alone, one encode
  per key, a queue nobody overtakes, every job settles, and the refinement of an abstract
  work pool.
\<close>

section \<open>Slots and keys\<close>

lemma release_key_frame [simp]:
  "pl_queued (release_key k i st) = pl_queued st" "pl_tasks (release_key k i st) = pl_tasks st"
  "pl_terminal (release_key k i st) = pl_terminal st" "pl_jobs (release_key k i st) = pl_jobs st"
  by (simp_all add: release_key_def)

lemma publish_event_frame [simp]:
  "pl_queued (publish_event i ev st) = pl_queued st" "pl_tasks (publish_event i ev st) = pl_tasks st"
  "pl_terminal (publish_event i ev st) = pl_terminal st"
  by (simp_all add: publish_event_def split: option.split)

definition live :: "('r, 'a) pool_state \<Rightarrow> nat list" where
  "live st = pl_queued st @ pl_tasks st"

lemma pool_invD:
  assumes "pool_inv st"
  shows "pool_core [] st" "lists_ok [] st" "entries_ok st" "keys_ok [] st" "slots_ok st" "positions_ok st"
    "pl_queued st \<noteq> [] \<Longrightarrow> 0 < pl_running st" "drain_ok st"
  using assms by (simp_all add: pool_inv_def pool_core_def)

text \<open>
  The pool never runs more encodes than it may, an exclusive encode runs alone, and a job
  waits only while some encode runs.
\<close>

theorem pool_slots_bounded:
  assumes "pool_reachable st"
  shows "length (pl_tasks st) \<le> pl_max_concurrent st \<and>
    ((\<exists>i \<in> set (pl_tasks st). exclusive_job st i) \<longrightarrow> length (pl_tasks st) = 1) \<and>
    (pl_queued st \<noteq> [] \<longrightarrow> pl_tasks st \<noteq> [])"
proof -
  have inv: "pool_inv st" by (rule pool_reachable_inv [OF assms])
  note s = pool_invD(5) [OF inv] and q = pool_invD(7) [OF inv]
  show ?thesis using s q by (auto simp: slots_ok_def)
qed

text \<open>
  C29.  At most one encode per cache key is wanted: two jobs of a key that wait or run and are
  not cancelled are the same job, it is the one a submit of the key joins, and the join map
  never answers with a finished job.
\<close>

theorem one_encode_per_key:
  assumes "pool_reachable st"
  shows "(\<forall>i \<in> set (live st). \<forall>j \<in> set (live st). \<forall>e f.
      pl_jobs st i = Some e \<longrightarrow> pl_jobs st j = Some f \<longrightarrow> \<not> je_cancel e \<longrightarrow> \<not> je_cancel f \<longrightarrow>
      je_key e = je_key f \<longrightarrow> i = j \<and> job_for_key st (je_key e) = Some (i, je_event e)) \<and>
    (\<forall>key snap. job_for_key st key = Some snap \<longrightarrow> \<not> is_terminal (snd snap))"
proof -
  have inv: "pool_inv st" by (rule pool_reachable_inv [OF assms])
  note k = pool_invD(4) [OF inv] and ent = pool_invD(3) [OF inv]
  have "i = j \<and> job_for_key st (je_key e) = Some (i, je_event e)"
    if "i \<in> set (live st)" "j \<in> set (live st)" "pl_jobs st i = Some e" "pl_jobs st j = Some f"
      "\<not> je_cancel e" "\<not> je_cancel f" "je_key e = je_key f" for i j e f
  proof -
    have a: "pl_by_key st (je_key e) = Some i" by (rule keys_okD(3) [OF k]) (use that in \<open>simp_all add: live_def\<close>)
    have b: "pl_by_key st (je_key f) = Some j" by (rule keys_okD(3) [OF k]) (use that in \<open>simp_all add: live_def\<close>)
    have "job_for_key st (je_key e) = Some (i, je_event e)" using a that(3) by (simp add: job_for_key_def snapshot_of_def)
    moreover have "i = j" using a b that(7) by (metis option.inject)
    ultimately show ?thesis by blast
  qed
  moreover have "\<not> is_terminal (snd snap)" if w: "job_for_key st key = Some snap" for key snap
  proof -
    obtain i where i: "pl_by_key st key = Some i" "snapshot_of st i = Some snap"
      using w unfolding job_for_key_def Option.bind_eq_Some_conv by blast
    then have "i \<in> set (pl_queued st) \<or> i \<in> set (pl_tasks st)" using keys_okD(1) [OF k i(1)] by auto
    then obtain e where "pl_jobs st i = Some e" "waiting_entry e \<or> running_entry e"
      using ent entries_areD [of waiting_entry st "pl_queued st" i] entries_areD [of running_entry st "pl_tasks st" i]
      by (auto simp: entries_ok_def)
    with i(2) show ?thesis by (auto simp: snapshot_of_def waiting_entry_def running_entry_def)
  qed
  ultimately show ?thesis by (intro conjI ballI allI impI) blast+
qed

section \<open>An abstract work pool\<close>

text \<open>
  The contract of the pool without keys, entries and events: a waiting list, the running jobs,
  which of both want to run alone, and whether the pool is closed.  Every operation is a
  function, so the order of the queue and of the starts is pinned; it answers the new pool and
  the jobs that ended, in their order.
\<close>

record work_pool =
  wp_limit :: nat
  wp_waiting :: "nat list"
  wp_running :: "nat list"
  wp_exclusive :: "nat set"
  wp_closed :: bool

text \<open>
  The head of the queue starts while a slot is free, no exclusive job runs, and, if it is
  exclusive itself, nothing runs; whoever stands behind a head that may not start waits.
\<close>

fun admit :: "nat \<Rightarrow> nat set \<Rightarrow> nat list \<Rightarrow> nat list \<Rightarrow> nat list \<times> nat list" where
  "admit limit alone [] running = ([], running)"
| "admit limit alone (i # rest) running =
     (if length running < limit \<and> set running \<inter> alone = {} \<and> (i \<in> alone \<longrightarrow> running = [])
      then admit limit alone rest (running @ [i])
      else (i # rest, running))"

definition work_admit :: "work_pool \<Rightarrow> work_pool" where
  "work_admit w =
     (case admit (wp_limit w) (wp_exclusive w) (wp_waiting w) (wp_running w) of
        (waiting, running) \<Rightarrow> w\<lparr>wp_waiting := waiting, wp_running := running\<rparr>)"

definition work_enqueue :: "nat \<Rightarrow> bool \<Rightarrow> work_pool \<Rightarrow> work_pool \<times> nat list" where
  "work_enqueue i alone w =
     (work_admit (w\<lparr>wp_waiting := wp_waiting w @ [i],
        wp_exclusive := (if alone then insert i (wp_exclusive w) else wp_exclusive w)\<rparr>), [])"

definition work_withdraw :: "nat \<Rightarrow> work_pool \<Rightarrow> work_pool \<times> nat list" where
  "work_withdraw i w =
     (if i \<in> set (wp_waiting w)
      then (w\<lparr>wp_waiting := remove1 i (wp_waiting w), wp_exclusive := wp_exclusive w - {i}\<rparr>, [i])
      else (w, []))"

definition work_complete :: "nat \<Rightarrow> work_pool \<Rightarrow> work_pool \<times> nat list" where
  "work_complete i w =
     (work_admit (w\<lparr>wp_running := remove1 i (wp_running w), wp_exclusive := wp_exclusive w - {i}\<rparr>), [i])"

definition work_close :: "work_pool \<Rightarrow> work_pool \<times> nat list" where
  "work_close w =
     (w\<lparr>wp_waiting := [], wp_exclusive := wp_exclusive w \<inter> set (wp_running w), wp_closed := True\<rparr>, wp_waiting w)"

text \<open>What the pool looks like from outside, and its ring of ended jobs.\<close>

definition abs_pool :: "('r, 'a) pool_state \<Rightarrow> work_pool" where
  "abs_pool st =
     \<lparr>wp_limit = pl_max_concurrent st, wp_waiting = pl_queued st, wp_running = pl_tasks st,
      wp_exclusive = {i \<in> set (live st). exclusive_job st i}, wp_closed = pl_shutting_down st\<rparr>"

definition ring :: "('r, 'a) pool_state \<Rightarrow> nat list" where
  "ring st = map fst (pl_terminal st)"

text \<open>
  A message implements an operation: the pool is the operation's, and the ring has got the
  jobs that ended, in order, and forgotten some of its oldest.
\<close>

definition implements :: "('r, 'a) pool_state \<Rightarrow> work_pool \<times> nat list \<Rightarrow> ('r, 'a) pool_state \<Rightarrow> bool" where
  "implements st result st' \<longleftrightarrow>
     abs_pool st' = fst result \<and> (\<exists>n. ring st' = drop n (ring st @ snd result))"

lemma drop_drop_append: "\<exists>k. drop m (drop n xs @ ys) = drop k (xs @ ys)"
proof -
  have "drop n xs @ ys = drop (min n (length xs)) (xs @ ys)" by (simp add: min_def)
  then show ?thesis by (metis drop_drop)
qed

lemma ring_retire: "\<exists>n. ring (retire now i st) = drop n (ring st @ [i])"
proof -
  let ?u = "st\<lparr>pl_terminal := pl_terminal st @ [(i, now)]\<rparr>"
  obtain n where "retire now i st = forget n ?u" using prune_forgets [of now ?u] by (auto simp: retire_def)
  then have "ring (retire now i st) = map fst (drop n (pl_terminal st @ [(i, now)]))" by (simp add: ring_def forget_def)
  then have "ring (retire now i st) = drop n (ring st @ [i])" by (simp add: ring_def drop_map [symmetric] del: drop_append)
  then show ?thesis ..
qed

lemma ring_settle:
  assumes "pool_core (i # limbo) st"
  shows "\<exists>n. ring (settle now i ev st) = drop n (ring st @ [i])"
proof -
  have "lists_ok (i # limbo) st" using assms by (simp add: pool_core_def)
  then obtain e where e: "pl_jobs st i = Some e" using lists_okD(2) [of "i # limbo" st i] by auto
  let ?s = "release_key (je_key e) i (publish_event i ev st)"
  have "settle now i ev st = retire now i ?s" by (simp add: settle_def e)
  moreover have "ring ?s = ring st" by (simp add: ring_def)
  ultimately show ?thesis using ring_retire [of now i ?s] by simp
qed

lemma settle_keeps_entries:
  assumes "pool_core (i # limbo) st" and "j \<in> set (limbo @ live st)"
  shows "pl_jobs (settle now i ev st) j = pl_jobs st j"
proof -
  have l: "lists_ok (i # limbo) st" using assms by (simp add: pool_core_def)
  then obtain e where e: "pl_jobs st i = Some e" using lists_okD(2) [of "i # limbo" st i] by auto
  let ?s = "release_key (je_key e) i (publish_event i ev st)"
  have out: "j \<noteq> i" "j \<notin> fst ` set (pl_terminal ?s)"
    using lists_okD(1) [OF l] assms(2) by (auto simp: live_def)
  have "pl_jobs (settle now i ev st) j = pl_jobs ?s j"
    using retire_jobs [OF out(2,1)] by (simp add: settle_def e)
  also have "\<dots> = pl_jobs st j" using out(1) by (simp add: publish_event_def e)
  finally show ?thesis .
qed

lemma settle_all_ends:
  "pool_core js st \<Longrightarrow> is_terminal ev \<Longrightarrow>
    (\<exists>n. ring (foldl (\<lambda>s i. settle now i ev s) st js) = drop n (ring st @ js)) \<and>
    (\<forall>j \<in> set (live st). pl_jobs (foldl (\<lambda>s i. settle now i ev s) st js) j = pl_jobs st j)"
proof (induction js arbitrary: st)
  case Nil
  show ?case by (auto intro: exI [of _ 0])
next
  case (Cons i js)
  let ?s = "settle now i ev st"
  have live: "live ?s = live st" by (simp add: live_def)
  obtain n where n: "ring ?s = drop n (ring st @ [i])" using ring_settle [OF Cons.prems(1)] by blast
  have IH: "\<exists>m. ring (foldl (\<lambda>s i. settle now i ev s) ?s js) = drop m (ring ?s @ js)"
    "\<forall>j \<in> set (live st). pl_jobs (foldl (\<lambda>s i. settle now i ev s) ?s js) j = pl_jobs ?s j"
    using Cons.IH [OF pool_core_settle [OF Cons.prems]] Cons.prems(2) live by simp_all
  from IH(1) obtain m where "ring (foldl (\<lambda>s i. settle now i ev s) ?s js) = drop m (drop n (ring st @ [i]) @ js)"
    unfolding n by blast
  then have "\<exists>k. ring (foldl (\<lambda>s i. settle now i ev s) ?s js) = drop k (ring st @ i # js)"
    using drop_drop_append [of m n "ring st @ [i]" js] by simp
  moreover have "pl_jobs ?s j = pl_jobs st j" if "j \<in> set (live st)" for j
    using settle_keeps_entries [OF Cons.prems(1)] that by simp
  ultimately show ?case using IH(2) by simp
qed

lemma abs_poolI:
  assumes "pl_max_concurrent st = wp_limit w" "pl_queued st = wp_waiting w" "pl_tasks st = wp_running w"
    "pl_shutting_down st = wp_closed w" "\<And>i. i \<in> set (live st) \<Longrightarrow> exclusive_job st i \<longleftrightarrow> i \<in> wp_exclusive w"
    "wp_exclusive w \<subseteq> set (live st)"
  shows "abs_pool st = w"
  by (rule work_pool.equality) (use assms in \<open>auto simp: abs_pool_def\<close>)

lemma abs_cong:
  assumes "pl_queued st' = pl_queued st" "pl_tasks st' = pl_tasks st" "pl_max_concurrent st' = pl_max_concurrent st"
    "pl_shutting_down st' = pl_shutting_down st"
    and "\<And>i. i \<in> set (live st) \<Longrightarrow> exclusive_job st' i = exclusive_job st i"
  shows "abs_pool st' = abs_pool st"
  by (rule abs_poolI) (use assms in \<open>auto simp: abs_pool_def live_def\<close>)

lemma abs_rebroadcast:
  assumes "pool_core limbo st"
  shows "abs_pool (rebroadcast_positions st) = abs_pool st"
proof -
  have "exclusive_job (rebroadcast_positions st) i = exclusive_job st i" for i
    unfolding rebroadcast_map [OF assms] exclusive_job_def
    by (cases "pl_jobs st i") (simp_all add: with_place_def)
  then show ?thesis by (simp add: abs_pool_def live_def rebroadcast_frame [OF assms])
qed

lemma admit_blocked:
  assumes "slots_ok st" and "head_blocked st"
  shows "work_admit (abs_pool st) = abs_pool st"
proof (cases "pl_queued st")
  case Nil
  then show ?thesis by (simp add: work_admit_def abs_pool_def)
next
  case (Cons i rest)
  have s: "pl_running st = length (pl_tasks st)" "pl_exclusive_running st \<longleftrightarrow> (\<exists>i \<in> set (pl_tasks st). exclusive_job st i)"
    "\<not> pl_shutting_down st" "pl_max_concurrent st = pl_running st \<or> pl_exclusive_running st \<or> exclusive_job st i \<and> 0 < pl_running st"
    using assms Cons by (auto simp: slots_ok_def head_blocked_def)
  let ?alone = "{i \<in> set (live st). exclusive_job st i}"
  have "admit (pl_max_concurrent st) ?alone (i # rest) (pl_tasks st) = (i # rest, pl_tasks st)"
    using s by (auto simp: live_def Cons)
  then show ?thesis by (simp add: work_admit_def abs_pool_def Cons)
qed

lemma admit_started:
  assumes "pool_core [] st" and q: "pl_queued st = i # rest" and e: "pl_jobs st i = Some e"
    and free: "pl_running st < pl_max_concurrent st" "\<not> pl_exclusive_running st"
      "je_weight e = Exclusive \<longrightarrow> pl_running st = 0"
  shows "work_admit (abs_pool (started i rest e st)) = work_admit (abs_pool st)"
proof -
  have s: "slots_ok st" using assms(1) by (simp add: pool_core_def)
  have ex: "exclusive_job (started i rest e st) j = exclusive_job st j" for j
    using e by (simp add: exclusive_job_def started_def)
  have f: "pl_queued (started i rest e st) = rest" "pl_tasks (started i rest e st) = pl_tasks st @ [i]"
    "pl_max_concurrent (started i rest e st) = pl_max_concurrent st"
    "pl_shutting_down (started i rest e st) = pl_shutting_down st"
    by (simp_all add: started_def)
  let ?alone = "{j \<in> set (live st). exclusive_job st j}"
  have alone: "{j \<in> set (live (started i rest e st)). exclusive_job st j} = ?alone"
    by (auto simp: live_def f q)
  have "length (pl_tasks st) < pl_max_concurrent st" "set (pl_tasks st) \<inter> ?alone = {}" "i \<in> ?alone \<longrightarrow> pl_tasks st = []"
    using s free e by (auto simp: slots_ok_def exclusive_job_def)
  then have "admit (pl_max_concurrent st) ?alone (i # rest) (pl_tasks st) =
      admit (pl_max_concurrent st) ?alone rest (pl_tasks st @ [i])" by simp
  then show ?thesis by (simp add: work_admit_def abs_pool_def f ex alone q)
qed

lemma abs_dispatch_loop:
  "pool_core [] st \<Longrightarrow> abs_pool (dispatch_loop now st) = work_admit (abs_pool st)"
proof (induction "length (pl_queued st)" arbitrary: st rule: less_induct)
  case less
  from less.prems show ?case
  proof (cases rule: dispatch_loop_round [where now = now])
    case stays
    moreover have "slots_ok st" using less.prems by (simp add: pool_core_def)
    ultimately show ?thesis using admit_blocked [of st] by simp
  next
    case (starts i rest e)
    have core: "pool_core [] (started i rest e st)" by (rule pool_core_started [OF less.prems starts(1-6)])
    have "length (pl_queued (started i rest e st)) < length (pl_queued st)" by (simp add: starts(1) started_def)
    from less.hyps [OF this core]
    show ?thesis unfolding starts(7) admit_started [OF less.prems starts(1,2,4-6)] .
  qed
qed

lemma abs_dispatch:
  assumes "pool_core [] st"
  shows "abs_pool (dispatch now st) = work_admit (abs_pool st)" "ring (dispatch now st) = ring st"
proof -
  have d: "pool_core [] (dispatch_loop now st)" "dispatched st (dispatch_loop now st)"
    using dispatch_loop_core [OF assms] by blast+
  show "abs_pool (dispatch now st) = work_admit (abs_pool st)"
    using abs_dispatch_loop [OF assms] by (simp add: dispatch_def abs_rebroadcast [OF d(1)])
  show "ring (dispatch now st) = ring st"
    using d by (simp add: ring_def dispatch_def rebroadcast_frame [OF d(1)] dispatched_def)
qed

section \<open>Every message is an operation of the abstract pool\<close>

lemma fresh_unknown:
  assumes "pool_core [] st" and "i \<notin> set (pl_issued st)"
  shows "pl_jobs st i = None" "i \<notin> set (live st)" "i \<notin> fst ` set (pl_terminal st)"
proof -
  have l: "lists_ok [] st" using assms(1) by (simp add: pool_core_def)
  show out: "i \<notin> set (live st)" "i \<notin> fst ` set (pl_terminal st)"
    using l assms(2) by (auto simp: lists_ok_def all_ids_def live_def)
  show "pl_jobs st i = None" using lists_okD(2) [OF l, of i] out by (auto simp: live_def)
qed

lemma implements_same: "abs_pool st' = abs_pool st \<Longrightarrow> ring st' = ring st \<Longrightarrow> implements st (abs_pool st, []) st'"
  by (auto simp: implements_def intro: exI [of _ 0])

lemma implements_refused:
  assumes "pool_core [] st" and "i \<notin> set (pl_issued st)"
  shows "implements st (abs_pool st, [i]) (fst (insert_terminal_job now i key ev st))"
proof -
  note f = fresh_unknown [OF assms]
  let ?e = "\<lparr>je_key = key, je_weight = Light, je_cancel = False, je_event = ev, je_pending = None\<rparr>"
  let ?s = "st\<lparr>pl_jobs := (pl_jobs st)(i \<mapsto> ?e), pl_issued := pl_issued st @ [i]\<rparr>"
  have l: "distinct (live st @ map fst (pl_terminal st))"
    using assms(1) lists_okD(1) [of "[]" st] by (simp add: pool_core_def live_def)
  have t: "fst (insert_terminal_job now i key ev st) = retire now i ?s" by (simp add: insert_terminal_job_def Let_def)
  have "pl_jobs (retire now i ?s) j = pl_jobs st j" if "j \<in> set (live st)" for j
    using retire_jobs [of j ?s i now] that f(2) l by (auto simp: disjoint_iff)
  moreover have "pl_max_concurrent (retire now i ?s) = pl_max_concurrent st"
    by (auto simp: retire_def prune_terminal_def split: prod.split)
  ultimately have "abs_pool (retire now i ?s) = abs_pool st" by - (rule abs_cong, simp_all add: exclusive_job_def)
  moreover have "\<exists>n. ring (retire now i ?s) = drop n (ring st @ [i])"
    using ring_retire [of now i ?s] by (simp add: ring_def)
  ultimately show ?thesis by (simp add: t implements_def)
qed

text \<open>A submit joins or hits, is refused, or enqueues.\<close>

definition submit_effect ::
  "nat \<Rightarrow> 'r submit_request \<Rightarrow> 'a option \<Rightarrow> string option \<Rightarrow> 'a job_snapshot option \<Rightarrow> work_pool \<Rightarrow> work_pool \<times> nat list" where
  "submit_effect i r hit failure joined w =
     (if hit \<noteq> None \<or> joined \<noteq> None then (w, [])
      else if wp_closed w \<or> failure \<noteq> None then (w, [i])
      else work_enqueue i (sr_weight r = Exclusive) w)"

lemma implements_submit:
  assumes "pool_core [] st" and i: "i \<notin> set (pl_issued st)"
  shows "implements st (submit_effect i r hit failure (job_for_key st (sr_key r)) (abs_pool st))
    (fst (submit_job now i r hit failure st))"
proof -
  have closed: "wp_closed (abs_pool st) = pl_shutting_down st" by (simp add: abs_pool_def)
  consider "hit \<noteq> None \<or> job_for_key st (sr_key r) \<noteq> None"
    | (refused) "hit = None" "job_for_key st (sr_key r) = None" "pl_shutting_down st \<or> failure \<noteq> None"
    | (new) "hit = None" "job_for_key st (sr_key r) = None" "\<not> pl_shutting_down st" "failure = None" by blast
  then show ?thesis
  proof cases
    case 1
    then have "fst (submit_job now i r hit failure st) = st"
      by (auto simp: submit_job_def job_for_key_def split: option.split)
    with 1 show ?thesis by (auto simp: submit_effect_def implements_same)
  next
    case refused
    then have "\<exists>ev. fst (submit_job now i r hit failure st) = fst (insert_terminal_job now i (sr_key r) ev st)"
      by (cases failure; cases "pl_shutting_down st")
        (auto simp: submit_job_def job_for_key_def split_beta)
    with refused show ?thesis using implements_refused [OF assms] by (auto simp: submit_effect_def closed)
  next
    case new
    note f = fresh_unknown [OF assms]
    have sub: "fst (submit_job now i r hit failure st) = dispatch now (queued_new i r st)"
      using new by (simp add: submit_job_def job_for_key_def Let_def queued_new_def new_entry_def)
    have core: "pool_core [] (queued_new i r st)"
    proof -
      have key: "pl_by_key st (sr_key r) = None"
      proof (rule ccontr)
        assume "pl_by_key st (sr_key r) \<noteq> None"
        then obtain j where "pl_by_key st (sr_key r) = Some j" by blast
        with keys_okD(2) [of "[]" st "sr_key r" j] assms(1) new(2) show False
          by (auto simp: pool_core_def job_for_key_def snapshot_of_def)
      qed
      show ?thesis unfolding queued_new_def
        by (rule new_job_core [OF assms key new(3)]) (simp add: new_entry_def)
    qed
    have ex: "exclusive_job (queued_new i r st) j = (if j = i then sr_weight r = Exclusive else exclusive_job st j)" for j
      by (simp add: exclusive_job_def queued_new_def new_entry_def)
    have q: "pl_queued (queued_new i r st) = pl_queued st @ [i]" "pl_tasks (queued_new i r st) = pl_tasks st"
      "pl_shutting_down (queued_new i r st) = pl_shutting_down st" "pl_max_concurrent (queued_new i r st) = pl_max_concurrent st"
      by (simp_all add: queued_new_def)
    have "abs_pool (queued_new i r st) = (abs_pool st)\<lparr>wp_waiting := wp_waiting (abs_pool st) @ [i],
        wp_exclusive := (if sr_weight r = Exclusive then insert i (wp_exclusive (abs_pool st)) else wp_exclusive (abs_pool st))\<rparr>"
      by (rule work_pool.equality) (use f(2) in \<open>auto simp: abs_pool_def live_def q ex\<close>)
    then have "abs_pool (dispatch now (queued_new i r st)) = fst (work_enqueue i (sr_weight r = Exclusive) (abs_pool st))"
      using abs_dispatch(1) [OF core] by (simp add: work_enqueue_def)
    moreover have "ring (dispatch now (queued_new i r st)) = ring st"
      using abs_dispatch(2) [OF core] by (simp add: ring_def queued_new_def)
    ultimately show ?thesis using new unfolding sub
      by (auto simp: submit_effect_def closed implements_def work_enqueue_def intro: exI [of _ 0])
  qed
qed

lemma implements_cancel:
  assumes "pool_core [] st"
  shows "implements st (work_withdraw i (abs_pool st)) (fst (cancel_job now i st))"
proof -
  have l: "lists_ok [] st" and ent: "entries_ok st" using assms by (simp_all add: pool_core_def)
  have waiting: "wp_waiting (abs_pool st) = pl_queued st" by (simp add: abs_pool_def)
  have mark: "exclusive_job (mark_cancel i s) j = exclusive_job s j" for s :: "('a, 'b) pool_state" and j
    by (cases "pl_jobs s j") (simp_all add: exclusive_job_def mark_cancel_def)
  show ?thesis
  proof (cases "i \<in> set (pl_queued st)")
    case True
    then obtain e where e: "pl_jobs st i = Some e" "waiting_entry e"
      using ent entries_areD [of waiting_entry st "pl_queued st" i] by (auto simp: entries_ok_def)
    let ?u = "st\<lparr>pl_queued := remove1 i (pl_queued st)\<rparr>"
    let ?ev = "EvFailed ''cancelled'' True"
    note c = unqueued_cancelled_core [OF assms True]
    have core: "pool_core [] (settle now i ?ev (mark_cancel i ?u))" by (rule pool_core_settle [OF c]) simp
    have eq: "fst (cancel_job now i st) = rebroadcast_positions (settle now i ?ev (mark_cancel i ?u))"
      unfolding cancel_as_settle [OF e(1), symmetric]
      using e True by (auto simp: cancel_job_def Let_def mark_cancel_eq [OF e(1)] waiting_entry_def) (simp_all add: mark_cancel_def)
    have f: "pl_queued (mark_cancel i ?u) = remove1 i (pl_queued st)" "pl_tasks (mark_cancel i ?u) = pl_tasks st"
      "pl_max_concurrent (mark_cancel i ?u) = pl_max_concurrent st" "pl_shutting_down (mark_cancel i ?u) = pl_shutting_down st"
      "pl_terminal (mark_cancel i ?u) = pl_terminal st" by (simp_all add: mark_cancel_def)
    have live: "set (live (mark_cancel i ?u)) = set (live st) - {i}"
      using lists_okD(1) [OF l] True by (auto simp: live_def f)
    have ex: "exclusive_job (settle now i ?ev (mark_cancel i ?u)) j = exclusive_job st j" if "j \<in> set (live st) - {i}" for j
      using settle_keeps_entries [OF c, of j now ?ev] that live mark [of ?u j] by (simp add: exclusive_job_def)
    have "abs_pool (fst (cancel_job now i st)) = abs_pool (settle now i ?ev (mark_cancel i ?u))"
      unfolding eq by (rule abs_rebroadcast [OF core])
    also have "\<dots> = fst (work_withdraw i (abs_pool st))"
    proof -
      have "set (live (settle now i ?ev (mark_cancel i ?u))) = set (live st) - {i}" using live by (simp add: live_def)
      with ex show ?thesis
        by - (rule abs_poolI, use True in \<open>auto simp: work_withdraw_def abs_pool_def f\<close>)
    qed
    finally have "abs_pool (fst (cancel_job now i st)) = fst (work_withdraw i (abs_pool st))" .
    moreover have "\<exists>n. ring (fst (cancel_job now i st)) = drop n (ring st @ [i])"
      using ring_settle [OF c, of now ?ev] unfolding eq by (simp add: ring_def rebroadcast_frame [OF core] f)
    ultimately show ?thesis using True by (simp add: implements_def work_withdraw_def waiting)
  next
    case False
    let ?r = "\<lambda>k. release_key k i (mark_cancel i st)"
    have "fst (cancel_job now i st) = st \<or> (\<exists>k. fst (cancel_job now i st) = ?r k)"
    proof (cases "pl_jobs st i")
      case (Some e)
      have "fst (cancel_job now i st) = st \<or> fst (cancel_job now i st) = ?r (je_key e)"
        using Some False by (auto simp: cancel_job_def Let_def mark_cancel_eq [OF Some]) (simp_all add: mark_cancel_def)
      then show ?thesis by blast
    qed (simp add: cancel_job_def)
    moreover have "exclusive_job (?r k) j = exclusive_job st j" for k j using mark [of st j] by (simp add: exclusive_job_def)
    then have "abs_pool (?r k) = abs_pool st" "ring (?r k) = ring st" for k
      by - (rule abs_cong, simp_all add: mark_cancel_def ring_def release_key_def)
    ultimately have "abs_pool (fst (cancel_job now i st)) = abs_pool st" "ring (fst (cancel_job now i st)) = ring st" by auto
    with False show ?thesis by (simp add: work_withdraw_def waiting implements_same)
  qed
qed

lemma implements_shutdown:
  assumes "pool_core [] st"
  shows "implements st (work_close (abs_pool st)) (shutdown_pool now st)"
proof -
  let ?ev = "EvFailed ''server is shutting down'' True"
  let ?s0 = "st\<lparr>pl_shutting_down := True, pl_queued := []\<rparr>"
  let ?s1 = "foldl (\<lambda>s i. settle now i ?ev s) ?s0 (pl_queued st)"
  have max: "pl_max_concurrent (foldl (\<lambda>s i. settle now i ?ev s) s js) = pl_max_concurrent s" for s :: "('a, 'b) pool_state" and js
    by (induction js arbitrary: s) auto
  obtain n where n: "ring ?s1 = drop n (ring ?s0 @ pl_queued st)"
    and kept: "\<forall>j \<in> set (live ?s0). pl_jobs ?s1 j = pl_jobs ?s0 j"
    using settle_all_ends [OF all_limbo_core [OF assms], of ?ev now] by auto
  have shut: "pl_queued (shutdown_pool now st) = []" "pl_tasks (shutdown_pool now st) = pl_tasks st"
    "pl_max_concurrent (shutdown_pool now st) = pl_max_concurrent st" "pl_shutting_down (shutdown_pool now st)"
    "ring (shutdown_pool now st) = ring ?s1"
    by (simp_all add: shutdown_pool_def Let_def settle_all_frame max ring_def)
  have "exclusive_job (shutdown_pool now st) j = exclusive_job ?s1 j" for j
    by (cases "pl_jobs ?s1 j") (simp_all add: shutdown_pool_def Let_def exclusive_job_def)
  with kept have ex: "exclusive_job (shutdown_pool now st) j = exclusive_job st j" if "j \<in> set (pl_tasks st)" for j
    using that by (simp add: exclusive_job_def live_def)
  have "abs_pool (shutdown_pool now st) = fst (work_close (abs_pool st))"
    by (rule abs_poolI) (use shut ex in \<open>auto simp: abs_pool_def work_close_def live_def\<close>)
  moreover have "ring ?s0 = ring st" by (simp add: ring_def)
  ultimately show ?thesis using n by (auto simp: implements_def shut(5) work_close_def abs_pool_def)
qed

lemma implements_finish:
  assumes "pool_core [] st" and i: "i \<in> set (pl_tasks st)"
  shows "implements st (work_complete i (abs_pool st)) (finish_job now i out st)"
proof -
  obtain e where e: "pl_jobs st i = Some e"
    and fin: "finish_job now i out st = dispatch now (answered (settle now i (outcome_event out) (vacate i e st)))"
    and core: "pool_core [] (answered (settle now i (outcome_event out) (vacate i e st)))"
    using finish_eq [OF assms] by metis
  let ?s = "settle now i (outcome_event out) (vacate i e st)"
  note c = vacate_core [OF assms e]
  have l: "lists_ok [] st" using assms(1) by (simp add: pool_core_def)
  have f: "pl_queued (vacate i e st) = pl_queued st" "pl_tasks (vacate i e st) = remove1 i (pl_tasks st)"
    "pl_max_concurrent (vacate i e st) = pl_max_concurrent st" "pl_shutting_down (vacate i e st) = pl_shutting_down st"
    "pl_terminal (vacate i e st) = pl_terminal st" by (simp_all add: vacate_def)
  have live: "set (live (vacate i e st)) = set (live st) - {i}"
    using lists_okD(1) [OF l] i by (auto simp: live_def f)
  have "exclusive_job (vacate i e st) j = exclusive_job st j" for j by (simp add: exclusive_job_def vacate_def)
  then have ex: "exclusive_job (answered ?s) j = exclusive_job st j" if "j \<in> set (live st) - {i}" for j
    using settle_keeps_entries [OF c, of j now "outcome_event out"] that live by (simp add: exclusive_job_def answered_def)
  have a: "pl_queued (answered ?s) = pl_queued st" "pl_tasks (answered ?s) = remove1 i (pl_tasks st)"
    "pl_max_concurrent (answered ?s) = pl_max_concurrent st" "pl_shutting_down (answered ?s) = pl_shutting_down st"
    "ring (answered ?s) = ring ?s"
    by (simp_all add: answered_def f ring_def)
  have "set (live (answered ?s)) = set (live st) - {i}" using live by (simp add: live_def a f)
  with ex have "abs_pool (answered ?s) =
      (abs_pool st)\<lparr>wp_running := remove1 i (wp_running (abs_pool st)), wp_exclusive := wp_exclusive (abs_pool st) - {i}\<rparr>"
    by - (rule abs_poolI, auto simp: abs_pool_def a)
  then have "abs_pool (finish_job now i out st) = fst (work_complete i (abs_pool st))"
    using abs_dispatch(1) [OF core] by (simp add: fin work_complete_def)
  moreover have "ring (finish_job now i out st) = ring ?s" "ring (vacate i e st) = ring st"
    using abs_dispatch(2) [OF core, of now] a(5) by (simp add: fin, simp add: ring_def f)
  then have "\<exists>n. ring (finish_job now i out st) = drop n (ring st @ [i])"
    using ring_settle [OF c, of now "outcome_event out"] by metis
  ultimately show ?thesis by (simp add: implements_def work_complete_def)
qed

lemma implements_progress: "implements st (abs_pool st, []) (report_progress i p st)"
proof (rule implements_same)
  show "abs_pool (report_progress i p st) = abs_pool st"
    by (rule abs_cong) (auto simp: report_progress_def exclusive_job_def publish_event_def split: option.split)
  show "ring (report_progress i p st) = ring st"
    by (auto simp: report_progress_def ring_def publish_event_def split: option.split)
qed

text \<open>
  C13.  The pool implements the abstract work pool, message by message and with the order of
  its queue: a submit that neither hits, joins nor is refused enqueues its job at the end, a
  report frees the slot of its job, and after both the head starts while it may, and nobody
  before it; a cancel takes a waiting job out and starts nothing, progress changes nothing, a
  shutdown ends the waiting jobs in their order and leaves the running ones.  Exactly the jobs
  the operation ends enter the ring of finished jobs, behind those that are in it.
\<close>

theorem pool_refines_work_pool:
  assumes "pool_reachable st"
  shows "(\<forall>now i r hit failure. i \<notin> set (pl_issued st) \<longrightarrow>
      implements st (submit_effect i r hit failure (job_for_key st (sr_key r)) (abs_pool st))
        (fst (submit_job now i r hit failure st))) \<and>
    (\<forall>now i. implements st (work_withdraw i (abs_pool st)) (fst (cancel_job now i st))) \<and>
    (\<forall>i p. implements st (abs_pool st, []) (report_progress i p st)) \<and>
    (\<forall>now i out. i \<in> set (pl_tasks st) \<longrightarrow>
      implements st (work_complete i (abs_pool st)) (finish_job now i out st)) \<and>
    (\<forall>now. implements st (work_close (abs_pool st)) (shutdown_pool now st))"
proof -
  have "pool_core [] st" using pool_reachable_inv [OF assms] by (simp add: pool_inv_def)
  then show ?thesis
    by (simp add: implements_submit implements_cancel implements_progress implements_finish implements_shutdown)
qed

section \<open>The pool drains\<close>

text \<open>\<open>n\<close> reports in a row, in whatever order the encodes end and whatever they answer.\<close>

inductive reports :: "nat \<Rightarrow> ('r, 'a) pool_state \<Rightarrow> ('r, 'a) pool_state \<Rightarrow> bool" where
  none: "reports 0 st st"
| more: "reports n st st' \<Longrightarrow> i \<in> set (pl_tasks st') \<Longrightarrow> reports (Suc n) st (finish_job now i out st')"

lemma dispatch_keeps_live:
  assumes "pool_core [] st"
  shows "length (live (dispatch now st)) = length (live st)"
proof -
  have d: "pool_core [] (dispatch_loop now st)" "dispatched st (dispatch_loop now st)"
    using dispatch_loop_core [OF assms] by blast+
  then show ?thesis by (auto simp: live_def dispatch_def rebroadcast_frame [OF d(1)] dispatched_def)
qed

lemma dispatch_shutdown:
  "pool_core [] st \<Longrightarrow> pl_shutting_down (dispatch now st) = pl_shutting_down st"
  using dispatch_loop_core [of st now] rebroadcast_frame [of "[]" "dispatch_loop now st"]
  by (simp add: dispatch_def dispatched_def)

lemma finish_shrinks:
  assumes "pool_inv st" and i: "i \<in> set (pl_tasks st)"
  shows "Suc (length (live (finish_job now i out st))) = length (live st)"
    "pl_shutting_down (finish_job now i out st) = pl_shutting_down st"
proof -
  have core: "pool_core [] st" using assms(1) by (simp add: pool_inv_def)
  obtain e where fin: "finish_job now i out st = dispatch now (answered (settle now i (outcome_event out) (vacate i e st)))"
    and c: "pool_core [] (answered (settle now i (outcome_event out) (vacate i e st)))"
    using finish_eq [OF core i] by metis
  show "Suc (length (live (finish_job now i out st))) = length (live st)"
    using i length_pos_if_in_set [OF i] unfolding fin dispatch_keeps_live [OF c]
    by (simp add: live_def answered_def vacate_def length_remove1)
  show "pl_shutting_down (finish_job now i out st) = pl_shutting_down st"
    unfolding fin dispatch_shutdown [OF c] by (simp add: answered_def vacate_def)
qed

lemma reports_count:
  "reports n st st' \<Longrightarrow> pool_inv st \<Longrightarrow>
    pool_inv st' \<and> length (live st') + n = length (live st) \<and> pl_shutting_down st' = pl_shutting_down st"
proof (induction rule: reports.induct)
  case (none st)
  then show ?case by simp
next
  case (more n st st' i now out)
  then show ?case using finish_inv [of st' i now out] finish_shrinks [of st' i now out] by simp
qed

lemma some_report:
  assumes "pool_inv st" and "live st \<noteq> []"
  obtains i where "i \<in> set (pl_tasks st)"
proof (cases "pl_tasks st")
  case Nil
  then have "pl_queued st \<noteq> []" "pl_running st = 0"
    using assms pool_invD(5) [OF assms(1)] by (auto simp: live_def slots_ok_def)
  then show thesis using pool_invD(7) [OF assms(1)] by simp
next
  case (Cons i js)
  then have "i \<in> set (pl_tasks st)" by simp
  then show thesis by (rule that)
qed

lemma reports_exist:
  "pool_inv st \<Longrightarrow> n \<le> length (live st) \<Longrightarrow> \<exists>st'. reports n st st'"
proof (induction n)
  case 0
  then show ?case by (blast intro: reports.none)
next
  case (Suc n)
  then obtain st' where r: "reports n st st'" by auto
  with reports_count [OF r Suc.prems(1)] Suc.prems(2) have "pool_inv st'" "live st' \<noteq> []" by auto
  then obtain i where "i \<in> set (pl_tasks st')" by (rule some_report)
  with reports.more [OF r this] show ?case by blast
qed

text \<open>A pool that keeps finished jobs at all does not forget one in the moment it ends.\<close>

lemma prune_loop_keeps_last:
  assumes "0 < ttl" and "0 < cap" and "i \<notin> fst ` set t"
  shows "(i, now) \<in> set (fst (prune_loop now ttl cap (t @ [(i, now)]) jobs)) \<and>
    snd (prune_loop now ttl cap (t @ [(i, now)]) jobs) i = jobs i"
  using assms
proof (induction t arbitrary: jobs)
  case Nil
  then show ?case by (simp add: Let_def)
next
  case (Cons p t)
  then show ?case by (cases p) (simp add: Let_def)
qed

lemma retire_keeps_last:
  assumes "0 < pl_terminal_ttl st" and "0 < pl_terminal_capacity st" and "i \<notin> fst ` set (pl_terminal st)"
  shows "i \<in> set (ring (retire now i st))" "pl_jobs (retire now i st) i = pl_jobs st i"
proof -
  let ?p = "prune_loop now (pl_terminal_ttl st) (pl_terminal_capacity st) (pl_terminal st @ [(i, now)]) (pl_jobs st)"
  have "pl_terminal (retire now i st) = fst ?p" "pl_jobs (retire now i st) = snd ?p"
    by (simp_all add: retire_def prune_terminal_def split: prod.split)
  then show "i \<in> set (ring (retire now i st))" "pl_jobs (retire now i st) i = pl_jobs st i"
    using prune_loop_keeps_last [OF assms, of now "pl_jobs st"] by (force simp: ring_def)+
qed

lemma dispatch_loop_keeps_entry:
  "pool_core [] st \<Longrightarrow> i \<notin> set (pl_queued st) \<Longrightarrow> pl_jobs (dispatch_loop now st) i = pl_jobs st i"
proof (induction "length (pl_queued st)" arbitrary: st rule: less_induct)
  case less
  from less.prems(1) show ?case
  proof (cases rule: dispatch_loop_round [where now = now])
    case stays
    then show ?thesis by simp
  next
    case (starts j rest e)
    have core: "pool_core [] (started j rest e st)" by (rule pool_core_started [OF less.prems(1) starts(1-6)])
    have "length (pl_queued (started j rest e st)) < length (pl_queued st)" "i \<noteq> j"
      "i \<notin> set (pl_queued (started j rest e st))"
      using starts(1) less.prems(2) by (auto simp: started_def)
    with less.hyps [OF this(1) core this(3)] show ?thesis unfolding starts(7) by (simp add: started_def)
  qed
qed

lemma dispatch_keeps_entry:
  assumes "pool_core [] st" and "i \<notin> set (pl_queued st)"
  shows "pl_jobs (dispatch now st) i = pl_jobs st i"
proof -
  have d: "pool_core [] (dispatch_loop now st)" "dispatched st (dispatch_loop now st)"
    using dispatch_loop_core [OF assms(1)] by blast+
  then have "i \<notin> set (pl_queued (dispatch_loop now st))" using assms(2) by (auto simp: dispatched_def)
  then show ?thesis using dispatch_loop_keeps_entry [OF assms, of now]
    by (cases "pl_jobs st i") (simp_all add: dispatch_def rebroadcast_map [OF d(1)] with_place_def)
qed

text \<open>What one report does: its job, and no other, leaves the live ones, with its outcome.\<close>

lemma finish_settles_one:
  assumes "pool_core [] st" and i: "i \<in> set (pl_tasks st)"
  shows "set (live (finish_job now i out st)) = set (live st) - {i}" "distinct (live (finish_job now i out st))"
    "0 < pl_terminal_ttl st \<Longrightarrow> 0 < pl_terminal_capacity st \<Longrightarrow>
      i \<in> set (ring (finish_job now i out st)) \<and> snapshot_of (finish_job now i out st) i = Some (i, outcome_event out)"
proof -
  obtain e where e: "pl_jobs st i = Some e"
    and fin: "finish_job now i out st = dispatch now (answered (settle now i (outcome_event out) (vacate i e st)))"
    and core: "pool_core [] (answered (settle now i (outcome_event out) (vacate i e st)))"
    using finish_eq [OF assms] by metis
  let ?s = "settle now i (outcome_event out) (vacate i e st)"
  have "lists_ok [] st" using assms(1) by (simp add: pool_core_def)
  note l = lists_okD(1) [OF this]
  have a: "pl_queued (answered ?s) = pl_queued st" "pl_tasks (answered ?s) = remove1 i (pl_tasks st)"
    "pl_jobs (answered ?s) = pl_jobs ?s" "pl_terminal (answered ?s) = pl_terminal ?s"
    by (simp_all add: answered_def vacate_def)
  have d: "pool_core [] (dispatch_loop now (answered ?s))" "dispatched (answered ?s) (dispatch_loop now (answered ?s))"
    using dispatch_loop_core [OF core] by blast+
  obtain new where new: "pl_queued st = new @ pl_queued (finish_job now i out st)"
    "pl_tasks (finish_job now i out st) = remove1 i (pl_tasks st) @ new"
    using d(2) by (auto simp: fin dispatch_def rebroadcast_frame [OF d(1)] dispatched_def a)
  then show "distinct (live (finish_job now i out st))" using l by (auto simp: live_def)
  have "set (live (finish_job now i out st)) = set (pl_queued st @ remove1 i (pl_tasks st))"
    using new by (auto simp: live_def)
  also have "\<dots> = set (live st) - {i}" using l i by (auto simp: live_def)
  finally show "set (live (finish_job now i out st)) = set (live st) - {i}" .
  assume kept: "0 < pl_terminal_ttl st" "0 < pl_terminal_capacity st"
  let ?v = "release_key (je_key e) i (publish_event i (outcome_event out) (vacate i e st))"
  have v: "pl_terminal_ttl ?v = pl_terminal_ttl st" "pl_terminal_capacity ?v = pl_terminal_capacity st"
    "pl_terminal ?v = pl_terminal st" "pl_jobs ?v i = Some (e\<lparr>je_event := outcome_event out\<rparr>)"
    using e by (simp_all add: vacate_def release_key_def publish_event_def)
  have s: "?s = retire now i ?v" using e by (simp add: settle_def vacate_def)
  have "i \<notin> fst ` set (pl_terminal ?v)" unfolding v(3) using l i by auto
  note r = retire_keeps_last [OF _ _ this, of now, unfolded v s [symmetric], OF kept]
  have "i \<notin> set (pl_queued (answered ?s))" using l i by (auto simp: a)
  then have "pl_jobs (finish_job now i out st) i = Some (e\<lparr>je_event := outcome_event out\<rparr>)"
    using dispatch_keeps_entry [OF core, of i now] r(2) by (simp add: fin a)
  moreover have "ring (finish_job now i out st) = ring ?s"
    using abs_dispatch(2) [OF core, of now] by (simp add: fin ring_def a)
  ultimately show "i \<in> set (ring (finish_job now i out st)) \<and>
      snapshot_of (finish_job now i out st) i = Some (i, outcome_event out)"
    using r(1) by (simp add: snapshot_of_def)
qed

text \<open>
  C23.  The pool drains.  A report settles exactly its job: no other waiting or running job
  goes with it, and the job ends with the reported outcome (a pool that keeps finished jobs at
  all shows it).  While a job waits or runs some encode is running, and after as many reports
  as there are waiting and running jobs, in any order and with any outcome, nothing waits or
  runs; a shutdown is then answered.
\<close>

theorem pool_drains:
  assumes "pool_reachable st"
  shows "(\<forall>i \<in> set (pl_tasks st). \<forall>now out.
      set (live (finish_job now i out st)) = set (live st) - {i} \<and> distinct (live (finish_job now i out st)) \<and>
      (0 < pl_terminal_ttl st \<and> 0 < pl_terminal_capacity st \<longrightarrow>
        i \<in> set (ring (finish_job now i out st)) \<and>
        snapshot_of (finish_job now i out st) i = Some (i, outcome_event out))) \<and>
    (live st \<noteq> [] \<longrightarrow> pl_tasks st \<noteq> []) \<and>
    (\<exists>st'. reports (length (live st)) st st') \<and>
    (\<forall>n st'. reports n st st' \<longrightarrow> n \<le> length (live st)) \<and>
    (\<forall>st'. reports (length (live st)) st st' \<longrightarrow>
      pl_queued st' = [] \<and> pl_tasks st' = [] \<and> (pl_shutting_down st \<longrightarrow> pl_replied st'))"
proof -
  have inv: "pool_inv st" by (rule pool_reachable_inv [OF assms])
  have core: "pool_core [] st" using inv by (simp add: pool_inv_def)
  have "live st \<noteq> [] \<longrightarrow> pl_tasks st \<noteq> []" using some_report [OF inv] by fastforce
  moreover have "\<exists>st'. reports (length (live st)) st st'" by (rule reports_exist [OF inv]) simp
  moreover have "n \<le> length (live st)" if "reports n st st'" for n st'
    using reports_count [OF that inv] by simp
  moreover have "pl_queued st' = [] \<and> pl_tasks st' = [] \<and> (pl_shutting_down st \<longrightarrow> pl_replied st')"
    if "reports (length (live st)) st st'" for st'
  proof -
    have a: "pool_inv st'" "live st' = []" "pl_shutting_down st' = pl_shutting_down st"
      using reports_count [OF that inv] by simp_all
    then have "pl_running st' = 0" using pool_invD(5) [OF a(1)] by (simp add: live_def slots_ok_def)
    then show ?thesis using a pool_invD(8) [OF a(1)] by (auto simp: live_def drain_ok_def)
  qed
  ultimately show ?thesis using finish_settles_one [OF core] by simp
qed

section \<open>Positions\<close>

text \<open>
  The published positions are the queue: the k-th waiting job is told \<open>k\<close>, counted from
  one, after every message.
\<close>

theorem positions_published:
  assumes "pool_reachable st" and "k < length (pl_queued st)"
  shows "snapshot_of st (pl_queued st ! k) = Some (pl_queued st ! k, EvQueued (k + 1))"
proof -
  have "positions_ok st" using pool_reachable_inv [OF assms(1)] by (simp add: pool_inv_def)
  with assms(2) show ?thesis by (auto simp: positions_ok_def snapshot_of_def)
qed

section \<open>A cancelled head\<close>

text \<open>
  Cancelling a waiting job does not dispatch: a light job behind a cancelled exclusive one
  stays queued beside a free slot until the next report or submit.
\<close>

definition sample_submit :: "nat \<Rightarrow> job_weight \<Rightarrow> (unit, unit) pool_state \<Rightarrow> (unit, unit) pool_state" where
  "sample_submit i w st = fst (submit_job 0 i \<lparr>sr_key = replicate i CHR ''k'', sr_weight = w, sr_job = ()\<rparr> None None st)"

definition sample_pool :: "(unit, unit) pool_state" where
  "sample_pool = sample_submit 3 Light (sample_submit 2 Exclusive (sample_submit 1 Light (pre_start 2 900 512)))"

lemma sample_pool_reachable: "pool_reachable sample_pool"
proof -
  let ?a = "pre_start 2 900 512 :: (unit, unit) pool_state"
  let ?b = "sample_submit 1 Light ?a"
  let ?c = "sample_submit 2 Exclusive ?b"
  have step: "pool_reachable (sample_submit i w st)" if "pool_reachable st" "i \<notin> set (pl_issued st)" for i w st
    unfolding sample_submit_def by (rule pool_reachable.stepped [OF that(1) pool_step.submit [OF that(2)]])
  have a: "pool_reachable ?a" by (rule pool_reachable.started)
  have b: "pool_reachable ?b" by (rule step [OF a]) (simp add: pre_start_def)
  have "2 \<notin> set (pl_issued ?b)" by code_simp
  from step [OF b this] have c: "pool_reachable ?c" .
  have "3 \<notin> set (pl_issued ?c)" by code_simp
  from step [OF c this] show ?thesis unfolding sample_pool_def .
qed

text \<open>The theorems at that state.\<close>

lemma pool_slots_bounded_witness:
  "length (pl_tasks sample_pool) \<le> 2 \<and> pl_tasks sample_pool \<noteq> [] \<and> pl_queued sample_pool = [2, 3]"
proof -
  have "pl_max_concurrent sample_pool = 2" "pl_queued sample_pool = [2, 3]" by code_simp+
  then show ?thesis using pool_slots_bounded [OF sample_pool_reachable] by simp
qed

lemma one_encode_per_key_witness:
  "\<exists>e. pl_jobs sample_pool 2 = Some e \<and> job_for_key sample_pool (je_key e) = Some (2, je_event e)"
proof -
  have "2 \<in> set (live sample_pool)" by code_simp
  moreover have "case pl_jobs sample_pool 2 of None \<Rightarrow> False | Some e \<Rightarrow> \<not> je_cancel e" by code_simp
  then obtain e where "pl_jobs sample_pool 2 = Some e" "\<not> je_cancel e" by (cases "pl_jobs sample_pool 2") auto
  ultimately show ?thesis using one_encode_per_key [OF sample_pool_reachable] by blast
qed

lemma pool_refines_work_pool_witness:
  "abs_pool (finish_job 0 1 (Done ()) sample_pool) =
     \<lparr>wp_limit = 2, wp_waiting = [3], wp_running = [2], wp_exclusive = {2}, wp_closed = False\<rparr>"
proof -
  have f: "pl_max_concurrent sample_pool = 2" "pl_queued sample_pool = [2, 3]" "pl_tasks sample_pool = [1]"
    "\<not> pl_shutting_down sample_pool" "exclusive_job sample_pool 2" "\<not> exclusive_job sample_pool 1"
    "\<not> exclusive_job sample_pool 3"
    by code_simp+
  have "{i. (i = 2 \<or> i = 3 \<or> i = 1) \<and> exclusive_job sample_pool i} = {2}" using f by auto
  then have a: "abs_pool sample_pool =
      \<lparr>wp_limit = 2, wp_waiting = [2, 3], wp_running = [1], wp_exclusive = {2}, wp_closed = False\<rparr>"
    using f by (simp add: abs_pool_def live_def)
  have "implements sample_pool (work_complete 1 (abs_pool sample_pool)) (finish_job 0 1 (Done ()) sample_pool)"
    using pool_refines_work_pool [OF sample_pool_reachable] f(3) by simp
  then show ?thesis by (simp add: implements_def work_complete_def work_admit_def a)
qed

lemma pool_drains_witness: "\<exists>st'. reports 3 sample_pool st' \<and> pl_queued st' = [] \<and> pl_tasks st' = []"
proof -
  have "length (live sample_pool) = 3" by code_simp
  then show ?thesis using pool_drains [OF sample_pool_reachable] by auto
qed

lemma positions_published_witness: "snapshot_of sample_pool 3 = Some (3, EvQueued 2)"
proof -
  have "pl_queued sample_pool = [2, 3]" by code_simp
  then show ?thesis using positions_published [OF sample_pool_reachable, of 1] by simp
qed

lemma cancelled_head_idles_slot:
  "pl_queued (fst (cancel_job 0 2 sample_pool)) = [3] \<and> pl_running (fst (cancel_job 0 2 sample_pool)) = 1 \<and>
   pl_max_concurrent (fst (cancel_job 0 2 sample_pool)) = 2 \<and> \<not> exclusive_job (fst (cancel_job 0 2 sample_pool)) 3 \<and>
   \<not> pl_exclusive_running (fst (cancel_job 0 2 sample_pool))"
  by code_simp

end
