(* ===== verification/ScanPaths.thy ===== *)
theory ScanPaths
  imports Web "HOL-Library.Sublist" "HOL-Library.Char_ord" "HOL-Library.List_Lexorder"
begin

text \<open>
  The path rules of the scanners (\<open>panoptikon/src/jobs/files/mod.rs\<close>): normalised roots, their
  deduplication, the include and exclude tests, and the roots a continuous scan watches
  (\<open>jobs/continuous_scan.rs\<close>).  Paths are Unix paths.  A text becomes its components, which is
  what path comparison looks at; roots keep their text.
\<close>

section \<open>Components\<close>

datatype comp = RootDir | CurDir | ParentDir | Normal string

type_synonym path = "comp list"

definition name_comp :: "string \<Rightarrow> comp" where
  "name_comp p = (if p = ''..'' then ParentDir else Normal p)"

definition components :: "string \<Rightarrow> path" where
  "components s =
     (let names = map name_comp (filter (\<lambda>p. p \<noteq> [] \<and> p \<noteq> ''.'') (split_on CHR ''/'' s)) in
      if starts_with s ''/'' then RootDir # names
      else if hd (split_on CHR ''/'' s) = ''.'' then CurDir # names
      else names)"

fun comp_text :: "comp \<Rightarrow> string" where
  "comp_text RootDir = ''/''"
| "comp_text CurDir = ''.''"
| "comp_text ParentDir = ''..''"
| "comp_text (Normal p) = p"

definition path_under :: "path \<Rightarrow> string \<Rightarrow> bool" where
  "path_under p root = prefix (components root) p"

definition file_name :: "path \<Rightarrow> string option" where
  "file_name p = (if p = [] then None else case last p of Normal n \<Rightarrow> Some n | _ \<Rightarrow> None)"

definition parent :: "path \<Rightarrow> path option" where
  "parent p = (if p = [] \<or> last p = RootDir then None else Some (butlast p))"

text \<open>The part after the last dot, unless the name begins with its only dot.\<close>

definition extension :: "string \<Rightarrow> string option" where
  "extension name =
     (let after = takeWhile (\<lambda>c. c \<noteq> CHR ''.'') (rev name) in
      if name = ''..'' \<or> length name \<le> length after + 1 then None else Some (rev after))"

section \<open>Normalised roots\<close>

definition push_str :: "string \<Rightarrow> string \<Rightarrow> string" where
  "push_str buf part =
     (if starts_with part ''/'' then part
      else if buf \<noteq> [] \<and> last buf \<noteq> CHR ''/'' then buf @ ''/'' @ part
      else buf @ part)"

definition pop_str :: "string \<Rightarrow> string" where
  "pop_str buf =
     (if buf = ''/'' then buf
      else let r = dropWhile (\<lambda>c. c \<noteq> CHR ''/'') (rev buf) in
        if r = [] then [] else if tl r = [] then ''/'' else rev (tl r))"

fun norm_step :: "string \<Rightarrow> comp \<Rightarrow> string" where
  "norm_step buf CurDir = buf"
| "norm_step buf ParentDir = pop_str buf"
| "norm_step buf RootDir = push_str buf ''/''"
| "norm_step buf (Normal p) = push_str buf p"

definition normalize_path :: "string option \<Rightarrow> string \<Rightarrow> bool \<Rightarrow> string" where
  "normalize_path cwd path trailing =
     (let t = trim path;
          buf = (if starts_with t ''/'' then t else case cwd of Some c \<Rightarrow> push_str c t | None \<Rightarrow> t);
          n = foldl norm_step [] (components buf)
      in if trailing then push_str n [] else n)"

fun dedup_loop :: "string list \<Rightarrow> string list \<Rightarrow> string list" where
  "dedup_loop deduped [] = deduped"
| "dedup_loop deduped (p # ps) =
     (if deduped \<noteq> [] \<and> starts_with p (last deduped) then dedup_loop deduped ps
      else dedup_loop (deduped @ [p]) ps)"

definition deduplicate_paths :: "string option \<Rightarrow> string list \<Rightarrow> string list" where
  "deduplicate_paths cwd paths =
     dedup_loop [] (remdups_adj (sort (map (\<lambda>p. normalize_path cwd p True) paths)))"

section \<open>The tests on one path\<close>

definition is_excluded :: "path \<Rightarrow> string list \<Rightarrow> bool" where
  "is_excluded p excluded = list_ex (path_under p) excluded"

definition is_hidden_or_temp :: "path \<Rightarrow> bool" where
  "is_hidden_or_temp p =
     (let name = (case file_name p of Some n \<Rightarrow> n | None \<Rightarrow> []) in
      starts_with name ''.'' \<or> starts_with name ''~'')"

definition has_allowed_extension :: "path \<Rightarrow> string list \<Rightarrow> bool" where
  "has_allowed_extension p extensions =
     (case Option.bind (file_name p) extension of
        None \<Rightarrow> False
      | Some e \<Rightarrow> CHR ''.'' # to_lower e \<in> set extensions)"

definition is_junk_dir_name :: "string \<Rightarrow> bool" where
  "is_junk_dir_name name \<longleftrightarrow> starts_with name ''.'' \<or> to_lower name = ''__macosx''"

definition longest_root :: "string list \<Rightarrow> string option" where
  "longest_root roots =
     foldl (\<lambda>best r. case best of None \<Rightarrow> Some r | Some b \<Rightarrow> if length b \<le> length r then Some r else Some b) None roots"

definition is_under_junk_dir :: "path \<Rightarrow> string list \<Rightarrow> bool" where
  "is_under_junk_dir p roots =
     (case longest_root (filter (path_under p) roots) of
        None \<Rightarrow> False
      | Some root \<Rightarrow>
          list_ex (\<lambda>c. is_junk_dir_name (comp_text c)) (butlast (drop (length (components root)) p)))"

definition path_passes_filters :: "path \<Rightarrow> string list \<Rightarrow> string list \<Rightarrow> string list \<Rightarrow> bool" where
  "path_passes_filters p roots excluded extensions =
     (if roots = [] then False
      else if is_hidden_or_temp p then False
      else if \<not> has_allowed_extension p extensions then False
      else if \<not> list_ex (path_under p) roots then False
      else if is_excluded p excluded then False
      else \<not> is_under_junk_dir p roots)"

section \<open>The configuration of a scan\<close>

record system_config =
  remove_unavailable_files :: bool
  scan_images :: bool
  scan_video :: bool
  scan_audio :: bool
  scan_html :: bool
  scan_pdf :: bool
  detect_outros :: bool
  thumbnail_formats :: "string list"
  included_folders :: "string list"
  excluded_folders :: "string list"
  cf_enabled :: bool
  cf_poll_interval_secs :: "nat option"
  cf_included_folders :: "string list"

definition build_extension_set :: "system_config \<Rightarrow> string list" where
  "build_extension_set config =
     (if scan_images config then [''.jpg'', ''.jpeg'', ''.png'', ''.bmp'', ''.gif'', ''.tiff'', ''.webp''] else []) @
     (if scan_video config then [''.mp4'', ''.avi'', ''.mkv'', ''.mov'', ''.wmv'', ''.flv'', ''.webm''] else []) @
     (if scan_audio config then [''.mp3'', ''.wav'', ''.flac'', ''.aac'', ''.ogg'', ''.wma'', ''.m4a''] else []) @
     (if scan_html config then [''.html'', ''.htm''] else []) @
     (if scan_pdf config then [''.pdf''] else [])"

record watch_roots_outcome =
  wr_watch_roots :: "string list"
  wr_excluded_roots :: "string list"
  wr_valid :: bool
  wr_invalid_includes :: "string list"

text \<open>\<open>valid\<close> is what the file system says of a folder, \<open>cwd\<close> the working directory.\<close>

definition continuous_roots :: "string list \<Rightarrow> string list \<Rightarrow> string list \<Rightarrow> string list \<times> string list" where
  "continuous_roots global_roots excluded_roots deduped =
     (let bad = (\<lambda>f. \<not> list_ex (path_under (components f)) global_roots \<or> is_excluded (components f) excluded_roots) in
      (filter (\<lambda>f. \<not> bad f) deduped, filter bad deduped))"

definition compute_watch_roots ::
  "string option \<Rightarrow> (string \<Rightarrow> bool) \<Rightarrow> string list \<Rightarrow> system_config \<Rightarrow> watch_roots_outcome" where
  "compute_watch_roots cwd valid safe_empty config =
     (let ok = (\<lambda>f. valid f \<or> f \<in> set safe_empty);
          global_roots = deduplicate_paths cwd (filter ok (included_folders config));
          excluded_roots = map (\<lambda>p. normalize_path cwd p True) (excluded_folders config);
          (roots, invalid_includes) =
            (if cf_included_folders config = [] then (global_roots, [])
             else continuous_roots global_roots excluded_roots
               (deduplicate_paths cwd (filter ok (cf_included_folders config))));
          watch_roots = (if roots \<noteq> [] then deduplicate_paths cwd roots else roots)
      in \<lparr>wr_watch_roots = watch_roots, wr_excluded_roots = excluded_roots,
          wr_valid = (cf_included_folders config = [] \<or> watch_roots \<noteq> []), wr_invalid_includes = invalid_includes\<rparr>)"

end
