(* ===== verification/ScanPathsProps.thy ===== *)
theory ScanPathsProps
  imports ScanPaths
begin

text \<open>
  Normalised roots are absolute, free of dots and closed by a separator; normalising is
  idempotent.  Deduplication keeps exactly the outermost roots.  The roots a continuous scan
  watches lie inside the configured folders.
\<close>

section \<open>Normalised texts\<close>

definition good_name :: "string \<Rightarrow> bool" where
  "good_name n \<longleftrightarrow> n \<noteq> [] \<and> CHR ''/'' \<notin> set n \<and> n \<noteq> ''.'' \<and> n \<noteq> ''..''"

definition dir_text :: "string list \<Rightarrow> string" where
  "dir_text ns = (if ns = [] then ''/'' else concat (map (\<lambda>n. CHR ''/'' # n) ns))"

definition norm_text :: "string list \<Rightarrow> string" where
  "norm_text ns = CHR ''/'' # concat (map (\<lambda>n. n @ ''/'') ns)"

lemma starts_with_slash: "starts_with s ''/'' \<longleftrightarrow> s \<noteq> [] \<and> hd s = CHR ''/''"
  by (cases s) (auto simp: starts_with_iff)

lemma good_name_no_slash: "good_name n \<Longrightarrow> \<not> starts_with n ''/''"
  by (cases n) (auto simp: good_name_def starts_with_slash)

lemma last_dir_text: "ns \<noteq> [] \<Longrightarrow> good_name (last ns) \<Longrightarrow> last (dir_text ns) \<noteq> CHR ''/''"
proof -
  assume a: "ns \<noteq> []" "good_name (last ns)"
  then obtain ms n where ns: "ns = ms @ [n]" by (metis append_butlast_last_id)
  then have n: "n \<noteq> []" "CHR ''/'' \<notin> set n" using a by (simp_all add: good_name_def)
  then have "last n \<in> set n" by simp
  with n have "last n \<noteq> CHR ''/''" by metis
  then show ?thesis using n(1) by (simp add: dir_text_def ns)
qed

lemma push_dir_text:
  assumes "\<forall>n \<in> set ns. good_name n" and "good_name n"
  shows "push_str (dir_text ns) n = dir_text (ns @ [n])"
proof (cases "ns = []")
  case True
  then show ?thesis using good_name_no_slash [OF assms(2)] by (simp add: push_str_def dir_text_def)
next
  case False
  then have "last (dir_text ns) \<noteq> CHR ''/''" by (intro last_dir_text) (use assms(1) in auto)
  moreover have "dir_text ns \<noteq> []" by (simp add: dir_text_def)
  ultimately have "push_str (dir_text ns) n = dir_text ns @ ''/'' @ n"
    using good_name_no_slash [OF assms(2)] by (simp add: push_str_def)
  then show ?thesis using False by (simp add: dir_text_def)
qed

lemma dropWhile_no_slash: "CHR ''/'' \<notin> set n \<Longrightarrow>
    dropWhile (\<lambda>c. c \<noteq> CHR ''/'') (rev (xs @ CHR ''/'' # n)) = CHR ''/'' # rev xs"
proof -
  assume "CHR ''/'' \<notin> set n"
  then have "\<forall>x \<in> set (rev n). x \<noteq> CHR ''/''" by auto
  then have "dropWhile (\<lambda>c. c \<noteq> CHR ''/'') (rev n @ CHR ''/'' # rev xs) = dropWhile (\<lambda>c. c \<noteq> CHR ''/'') (CHR ''/'' # rev xs)"
    by (intro dropWhile_append2) auto
  then show ?thesis by simp
qed

lemma pop_dir_text:
  assumes "\<forall>n \<in> set ns. good_name n"
  shows "pop_str (dir_text ns) = dir_text (butlast ns)"
proof (cases "ns = []")
  case True
  then show ?thesis by (simp add: pop_str_def dir_text_def)
next
  case False
  then obtain ms n where ns: "ns = ms @ [n]" by (metis append_butlast_last_id)
  then have n: "n \<noteq> []" "CHR ''/'' \<notin> set n" using assms by (simp_all add: good_name_def)
  let ?xs = "concat (map (\<lambda>n. CHR ''/'' # n) ms)"
  have d: "dir_text ns = ?xs @ CHR ''/'' # n" by (simp add: dir_text_def ns)
  have ne: "dir_text ns \<noteq> ''/''"
  proof
    assume "dir_text ns = ''/''"
    then have "length (?xs @ CHR ''/'' # n) = 1" unfolding d [symmetric] by simp
    with n(1) show False by (simp del: length_concat)
  qed
  have "dropWhile (\<lambda>c. c \<noteq> CHR ''/'') (rev (dir_text ns)) = CHR ''/'' # rev ?xs"
    unfolding d by (rule dropWhile_no_slash [OF n(2)])
  then have "pop_str (dir_text ns) = (if ?xs = [] then ''/'' else ?xs)"
    using ne by (simp add: pop_str_def Let_def del: concat_eq_Nil_conv)
  moreover have "?xs = [] \<longleftrightarrow> ms = []" by (cases ms) auto
  ultimately show ?thesis by (simp add: dir_text_def ns)
qed

lemma push_nil_dir_text: "\<forall>n \<in> set ns. good_name n \<Longrightarrow> push_str (dir_text ns) [] = norm_text ns"
proof -
  assume g: "\<forall>n \<in> set ns. good_name n"
  have "concat (map (\<lambda>n. CHR ''/'' # n) ns) @ ''/'' = CHR ''/'' # concat (map (\<lambda>n. n @ ''/'') ns)"
    by (induction ns) auto
  moreover have "ns \<noteq> [] \<Longrightarrow> last (dir_text ns) \<noteq> CHR ''/''" by (intro last_dir_text) (use g in auto)
  ultimately show ?thesis by (auto simp: push_str_def norm_text_def dir_text_def starts_with_def)
qed

text \<open>The components of a text name no separator and no dot.\<close>

lemma component_names:
  assumes "c \<in> set (map name_comp (filter (\<lambda>p. p \<noteq> [] \<and> p \<noteq> ''.'') (split_on CHR ''/'' s)))"
  shows "c = ParentDir \<or> (\<exists>n. c = Normal n \<and> good_name n)"
  using assms split_on_pieces by (auto simp: name_comp_def good_name_def)

lemma fold_norm:
  assumes "\<forall>c \<in> set cs. c = ParentDir \<or> (\<exists>n. c = Normal n \<and> good_name n)" and "\<forall>n \<in> set ns. good_name n"
  shows "\<exists>ms. foldl norm_step (dir_text ns) cs = dir_text ms \<and> (\<forall>n \<in> set ms. good_name n)"
  using assms
proof (induction cs arbitrary: ns)
  case Nil
  then show ?case by auto
next
  case (Cons c cs)
  show ?case
  proof (cases "c = ParentDir")
    case True
    have "\<forall>n \<in> set (butlast ns). good_name n" using Cons.prems(2) by (auto dest: in_set_butlastD)
    from Cons.IH [OF _ this] Cons.prems show ?thesis by (simp add: True pop_dir_text)
  next
    case False
    then obtain n where n: "c = Normal n" "good_name n" using Cons.prems(1) by auto
    have "\<forall>m \<in> set (ns @ [n]). good_name m" using Cons.prems(2) n(2) by auto
    from Cons.IH [OF _ this] Cons.prems n show ?thesis by (simp add: push_dir_text)
  qed
qed

text \<open>The working directory, when it is known, is absolute.\<close>

definition absolute_here :: "string option \<Rightarrow> string \<Rightarrow> bool" where
  "absolute_here cwd p \<longleftrightarrow> starts_with (trim p) ''/'' \<or> (\<exists>c. cwd = Some c \<and> starts_with c ''/'')"

lemma push_str_absolute: "starts_with c ''/'' \<Longrightarrow> starts_with (push_str c t) ''/''"
  by (cases c) (auto simp: push_str_def starts_with_slash)

lemma normalize_norm_text:
  assumes "absolute_here cwd p"
  obtains ns where "normalize_path cwd p True = norm_text ns" "\<forall>n \<in> set ns. good_name n"
proof -
  define buf where "buf = (if starts_with (trim p) ''/'' then trim p else case cwd of Some c \<Rightarrow> push_str c (trim p) | None \<Rightarrow> trim p)"
  have abs: "starts_with buf ''/''"
    using assms by (auto simp: buf_def absolute_here_def push_str_absolute)
  let ?cs = "map name_comp (filter (\<lambda>p. p \<noteq> [] \<and> p \<noteq> ''.'') (split_on CHR ''/'' buf))"
  have c: "components buf = RootDir # ?cs" using abs by (simp add: components_def)
  obtain ms where ms: "foldl norm_step (dir_text []) ?cs = dir_text ms" "\<forall>n \<in> set ms. good_name n"
    using fold_norm [of ?cs "[]"] component_names by auto
  have "norm_step [] RootDir = dir_text []" by (simp add: push_str_def dir_text_def starts_with_def)
  then have "foldl norm_step [] (components buf) = dir_text ms" unfolding c foldl.simps using ms(1) by simp
  then have "normalize_path cwd p True = norm_text ms"
    by (simp add: normalize_path_def Let_def buf_def [symmetric] push_nil_dir_text [OF ms(2)])
  with ms(2) that show thesis by blast
qed

lemma split_norm_text:
  "\<forall>n \<in> set ns. good_name n \<Longrightarrow> split_on CHR ''/'' (concat (map (\<lambda>n. n @ ''/'') ns)) = ns @ [[]]"
proof (induction ns)
  case Nil
  then show ?case by simp
next
  case (Cons n ns)
  then have "CHR ''/'' \<notin> set n" by (simp add: good_name_def)
  from split_on_append_sep [OF this, of "concat (map (\<lambda>n. n @ ''/'') ns)"] Cons show ?case by simp
qed

lemma components_norm_text:
  assumes "\<forall>n \<in> set ns. good_name n"
  shows "components (norm_text ns) = RootDir # map Normal ns"
proof -
  have "filter (\<lambda>p. p \<noteq> [] \<and> p \<noteq> ''.'') ns = ns" using assms by (intro filter_True) (auto simp: good_name_def)
  moreover have "map name_comp ns = map Normal ns" using assms by (auto simp: name_comp_def good_name_def)
  moreover have "split_on CHR ''/'' (norm_text ns) = [] # ns @ [[]]"
    using split_norm_text [OF assms] by (simp add: norm_text_def)
  ultimately show ?thesis by (simp add: components_def starts_with_slash) (simp add: norm_text_def)
qed

lemma prefix_norm_text:
  assumes "\<forall>n \<in> set ns. good_name n" "\<forall>n \<in> set ms. good_name n"
  shows "prefix (norm_text ns) (norm_text ms) \<longleftrightarrow> prefix ns ms"
proof -
  have "prefix (concat (map (\<lambda>n. n @ ''/'') ns)) (concat (map (\<lambda>n. n @ ''/'') ms)) \<longleftrightarrow> prefix ns ms"
    using assms
  proof (induction ns arbitrary: ms)
    case Nil
    then show ?case by simp
  next
    case (Cons n ns)
    show ?case
    proof (cases ms)
      case Nil
      then show ?thesis by simp
    next
      case (Cons m ks)
      have nm: "CHR ''/'' \<notin> set n" "CHR ''/'' \<notin> set m" using Cons.prems Cons by (simp_all add: good_name_def)
      have "prefix (n @ ''/'' @ x) (m @ ''/'' @ y) \<longleftrightarrow> n = m \<and> prefix x y" for x y
        using nm
      proof (induction n arbitrary: m)
        case Nil
        then show ?case by (cases m) auto
      next
        case (Cons a n)
        then show ?case by (cases m) auto
      qed
      then show ?thesis using Cons.IH [of ks] Cons.prems Cons by simp
    qed
  qed
  then show ?thesis by (simp add: norm_text_def)
qed

lemma trim_norm_text: "trim (norm_text ns) = norm_text ns"
proof -
  have ws: "\<not> is_ws CHR ''/''" by (simp add: is_ws_def)
  have "last (norm_text ns) = CHR ''/''" by (cases ns rule: rev_cases) (simp_all add: norm_text_def)
  moreover have "norm_text ns \<noteq> []" by (simp add: norm_text_def)
  ultimately obtain xs where "norm_text ns = xs @ ''/''" by (metis append_butlast_last_id)
  moreover have "dropWhile is_ws (norm_text ns) = norm_text ns" using ws by (simp add: norm_text_def)
  ultimately show ?thesis using ws by (simp add: trim_def)
qed

lemma norm_text_absolute: "absolute_here cwd (norm_text ns)"
  by (simp add: absolute_here_def trim_norm_text) (simp add: starts_with_slash norm_text_def)

lemma normalize_norm_text_same:
  assumes "\<forall>n \<in> set ns. good_name n"
  shows "normalize_path cwd (norm_text ns) True = norm_text ns"
proof -
  have "starts_with (norm_text ns) ''/''" by (simp add: starts_with_slash norm_text_def)
  then have "normalize_path cwd (norm_text ns) True =
      push_str (foldl norm_step [] (components (norm_text ns))) []"
    by (simp add: normalize_path_def trim_norm_text)
  moreover have "foldl norm_step (dir_text ks) (map Normal ms) = dir_text (ks @ ms)"
    if "\<forall>n \<in> set ks. good_name n" "\<forall>n \<in> set ms. good_name n" for ks ms
    using that
  proof (induction ms arbitrary: ks)
    case (Cons m ms)
    then have "\<forall>n \<in> set (ks @ [m]). good_name n" by auto
    from Cons.IH [OF this] Cons.prems show ?case by (simp add: push_dir_text)
  qed simp
  from this [of "[]" ns] have "foldl norm_step [] (RootDir # map Normal ns) = dir_text ns"
    using assms by (simp add: push_str_def dir_text_def starts_with_def)
  ultimately show ?thesis using components_norm_text [OF assms] push_nil_dir_text [OF assms] by simp
qed

text \<open>
  Normalising a root is idempotent, wherever the process runs, and leaves an absolute
  path without dot components.
\<close>

theorem normalize_idempotent:
  assumes "absolute_here cwd p"
  shows "normalize_path cwd' (normalize_path cwd p True) True = normalize_path cwd p True \<and>
    (\<exists>names. components (normalize_path cwd p True) = RootDir # map Normal names)"
proof -
  obtain ns where ns: "normalize_path cwd p True = norm_text ns" "\<forall>n \<in> set ns. good_name n"
    using normalize_norm_text [OF assms] by blast
  show ?thesis unfolding ns(1) using normalize_norm_text_same [OF ns(2)] components_norm_text [OF ns(2)] by blast
qed

lemma normalize_idempotent_witness:
  "normalize_path None (normalize_path (Some ''/home/u'') '' ../pics/./2024/'' True) True = ''/home/pics/2024/''"
proof -
  have "absolute_here (Some ''/home/u'') '' ../pics/./2024/''" by (simp add: absolute_here_def starts_with_def)
  from normalize_idempotent [OF this, of None]
  have "normalize_path None (normalize_path (Some ''/home/u'') '' ../pics/./2024/'' True) True =
    normalize_path (Some ''/home/u'') '' ../pics/./2024/'' True" by blast
  also have "\<dots> = ''/home/pics/2024/''" by code_simp
  finally show ?thesis .
qed

section \<open>Deduplication\<close>

text \<open>Between a text and an extension of it there are only extensions of it.\<close>

lemma Cons_prefixD: "prefix (c # a) x \<Longrightarrow> \<exists>y. x = c # y \<and> prefix a y"
  by (auto simp: prefix_def)

lemma prefix_le: "prefix a b \<Longrightarrow> a \<le> (b :: string)"
  by (induction a arbitrary: b) (auto dest: Cons_prefixD)

lemma prefix_between: "prefix a x \<Longrightarrow> a \<le> b \<Longrightarrow> b \<le> (x :: string) \<Longrightarrow> prefix a b"
proof (induction a arbitrary: b x)
  case Nil
  then show ?case by simp
next
  case (Cons c a)
  from Cons_prefixD [OF Cons.prems(1)] obtain y where x: "x = c # y" "prefix a y" by blast
  with Cons.prems obtain d e where b: "b = d # e" by (cases b) auto
  with Cons.prems x have "c = d" "a \<le> e" "e \<le> y" by auto
  with Cons.IH [OF x(2)] b show ?case by simp
qed

lemma starts_with_prefix: "starts_with p a \<longleftrightarrow> prefix a p"
  by (auto simp: starts_with_iff prefix_def)

definition antichain :: "string list \<Rightarrow> bool" where
  "antichain xs \<longleftrightarrow> (\<forall>a \<in> set xs. \<forall>b \<in> set xs. prefix a b \<longrightarrow> a = b)"

lemma dedup_loop_outer:
  "sorted_wrt (<) (acc @ ps) \<Longrightarrow> antichain acc \<Longrightarrow>
    antichain (dedup_loop acc ps) \<and> set (dedup_loop acc ps) \<subseteq> set acc \<union> set ps \<and> set acc \<subseteq> set (dedup_loop acc ps) \<and>
    (\<forall>p \<in> set ps. \<exists>r \<in> set (dedup_loop acc ps). prefix r p)"
proof (induction acc ps rule: dedup_loop.induct)
  case (1 deduped)
  then show ?case by simp
next
  case (2 deduped p ps)
  show ?case
  proof (cases "deduped \<noteq> [] \<and> starts_with p (last deduped)")
    case True
    have "sorted_wrt (<) (deduped @ ps)" using "2.prems"(1) by (auto simp: sorted_wrt_append)
    note ih = "2.IH"(1) [OF True this "2.prems"(2)]
    moreover have "last deduped \<in> set (dedup_loop deduped ps)" using ih True by auto
    ultimately show ?thesis using True by (auto simp: starts_with_prefix)
  next
    case False
    have lt: "a < p" if "a \<in> set deduped" for a using that "2.prems"(1) by (auto simp: sorted_wrt_append)
    have no: "\<not> prefix a p" if "a \<in> set deduped" for a
    proof
      assume a: "prefix a p"
      have "a \<le> last deduped"
      proof -
        have "sorted_wrt (<) deduped" using "2.prems"(1) by (auto simp: sorted_wrt_append)
        moreover have "deduped \<noteq> []" using that by auto
        then obtain ds l where "deduped = ds @ [l]" by (metis append_butlast_last_id)
        ultimately show ?thesis using that by (auto simp: sorted_wrt_append)
      qed
      moreover have "last deduped \<in> set deduped" using that by (cases deduped) auto
      ultimately have "prefix a (last deduped)" using prefix_between [OF a] lt [of "last deduped"] by simp
      then have "a = last deduped" using "2.prems"(2) that \<open>last deduped \<in> set deduped\<close> by (auto simp: antichain_def)
      with a False that show False by (auto simp: starts_with_prefix)
    qed
    have "antichain (deduped @ [p])"
      unfolding antichain_def
    proof (intro ballI impI)
      fix a b assume ab: "a \<in> set (deduped @ [p])" "b \<in> set (deduped @ [p])" "prefix a b"
      consider "a \<in> set deduped" "b \<in> set deduped" | "a \<in> set deduped" "b = p" | "a = p" "b \<in> set deduped" | "a = p" "b = p"
        using ab by auto
      then show "a = b"
      proof cases
        case 1 then show ?thesis using "2.prems"(2) ab(3) by (simp add: antichain_def)
      next
        case 2 then show ?thesis using no ab(3) by blast
      next
        case 3 then show ?thesis using prefix_le [OF ab(3)] lt by (meson leD)
      next
        case 4 then show ?thesis by simp
      qed
    qed
    moreover have "sorted_wrt (<) ((deduped @ [p]) @ ps)" using "2.prems"(1) by simp
    ultimately have ih: "antichain (dedup_loop (deduped @ [p]) ps) \<and>
        set (dedup_loop (deduped @ [p]) ps) \<subseteq> set (deduped @ [p]) \<union> set ps \<and>
        set (deduped @ [p]) \<subseteq> set (dedup_loop (deduped @ [p]) ps) \<and>
        (\<forall>q \<in> set ps. \<exists>r \<in> set (dedup_loop (deduped @ [p]) ps). prefix r q)"
      using "2.IH"(2) [OF False] by blast
    have "dedup_loop deduped (p # ps) = dedup_loop (deduped @ [p]) ps" using False by auto
    then show ?thesis using ih by auto
  qed
qed

lemma sorted_remdups_adj_strict: "sorted xs \<Longrightarrow> sorted_wrt (<) (remdups_adj (xs :: string list))"
proof (induction xs rule: remdups_adj.induct)
  case (3 x y xs)
  show ?case
  proof (cases "x = y")
    case True
    with 3 show ?thesis by simp
  next
    case False
    with 3 have "sorted_wrt (<) (remdups_adj (y # xs))" by simp
    moreover have "x < z" if "z \<in> set (remdups_adj (y # xs))" for z
    proof -
      have "x < y" using 3(3) False by (auto simp: order_le_less)
      moreover have "y \<le> z" using that 3(3) by auto
      ultimately show ?thesis by simp
    qed
    ultimately show ?thesis using False by simp
  qed
qed simp_all

lemma deduplicate_texts:
  "antichain (deduplicate_paths cwd ps)"
  "set (deduplicate_paths cwd ps) \<subseteq> (\<lambda>p. normalize_path cwd p True) ` set ps"
  "p \<in> set ps \<Longrightarrow> \<exists>r \<in> set (deduplicate_paths cwd ps). prefix r (normalize_path cwd p True)"
proof -
  let ?xs = "remdups_adj (sort (map (\<lambda>p. normalize_path cwd p True) ps))"
  have "sorted_wrt (<) ([] @ ?xs)" by (simp add: sorted_remdups_adj_strict)
  moreover have "antichain []" by (simp add: antichain_def)
  ultimately have d: "antichain (dedup_loop [] ?xs) \<and> set (dedup_loop [] ?xs) \<subseteq> set [] \<union> set ?xs \<and> set [] \<subseteq> set (dedup_loop [] ?xs) \<and>
    (\<forall>p \<in> set ?xs. \<exists>r \<in> set (dedup_loop [] ?xs). prefix r p)" by (rule dedup_loop_outer)
  then show "antichain (deduplicate_paths cwd ps)"
    "set (deduplicate_paths cwd ps) \<subseteq> (\<lambda>p. normalize_path cwd p True) ` set ps"
    "p \<in> set ps \<Longrightarrow> \<exists>r \<in> set (deduplicate_paths cwd ps). prefix r (normalize_path cwd p True)"
    by (auto simp: deduplicate_paths_def)
qed

text \<open>The same on components.\<close>

definition norm_root :: "string \<Rightarrow> bool" where
  "norm_root r \<longleftrightarrow> (\<exists>ns. r = norm_text ns \<and> (\<forall>n \<in> set ns. good_name n))"

lemma normalize_norm_root: "absolute_here cwd p \<Longrightarrow> norm_root (normalize_path cwd p True)"
  by (metis norm_root_def normalize_norm_text)

lemma prefix_map_Normal: "prefix (map Normal xs) (map Normal ys) \<longleftrightarrow> prefix xs ys"
proof (induction xs arbitrary: ys)
  case (Cons x xs)
  then show ?case by (cases ys) auto
qed simp

lemma norm_root_under:
  "norm_root r \<Longrightarrow> norm_root s \<Longrightarrow> path_under (components s) r \<longleftrightarrow> prefix r s"
  unfolding norm_root_def path_under_def
  by (elim exE conjE) (simp add: components_norm_text prefix_norm_text prefix_map_Normal)

lemma norm_root_same: "norm_root r \<Longrightarrow> normalize_path cwd r True = r"
  unfolding norm_root_def using normalize_norm_text_same by blast

lemma norm_root_here: "norm_root r \<Longrightarrow> absolute_here cwd r"
  unfolding norm_root_def using norm_text_absolute by blast

lemma deduplicate_norm_roots:
  assumes "\<forall>p \<in> set ps. absolute_here cwd p"
  shows "\<forall>r \<in> set (deduplicate_paths cwd ps). norm_root r"
  using deduplicate_texts(2) [of cwd ps] normalize_norm_root assms by fastforce

text \<open>
  Deduplication keeps the outermost roots and no others: every given folder lies under a
  kept root, no kept root lies under another, and a kept root is one of the given folders.
\<close>

theorem dedup_keeps_outermost:
  assumes "\<forall>p \<in> set ps. absolute_here cwd p"
  shows "(\<forall>p \<in> set ps. \<exists>r \<in> set (deduplicate_paths cwd ps). path_under (components (normalize_path cwd p True)) r) \<and>
    (\<forall>r \<in> set (deduplicate_paths cwd ps). \<forall>s \<in> set (deduplicate_paths cwd ps). path_under (components s) r \<longrightarrow> r = s) \<and>
    set (deduplicate_paths cwd ps) \<subseteq> (\<lambda>p. normalize_path cwd p True) ` set ps"
proof -
  note n = deduplicate_norm_roots [OF assms]
  have "\<exists>r \<in> set (deduplicate_paths cwd ps). path_under (components (normalize_path cwd p True)) r" if "p \<in> set ps" for p
    using deduplicate_texts(3) [OF that, of cwd] normalize_norm_root [of cwd p] assms that n norm_root_under by blast
  moreover have "r = s" if "r \<in> set (deduplicate_paths cwd ps)" "s \<in> set (deduplicate_paths cwd ps)" "path_under (components s) r" for r s
    using that n deduplicate_texts(1) [of cwd ps] norm_root_under unfolding antichain_def by blast
  ultimately show ?thesis using deduplicate_texts(2) [of cwd ps] by blast
qed

lemma dedup_keeps_outermost_witness:
  "deduplicate_paths None [''/a/b'', ''/a/bc/'', ''/a/b/c/..//d'', ''/a/b''] = [''/a/b/'', ''/a/bc/''] \<and>
   path_under (components (normalize_path None ''/a/b/c/..//d'' True)) ''/a/b/''"
proof -
  let ?ps = "[''/a/b'', ''/a/bc/'', ''/a/b/c/..//d'', ''/a/b'']"
  have "\<forall>p \<in> set ?ps. absolute_here None p" by (simp add: absolute_here_def) code_simp
  from dedup_keeps_outermost [OF this]
  have "\<exists>r \<in> set (deduplicate_paths None ?ps). path_under (components (normalize_path None ''/a/b/c/..//d'' True)) r" by simp
  moreover have d: "deduplicate_paths None ?ps = [''/a/b/'', ''/a/bc/'']" by code_simp
  moreover have "\<not> path_under (components (normalize_path None ''/a/b/c/..//d'' True)) ''/a/bc/''" by code_simp
  ultimately show ?thesis by simp
qed

section \<open>The watched roots\<close>

lemma dedup_under:
  assumes "\<forall>p \<in> set ps. absolute_here cwd p" and "r \<in> set (deduplicate_paths cwd ps)"
  obtains p where "p \<in> set ps" "r = normalize_path cwd p True" "norm_root r"
  using deduplicate_texts(2) [of cwd ps] deduplicate_norm_roots [OF assms(1)] assms(2) by blast

lemma dedup_norm_subset: "\<forall>r \<in> set rs. norm_root r \<Longrightarrow> set (deduplicate_paths cwd rs) \<subseteq> set rs"
  using deduplicate_texts(2) [of cwd rs] norm_root_same by fastforce

text \<open>
  The roots a continuous scan watches lie inside usable included folders, none lies under
  another, and with an own folder list none lies under an excluded folder; the own folders
  that are not watched are reported.
\<close>

theorem watch_roots_within:
  assumes cwd: "starts_with c ''/''" and o: "w = compute_watch_roots (Some c) valid safe_empty config"
  shows "(\<forall>r \<in> set (wr_watch_roots w). \<exists>f \<in> set (included_folders config).
      (valid f \<or> f \<in> set safe_empty) \<and> path_under (components r) (normalize_path (Some c) f True)) \<and>
    (\<forall>r \<in> set (wr_watch_roots w). \<forall>s \<in> set (wr_watch_roots w). path_under (components s) r \<longrightarrow> r = s) \<and>
    (cf_included_folders config \<noteq> [] \<longrightarrow>
      (\<forall>r \<in> set (wr_watch_roots w). \<not> is_excluded (components r) (wr_excluded_roots w)) \<and>
      (\<forall>f \<in> set (cf_included_folders config). valid f \<or> f \<in> set safe_empty \<longrightarrow>
        (\<exists>r \<in> set (wr_watch_roots w) \<union> set (wr_invalid_includes w). path_under (components (normalize_path (Some c) f True)) r)))"
proof -
  have here: "absolute_here (Some c) p" for p using cwd by (simp add: absolute_here_def)
  let ?ok = "\<lambda>f. valid f \<or> f \<in> set safe_empty"
  let ?g = "deduplicate_paths (Some c) (filter ?ok (included_folders config))"
  let ?d = "deduplicate_paths (Some c) (filter ?ok (cf_included_folders config))"
  let ?ex = "map (\<lambda>p. normalize_path (Some c) p True) (excluded_folders config)"
  let ?bad = "\<lambda>f. \<not> list_ex (path_under (components f)) ?g \<or> is_excluded (components f) ?ex"
  define roots where "roots = (if cf_included_folders config = [] then ?g else filter (\<lambda>f. \<not> ?bad f) ?d)"
  have w: "wr_watch_roots w = (if roots \<noteq> [] then deduplicate_paths (Some c) roots else roots)"
    "wr_excluded_roots w = ?ex"
    "cf_included_folders config \<noteq> [] \<Longrightarrow> wr_invalid_includes w = filter ?bad ?d"
    unfolding o compute_watch_roots_def roots_def continuous_roots_def Let_def by simp_all
  have g: "norm_root r" if "r \<in> set ?g" for r using deduplicate_norm_roots here that by blast
  have nr: "\<forall>r \<in> set roots. norm_root r"
    using deduplicate_norm_roots [of "filter ?ok (included_folders config)"]
      deduplicate_norm_roots [of "filter ?ok (cf_included_folders config)"] here unfolding roots_def by auto
  have sub: "set (wr_watch_roots w) \<subseteq> set roots" using dedup_norm_subset [OF nr] unfolding w(1) by auto
  have in_g: "\<exists>f \<in> set (included_folders config). ?ok f \<and> path_under (components r) (normalize_path (Some c) f True)"
    if "r \<in> set roots" for r
  proof -
    have "\<exists>s. s \<in> set ?g \<and> path_under (components r) s"
    proof (cases "cf_included_folders config = []")
      case True
      with that have "r \<in> set ?g" by (simp add: roots_def)
      moreover have "path_under (components r) r" by (simp add: path_under_def)
      ultimately show ?thesis by blast
    next
      case False
      with that show ?thesis by (auto simp: roots_def list_ex_iff)
    qed
    then obtain s where s: "s \<in> set ?g" "path_under (components r) s" by blast
    obtain f where "f \<in> set (filter ?ok (included_folders config))" "s = normalize_path (Some c) f True"
      by (rule dedup_under [OF _ s(1)]) (use here in auto)
    with s(2) show ?thesis by auto
  qed
  have "r = s" if "r \<in> set (wr_watch_roots w)" "s \<in> set (wr_watch_roots w)" "path_under (components s) r" for r s
    using that dedup_keeps_outermost [of roots "Some c"] here unfolding w(1) by (auto split: if_splits)
  moreover have "\<not> is_excluded (components r) (wr_excluded_roots w)"
    if "cf_included_folders config \<noteq> []" "r \<in> set (wr_watch_roots w)" for r
    using that sub unfolding w(2) by (auto simp: roots_def)
  moreover have "\<exists>r \<in> set (wr_watch_roots w) \<union> set (wr_invalid_includes w). path_under (components (normalize_path (Some c) f True)) r"
    if cf: "cf_included_folders config \<noteq> []" and f: "f \<in> set (cf_included_folders config)" "?ok f" for f
  proof -
    have "f \<in> set (filter ?ok (cf_included_folders config))" using f by simp
    then obtain r where r: "r \<in> set ?d" "path_under (components (normalize_path (Some c) f True)) r"
      using dedup_keeps_outermost [of "filter ?ok (cf_included_folders config)" "Some c"] here by blast
    show ?thesis
    proof (cases "?bad r")
      case True
      with r cf show ?thesis unfolding w(3) [OF cf] by auto
    next
      case False
      then have m: "r \<in> set roots" using r(1) cf by (simp add: roots_def)
      then have "roots \<noteq> []" by auto
      then obtain s where "s \<in> set (wr_watch_roots w)" "path_under (components (normalize_path (Some c) r True)) s"
        using dedup_keeps_outermost [of roots "Some c"] here m unfolding w(1) by auto
      moreover have "normalize_path (Some c) r True = r" using nr m norm_root_same by blast
      ultimately show ?thesis using r(2) by (auto simp: path_under_def intro: prefix_order.trans)
    qed
  qed
  ultimately show ?thesis using in_g sub by blast
qed

lemma watch_roots_within_witness:
  "let config = \<lparr>remove_unavailable_files = True, scan_images = True, scan_video = True, scan_audio = False,
      scan_html = False, scan_pdf = False, detect_outros = True, thumbnail_formats = [],
      included_folders = [''/data''], excluded_folders = [''/data/tmp''], cf_enabled = True,
      cf_poll_interval_secs = None, cf_included_folders = [''/data/new'', ''/data/tmp/x'', ''/other'']\<rparr>;
     w = compute_watch_roots (Some ''/'') (\<lambda>_. True) [] config in
   wr_watch_roots w = [''/data/new/''] \<and> wr_invalid_includes w = [''/data/tmp/x/'', ''/other/''] \<and>
   \<not> is_excluded (components ''/data/new/'') (wr_excluded_roots w)"
proof -
  define config where "config = \<lparr>remove_unavailable_files = True, scan_images = True, scan_video = True, scan_audio = False,
      scan_html = False, scan_pdf = False, detect_outros = True, thumbnail_formats = [],
      included_folders = [''/data''], excluded_folders = [''/data/tmp''], cf_enabled = True,
      cf_poll_interval_secs = None, cf_included_folders = [''/data/new'', ''/data/tmp/x'', ''/other'']\<rparr>"
  let ?w = "compute_watch_roots (Some ''/'') (\<lambda>_. True) [] config"
  have r: "wr_watch_roots ?w = [''/data/new/''] \<and> wr_invalid_includes ?w = [''/data/tmp/x/'', ''/other/'']"
    unfolding config_def by code_simp
  have "starts_with ''/'' ''/''" by (simp add: starts_with_def)
  from watch_roots_within [OF this refl, of "\<lambda>_. True" "[]" config]
  have "cf_included_folders config \<noteq> [] \<longrightarrow> (\<forall>r \<in> set (wr_watch_roots ?w). \<not> is_excluded (components r) (wr_excluded_roots ?w))"
    by blast
  then have "\<not> is_excluded (components ''/data/new/'') (wr_excluded_roots ?w)" using r by (simp add: config_def)
  with r show ?thesis unfolding config_def [symmetric] Let_def by blast
qed

end
