(* ===== verification/DirPoller.thy ===== *)
theory DirPoller
  imports ScanPaths "HOL-Library.AList" "HOL-Library.Multiset"
begin

text \<open>
  The directory poller of the continuous scan (\<open>panoptikon/src/jobs/dir_poller.rs\<close>): a snapshot
  of the watched tree, seeded from the index, and one pass that stats every directory and
  lists those whose modification time moved.  The file system is a parameter: the
  modification time of a directory and its entries, each absent when the call fails.  Times
  of directories are nanoseconds.
\<close>

section \<open>State\<close>

record poll_filters =
  pf_roots :: "string list"
  pf_excluded_roots :: "string list"
  pf_allowed_extensions :: "string list"

record file_meta =
  fm_last_modified :: string
  fm_size :: "int option"

record dir_snapshot =
  ds_dir_modified :: "nat option"
  ds_files :: "(string \<times> file_meta) list"
  ds_subdirs :: "string list"

definition default_dir :: dir_snapshot where
  "default_dir = \<lparr>ds_dir_modified = None, ds_files = [], ds_subdirs = []\<rparr>"

type_synonym poller_snapshot = "(path \<times> dir_snapshot) list"

record poll_change =
  pc_path :: path
  pc_meta :: file_meta

record poll_outcome =
  po_snapshot :: poller_snapshot
  po_changes :: "poll_change list"
  po_removals :: "path list"
  po_degraded :: bool

text \<open>What an entry of a directory is; a file has a formatted time, if any, and a length.\<close>

datatype entry_meta = IsDir | IsFile "string option" int | IsOther

record file_system =
  fs_modified :: "path \<Rightarrow> nat option"
  fs_entries :: "path \<Rightarrow> (string \<times> entry_meta option) list option"

definition join :: "path \<Rightarrow> string \<Rightarrow> path" where
  "join d n = d @ [Normal n]"

section \<open>The seed\<close>

definition seed_row :: "poll_filters \<Rightarrow> poller_snapshot \<Rightarrow> string \<times> string \<Rightarrow> poller_snapshot" where
  "seed_row filters snapshot row =
     (let p = components (fst row) in
      if \<not> list_ex (path_under p) (pf_roots filters) then snapshot
      else if is_excluded p (pf_excluded_roots filters) \<or> is_hidden_or_temp p \<or> is_under_junk_dir p (pf_roots filters)
        then snapshot
      else if \<not> has_allowed_extension p (pf_allowed_extensions filters) then snapshot
      else case (parent p, file_name p) of
        (Some dir, Some name) \<Rightarrow>
          (let old = (case map_of snapshot dir of Some d \<Rightarrow> d | None \<Rightarrow> default_dir) in
           AList.update dir
             (old\<lparr>ds_files := AList.update name \<lparr>fm_last_modified = snd row, fm_size = None\<rparr> (ds_files old)\<rparr>) snapshot)
      | _ \<Rightarrow> snapshot)"

definition seed_snapshot :: "(string \<times> string) list \<Rightarrow> poll_filters \<Rightarrow> poller_snapshot" where
  "seed_snapshot rows filters = foldl (seed_row filters) [] rows"

section \<open>Listing a directory\<close>

record dir_listing =
  dl_files :: "(string \<times> file_meta) list"
  dl_subdirs :: "string list"

definition list_entry ::
  "path \<Rightarrow> poll_filters \<Rightarrow> dir_listing \<Rightarrow> string \<times> entry_meta option \<Rightarrow> dir_listing" where
  "list_entry dir filters listing entry =
     (let name = fst entry; p = join dir name in
      case snd entry of
        None \<Rightarrow> listing
      | Some IsDir \<Rightarrow>
          if is_junk_dir_name name then listing else listing\<lparr>dl_subdirs := List.insert name (dl_subdirs listing)\<rparr>
      | Some (IsFile modified len) \<Rightarrow>
          if is_hidden_or_temp p \<or> \<not> has_allowed_extension p (pf_allowed_extensions filters) \<or>
             is_excluded p (pf_excluded_roots filters) then listing
          else (case modified of
            None \<Rightarrow> listing
          | Some m \<Rightarrow> listing\<lparr>dl_files := AList.update name \<lparr>fm_last_modified = m, fm_size = Some len\<rparr> (dl_files listing)\<rparr>)
      | Some IsOther \<Rightarrow> listing)"

definition enumerate_dir :: "file_system \<Rightarrow> path \<Rightarrow> poll_filters \<Rightarrow> dir_listing option" where
  "enumerate_dir fs dir filters =
     map_option (foldl (list_entry dir filters) \<lparr>dl_files = [], dl_subdirs = []\<rparr>) (fs_entries fs dir)"

section \<open>One pass\<close>

text \<open>
  \<open>mark_loop\<close> is the loop of \<open>mark_subtree_visited\<close>.  A child is longer than its parent, and
  only directories of the snapshot have children.
\<close>

definition deepest :: "poller_snapshot \<Rightarrow> nat" where
  "deepest snapshot = Max (insert 0 (length ` fst ` set snapshot))"

lemma deepest_ge: "map_of snapshot d = Some s \<Longrightarrow> length d \<le> deepest snapshot"
  unfolding deepest_def by (intro Max_ge) (force dest: map_of_SomeD)+

function mark_loop :: "poller_snapshot \<Rightarrow> path list \<Rightarrow> path list \<Rightarrow> path list" where
  "mark_loop snapshot [] visited = visited"
| "mark_loop snapshot (current # stack) visited =
     mark_loop snapshot
       ((case map_of snapshot current of
           None \<Rightarrow> []
         | Some snap \<Rightarrow> rev (filter (\<lambda>c. c \<notin> set visited) (map (join current) (ds_subdirs snap)))) @ stack)
       (List.insert current visited)"
  by pat_completeness auto

termination
proof (relation "inv_image (mult less_than)
    (\<lambda>(snapshot, stack, visited). image_mset (\<lambda>d. Suc (deepest snapshot) - length d) (mset stack))", goal_cases)
  case 1
  show ?case by (intro wf_inv_image wf_mult) simp
next
  case (2 snapshot current stack visited)
  let ?f = "\<lambda>d. Suc (deepest snapshot) - length d"
  let ?new = "case map_of snapshot current of
      None \<Rightarrow> [] | Some snap \<Rightarrow> rev (filter (\<lambda>c. c \<notin> set visited) (map (join current) (ds_subdirs snap)))"
  have "k < ?f current" if "k \<in># image_mset ?f (mset ?new)" for k
  proof (cases "map_of snapshot current")
    case None
    with that show ?thesis by simp
  next
    case (Some snap)
    then have "length current \<le> deepest snapshot" by (rule deepest_ge)
    with that Some show ?thesis by (auto simp: join_def)
  qed
  then have "(image_mset ?f (mset stack) + image_mset ?f (mset ?new), image_mset ?f (mset stack) + {#?f current#}) \<in> mult less_than"
    by (intro one_step_implies_mult) auto
  then show ?case by (simp add: union_commute)
qed

definition mark_subtree_visited :: "poller_snapshot \<Rightarrow> path \<Rightarrow> path list \<Rightarrow> path list" where
  "mark_subtree_visited snapshot dir visited = mark_loop snapshot [dir] visited"

definition mtime_settle :: nat where
  "mtime_settle = 2000000000"

record poll_pass =
  pp_snapshot :: poller_snapshot
  pp_changes :: "poll_change list"
  pp_removals :: "path list"
  pp_visited :: "path list"
  pp_degraded :: bool
  pp_stack :: "path list"

definition known_unchanged :: "dir_snapshot \<Rightarrow> string \<times> file_meta \<Rightarrow> bool" where
  "known_unchanged old f =
     (case map_of (ds_files old) (fst f) of
        None \<Rightarrow> False
      | Some prev \<Rightarrow>
          fm_last_modified prev = fm_last_modified (snd f) \<and> (fm_size prev = None \<or> fm_size prev = fm_size (snd f)))"

text \<open>A listed directory replaces its snapshot and adds what differs.\<close>

definition take_listing :: "path \<Rightarrow> nat \<Rightarrow> nat \<Rightarrow> dir_listing \<Rightarrow> poll_pass \<Rightarrow> poll_pass" where
  "take_listing dir modified pass_start listing s =
     (let old = (case map_of (pp_snapshot s) dir of Some d \<Rightarrow> d | None \<Rightarrow> default_dir);
          settled = modified + mtime_settle < pass_start;
          entry = \<lparr>ds_dir_modified = (if settled then Some modified else None), ds_files = dl_files listing,
                   ds_subdirs = dl_subdirs listing\<rparr>
      in s\<lparr>pp_changes := pp_changes s @ map (\<lambda>f. \<lparr>pc_path = join dir (fst f), pc_meta = snd f\<rparr>)
                (filter (\<lambda>f. \<not> known_unchanged old f) (dl_files listing)),
           pp_removals := pp_removals s @ map (join dir)
                (filter (\<lambda>n. map_of (dl_files listing) n = None) (map fst (ds_files old))),
           pp_stack := rev (map (join dir) (dl_subdirs listing)) @ pp_stack s,
           pp_snapshot := AList.update dir entry (AList.delete dir (pp_snapshot s))\<rparr>)"

definition give_up :: "path \<Rightarrow> poll_pass \<Rightarrow> poll_pass" where
  "give_up dir s = s\<lparr>pp_degraded := True, pp_visited := mark_subtree_visited (pp_snapshot s) dir (pp_visited s)\<rparr>"

definition poll_dir :: "file_system \<Rightarrow> poll_filters \<Rightarrow> nat \<Rightarrow> path \<Rightarrow> poll_pass \<Rightarrow> poll_pass" where
  "poll_dir fs filters pass_start dir s =
     (if is_excluded dir (pf_excluded_roots filters) then s
      else if dir \<in> set (pp_visited s) then s
      else let s1 = s\<lparr>pp_visited := List.insert dir (pp_visited s)\<rparr> in
        case fs_modified fs dir of
          None \<Rightarrow> give_up dir s1
        | Some modified \<Rightarrow>
            if Option.bind (map_of (pp_snapshot s1) dir) ds_dir_modified = Some modified
            then (case map_of (pp_snapshot s1) dir of
                    None \<Rightarrow> s1
                  | Some snap \<Rightarrow> s1\<lparr>pp_stack := rev (map (join dir) (ds_subdirs snap)) @ pp_stack s1\<rparr>)
            else (case enumerate_dir fs dir filters of
                    None \<Rightarrow> give_up dir s1
                  | Some listing \<Rightarrow> take_listing dir modified pass_start listing s1))"

partial_function (option) poll_loop :: "file_system \<Rightarrow> poll_filters \<Rightarrow> nat \<Rightarrow> poll_pass \<Rightarrow> poll_pass option" where
  "poll_loop fs filters pass_start s =
     (case pp_stack s of
        [] \<Rightarrow> Some s
      | dir # stack \<Rightarrow> poll_loop fs filters pass_start (poll_dir fs filters pass_start dir (s\<lparr>pp_stack := stack\<rparr>)))"

definition drop_stale :: "poll_pass \<Rightarrow> poll_outcome" where
  "drop_stale s =
     (let stale = filter (\<lambda>d. fst d \<notin> set (pp_visited s)) (pp_snapshot s) in
      if pp_degraded s
      then \<lparr>po_snapshot = pp_snapshot s, po_changes = pp_changes s, po_removals = pp_removals s, po_degraded = True\<rparr>
      else \<lparr>po_snapshot = filter (\<lambda>d. fst d \<in> set (pp_visited s)) (pp_snapshot s), po_changes = pp_changes s,
            po_removals = pp_removals s @ concat (map (\<lambda>d. map (\<lambda>f. join (fst d) (fst f)) (ds_files (snd d))) stale),
            po_degraded = False\<rparr>)"

definition first_pass :: "poller_snapshot \<Rightarrow> poll_filters \<Rightarrow> poll_pass" where
  "first_pass snapshot filters =
     \<lparr>pp_snapshot = snapshot, pp_changes = [], pp_removals = [], pp_visited = [], pp_degraded = False,
      pp_stack = rev (map components (pf_roots filters))\<rparr>"

text \<open>\<open>None\<close> stands for a walk that does not end.\<close>

definition run_poll_pass :: "file_system \<Rightarrow> poller_snapshot \<Rightarrow> poll_filters \<Rightarrow> nat \<Rightarrow> poll_outcome option" where
  "run_poll_pass fs snapshot filters pass_start =
     map_option drop_stale (poll_loop fs filters pass_start (first_pass snapshot filters))"

end
