(* ===== verification/DirPollerProps.thy ===== *)
theory DirPollerProps
  imports DirPoller
begin

text \<open>
  A poll pass over a finite tree ends; when the tree can be read and an unmoved directory time
  means an unmoved directory, the pass reports exactly the difference between the snapshot
  and the disk; a pass that met an error removes nothing it did not see gone.
\<close>

section \<open>The loop as an invariant rule\<close>

definition children :: "file_system \<Rightarrow> poll_filters \<Rightarrow> poller_snapshot \<Rightarrow> path \<Rightarrow> path set" where
  "children fs filters old d =
     (case map_of old d of None \<Rightarrow> {} | Some snap \<Rightarrow> join d ` set (ds_subdirs snap)) \<union>
     (case enumerate_dir fs d filters of None \<Rightarrow> {} | Some l \<Rightarrow> join d ` set (dl_subdirs l))"

definition finite_tree :: "file_system \<Rightarrow> poll_filters \<Rightarrow> poller_snapshot \<Rightarrow> path set \<Rightarrow> bool" where
  "finite_tree fs filters old U \<longleftrightarrow>
     finite U \<and> components ` set (pf_roots filters) \<subseteq> U \<and> (\<forall>d \<in> U. children fs filters old d \<subseteq> U)"

lemma mark_loop_keeps: "set visited \<subseteq> set (mark_loop snapshot stack visited)"
  by (induction snapshot stack visited rule: mark_loop.induct) auto

lemma give_up_fields [simp]:
  "pp_snapshot (give_up d s) = pp_snapshot s" "pp_changes (give_up d s) = pp_changes s"
  "pp_removals (give_up d s) = pp_removals s" "pp_stack (give_up d s) = pp_stack s"
  "pp_degraded (give_up d s)"
  by (simp_all add: give_up_def)

lemma give_up_visited: "set (pp_visited s) \<subseteq> set (pp_visited (give_up d s))"
  using mark_loop_keeps by (simp add: give_up_def mark_subtree_visited_def del: mark_loop.simps)

lemma map_of_update_delete:
  "map_of (AList.update d e (AList.delete d m)) = (map_of m)(d \<mapsto> e)"
  by (auto simp: fun_eq_iff update_conv' delete_conv' restrict_map_def)

lemma take_listing_fields [simp]:
  "pp_visited (take_listing d t p l s) = pp_visited s" "pp_degraded (take_listing d t p l s) = pp_degraded s"
  "pp_stack (take_listing d t p l s) = rev (map (join d) (dl_subdirs l)) @ pp_stack s"
  by (simp_all add: take_listing_def Let_def)

lemma take_listing_snapshot:
  "map_of (pp_snapshot (take_listing d t p l s)) =
    (map_of (pp_snapshot s))(d \<mapsto> \<lparr>ds_dir_modified = (if t + mtime_settle < p then Some t else None), ds_files = dl_files l,
      ds_subdirs = dl_subdirs l\<rparr>)"
  by (simp add: take_listing_def Let_def map_of_update_delete)

text \<open>The outcomes of one iteration.\<close>

lemma poll_dir_cases:
  obtains (skip) "is_excluded d (pf_excluded_roots filters) \<or> d \<in> set (pp_visited s)" "poll_dir fs filters p d s = s"
  | (failed) "\<not> is_excluded d (pf_excluded_roots filters)" "d \<notin> set (pp_visited s)"
      "fs_modified fs d = None \<or> enumerate_dir fs d filters = None"
      "poll_dir fs filters p d s = give_up d (s\<lparr>pp_visited := List.insert d (pp_visited s)\<rparr>)"
      "fs_modified fs d = None \<or> Option.bind (map_of (pp_snapshot s) d) ds_dir_modified \<noteq> fs_modified fs d"
  | (trusted) snap t where "\<not> is_excluded d (pf_excluded_roots filters)" "d \<notin> set (pp_visited s)"
      "fs_modified fs d = Some t" "map_of (pp_snapshot s) d = Some snap" "ds_dir_modified snap = Some t"
      "poll_dir fs filters p d s = s\<lparr>pp_visited := List.insert d (pp_visited s),
         pp_stack := rev (map (join d) (ds_subdirs snap)) @ pp_stack s\<rparr>"
  | (listed) l t where "\<not> is_excluded d (pf_excluded_roots filters)" "d \<notin> set (pp_visited s)"
      "fs_modified fs d = Some t" "enumerate_dir fs d filters = Some l"
      "poll_dir fs filters p d s = take_listing d t p l (s\<lparr>pp_visited := List.insert d (pp_visited s)\<rparr>)"
      "Option.bind (map_of (pp_snapshot s) d) ds_dir_modified \<noteq> Some t"
proof (cases "is_excluded d (pf_excluded_roots filters) \<or> d \<in> set (pp_visited s)")
  case True
  then have "poll_dir fs filters p d s = s" by (auto simp: poll_dir_def)
  with True skip show thesis by blast
next
  case out: False
  show thesis
  proof (cases "fs_modified fs d")
    case None
    with out failed show thesis by (simp add: poll_dir_def Let_def)
  next
    case (Some t)
    show thesis
    proof (cases "Option.bind (map_of (pp_snapshot s) d) ds_dir_modified = Some t")
      case True
      then obtain snap where "map_of (pp_snapshot s) d = Some snap" "ds_dir_modified snap = Some t"
        unfolding Option.bind_eq_Some_conv by blast
      with out Some trusted show thesis by (simp add: poll_dir_def Let_def)
    next
      case False
      show thesis
      proof (cases "enumerate_dir fs d filters")
        case None
        with out Some False failed show thesis by (simp add: poll_dir_def Let_def)
      next
        case (Some l)
        with out False \<open>fs_modified fs d = Some t\<close> listed show thesis by (simp add: poll_dir_def Let_def)
      qed
    qed
  qed
qed

definition walking :: "file_system \<Rightarrow> poll_filters \<Rightarrow> poller_snapshot \<Rightarrow> path set \<Rightarrow> poll_pass \<Rightarrow> bool" where
  "walking fs filters old U s \<longleftrightarrow>
     set (pp_stack s) \<subseteq> U \<and> (\<forall>d. d \<notin> set (pp_visited s) \<longrightarrow> map_of (pp_snapshot s) d = map_of old d)"

lemma walking_step:
  assumes tree: "finite_tree fs filters old U" and w: "walking fs filters old U s" and st: "pp_stack s = d # stack"
    and s'_def: "s' = poll_dir fs filters p d (s\<lparr>pp_stack := stack\<rparr>)"
  shows "walking fs filters old U s'" and
    "card (U - set (pp_visited s')) < card (U - set (pp_visited s)) \<or>
     card (U - set (pp_visited s')) = card (U - set (pp_visited s)) \<and> length (pp_stack s') < length (pp_stack s)"
proof -
  let ?s = "s\<lparr>pp_stack := stack\<rparr>"
  have d: "d \<in> U" "set stack \<subseteq> U" and old: "\<forall>e. e \<notin> set (pp_visited s) \<longrightarrow> map_of (pp_snapshot s) e = map_of old e"
    using w st by (auto simp: walking_def)
  have kids: "children fs filters old d \<subseteq> U" using tree d(1) by (simp add: finite_tree_def)
  have fewer: "card (U - set v) < card (U - set (pp_visited s))" if "insert d (set (pp_visited s)) \<subseteq> set v" "d \<notin> set (pp_visited s)" for v
  proof (rule psubset_card_mono)
    show "finite (U - set (pp_visited s))" using tree by (simp add: finite_tree_def)
    show "U - set v \<subset> U - set (pp_visited s)" using that d(1) by auto
  qed
  have "walking fs filters old U s' \<and> (card (U - set (pp_visited s')) < card (U - set (pp_visited s)) \<or>
     card (U - set (pp_visited s')) = card (U - set (pp_visited s)) \<and> length (pp_stack s') < length (pp_stack s))"
  proof (cases rule: poll_dir_cases [where fs = fs and filters = filters and p = p and d = d and s = ?s])
    case skip
    then show ?thesis using d old st by (simp add: s'_def walking_def)
  next
    case failed
    have v: "insert d (set (pp_visited s)) \<subseteq> set (pp_visited s')"
      unfolding s'_def failed(4) using give_up_visited [of "?s\<lparr>pp_visited := List.insert d (pp_visited ?s)\<rparr>" d] by auto
    then have "walking fs filters old U s'" using d old by (auto simp: s'_def failed(4) walking_def)
    with fewer [OF v] failed(2) show ?thesis by simp
  next
    case (trusted snap t)
    have "map_of old d = Some snap" using old trusted(2,4) by simp
    then have "join d ` set (ds_subdirs snap) \<subseteq> U" using kids by (auto simp: children_def)
    then have "walking fs filters old U s'" using d old by (auto simp: s'_def trusted(6) walking_def)
    moreover have "set (pp_visited s') = insert d (set (pp_visited s))" by (simp add: s'_def trusted(6))
    ultimately show ?thesis using fewer [of "pp_visited s'"] trusted(2) by simp
  next
    case (listed l t)
    have "join d ` set (dl_subdirs l) \<subseteq> U" using kids listed(4) by (auto simp: children_def)
    then have "walking fs filters old U s'" using d old by (auto simp: s'_def listed(5) walking_def take_listing_snapshot)
    moreover have "set (pp_visited s') = insert d (set (pp_visited s))" by (simp add: s'_def listed(5))
    ultimately show ?thesis using fewer [of "pp_visited s'"] listed(2) by simp
  qed
  then show "walking fs filters old U s'" "card (U - set (pp_visited s')) < card (U - set (pp_visited s)) \<or>
     card (U - set (pp_visited s')) = card (U - set (pp_visited s)) \<and> length (pp_stack s') < length (pp_stack s)" by blast+
qed

lemma poll_loop_rule:
  assumes tree: "finite_tree fs filters old U" and w: "walking fs filters old U s" and "P s"
    and keep: "\<And>s d stack. walking fs filters old U s \<Longrightarrow> P s \<Longrightarrow> pp_stack s = d # stack \<Longrightarrow>
      P (poll_dir fs filters p d (s\<lparr>pp_stack := stack\<rparr>))"
  shows "\<exists>s'. poll_loop fs filters p s = Some s' \<and> P s' \<and> pp_stack s' = []"
  using w assms(3)
proof (induction "(card (U - set (pp_visited s)), length (pp_stack s))" arbitrary: s rule: wf_induct_rule [OF wf_lex_prod [OF wf_less_than wf_less_than]])
  case (1 s)
  show ?case
  proof (cases "pp_stack s")
    case Nil
    then have "poll_loop fs filters p s = Some s" by (subst poll_loop.simps) simp
    with 1 Nil show ?thesis by blast
  next
    case (Cons d stack)
    let ?s' = "poll_dir fs filters p d (s\<lparr>pp_stack := stack\<rparr>)"
    have "poll_loop fs filters p s = poll_loop fs filters p ?s'" by (subst poll_loop.simps) (simp add: Cons)
    moreover have "\<exists>s'. poll_loop fs filters p ?s' = Some s' \<and> P s' \<and> pp_stack s' = []"
      by (rule "1.hyps" [OF _ walking_step(1) [OF tree "1.prems"(1) Cons refl]])
        (use walking_step(2) [OF tree "1.prems"(1) Cons refl, of p] keep [OF 1(2,3) Cons] in auto)
    ultimately show ?thesis by simp
  qed
qed

lemma first_walk: "finite_tree fs filters old U \<Longrightarrow> walking fs filters old U (first_pass old filters)"
  by (auto simp: walking_def first_pass_def finite_tree_def)

section \<open>What is on disk\<close>

text \<open>The directories of the watched tree, and the files the filters admit in them.\<close>

inductive in_tree :: "file_system \<Rightarrow> poll_filters \<Rightarrow> path \<Rightarrow> bool" for fs filters where
  root: "r \<in> set (pf_roots filters) \<Longrightarrow> \<not> is_excluded (components r) (pf_excluded_roots filters) \<Longrightarrow>
    in_tree fs filters (components r)"
| child: "in_tree fs filters d \<Longrightarrow> enumerate_dir fs d filters = Some l \<Longrightarrow> n \<in> set (dl_subdirs l) \<Longrightarrow>
    \<not> is_excluded (join d n) (pf_excluded_roots filters) \<Longrightarrow> in_tree fs filters (join d n)"

definition on_disk :: "file_system \<Rightarrow> poll_filters \<Rightarrow> path \<Rightarrow> string \<Rightarrow> file_meta \<Rightarrow> bool" where
  "on_disk fs filters d n m \<longleftrightarrow>
     in_tree fs filters d \<and> (\<exists>l. enumerate_dir fs d filters = Some l \<and> map_of (dl_files l) n = Some m)"

definition old_dir :: "poller_snapshot \<Rightarrow> path \<Rightarrow> dir_snapshot" where
  "old_dir old d = (case map_of old d of Some s \<Rightarrow> s | None \<Rightarrow> default_dir)"

definition known_file :: "poller_snapshot \<Rightarrow> path \<Rightarrow> string \<Rightarrow> file_meta option" where
  "known_file snapshot d n = map_of (ds_files (old_dir snapshot d)) n"

text \<open>
  No call of the pass fails: every directory of the tree can be read, and so can the metadata
  of every entry in it, with the time of every file.
\<close>

definition known_entry :: "entry_meta option \<Rightarrow> bool" where
  "known_entry m \<longleftrightarrow> m \<noteq> None \<and> (\<forall>len. m \<noteq> Some (IsFile None len))"

definition readable :: "file_system \<Rightarrow> poll_filters \<Rightarrow> bool" where
  "readable fs filters \<longleftrightarrow>
     (\<forall>d. in_tree fs filters d \<longrightarrow> fs_modified fs d \<noteq> None \<and>
        (\<exists>es. fs_entries fs d = Some es \<and> (\<forall>e \<in> set es. known_entry (snd e))))"

lemma readableD:
  assumes "readable fs filters" and "in_tree fs filters d"
  shows "fs_modified fs d \<noteq> None" "enumerate_dir fs d filters \<noteq> None"
  using assms by (auto simp: readable_def enumerate_dir_def)

definition agrees :: "dir_snapshot \<Rightarrow> dir_listing \<Rightarrow> bool" where
  "agrees snap l \<longleftrightarrow> map_of (ds_files snap) = map_of (dl_files l) \<and> set (ds_subdirs snap) = set (dl_subdirs l)"

text \<open>A directory whose time is the one of its snapshot has not changed.\<close>

definition honest :: "file_system \<Rightarrow> poll_filters \<Rightarrow> poller_snapshot \<Rightarrow> bool" where
  "honest fs filters old \<longleftrightarrow>
     (\<forall>d snap l t. in_tree fs filters d \<longrightarrow> map_of old d = Some snap \<longrightarrow> ds_dir_modified snap = Some t \<longrightarrow>
        fs_modified fs d = Some t \<longrightarrow> enumerate_dir fs d filters = Some l \<longrightarrow> agrees snap l)"

definition differences :: "file_system \<Rightarrow> poll_filters \<Rightarrow> poller_snapshot \<Rightarrow> path set \<Rightarrow> poll_change set" where
  "differences fs filters old D =
     {\<lparr>pc_path = join d n, pc_meta = m\<rparr> | d n m. d \<in> D \<and>
        (\<exists>l. enumerate_dir fs d filters = Some l \<and> map_of (dl_files l) n = Some m) \<and>
        \<not> known_unchanged (old_dir old d) (n, m)}"

definition vanished :: "file_system \<Rightarrow> poll_filters \<Rightarrow> poller_snapshot \<Rightarrow> path set \<Rightarrow> path set" where
  "vanished fs filters old D =
     {join d n | d n. d \<in> D \<and> known_file old d n \<noteq> None \<and>
        (\<exists>l. enumerate_dir fs d filters = Some l \<and> map_of (dl_files l) n = None)}"

lemma differences_insert:
  "differences fs filters old (insert d D) = differences fs filters old {d} \<union> differences fs filters old D"
  unfolding differences_def by blast

lemma vanished_insert:
  "vanished fs filters old (insert d D) = vanished fs filters old {d} \<union> vanished fs filters old D"
  unfolding vanished_def by blast

lemma distinct_listing:
  assumes "enumerate_dir fs d filters = Some l"
  shows "distinct (map fst (dl_files l))"
proof -
  have "distinct (map fst (dl_files (foldl (list_entry d filters) l0 es)))" if "distinct (map fst (dl_files l0))" for l0 es
    using that
  proof (induction es arbitrary: l0)
    case (Cons e es)
    have "distinct (map fst (dl_files (list_entry d filters l0 e)))"
      using Cons.prems by (auto simp: list_entry_def Let_def distinct_update split: option.split entry_meta.split)
    from Cons.IH [OF this] show ?case by simp
  qed simp
  then show ?thesis using assms by (auto simp: enumerate_dir_def)
qed

lemma differences_one:
  assumes "enumerate_dir fs d filters = Some l"
  shows "differences fs filters old {d} =
    (\<lambda>f. \<lparr>pc_path = join d (fst f), pc_meta = snd f\<rparr>) ` {f \<in> set (dl_files l). \<not> known_unchanged (old_dir old d) f}"
proof -
  have "map_of (dl_files l) n = Some m \<longleftrightarrow> (n, m) \<in> set (dl_files l)" for n m
    by (rule map_of_eq_Some_iff [OF distinct_listing [OF assms]])
  then show ?thesis using assms by (force simp: differences_def)
qed

lemma vanished_one:
  assumes "enumerate_dir fs d filters = Some l"
  shows "vanished fs filters old {d} =
    join d ` {n \<in> fst ` set (ds_files (old_dir old d)). map_of (dl_files l) n = None}"
  using assms by (auto simp: vanished_def known_file_def map_of_eq_None_iff)

lemma agrees_quiet:
  assumes "map_of old d = Some snap" "agrees snap l" "enumerate_dir fs d filters = Some l"
  shows "differences fs filters old {d} = {}" "vanished fs filters old {d} = {}"
  using assms by (auto simp: differences_def vanished_def known_unchanged_def known_file_def old_dir_def agrees_def)

section \<open>The pass is exact\<close>

definition exact_walk :: "file_system \<Rightarrow> poll_filters \<Rightarrow> poller_snapshot \<Rightarrow> poll_pass \<Rightarrow> bool" where
  "exact_walk fs filters old s \<longleftrightarrow>
     (\<forall>d \<in> set (pp_visited s). in_tree fs filters d) \<and>
     (\<forall>d \<in> set (pp_stack s). in_tree fs filters d \<or> is_excluded d (pf_excluded_roots filters)) \<and>
     (\<forall>r \<in> set (pf_roots filters). is_excluded (components r) (pf_excluded_roots filters) \<or>
        components r \<in> set (pp_visited s) \<union> set (pp_stack s)) \<and>
     (\<forall>d \<in> set (pp_visited s). \<forall>l. enumerate_dir fs d filters = Some l \<longrightarrow>
        (\<forall>n \<in> set (dl_subdirs l). is_excluded (join d n) (pf_excluded_roots filters) \<or>
           join d n \<in> set (pp_visited s) \<union> set (pp_stack s)) \<and>
        (\<exists>snap. map_of (pp_snapshot s) d = Some snap \<and> agrees snap l)) \<and>
     distinct (map fst (pp_snapshot s)) \<and> \<not> pp_degraded s \<and>
     set (pp_changes s) = differences fs filters old (set (pp_visited s)) \<and>
     set (pp_removals s) = vanished fs filters old (set (pp_visited s))"

lemma exact_walkI:
  assumes "\<And>d. d \<in> set (pp_visited s) \<Longrightarrow> in_tree fs filters d"
    and "\<And>d. d \<in> set (pp_stack s) \<Longrightarrow> in_tree fs filters d \<or> is_excluded d (pf_excluded_roots filters)"
    and "\<And>r. r \<in> set (pf_roots filters) \<Longrightarrow> is_excluded (components r) (pf_excluded_roots filters) \<or>
        components r \<in> set (pp_visited s) \<union> set (pp_stack s)"
    and "\<And>d l n. d \<in> set (pp_visited s) \<Longrightarrow> enumerate_dir fs d filters = Some l \<Longrightarrow> n \<in> set (dl_subdirs l) \<Longrightarrow>
        is_excluded (join d n) (pf_excluded_roots filters) \<or> join d n \<in> set (pp_visited s) \<union> set (pp_stack s)"
    and "\<And>d l. d \<in> set (pp_visited s) \<Longrightarrow> enumerate_dir fs d filters = Some l \<Longrightarrow>
        \<exists>snap. map_of (pp_snapshot s) d = Some snap \<and> agrees snap l"
    and "distinct (map fst (pp_snapshot s))" "\<not> pp_degraded s"
    and "set (pp_changes s) = differences fs filters old (set (pp_visited s))"
    and "set (pp_removals s) = vanished fs filters old (set (pp_visited s))"
  shows "exact_walk fs filters old s"
  using assms unfolding exact_walk_def by blast

lemma exact_walkD:
  assumes "exact_walk fs filters old s"
  shows "d \<in> set (pp_visited s) \<Longrightarrow> in_tree fs filters d"
    and "d \<in> set (pp_stack s) \<Longrightarrow> in_tree fs filters d \<or> is_excluded d (pf_excluded_roots filters)"
    and "r \<in> set (pf_roots filters) \<Longrightarrow> is_excluded (components r) (pf_excluded_roots filters) \<or>
        components r \<in> set (pp_visited s) \<union> set (pp_stack s)"
    and "d \<in> set (pp_visited s) \<Longrightarrow> enumerate_dir fs d filters = Some l \<Longrightarrow> n \<in> set (dl_subdirs l) \<Longrightarrow>
        is_excluded (join d n) (pf_excluded_roots filters) \<or> join d n \<in> set (pp_visited s) \<union> set (pp_stack s)"
    and "d \<in> set (pp_visited s) \<Longrightarrow> enumerate_dir fs d filters = Some l \<Longrightarrow>
        \<exists>snap. map_of (pp_snapshot s) d = Some snap \<and> agrees snap l"
    and "distinct (map fst (pp_snapshot s))" "\<not> pp_degraded s"
    and "set (pp_changes s) = differences fs filters old (set (pp_visited s))"
    and "set (pp_removals s) = vanished fs filters old (set (pp_visited s))"
  using assms unfolding exact_walk_def by blast+

lemma take_listing_parts:
  "pp_changes (take_listing d t p l s) = pp_changes s @ map (\<lambda>f. \<lparr>pc_path = join d (fst f), pc_meta = snd f\<rparr>)
     (filter (\<lambda>f. \<not> known_unchanged (old_dir (pp_snapshot s) d) f) (dl_files l))"
  "pp_removals (take_listing d t p l s) = pp_removals s @ map (join d)
     (filter (\<lambda>n. map_of (dl_files l) n = None) (map fst (ds_files (old_dir (pp_snapshot s) d))))"
  "distinct (map fst (pp_snapshot s)) \<Longrightarrow> distinct (map fst (pp_snapshot (take_listing d t p l s)))"
  by (simp_all add: take_listing_def Let_def old_dir_def distinct_update distinct_delete)

lemma exact_step:
  assumes rd: "readable fs filters" and hon: "honest fs filters old"
    and w: "walking fs filters old U s" and x: "exact_walk fs filters old s" and st: "pp_stack s = d # stack"
  shows "exact_walk fs filters old (poll_dir fs filters p d (s\<lparr>pp_stack := stack\<rparr>))"
proof -
  let ?s = "s\<lparr>pp_stack := stack\<rparr>"
  let ?s' = "poll_dir fs filters p d ?s"
  note X = exact_walkD [OF x, unfolded st]
  have old: "map_of (pp_snapshot s) e = map_of old e" if "e \<notin> set (pp_visited s)" for e
    using w that by (simp add: walking_def)
  show ?thesis
  proof (cases rule: poll_dir_cases [where fs = fs and filters = filters and p = p and d = d and s = ?s])
    case skip
    show ?thesis unfolding skip(2)
    proof (rule exact_walkI, goal_cases)
      case (2 e) then show ?case using X(2) by simp
    next
      case (3 r) then show ?case using X(3) [of r] skip(1) by auto
    next
      case (4 e l n) then show ?case using X(4) [of e l n] skip(1) by auto
    qed (use X in \<open>simp_all\<close>)
  next
    case failed
    then have "in_tree fs filters d" using X(2) [of d] by simp
    then show ?thesis using failed(3) readableD [OF rd] by blast
  next
    case (trusted snap t)
    have tree: "in_tree fs filters d" using X(2) [of d] trusted(1) by simp
    then obtain l where l: "enumerate_dir fs d filters = Some l" using readableD(2) [OF rd] by blast
    have snap: "map_of old d = Some snap" using old trusted(2,4) by simp
    then have ag: "agrees snap l" using hon tree trusted(3,5) l by (auto simp: honest_def)
    have v: "set (pp_visited ?s') = insert d (set (pp_visited s))" and
      k: "set (pp_stack ?s') = join d ` set (dl_subdirs l) \<union> set stack" and
      f: "pp_snapshot ?s' = pp_snapshot s" "pp_changes ?s' = pp_changes s" "pp_removals ?s' = pp_removals s"
        "pp_degraded ?s' = pp_degraded s"
      using ag by (simp_all add: trusted(6) agrees_def)
    show ?thesis
    proof (rule exact_walkI, unfold v k f, goal_cases)
      case (1 e) then show ?case using X(1) tree by auto
    next
      case (2 e) then show ?case using X(2) in_tree.child [OF tree l] by auto
    next
      case (3 r) then show ?case using X(3) [of r] by auto
    next
      case (4 e l' n) then show ?case using X(4) [of e l' n] l by (cases "e = d") auto
    next
      case (5 e l') then show ?case using X(5) [of e l'] l ag snap old trusted(2,4) by (cases "e = d") auto
    next
      case 8 then show ?case unfolding differences_insert [of fs filters old d "set (pp_visited s)"] agrees_quiet(1) [OF snap ag l] using X(8) by simp
    next
      case 9 then show ?case unfolding vanished_insert [of fs filters old d "set (pp_visited s)"] agrees_quiet(2) [OF snap ag l] using X(9) by simp
    qed (use X in \<open>simp_all\<close>)
  next
    case (listed l t)
    have tree: "in_tree fs filters d" using X(2) [of d] listed(1) by simp
    have od: "old_dir (pp_snapshot s) d = old_dir old d" using old listed(2) by (simp add: old_dir_def)
    have v: "set (pp_visited ?s') = insert d (set (pp_visited s))" and
      k: "set (pp_stack ?s') = join d ` set (dl_subdirs l) \<union> set stack" and dg: "pp_degraded ?s' = pp_degraded s"
      by (simp_all add: listed(5))
    have sn: "map_of (pp_snapshot ?s') = (map_of (pp_snapshot s))(d \<mapsto> \<lparr>ds_dir_modified =
        (if t + mtime_settle < p then Some t else None), ds_files = dl_files l, ds_subdirs = dl_subdirs l\<rparr>)"
      by (simp add: listed(5) take_listing_snapshot)
    show ?thesis
    proof (rule exact_walkI, unfold v k dg, goal_cases)
      case (1 e) then show ?case using X(1) tree by auto
    next
      case (2 e) then show ?case using X(2) in_tree.child [OF tree listed(4)] by auto
    next
      case (3 r) then show ?case using X(3) [of r] by auto
    next
      case (4 e l' n) then show ?case using X(4) [of e l' n] listed(4) by (cases "e = d") auto
    next
      case (5 e l') then show ?case using X(5) [of e l'] listed(4) unfolding sn by (cases "e = d") (auto simp: agrees_def)
    next
      case 6 then show ?case using X(6) by (simp add: listed(5) take_listing_parts(3))
    next
      case 7 then show ?case using X(7) by simp
    next
      case 8 then show ?case
        unfolding differences_insert [of fs filters old d "set (pp_visited s)"] differences_one [OF listed(4)]
        by (simp add: listed(5) take_listing_parts od X(8)) blast
    next
      case 9 then show ?case
        unfolding vanished_insert [of fs filters old d "set (pp_visited s)"] vanished_one [OF listed(4)]
        by (simp add: listed(5) take_listing_parts od X(9)) (simp add: Un_commute)
    qed
  qed
qed

lemma exact_start:
  assumes "distinct (map fst old)"
  shows "exact_walk fs filters old (first_pass old filters)"
  by (rule exact_walkI) (use assms in \<open>auto simp: first_pass_def differences_def vanished_def intro: in_tree.root\<close>)

lemma exact_end:
  assumes "exact_walk fs filters old s" and "pp_stack s = []" and "readable fs filters"
  shows "set (pp_visited s) = {d. in_tree fs filters d}"
proof -
  note X = exact_walkD [OF assms(1), unfolded assms(2)]
  have "d \<in> set (pp_visited s)" if "in_tree fs filters d" for d
    using that
  proof (induction rule: in_tree.induct)
    case (root r)
    then show ?case using X(3) [of r] by auto
  next
    case (child d l n)
    then show ?case using X(4) [of d l n] by auto
  qed
  with X(1) show ?thesis by blast
qed

lemma known_file_filter:
  "known_file (filter (\<lambda>d. fst d \<in> V) m) d n = (if d \<in> V then known_file m d n else None)"
proof -
  have "map_of (filter (\<lambda>d. fst d \<in> V) m) d = (if d \<in> V then map_of m d else None)"
    by (induction m) auto
  then show ?thesis by (simp add: known_file_def old_dir_def default_dir_def)
qed

lemma stale_files:
  assumes "distinct (map fst m)" and "\<And>d. d \<notin> V \<Longrightarrow> map_of m d = map_of old d"
  shows "set (concat (map (\<lambda>d. map (\<lambda>f. join (fst d) (fst f)) (ds_files (snd d))) (filter (\<lambda>d. fst d \<notin> V) m))) =
    {join d n | d n. d \<notin> V \<and> known_file old d n \<noteq> None}"
proof -
  have "(d, snap) \<in> set m \<longleftrightarrow> map_of m d = Some snap" for d snap
    by (rule map_of_eq_Some_iff [OF assms(1), symmetric])
  then have "{(d, snap). (d, snap) \<in> set m \<and> d \<notin> V} = {(d, snap). map_of old d = Some snap \<and> d \<notin> V}"
    using assms(2) by auto
  then have eq: "set (filter (\<lambda>d. fst d \<notin> V) m) = {(d, snap). map_of old d = Some snap \<and> d \<notin> V}" by auto
  have "set (concat (map (\<lambda>d. map (\<lambda>f. join (fst d) (fst f)) (ds_files (snd d))) (filter (\<lambda>d. fst d \<notin> V) m))) =
      (\<Union>d \<in> set (filter (\<lambda>d. fst d \<notin> V) m). (\<lambda>f. join (fst d) (fst f)) ` set (ds_files (snd d)))"
    by simp
  also have "\<dots> = {join d n | d n snap. map_of old d = Some snap \<and> d \<notin> V \<and> n \<in> fst ` set (ds_files snap)}"
    unfolding eq by force
  also have "\<dots> = {join d n | d n. d \<notin> V \<and> known_file old d n \<noteq> None}"
  proof -
    have "(\<exists>snap. map_of old d = Some snap \<and> n \<in> fst ` set (ds_files snap)) \<longleftrightarrow> known_file old d n \<noteq> None" for d n
    proof (cases "map_of old d")
      case None
      then show ?thesis by (simp add: known_file_def old_dir_def default_dir_def del: map_of_eq_None_iff)
    next
      case (Some snap)
      have "known_file old d n \<noteq> None \<longleftrightarrow> n \<in> fst ` set (ds_files snap)"
        by (simp add: known_file_def old_dir_def Some map_of_eq_None_iff)
      with Some show ?thesis by simp
    qed
    then show ?thesis by blast
  qed
  finally show ?thesis .
qed

lemma join_inj: "join d n = join d' n' \<longleftrightarrow> d = d' \<and> n = n'"
  by (simp add: join_def)

text \<open>
  C16.  On a finite tree where no call fails, neither on a directory nor on an entry, and where
  a directory that has the modification time of its snapshot has not changed since (the
  poller's stated reliance on the file system), a poll pass ends and reports exactly the
  difference: the admitted files on disk that the snapshot does not know unchanged, and the
  files of the snapshot that are not on disk; its new snapshot is the disk.  What happens when
  a call fails is the subject of the theorem on degraded passes below.
\<close>

theorem poll_pass_exact:
  assumes "finite_tree fs filters old U" and rd: "readable fs filters" and hon: "honest fs filters old"
    and dis: "distinct (map fst old)"
  shows "\<exists>out. run_poll_pass fs old filters p = Some out \<and> \<not> po_degraded out \<and>
    set (po_changes out) = {\<lparr>pc_path = join d n, pc_meta = m\<rparr> | d n m.
      on_disk fs filters d n m \<and> \<not> known_unchanged (old_dir old d) (n, m)} \<and>
    set (po_removals out) = {join d n | d n. known_file old d n \<noteq> None \<and> \<not> (\<exists>m. on_disk fs filters d n m)} \<and>
    (\<forall>d n m. known_file (po_snapshot out) d n = Some m \<longleftrightarrow> on_disk fs filters d n m)"
proof -
  let ?P = "\<lambda>s. exact_walk fs filters old s \<and> walking fs filters old U s"
  have "\<exists>s. poll_loop fs filters p (first_pass old filters) = Some s \<and> ?P s \<and> pp_stack s = []"
    by (rule poll_loop_rule [OF assms(1) first_walk [OF assms(1)]])
      (use exact_start [OF dis] first_walk [OF assms(1)] exact_step [OF rd hon] walking_step(1) [OF assms(1) _ _ refl] in blast)+
  then obtain s where s: "poll_loop fs filters p (first_pass old filters) = Some s" "exact_walk fs filters old s"
    "walking fs filters old U s" "pp_stack s = []" by blast
  note X = exact_walkD [OF s(2)] and V = exact_end [OF s(2,4) rd]
  have old: "map_of (pp_snapshot s) d = map_of old d" if "d \<notin> set (pp_visited s)" for d
    using s(3) that by (simp add: walking_def)
  have run: "run_poll_pass fs old filters p = Some (drop_stale s)" by (simp add: run_poll_pass_def s(1))
  have out: "po_snapshot (drop_stale s) = filter (\<lambda>d. fst d \<in> set (pp_visited s)) (pp_snapshot s)"
    "po_changes (drop_stale s) = pp_changes s" "\<not> po_degraded (drop_stale s)"
    "set (po_removals (drop_stale s)) = set (pp_removals s) \<union> {join d n | d n. d \<notin> set (pp_visited s) \<and> known_file old d n \<noteq> None}"
    using X(7) stale_files [OF X(6) old] by (simp_all add: drop_stale_def Let_def)
  have disk: "on_disk fs filters d n m \<longleftrightarrow> d \<in> set (pp_visited s) \<and>
      (\<exists>l. enumerate_dir fs d filters = Some l \<and> map_of (dl_files l) n = Some m)" for d n m
    using V by (auto simp: on_disk_def)
  have "set (po_changes (drop_stale s)) = {\<lparr>pc_path = join d n, pc_meta = m\<rparr> | d n m.
      on_disk fs filters d n m \<and> \<not> known_unchanged (old_dir old d) (n, m)}"
    unfolding out(2) X(8) differences_def disk by blast
  moreover have "set (po_removals (drop_stale s)) =
      {join d n | d n. known_file old d n \<noteq> None \<and> \<not> (\<exists>m. on_disk fs filters d n m)}"
  proof -
    have "d \<in> set (pp_visited s) \<and> (\<exists>l. enumerate_dir fs d filters = Some l \<and> map_of (dl_files l) n = None) \<or>
        d \<notin> set (pp_visited s) \<longleftrightarrow> \<not> (\<exists>m. on_disk fs filters d n m)" for d n
    proof (cases "d \<in> set (pp_visited s)")
      case True
      then obtain l where "enumerate_dir fs d filters = Some l" using V readableD(2) [OF rd] by blast
      then show ?thesis using True by (auto simp: disk)
    qed (simp add: disk)
    then show ?thesis unfolding out(4) X(9) vanished_def by blast
  qed
  moreover have "known_file (po_snapshot (drop_stale s)) d n = Some m \<longleftrightarrow> on_disk fs filters d n m" for d n m
  proof (cases "d \<in> set (pp_visited s)")
    case True
    then obtain l where l: "enumerate_dir fs d filters = Some l" using V readableD(2) [OF rd] by blast
    from X(5) [OF True this] obtain snap where "map_of (pp_snapshot s) d = Some snap" "agrees snap l" by blast
    then have "known_file (pp_snapshot s) d n = map_of (dl_files l) n"
      by (simp add: known_file_def old_dir_def agrees_def)
    then show ?thesis using True l by (simp add: out(1) known_file_filter disk)
  qed (simp add: out(1) known_file_filter disk)
  ultimately show ?thesis using run out(3) by blast
qed

section \<open>The first pass after a start\<close>

text \<open>The index as the seed keeps it: the time of the last row of each admitted path.\<close>

definition indexed :: "(string \<times> string) list \<Rightarrow> poll_filters \<Rightarrow> path \<Rightarrow> string option" where
  "indexed rows filters = map_of (rev (map (\<lambda>r. (components (fst r), snd r))
     (filter (\<lambda>r. path_passes_filters (components (fst r)) (pf_roots filters) (pf_excluded_roots filters)
        (pf_allowed_extensions filters)) rows)))"

lemma named_path:
  assumes "has_allowed_extension p exts"
  obtains d n where "p = join d n" "parent p = Some d" "file_name p = Some n"
proof -
  from assms obtain n where n: "file_name p = Some n" by (cases "file_name p") (auto simp: has_allowed_extension_def)
  then have l: "p \<noteq> []" "last p = Normal n" by (auto simp: file_name_def split: if_splits comp.splits)
  then have "p = join (butlast p) n" by (metis append_butlast_last_id join_def)
  with l n that show thesis by (simp add: parent_def)
qed

definition seeded :: "poller_snapshot \<Rightarrow> bool" where
  "seeded snapshot \<longleftrightarrow> distinct (map fst snapshot) \<and>
     (\<forall>d snap. map_of snapshot d = Some snap \<longrightarrow> ds_dir_modified snap = None \<and> ds_subdirs snap = [])"

lemma seed_row_effect:
  assumes "seeded snapshot"
  shows "seeded (seed_row filters snapshot row)"
    and "known_file (seed_row filters snapshot row) d n =
      (if path_passes_filters (components (fst row)) (pf_roots filters) (pf_excluded_roots filters) (pf_allowed_extensions filters)
          \<and> components (fst row) = join d n
       then Some \<lparr>fm_last_modified = snd row, fm_size = None\<rparr> else known_file snapshot d n)"
proof -
  let ?p = "components (fst row)"
  let ?ok = "path_passes_filters ?p (pf_roots filters) (pf_excluded_roots filters) (pf_allowed_extensions filters)"
  have "seeded (seed_row filters snapshot row) \<and> known_file (seed_row filters snapshot row) d n =
      (if ?ok \<and> ?p = join d n then Some \<lparr>fm_last_modified = snd row, fm_size = None\<rparr> else known_file snapshot d n)"
  proof (cases ?ok)
    case False
    then have "seed_row filters snapshot row = snapshot"
      by (auto simp: seed_row_def path_passes_filters_def Let_def split: if_splits)
    with False assms show ?thesis by simp
  next
    case True
    then have ext: "has_allowed_extension ?p (pf_allowed_extensions filters)" by (auto simp: path_passes_filters_def split: if_splits)
    obtain e m where p: "?p = join e m" "parent ?p = Some e" "file_name ?p = Some m" by (rule named_path [OF ext])
    let ?old = "old_dir snapshot e"
    let ?new = "?old\<lparr>ds_files := AList.update m \<lparr>fm_last_modified = snd row, fm_size = None\<rparr> (ds_files ?old)\<rparr>"
    have row: "seed_row filters snapshot row = AList.update e ?new snapshot"
      using True p(2,3) unfolding seed_row_def path_passes_filters_def by (auto simp: Let_def old_dir_def split: if_splits)
    have old: "ds_dir_modified ?old = None \<and> ds_subdirs ?old = []"
      using assms by (auto simp: seeded_def old_dir_def default_dir_def split: option.split)
    have "seeded (AList.update e ?new snapshot)"
      using assms old by (auto simp: seeded_def distinct_update update_conv')
    moreover have "known_file (AList.update e ?new snapshot) d n =
        (if ?p = join d n then Some \<lparr>fm_last_modified = snd row, fm_size = None\<rparr> else known_file snapshot d n)"
      by (auto simp: known_file_def old_dir_def update_conv' p(1) join_inj)
    ultimately show ?thesis using True row by simp
  qed
  then show "seeded (seed_row filters snapshot row)"
    "known_file (seed_row filters snapshot row) d n =
      (if ?ok \<and> ?p = join d n then Some \<lparr>fm_last_modified = snd row, fm_size = None\<rparr> else known_file snapshot d n)" by blast+
qed

lemma seed_snapshot_effect:
  "seeded (seed_snapshot rows filters) \<and>
    known_file (seed_snapshot rows filters) d n =
      map_option (\<lambda>t. \<lparr>fm_last_modified = t, fm_size = None\<rparr>) (indexed rows filters (join d n))"
proof (induction rows rule: rev_induct)
  case Nil
  then show ?case by (simp add: seed_snapshot_def seeded_def known_file_def old_dir_def default_dir_def indexed_def)
next
  case (snoc row rows)
  then have s: "seeded (seed_snapshot rows filters)" by blast
  have e: "seed_snapshot (rows @ [row]) filters = seed_row filters (seed_snapshot rows filters) row" by (simp add: seed_snapshot_def)
  show ?case unfolding e using seed_row_effect [OF s, of filters row] snoc by (auto simp: indexed_def)
qed

text \<open>
  The first pass after the scanner starts reports exactly what changed since the index was
  written: every admitted file on disk that has no row or another time, and every indexed file
  of the watched folders that is gone.
\<close>

theorem catch_up_is_exact:
  assumes tree: "finite_tree fs filters [] U" and rd: "readable fs filters"
  shows "\<exists>out. run_poll_pass fs (seed_snapshot rows filters) filters p = Some out \<and> \<not> po_degraded out \<and>
    set (po_changes out) = {\<lparr>pc_path = join d n, pc_meta = m\<rparr> | d n m.
      on_disk fs filters d n m \<and> indexed rows filters (join d n) \<noteq> Some (fm_last_modified m)} \<and>
    set (po_removals out) = {join d n | d n. indexed rows filters (join d n) \<noteq> None \<and> \<not> (\<exists>m. on_disk fs filters d n m)}"
proof -
  let ?s = "seed_snapshot rows filters"
  have s: "seeded ?s" and known: "known_file ?s d n =
      map_option (\<lambda>t. \<lparr>fm_last_modified = t, fm_size = None\<rparr>) (indexed rows filters (join d n))" for d n
    using seed_snapshot_effect by blast+
  have "children fs filters ?s d = children fs filters [] d" for d
    using s by (auto simp: children_def seeded_def split: option.split)
  then have fin: "finite_tree fs filters ?s U" using tree by (simp add: finite_tree_def)
  have hon: "honest fs filters ?s" using s by (auto simp: honest_def seeded_def)
  have dis: "distinct (map fst ?s)" using s by (simp add: seeded_def)
  have same: "known_unchanged (old_dir ?s d) (n, m) \<longleftrightarrow> indexed rows filters (join d n) = Some (fm_last_modified m)" for d n m
    using known [of d n] by (cases "indexed rows filters (join d n)") (auto simp: known_unchanged_def known_file_def)
  have row: "known_file ?s d n \<noteq> None \<longleftrightarrow> indexed rows filters (join d n) \<noteq> None" for d n using known by simp
  from poll_pass_exact [OF fin rd hon dis, of p, unfolded same row] show ?thesis by (elim exE conjE) (intro exI conjI)
qed

section \<open>Passes that met an error\<close>

text \<open>
  The directories a pass comes to: the roots, and below a directory the subfolders of its
  snapshot when its time is the snapshot's, or else those of its listing.  A directory fails
  when its time cannot be read, or when it has to be listed and cannot be.
\<close>

definition walk_children :: "file_system \<Rightarrow> poll_filters \<Rightarrow> poller_snapshot \<Rightarrow> path \<Rightarrow> path set" where
  "walk_children fs filters old d =
     (case fs_modified fs d of
        None \<Rightarrow> {}
      | Some t \<Rightarrow>
          if Option.bind (map_of old d) ds_dir_modified = Some t then join d ` set (ds_subdirs (old_dir old d))
          else (case enumerate_dir fs d filters of None \<Rightarrow> {} | Some l \<Rightarrow> join d ` set (dl_subdirs l)))"

inductive walked :: "file_system \<Rightarrow> poll_filters \<Rightarrow> poller_snapshot \<Rightarrow> path \<Rightarrow> bool" for fs filters old where
  root: "r \<in> set (pf_roots filters) \<Longrightarrow> \<not> is_excluded (components r) (pf_excluded_roots filters) \<Longrightarrow>
    walked fs filters old (components r)"
| child: "walked fs filters old d \<Longrightarrow> c \<in> walk_children fs filters old d \<Longrightarrow>
    \<not> is_excluded c (pf_excluded_roots filters) \<Longrightarrow> walked fs filters old c"

definition failing :: "file_system \<Rightarrow> poller_snapshot \<Rightarrow> path \<Rightarrow> bool" where
  "failing fs old d \<longleftrightarrow>
     fs_modified fs d = None \<or>
     Option.bind (map_of old d) ds_dir_modified \<noteq> fs_modified fs d \<and> fs_entries fs d = None"

text \<open>An entry that the pass sees as a file of the tree.\<close>

definition seen_file :: "poll_filters \<Rightarrow> path \<Rightarrow> string \<Rightarrow> entry_meta option \<Rightarrow> bool" where
  "seen_file filters d n m \<longleftrightarrow>
     (\<exists>t len. m = Some (IsFile (Some t) len)) \<and> \<not> is_hidden_or_temp (join d n) \<and>
     has_allowed_extension (join d n) (pf_allowed_extensions filters) \<and>
     \<not> is_excluded (join d n) (pf_excluded_roots filters)"

lemma listed_files:
  assumes "enumerate_dir fs d filters = Some l" and "fs_entries fs d = Some es"
    and "(n, m) \<in> set es" and "seen_file filters d n m"
  shows "map_of (dl_files l) n \<noteq> None"
proof -
  have "map_of (dl_files (foldl (list_entry d filters) l0 xs)) n \<noteq> None"
    if "map_of (dl_files l0) n \<noteq> None \<or> (n, m) \<in> set xs" for l0 xs
    using that
  proof (induction xs arbitrary: l0)
    case (Cons e xs)
    have "map_of (dl_files (list_entry d filters l0 e)) n \<noteq> None" if "map_of (dl_files l0) n \<noteq> None \<or> e = (n, m)"
      using that assms(4)
      by (auto simp: list_entry_def Let_def update_conv' seen_file_def split: option.split entry_meta.split)
    with Cons.prems Cons.IH [of "list_entry d filters l0 e"] show ?case by auto
  qed simp
  then show ?thesis using assms(1-3) by (auto simp: enumerate_dir_def simp del: map_of_eq_None_iff)
qed

definition gone_file :: "file_system \<Rightarrow> poll_filters \<Rightarrow> poller_snapshot \<Rightarrow> path \<Rightarrow> bool" where
  "gone_file fs filters old q \<longleftrightarrow>
     (\<exists>d n es. q = join d n \<and> walked fs filters old d \<and> known_file old d n \<noteq> None \<and>
        fs_entries fs d = Some es \<and> (\<forall>m. (n, m) \<in> set es \<longrightarrow> \<not> seen_file filters d n m))"

definition error_walk :: "file_system \<Rightarrow> poll_filters \<Rightarrow> poller_snapshot \<Rightarrow> poll_pass \<Rightarrow> bool" where
  "error_walk fs filters old s \<longleftrightarrow>
     (\<forall>d \<in> set (pp_stack s). is_excluded d (pf_excluded_roots filters) \<or> walked fs filters old d) \<and>
     (pp_degraded s \<longrightarrow> (\<exists>d. walked fs filters old d \<and> failing fs old d)) \<and>
     (\<not> pp_degraded s \<longrightarrow>
        (\<forall>r \<in> set (pf_roots filters). is_excluded (components r) (pf_excluded_roots filters) \<or>
           components r \<in> set (pp_visited s) \<union> set (pp_stack s)) \<and>
        (\<forall>d \<in> set (pp_visited s). walked fs filters old d \<and> \<not> failing fs old d \<and>
           (\<forall>c \<in> walk_children fs filters old d. is_excluded c (pf_excluded_roots filters) \<or>
              c \<in> set (pp_visited s) \<union> set (pp_stack s)))) \<and>
     (\<forall>q \<in> set (pp_removals s). gone_file fs filters old q) \<and>
     (\<forall>d. \<not> walked fs filters old d \<or> fs_modified fs d = None \<or> fs_entries fs d = None \<longrightarrow>
        map_of (pp_snapshot s) d = map_of old d) \<and>
     distinct (map fst (pp_snapshot s))"

lemma error_walkD:
  assumes "error_walk fs filters old s"
  shows "d \<in> set (pp_stack s) \<Longrightarrow> is_excluded d (pf_excluded_roots filters) \<or> walked fs filters old d"
    and "pp_degraded s \<Longrightarrow> \<exists>d. walked fs filters old d \<and> failing fs old d"
    and "\<not> pp_degraded s \<Longrightarrow> r \<in> set (pf_roots filters) \<Longrightarrow> is_excluded (components r) (pf_excluded_roots filters) \<or>
           components r \<in> set (pp_visited s) \<union> set (pp_stack s)"
    and "\<not> pp_degraded s \<Longrightarrow> d \<in> set (pp_visited s) \<Longrightarrow> walked fs filters old d \<and> \<not> failing fs old d"
    and "\<not> pp_degraded s \<Longrightarrow> d \<in> set (pp_visited s) \<Longrightarrow> c \<in> walk_children fs filters old d \<Longrightarrow>
        is_excluded c (pf_excluded_roots filters) \<or> c \<in> set (pp_visited s) \<union> set (pp_stack s)"
    and "q \<in> set (pp_removals s) \<Longrightarrow> gone_file fs filters old q"
    and "\<not> walked fs filters old d \<or> fs_modified fs d = None \<or> fs_entries fs d = None \<Longrightarrow>
        map_of (pp_snapshot s) d = map_of old d"
    and "distinct (map fst (pp_snapshot s))"
  using assms unfolding error_walk_def by blast+

lemma error_walkI:
  assumes "\<And>d. d \<in> set (pp_stack s) \<Longrightarrow> is_excluded d (pf_excluded_roots filters) \<or> walked fs filters old d"
    and "pp_degraded s \<Longrightarrow> \<exists>d. walked fs filters old d \<and> failing fs old d"
    and "\<And>r. \<not> pp_degraded s \<Longrightarrow> r \<in> set (pf_roots filters) \<Longrightarrow> is_excluded (components r) (pf_excluded_roots filters) \<or>
           components r \<in> set (pp_visited s) \<union> set (pp_stack s)"
    and "\<And>d. \<not> pp_degraded s \<Longrightarrow> d \<in> set (pp_visited s) \<Longrightarrow> walked fs filters old d \<and> \<not> failing fs old d"
    and "\<And>d c. \<not> pp_degraded s \<Longrightarrow> d \<in> set (pp_visited s) \<Longrightarrow> c \<in> walk_children fs filters old d \<Longrightarrow>
        is_excluded c (pf_excluded_roots filters) \<or> c \<in> set (pp_visited s) \<union> set (pp_stack s)"
    and "\<And>q. q \<in> set (pp_removals s) \<Longrightarrow> gone_file fs filters old q"
    and "\<And>d. \<not> walked fs filters old d \<or> fs_modified fs d = None \<or> fs_entries fs d = None \<Longrightarrow>
        map_of (pp_snapshot s) d = map_of old d"
    and "distinct (map fst (pp_snapshot s))"
  shows "error_walk fs filters old s"
  using assms unfolding error_walk_def by blast

lemma error_step:
  assumes w: "walking fs filters old U s" and x: "error_walk fs filters old s" and st: "pp_stack s = d # stack"
  shows "error_walk fs filters old (poll_dir fs filters p d (s\<lparr>pp_stack := stack\<rparr>))"
proof -
  let ?s = "s\<lparr>pp_stack := stack\<rparr>"
  let ?s' = "poll_dir fs filters p d ?s"
  note X = error_walkD [OF x, unfolded st]
  have old: "map_of (pp_snapshot s) e = map_of old e" if "e \<notin> set (pp_visited s)" for e
    using w that by (simp add: walking_def)
  show ?thesis
  proof (cases rule: poll_dir_cases [where fs = fs and filters = filters and p = p and d = d and s = ?s])
    case skip
    show ?thesis unfolding skip(2)
    proof (rule error_walkI, goal_cases)
      case (1 e) then show ?case using X(1) by simp
    next
      case (3 r) then show ?case using X(3) [of r] skip(1) by auto
    next
      case (5 e c) then show ?case using X(5) [of e c] skip(1) by auto
    qed (use X in \<open>simp_all\<close>)
  next
    case failed
    have d: "walked fs filters old d" using X(1) [of d] failed(1) by simp
    have fail: "failing fs old d"
      using failed(2,3,5) old by (auto simp: failing_def enumerate_dir_def)
    show ?thesis unfolding failed(4)
    proof (rule error_walkI, goal_cases)
      case (1 e) then show ?case using X(1) by simp
    next
      case 2 then show ?case using d fail by blast
    qed (use X in \<open>simp_all\<close>)
  next
    case (trusted snap t)
    have d: "walked fs filters old d" using X(1) [of d] trusted(1) by simp
    have snap: "map_of old d = Some snap" using old trusted(2,4) by simp
    then have kids: "walk_children fs filters old d = join d ` set (ds_subdirs snap)"
      using trusted(3,5) by (simp add: walk_children_def old_dir_def)
    have ok: "\<not> failing fs old d" using trusted(3,5) snap by (simp add: failing_def)
    show ?thesis unfolding trusted(6)
    proof (rule error_walkI, goal_cases)
      case (1 e) then show ?case using X(1) walked.child [OF d] kids by auto
    next
      case (3 r) then show ?case using X(3) [of r] by auto
    next
      case (4 e) then show ?case using X(4) [of e] d ok by auto
    next
      case (5 e c) then show ?case using X(5) [of e c] kids by (cases "e = d") auto
    qed (use X in \<open>simp_all\<close>)
  next
    case (listed l t)
    have d: "walked fs filters old d" using X(1) [of d] listed(1) by simp
    have od: "old_dir (pp_snapshot s) d = old_dir old d" and moved: "Option.bind (map_of old d) ds_dir_modified \<noteq> Some t"
      using old listed(2,6) by (simp_all add: old_dir_def)
    have kids: "walk_children fs filters old d = join d ` set (dl_subdirs l)"
      using listed(3,4) moved by (simp add: walk_children_def)
    obtain es where es: "fs_entries fs d = Some es" using listed(4) by (auto simp: enumerate_dir_def)
    then have ok: "\<not> failing fs old d" using listed(3) by (simp add: failing_def)
    have gone: "gone_file fs filters old (join d n)"
      if "map_of (dl_files l) n = None" "n \<in> fst ` set (ds_files (old_dir old d))" for n
    proof -
      have "known_file old d n \<noteq> None" using that(2) by (simp add: known_file_def map_of_eq_None_iff)
      moreover have "\<not> seen_file filters d n m" if "(n, m) \<in> set es" for m
        using listed_files [OF listed(4) es that] \<open>map_of (dl_files l) n = None\<close> by blast
      ultimately show ?thesis using d es unfolding gone_file_def by blast
    qed
    show ?thesis unfolding listed(5)
    proof (rule error_walkI, goal_cases)
      case (1 e) then show ?case using X(1) walked.child [OF d] kids by auto
    next
      case (3 r) then show ?case using X(3) [of r] by auto
    next
      case (4 e) then show ?case using X(4) [of e] d ok by auto
    next
      case (5 e c) then show ?case using X(5) [of e c] kids by (cases "e = d") auto
    next
      case (6 q) then show ?case using X(6) gone by (auto simp: take_listing_parts od)
    next
      case (7 e)
      have "e \<noteq> d" using 7 d es listed(3) by auto
      then show ?case using X(7) [OF 7] by (simp add: take_listing_snapshot)
    next
      case 8 then show ?case using X(8) by (simp add: take_listing_parts(3))
    qed (use X in \<open>simp_all\<close>)
  qed
qed

text \<open>
  C33.  What a failed call does.  A pass ends, and it is marked as degraded exactly when it came
  to a directory whose time could not be read or that it had to list and could not.  Whatever
  it reports as removed was known and is either in a directory it came to and whose listing
  shows no admitted file of that name, or, only in a pass that is not degraded, in a directory
  it did not come to at all.  A degraded pass keeps what it knew of every directory it could
  not read, could not list or did not come to.  (A single entry whose own metadata cannot be
  read is not a failure to the pass: it is passed over like an entry that is not there.)
\<close>

theorem degraded_pass_removes_nothing_unseen:
  assumes tree: "finite_tree fs filters old U" and dis: "distinct (map fst old)"
  shows "\<exists>out. run_poll_pass fs old filters p = Some out \<and>
    (po_degraded out \<longleftrightarrow> (\<exists>d. walked fs filters old d \<and> failing fs old d)) \<and>
    (\<forall>q \<in> set (po_removals out). gone_file fs filters old q \<or>
      \<not> po_degraded out \<and> (\<exists>d n. q = join d n \<and> \<not> walked fs filters old d \<and> known_file old d n \<noteq> None)) \<and>
    (po_degraded out \<longrightarrow>
      (\<forall>d. \<not> walked fs filters old d \<or> fs_modified fs d = None \<or> fs_entries fs d = None \<longrightarrow>
        map_of (po_snapshot out) d = map_of old d))"
proof -
  let ?P = "\<lambda>s. error_walk fs filters old s \<and> walking fs filters old U s"
  have "error_walk fs filters old (first_pass old filters)"
    by (rule error_walkI) (use dis in \<open>auto simp: first_pass_def intro: walked.root\<close>)
  then have "\<exists>s. poll_loop fs filters p (first_pass old filters) = Some s \<and> ?P s \<and> pp_stack s = []"
    by (intro poll_loop_rule [OF tree first_walk [OF tree]])
      (use first_walk [OF tree] error_step walking_step(1) [OF tree _ _ refl] in blast)+
  then obtain s where s: "poll_loop fs filters p (first_pass old filters) = Some s" "error_walk fs filters old s"
    "walking fs filters old U s" "pp_stack s = []" by blast
  note X = error_walkD [OF s(2), unfolded s(4)]
  have all: "d \<in> set (pp_visited s)" if "\<not> pp_degraded s" "walked fs filters old d" for d
    using that(2)
  proof (induction rule: walked.induct)
    case (root r)
    then show ?case using X(3) [OF that(1), of r] by auto
  next
    case (child d c)
    then show ?case using X(5) [OF that(1), of d c] by auto
  qed
  have old: "map_of (pp_snapshot s) d = map_of old d" if "d \<notin> set (pp_visited s)" for d
    using s(3) that by (simp add: walking_def)
  have flag: "po_degraded (drop_stale s) = pp_degraded s" by (simp add: drop_stale_def Let_def)
  have "pp_degraded s \<longleftrightarrow> (\<exists>d. walked fs filters old d \<and> failing fs old d)"
    using X(2) X(4) all by blast
  moreover have "gone_file fs filters old q \<or>
      \<not> pp_degraded s \<and> (\<exists>d n. q = join d n \<and> \<not> walked fs filters old d \<and> known_file old d n \<noteq> None)"
    if "q \<in> set (po_removals (drop_stale s))" for q
  proof (cases "pp_degraded s")
    case True
    then show ?thesis using that X(6) by (simp add: drop_stale_def Let_def)
  next
    case False
    then have "q \<in> set (pp_removals s) \<or>
        q \<in> {join d n | d n. d \<notin> set (pp_visited s) \<and> known_file old d n \<noteq> None}"
      using that stale_files [where V = "set (pp_visited s)", OF X(8) old]
      by (simp add: drop_stale_def Let_def del: set_concat set_map)
    then show ?thesis using X(6) False all [OF False] by blast
  qed
  moreover have "pp_degraded s \<Longrightarrow> po_snapshot (drop_stale s) = pp_snapshot s" by (simp add: drop_stale_def Let_def)
  ultimately show ?thesis using X(7) by (intro exI [of _ "drop_stale s"]) (simp add: run_poll_pass_def s(1) flag)
qed

section \<open>A small tree\<close>

text \<open>
  The root \<open>/r\<close> holds one picture and a folder with another; the index knows the first with an
  older time and a file that is gone.
\<close>

definition small_fs :: file_system where
  "small_fs = \<lparr>fs_modified = (\<lambda>d. if d = components ''/r/'' \<or> d = components ''/r/s'' then Some 5 else None),
     fs_entries = (\<lambda>d.
       if d = components ''/r/''
       then Some [(''a.png'', Some (IsFile (Some ''t2'') 9)), (''s'', Some IsDir), (''.git'', Some IsDir), (''x.txt'', Some (IsFile (Some ''t2'') 1))]
       else if d = components ''/r/s'' then Some [(''b.png'', Some (IsFile (Some ''t1'') 7))] else None)\<rparr>"

definition small_filters :: poll_filters where
  "small_filters = \<lparr>pf_roots = [''/r/''], pf_excluded_roots = [],
     pf_allowed_extensions = [''.jpg'', ''.jpeg'', ''.png'', ''.bmp'', ''.gif'', ''.tiff'', ''.webp'']\<rparr>"

definition small_rows :: "(string \<times> string) list" where
  "small_rows = [(''/r/a.png'', ''t1''), (''/r/gone.png'', ''t0''), (''/r/s/b.png'', ''t1'')]"

lemma small_listing:
  "enumerate_dir small_fs (components ''/r/'') small_filters =
    Some \<lparr>dl_files = [(''a.png'', \<lparr>fm_last_modified = ''t2'', fm_size = Some 9\<rparr>)], dl_subdirs = [''s'']\<rparr>"
  "enumerate_dir small_fs (components ''/r/s'') small_filters =
    Some \<lparr>dl_files = [(''b.png'', \<lparr>fm_last_modified = ''t1'', fm_size = Some 7\<rparr>)], dl_subdirs = []\<rparr>"
  by code_simp+

lemma small_join: "join (components ''/r/'') ''s'' = components ''/r/s''"
  by code_simp

lemma small_enumerates: "enumerate_dir small_fs d small_filters \<noteq> None \<longleftrightarrow> d \<in> {components ''/r/'', components ''/r/s''}"
  by (simp add: enumerate_dir_def small_fs_def)

lemma small_in_tree: "in_tree small_fs small_filters d \<Longrightarrow> d \<in> {components ''/r/'', components ''/r/s''}"
proof (induction rule: in_tree.induct)
  case (root r)
  then show ?case by (simp add: small_filters_def)
next
  case (child d l n)
  then show ?case using small_listing small_join by auto
qed

lemma small_readable: "readable small_fs small_filters"
  unfolding readable_def
proof (intro allI impI)
  fix d assume "in_tree small_fs small_filters d"
  then have "d \<in> {components ''/r/'', components ''/r/s''}" by (rule small_in_tree)
  then show "fs_modified small_fs d \<noteq> None \<and>
      (\<exists>es. fs_entries small_fs d = Some es \<and> (\<forall>e \<in> set es. known_entry (snd e)))"
    by (auto simp: small_fs_def known_entry_def)
qed

lemma small_finite: "finite_tree small_fs small_filters [] {components ''/r/'', components ''/r/s''}"
  unfolding finite_tree_def children_def using small_listing small_join by (simp add: small_filters_def)

lemma poll_pass_exact_witness:
  "\<exists>out. run_poll_pass small_fs [] small_filters 10 = Some out \<and> \<not> po_degraded out \<and>
    (\<forall>d n m. known_file (po_snapshot out) d n = Some m \<longleftrightarrow> on_disk small_fs small_filters d n m)"
proof -
  have "honest small_fs small_filters []" by (simp add: honest_def)
  from poll_pass_exact [OF small_finite small_readable this, of 10] show ?thesis by auto
qed

lemma catch_up_is_exact_witness:
  "\<exists>out. run_poll_pass small_fs (seed_snapshot small_rows small_filters) small_filters 10 = Some out \<and>
    components ''/r/gone.png'' \<in> set (po_removals out)"
proof -
  have j: "components ''/r/gone.png'' = join (components ''/r/'') ''gone.png''" by code_simp
  have "indexed small_rows small_filters (join (components ''/r/'') ''gone.png'') = Some ''t0''" by code_simp
  moreover have "\<not> on_disk small_fs small_filters (components ''/r/'') ''gone.png'' m" for m
    unfolding on_disk_def small_listing by simp
  ultimately have "components ''/r/gone.png'' \<in> {join d n | d n.
      indexed small_rows small_filters (join d n) \<noteq> None \<and> \<not> (\<exists>m. on_disk small_fs small_filters d n m)}"
    unfolding j by blast
  moreover obtain out where "run_poll_pass small_fs (seed_snapshot small_rows small_filters) small_filters 10 = Some out"
    "set (po_removals out) = {join d n | d n.
      indexed small_rows small_filters (join d n) \<noteq> None \<and> \<not> (\<exists>m. on_disk small_fs small_filters d n m)}"
    using catch_up_is_exact [OF small_finite small_readable, of small_rows 10] by blast
  ultimately show ?thesis by blast
qed

lemma degraded_pass_removes_nothing_unseen_witness:
  "\<exists>out. run_poll_pass (small_fs\<lparr>fs_entries := (\<lambda>_. None)\<rparr>) (seed_snapshot small_rows small_filters) small_filters 10 = Some out \<and>
    po_degraded out \<and> po_removals out = [] \<and>
    map_of (po_snapshot out) (components ''/r/s'') = map_of (seed_snapshot small_rows small_filters) (components ''/r/s'')"
proof -
  let ?fs = "small_fs\<lparr>fs_entries := (\<lambda>_. None)\<rparr>"
  let ?old = "seed_snapshot small_rows small_filters"
  have s: "seeded ?old" using seed_snapshot_effect by blast
  have none: "enumerate_dir ?fs d small_filters = None" for d by (simp add: enumerate_dir_def)
  have "children ?fs small_filters ?old d = {}" for d
    using s unfolding children_def none by (auto simp: seeded_def split: option.split)
  then have "finite_tree ?fs small_filters ?old {components ''/r/''}"
    by (simp add: finite_tree_def small_filters_def)
  moreover have "distinct (map fst ?old)" using s by (simp add: seeded_def)
  ultimately obtain out where out: "run_poll_pass ?fs ?old small_filters 10 = Some out"
    "po_degraded out \<longleftrightarrow> (\<exists>d. walked ?fs small_filters ?old d \<and> failing ?fs ?old d)"
    "\<forall>q \<in> set (po_removals out). gone_file ?fs small_filters ?old q \<or> \<not> po_degraded out \<and>
      (\<exists>d n. q = join d n \<and> \<not> walked ?fs small_filters ?old d \<and> known_file ?old d n \<noteq> None)"
    "po_degraded out \<longrightarrow> (\<forall>d. \<not> walked ?fs small_filters ?old d \<or> fs_modified ?fs d = None \<or> fs_entries ?fs d = None \<longrightarrow>
      map_of (po_snapshot out) d = map_of ?old d)"
    using degraded_pass_removes_nothing_unseen [of ?fs small_filters ?old _ 10] by blast
  have "\<not> is_excluded (components ''/r/'') (pf_excluded_roots small_filters)" by code_simp
  then have "walked ?fs small_filters ?old (components ''/r/'')" by (intro walked.root) (simp_all add: small_filters_def)
  moreover have "map_of ?old d = Some snap \<Longrightarrow> ds_dir_modified snap = None" for d snap using s by (simp add: seeded_def)
  then have "Option.bind (map_of ?old d) ds_dir_modified = None" for d by (cases "map_of ?old d") auto
  then have "failing ?fs ?old (components ''/r/'')" by (simp add: failing_def small_fs_def)
  ultimately have deg: "po_degraded out" using out(2) by blast
  have "\<not> gone_file ?fs small_filters ?old q" for q by (simp add: gone_file_def)
  with out(3) deg have "po_removals out = []" by (cases "po_removals out") auto
  with out(1,4) deg show ?thesis by simp
qed

text \<open>
  Where code and documentation differ: the module promises that any stat error marks the pass
  as degraded and never turns into a removal, but an entry whose metadata cannot be read is
  passed over, so a known file behind it is reported removed by a pass that is not degraded.
\<close>

lemma unreadable_entry_is_removed:
  assumes fs_def: "fs = \<lparr>fs_modified = (\<lambda>_. Some 5), fs_entries = (\<lambda>d. Some [(''a.png'', None)])\<rparr>"
    and old_def: "old = seed_snapshot [(''/r/a.png'', ''t1'')] small_filters"
  shows "\<exists>out. run_poll_pass fs old small_filters 10 = Some out \<and>
    \<not> po_degraded out \<and> po_removals out = [components ''/r/a.png'']"
proof -
  define r where "r = components ''/r''"
  have r: "components ''/r/'' = r" "components ''/r/a.png'' = join r ''a.png''" unfolding r_def by code_simp+
  have old: "old = [(r, \<lparr>ds_dir_modified = None, ds_files = [(''a.png'', \<lparr>fm_last_modified = ''t1'', fm_size = None\<rparr>)],
      ds_subdirs = []\<rparr>)]"
    unfolding old_def r_def by code_simp
  have list: "enumerate_dir fs r small_filters = Some \<lparr>dl_files = [], dl_subdirs = []\<rparr>"
    by (simp add: enumerate_dir_def fs_def list_entry_def)
  have ex: "pf_excluded_roots small_filters = []" by (simp add: small_filters_def)
  let ?s = "first_pass old small_filters"
  let ?fin = "poll_dir fs small_filters 10 r (?s\<lparr>pp_stack := []\<rparr>)"
  have s: "pp_stack ?s = [r]" by (simp add: first_pass_def small_filters_def r)
  have e: "?fin = \<lparr>pp_snapshot = [(r, \<lparr>ds_dir_modified = None, ds_files = [], ds_subdirs = []\<rparr>)], pp_changes = [],
      pp_removals = [join r ''a.png''], pp_visited = [r], pp_degraded = False, pp_stack = []\<rparr>"
    by (simp add: poll_dir_def list take_listing_def first_pass_def old fs_def [THEN arg_cong, of fs_modified]
        is_excluded_def ex mtime_settle_def Let_def)
  have "poll_loop fs small_filters 10 ?s = poll_loop fs small_filters 10 ?fin"
    by (subst poll_loop.simps) (simp add: s)
  moreover have "poll_loop fs small_filters 10 ?fin = Some ?fin" by (subst poll_loop.simps) (simp add: e)
  ultimately have "run_poll_pass fs old small_filters 10 = Some (drop_stale ?fin)" by (simp add: run_poll_pass_def)
  then show ?thesis by (simp add: e drop_stale_def r)
qed

end
