(* ===== verification/ScanFile.thy ===== *)
theory ScanFile
  imports DirPoller
begin

text \<open>
  One file on its way through a scan: the recorded failures (\<open>panoptikon/src/db/scan_errors.rs\<close>),
  how a failure is classified and recorded, what a processed file writes
  (\<open>jobs/files/mod.rs\<close>), and the worker of the continuous scan that decides whether a file is
  processed at all (\<open>jobs/continuous_scan.rs\<close>).  Images, metadata and verdicts pass through
  as values of type \<open>'b\<close>; the text of a path is its components.
\<close>

section \<open>Recorded failures\<close>

datatype blocker = Pdfium | HtmlRenderer | Ffmpeg

datatype api_error_kind = GenericError | InputError | BlockedError blocker | ResourceError

fun persisted_class :: "api_error_kind \<Rightarrow> string option" where
  "persisted_class GenericError = None"
| "persisted_class InputError = Some ''input''"
| "persisted_class (BlockedError b) = Some ''blocked''"
| "persisted_class ResourceError = Some ''resource''"

record scan_error_record =
  se_path :: path
  se_last_modified :: string
  se_file_size :: int
  se_stage :: string
  se_kind :: api_error_kind
  se_mime_type :: "string option"
  se_error :: string
  se_skip_after :: int

record scan_error_skip =
  sk_path :: path
  sk_last_modified :: string
  sk_file_size :: int
  sk_attempts :: int
  sk_skip_after :: int
  sk_stage :: string

definition stage_blocks_indexing :: "string \<Rightarrow> bool" where
  "stage_blocks_indexing stage \<longleftrightarrow> stage \<noteq> ''decode''"

definition stat_matches :: "scan_error_skip \<Rightarrow> string \<Rightarrow> int \<Rightarrow> bool" where
  "stat_matches skip last_modified file_size \<longleftrightarrow> sk_last_modified skip = last_modified \<and> sk_file_size skip = file_size"

definition suppresses :: "scan_error_skip \<Rightarrow> string \<Rightarrow> int \<Rightarrow> bool" where
  "suppresses skip last_modified file_size \<longleftrightarrow>
     stage_blocks_indexing (sk_stage skip) \<and> sk_attempts skip \<ge> sk_skip_after skip \<and> stat_matches skip last_modified file_size"

definition cleared_by_success :: "scan_error_skip \<Rightarrow> string \<Rightarrow> int \<Rightarrow> bool" where
  "cleared_by_success skip last_modified file_size \<longleftrightarrow>
     stage_blocks_indexing (sk_stage skip) \<or> \<not> stat_matches skip last_modified file_size"

record scan_failure =
  sf_stage :: string
  sf_kind :: api_error_kind
  sf_skip_after :: int
  sf_message :: string

datatype 'b process_error =
    WorkerError string
  | IoError string
  | Classified scan_failure
  | VisualsError 'b
  | Filtered
  | Unchanged
  | KnownBad

fun classified :: "'b process_error \<Rightarrow> scan_failure option" where
  "classified (Classified f) = Some f"
| "classified _ = None"

definition skip_after_confirmed :: int where
  "skip_after_confirmed = 1"

text \<open>\<open>sniffed\<close> is what the first bytes of the file say it is.\<close>

definition override_mime_from_content :: "string option \<Rightarrow> scan_error_record \<Rightarrow> scan_error_record" where
  "override_mime_from_content sniffed r =
     (if se_stage r \<noteq> ''header'' \<and> se_stage r \<noteq> ''metadata'' then r
      else if se_kind r \<noteq> InputError then r
      else case sniffed of
        None \<Rightarrow> r
      | Some mime \<Rightarrow> r\<lparr>se_mime_type := Some mime, se_skip_after := skip_after_confirmed\<rparr>)"

section \<open>What a processed file writes\<close>

record 'b prepared_file =
  pr_path :: path
  pr_last_modified :: string
  pr_file_size :: int
  pr_sha256 :: string
  pr_mime_type :: string
  pr_metadata :: 'b
  pr_thumbnails :: "'b list"
  pr_tiers :: "'b list"
  pr_frames :: "'b list"
  pr_blurhash :: "string option"
  pr_transparency :: "bool option"
  pr_visual_verdicts :: "'b list"
  pr_visuals_scan_error :: "scan_error_record option"
  pr_outro :: "'b option"

record 'b file_scan_data =
  fd_sha256 :: string
  fd_last_modified :: string
  fd_path :: path
  fd_new_file_hash :: bool
  fd_file_size :: "int option"
  fd_item_metadata :: "'b option"
  fd_blurhash :: "string option"

record 'b file_write_data =
  fw_sha256 :: string
  fw_mime_type :: string
  fw_data :: "'b file_scan_data"
  fw_new_file_timestamp :: bool
  fw_new_file_hash :: bool
  fw_prepared :: "'b prepared_file"
  fw_time_added :: string

text \<open>
  \<open>existing\<close> is the row of the path (its time and hash), \<open>item_id\<close> the item of a hash; each is
  \<open>None\<close> when the query fails.
\<close>

definition build_file_scan_data ::
  "(path \<Rightarrow> (string \<times> string) option option) \<Rightarrow> (string \<Rightarrow> int option option) \<Rightarrow> 'b prepared_file \<Rightarrow> string \<Rightarrow>
     'b file_write_data option" where
  "build_file_scan_data existing item_id p scan_time =
     (let data = (\<lambda>sha last_modified new_hash size meta. \<lparr>fd_sha256 = sha, fd_last_modified = last_modified,
            fd_path = pr_path p, fd_new_file_hash = new_hash, fd_file_size = size, fd_item_metadata = meta,
            fd_blurhash = pr_blurhash p\<rparr>);
          result = (\<lambda>sha d timestamp new_hash. \<lparr>fw_sha256 = sha, fw_mime_type = pr_mime_type p, fw_data = d,
            fw_new_file_timestamp = timestamp, fw_new_file_hash = new_hash, fw_prepared = p, fw_time_added = scan_time\<rparr>);
          fresh = (case item_id (pr_sha256 p) of
              None \<Rightarrow> None
            | Some i \<Rightarrow> Some (result (pr_sha256 p)
                (data (pr_sha256 p) (pr_last_modified p) True (Some (pr_file_size p))
                  (case i of Some _ \<Rightarrow> None | None \<Rightarrow> Some (pr_metadata p))) True True))
      in case existing (pr_path p) of
        None \<Rightarrow> None
      | Some None \<Rightarrow> fresh
      | Some (Some (last_modified, sha)) \<Rightarrow>
          if last_modified = pr_last_modified p
          then Some (result sha (data sha last_modified False None None) False False)
          else if sha = pr_sha256 p
          then Some (result sha (data sha (pr_last_modified p) False (Some (pr_file_size p)) None) True False)
          else fresh)"

section \<open>The worker\<close>

record file_work =
  wk_path :: path
  wk_detect_outros :: bool
  wk_epoch :: nat
  wk_scan_time :: string

record 'b worker_result =
  re_epoch :: nat
  re_scan_time :: string
  re_path :: path
  re_stat :: "(string \<times> int) option"
  re_ledger_path :: "path option"
  re_result :: "'b process_error + 'b prepared_file"

text \<open>
  What the worker finds: the stat, whether the database opens, the recorded failure of the
  path, its row, and what processing the file would give.
\<close>

record 'b worker_world =
  ww_stat :: "(string \<times> int) option"
  ww_conn :: bool
  ww_scan_error :: "scan_error_skip option option"
  ww_existing :: "string option option"
  ww_process :: "'b process_error + 'b prepared_file"

definition worker_ledger_path :: "'b worker_world \<Rightarrow> path option" where
  "worker_ledger_path w =
     (case ww_stat w of
        Some (m, len) \<Rightarrow>
          if \<not> ww_conn w then None
          else (case ww_scan_error w of
            Some (Some skip) \<Rightarrow> if cleared_by_success skip m len then Some (sk_path skip) else None
          | _ \<Rightarrow> None)
      | None \<Rightarrow> None)"

definition worker_verdict :: "'b worker_world \<Rightarrow> 'b process_error option" where
  "worker_verdict w =
     (case ww_stat w of
        Some (m, len) \<Rightarrow>
          if \<not> ww_conn w then None
          else if (case ww_scan_error w of Some (Some skip) \<Rightarrow> suppresses skip m len | _ \<Rightarrow> False) then Some KnownBad
          else (case ww_existing w of
            Some (Some last_modified) \<Rightarrow> if last_modified = m then Some Unchanged else None
          | _ \<Rightarrow> None)
      | None \<Rightarrow> None)"

definition worker_handle :: "file_work \<Rightarrow> 'b worker_world \<Rightarrow> 'b worker_result" where
  "worker_handle job w =
     \<lparr>re_epoch = wk_epoch job, re_scan_time = wk_scan_time job, re_path = wk_path job, re_stat = ww_stat w,
      re_ledger_path = worker_ledger_path w,
      re_result = (case worker_verdict w of Some e \<Rightarrow> Inl e | None \<Rightarrow> ww_process w)\<rparr>"

end
