(* ===== verification/ContinuousScan.thy ===== *)
theory ContinuousScan
  imports ScanFile
begin

text \<open>
  The scanner of one database (\<open>ContinuousScanActor\<close> in \<open>panoptikon/src/jobs/continuous_scan.rs\<close>):
  watching, polling, pausing for jobs, and what happens to a changed file.  Everything a
  handler does outside the actor is appended to a log, in order; what the outside answers
  while a message is handled is a record of answers.  The filter on file contents, the format
  policy and the phase timers are left out; epochs are \<open>u64\<close> and wrap.
\<close>

section \<open>Messages and state\<close>

datatype fs_event = Create path | Modify path | Remove path | Rename path path | Overflow

record scan_snapshot =
  ss_paused :: bool
  ss_paused_for_job :: bool
  ss_watch_roots :: "string list"
  ss_invalid_includes :: "string list"
  ss_roots_valid :: bool
  ss_watching :: bool
  ss_watcher_fallback :: bool
  ss_effective_poll_interval_secs :: "nat option"

datatype 'b scan_message =
    Pause
  | Resume
  | UpdateConfig system_config
  | FsEvent fs_event
  | PollTick nat
  | PollCompleted nat poll_outcome
  | SettleCheck nat path file_meta nat
  | DispatchStable nat path
  | WorkerResult "'b worker_result"
  | GetStatus

record scan_stats =
  st_new_items :: int
  st_unchanged_files :: int
  st_new_files :: int
  st_modified_files :: int
  st_marked_unavailable :: int
  st_errors :: int
  st_known_bad :: int
  st_total_available :: int
  st_false_changes :: int

definition new_stats :: scan_stats where
  "new_stats = \<lparr>st_new_items = 0, st_unchanged_files = 0, st_new_files = 0, st_modified_files = 0,
     st_marked_unavailable = 0, st_errors = 0, st_known_bad = 0, st_total_available = 0, st_false_changes = 0\<rparr>"

record poller_runtime =
  pr_interval :: "nat option"
  pr_filters :: poll_filters
  pr_snapshot :: "poller_snapshot option"

datatype 'b scan_effect =
    PauseReply
  | StatusReply scan_snapshot
  | HealBlocked
  | AddFileScan string
  | UpdateFileScan int "string option" scan_stats
  | CloseFileScan int string
  | UpsertScanError scan_error_record "int option"
  | DeleteScanError path
  | DeleteFileByPath path
  | DeleteItemIfOrphan int
  | PostJobMaintenance
  | RenameFilePath path path int string
  | DispatchWork file_work
  | StartPass nat poller_snapshot poll_filters
  | SendAfter nat "'b scan_message"
  | CheckSettled nat path file_meta nat
  | StoreThumbnails string "'b list"
  | StoreThumbnailTiers string "'b list"
  | StoreFrames string "'b list"
  | UpsertVisualAttempts string "'b list" "int option"
  | SetBlurhash string string
  | UpdateFileData string int "'b file_scan_data"
  | SetOutroVerdict string 'b
  | SetItemTransparency string bool

record 'b scan_state =
  sc_config :: system_config
  sc_watch_roots :: "string list"
  sc_excluded_roots :: "string list"
  sc_invalid_includes :: "string list"
  sc_roots_valid :: bool
  sc_allowed_extensions :: "string list"
  sc_scan_id :: "int option"
  sc_scan_time :: "string option"
  sc_stats :: scan_stats
  sc_epoch :: nat
  sc_paused :: bool
  sc_job_pauses :: nat
  sc_watcher :: bool
  sc_poller :: "poller_runtime option"
  sc_watcher_fallback :: bool
  sc_enable_watcher :: bool
  sc_deletions_since_maintenance :: nat
  sc_failed_stats :: "path \<Rightarrow> (string \<times> int) option"
  sc_log :: "'b scan_effect list"

record file_upsert_result =
  fu_item_inserted :: bool
  fu_file_updated :: bool
  fu_file_deleted :: bool
  fu_file_inserted :: bool

text \<open>
  The answers: the clock, the stored configuration, the file system, the reads of the index
  and the replies of its writer.  An outer \<open>None\<close> is a call that failed.
\<close>

record scan_answers =
  an_time :: string
  an_load :: "system_config option"
  an_cwd :: "string option"
  an_valid :: "string \<Rightarrow> bool"
  an_empty :: "string \<Rightarrow> bool"
  an_read :: bool
  an_indexed_under :: "string \<Rightarrow> bool option"
  an_stale_scan :: "int option option"
  an_add_scan :: "int option"
  an_update_scan :: bool
  an_watcher :: bool
  an_rows :: "(string \<times> string) list option"
  an_exists :: "path \<Rightarrow> bool"
  an_metadata :: "path \<Rightarrow> (bool \<times> string option \<times> int) option"
  an_stat :: "path \<Rightarrow> (string \<times> int) option"
  an_delete_info :: "path \<Rightarrow> (int \<times> int) option option"
  an_count_files :: "int \<Rightarrow> int option"
  an_delete_file :: "nat option"
  an_delete_item :: "bool option"
  an_rename :: "bool option"
  an_mime :: "path \<Rightarrow> string option"
  an_sniff :: "path \<Rightarrow> string option"
  an_existing :: "path \<Rightarrow> (string \<times> string) option option"
  an_item_id :: "string \<Rightarrow> int option option"
  an_has_thumbnail :: "string \<Rightarrow> bool option"
  an_has_tiers :: "string \<Rightarrow> bool option"
  an_has_frame :: "string \<Rightarrow> bool option"
  an_has_blurhash :: "string \<Rightarrow> bool option"
  an_upsert :: "file_upsert_result option"
  an_progress_due :: bool

definition emit :: "'b scan_effect \<Rightarrow> 'b scan_state \<Rightarrow> 'b scan_state" where
  "emit e st = st\<lparr>sc_log := sc_log st @ [e]\<rparr>"

definition count :: "(scan_stats \<Rightarrow> scan_stats) \<Rightarrow> 'b scan_state \<Rightarrow> 'b scan_state" where
  "count f st = st\<lparr>sc_stats := f (sc_stats st)\<rparr>"

definition next_epoch :: "nat \<Rightarrow> nat" where
  "next_epoch e = (e + 1) mod 2 ^ 64"

definition bump_epoch :: "'b scan_state \<Rightarrow> 'b scan_state" where
  "bump_epoch st = st\<lparr>sc_epoch := next_epoch (sc_epoch st)\<rparr>"

definition poll_settle_delay :: nat where
  "poll_settle_delay = 2"

definition settle_max_delay :: nat where
  "settle_max_delay = 60"

definition maintenance_deletion_threshold :: nat where
  "maintenance_deletion_threshold = 1000"

definition watcher_fallback_poll_interval :: nat where
  "watcher_fallback_poll_interval = 60"

section \<open>Scan records\<close>

definition reset_stats :: "'b scan_state \<Rightarrow> 'b scan_state" where
  "reset_stats st = st\<lparr>sc_stats := new_stats\<rparr>"

definition report_progress_scan :: "scan_answers \<Rightarrow> 'b scan_state \<Rightarrow> 'b scan_state" where
  "report_progress_scan an st =
     (case sc_scan_id st of
        None \<Rightarrow> st
      | Some i \<Rightarrow> if \<not> an_progress_due an then st else emit (UpdateFileScan i None (sc_stats st)) st)"

definition refresh_roots :: "scan_answers \<Rightarrow> 'b scan_state \<Rightarrow> 'b scan_state \<times> bool" where
  "refresh_roots an st =
     (let config = sc_config st;
          safe_empty = (if an_read an
            then filter (\<lambda>f. an_empty an f \<and> an_indexed_under an f = Some False)
              (included_folders config @ cf_included_folders config)
            else []);
          out = compute_watch_roots (an_cwd an) (an_valid an) safe_empty config
      in (st\<lparr>sc_watch_roots := wr_watch_roots out, sc_excluded_roots := wr_excluded_roots out,
             sc_invalid_includes := wr_invalid_includes out, sc_roots_valid := wr_valid out,
             sc_allowed_extensions := build_extension_set config\<rparr>, wr_valid out))"

definition start_scan :: "scan_answers \<Rightarrow> 'b scan_state \<Rightarrow> 'b scan_state" where
  "start_scan an st =
     (let st1 = emit (AddFileScan (an_time an)) (emit HealBlocked st) in
      case an_add_scan an of
        None \<Rightarrow> st1
      | Some i \<Rightarrow>
          (reset_stats (st1\<lparr>sc_scan_id := Some i, sc_scan_time := Some (an_time an)\<rparr>))\<lparr>sc_failed_stats := (\<lambda>_. None)\<rparr>)"

definition close_scan :: "scan_answers \<Rightarrow> 'b scan_state \<Rightarrow> 'b scan_state" where
  "close_scan an st =
     (case sc_scan_id st of
        None \<Rightarrow> st
      | Some i \<Rightarrow>
          (let st1 = emit (UpdateFileScan i (Some (an_time an)) (sc_stats st)) (st\<lparr>sc_scan_id := None\<rparr>) in
           if an_update_scan an then reset_stats (st1\<lparr>sc_scan_time := None\<rparr>) else st1))"

definition close_stale_scan :: "scan_answers \<Rightarrow> 'b scan_state \<Rightarrow> 'b scan_state" where
  "close_stale_scan an st =
     (case an_stale_scan an of Some (Some i) \<Rightarrow> emit (CloseFileScan i (an_time an)) st | _ \<Rightarrow> st)"

section \<open>Failures\<close>

definition record_file_failure ::
  "scan_answers \<Rightarrow> path \<Rightarrow> (string \<times> int) option \<Rightarrow> 'b process_error \<Rightarrow> 'b scan_state \<Rightarrow> 'b scan_state" where
  "record_file_failure an p stat err st =
     (case err of
        Filtered \<Rightarrow> st
      | _ \<Rightarrow>
          (case (classified err, stat) of
            (Some f, Some (m, len)) \<Rightarrow>
              (let r = \<lparr>se_path = p, se_last_modified = m, se_file_size = len, se_stage = sf_stage f,
                        se_kind = sf_kind f, se_mime_type = an_mime an p, se_error = sf_message f,
                        se_skip_after = sf_skip_after f\<rparr>
               in emit (UpsertScanError (override_mime_from_content (an_sniff an p) r) (sc_scan_id st))
                    (st\<lparr>sc_failed_stats := (sc_failed_stats st)(p \<mapsto> (m, len))\<rparr>))
          | _ \<Rightarrow> st))"

definition record_visuals_scan_error :: "scan_error_record option \<Rightarrow> 'b scan_state \<Rightarrow> 'b scan_state" where
  "record_visuals_scan_error r st =
     (case r of Some r \<Rightarrow> emit (UpsertScanError r (sc_scan_id st)) st | None \<Rightarrow> st)"

section \<open>Paths\<close>

definition should_process_path :: "'b scan_state \<Rightarrow> path \<Rightarrow> bool" where
  "should_process_path st p =
     path_passes_filters p (sc_watch_roots st) (sc_excluded_roots st) (sc_allowed_extensions st)"

text \<open>The session cache of failed files: skip, or forget and go on.\<close>

definition failed_before :: "string option \<times> int \<Rightarrow> path \<Rightarrow> 'b scan_state \<Rightarrow> bool" where
  "failed_before meta p st =
     (case (sc_failed_stats st p, fst meta) of
        (Some (m, len), Some mtime) \<Rightarrow> mtime = m \<and> snd meta = len
      | _ \<Rightarrow> False)"

definition dispatch_path :: "scan_answers \<Rightarrow> path \<Rightarrow> 'b scan_state \<Rightarrow> 'b scan_state" where
  "dispatch_path an p st =
     (if sc_paused st then st
      else if \<not> should_process_path st p then st
      else case an_metadata an p of
        None \<Rightarrow> st
      | Some (is_file, meta) \<Rightarrow>
          if \<not> is_file then st
          else if failed_before meta p st then count (\<lambda>s. s\<lparr>st_known_bad := st_known_bad s + 1\<rparr>) st
          else emit (DispatchWork \<lparr>wk_path = p,
                wk_detect_outros = scan_video (sc_config st) \<and> detect_outros (sc_config st), wk_epoch = sc_epoch st,
                wk_scan_time = (case sc_scan_time st of Some t \<Rightarrow> t | None \<Rightarrow> an_time an)\<rparr>)
              (st\<lparr>sc_failed_stats := (sc_failed_stats st)(p := None)\<rparr>))"

definition count_deletions :: "nat \<Rightarrow> 'b scan_state \<Rightarrow> 'b scan_state" where
  "count_deletions n st =
     (if sc_deletions_since_maintenance st + n \<ge> maintenance_deletion_threshold
      then emit PostJobMaintenance (st\<lparr>sc_deletions_since_maintenance := 0\<rparr>)
      else st\<lparr>sc_deletions_since_maintenance := sc_deletions_since_maintenance st + n\<rparr>)"

definition handle_remove :: "scan_answers \<Rightarrow> path \<Rightarrow> 'b scan_state \<Rightarrow> 'b scan_state" where
  "handle_remove an p st =
     (if sc_paused st then st
      else if \<not> remove_unavailable_files (sc_config st) then st
      else if an_exists an p then st
      else if \<not> should_process_path st p then st
      else case (if an_read an then an_delete_info an p else None) of
        Some (Some (item, scan)) \<Rightarrow>
          (let current = (case sc_scan_id st of Some i \<Rightarrow> i | None \<Rightarrow> 0);
               others = (if scan = current then Some True else map_option (\<lambda>n. n > 1) (an_count_files an item)) in
           if others \<noteq> Some True then st
           else let st1 = emit (DeleteFileByPath p) st in
             case an_delete_file an of
               None \<Rightarrow> st1
             | Some files \<Rightarrow>
                 (let st2 = emit (DeleteItemIfOrphan item) st1 in
                  case an_delete_item an of
                    None \<Rightarrow> st2
                  | Some deleted \<Rightarrow> count_deletions (files + (if deleted then 1 else 0)) st2))
      | _ \<Rightarrow> st)"

definition handle_rename :: "scan_answers \<Rightarrow> path \<Rightarrow> path \<Rightarrow> 'b scan_state \<Rightarrow> 'b scan_state" where
  "handle_rename an old_path new_path st =
     (if sc_paused st then st
      else if \<not> should_process_path st new_path then st
      else if \<not> an_exists an new_path then st
      else case (sc_scan_id st, an_stat an new_path) of
        (Some i, Some (last_modified, _)) \<Rightarrow>
          (let st1 = emit (RenameFilePath old_path new_path i last_modified) st in
           case an_rename an of
             None \<Rightarrow> st1
           | Some True \<Rightarrow> count (\<lambda>s. s\<lparr>st_unchanged_files := st_unchanged_files s + 1,
                 st_total_available := st_total_available s + 1\<rparr>) st1
           | Some False \<Rightarrow> dispatch_path an new_path st1)
      | _ \<Rightarrow> st)"

section \<open>Watching\<close>

text \<open>The flag says whether the poller started.\<close>

definition start_poller :: "scan_answers \<Rightarrow> nat option \<Rightarrow> 'b scan_state \<Rightarrow> 'b scan_state \<times> bool" where
  "start_poller an interval st =
     (let filters = \<lparr>pf_roots = sc_watch_roots st, pf_excluded_roots = sc_excluded_roots st,
                     pf_allowed_extensions = sc_allowed_extensions st\<rparr> in
      case (if an_read an then an_rows an else None) of
        None \<Rightarrow> (st, False)
      | Some rows \<Rightarrow>
          (emit (SendAfter 0 (PollTick (sc_epoch st)))
             (st\<lparr>sc_poller := Some \<lparr>pr_interval = interval, pr_filters = filters,
                pr_snapshot = Some (seed_snapshot rows filters)\<rparr>\<rparr>), True))"

definition start_watching :: "scan_answers \<Rightarrow> 'b scan_state \<Rightarrow> 'b scan_state" where
  "start_watching an st0 =
     (let st = st0\<lparr>sc_watcher := False, sc_poller := None, sc_watcher_fallback := False\<rparr> in
      if \<not> sc_enable_watcher st then st
      else case cf_poll_interval_secs (sc_config st) of
        Some secs \<Rightarrow>
          if secs > 0 then fst (start_poller an (Some secs) st)
          else if an_watcher an then fst (start_poller an None (st\<lparr>sc_watcher := True\<rparr>))
          else (case start_poller an (Some watcher_fallback_poll_interval) st of
                  (st1, started) \<Rightarrow> if started then st1\<lparr>sc_watcher_fallback := True\<rparr> else st1)
      | None \<Rightarrow>
          if an_watcher an then fst (start_poller an None (st\<lparr>sc_watcher := True\<rparr>))
          else (case start_poller an (Some watcher_fallback_poll_interval) st of
                  (st1, started) \<Rightarrow> if started then st1\<lparr>sc_watcher_fallback := True\<rparr> else st1))"

definition initial_scan_state :: "bool \<Rightarrow> system_config \<Rightarrow> 'b scan_state" where
  "initial_scan_state enable_watcher config =
     \<lparr>sc_config = config, sc_watch_roots = [], sc_excluded_roots = [], sc_invalid_includes = [], sc_roots_valid = True,
      sc_allowed_extensions = [], sc_scan_id = None, sc_scan_time = None, sc_stats = new_stats, sc_epoch = 0,
      sc_paused = False, sc_job_pauses = 0, sc_watcher = False, sc_poller = None, sc_watcher_fallback = False,
      sc_enable_watcher = enable_watcher, sc_deletions_since_maintenance = 0, sc_failed_stats = (\<lambda>_. None), sc_log = []\<rparr>"

definition scan_pre_start :: "scan_answers \<Rightarrow> bool \<Rightarrow> 'b scan_state option" where
  "scan_pre_start an enable_watcher =
     (case an_load an of
        None \<Rightarrow> None
      | Some config \<Rightarrow>
          (case refresh_roots an (initial_scan_state enable_watcher config) of
             (st, roots_ok) \<Rightarrow>
               (let st1 = close_stale_scan an st in
                if cf_enabled (sc_config st1) \<and> roots_ok
                then Some (start_watching an (start_scan an st1))
                else Some (st1\<lparr>sc_paused := True\<rparr>))))"

definition stop_watching :: "'b scan_state \<Rightarrow> 'b scan_state" where
  "stop_watching st = st\<lparr>sc_watcher := False, sc_poller := None\<rparr>"

section \<open>Pausing and reconfiguring\<close>

definition handle_pause :: "scan_answers \<Rightarrow> 'b scan_state \<Rightarrow> 'b scan_state" where
  "handle_pause an st =
     emit PauseReply (close_scan an (stop_watching (bump_epoch
       (st\<lparr>sc_paused := True, sc_job_pauses := sc_job_pauses st + 1\<rparr>))))"

definition handle_resume :: "scan_answers \<Rightarrow> 'b scan_state \<Rightarrow> 'b scan_state" where
  "handle_resume an st0 =
     (let st = st0\<lparr>sc_job_pauses := sc_job_pauses st0 - 1\<rparr> in
      if sc_job_pauses st > 0 then st
      else case an_load an of
        None \<Rightarrow> st
      | Some config \<Rightarrow>
          (case refresh_roots an (st\<lparr>sc_config := config\<rparr>) of
             (st1, roots_ok) \<Rightarrow>
               if \<not> cf_enabled (sc_config st1) \<or> \<not> roots_ok
               then (let st2 = stop_watching (st1\<lparr>sc_paused := True\<rparr>) in
                     if \<not> roots_ok then close_scan an (bump_epoch st2) else st2)
               else start_watching an (start_scan an (bump_epoch (st1\<lparr>sc_paused := False\<rparr>)))))"

definition handle_update_config :: "scan_answers \<Rightarrow> system_config \<Rightarrow> 'b scan_state \<Rightarrow> 'b scan_state" where
  "handle_update_config an config st0 =
     (let was_enabled = cf_enabled (sc_config st0) in
      case refresh_roots an (st0\<lparr>sc_config := config\<rparr>) of
        (st, roots_ok) \<Rightarrow>
          if \<not> cf_enabled config \<or> \<not> roots_ok
          then (let st1 = st\<lparr>sc_paused := True\<rparr> in
                if sc_poller st1 \<noteq> None \<or> sc_watcher st1 \<or> sc_scan_id st1 \<noteq> None
                then close_scan an (stop_watching (bump_epoch st1)) else st1)
          else if sc_job_pauses st \<noteq> 0 then st
          else (let changed = (\<not> was_enabled \<or> sc_watch_roots st \<noteq> sc_watch_roots st0 \<or>
                      sc_excluded_roots st \<noteq> sc_excluded_roots st0 \<or>
                      set (sc_allowed_extensions st) \<noteq> set (sc_allowed_extensions st0) \<or>
                      cf_poll_interval_secs config \<noteq> cf_poll_interval_secs (sc_config st0));
                    needs_restart = (changed \<or> sc_paused st \<or> (sc_enable_watcher st \<and> sc_poller st = None))
                in if needs_restart
                   then (let st1 = bump_epoch (st\<lparr>sc_paused := False\<rparr>)
                         in start_watching an (if \<not> was_enabled then start_scan an st1 else st1))
                   else st))"

section \<open>Events and poll passes\<close>

definition handle_fs_event :: "scan_answers \<Rightarrow> fs_event \<Rightarrow> 'b scan_state \<Rightarrow> 'b scan_state" where
  "handle_fs_event an ev st =
     (if sc_paused st then st
      else case ev of
        Create p \<Rightarrow> dispatch_path an p st
      | Modify p \<Rightarrow> dispatch_path an p st
      | Remove p \<Rightarrow> handle_remove an p st
      | Rename p q \<Rightarrow> handle_rename an p q st
      | Overflow \<Rightarrow>
          if sc_poller st \<noteq> None then emit (SendAfter poll_settle_delay (PollTick (sc_epoch st))) st else st)"

definition handle_poll_tick :: "nat \<Rightarrow> 'b scan_state \<Rightarrow> 'b scan_state" where
  "handle_poll_tick epoch st =
     (if sc_paused st \<or> epoch \<noteq> sc_epoch st then st
      else case sc_poller st of
        None \<Rightarrow> st
      | Some poller \<Rightarrow>
          (case pr_snapshot poller of
             None \<Rightarrow> st
           | Some snapshot \<Rightarrow>
               emit (StartPass epoch snapshot (pr_filters poller))
                 (st\<lparr>sc_poller := Some (poller\<lparr>pr_snapshot := None\<rparr>)\<rparr>)))"

definition send_all :: "'b scan_effect list \<Rightarrow> 'b scan_state \<Rightarrow> 'b scan_state" where
  "send_all es st = st\<lparr>sc_log := sc_log st @ es\<rparr>"

definition handle_poll_completed :: "nat \<Rightarrow> poll_outcome \<Rightarrow> 'b scan_state \<Rightarrow> 'b scan_state" where
  "handle_poll_completed epoch out st =
     (if epoch \<noteq> sc_epoch st then st
      else case sc_poller st of
        None \<Rightarrow> st
      | Some poller \<Rightarrow>
          send_all
            (map (\<lambda>p. SendAfter (poll_settle_delay * 2) (FsEvent (Remove p))) (po_removals out) @
             map (\<lambda>c. SendAfter poll_settle_delay (SettleCheck epoch (pc_path c) (pc_meta c) 0)) (po_changes out) @
             (case pr_interval poller of Some i \<Rightarrow> [SendAfter i (PollTick epoch)] | None \<Rightarrow> []))
            (st\<lparr>sc_poller := Some (poller\<lparr>pr_snapshot := Some (po_snapshot out)\<rparr>)\<rparr>))"

definition handle_settle_check :: "nat \<Rightarrow> path \<Rightarrow> file_meta \<Rightarrow> nat \<Rightarrow> 'b scan_state \<Rightarrow> 'b scan_state" where
  "handle_settle_check epoch p meta attempts st =
     (if sc_paused st \<or> epoch \<noteq> sc_epoch st then st else emit (CheckSettled epoch p meta attempts) st)"

text \<open>The task of a settle check: \<open>stat\<close> is the file now; the second value is a delay in seconds.\<close>

definition settle_task ::
  "(string \<times> int) option \<Rightarrow> nat \<Rightarrow> path \<Rightarrow> file_meta \<Rightarrow> nat \<Rightarrow> ('b scan_message \<times> nat) option" where
  "settle_task stat epoch p meta attempts =
     (case stat of
        None \<Rightarrow> None
      | Some (last_modified, len) \<Rightarrow>
          if last_modified = fm_last_modified meta \<and> (fm_size meta = None \<or> fm_size meta = Some len)
          then Some (DispatchStable epoch p, 0)
          else Some (SettleCheck epoch p \<lparr>fm_last_modified = last_modified, fm_size = Some len\<rparr> (min u32_max (attempts + 1)),
                     min settle_max_delay (poll_settle_delay * 2 ^ min attempts 5)))"

section \<open>The result of a worker\<close>

text \<open>The visuals that are stored before the file's row: each only when the index lacks it.\<close>

definition store_thumbnails :: "scan_answers \<Rightarrow> 'b file_write_data \<Rightarrow> 'b scan_state \<Rightarrow> 'b scan_state" where
  "store_thumbnails an d st =
     (let ts = pr_thumbnails (fw_prepared d) in
      if ts \<noteq> [] \<and> an_read an \<and> an_has_thumbnail an (fw_sha256 d) = Some False
      then emit (StoreThumbnails (fw_sha256 d) ts) st else st)"

definition store_tiers :: "scan_answers \<Rightarrow> 'b file_write_data \<Rightarrow> 'b scan_state \<Rightarrow> 'b scan_state" where
  "store_tiers an d st =
     (let ts = pr_tiers (fw_prepared d) in
      if ts \<noteq> [] \<or> an_has_tiers an (fw_sha256 d) = Some True
      then emit (StoreThumbnailTiers (fw_sha256 d) ts) st else st)"

definition store_frames :: "scan_answers \<Rightarrow> 'b file_write_data \<Rightarrow> 'b scan_state \<Rightarrow> 'b scan_state" where
  "store_frames an d st =
     (let fs = pr_frames (fw_prepared d) in
      if fs \<noteq> [] \<and> an_read an \<and> an_has_frame an (fw_sha256 d) = Some False
      then emit (StoreFrames (fw_sha256 d) fs) st else st)"

definition store_attempts :: "'b file_write_data \<Rightarrow> 'b scan_state \<Rightarrow> 'b scan_state" where
  "store_attempts d st =
     (let vs = pr_visual_verdicts (fw_prepared d) in
      if vs \<noteq> [] then emit (UpsertVisualAttempts (fw_sha256 d) vs (sc_scan_id st)) st else st)"

definition store_blurhash :: "scan_answers \<Rightarrow> 'b file_write_data \<Rightarrow> 'b scan_state \<Rightarrow> 'b scan_state" where
  "store_blurhash an d st =
     (case pr_blurhash (fw_prepared d) of
        Some b \<Rightarrow>
          if an_read an \<and> an_has_blurhash an (fw_sha256 d) = Some False
          then emit (SetBlurhash (fw_sha256 d) b) st else st
      | None \<Rightarrow> st)"

definition count_upsert :: "file_upsert_result \<Rightarrow> scan_stats \<Rightarrow> scan_stats" where
  "count_upsert r s0 =
     (let s = (if fu_item_inserted r then s0\<lparr>st_new_items := st_new_items s0 + 1\<rparr> else s0);
          s1 = (if fu_file_updated r then s\<lparr>st_unchanged_files := st_unchanged_files s + 1\<rparr>
                else if fu_file_deleted r then s\<lparr>st_modified_files := st_modified_files s + 1\<rparr>
                else if fu_file_inserted r then s\<lparr>st_new_files := st_new_files s + 1\<rparr> else s)
      in s1\<lparr>st_total_available := st_total_available s1 + 1\<rparr>)"

definition after_upsert ::
  "path \<Rightarrow> path option \<Rightarrow> 'b file_write_data \<Rightarrow> file_upsert_result \<Rightarrow> 'b scan_state \<Rightarrow> 'b scan_state" where
  "after_upsert p ledger_path d r st =
     (let st1 = (count (count_upsert r) st)\<lparr>sc_failed_stats := (sc_failed_stats st)(p := None)\<rparr>;
          st2 = (case ledger_path of Some q \<Rightarrow> emit (DeleteScanError q) st1 | None \<Rightarrow> st1);
          st3 = record_visuals_scan_error (pr_visuals_scan_error (fw_prepared d)) st2;
          st4 = (case pr_outro (fw_prepared d) of Some v \<Rightarrow> emit (SetOutroVerdict (fw_sha256 d) v) st3 | None \<Rightarrow> st3)
      in case pr_transparency (fw_prepared d) of
           Some t \<Rightarrow> emit (SetItemTransparency (fw_sha256 d) t) st4 | None \<Rightarrow> st4)"

definition count_error :: "'b scan_state \<Rightarrow> 'b scan_state" where
  "count_error st = count (\<lambda>s. s\<lparr>st_errors := st_errors s + 1\<rparr>) st"

definition store_processed ::
  "scan_answers \<Rightarrow> string \<Rightarrow> path \<Rightarrow> path option \<Rightarrow> 'b prepared_file \<Rightarrow> 'b scan_state \<Rightarrow> 'b scan_state" where
  "store_processed an scan_time p ledger_path processed st =
     (case (if an_read an then build_file_scan_data (an_existing an) (an_item_id an) processed scan_time else None) of
        None \<Rightarrow> count_error st
      | Some d \<Rightarrow>
          (let st1 = (if \<not> fw_new_file_hash d \<and> fw_new_file_timestamp d
                      then count (\<lambda>s. s\<lparr>st_false_changes := st_false_changes s + 1\<rparr>) st else st);
               st2 = store_blurhash an d (store_attempts d (store_frames an d (store_tiers an d (store_thumbnails an d st1))));
               st3 = emit (UpdateFileData (fw_time_added d) (case sc_scan_id st of Some i \<Rightarrow> i | None \<Rightarrow> 0) (fw_data d)) st2
           in report_progress_scan an
                (case an_upsert an of
                   Some r \<Rightarrow> after_upsert p ledger_path d r st3
                 | None \<Rightarrow> count_error st3)))"

definition handle_worker_result :: "scan_answers \<Rightarrow> 'b worker_result \<Rightarrow> 'b scan_state \<Rightarrow> 'b scan_state" where
  "handle_worker_result an r st =
     (if sc_paused st \<or> re_epoch r \<noteq> sc_epoch st then st
      else case re_result r of
        Inr processed \<Rightarrow> store_processed an (re_scan_time r) (re_path r) (re_ledger_path r) processed st
      | Inl Unchanged \<Rightarrow> report_progress_scan an (count (\<lambda>s. s\<lparr>st_unchanged_files := st_unchanged_files s + 1\<rparr>) st)
      | Inl KnownBad \<Rightarrow> report_progress_scan an (count (\<lambda>s. s\<lparr>st_known_bad := st_known_bad s + 1\<rparr>) st)
      | Inl err \<Rightarrow>
          report_progress_scan an (record_file_failure an (re_path r) (re_stat r) err (count_error st)))"

definition scan_status :: "'b scan_state \<Rightarrow> scan_snapshot" where
  "scan_status st =
     \<lparr>ss_paused = sc_paused st, ss_paused_for_job = (sc_job_pauses st > 0), ss_watch_roots = sc_watch_roots st,
      ss_invalid_includes = sc_invalid_includes st, ss_roots_valid = sc_roots_valid st,
      ss_watching = (sc_watcher st \<or> sc_poller st \<noteq> None), ss_watcher_fallback = sc_watcher_fallback st,
      ss_effective_poll_interval_secs = Option.bind (sc_poller st) pr_interval\<rparr>"

section \<open>The actor\<close>

fun scan_handle :: "scan_answers \<Rightarrow> 'b scan_message \<Rightarrow> 'b scan_state \<Rightarrow> 'b scan_state" where
  "scan_handle an Pause st = handle_pause an st"
| "scan_handle an Resume st = handle_resume an st"
| "scan_handle an (UpdateConfig config) st = handle_update_config an config st"
| "scan_handle an (FsEvent ev) st = handle_fs_event an ev st"
| "scan_handle an (PollTick epoch) st = handle_poll_tick epoch st"
| "scan_handle an (PollCompleted epoch out) st = handle_poll_completed epoch out st"
| "scan_handle an (SettleCheck epoch p meta attempts) st = handle_settle_check epoch p meta attempts st"
| "scan_handle an (DispatchStable epoch p) st =
     (if sc_paused st \<or> epoch \<noteq> sc_epoch st then st else dispatch_path an p st)"
| "scan_handle an (WorkerResult r) st = handle_worker_result an r st"
| "scan_handle an GetStatus st = emit (StatusReply (scan_status st)) st"

definition scan_post_stop :: "scan_answers \<Rightarrow> 'b scan_state \<Rightarrow> 'b scan_state" where
  "scan_post_stop an st = (close_scan an st)\<lparr>sc_watcher := False\<rparr>"

text \<open>Runs: the actor starts and handles messages in some order, whatever the outside answers.\<close>

inductive scan_reachable :: "'b scan_state \<Rightarrow> bool" where
  started: "scan_pre_start an enable_watcher = Some st \<Longrightarrow> scan_reachable st"
| handled: "scan_reachable st \<Longrightarrow> scan_reachable (scan_handle an msg st)"

end
