(* ===== verification/ContinuousScanInv.thy ===== *)
theory ContinuousScanInv
  imports ContinuousScan ScanPathsProps
begin

text \<open>
  The invariant of the scanner: a pause of a job is a pause, a paused scanner watches nothing,
  a running one is enabled with valid roots, the roots are those of its configuration and the
  poller walks them; and that every message keeps it.
\<close>

section \<open>Operations on a file leave the control state\<close>

text \<open>Configuration, roots, pauses, epoch, watcher and poller.\<close>

definition ctl :: "'b scan_state \<Rightarrow> 'b scan_state" where
  "ctl st = st\<lparr>sc_scan_id := None, sc_scan_time := None, sc_stats := new_stats, sc_deletions_since_maintenance := 0,
     sc_failed_stats := (\<lambda>_. None), sc_log := []\<rparr>"

lemma ctl_fields:
  assumes "ctl st' = ctl st"
  shows "sc_config st' = sc_config st" "sc_watch_roots st' = sc_watch_roots st" "sc_excluded_roots st' = sc_excluded_roots st"
    "sc_allowed_extensions st' = sc_allowed_extensions st" "sc_roots_valid st' = sc_roots_valid st"
    "sc_epoch st' = sc_epoch st" "sc_paused st' = sc_paused st" "sc_job_pauses st' = sc_job_pauses st"
    "sc_watcher st' = sc_watcher st" "sc_poller st' = sc_poller st" "sc_enable_watcher st' = sc_enable_watcher st"
  using arg_cong [OF assms, of sc_config] arg_cong [OF assms, of sc_watch_roots] arg_cong [OF assms, of sc_excluded_roots]
    arg_cong [OF assms, of sc_allowed_extensions] arg_cong [OF assms, of sc_roots_valid] arg_cong [OF assms, of sc_epoch]
    arg_cong [OF assms, of sc_paused] arg_cong [OF assms, of sc_job_pauses] arg_cong [OF assms, of sc_watcher]
    arg_cong [OF assms, of sc_poller] arg_cong [OF assms, of sc_enable_watcher]
  by (simp_all add: ctl_def)

lemma ctl_updates [simp]:
  "ctl (st\<lparr>sc_scan_id := a\<rparr>) = ctl st" "ctl (st\<lparr>sc_scan_time := b\<rparr>) = ctl st" "ctl (st\<lparr>sc_stats := c\<rparr>) = ctl st"
  "ctl (st\<lparr>sc_deletions_since_maintenance := d\<rparr>) = ctl st" "ctl (st\<lparr>sc_failed_stats := f\<rparr>) = ctl st"
  "ctl (st\<lparr>sc_log := l\<rparr>) = ctl st"
  by (simp_all add: ctl_def)

lemma ctl_emit [simp]: "ctl (emit e st) = ctl st"
  by (simp add: emit_def)

lemma ctl_count [simp]: "ctl (count f st) = ctl st"
  by (simp add: count_def)

lemma ctl_small [simp]:
  "ctl (reset_stats st) = ctl st" "ctl (count_error st) = ctl st" "ctl (send_all es st) = ctl st"
  "ctl (report_progress_scan an st) = ctl st"
  by (simp_all add: reset_stats_def count_error_def send_all_def report_progress_scan_def split: option.split)

lemma ctl_records [simp]:
  "ctl (start_scan an st) = ctl st" "ctl (close_scan an st) = ctl st" "ctl (close_stale_scan an st) = ctl st"
  by (auto simp: start_scan_def close_scan_def close_stale_scan_def Let_def split: option.split)

lemma ctl_failures [simp]:
  "ctl (record_file_failure an p stat err st) = ctl st" "ctl (record_visuals_scan_error r st) = ctl st"
  by (auto simp: record_file_failure_def record_visuals_scan_error_def Let_def split: option.split process_error.split)

lemma ctl_dispatch [simp]: "ctl (dispatch_path an p st) = ctl st"
  by (simp add: dispatch_path_def split: option.split prod.split)

lemma ctl_count_deletions [simp]: "ctl (count_deletions n st) = ctl st"
  by (simp add: count_deletions_def)

lemma ctl_remove [simp]: "ctl (handle_remove an p st) = ctl st"
  unfolding handle_remove_def Let_def by (simp split: option.split prod.split)

lemma ctl_rename [simp]: "ctl (handle_rename an p q st) = ctl st"
  unfolding handle_rename_def Let_def by (simp split: option.split prod.split bool.split)

lemma ctl_event [simp]: "ctl (handle_fs_event an ev st) = ctl st"
  by (simp add: handle_fs_event_def split: fs_event.split)

lemma ctl_visuals [simp]:
  "ctl (store_thumbnails an d st) = ctl st" "ctl (store_tiers an d st) = ctl st" "ctl (store_frames an d st) = ctl st"
  "ctl (store_attempts d st) = ctl st" "ctl (store_blurhash an d st) = ctl st"
  by (simp_all add: store_thumbnails_def store_tiers_def store_frames_def store_attempts_def store_blurhash_def Let_def
      split: option.split)

lemma ctl_after_upsert [simp]: "ctl (after_upsert p l d r st) = ctl st"
  by (simp add: after_upsert_def Let_def split: option.split)

lemma ctl_store [simp]: "ctl (store_processed an t p l x st) = ctl st"
  unfolding store_processed_def Let_def by (simp split: option.split)

lemma ctl_worker [simp]: "ctl (handle_worker_result an r st) = ctl st"
  by (simp add: handle_worker_result_def split: sum.split process_error.split)

section \<open>The invariant\<close>

definition rooted :: "'b scan_state \<Rightarrow> bool" where
  "rooted st \<longleftrightarrow> (\<exists>cwd valid safe_empty. let w = compute_watch_roots cwd valid safe_empty (sc_config st) in
     sc_watch_roots st = wr_watch_roots w \<and> sc_excluded_roots st = wr_excluded_roots w \<and>
     sc_roots_valid st = wr_valid w \<and> sc_allowed_extensions st = build_extension_set (sc_config st))"

definition same_filters :: "'b scan_state \<Rightarrow> poll_filters \<Rightarrow> bool" where
  "same_filters st f \<longleftrightarrow> pf_roots f = sc_watch_roots st \<and> pf_excluded_roots f = sc_excluded_roots st \<and>
     set (pf_allowed_extensions f) = set (sc_allowed_extensions st)"

definition ctl_ok :: "'b scan_state \<Rightarrow> bool" where
  "ctl_ok st \<longleftrightarrow>
     (sc_job_pauses st > 0 \<longrightarrow> sc_paused st) \<and>
     (sc_paused st \<longrightarrow> \<not> sc_watcher st \<and> sc_poller st = None) \<and>
     (\<not> sc_paused st \<longrightarrow> cf_enabled (sc_config st) \<and> sc_roots_valid st) \<and>
     rooted st \<and> (\<forall>p. sc_poller st = Some p \<longrightarrow> same_filters st (pr_filters p))"

definition scan_inv :: "'b scan_state \<Rightarrow> bool" where
  "scan_inv st \<longleftrightarrow> ctl_ok st \<and> (sc_job_pauses st > 0 \<longrightarrow> sc_scan_id st = None) \<and>
     sc_deletions_since_maintenance st < maintenance_deletion_threshold"

lemma ctl_ok_ctl:
  assumes "ctl st' = ctl st"
  shows "ctl_ok st' = ctl_ok st"
  unfolding ctl_ok_def rooted_def same_filters_def ctl_fields [OF assms] ..

text \<open>Refreshing the roots.\<close>

definition refreshed :: "scan_answers \<Rightarrow> 'b scan_state \<Rightarrow> 'b scan_state" where
  "refreshed an st = fst (refresh_roots an st)"

lemma refresh_roots_pair: "refresh_roots an st = (refreshed an st, sc_roots_valid (refreshed an st))"
  by (simp add: refresh_roots_def refreshed_def Let_def)

lemma refreshed_fields [simp]:
  "sc_config (refreshed an st) = sc_config st" "sc_paused (refreshed an st) = sc_paused st"
  "sc_job_pauses (refreshed an st) = sc_job_pauses st" "sc_epoch (refreshed an st) = sc_epoch st"
  "sc_watcher (refreshed an st) = sc_watcher st" "sc_poller (refreshed an st) = sc_poller st"
  "sc_scan_id (refreshed an st) = sc_scan_id st" "sc_log (refreshed an st) = sc_log st"
  "sc_deletions_since_maintenance (refreshed an st) = sc_deletions_since_maintenance st"
  "sc_enable_watcher (refreshed an st) = sc_enable_watcher st"
  "sc_failed_stats (refreshed an st) = sc_failed_stats st"
  by (simp_all add: refresh_roots_def refreshed_def Let_def)

lemma rooted_refreshed: "rooted (refreshed an st)"
  unfolding rooted_def refreshed_def refresh_roots_def Let_def by (intro exI) simp

lemma rooted_same:
  "rooted st \<Longrightarrow> sc_config st' = sc_config st \<Longrightarrow> sc_watch_roots st' = sc_watch_roots st \<Longrightarrow>
    sc_excluded_roots st' = sc_excluded_roots st \<Longrightarrow> sc_roots_valid st' = sc_roots_valid st \<Longrightarrow>
    sc_allowed_extensions st' = sc_allowed_extensions st \<Longrightarrow> rooted st'"
  unfolding rooted_def by simp

text \<open>Watching.\<close>

lemma start_poller_fields [simp]:
  "sc_config (fst (start_poller an i st)) = sc_config st" "sc_watch_roots (fst (start_poller an i st)) = sc_watch_roots st"
  "sc_excluded_roots (fst (start_poller an i st)) = sc_excluded_roots st"
  "sc_allowed_extensions (fst (start_poller an i st)) = sc_allowed_extensions st"
  "sc_roots_valid (fst (start_poller an i st)) = sc_roots_valid st" "sc_epoch (fst (start_poller an i st)) = sc_epoch st"
  "sc_paused (fst (start_poller an i st)) = sc_paused st" "sc_job_pauses (fst (start_poller an i st)) = sc_job_pauses st"
  "sc_scan_id (fst (start_poller an i st)) = sc_scan_id st" "sc_enable_watcher (fst (start_poller an i st)) = sc_enable_watcher st"
  "sc_deletions_since_maintenance (fst (start_poller an i st)) = sc_deletions_since_maintenance st"
  "sc_failed_stats (fst (start_poller an i st)) = sc_failed_stats st"
  by (simp_all add: start_poller_def Let_def emit_def split: option.split)

lemma start_poller_filters:
  "sc_poller st = None \<Longrightarrow> sc_poller (fst (start_poller an i st)) = Some p \<Longrightarrow> same_filters st (pr_filters p)"
  by (auto simp: start_poller_def Let_def emit_def same_filters_def split: option.splits)

lemma start_watching_cases:
  obtains (off) "start_watching an st = st\<lparr>sc_watcher := False, sc_poller := None, sc_watcher_fallback := False\<rparr>"
  | (poller) i w b where "start_watching an st =
      (fst (start_poller an i (st\<lparr>sc_watcher := w, sc_poller := None, sc_watcher_fallback := False\<rparr>)))\<lparr>sc_watcher_fallback := b\<rparr>"
proof -
  let ?st = "st\<lparr>sc_watcher := False, sc_poller := None, sc_watcher_fallback := False\<rparr>"
  have w: "?st\<lparr>sc_watcher := True\<rparr> = st\<lparr>sc_watcher := True, sc_poller := None, sc_watcher_fallback := False\<rparr>" by simp
  have keep: "(fst (start_poller an i s))\<lparr>sc_watcher_fallback := sc_watcher_fallback s\<rparr> = fst (start_poller an i s)" for i and s :: "'a scan_state"
    by (simp add: start_poller_def Let_def emit_def split: option.split)
  note k1 = keep [where i = "Some j" and s = ?st for j] and k2 = keep [where i = None and s = "st\<lparr>sc_watcher := True, sc_poller := None, sc_watcher_fallback := False\<rparr>"]
  let ?no = "if an_watcher an then fst (start_poller an None (?st\<lparr>sc_watcher := True\<rparr>))
          else (case start_poller an (Some watcher_fallback_poll_interval) ?st of
                  (st1, started) \<Rightarrow> if started then st1\<lparr>sc_watcher_fallback := True\<rparr> else st1)"
  have no: "\<exists>i w b. ?no = (fst (start_poller an i (st\<lparr>sc_watcher := w, sc_poller := None, sc_watcher_fallback := False\<rparr>)))\<lparr>sc_watcher_fallback := b\<rparr>"
  proof (cases "an_watcher an")
    case True
    then show ?thesis using k2 unfolding w by (intro exI [of _ None] exI [of _ True] exI [of _ False]) simp
  next
    case False
    obtain s1 started where s1: "start_poller an (Some watcher_fallback_poll_interval) ?st = (s1, started)" by fastforce
    then have f: "fst (start_poller an (Some watcher_fallback_poll_interval) ?st) = s1" by simp
    have "?no = (fst (start_poller an (Some watcher_fallback_poll_interval) ?st))\<lparr>sc_watcher_fallback := started\<rparr>"
    proof (cases started)
      case True
      then show ?thesis using False by (simp only: s1 if_False prod.case if_True fst_conv)
    next
      case no: False
      have "s1\<lparr>sc_watcher_fallback := False\<rparr> = s1" using k1 [of watcher_fallback_poll_interval] unfolding f by simp
      then show ?thesis using False no by (simp only: s1 if_False prod.case fst_conv)
    qed
    then show ?thesis by blast
  qed
  show thesis
  proof (cases "sc_enable_watcher st")
    case False
    then show thesis by (intro off) (simp add: start_watching_def Let_def)
  next
    case True
    show thesis
    proof (cases "\<exists>secs. cf_poll_interval_secs (sc_config st) = Some secs \<and> secs > 0")
      case t: True
      then obtain secs where "cf_poll_interval_secs (sc_config st) = Some secs" "secs > 0" by blast
      then have "start_watching an st = fst (start_poller an (Some secs) ?st)" using True by (simp add: start_watching_def Let_def)
      then have "start_watching an st = (fst (start_poller an (Some secs) ?st))\<lparr>sc_watcher_fallback := False\<rparr>" using k1 [of secs] by simp
      then show thesis by (rule poller)
    next
      case False
      then have eq: "start_watching an st = ?no" using True by (auto simp: start_watching_def Let_def split: option.split)
      from no obtain i w b where
        "?no = (fst (start_poller an i (st\<lparr>sc_watcher := w, sc_poller := None, sc_watcher_fallback := False\<rparr>)))\<lparr>sc_watcher_fallback := b\<rparr>"
        by blast
      with eq have "start_watching an st =
          (fst (start_poller an i (st\<lparr>sc_watcher := w, sc_poller := None, sc_watcher_fallback := False\<rparr>)))\<lparr>sc_watcher_fallback := b\<rparr>"
        by (rule trans)
      then show thesis by (rule poller)
    qed
  qed
qed

lemma start_watching_fields [simp]:
  "sc_config (start_watching an st) = sc_config st" "sc_watch_roots (start_watching an st) = sc_watch_roots st"
  "sc_excluded_roots (start_watching an st) = sc_excluded_roots st"
  "sc_allowed_extensions (start_watching an st) = sc_allowed_extensions st"
  "sc_roots_valid (start_watching an st) = sc_roots_valid st" "sc_epoch (start_watching an st) = sc_epoch st"
  "sc_paused (start_watching an st) = sc_paused st" "sc_job_pauses (start_watching an st) = sc_job_pauses st"
  "sc_scan_id (start_watching an st) = sc_scan_id st" "sc_enable_watcher (start_watching an st) = sc_enable_watcher st"
  "sc_deletions_since_maintenance (start_watching an st) = sc_deletions_since_maintenance st"
  "sc_failed_stats (start_watching an st) = sc_failed_stats st"
  by (cases rule: start_watching_cases [of an st], simp_all)+

lemma start_watching_filters:
  assumes "sc_poller (start_watching an st) = Some p"
  shows "same_filters st (pr_filters p)"
proof (cases rule: start_watching_cases [of an st])
  case off
  with assms show ?thesis by simp
next
  case (poller i w b)
  let ?s = "st\<lparr>sc_watcher := w, sc_poller := None, sc_watcher_fallback := False\<rparr>"
  have "same_filters ?s (pr_filters p)" by (rule start_poller_filters [of _ an i]) (use assms poller in simp_all)
  then show ?thesis by (simp add: same_filters_def)
qed

section \<open>The count of deletions\<close>

lemma del_small [simp]:
  "sc_deletions_since_maintenance (emit e st) = sc_deletions_since_maintenance st"
  "sc_deletions_since_maintenance (count f st) = sc_deletions_since_maintenance st"
  "sc_deletions_since_maintenance (count_error st) = sc_deletions_since_maintenance st"
  "sc_deletions_since_maintenance (send_all es st) = sc_deletions_since_maintenance st"
  "sc_deletions_since_maintenance (reset_stats st) = sc_deletions_since_maintenance st"
  "sc_deletions_since_maintenance (bump_epoch st) = sc_deletions_since_maintenance st"
  "sc_deletions_since_maintenance (stop_watching st) = sc_deletions_since_maintenance st"
  by (simp_all add: emit_def count_def count_error_def send_all_def reset_stats_def bump_epoch_def stop_watching_def)

lemma del_records [simp]:
  "sc_deletions_since_maintenance (report_progress_scan an st) = sc_deletions_since_maintenance st"
  "sc_deletions_since_maintenance (start_scan an st) = sc_deletions_since_maintenance st"
  "sc_deletions_since_maintenance (close_scan an st) = sc_deletions_since_maintenance st"
  "sc_deletions_since_maintenance (close_stale_scan an st) = sc_deletions_since_maintenance st"
  "sc_deletions_since_maintenance (record_file_failure an p stat err st) = sc_deletions_since_maintenance st"
  "sc_deletions_since_maintenance (record_visuals_scan_error r st) = sc_deletions_since_maintenance st"
  "sc_deletions_since_maintenance (dispatch_path an p st) = sc_deletions_since_maintenance st"
  by (auto simp: report_progress_scan_def start_scan_def close_scan_def close_stale_scan_def record_file_failure_def
      record_visuals_scan_error_def dispatch_path_def Let_def split: option.split process_error.split prod.split)

lemma del_rename [simp]: "sc_deletions_since_maintenance (handle_rename an p q st) = sc_deletions_since_maintenance st"
  unfolding handle_rename_def Let_def by (simp split: option.split prod.split bool.split)

lemma del_visuals [simp]:
  "sc_deletions_since_maintenance (store_thumbnails an d st) = sc_deletions_since_maintenance st"
  "sc_deletions_since_maintenance (store_tiers an d st) = sc_deletions_since_maintenance st"
  "sc_deletions_since_maintenance (store_frames an d st) = sc_deletions_since_maintenance st"
  "sc_deletions_since_maintenance (store_attempts d st) = sc_deletions_since_maintenance st"
  "sc_deletions_since_maintenance (store_blurhash an d st) = sc_deletions_since_maintenance st"
  "sc_deletions_since_maintenance (after_upsert p l d r st) = sc_deletions_since_maintenance st"
  by (simp_all add: store_thumbnails_def store_tiers_def store_frames_def store_attempts_def store_blurhash_def
      after_upsert_def Let_def split: option.split)

lemma del_worker [simp]: "sc_deletions_since_maintenance (handle_worker_result an r st) = sc_deletions_since_maintenance st"
proof -
  have "sc_deletions_since_maintenance (store_processed an t p l x st) = sc_deletions_since_maintenance st" for t p l x
    unfolding store_processed_def Let_def by (simp split: option.split)
  then show ?thesis by (simp add: handle_worker_result_def split: sum.split process_error.split)
qed

lemma del_remove:
  "sc_deletions_since_maintenance st < maintenance_deletion_threshold \<Longrightarrow>
    sc_deletions_since_maintenance (handle_remove an p st) < maintenance_deletion_threshold"
proof -
  assume a: "sc_deletions_since_maintenance st < maintenance_deletion_threshold"
  have "sc_deletions_since_maintenance (count_deletions n s) < maintenance_deletion_threshold" for n and s :: "'a scan_state"
    by (simp add: count_deletions_def emit_def maintenance_deletion_threshold_def)
  with a show ?thesis unfolding handle_remove_def Let_def by (simp split: option.split prod.split)
qed

section \<open>Every message keeps the invariant\<close>

text \<open>A message about files changes a paused scanner in nothing.\<close>

fun file_message :: "'b scan_message \<Rightarrow> bool" where
  "file_message (FsEvent ev) = True"
| "file_message (PollTick e) = True"
| "file_message (PollCompleted e out) = True"
| "file_message (SettleCheck e p m a) = True"
| "file_message (DispatchStable e p) = True"
| "file_message (WorkerResult r) = True"
| "file_message _ = False"

lemma paused_inert:
  "file_message msg \<Longrightarrow> sc_paused st \<Longrightarrow> sc_poller st = None \<Longrightarrow> scan_handle an msg st = st"
  by (cases msg) (simp_all add: handle_fs_event_def handle_poll_tick_def handle_poll_completed_def handle_settle_check_def
      handle_worker_result_def)

lemma poll_ctl:
  assumes "ctl_ok st"
  shows "ctl_ok (handle_poll_tick e st)" "ctl_ok (handle_poll_completed e out st)"
proof -
  have r: "rooted (handle_poll_tick e st)" "rooted (handle_poll_completed e out st)"
    by (rule rooted_same [of st]; use assms in \<open>simp add: ctl_ok_def handle_poll_tick_def handle_poll_completed_def emit_def
        send_all_def split: option.split\<close>)+
  show "ctl_ok (handle_poll_tick e st)"
    using assms r(1) unfolding ctl_ok_def by (auto simp: handle_poll_tick_def same_filters_def emit_def split: option.split)
  show "ctl_ok (handle_poll_completed e out st)"
    using assms r(2) unfolding ctl_ok_def
    by (auto simp: handle_poll_completed_def same_filters_def send_all_def split: option.split)
qed

lemma poll_deletions:
  "sc_deletions_since_maintenance (handle_poll_tick e st) = sc_deletions_since_maintenance st"
  "sc_deletions_since_maintenance (handle_poll_completed e out st) = sc_deletions_since_maintenance st"
  by (simp_all add: handle_poll_tick_def handle_poll_completed_def split: option.split)

lemma file_message_inv:
  assumes "scan_inv st" and "file_message msg"
  shows "scan_inv (scan_handle an msg st)"
proof (cases "sc_paused st")
  case True
  then have "sc_poller st = None" using assms(1) by (simp add: scan_inv_def ctl_ok_def)
  with paused_inert [OF assms(2) True] assms(1) show ?thesis by simp
next
  case False
  have c: "ctl_ok st" "sc_deletions_since_maintenance st < maintenance_deletion_threshold" "sc_job_pauses st = 0"
    using assms(1) False by (auto simp: scan_inv_def ctl_ok_def)
  have "ctl_ok (scan_handle an msg st) \<and> sc_deletions_since_maintenance (scan_handle an msg st) < maintenance_deletion_threshold
      \<and> sc_job_pauses (scan_handle an msg st) = 0"
  proof (cases "ctl (scan_handle an msg st) = ctl st")
    case True
    have "sc_deletions_since_maintenance (scan_handle an msg st) < maintenance_deletion_threshold"
    proof (cases msg)
      case (FsEvent ev)
      then show ?thesis using c(2) by (cases ev) (simp_all add: handle_fs_event_def del_remove)
    qed (use c(2) assms(2) in \<open>simp_all add: poll_deletions handle_settle_check_def\<close>)
    then show ?thesis using ctl_ok_ctl [OF True] ctl_fields(8) [OF True] c by simp
  next
    case False
    then obtain e out where "msg = PollTick e \<or> msg = PollCompleted e out"
      using assms(2) by (cases msg) (auto simp: handle_settle_check_def)
    moreover have "sc_job_pauses (handle_poll_tick e st) = sc_job_pauses st" for e
      by (simp add: handle_poll_tick_def emit_def split: option.split)
    moreover have "sc_job_pauses (handle_poll_completed e out st) = sc_job_pauses st" for e out
      by (simp add: handle_poll_completed_def send_all_def split: option.split)
    ultimately show ?thesis using poll_ctl [OF c(1)] c by (auto simp: poll_deletions)
  qed
  then show ?thesis by (simp add: scan_inv_def)
qed

text \<open>The messages that pause, resume and reconfigure.\<close>

lemma ctl_okI:
  assumes "sc_job_pauses st > 0 \<Longrightarrow> sc_paused st" and "sc_paused st \<Longrightarrow> \<not> sc_watcher st \<and> sc_poller st = None"
    and "\<not> sc_paused st \<Longrightarrow> cf_enabled (sc_config st) \<and> sc_roots_valid st"
    and "rooted st" and "\<And>p. sc_poller st = Some p \<Longrightarrow> same_filters st (pr_filters p)"
  shows "ctl_ok st"
  using assms unfolding ctl_ok_def by blast

lemma ctl_okD:
  assumes "ctl_ok st"
  shows "sc_job_pauses st > 0 \<Longrightarrow> sc_paused st" "sc_paused st \<Longrightarrow> \<not> sc_watcher st" "sc_paused st \<Longrightarrow> sc_poller st = None"
    "\<not> sc_paused st \<Longrightarrow> cf_enabled (sc_config st)" "\<not> sc_paused st \<Longrightarrow> sc_roots_valid st"
    "rooted st" "sc_poller st = Some p \<Longrightarrow> same_filters st (pr_filters p)"
  using assms unfolding ctl_ok_def by blast+

lemma close_scan_id [simp]: "sc_scan_id (close_scan an st) = None"
  by (simp add: close_scan_def emit_def reset_stats_def Let_def split: option.split)

lemma halted_ok:
  assumes "rooted st" and "sc_paused st"
  shows "ctl_ok (stop_watching st)"
  by (rule ctl_okI) (use assms in \<open>auto simp: stop_watching_def intro: rooted_same\<close>)

lemma bump_ok: "ctl_ok st \<Longrightarrow> ctl_ok (bump_epoch st)"
  unfolding ctl_ok_def rooted_def same_filters_def bump_epoch_def by simp

lemma watching_ok:
  assumes "rooted st" "sc_job_pauses st = 0" "\<not> sc_paused st" "cf_enabled (sc_config st)" "sc_roots_valid st"
  shows "ctl_ok (start_watching an st)"
proof (rule ctl_okI)
  show "rooted (start_watching an st)" by (rule rooted_same [OF assms(1)]) simp_all
  show "same_filters (start_watching an st) (pr_filters p)" if "sc_poller (start_watching an st) = Some p" for p
    using start_watching_filters [OF that] by (simp add: same_filters_def)
qed (use assms in simp_all)

lemma pause_inv:
  assumes "scan_inv st"
  shows "scan_inv (handle_pause an st)"
proof -
  let ?s = "bump_epoch (st\<lparr>sc_paused := True, sc_job_pauses := sc_job_pauses st + 1\<rparr>)"
  have "rooted ?s" by (rule rooted_same [of st]) (use assms in \<open>simp_all add: scan_inv_def ctl_ok_def bump_epoch_def\<close>)
  then have ok: "ctl_ok (stop_watching ?s)" by (rule halted_ok) (simp add: bump_epoch_def)
  have c: "ctl (handle_pause an st) = ctl (stop_watching ?s)" by (simp add: handle_pause_def)
  have "sc_scan_id (handle_pause an st) = None" by (simp add: handle_pause_def emit_def)
  moreover have "sc_deletions_since_maintenance (handle_pause an st) = sc_deletions_since_maintenance st"
    by (simp add: handle_pause_def)
  ultimately show ?thesis using ok assms unfolding scan_inv_def ctl_ok_ctl [OF c] by simp
qed

lemma resume_inv:
  assumes "scan_inv st"
  shows "scan_inv (handle_resume an st)"
proof -
  let ?s = "st\<lparr>sc_job_pauses := sc_job_pauses st - 1\<rparr>"
  have ok: "ctl_ok st" and del: "sc_deletions_since_maintenance st < maintenance_deletion_threshold"
    and rec: "sc_job_pauses st > 0 \<longrightarrow> sc_scan_id st = None"
    using assms by (simp_all add: scan_inv_def)
  have s: "scan_inv ?s"
    unfolding scan_inv_def using rec del ctl_okD [OF ok]
    by (auto intro!: ctl_okI rooted_same [of st] simp: same_filters_def)
  show ?thesis
  proof (cases "sc_job_pauses ?s > 0 \<or> an_load an = None")
    case True
    then have "handle_resume an st = ?s" by (auto simp: handle_resume_def Let_def)
    with s show ?thesis by simp
  next
    case False
    then obtain config where l: "an_load an = Some config" and z: "sc_job_pauses ?s = 0" by auto
    define r where "r = refreshed an (?s\<lparr>sc_config := config\<rparr>)"
    have f: "rooted r" "sc_job_pauses r = 0" "sc_deletions_since_maintenance r = sc_deletions_since_maintenance st"
      using z by (simp_all add: r_def rooted_refreshed)
    have h: "handle_resume an st =
        (if \<not> cf_enabled (sc_config r) \<or> \<not> sc_roots_valid r
         then (if \<not> sc_roots_valid r then close_scan an (bump_epoch (stop_watching (r\<lparr>sc_paused := True\<rparr>)))
               else stop_watching (r\<lparr>sc_paused := True\<rparr>))
         else start_watching an (start_scan an (bump_epoch (r\<lparr>sc_paused := False\<rparr>))))"
      using z l by (simp add: handle_resume_def Let_def refresh_roots_pair r_def)
    show ?thesis
    proof (cases "\<not> cf_enabled (sc_config r) \<or> \<not> sc_roots_valid r")
      case True
      have "rooted (r\<lparr>sc_paused := True\<rparr>)" by (rule rooted_same [OF f(1)]) simp_all
      then have o: "ctl_ok (stop_watching (r\<lparr>sc_paused := True\<rparr>))" by (rule halted_ok) simp
      have "ctl_ok (close_scan an (bump_epoch (stop_watching (r\<lparr>sc_paused := True\<rparr>))))"
        using ctl_ok_ctl [OF ctl_records(2)] bump_ok [OF o] by blast
      moreover have "sc_job_pauses (close_scan an (bump_epoch (stop_watching (r\<lparr>sc_paused := True\<rparr>)))) = 0"
        by (simp add: ctl_fields(8) [OF ctl_records(2)] bump_epoch_def stop_watching_def f(2))
      ultimately show ?thesis using True o f del unfolding h
        by (simp add: scan_inv_def) (simp add: stop_watching_def)
    next
      case False
      let ?q = "start_scan an (bump_epoch (r\<lparr>sc_paused := False\<rparr>))"
      have c: "ctl ?q = ctl (bump_epoch (r\<lparr>sc_paused := False\<rparr>))" by simp
      note q = ctl_fields [OF c]
      have "rooted ?q" by (rule rooted_same [OF f(1)]) (simp_all add: q, simp_all add: bump_epoch_def)
      then have "ctl_ok (start_watching an ?q)"
        by (rule watching_ok) (use False f in \<open>simp_all add: q\<close>, simp_all add: bump_epoch_def)
      then show ?thesis using False f del unfolding h scan_inv_def by (simp add: q) (simp add: bump_epoch_def)
    qed
  qed
qed

lemma update_config_inv:
  assumes "scan_inv st"
  shows "scan_inv (handle_update_config an config st)"
proof -
  define r where "r = refreshed an (st\<lparr>sc_config := config\<rparr>)"
  have ok: "ctl_ok st" and del: "sc_deletions_since_maintenance st < maintenance_deletion_threshold"
    and rec: "sc_job_pauses st > 0 \<longrightarrow> sc_scan_id st = None"
    using assms by (simp_all add: scan_inv_def)
  have f: "rooted r" "sc_config r = config" "sc_job_pauses r = sc_job_pauses st" "sc_paused r = sc_paused st"
    "sc_watcher r = sc_watcher st" "sc_poller r = sc_poller st" "sc_scan_id r = sc_scan_id st"
    "sc_deletions_since_maintenance r = sc_deletions_since_maintenance st" "sc_enable_watcher r = sc_enable_watcher st"
    by (simp_all add: r_def rooted_refreshed)
  show ?thesis
  proof (cases "\<not> cf_enabled config \<or> \<not> sc_roots_valid r")
    case True
    let ?p = "r\<lparr>sc_paused := True\<rparr>"
    have rp: "rooted ?p" by (rule rooted_same [OF f(1)]) simp_all
    have o: "ctl_ok (stop_watching (bump_epoch ?p))"
      by (rule halted_ok) (rule rooted_same [OF rp], simp_all add: bump_epoch_def)
    show ?thesis
    proof (cases "sc_poller st \<noteq> None \<or> sc_watcher st \<or> sc_scan_id st \<noteq> None")
      case active: True
      have "handle_update_config an config st = close_scan an (stop_watching (bump_epoch ?p))"
        using True active by (simp add: handle_update_config_def Let_def refresh_roots_pair r_def [symmetric] f)
      moreover have "ctl_ok (close_scan an (stop_watching (bump_epoch ?p)))"
        using ctl_ok_ctl [OF ctl_records(2)] o by blast
      ultimately show ?thesis using del f by (simp add: scan_inv_def)
    next
      case idle: False
      have "handle_update_config an config st = ?p"
        using True idle by (simp add: handle_update_config_def Let_def refresh_roots_pair r_def [symmetric] f)
      moreover have "ctl_ok ?p" by (rule ctl_okI) (use rp idle f in auto)
      ultimately show ?thesis using del f idle by (simp add: scan_inv_def)
    qed
  next
    case good: False
    show ?thesis
    proof (cases "sc_job_pauses st = 0")
      case False
      have "handle_update_config an config st = r"
        using good False by (simp add: handle_update_config_def Let_def refresh_roots_pair r_def [symmetric] f)
      moreover have "ctl_ok r" by (rule ctl_okI) (use f good ctl_okD(1-3) [OF ok] False in auto)
      ultimately show ?thesis using del f rec by (simp add: scan_inv_def)
    next
      case True
      let ?changed = "\<not> cf_enabled (sc_config st) \<or> sc_watch_roots r \<noteq> sc_watch_roots st \<or>
        sc_excluded_roots r \<noteq> sc_excluded_roots st \<or> set (sc_allowed_extensions r) \<noteq> set (sc_allowed_extensions st) \<or>
        cf_poll_interval_secs config \<noteq> cf_poll_interval_secs (sc_config st)"
      let ?restart = "?changed \<or> sc_paused st \<or> (sc_enable_watcher st \<and> sc_poller st = None)"
      let ?b = "bump_epoch (r\<lparr>sc_paused := False\<rparr>)"
      let ?q = "if \<not> cf_enabled (sc_config st) then start_scan an ?b else ?b"
      have h: "handle_update_config an config st = (if ?restart then start_watching an ?q else r)"
        using good True by (simp add: handle_update_config_def Let_def refresh_roots_pair r_def [symmetric] f)
      have c: "ctl ?q = ctl ?b" by simp
      note q = ctl_fields [OF c]
      show ?thesis
      proof (cases ?restart)
        case restart: True
        have "rooted ?q" by (rule rooted_same [OF f(1)]) (simp_all only: q, simp_all add: bump_epoch_def)
        then have w: "ctl_ok (start_watching an ?q)"
          by (rule watching_ok) (use good f True in \<open>simp_all only: q\<close>, simp_all add: bump_epoch_def)
        have "sc_job_pauses (start_watching an ?q) = 0"
          unfolding start_watching_fields q by (simp add: bump_epoch_def f True)
        moreover have "sc_deletions_since_maintenance (start_watching an ?q) = sc_deletions_since_maintenance st"
          unfolding start_watching_fields by (simp add: f)
        ultimately show ?thesis using w del unfolding scan_inv_def h if_P [OF restart] by simp
      next
        case False
        have "same_filters r (pr_filters p)" if "sc_poller r = Some p" for p
          using ctl_okD(7) [OF ok, of p] that False f(6) by (simp add: same_filters_def)
        then have "ctl_ok r" by - (rule ctl_okI, use f good True False in auto)
        then show ?thesis using del f True unfolding scan_inv_def h if_not_P [OF False] by simp
      qed
    qed
  qed
qed

lemma pre_start_inv:
  fixes st :: "'b scan_state"
  assumes "scan_pre_start an enable_watcher = Some st"
  shows "scan_inv st"
proof -
  obtain config where l: "an_load an = Some config" using assms by (auto simp: scan_pre_start_def split: option.splits)
  define r :: "'b scan_state" where "r = close_stale_scan an (refreshed an (initial_scan_state enable_watcher config))"
  have c: "ctl r = ctl (refreshed an (initial_scan_state enable_watcher config))" by (simp add: r_def)
  note f = ctl_fields [OF c]
  have root: "rooted r" by (rule rooted_same [OF rooted_refreshed]) (simp_all add: f)
  note v = f(5)
  have st: "st = (if cf_enabled (sc_config r) \<and> sc_roots_valid r then start_watching an (start_scan an r) else r\<lparr>sc_paused := True\<rparr>)"
    using assms unfolding scan_pre_start_def by (auto simp: l refresh_roots_pair Let_def r_def [symmetric] v [symmetric] split: if_splits)
  have z: "sc_job_pauses r = 0" "sc_paused r = False" "sc_watcher r = False" "sc_poller r = None"
    unfolding f by (simp_all add: initial_scan_state_def)
  have d: "sc_deletions_since_maintenance r = 0" by (simp add: r_def initial_scan_state_def)
  show ?thesis
  proof (cases "cf_enabled (sc_config r) \<and> sc_roots_valid r")
    case True
    have c2: "ctl (start_scan an r) = ctl r" by simp
    note q = ctl_fields [OF c2]
    have "rooted (start_scan an r)" by (rule rooted_same [OF root]) (simp_all only: q)
    then have "ctl_ok (start_watching an (start_scan an r))" by (rule watching_ok) (use True z in \<open>simp_all add: q\<close>)
    then show ?thesis using True st d z by (simp add: scan_inv_def q maintenance_deletion_threshold_def)
  next
    case False
    have "rooted (r\<lparr>sc_paused := True\<rparr>)" by (rule rooted_same [OF root]) simp_all
    then have "ctl_ok (r\<lparr>sc_paused := True\<rparr>)" by - (rule ctl_okI, use z in auto)
    moreover have "st = r\<lparr>sc_paused := True\<rparr>" using False st by (simp only: if_False)
    ultimately show ?thesis using d z by (simp add: scan_inv_def maintenance_deletion_threshold_def)
  qed
qed

lemma scan_reachable_inv: "scan_reachable st \<Longrightarrow> scan_inv st"
proof (induction rule: scan_reachable.induct)
  case (started an enable_watcher st)
  then show ?case by (rule pre_start_inv)
next
  case (handled st an msg)
  show ?case
  proof (cases "file_message msg")
    case True
    then show ?thesis by (rule file_message_inv [OF handled.IH])
  next
    case False
    then show ?thesis using handled.IH pause_inv resume_inv update_config_inv
    proof (cases msg)
      case GetStatus
      have c: "ctl (scan_handle an GetStatus st) = ctl st" by simp
      have "sc_scan_id (scan_handle an GetStatus st) = sc_scan_id st" by (simp add: emit_def)
      then show ?thesis using handled.IH ctl_fields(8) [OF c] unfolding GetStatus scan_inv_def ctl_ok_ctl [OF c] by simp
    qed (simp_all add: pause_inv resume_inv update_config_inv handled.IH)
  qed
qed

end
