(* ===== verification/ContinuousScanProps.thy ===== *)
theory ContinuousScanProps
  imports ContinuousScanInv DirPollerProps
begin

text \<open>
  What the scanner guarantees: a job's pause holds, work from before a pause is never written
  after it, only admitted files are processed, a failing file is not attempted again while it
  does not change, and the first poll pass reaches every file that changed while nothing
  watched.
\<close>

section \<open>Pauses\<close>

text \<open>What a new configuration and a resume can come to, after the roots are read again.\<close>

lemma update_outcome:
  fixes st :: "'b scan_state"
  defines "r \<equiv> \<lambda>an config. refreshed an (st\<lparr>sc_config := config\<rparr>)"
  shows "handle_update_config an config st \<in> {r an config, (r an config)\<lparr>sc_paused := True\<rparr>,
    close_scan an (stop_watching (bump_epoch ((r an config)\<lparr>sc_paused := True\<rparr>))),
    start_watching an (if \<not> cf_enabled (sc_config st) then start_scan an (bump_epoch ((r an config)\<lparr>sc_paused := False\<rparr>))
      else bump_epoch ((r an config)\<lparr>sc_paused := False\<rparr>))}"
  unfolding handle_update_config_def Let_def refresh_roots_pair r_def prod.case by simp

lemma resume_outcome:
  fixes st :: "'b scan_state"
  defines "r \<equiv> \<lambda>an config. refreshed an (st\<lparr>sc_job_pauses := 0, sc_config := config\<rparr>)"
  shows "handle_resume an st \<in> {st\<lparr>sc_job_pauses := sc_job_pauses st - 1\<rparr>} \<union>
    (\<Union>config. if sc_job_pauses st - 1 > 0 then {} else {close_scan an (bump_epoch (stop_watching ((r an config)\<lparr>sc_paused := True\<rparr>))),
      stop_watching ((r an config)\<lparr>sc_paused := True\<rparr>),
      start_watching an (start_scan an (bump_epoch ((r an config)\<lparr>sc_paused := False\<rparr>)))})"
proof (cases "sc_job_pauses st - 1 > 0 \<or> an_load an = None")
  case True
  then show ?thesis by (auto simp: handle_resume_def Let_def)
next
  case False
  then obtain config where l: "an_load an = Some config" and z: "sc_job_pauses st - 1 = 0" by auto
  have "handle_resume an st \<in> {close_scan an (bump_epoch (stop_watching ((r an config)\<lparr>sc_paused := True\<rparr>))),
      stop_watching ((r an config)\<lparr>sc_paused := True\<rparr>),
      start_watching an (start_scan an (bump_epoch ((r an config)\<lparr>sc_paused := False\<rparr>)))}"
    unfolding handle_resume_def Let_def z l by (simp add: refresh_roots_pair r_def)
  then show ?thesis using z by (intro UnI2 UN_I [of config]) auto
qed

lemma step_fields [simp]:
  "sc_job_pauses (start_scan an st) = sc_job_pauses st" "sc_job_pauses (close_scan an st) = sc_job_pauses st"
  "sc_epoch (start_scan an st) = sc_epoch st" "sc_epoch (close_scan an st) = sc_epoch st"
  "sc_job_pauses (close_stale_scan an st) = sc_job_pauses st" "sc_epoch (close_stale_scan an st) = sc_epoch st"
  "sc_job_pauses (bump_epoch st) = sc_job_pauses st" "sc_job_pauses (stop_watching st) = sc_job_pauses st"
  "sc_epoch (bump_epoch st) = next_epoch (sc_epoch st)" "sc_epoch (stop_watching st) = sc_epoch st"
  by (simp_all only: ctl_fields(8) [OF ctl_records(1)] ctl_fields(8) [OF ctl_records(2)] ctl_fields(6) [OF ctl_records(1)]
      ctl_fields(6) [OF ctl_records(2)] ctl_fields(8) [OF ctl_records(3)] ctl_fields(6) [OF ctl_records(3)]) (simp_all add: bump_epoch_def stop_watching_def)

text \<open>How a message moves the count of job pauses and the epoch.\<close>

fun pauses_after :: "'b scan_message \<Rightarrow> nat \<Rightarrow> nat" where
  "pauses_after Pause n = n + 1"
| "pauses_after Resume n = n - 1"
| "pauses_after _ n = n"

lemma job_pauses_step: "sc_job_pauses (scan_handle an msg st) = pauses_after msg (sc_job_pauses st)"
proof (cases msg)
  case Pause
  then show ?thesis by (simp add: handle_pause_def emit_def)
next
  case Resume
  have "sc_job_pauses (handle_resume an st) \<in> sc_job_pauses `
      ({st\<lparr>sc_job_pauses := sc_job_pauses st - 1\<rparr>} \<union>
       (\<Union>config. let r = refreshed an (st\<lparr>sc_job_pauses := 0, sc_config := config\<rparr>) in
          if sc_job_pauses st - 1 > 0 then {} else {close_scan an (bump_epoch (stop_watching (r\<lparr>sc_paused := True\<rparr>))),
            stop_watching (r\<lparr>sc_paused := True\<rparr>), start_watching an (start_scan an (bump_epoch (r\<lparr>sc_paused := False\<rparr>)))}))"
    unfolding Let_def by (rule imageI [OF resume_outcome])
  then show ?thesis using Resume by (auto simp: Let_def split: if_splits)
next
  case (UpdateConfig config)
  have "sc_job_pauses (handle_update_config an config st) = sc_job_pauses st"
    using imageI [OF update_outcome [of an config st], of sc_job_pauses]
    unfolding image_insert image_empty by (simp add: if_distrib split: if_splits)
  then show ?thesis using UpdateConfig by simp
qed (simp_all add: handle_poll_tick_def handle_poll_completed_def handle_settle_check_def send_all_def emit_def
    ctl_fields(8) [OF ctl_event] ctl_fields(8) [OF ctl_dispatch] ctl_fields(8) [OF ctl_worker] split: option.split)

lemma pre_start_pauses: "scan_pre_start an w = Some st \<Longrightarrow> sc_job_pauses st = 0"
  by (auto simp: scan_pre_start_def refresh_roots_pair Let_def initial_scan_state_def split: option.splits if_splits)

text \<open>
  While a job holds a pause the scanner is paused, watches nothing and has no open scan
  record; no event, poll pass or worker result changes it in anything, and only a resume can
  give the pause back.
\<close>

theorem job_pause_holds:
  assumes "scan_reachable st" and "sc_job_pauses st > 0"
  shows "sc_paused st \<and> \<not> sc_watcher st \<and> sc_poller st = None \<and> sc_scan_id st = None \<and>
    (\<forall>an msg. file_message msg \<longrightarrow> scan_handle an msg st = st) \<and>
    (\<forall>an msg. msg \<noteq> Resume \<longrightarrow> sc_job_pauses (scan_handle an msg st) \<ge> sc_job_pauses st)"
proof -
  have inv: "scan_inv st" by (rule scan_reachable_inv [OF assms(1)])
  then have p: "sc_paused st" "\<not> sc_watcher st" "sc_poller st = None" "sc_scan_id st = None"
    using assms(2) by (simp_all add: scan_inv_def ctl_ok_def)
  have "sc_job_pauses (scan_handle an msg st) \<ge> sc_job_pauses st" if "msg \<noteq> Resume" for an msg
    unfolding job_pauses_step using that by (cases msg) simp_all
  then show ?thesis using p paused_inert [OF _ p(1) p(3)] by blast
qed

section \<open>Epochs\<close>

fun msg_epoch :: "'b scan_message \<Rightarrow> nat option" where
  "msg_epoch (PollTick e) = Some e"
| "msg_epoch (PollCompleted e out) = Some e"
| "msg_epoch (SettleCheck e p m a) = Some e"
| "msg_epoch (DispatchStable e p) = Some e"
| "msg_epoch (WorkerResult r) = Some (re_epoch r)"
| "msg_epoch _ = None"

lemma stale_inert: "msg_epoch msg = Some e \<Longrightarrow> e \<noteq> sc_epoch st \<Longrightarrow> scan_handle an msg st = st"
  by (cases msg) (auto simp: handle_poll_tick_def handle_poll_completed_def handle_settle_check_def handle_worker_result_def)

definition scan_run :: "(scan_answers \<times> 'b scan_message) list \<Rightarrow> 'b scan_state \<Rightarrow> 'b scan_state" where
  "scan_run msgs st = foldl (\<lambda>s (an, msg). scan_handle an msg s) st msgs"

lemma epoch_update:
  "sc_epoch (handle_update_config an config st) \<in> {sc_epoch st, next_epoch (sc_epoch st)}"
  using imageI [OF update_outcome [of an config st], of sc_epoch]
  unfolding image_insert image_empty by (simp add: if_distrib split: if_splits)

lemma epoch_resume:
  "sc_epoch (handle_resume an st) \<in> {sc_epoch st, next_epoch (sc_epoch st)}"
  using imageI [OF resume_outcome [of an st], of sc_epoch]
  unfolding image_Un image_UN image_insert image_empty by (auto split: if_splits)

lemma epoch_pause: "sc_epoch (handle_pause an st) = next_epoch (sc_epoch st)"
  by (simp add: handle_pause_def emit_def)

lemma epoch_step: "sc_epoch (scan_handle an msg st) \<in> {sc_epoch st, next_epoch (sc_epoch st)}"
proof (cases msg)
  case (PollTick e)
  then show ?thesis by (simp add: handle_poll_tick_def emit_def split: option.split)
next
  case (PollCompleted e out)
  then show ?thesis by (simp add: handle_poll_completed_def send_all_def split: option.split)
next
  case (FsEvent ev)
  then show ?thesis by (simp add: ctl_fields(6) [OF ctl_event])
next
  case (DispatchStable e p)
  then show ?thesis by (simp add: ctl_fields(6) [OF ctl_dispatch])
next
  case (WorkerResult r)
  then show ?thesis by (simp add: ctl_fields(6) [OF ctl_worker])
next
  case Resume
  then show ?thesis using epoch_resume [of an st] by simp
next
  case (UpdateConfig config)
  then show ?thesis using epoch_update [of an config st] by simp
qed (simp_all add: handle_settle_check_def emit_def epoch_pause)

lemma epoch_bound: "scan_reachable st \<Longrightarrow> sc_epoch st < 2 ^ 64"
proof (induction rule: scan_reachable.induct)
  case (started an enable_watcher st)
  then obtain config where l: "an_load an = Some config" by (auto simp: scan_pre_start_def split: option.splits)
  have "sc_epoch (close_stale_scan an (refreshed an (initial_scan_state enable_watcher config))) = 0"
    unfolding ctl_fields(6) [OF ctl_records(3)] by (simp add: initial_scan_state_def)
  then have "sc_epoch st = 0"
    using started unfolding scan_pre_start_def
    by (auto simp: l refresh_roots_pair Let_def ctl_fields(6) [OF ctl_records(1)] split: if_splits)
  then show ?case by simp
next
  case (handled st an msg)
  then show ?case using epoch_step [of an msg st] by (auto simp: next_epoch_def)
qed

lemma epoch_run:
  "sc_epoch st < 2 ^ 64 \<Longrightarrow> \<exists>k \<le> length msgs. sc_epoch (scan_run msgs st) = (sc_epoch st + k) mod 2 ^ 64"
proof (induction msgs arbitrary: st)
  case Nil
  then show ?case by (simp add: scan_run_def)
next
  case (Cons m msgs)
  obtain an msg where m: "m = (an, msg)" by (cases m)
  let ?s = "scan_handle an msg st"
  have run: "scan_run (m # msgs) st = scan_run msgs ?s" by (simp add: scan_run_def m)
  have "sc_epoch ?s < 2 ^ 64" using epoch_step [of an msg st] Cons.prems by (auto simp: next_epoch_def)
  then obtain k where k: "k \<le> length msgs" "sc_epoch (scan_run msgs ?s) = (sc_epoch ?s + k) mod 2 ^ 64" using Cons.IH by blast
  show ?case
  proof (cases "sc_epoch ?s = sc_epoch st")
    case True
    with k run show ?thesis by (intro exI [of _ k]) simp
  next
    case False
    then have "sc_epoch ?s = (sc_epoch st + 1) mod 2 ^ 64" using epoch_step [of an msg st] by (simp add: next_epoch_def)
    with k run show ?thesis by (intro exI [of _ "Suc k"]) (simp add: mod_simps)
  qed
qed

text \<open>
  C30.  Work from before a pause is never written after it: whatever messages follow the pause,
  fewer than \<open>2 ^ 64 - 1\<close> of them, a worker result, settle check or poll pass that carries the
  epoch from before the pause changes nothing.
\<close>

theorem work_before_a_pause_is_dropped:
  assumes "scan_reachable st" and "length msgs < 2 ^ 64 - 1" and "msg_epoch msg = Some (sc_epoch st)"
  shows "scan_handle an msg (scan_run msgs (scan_handle an' Pause st)) = scan_run msgs (scan_handle an' Pause st)"
proof -
  let ?p = "scan_handle an' Pause st"
  have e: "sc_epoch st < 2 ^ 64" by (rule epoch_bound [OF assms(1)])
  have p: "sc_epoch ?p = (sc_epoch st + 1) mod 2 ^ 64" by (simp add: epoch_pause next_epoch_def)
  then have "sc_epoch ?p < 2 ^ 64" by simp
  then obtain k where k: "k \<le> length msgs" "sc_epoch (scan_run msgs ?p) = (sc_epoch ?p + k) mod 2 ^ 64"
    using epoch_run by blast
  then have eq: "sc_epoch (scan_run msgs ?p) = (sc_epoch st + Suc k) mod 2 ^ 64" unfolding p by (simp add: mod_simps)
  have lt: "Suc k < 2 ^ 64" using k(1) assms(2) by simp
  have "sc_epoch (scan_run msgs ?p) \<noteq> sc_epoch st"
  proof (cases "sc_epoch st + Suc k < 2 ^ 64")
    case True
    then show ?thesis unfolding eq by simp
  next
    case False
    then have "(sc_epoch st + Suc k) mod 2 ^ 64 = sc_epoch st + Suc k - 2 ^ 64"
      using e lt by (simp add: le_mod_geq)
    then show ?thesis unfolding eq using e lt False by linarith
  qed
  then show ?thesis by (intro stale_inert [OF assms(3)]) simp
qed

section \<open>What is processed\<close>

text \<open>The work handed to the workers so far.\<close>

fun work_of :: "'b scan_effect \<Rightarrow> file_work list" where
  "work_of (DispatchWork w) = [w]"
| "work_of _ = []"

definition works :: "'b scan_state \<Rightarrow> file_work list" where
  "works st = concat (map work_of (sc_log st))"

lemma works_log [simp]:
  "works (emit e st) = works st @ work_of e"
  "works (send_all es st) = works st @ concat (map work_of es)"
  "works (count f st) = works st"
  "works (st\<lparr>sc_failed_stats := a\<rparr>) = works st" "works (st\<lparr>sc_scan_id := b\<rparr>) = works st"
  "works (st\<lparr>sc_scan_time := c\<rparr>) = works st" "works (st\<lparr>sc_stats := d\<rparr>) = works st"
  "works (st\<lparr>sc_deletions_since_maintenance := g\<rparr>) = works st" "works (st\<lparr>sc_poller := h\<rparr>) = works st"
  "works (st\<lparr>sc_paused := i\<rparr>) = works st" "works (st\<lparr>sc_job_pauses := j\<rparr>) = works st"
  "works (st\<lparr>sc_config := k\<rparr>) = works st" "works (st\<lparr>sc_watcher := l\<rparr>) = works st"
  "works (st\<lparr>sc_watcher_fallback := m\<rparr>) = works st" "works (st\<lparr>sc_epoch := n\<rparr>) = works st"
  by (simp_all add: works_def emit_def send_all_def count_def)

lemma works_refreshed [simp]: "works (refreshed an st) = works st"
  by (simp add: works_def)

lemma works_control [simp]:
  "works (bump_epoch st) = works st" "works (stop_watching st) = works st" "works (reset_stats st) = works st"
  "works (count_error st) = works st" "works (report_progress_scan an st) = works st" "works (start_scan an st) = works st"
  "works (close_scan an st) = works st" "works (close_stale_scan an st) = works st"
  "works (record_file_failure an p stat err st) = works st" "works (record_visuals_scan_error r st) = works st"
  "works (count_deletions n st) = works st" "works (fst (start_poller an i st)) = works st"
  by (auto simp: bump_epoch_def stop_watching_def reset_stats_def count_error_def report_progress_scan_def start_scan_def
      close_scan_def close_stale_scan_def record_file_failure_def record_visuals_scan_error_def count_deletions_def
      start_poller_def Let_def split: option.split process_error.split)

lemma works_watching [simp]: "works (start_watching an st) = works st"
  by (cases rule: start_watching_cases [of an st]) simp_all

lemma works_visuals [simp]:
  "works (store_thumbnails an d st) = works st" "works (store_tiers an d st) = works st" "works (store_frames an d st) = works st"
  "works (store_attempts d st) = works st" "works (store_blurhash an d st) = works st" "works (after_upsert p l d r st) = works st"
  by (simp_all add: store_thumbnails_def store_tiers_def store_frames_def store_attempts_def store_blurhash_def
      after_upsert_def Let_def split: option.split)

lemma works_worker [simp]: "works (handle_worker_result an r st) = works st"
proof -
  have "works (store_processed an t p l x st) = works st" for t p l x
    unfolding store_processed_def Let_def by (simp split: option.split)
  then show ?thesis by (simp add: handle_worker_result_def split: sum.split process_error.split)
qed

lemma works_remove [simp]: "works (handle_remove an p st) = works st"
  unfolding handle_remove_def Let_def by (simp split: option.split prod.split)

lemma works_settings [simp]:
  "works (handle_pause an st) = works st" "works (handle_resume an st) = works st"
  "works (handle_update_config an config st) = works st"
  by (simp_all add: handle_pause_def handle_resume_def handle_update_config_def refresh_roots_pair Let_def
      split: option.split if_split)

lemma works_polls [simp]:
  "works (handle_poll_tick e st) = works st" "works (handle_poll_completed e out st) = works st"
  "works (handle_settle_check e p m a st) = works st"
proof -
  have [simp]: "concat (map work_of (map (\<lambda>x. SendAfter (f x) (g x)) xs)) = []" for f g and xs :: "'x list"
    by (induction xs) simp_all
  show "works (handle_poll_completed e out st) = works st"
    by (cases "sc_poller st") (auto simp: handle_poll_completed_def comp_def split: option.split)
qed (simp_all add: handle_poll_tick_def handle_settle_check_def split: option.split)

lemma works_dispatch:
  obtains "works (dispatch_path an p st) = works st"
  | w m len where "works (dispatch_path an p st) = works st @ [w]" "wk_path w = p" "wk_epoch w = sc_epoch st"
    "\<not> sc_paused st" "should_process_path st p" "an_metadata an p = Some (True, m, len)" "\<not> failed_before (m, len) p st"
proof (cases "\<exists>m len. \<not> sc_paused st \<and> should_process_path st p \<and> an_metadata an p = Some (True, m, len) \<and> \<not> failed_before (m, len) p st")
  case True
  then obtain m len where c: "\<not> sc_paused st" "should_process_path st p" "an_metadata an p = Some (True, m, len)"
    "\<not> failed_before (m, len) p st" by blast
  then have "works (dispatch_path an p st) = works st @ [\<lparr>wk_path = p,
      wk_detect_outros = scan_video (sc_config st) \<and> detect_outros (sc_config st), wk_epoch = sc_epoch st,
      wk_scan_time = (case sc_scan_time st of Some t \<Rightarrow> t | None \<Rightarrow> an_time an)\<rparr>]"
    by (simp add: dispatch_path_def)
  then show thesis by (rule that(2)) (use c in simp_all)
next
  case False
  show thesis
    by (rule that(1)) (use False in \<open>auto simp: dispatch_path_def split: option.split prod.split\<close>)
qed

lemma works_rename:
  obtains "works (handle_rename an p q st) = works st"
  | e where "works (handle_rename an p q st) = works (dispatch_path an q (emit e st))" "work_of e = []"
proof (cases "\<exists>i m len. \<not> sc_paused st \<and> should_process_path st q \<and> an_exists an q \<and> sc_scan_id st = Some i \<and>
    an_stat an q = Some (m, len) \<and> an_rename an = Some False")
  case True
  then obtain i m len where "\<not> sc_paused st" "should_process_path st q" "an_exists an q" "sc_scan_id st = Some i"
    "an_stat an q = Some (m, len)" "an_rename an = Some False" by blast
  then have "handle_rename an p q st = dispatch_path an q (emit (RenameFilePath p q i m) st)" by (simp add: handle_rename_def)
  then show thesis by (intro that(2) [of "RenameFilePath p q i m"]) simp_all
next
  case False
  show thesis
    by (rule that(1)) (use False in \<open>auto simp: handle_rename_def Let_def split: option.split prod.split bool.split\<close>)
qed

text \<open>What a message hands out: at most the file it names, and only past every guard.\<close>

lemma works_step:
  obtains "works (scan_handle an msg st) = works st"
  | w m len where "works (scan_handle an msg st) = works st @ [w]" "wk_epoch w = sc_epoch st"
    "\<not> sc_paused st" "should_process_path st (wk_path w)" "an_metadata an (wk_path w) = Some (True, m, len)"
    "\<not> failed_before (m, len) (wk_path w) st" "file_message msg" "\<forall>r. msg \<noteq> WorkerResult r"
proof (goal_cases)
  case worked: 1
  have d: thesis if eq: "works (scan_handle an msg st) = works (dispatch_path an p s)"
    and same: "works s = works st" "sc_epoch s = sc_epoch st" "sc_paused s = sc_paused st"
      "should_process_path s = should_process_path st" "sc_failed_stats s = sc_failed_stats st"
    and msg: "file_message msg" "\<forall>r. msg \<noteq> WorkerResult r" for p s
  proof (cases rule: works_dispatch [of an p s])
    case 1
    then show thesis by (intro worked(1)) (simp only: eq same)
  next
    case (2 w m len)
    then show thesis using eq same msg by (intro worked(2) [of w m len]) (simp_all add: failed_before_def)
  qed
  show thesis
  proof (cases msg)
    case (FsEvent ev)
    show thesis
    proof (cases "sc_paused st")
      case True
      then show thesis using FsEvent by (intro worked(1)) (simp add: handle_fs_event_def)
    next
      case False
      show thesis
      proof (cases ev)
        case (Rename p q)
        show thesis
        proof (cases rule: works_rename [of an p q st])
          case 1
          then show thesis using FsEvent Rename False by (intro worked(1)) (simp add: handle_fs_event_def)
        next
          case (2 e)
          have kept: "sc_epoch (emit e st) = sc_epoch st" "sc_paused (emit e st) = sc_paused st"
            "should_process_path (emit e st) = should_process_path st" "sc_failed_stats (emit e st) = sc_failed_stats st"
            by (simp_all add: emit_def should_process_path_def fun_eq_iff)
          show thesis
            by (rule d [of q "emit e st"])
              (use 2 FsEvent Rename False in \<open>simp_all add: handle_fs_event_def kept\<close>)
        qed
      qed (use FsEvent False in \<open>simp_all add: handle_fs_event_def d worked(1)\<close>)
    qed
  next
    case (DispatchStable e p)
    show thesis
    proof (cases "sc_paused st \<or> e \<noteq> sc_epoch st")
      case True
      then show thesis using DispatchStable by (intro worked(1)) auto
    qed (rule d [of p st]; use DispatchStable in simp)
  qed (use worked(1) in simp_all)
qed

text \<open>
  C18.  Only admitted files are processed: a message hands at most one file to the workers, and
  only while the scanner runs, its database has continuous scanning enabled, the path passes
  the filters of the roots its configuration gives, and the path names a file; the work carries
  the current epoch.
\<close>

theorem dispatched_files_are_admitted:
  assumes "scan_reachable st"
  shows "\<exists>new. works (scan_handle an msg st) = works st @ new \<and> length new \<le> 1 \<and>
    (\<forall>w \<in> set new. \<not> sc_paused st \<and> cf_enabled (sc_config st) \<and> wk_epoch w = sc_epoch st \<and>
      (\<exists>meta. an_metadata an (wk_path w) = Some (True, meta)) \<and>
      (\<exists>cwd valid safe_empty. let roots = compute_watch_roots cwd valid safe_empty (sc_config st) in
        wr_valid roots \<and>
        path_passes_filters (wk_path w) (wr_watch_roots roots) (wr_excluded_roots roots) (build_extension_set (sc_config st))))"
proof (cases rule: works_step [of an msg st])
  case 1
  then show ?thesis by simp
next
  case (2 w m len)
  have inv: "ctl_ok st" using scan_reachable_inv [OF assms] by (simp add: scan_inv_def)
  then have run: "cf_enabled (sc_config st)" "sc_roots_valid st" using 2(3) by (simp_all add: ctl_ok_def)
  from inv obtain cwd valid safe_empty where roots: "let w = compute_watch_roots cwd valid safe_empty (sc_config st) in
     sc_watch_roots st = wr_watch_roots w \<and> sc_excluded_roots st = wr_excluded_roots w \<and>
     sc_roots_valid st = wr_valid w \<and> sc_allowed_extensions st = build_extension_set (sc_config st)"
    by (auto simp: ctl_ok_def rooted_def)
  then have "let roots = compute_watch_roots cwd valid safe_empty (sc_config st) in wr_valid roots \<and>
      path_passes_filters (wk_path w) (wr_watch_roots roots) (wr_excluded_roots roots) (build_extension_set (sc_config st))"
    using 2(4) run(2) by (simp add: Let_def should_process_path_def)
  then show ?thesis using 2 run(1) by (intro exI [of _ "[w]"]) auto
qed

section \<open>Files that fail\<close>

lemma failed_log [simp]:
  "sc_failed_stats (emit e st) = sc_failed_stats st" "sc_failed_stats (send_all es st) = sc_failed_stats st"
  "sc_failed_stats (count f st) = sc_failed_stats st" "sc_failed_stats (report_progress_scan an st) = sc_failed_stats st"
  "sc_failed_stats (count_deletions n st) = sc_failed_stats st" "sc_failed_stats (count_error st) = sc_failed_stats st"
  "sc_failed_stats (record_visuals_scan_error r st) = sc_failed_stats st"
  by (simp_all add: emit_def send_all_def count_def report_progress_scan_def count_deletions_def count_error_def
      record_visuals_scan_error_def split: option.split)

lemma failed_visuals [simp]:
  "sc_failed_stats (store_thumbnails an d st) = sc_failed_stats st" "sc_failed_stats (store_tiers an d st) = sc_failed_stats st"
  "sc_failed_stats (store_frames an d st) = sc_failed_stats st" "sc_failed_stats (store_attempts d st) = sc_failed_stats st"
  "sc_failed_stats (store_blurhash an d st) = sc_failed_stats st"
  by (simp_all add: store_thumbnails_def store_tiers_def store_frames_def store_attempts_def store_blurhash_def Let_def
      split: option.split)

text \<open>The file \<open>p\<close> still has the metadata with which it failed, and the session remembers.\<close>

definition remembered :: "path \<Rightarrow> string \<Rightarrow> int \<Rightarrow> 'b scan_state \<Rightarrow> bool" where
  "remembered p m len st \<longleftrightarrow> sc_failed_stats st p = Some (m, len)"

lemma remembered_failed: "remembered p m len st \<Longrightarrow> failed_before (Some m, len) p st"
  by (simp add: remembered_def failed_before_def)

lemma remembered_dispatch:
  assumes "remembered p m len st" and "an_metadata an p = Some (True, Some m, len)"
  shows "remembered p m len (dispatch_path an q st)"
  using assms by (cases "q = p")
    (auto simp: dispatch_path_def remembered_def failed_before_def split: option.split prod.split)

lemma remembered_file:
  assumes "remembered p m len st" and "an_metadata an p = Some (True, Some m, len)"
  shows "remembered p m len (handle_fs_event an ev st)"
proof -
  have emitted: "remembered p m len (emit e st)" for e using assms(1) by (simp add: remembered_def)
  have "remembered p m len (handle_remove an q st)" for q
    using assms(1) unfolding handle_remove_def Let_def by (simp add: remembered_def split: option.split prod.split)
  moreover have "remembered p m len (handle_rename an q r st)" for q r
    using assms(1) remembered_dispatch [OF emitted assms(2)] unfolding handle_rename_def Let_def
    by (simp add: remembered_def split: option.split prod.split bool.split)
  ultimately show ?thesis using assms(1) remembered_dispatch [OF assms]
    by (simp add: handle_fs_event_def remembered_def split: fs_event.split)
qed

lemma remembered_worker:
  assumes "remembered p m len st" and "re_path r \<noteq> p"
  shows "remembered p m len (handle_worker_result an r st)"
proof -
  have upsert: "remembered p m len (after_upsert (re_path r) l d u s)" if "remembered p m len s" for l d u and s :: "'a scan_state"
    using that assms(2) by (simp add: after_upsert_def Let_def remembered_def split: option.split)
  have "remembered p m len (store_processed an t (re_path r) l x st)" for t l x
    using assms(1) unfolding store_processed_def Let_def
    by (simp add: remembered_def upsert [unfolded remembered_def] split: option.split)
  moreover have "remembered p m len (record_file_failure an (re_path r) stat err (count_error st))" for stat err
    using assms by (simp add: record_file_failure_def remembered_def Let_def split: option.split process_error.split)
  ultimately show ?thesis using assms
    by (simp add: handle_worker_result_def remembered_def split: sum.split process_error.split)
qed

lemma remembered_step:
  assumes "remembered p m len st" and "an_metadata an p = Some (True, Some m, len)"
    and "file_message msg" and "\<forall>r. msg = WorkerResult r \<longrightarrow> re_path r \<noteq> p"
  shows "remembered p m len (scan_handle an msg st)"
proof (cases msg)
  case (FsEvent ev)
  then show ?thesis using remembered_file [OF assms(1,2)] by simp
next
  case (DispatchStable e q)
  then show ?thesis using remembered_dispatch [OF assms(1,2)] assms(1) by simp
next
  case (WorkerResult r)
  then show ?thesis using remembered_worker [OF assms(1)] assms(4) by simp
qed (use assms in \<open>simp_all add: handle_poll_tick_def handle_poll_completed_def handle_settle_check_def remembered_def
    split: option.split\<close>)

lemma remembered_run:
  assumes "remembered p m len st"
    and "\<forall>(an, msg) \<in> set msgs. file_message msg \<and> an_metadata an p = Some (True, Some m, len) \<and>
      (\<forall>r. msg = WorkerResult r \<longrightarrow> re_path r \<noteq> p)"
  shows "filter (\<lambda>w. wk_path w = p) (works (scan_run msgs st)) = filter (\<lambda>w. wk_path w = p) (works st)"
  using assms
proof (induction msgs arbitrary: st)
  case Nil
  then show ?case by (simp add: scan_run_def)
next
  case (Cons x msgs)
  obtain an msg where x: "x = (an, msg)" by (cases x)
  let ?s = "scan_handle an msg st"
  have c: "file_message msg" "an_metadata an p = Some (True, Some m, len)" "\<forall>r. msg = WorkerResult r \<longrightarrow> re_path r \<noteq> p"
    using Cons.prems(2) x by auto
  have "filter (\<lambda>w. wk_path w = p) (works ?s) = filter (\<lambda>w. wk_path w = p) (works st)"
  proof (cases rule: works_step [of an msg st])
    case 1
    then show ?thesis by simp
  next
    case (2 w m' len')
    have "wk_path w \<noteq> p" using 2(5,6) c(2) remembered_failed [OF Cons.prems(1)] by auto
    then show ?thesis using 2(1) by simp
  qed
  moreover have "filter (\<lambda>w. wk_path w = p) (works (scan_run msgs ?s)) = filter (\<lambda>w. wk_path w = p) (works ?s)"
    by (rule Cons.IH [OF remembered_step [OF Cons.prems(1) c(2,1,3)]]) (use Cons.prems(2) in simp)
  ultimately show ?case by (simp add: scan_run_def x)
qed

text \<open>
  C32.  A file that failed is not attempted again while it does not change: after a failure with
  a class, no sequence of events, polls and results of other files hands the file to a worker
  as long as its time and size are those of the failure; a new scan record, or a success of the
  file, forgets the failure.
\<close>

theorem failing_file_is_not_reattempted:
  assumes "\<not> sc_paused st" and "re_epoch r = sc_epoch st" and "re_path r = p" and "re_stat r = Some (m, len)"
    and "re_result r = Inl err" and "classified err \<noteq> None" and "err \<noteq> Filtered"
    and "\<forall>(an, msg) \<in> set msgs. file_message msg \<and> an_metadata an p = Some (True, Some m, len) \<and>
      (\<forall>r'. msg = WorkerResult r' \<longrightarrow> re_path r' \<noteq> p)"
  shows "filter (\<lambda>w. wk_path w = p) (works (scan_run msgs (scan_handle an (WorkerResult r) st))) =
    filter (\<lambda>w. wk_path w = p) (works st)"
proof -
  let ?s = "scan_handle an (WorkerResult r) st"
  have "remembered p m len ?s" using assms(1-7)
    by (cases err) (auto simp: handle_worker_result_def record_file_failure_def remembered_def Let_def split: option.split)
  from remembered_run [OF this assms(8)] show ?thesis by simp
qed

section \<open>Catching up\<close>

lemma started_poller:
  fixes st :: "'b scan_state"
  assumes "scan_pre_start an True = Some st" and "cf_enabled (sc_config st)" and "sc_roots_valid st"
    and "an_read an" and "an_rows an = Some rows"
  obtains poller where "sc_poller st = Some poller" "\<not> sc_paused st"
    "pr_filters poller = \<lparr>pf_roots = sc_watch_roots st, pf_excluded_roots = sc_excluded_roots st,
       pf_allowed_extensions = sc_allowed_extensions st\<rparr>"
    "pr_snapshot poller = Some (seed_snapshot rows (pr_filters poller))"
    "SendAfter 0 (PollTick (sc_epoch st)) \<in> set (sc_log st)"
proof -
  obtain config where l: "an_load an = Some config" using assms(1) by (auto simp: scan_pre_start_def split: option.splits)
  let ?i = "initial_scan_state True config :: 'b scan_state"
  define r :: "'b scan_state" where "r = close_stale_scan an (refreshed an ?i)"
  have c: "ctl r = ctl (refreshed an ?i)" by (simp add: r_def)
  have none: "sc_paused r = False" "sc_enable_watcher r"
    unfolding ctl_fields(7) [OF c] ctl_fields(11) [OF c] by (simp_all add: initial_scan_state_def)
  have run: "st = (if cf_enabled (sc_config r) \<and> sc_roots_valid r
      then start_watching an (start_scan an r) else r\<lparr>sc_paused := True\<rparr>)"
    using assms(1) ctl_fields(5) [OF c] unfolding scan_pre_start_def
    by (auto simp: l refresh_roots_pair Let_def r_def [symmetric] split: if_splits)
  have st: "st = start_watching an (start_scan an r)"
  proof (rule ccontr)
    assume "st \<noteq> start_watching an (start_scan an r)"
    then have "st = r\<lparr>sc_paused := True\<rparr>" "\<not> (cf_enabled (sc_config r) \<and> sc_roots_valid r)" using run by (auto split: if_splits)
    with assms(2,3) show False by simp
  qed
  let ?s = "start_scan an r"
  note f = ctl_fields [OF ctl_records(1), of an r]
  have on: "sc_enable_watcher ?s" unfolding f using none(2) .
  show thesis
  proof (cases rule: start_watching_cases [of an ?s])
    case off
    moreover have "sc_poller (start_watching an ?s) \<noteq> None"
      using on assms(4,5) by (simp add: start_watching_def start_poller_def Let_def emit_def split: option.split)
    ultimately show thesis by simp
  next
    case (poller i w b)
    show thesis
      by (rule that [of "\<lparr>pr_interval = i, pr_filters = \<lparr>pf_roots = sc_watch_roots st, pf_excluded_roots = sc_excluded_roots st,
          pf_allowed_extensions = sc_allowed_extensions st\<rparr>, pr_snapshot = Some (seed_snapshot rows
          \<lparr>pf_roots = sc_watch_roots st, pf_excluded_roots = sc_excluded_roots st,
           pf_allowed_extensions = sc_allowed_extensions st\<rparr>)\<rparr>"])
        (use none(1) assms(4,5) f in \<open>simp_all add: st poller start_poller_def Let_def emit_def\<close>)
  qed
qed

text \<open>
  C17.  After a start the scanner catches up.  A start with an enabled database, valid roots and
  a readable index starts a poller over the watched roots and sends it its first tick, whether
  the watcher works or not; the tick hands a pass the index as it was read.  On a tree where no
  call fails the pass ends, and its completion schedules a settle check for every admitted file
  on disk without a current row, a removal for every indexed file that is gone, and the next
  tick when the poller has an interval; the settle check of a file that stays as it is sends it
  on for processing at once.
\<close>

theorem catch_up_reaches_every_change:
  assumes "scan_pre_start an True = Some st" and "cf_enabled (sc_config st)" and "sc_roots_valid st"
    and "an_read an" and "an_rows an = Some rows"
    and f_def: "f = \<lparr>pf_roots = sc_watch_roots st, pf_excluded_roots = sc_excluded_roots st,
      pf_allowed_extensions = sc_allowed_extensions st\<rparr>"
    and "finite_tree fs f [] U" and "readable fs f"
  shows "SendAfter 0 (PollTick (sc_epoch st)) \<in> set (sc_log st) \<and>
    (\<exists>poller out. let tick = scan_handle an1 (PollTick (sc_epoch st)) st;
             done = scan_handle an2 (PollCompleted (sc_epoch st) out) tick in
    sc_poller st = Some poller \<and> pr_filters poller = f \<and>
    StartPass (sc_epoch st) (seed_snapshot rows f) f \<in> set (sc_log tick) \<and>
    run_poll_pass fs (seed_snapshot rows f) f now = Some out \<and>
    (\<forall>d n m. on_disk fs f d n m \<and> indexed rows f (join d n) \<noteq> Some (fm_last_modified m) \<longrightarrow>
      SendAfter poll_settle_delay (SettleCheck (sc_epoch st) (join d n) m 0) \<in> set (sc_log done) \<and>
      settle_task (Some (fm_last_modified m, len)) (sc_epoch st) (join d n) m a =
        (if fm_size m = None \<or> fm_size m = Some len then Some (DispatchStable (sc_epoch st) (join d n), 0)
         else Some (SettleCheck (sc_epoch st) (join d n) \<lparr>fm_last_modified = fm_last_modified m, fm_size = Some len\<rparr>
           (min u32_max (a + 1)), min settle_max_delay (poll_settle_delay * 2 ^ min a 5)))) \<and>
    (\<forall>d n. indexed rows f (join d n) \<noteq> None \<and> \<not> (\<exists>m. on_disk fs f d n m) \<longrightarrow>
      SendAfter (poll_settle_delay * 2) (FsEvent (Remove (join d n))) \<in> set (sc_log done)) \<and>
    (\<forall>i. pr_interval poller = Some i \<longrightarrow> SendAfter i (PollTick (sc_epoch st)) \<in> set (sc_log done)))"
proof -
  let ?e = "sc_epoch st"
  obtain poller where p: "sc_poller st = Some poller" "\<not> sc_paused st" "pr_filters poller = f"
    "pr_snapshot poller = Some (seed_snapshot rows f)" "SendAfter 0 (PollTick ?e) \<in> set (sc_log st)"
    unfolding f_def by (rule started_poller [OF assms(1-5)]) (metis f_def)
  let ?tick = "scan_handle an1 (PollTick ?e) st"
  have tick: "?tick = emit (StartPass ?e (seed_snapshot rows f) f) (st\<lparr>sc_poller := Some (poller\<lparr>pr_snapshot := None\<rparr>)\<rparr>)"
    using p by (simp add: handle_poll_tick_def)
  obtain out where out: "run_poll_pass fs (seed_snapshot rows f) f now = Some out"
    "set (po_changes out) = {\<lparr>pc_path = join d n, pc_meta = m\<rparr> | d n m.
      on_disk fs f d n m \<and> indexed rows f (join d n) \<noteq> Some (fm_last_modified m)}"
    "set (po_removals out) = {join d n | d n. indexed rows f (join d n) \<noteq> None \<and> \<not> (\<exists>m. on_disk fs f d n m)}"
    using catch_up_is_exact [OF assms(7,8), of rows now] by blast
  let ?done = "scan_handle an2 (PollCompleted ?e out) ?tick"
  have sent: "sc_log ?done = sc_log ?tick @ map (\<lambda>p. SendAfter (poll_settle_delay * 2) (FsEvent (Remove p))) (po_removals out) @
      map (\<lambda>c. SendAfter poll_settle_delay (SettleCheck ?e (pc_path c) (pc_meta c) 0)) (po_changes out) @
      (case pr_interval poller of Some i \<Rightarrow> [SendAfter i (PollTick ?e)] | None \<Rightarrow> [])"
    unfolding tick by (simp add: handle_poll_completed_def send_all_def emit_def)
  have log: "(\<lambda>q. SendAfter (poll_settle_delay * 2) (FsEvent (Remove q))) ` set (po_removals out) \<union>
      (\<lambda>c. SendAfter poll_settle_delay (SettleCheck ?e (pc_path c) (pc_meta c) 0)) ` set (po_changes out) \<subseteq> set (sc_log ?done)"
    unfolding sent by auto
  have again: "SendAfter i (PollTick ?e) \<in> set (sc_log ?done)" if "pr_interval poller = Some i" for i
    unfolding sent that by simp
  have "SendAfter poll_settle_delay (SettleCheck ?e (join d n) m 0) \<in> set (sc_log ?done)"
    if "on_disk fs f d n m \<and> indexed rows f (join d n) \<noteq> Some (fm_last_modified m)" for d n m
  proof -
    have "\<lparr>pc_path = join d n, pc_meta = m\<rparr> \<in> set (po_changes out)" unfolding out(2) using that by blast
    then show ?thesis using log by force
  qed
  moreover have "SendAfter (poll_settle_delay * 2) (FsEvent (Remove (join d n))) \<in> set (sc_log ?done)"
    if "indexed rows f (join d n) \<noteq> None \<and> \<not> (\<exists>m. on_disk fs f d n m)" for d n
  proof -
    have "join d n \<in> set (po_removals out)" unfolding out(3) using that by blast
    then show ?thesis using log by blast
  qed
  moreover have "StartPass ?e (seed_snapshot rows f) f \<in> set (sc_log ?tick)" unfolding tick by (simp add: emit_def)
  ultimately show ?thesis using out(1) p(1,3,5) again
    by (intro conjI exI [of _ poller] exI [of _ out]) (auto simp: Let_def settle_task_def)
qed

section \<open>A restart without a scan record\<close>

text \<open>
  When the roots of an enabled database become invalid, the scan record is closed.  The next
  configuration with valid roots starts watching again, but opens a scan record only when the
  database was disabled before, so the scanner runs without one and ignores renames.
\<close>

definition home_config :: system_config where
  "home_config = \<lparr>remove_unavailable_files = True, scan_images = True, scan_video = False, scan_audio = False,
     scan_html = False, scan_pdf = False, detect_outros = False, thumbnail_formats = [],
     included_folders = [''/r''], excluded_folders = [], cf_enabled = True,
     cf_poll_interval_secs = None, cf_included_folders = [''/r'']\<rparr>"

definition home_answers :: "bool \<Rightarrow> scan_answers" where
  "home_answers valid = \<lparr>an_time = ''now'', an_load = Some home_config, an_cwd = None, an_valid = (\<lambda>_. valid),
     an_empty = (\<lambda>_. False), an_read = True, an_indexed_under = (\<lambda>_. Some True), an_stale_scan = Some None,
     an_add_scan = Some 7, an_update_scan = True, an_watcher = True, an_rows = Some small_rows, an_exists = (\<lambda>_. True),
     an_metadata = (\<lambda>p. Some (True, Some ''t2'', 9)), an_stat = (\<lambda>_. Some (''t2'', 9)), an_delete_info = (\<lambda>_. None),
     an_count_files = (\<lambda>_. None), an_delete_file = None, an_delete_item = None, an_rename = Some True,
     an_mime = (\<lambda>_. None), an_sniff = (\<lambda>_. None), an_existing = (\<lambda>_. None), an_item_id = (\<lambda>_. None),
     an_has_thumbnail = (\<lambda>_. None), an_has_tiers = (\<lambda>_. None), an_has_frame = (\<lambda>_. None), an_has_blurhash = (\<lambda>_. None),
     an_upsert = None, an_progress_due = False\<rparr>"

definition home :: "nat scan_state" where
  "home = (case scan_pre_start (home_answers True) True of Some st \<Rightarrow> st | None \<Rightarrow> initial_scan_state True home_config)"

lemma home_started: "scan_pre_start (home_answers True) True = Some home"
proof -
  have "scan_pre_start (home_answers True) True \<noteq> (None :: nat scan_state option)"
    by (simp add: scan_pre_start_def home_answers_def Let_def refresh_roots_pair)
  then show ?thesis by (auto simp: home_def)
qed

lemma home_reachable: "scan_reachable home"
  by (rule scan_reachable.started [OF home_started])

text \<open>Each folder is valid or none is, as the answers say.\<close>

lemma home_roots: "sc_config st = home_config \<Longrightarrow> sc_roots_valid (refreshed (home_answers v) st) = v"
proof -
  assume c: "sc_config st = home_config"
  have "wr_valid (compute_watch_roots None (\<lambda>_. True) [] home_config) \<and> \<not> wr_valid (compute_watch_roots None (\<lambda>_. False) [] home_config)"
    by code_simp
  then show ?thesis using c by (cases v) (simp_all add: refreshed_def refresh_roots_def home_answers_def Let_def)
qed

lemma home_watches:
  "sc_config st = home_config \<Longrightarrow> sc_enable_watcher st \<Longrightarrow> sc_watcher (start_watching (home_answers v) st)"
  by (simp add: start_watching_def start_poller_def home_answers_def home_config_def emit_def Let_def)

lemma home_fields:
  "sc_config home = home_config" "sc_scan_id home = Some 7" "\<not> sc_paused home" "sc_job_pauses home = 0" "sc_enable_watcher home"
  "sc_epoch home = 0" "sc_watcher home" "sc_failed_stats home = (\<lambda>_. None)" "sc_watch_roots home = [''/r/'']"
  "sc_excluded_roots home = []" "sc_allowed_extensions home = pf_allowed_extensions small_filters"
  "sc_poller home = Some \<lparr>pr_interval = None, pr_filters = small_filters, pr_snapshot = Some (seed_snapshot small_rows small_filters)\<rparr>"
proof -
  let ?an = "home_answers True" and ?i = "initial_scan_state True home_config :: nat scan_state"
  let ?s = "start_scan ?an (close_stale_scan ?an (refreshed ?an ?i))"
  have i: "sc_config ?i = home_config" "\<not> sc_paused ?i" "sc_job_pauses ?i = 0" "sc_enable_watcher ?i" "sc_epoch ?i = 0"
    by (simp_all add: initial_scan_state_def)
  have "cf_enabled home_config" "an_load ?an = Some home_config" by (simp_all add: home_config_def home_answers_def)
  then have home: "home = start_watching ?an ?s"
    using home_started i home_roots [OF i(1), of True]
    by (simp add: scan_pre_start_def refresh_roots_pair Let_def ctl_fields(1) [OF ctl_records(3)] option.inject)
  have c: "ctl ?s = ctl (refreshed ?an ?i)" by simp
  note f = ctl_fields [OF c]
  show "sc_config home = home_config" "\<not> sc_paused home" "sc_job_pauses home = 0" "sc_enable_watcher home" "sc_epoch home = 0"
    using i by (simp_all add: home f)
  show "sc_watcher home" unfolding home by (rule home_watches) (use i in \<open>simp_all add: f\<close>)
  show "sc_scan_id home = Some 7" "sc_failed_stats home = (\<lambda>_. None)"
    by (simp_all add: home start_scan_def Let_def home_answers_def reset_stats_def)
  have roots: "compute_watch_roots None (\<lambda>_. True) [] home_config = \<lparr>wr_watch_roots = [''/r/''], wr_excluded_roots = [],
      wr_valid = True, wr_invalid_includes = []\<rparr>" by code_simp
  have ext: "build_extension_set home_config = pf_allowed_extensions small_filters" by code_simp
  have w: "sc_watch_roots ?s = [''/r/'']" "sc_excluded_roots ?s = []" "sc_allowed_extensions ?s = pf_allowed_extensions small_filters"
    unfolding f using i(1) roots ext
    by (simp_all add: refreshed_def refresh_roots_def home_answers_def Let_def)
  then show "sc_watch_roots home = [''/r/'']" "sc_excluded_roots home = []"
    "sc_allowed_extensions home = pf_allowed_extensions small_filters" by (simp_all add: home)
  have "sc_config ?s = home_config" "sc_enable_watcher ?s" using i unfolding f by simp_all
  then show "sc_poller home = Some \<lparr>pr_interval = None, pr_filters = small_filters,
      pr_snapshot = Some (seed_snapshot small_rows small_filters)\<rparr>"
    using w unfolding home
    by (simp add: start_watching_def start_poller_def home_answers_def home_config_def emit_def Let_def small_filters_def)
qed

lemma home_valid: "sc_roots_valid home"
proof (rule ccontr)
  assume bad: "\<not> sc_roots_valid home"
  let ?an = "home_answers True" and ?i = "initial_scan_state True home_config :: nat scan_state"
  have i: "sc_config ?i = home_config" by (simp add: initial_scan_state_def)
  let ?s = "start_scan ?an (close_stale_scan ?an (refreshed ?an ?i))"
  have "cf_enabled home_config" "an_load ?an = Some home_config" by (simp_all add: home_config_def home_answers_def)
  then have "home = start_watching ?an ?s"
    using home_started i home_roots [OF i, of True]
    by (simp add: scan_pre_start_def refresh_roots_pair Let_def ctl_fields(1) [OF ctl_records(3)] option.inject)
  moreover have "sc_roots_valid (start_watching ?an ?s) = sc_roots_valid ?s"
    by (cases rule: start_watching_cases [of ?an ?s]) (simp_all add: start_poller_def Let_def emit_def split: option.split)
  ultimately have "sc_roots_valid home = sc_roots_valid ?s" by simp
  moreover have c: "ctl ?s = ctl (refreshed ?an ?i)" by simp
  ultimately show False using bad home_roots [OF i, of True] by (simp add: ctl_fields(5) [OF c])
qed

lemma no_scan_no_rename: "sc_scan_id st = None \<Longrightarrow> handle_rename an p q st = st"
  by (simp add: handle_rename_def)

lemma restart_without_scan_record:
  "let st = scan_run [(home_answers False, UpdateConfig home_config), (home_answers True, UpdateConfig home_config)] home in
   sc_scan_id home = Some 7 \<and> \<not> sc_paused st \<and> sc_watcher st \<and> sc_scan_id st = None \<and>
   (\<forall>an p q. scan_handle an (FsEvent (Rename p q)) st = st)"
proof -
  have e: "cf_enabled home_config" by (simp add: home_config_def)
  have set_home: "st\<lparr>sc_config := home_config\<rparr> = st" if "sc_config st = home_config" for st :: "nat scan_state" using that by simp
  define st1 where "st1 = handle_update_config (home_answers False) home_config home"
  let ?an = "home_answers False" and ?r = "refreshed (home_answers False) home"
  have "st1 = close_scan ?an (stop_watching (bump_epoch (?r\<lparr>sc_paused := True\<rparr>)))"
    using home_roots [OF home_fields(1), of False] home_fields(1,2)
    by (simp add: st1_def handle_update_config_def Let_def refresh_roots_pair set_home)
  moreover define x where "x = stop_watching (bump_epoch (?r\<lparr>sc_paused := True\<rparr>))"
  ultimately have x: "st1 = close_scan ?an x" by simp
  have "sc_config x = home_config" "sc_paused x" "sc_job_pauses x = 0" "sc_enable_watcher x"
    using home_fields by (simp_all add: x_def stop_watching_def bump_epoch_def)
  moreover have c: "ctl st1 = ctl x" by (simp add: x)
  ultimately have s1: "sc_config st1 = home_config" "sc_paused st1" "sc_job_pauses st1 = 0" "sc_enable_watcher st1"
    by (simp_all add: ctl_fields [OF c])
  have n1: "sc_scan_id st1 = None" by (simp add: x)
  let ?st = "handle_update_config (home_answers True) home_config st1"
  have st: "?st = start_watching (home_answers True) (bump_epoch ((refreshed (home_answers True) st1)\<lparr>sc_paused := False\<rparr>))"
    using home_roots [OF s1(1), of True] s1 e by (simp add: handle_update_config_def Let_def refresh_roots_pair set_home)
  have "\<not> sc_paused ?st" "sc_scan_id ?st = None" using n1 unfolding st by (simp_all add: bump_epoch_def)
  moreover have "sc_watcher ?st" unfolding st by (rule home_watches) (use s1 in \<open>simp_all add: bump_epoch_def\<close>)
  ultimately show ?thesis
    using home_fields(2) by (simp add: scan_run_def st1_def [symmetric] Let_def handle_fs_event_def no_scan_no_rename)
qed

section \<open>A scanner at home\<close>

lemma home_job:
  "scan_reachable (scan_handle (home_answers True) Pause home)"
  "sc_job_pauses (scan_handle (home_answers True) Pause home) = 1"
proof -
  show "scan_reachable (scan_handle (home_answers True) Pause home)" by (rule scan_reachable.handled [OF home_reachable])
  show "sc_job_pauses (scan_handle (home_answers True) Pause home) = 1"
    unfolding job_pauses_step home_fields(4) by simp
qed

lemma job_pause_holds_witness:
  "\<not> sc_watcher (scan_handle (home_answers True) Pause home) \<and>
   scan_handle (home_answers True) (FsEvent Overflow) (scan_handle (home_answers True) Pause home) = scan_handle (home_answers True) Pause home"
proof -
  have "0 < sc_job_pauses (scan_handle (home_answers True) Pause home)" using home_job(2) by linarith
  from job_pause_holds [OF home_job(1) this] show ?thesis by (meson file_message.simps(1))
qed

lemma work_before_a_pause_is_dropped_witness:
  "let st = scan_run [(home_answers True, Resume)] (scan_handle (home_answers True) Pause home) in
   scan_handle (home_answers True) (DispatchStable 0 []) st = st"
proof -
  have "length [(home_answers True, Resume)] < 2 ^ 64 - (1 :: nat)" by simp
  from work_before_a_pause_is_dropped [OF home_reachable this, of "DispatchStable 0 []" "home_answers True" "home_answers True"] show ?thesis
    unfolding Let_def by (simp only: msg_epoch.simps home_fields(6) simp_thms)
qed

lemma home_admits: "should_process_path home (components ''/r/a.png'')"
  unfolding should_process_path_def home_fields small_filters_def by code_simp

lemma dispatched_files_are_admitted_witness:
  "\<exists>w. works (scan_handle (home_answers True) (FsEvent (Create (components ''/r/a.png''))) home) = works home @ [w] \<and>
    cf_enabled (sc_config home) \<and> wk_epoch w = 0"
proof -
  let ?an = "home_answers True" and ?p = "components ''/r/a.png''"
  have "an_metadata ?an ?p = Some (True, Some ''t2'', 9)" by (simp add: home_answers_def)
  then have "works (scan_handle ?an (FsEvent (Create ?p)) home) \<noteq> works home"
    using home_admits home_fields(3,8) by (simp add: handle_fs_event_def dispatch_path_def failed_before_def)
  moreover obtain new where "works (scan_handle ?an (FsEvent (Create ?p)) home) = works home @ new" "length new \<le> 1"
    "\<forall>w \<in> set new. cf_enabled (sc_config home) \<and> wk_epoch w = sc_epoch home"
    using dispatched_files_are_admitted [OF home_reachable, of ?an "FsEvent (Create ?p)"] by blast
  ultimately show ?thesis using home_fields(6) by (cases new) auto
qed

definition broken_file :: "nat worker_result" where
  "broken_file = \<lparr>re_epoch = 0, re_scan_time = ''now'', re_path = components ''/r/a.png'', re_stat = Some (''t2'', 9),
     re_ledger_path = None,
     re_result = Inl (Classified \<lparr>sf_stage = ''header'', sf_kind = InputError, sf_skip_after = 2, sf_message = ''bad''\<rparr>)\<rparr>"

lemma failing_file_is_not_reattempted_witness:
  "let change = (home_answers True, FsEvent (Modify (components ''/r/a.png''))) in
   filter (\<lambda>w. wk_path w = components ''/r/a.png'')
     (works (scan_run [change, change] (scan_handle (home_answers True) (WorkerResult broken_file) home))) =
   filter (\<lambda>w. wk_path w = components ''/r/a.png'') (works home)"
  unfolding Let_def
  by (rule failing_file_is_not_reattempted [where m = "''t2''" and len = 9 and
        err = "Classified \<lparr>sf_stage = ''header'', sf_kind = InputError, sf_skip_after = 2, sf_message = ''bad''\<rparr>"])
    (simp_all add: home_fields broken_file_def home_answers_def)

lemma catch_up_reaches_every_change_witness:
  "SendAfter 0 (PollTick 0) \<in> set (sc_log home) \<and> (\<exists>out. SendAfter 4 (FsEvent (Remove (components ''/r/gone.png''))) \<in>
    set (sc_log (scan_handle (home_answers True) (PollCompleted 0 out) (scan_handle (home_answers True) (PollTick 0) home))))"
proof -
  let ?d = "components ''/r/''"
  have j: "components ''/r/gone.png'' = join ?d ''gone.png''" by code_simp
  have "indexed small_rows small_filters (join ?d ''gone.png'') = Some ''t0''" by code_simp
  moreover have "\<not> on_disk small_fs small_filters ?d ''gone.png'' m" for m
    unfolding on_disk_def small_listing by simp
  ultimately have gone: "indexed small_rows small_filters (join ?d ''gone.png'') \<noteq> None \<and>
      \<not> (\<exists>m. on_disk small_fs small_filters ?d ''gone.png'' m)" by simp
  have rows: "an_read (home_answers True)" "an_rows (home_answers True) = Some small_rows" by (simp_all add: home_answers_def)
  have on: "cf_enabled (sc_config home)" by (simp add: home_fields home_config_def)
  have filters: "small_filters = \<lparr>pf_roots = sc_watch_roots home, pf_excluded_roots = sc_excluded_roots home,
      pf_allowed_extensions = sc_allowed_extensions home\<rparr>"
    by (simp add: home_fields small_filters_def)
  from catch_up_reaches_every_change [OF home_started on home_valid rows filters small_finite small_readable,
      of "home_answers True" "home_answers True" 10, unfolded Let_def home_fields(6)]
  obtain out where "SendAfter 0 (PollTick 0) \<in> set (sc_log home)"
    "\<forall>d n. indexed small_rows small_filters (join d n) \<noteq> None \<and> \<not> (\<exists>m. on_disk small_fs small_filters d n m) \<longrightarrow>
      SendAfter (poll_settle_delay * 2) (FsEvent (Remove (join d n))) \<in>
        set (sc_log (scan_handle (home_answers True) (PollCompleted 0 out) (scan_handle (home_answers True) (PollTick 0) home)))"
    by blast
  with gone have "SendAfter 0 (PollTick 0) \<in> set (sc_log home) \<and>
      SendAfter (poll_settle_delay * 2) (FsEvent (Remove (join ?d ''gone.png''))) \<in>
        set (sc_log (scan_handle (home_answers True) (PollCompleted 0 out) (scan_handle (home_answers True) (PollTick 0) home)))" by blast
  then show ?thesis unfolding j by (auto simp: poll_settle_delay_def)
qed

end
