(* ===== verification/ScanSupervisor.thy ===== *)
theory ScanSupervisor
  imports ContinuousScan
begin

text \<open>
  The supervisor of the scanners (\<open>ContinuousScanSupervisor\<close> in
  \<open>panoptikon/src/jobs/continuous_scan.rs\<close>) together with the scanners it runs and the jobs
  that pause them: which databases have a scanner, when the disk is read again, and the guard
  a job holds.  Mailboxes are lists in order; a stopped scanner ends at its next message
  boundary.  Names of live actors are unique: spawning one whose name is taken fails.
\<close>

section \<open>Events of the index directory\<close>

datatype event_kind = AccessEvent | ChangeEvent

record notify_event =
  ne_kind :: event_kind
  ne_paths :: "path list"

definition ends_with :: "string \<Rightarrow> string \<Rightarrow> bool" where
  "ends_with s t = starts_with (rev s) (rev t)"

definition is_sqlite_db_file :: "path \<Rightarrow> bool" where
  "is_sqlite_db_file p =
     (case file_name p of
        Some name \<Rightarrow> ends_with name ''.db'' \<or> ends_with name ''.db-wal'' \<or> ends_with name ''.db-shm'' \<or> ends_with name ''.db-journal''
      | None \<Rightarrow> False)"

definition event_is_relevant :: "notify_event \<Rightarrow> bool" where
  "event_is_relevant e =
     (if ne_kind e = AccessEvent then False
      else ne_paths e = [] \<or> list_ex (\<lambda>p. \<not> is_sqlite_db_file p) (ne_paths e))"

section \<open>State\<close>

text \<open>
  A request to pause says whether the job still waits for the reply: a job that is aborted
  while it waits drops the receiver and never holds a guard.
\<close>

datatype supervisor_message =
    ResyncFromDisk
  | ConfigChanged string
  | PauseForJob string bool
  | ResumeAfterJob string
  | SupervisorStatus string
  | Shutdown

text \<open>
  A running scanner.  Two counters are history: the jobs that were under way on the database
  when it was spawned, and the pauses whose job was gone when they took effect.
\<close>

record 'b child =
  ch_db :: string
  ch_state :: "'b scan_state"
  ch_mailbox :: "'b scan_message list"
  ch_stopping :: bool
  ch_late :: nat
  ch_leaked :: nat

datatype awaited = AwaitPause string bool | AwaitStatus string

datatype supervisor_reply = StatusOf string "scan_snapshot option" | ShutdownReply

text \<open>
  \<open>sy_guards\<close> are the live \<open>JobPauseGuard\<close> values, each with the scanner its pause reached;
  \<open>sy_delayed\<close> counts debounced resyncs that are not yet in the mailbox; \<open>sy_scheduled\<close> and
  \<open>sy_resyncs\<close> count the resyncs the watcher scheduled and those handled so far.
\<close>

record 'b scan_system =
  sy_actors :: "string \<Rightarrow> nat option"
  sy_children :: "nat \<Rightarrow> 'b child option"
  sy_next :: nat
  sy_inbox :: "supervisor_message list"
  sy_watcher :: bool
  sy_resync_pending :: bool
  sy_delayed :: nat
  sy_shutting_down :: bool
  sy_waiting :: "(nat \<times> awaited) option"
  sy_guards :: "(string \<times> nat option) list"
  sy_replies :: "supervisor_reply list"
  sy_scheduled :: nat
  sy_resyncs :: nat

record disk_entry =
  de_name :: string
  de_is_dir :: bool
  de_has_index :: bool
  de_config :: "system_config option"

text \<open>What the disk answers; \<open>None\<close> is an entry, a listing or a configuration that cannot be read.\<close>

record supervisor_answers =
  sa_is_dir :: bool
  sa_entries :: "disk_entry option list option"
  sa_load :: "string \<Rightarrow> system_config option"
  sa_has_index :: "string \<Rightarrow> bool"
  sa_spawn :: "string \<Rightarrow> scan_answers"

section \<open>Scanners\<close>

definition set_child :: "nat \<Rightarrow> ('b child \<Rightarrow> 'b child) \<Rightarrow> 'b scan_system \<Rightarrow> 'b scan_system" where
  "set_child c f st = st\<lparr>sy_children := (sy_children st)(c := map_option f (sy_children st c))\<rparr>"

definition cast :: "nat \<Rightarrow> 'b scan_message \<Rightarrow> 'b scan_system \<Rightarrow> 'b scan_system" where
  "cast c msg = set_child c (\<lambda>ch. ch\<lparr>ch_mailbox := ch_mailbox ch @ [msg]\<rparr>)"

definition stop_actor :: "string \<Rightarrow> 'b scan_system \<Rightarrow> 'b scan_system" where
  "stop_actor db st =
     (case sy_actors st db of
        Some c \<Rightarrow> set_child c (\<lambda>ch. ch\<lparr>ch_stopping := True\<rparr>) (st\<lparr>sy_actors := (sy_actors st)(db := None)\<rparr>)
      | None \<Rightarrow> st)"

definition name_taken :: "string \<Rightarrow> 'b scan_system \<Rightarrow> bool" where
  "name_taken db st =
     list_ex (\<lambda>c. case sy_children st c of Some ch \<Rightarrow> ch_db ch = db | None \<Rightarrow> False) [0..<sy_next st]"

text \<open>Resumes on their way: guards that live and messages that wait.\<close>

definition guards_of :: "string \<Rightarrow> 'b scan_system \<Rightarrow> nat" where
  "guards_of db st = length (filter (\<lambda>g. fst g = db) (sy_guards st))"

definition resumes_of :: "string \<Rightarrow> 'b scan_system \<Rightarrow> nat" where
  "resumes_of db st = count_list (sy_inbox st) (ResumeAfterJob db)"

definition launch :: "scan_answers \<Rightarrow> string \<Rightarrow> system_config \<Rightarrow> 'b scan_system \<Rightarrow> 'b scan_system option" where
  "launch an db config st =
     (case sy_actors st db of
        Some c \<Rightarrow> Some (cast c (UpdateConfig config) st)
      | None \<Rightarrow>
          if name_taken db st then None
          else case scan_pre_start an True of
            None \<Rightarrow> None
          | Some s \<Rightarrow>
              Some (st\<lparr>sy_children := (sy_children st)(sy_next st \<mapsto>
                         \<lparr>ch_db = db, ch_state = s, ch_mailbox = [UpdateConfig config], ch_stopping = False,
                          ch_late = guards_of db st + resumes_of db st, ch_leaked = 0\<rparr>),
                       sy_actors := (sy_actors st)(db \<mapsto> sy_next st),
                       sy_next := sy_next st + 1\<rparr>))"

section \<open>Following the disk\<close>

fun wanted :: "disk_entry \<Rightarrow> (string \<times> system_config) option" where
  "wanted e =
     (if \<not> de_is_dir e \<or> \<not> de_has_index e then None
      else case de_config e of
        Some config \<Rightarrow> if cf_enabled config then Some (de_name e, config) else None
      | None \<Rightarrow> None)"

definition desired_dbs :: "supervisor_answers \<Rightarrow> (string \<times> system_config) list option" where
  "desired_dbs an =
     (if \<not> sa_is_dir an then Some []
      else case sa_entries an of
        None \<Rightarrow> None
      | Some es \<Rightarrow> if list_ex (\<lambda>e. e = None) es then None else Some (List.map_filter (\<lambda>e. Option.bind e wanted) es))"

definition stop_unwanted :: "string list \<Rightarrow> 'b scan_system \<Rightarrow> 'b scan_system" where
  "stop_unwanted names st =
     st\<lparr>sy_children := (\<lambda>c. map_option (\<lambda>ch.
          if sy_actors st (ch_db ch) = Some c \<and> ch_db ch \<notin> set names then ch\<lparr>ch_stopping := True\<rparr> else ch) (sy_children st c)),
        sy_actors := (\<lambda>db. if db \<in> set names then sy_actors st db else None)\<rparr>"

fun launch_all :: "supervisor_answers \<Rightarrow> (string \<times> system_config) list \<Rightarrow> 'b scan_system \<Rightarrow> 'b scan_system" where
  "launch_all an [] st = st"
| "launch_all an ((db, config) # rest) st =
     (case launch (sa_spawn an db) db config st of
        None \<Rightarrow> st
      | Some st1 \<Rightarrow> launch_all an rest st1)"

definition resync_from_disk :: "supervisor_answers \<Rightarrow> 'b scan_system \<Rightarrow> 'b scan_system" where
  "resync_from_disk an st =
     (case desired_dbs an of
        None \<Rightarrow> st
      | Some desired \<Rightarrow> launch_all an desired (stop_unwanted (map fst desired) st))"

definition sync_single_db :: "supervisor_answers \<Rightarrow> string \<Rightarrow> 'b scan_system \<Rightarrow> 'b scan_system" where
  "sync_single_db an db st =
     (case sa_load an db of
        None \<Rightarrow> st
      | Some config \<Rightarrow>
          if \<not> sa_has_index an db then stop_actor db st
          else if \<not> cf_enabled config then stop_actor db st
          else case launch (sa_spawn an db) db config st of Some st1 \<Rightarrow> st1 | None \<Rightarrow> st)"

section \<open>Handling\<close>

text \<open>The reply to a job: a job that still waits now holds a guard.\<close>

definition grant :: "string \<Rightarrow> nat option \<Rightarrow> bool \<Rightarrow> 'b scan_system \<Rightarrow> 'b scan_system" where
  "grant db paused alive st =
     (if alive then st\<lparr>sy_guards := sy_guards st @ [(db, paused)]\<rparr>
      else case paused of
        Some c \<Rightarrow> set_child c (\<lambda>ch. ch\<lparr>ch_leaked := ch_leaked ch + 1\<rparr>) st
      | None \<Rightarrow> st)"

definition reply :: "supervisor_reply \<Rightarrow> 'b scan_system \<Rightarrow> 'b scan_system" where
  "reply r st = st\<lparr>sy_replies := sy_replies st @ [r]\<rparr>"

fun handle_shutting_down :: "supervisor_message \<Rightarrow> 'b scan_system \<Rightarrow> 'b scan_system" where
  "handle_shutting_down Shutdown st = reply ShutdownReply st"
| "handle_shutting_down (PauseForJob db alive) st = grant db None alive st"
| "handle_shutting_down (SupervisorStatus db) st = reply (StatusOf db None) st"
| "handle_shutting_down _ st = st"

fun handle_running :: "supervisor_answers \<Rightarrow> supervisor_message \<Rightarrow> 'b scan_system \<Rightarrow> 'b scan_system" where
  "handle_running an ResyncFromDisk st =
     resync_from_disk an (st\<lparr>sy_resync_pending := False, sy_resyncs := sy_resyncs st + 1\<rparr>)"
| "handle_running an (ConfigChanged db) st = sync_single_db an db st"
| "handle_running an (PauseForJob db alive) st =
     (case sy_actors st db of
        Some c \<Rightarrow> (cast c Pause st)\<lparr>sy_waiting := Some (c, AwaitPause db alive)\<rparr>
      | None \<Rightarrow> grant db None alive st)"
| "handle_running an (ResumeAfterJob db) st =
     (case sy_actors st db of
        Some c \<Rightarrow> cast c Resume st
      | None \<Rightarrow> sync_single_db an db st)"
| "handle_running an (SupervisorStatus db) st =
     (case sy_actors st db of
        Some c \<Rightarrow> (cast c GetStatus st)\<lparr>sy_waiting := Some (c, AwaitStatus db)\<rparr>
      | None \<Rightarrow> reply (StatusOf db None) st)"
| "handle_running an Shutdown st =
     reply ShutdownReply (stop_unwanted [] (st\<lparr>sy_shutting_down := True, sy_watcher := False\<rparr>))"

definition supervise :: "supervisor_answers \<Rightarrow> supervisor_message \<Rightarrow> 'b scan_system \<Rightarrow> 'b scan_system" where
  "supervise an m st = (if sy_shutting_down st then handle_shutting_down m st else handle_running an m st)"

text \<open>The answer a scanner gives to the supervisor that waits for it.\<close>

definition answer :: "nat \<Rightarrow> 'b scan_message \<Rightarrow> 'b scan_state \<Rightarrow> 'b scan_system \<Rightarrow> 'b scan_system" where
  "answer c msg s st =
     (case (msg, sy_waiting st) of
        (Pause, Some (c', AwaitPause db alive)) \<Rightarrow>
          if c' = c then grant db (Some c) alive (st\<lparr>sy_waiting := None\<rparr>) else st
      | (GetStatus, Some (c', AwaitStatus db)) \<Rightarrow>
          if c' = c then reply (StatusOf db (Some (scan_status s))) (st\<lparr>sy_waiting := None\<rparr>) else st
      | _ \<Rightarrow> st)"

definition schedule_supervisor_resync :: "'b scan_system \<Rightarrow> 'b scan_system" where
  "schedule_supervisor_resync st =
     (if sy_resync_pending st then st
      else st\<lparr>sy_resync_pending := True, sy_delayed := sy_delayed st + 1, sy_scheduled := sy_scheduled st + 1\<rparr>)"

definition watcher_event :: "notify_event \<Rightarrow> 'b scan_system \<Rightarrow> 'b scan_system" where
  "watcher_event e st = (if sy_watcher st \<and> event_is_relevant e then schedule_supervisor_resync st else st)"

definition send :: "supervisor_message \<Rightarrow> 'b scan_system \<Rightarrow> 'b scan_system" where
  "send m st = st\<lparr>sy_inbox := sy_inbox st @ [m]\<rparr>"

definition start_supervisor :: "supervisor_answers \<Rightarrow> bool \<Rightarrow> 'b scan_system" where
  "start_supervisor an watcher =
     resync_from_disk an \<lparr>sy_actors = (\<lambda>_. None), sy_children = (\<lambda>_. None), sy_next = 0, sy_inbox = [], sy_watcher = watcher,
       sy_resync_pending = False, sy_delayed = 0, sy_shutting_down = False, sy_waiting = None, sy_guards = [], sy_replies = [],
       sy_scheduled = 0, sy_resyncs = 0\<rparr>"

section \<open>Runs\<close>

text \<open>What a scanner gets from its own watcher, timers and workers.\<close>

fun own_message :: "'b scan_message \<Rightarrow> bool" where
  "own_message Pause = False"
| "own_message Resume = False"
| "own_message (UpdateConfig config) = False"
| "own_message GetStatus = False"
| "own_message _ = True"

inductive system_step :: "'b scan_system \<Rightarrow> 'b scan_system \<Rightarrow> bool" where
  supervised: "sy_waiting st = None \<Longrightarrow> sy_inbox st = m # rest \<Longrightarrow>
    system_step st (supervise an m (st\<lparr>sy_inbox := rest\<rparr>))"
| scanned: "sy_children st c = Some ch \<Longrightarrow> \<not> ch_stopping ch \<Longrightarrow> ch_mailbox ch = msg # rest \<Longrightarrow>
    s = scan_handle an msg (ch_state ch) \<Longrightarrow>
    system_step st (answer c msg s (st\<lparr>sy_children := (sy_children st)(c \<mapsto> ch\<lparr>ch_state := s, ch_mailbox := rest\<rparr>)\<rparr>))"
| ended: "sy_children st c = Some ch \<Longrightarrow> ch_stopping ch \<Longrightarrow>
    system_step st (st\<lparr>sy_children := (sy_children st)(c := None)\<rparr>)"
| received: "own_message msg \<Longrightarrow> system_step st (cast c msg st)"
| observed: "system_step st (watcher_event e st)"
| debounced: "sy_delayed st = n + 1 \<Longrightarrow> system_step st (send ResyncFromDisk (st\<lparr>sy_delayed := n\<rparr>))"
| interval: "system_step st (send ResyncFromDisk st)"
| config_changed: "system_step st (send (ConfigChanged db) st)"
| status_asked: "system_step st (send (SupervisorStatus db) st)"
| shutdown: "system_step st (send Shutdown st)"
| job_asks: "system_step st (send (PauseForJob db True) st)"
| job_aborted_queued: "sy_inbox st = xs @ PauseForJob db True # ys \<Longrightarrow>
    system_step st (st\<lparr>sy_inbox := xs @ PauseForJob db False # ys\<rparr>)"
| job_aborted_waiting: "sy_waiting st = Some (c, AwaitPause db True) \<Longrightarrow>
    system_step st (st\<lparr>sy_waiting := Some (c, AwaitPause db False)\<rparr>)"
| guard_dropped: "sy_guards st = xs @ (db, paused) # ys \<Longrightarrow>
    system_step st (send (ResumeAfterJob db) (st\<lparr>sy_guards := xs @ ys\<rparr>))"

inductive system_reachable :: "'b scan_system \<Rightarrow> bool" where
  started: "system_reachable (start_supervisor an watcher)"
| stepped: "system_reachable st \<Longrightarrow> system_step st st' \<Longrightarrow> system_reachable st'"

end
