(* ===== verification/ScanSupervisorInv.thy ===== *)
theory ScanSupervisorInv
  imports ScanSupervisor ContinuousScanProps
begin

text \<open>
  The invariant of the supervisor and its scanners: the actors are exactly the scanners that
  are not stopping, no database has two scanners, a request to pause is answered by the
  scanner the supervisor waits for, and the pauses of a scanner are balanced against the
  guards and resumes on their way to it.
\<close>

section \<open>The invariant\<close>

definition balanced :: "'b scan_system \<Rightarrow> nat \<Rightarrow> 'b child \<Rightarrow> bool" where
  "balanced st c ch \<longleftrightarrow>
     (let db = ch_db ch; r = count_list (ch_mailbox ch) Resume + resumes_of db st in
      guards_of db st + r \<le> sc_job_pauses (ch_state ch) + ch_late ch \<and>
      sc_job_pauses (ch_state ch) \<le> count_list (sy_guards st) (db, Some c) + ch_leaked ch + r)"

definition awaits_pause :: "'b scan_system \<Rightarrow> nat \<Rightarrow> bool" where
  "awaits_pause st c \<longleftrightarrow> (\<exists>db alive. sy_waiting st = Some (c, AwaitPause db alive))"

definition child_ok :: "'b scan_system \<Rightarrow> nat \<Rightarrow> 'b child \<Rightarrow> bool" where
  "child_ok st c ch \<longleftrightarrow> c < sy_next st \<and> scan_reachable (ch_state ch) \<and>
     (\<not> ch_stopping ch \<longrightarrow> sy_actors st (ch_db ch) = Some c \<and>
        count_list (ch_mailbox ch) Pause = (if awaits_pause st c then 1 else 0) \<and> balanced st c ch)"

definition actors_ok :: "'b scan_system \<Rightarrow> bool" where
  "actors_ok st \<longleftrightarrow> (\<forall>db c. sy_actors st db = Some c \<longrightarrow>
     (\<exists>ch. sy_children st c = Some ch \<and> ch_db ch = db \<and> \<not> ch_stopping ch))"

definition children_ok :: "'b scan_system \<Rightarrow> bool" where
  "children_ok st \<longleftrightarrow> (\<forall>c ch. sy_children st c = Some ch \<longrightarrow> child_ok st c ch)"

definition names_unique :: "'b scan_system \<Rightarrow> bool" where
  "names_unique st \<longleftrightarrow> (\<forall>c ch c' ch'. sy_children st c = Some ch \<longrightarrow> sy_children st c' = Some ch' \<longrightarrow> ch_db ch = ch_db ch' \<longrightarrow> c = c')"

definition waits_ok :: "'b scan_system \<Rightarrow> bool" where
  "waits_ok st \<longleftrightarrow> (\<forall>c db alive. sy_waiting st = Some (c, AwaitPause db alive) \<longrightarrow> sy_actors st db = Some c)"

definition down_ok :: "'b scan_system \<Rightarrow> bool" where
  "down_ok st \<longleftrightarrow> (sy_shutting_down st \<longrightarrow> sy_actors st = (\<lambda>_. None))"

definition guards_ok :: "'b scan_system \<Rightarrow> bool" where
  "guards_ok st \<longleftrightarrow> (\<forall>db c. (db, Some c) \<in> set (sy_guards st) \<longrightarrow> c < sy_next st)"

definition system_inv :: "'b scan_system \<Rightarrow> bool" where
  "system_inv st \<longleftrightarrow> actors_ok st \<and> children_ok st \<and> names_unique st \<and> waits_ok st \<and> down_ok st \<and> guards_ok st"

lemma actor_child:
  assumes "system_inv st" and "sy_actors st db = Some c"
  obtains ch where "sy_children st c = Some ch" "ch_db ch = db" "\<not> ch_stopping ch" "child_ok st c ch"
  using assms unfolding system_inv_def actors_ok_def children_ok_def by blast

lemma child_of: "system_inv st \<Longrightarrow> sy_children st c = Some ch \<Longrightarrow> child_ok st c ch"
  unfolding system_inv_def children_ok_def by blast

lemma count_list_append [simp]: "count_list (xs @ ys) x = count_list xs x + count_list ys x"
  by (induction xs) simp_all

section \<open>Casting, stopping and launching\<close>

lemma set_child_fields [simp]:
  "sy_actors (set_child c f st) = sy_actors st" "sy_next (set_child c f st) = sy_next st"
  "sy_waiting (set_child c f st) = sy_waiting st" "sy_guards (set_child c f st) = sy_guards st"
  "sy_inbox (set_child c f st) = sy_inbox st" "sy_shutting_down (set_child c f st) = sy_shutting_down st"
  "sy_scheduled (set_child c f st) = sy_scheduled st" "sy_resyncs (set_child c f st) = sy_resyncs st"
  "sy_resync_pending (set_child c f st) = sy_resync_pending st" "sy_delayed (set_child c f st) = sy_delayed st"
  by (simp_all add: set_child_def)

lemma set_child_children [simp]:
  "sy_children (set_child c f st) = (sy_children st)(c := map_option f (sy_children st c))"
  by (simp add: set_child_def)

text \<open>A message that is neither a pause nor a resume changes no count.\<close>

fun neutral :: "'b scan_message \<Rightarrow> bool" where
  "neutral Pause = False"
| "neutral Resume = False"
| "neutral _ = True"

lemma balanced_cong:
  assumes "ch_db ch' = ch_db ch" and "sc_job_pauses (ch_state ch') = sc_job_pauses (ch_state ch)"
    and "ch_late ch' = ch_late ch" and "ch_leaked ch' = ch_leaked ch"
    and "count_list (ch_mailbox ch') Resume + resumes_of (ch_db ch) st' = count_list (ch_mailbox ch) Resume + resumes_of (ch_db ch) st"
    and "sy_guards st' = sy_guards st"
  shows "balanced st' c ch' = balanced st c ch"
proof -
  have "guards_of (ch_db ch) st' = guards_of (ch_db ch) st" using assms(6) by (simp add: guards_of_def)
  then show ?thesis unfolding balanced_def Let_def using assms by simp
qed

text \<open>A step that keeps actors and changes each scanner on its own.\<close>

lemma system_inv_update:
  assumes inv: "system_inv st"
    and same: "sy_actors st' = sy_actors st" "sy_next st' = sy_next st" "sy_shutting_down st' = sy_shutting_down st"
    and wait: "waits_ok st'" and guards: "guards_ok st'"
    and ch: "\<And>c. sy_children st' c = map_option (f c) (sy_children st c)"
    and f: "\<And>c ch. sy_children st c = Some ch \<Longrightarrow> ch_db (f c ch) = ch_db ch \<and> ch_stopping (f c ch) = ch_stopping ch"
    and ok: "\<And>c ch. sy_children st c = Some ch \<Longrightarrow> child_ok st c ch \<Longrightarrow> child_ok st' c (f c ch)"
  shows "system_inv st'"
proof -
  have "actors_ok st'"
    unfolding actors_ok_def
  proof (intro allI impI)
    fix db c assume "sy_actors st' db = Some c"
    then obtain x where "sy_children st c = Some x" "ch_db x = db" "\<not> ch_stopping x"
      using actor_child [OF inv] same(1) by metis
    then show "\<exists>ch. sy_children st' c = Some ch \<and> ch_db ch = db \<and> \<not> ch_stopping ch" using f by (simp add: ch)
  qed
  moreover have "children_ok st'"
    unfolding children_ok_def
  proof (intro allI impI)
    fix c x assume "sy_children st' c = Some x"
    then obtain y where "sy_children st c = Some y" "x = f c y" by (auto simp: ch)
    then show "child_ok st' c x" using ok child_of [OF inv] by blast
  qed
  moreover have "names_unique st'"
    unfolding names_unique_def
  proof (intro allI impI)
    fix c x c' x' assume a: "sy_children st' c = Some x" "sy_children st' c' = Some x'" "ch_db x = ch_db x'"
    then obtain y y' where "sy_children st c = Some y" "x = f c y" "sy_children st c' = Some y'" "x' = f c' y'" by (auto simp: ch)
    with a(3) f have "sy_children st c = Some y" "sy_children st c' = Some y'" "ch_db y = ch_db y'" by metis+
    then show "c = c'" using inv unfolding system_inv_def names_unique_def by blast
  qed
  moreover have "down_ok st'" using inv same by (simp add: system_inv_def down_ok_def)
  ultimately show ?thesis using wait guards by (simp add: system_inv_def)
qed

lemma map_self: "m c = map_option (\<lambda>x. x) (m c)"
  by (simp add: option.map_ident)

lemma set_child_map: "sy_children (set_child c f st) c' = map_option (if c' = c then f else (\<lambda>x. x)) (sy_children st c')"
  by (simp add: option.map_ident)

lemma cast_neutral:
  assumes inv: "system_inv st" and "neutral msg"
  shows "system_inv (cast c msg st)"
proof (rule system_inv_update [OF inv])
  let ?f = "\<lambda>c'. if c' = c then (\<lambda>ch. ch\<lparr>ch_mailbox := ch_mailbox ch @ [msg]\<rparr>) else (\<lambda>ch. ch)"
  have n: "msg \<noteq> Pause" "msg \<noteq> Resume" using assms(2) by auto
  show "sy_children (cast c msg st) c' = map_option (?f c') (sy_children st c')" for c'
    unfolding cast_def by (rule set_child_map)
  show "child_ok (cast c msg st) c' (?f c' ch)" if "child_ok st c' ch" for c' ch
  proof -
    have "balanced (cast c msg st) c' (?f c' ch) = balanced st c' ch"
      by (rule balanced_cong) (use n in \<open>auto simp: cast_def resumes_of_def\<close>)
    then show ?thesis using that n by (auto simp: child_ok_def cast_def awaits_pause_def)
  qed
qed (use inv in \<open>auto simp: cast_def system_inv_def waits_ok_def guards_ok_def\<close>)

text \<open>Taking a message that no scanner waits for out of the mailbox.\<close>

lemma pop_inv:
  assumes inv: "system_inv st" and inbox: "sy_inbox st = m # rest" and m: "\<And>db. m = ResumeAfterJob db \<Longrightarrow> sy_actors st db = None"
  shows "system_inv (st\<lparr>sy_inbox := rest\<rparr>)"
proof (rule system_inv_update [OF inv])
  let ?st = "st\<lparr>sy_inbox := rest\<rparr>"
  show "sy_children ?st c = map_option (\<lambda>ch. ch) (sy_children st c)" for c by (simp add: option.map_ident)
  show "child_ok ?st c ch" if "child_ok st c ch" for c ch
  proof -
    have "balanced ?st c ch = balanced st c ch" if "sy_actors st (ch_db ch) = Some c"
    proof (rule balanced_cong)
      have "m \<noteq> ResumeAfterJob (ch_db ch)" using m that by auto
      then show "count_list (ch_mailbox ch) Resume + resumes_of (ch_db ch) ?st = count_list (ch_mailbox ch) Resume + resumes_of (ch_db ch) st"
        by (simp add: resumes_of_def inbox)
    qed simp_all
    then show ?thesis using that by (simp add: child_ok_def awaits_pause_def)
  qed
qed (use inv in \<open>auto simp: system_inv_def waits_ok_def guards_ok_def\<close>)

text \<open>Changes to fields the invariant does not mention.\<close>

lemma plain_inv:
  assumes inv: "system_inv st" and "sy_actors st' = sy_actors st" "sy_next st' = sy_next st" "sy_shutting_down st' = sy_shutting_down st"
    "sy_waiting st' = sy_waiting st" "sy_guards st' = sy_guards st" "sy_children st' = sy_children st"
    "\<And>db. resumes_of db st' = resumes_of db st"
  shows "system_inv st'"
proof (rule system_inv_update [OF inv assms(2-4)])
  show "sy_children st' c = map_option (\<lambda>ch. ch) (sy_children st c)" for c by (simp add: option.map_ident assms)
  show "child_ok st' c ch" if "child_ok st c ch" for c ch
  proof -
    have "balanced st' c ch = balanced st c ch" by (rule balanced_cong) (simp_all add: assms)
    then show ?thesis using that assms by (simp add: child_ok_def awaits_pause_def)
  qed
qed (use inv assms in \<open>auto simp: system_inv_def waits_ok_def guards_ok_def\<close>)

lemma reply_inv: "system_inv st \<Longrightarrow> system_inv (reply r st)"
  by (rule plain_inv) (simp_all add: reply_def resumes_of_def)

lemma stop_actor_inv:
  assumes inv: "system_inv st" and idle: "sy_waiting st = None"
  shows "system_inv (stop_actor db st)"
proof (cases "sy_actors st db")
  case None
  then show ?thesis using inv by (simp add: stop_actor_def)
next
  case (Some c)
  obtain ch where ch: "sy_children st c = Some ch" "ch_db ch = db" using actor_child [OF inv Some] by metis
  let ?st = "stop_actor db st"
  have st: "?st = set_child c (\<lambda>ch. ch\<lparr>ch_stopping := True\<rparr>) (st\<lparr>sy_actors := (sy_actors st)(db := None)\<rparr>)"
    by (simp add: stop_actor_def Some)
  have other: "sy_actors st db' \<noteq> Some c" if "db' \<noteq> db" for db'
    using that ch actor_child [OF inv, of db' c] by auto
  have bal: "balanced ?st c' x = balanced st c' x" for c' x by (rule balanced_cong) (simp_all add: st resumes_of_def)
  have "actors_ok ?st" using inv other unfolding system_inv_def actors_ok_def st by auto
  moreover have "children_ok ?st"
    unfolding children_ok_def
  proof (intro allI impI)
    fix c' x assume x: "sy_children ?st c' = Some x"
    show "child_ok ?st c' x"
    proof (cases "c' = c")
      case True
      then have "x = ch\<lparr>ch_stopping := True\<rparr>" using x ch by (simp add: st)
      then show ?thesis using True child_of [OF inv ch(1)] by (simp add: child_ok_def st)
    next
      case False
      then have y: "sy_children st c' = Some x" using x by (simp add: st)
      have "ch_db x \<noteq> db"
        using inv ch y False unfolding system_inv_def names_unique_def by metis
      then show ?thesis using child_of [OF inv y] unfolding child_ok_def bal by (simp add: st awaits_pause_def)
    qed
  qed
  moreover have "names_unique ?st"
    using inv unfolding system_inv_def names_unique_def st by (auto split: if_splits)
  ultimately show ?thesis using inv idle by (auto simp: system_inv_def waits_ok_def down_ok_def guards_ok_def st)
qed

lemma stop_unwanted_inv:
  assumes inv: "system_inv st" and idle: "sy_waiting st = None"
  shows "system_inv (stop_unwanted names st)"
proof -
  let ?st = "stop_unwanted names st"
  let ?f = "\<lambda>c ch. if sy_actors st (ch_db ch) = Some c \<and> ch_db ch \<notin> set names then ch\<lparr>ch_stopping := True\<rparr> else ch"
  have ch: "sy_children ?st c = map_option (?f c) (sy_children st c)" for c by (simp add: stop_unwanted_def)
  have act: "sy_actors ?st db = (if db \<in> set names then sy_actors st db else None)" for db by (simp add: stop_unwanted_def)
  have bal: "balanced ?st c x = balanced st c x" for c x by (rule balanced_cong) (simp_all add: stop_unwanted_def resumes_of_def)
  have w: "awaits_pause ?st c = awaits_pause st c" "sy_next ?st = sy_next st" for c by (simp_all add: stop_unwanted_def awaits_pause_def)
  have "actors_ok ?st"
    unfolding actors_ok_def
  proof (intro allI impI)
    fix db c assume "sy_actors ?st db = Some c"
    then have a: "db \<in> set names" "sy_actors st db = Some c" by (auto simp: act split: if_splits)
    then obtain x where "sy_children st c = Some x" "ch_db x = db" "\<not> ch_stopping x" using actor_child [OF inv a(2)] by metis
    then show "\<exists>ch. sy_children ?st c = Some ch \<and> ch_db ch = db \<and> \<not> ch_stopping ch" using a(1) by (simp add: ch)
  qed
  moreover have "children_ok ?st"
    unfolding children_ok_def
  proof (intro allI impI)
    fix c x assume "sy_children ?st c = Some x"
    then obtain y where y: "sy_children st c = Some y" "x = ?f c y" by (auto simp: ch)
    show "child_ok ?st c x" using child_of [OF inv y(1)] y(2)
      by (auto simp: child_ok_def bal act w)
  qed
  moreover have "names_unique ?st"
    unfolding names_unique_def
  proof (intro allI impI)
    fix c x c' x' assume a: "sy_children ?st c = Some x" "sy_children ?st c' = Some x'" "ch_db x = ch_db x'"
    then obtain y y' where y: "sy_children st c = Some y" "x = ?f c y" "sy_children st c' = Some y'" "x' = ?f c' y'" by (auto simp: ch)
    then have "ch_db y = ch_db y'" using a(3) by (simp split: if_splits)
    then show "c = c'" using inv y(1,3) unfolding system_inv_def names_unique_def by blast
  qed
  ultimately show ?thesis
    using inv idle by (auto simp: system_inv_def waits_ok_def down_ok_def guards_ok_def stop_unwanted_def)
qed

lemma not_taken: "\<not> name_taken db st \<Longrightarrow> sy_children st c = Some ch \<Longrightarrow> c < sy_next st \<Longrightarrow> ch_db ch \<noteq> db"
  by (auto simp: name_taken_def list_ex_iff dest!: bspec [where x = c])

lemma launch_inv:
  assumes inv: "system_inv st" and idle: "sy_waiting st = None" and up: "\<not> sy_shutting_down st"
    and l: "launch an db config st = Some st'"
  shows "system_inv st'"
proof (cases "sy_actors st db")
  case (Some c)
  then have "st' = cast c (UpdateConfig config) st" using l by (simp add: launch_def)
  then show ?thesis using cast_neutral [OF inv] by simp
next
  case None
  then obtain s :: "'a scan_state" where free: "\<not> name_taken db st" and s: "scan_pre_start an True = Some s"
    using l by (auto simp: launch_def split: if_splits option.splits)
  let ?n = "sy_next st"
  let ?new = "\<lparr>ch_db = db, ch_state = s, ch_mailbox = [UpdateConfig config], ch_stopping = False,
     ch_late = guards_of db st + resumes_of db st, ch_leaked = 0\<rparr>"
  have st': "st' = st\<lparr>sy_children := (sy_children st)(?n \<mapsto> ?new), sy_actors := (sy_actors st)(db \<mapsto> ?n), sy_next := ?n + 1\<rparr>"
    using l free s None by (simp add: launch_def)
  have old: "c < ?n" if "sy_children st c = Some x" for c x using child_of [OF inv that] by (simp add: child_ok_def)
  have names: "ch_db x \<noteq> db" if "sy_children st c = Some x" for c x by (rule not_taken [OF free that old [OF that]])
  have bal: "balanced st' c x = balanced st c x" for c x by (rule balanced_cong) (simp_all add: st' resumes_of_def)
  have fresh: "(db, Some ?n) \<notin> set (sy_guards st)" using inv unfolding system_inv_def guards_ok_def by blast
  have pauses: "sc_job_pauses s = 0" using pre_start_pauses [OF s] .
  have "actors_ok st'"
    unfolding actors_ok_def
  proof (intro allI impI)
    fix db' c assume a: "sy_actors st' db' = Some c"
    show "\<exists>ch. sy_children st' c = Some ch \<and> ch_db ch = db' \<and> \<not> ch_stopping ch"
    proof (cases "db' = db")
      case True
      then show ?thesis using a by (simp add: st')
    next
      case False
      then obtain x where x: "sy_children st c = Some x" "ch_db x = db'" "\<not> ch_stopping x"
        using a actor_child [OF inv, of db' c] by (auto simp: st')
      then show ?thesis using old [OF x(1)] by (simp add: st')
    qed
  qed
  moreover have "children_ok st'"
    unfolding children_ok_def
  proof (intro allI impI)
    fix c x assume x: "sy_children st' c = Some x"
    show "child_ok st' c x"
    proof (cases "c = ?n")
      case True
      then have eq: "x = ?new" using x by (simp add: st')
      have "balanced st ?n ?new"
        using fresh pauses by (simp add: balanced_def count_list_0_iff)
      moreover have "scan_reachable s" by (rule scan_reachable.started [OF s])
      ultimately show ?thesis using True idle unfolding child_ok_def bal eq by (simp add: st' awaits_pause_def)
    next
      case False
      then have y: "sy_children st c = Some x" using x by (simp add: st')
      show ?thesis using child_of [OF inv y] names [OF y] unfolding child_ok_def bal by (auto simp: st' awaits_pause_def)
    qed
  qed
  moreover have "names_unique st'"
    unfolding names_unique_def
  proof (intro allI impI)
    fix c x c' x' assume a: "sy_children st' c = Some x" "sy_children st' c' = Some x'" "ch_db x = ch_db x'"
    show "c = c'"
    proof (cases "c = ?n \<or> c' = ?n")
      case True
      then show ?thesis using a names [of c x] names [of c' x'] by (auto simp: st' split: if_splits)
    next
      case False
      then have "sy_children st c = Some x" "sy_children st c' = Some x'" using a by (simp_all add: st')
      then show ?thesis using a(3) inv unfolding system_inv_def names_unique_def by blast
    qed
  qed
  ultimately show ?thesis
    using inv idle up unfolding system_inv_def waits_ok_def down_ok_def guards_ok_def by (auto simp: st' less_Suc_eq)
qed

text \<open>Launching keeps the fields that are not about scanners.\<close>

lemma launch_fields:
  assumes "launch an db config st = Some st'"
  shows "sy_waiting st' = sy_waiting st" "sy_shutting_down st' = sy_shutting_down st" "sy_inbox st' = sy_inbox st"
    "sy_guards st' = sy_guards st" "sy_scheduled st' = sy_scheduled st" "sy_resyncs st' = sy_resyncs st"
    "sy_resync_pending st' = sy_resync_pending st" "sy_delayed st' = sy_delayed st"
  using assms by (auto simp: launch_def cast_def split: option.splits if_splits)

lemma launch_all_inv:
  "system_inv st \<Longrightarrow> sy_waiting st = None \<Longrightarrow> \<not> sy_shutting_down st \<Longrightarrow> system_inv (launch_all an ds st)"
proof (induction an ds st rule: launch_all.induct)
  case (2 an db config rest st)
  then show ?case using launch_inv launch_fields by (fastforce split: option.split)
qed simp

lemma stop_fields [simp]:
  "sy_waiting (stop_unwanted names st) = sy_waiting st" "sy_shutting_down (stop_unwanted names st) = sy_shutting_down st"
  "sy_scheduled (stop_unwanted names st) = sy_scheduled st" "sy_resyncs (stop_unwanted names st) = sy_resyncs st"
  "sy_resync_pending (stop_unwanted names st) = sy_resync_pending st" "sy_delayed (stop_unwanted names st) = sy_delayed st"
  by (simp_all add: stop_unwanted_def)

lemma resync_inv:
  "system_inv st \<Longrightarrow> sy_waiting st = None \<Longrightarrow> \<not> sy_shutting_down st \<Longrightarrow> system_inv (resync_from_disk an st)"
  by (simp add: resync_from_disk_def launch_all_inv stop_unwanted_inv split: option.split)

lemma sync_inv:
  "system_inv st \<Longrightarrow> sy_waiting st = None \<Longrightarrow> \<not> sy_shutting_down st \<Longrightarrow> system_inv (sync_single_db an db st)"
  using launch_inv by (auto simp: sync_single_db_def stop_actor_inv split: option.split)

section \<open>Every step keeps the invariant\<close>

lemma grant_none_inv:
  assumes inv: "system_inv st" and none: "sy_actors st db = None"
  shows "system_inv (grant db None alive st)"
proof (cases alive)
  case False
  then show ?thesis using inv by (simp add: grant_def)
next
  case True
  let ?st = "st\<lparr>sy_guards := sy_guards st @ [(db, None)]\<rparr>"
  have "system_inv ?st"
  proof (rule system_inv_update [OF inv])
    show "sy_children ?st c = map_option (\<lambda>ch. ch) (sy_children st c)" for c by (simp add: option.map_ident)
    show "child_ok ?st c ch" if "child_ok st c ch" for c ch
    proof -
      have "balanced ?st c ch = balanced st c ch" if "ch_db ch \<noteq> db"
        using that by (simp add: balanced_def guards_of_def resumes_of_def)
      then show ?thesis using \<open>child_ok st c ch\<close> none by (cases "ch_db ch = db") (auto simp: child_ok_def awaits_pause_def)
    qed
  qed (use inv in \<open>auto simp: system_inv_def waits_ok_def guards_ok_def\<close>)
  then show ?thesis using True by (simp add: grant_def)
qed

lemma resume_cast_inv:
  assumes inv: "system_inv st" and inbox: "sy_inbox st = ResumeAfterJob db # rest" and actor: "sy_actors st db = Some c"
  shows "system_inv (cast c Resume (st\<lparr>sy_inbox := rest\<rparr>))"
proof (rule system_inv_update [OF inv])
  let ?st = "cast c Resume (st\<lparr>sy_inbox := rest\<rparr>)"
  let ?f = "\<lambda>c'. if c' = c then (\<lambda>ch. ch\<lparr>ch_mailbox := ch_mailbox ch @ [Resume]\<rparr>) else (\<lambda>ch. ch)"
  show "sy_children ?st c' = map_option (?f c') (sy_children st c')" for c'
    by (simp add: cast_def option.map_ident)
  show "child_ok ?st c' (?f c' ch)" if ch: "sy_children st c' = Some ch" and ok: "child_ok st c' ch" for c' ch
  proof -
    have "balanced ?st c' (?f c' ch) = balanced st c' ch" if "sy_actors st (ch_db ch) = Some c'"
    proof (rule balanced_cong)
      have "c' = c \<longleftrightarrow> ch_db ch = db" using that actor actor_child [OF inv actor] ch by (metis option.inject)
      then show "count_list (ch_mailbox (?f c' ch)) Resume + resumes_of (ch_db ch) ?st =
          count_list (ch_mailbox ch) Resume + resumes_of (ch_db ch) st"
        by (auto simp: resumes_of_def inbox cast_def)
    qed (simp_all add: cast_def)
    then show ?thesis using ok by (auto simp: child_ok_def cast_def awaits_pause_def)
  qed
qed (use inv in \<open>auto simp: cast_def system_inv_def waits_ok_def guards_ok_def\<close>)

lemma pause_cast_inv:
  assumes inv: "system_inv st" and idle: "sy_waiting st = None" and actor: "sy_actors st db = Some c"
  shows "system_inv ((cast c Pause st)\<lparr>sy_waiting := Some (c, AwaitPause db alive)\<rparr>)"
proof (rule system_inv_update [OF inv])
  let ?st = "(cast c Pause st)\<lparr>sy_waiting := Some (c, AwaitPause db alive)\<rparr>"
  let ?f = "\<lambda>c'. if c' = c then (\<lambda>ch. ch\<lparr>ch_mailbox := ch_mailbox ch @ [Pause]\<rparr>) else (\<lambda>ch. ch)"
  show "sy_children ?st c' = map_option (?f c') (sy_children st c')" for c'
    by (simp add: cast_def option.map_ident)
  show "child_ok ?st c' (?f c' ch)" if "child_ok st c' ch" for c' ch
  proof -
    have "balanced ?st c' (?f c' ch) = balanced st c' ch"
      by (rule balanced_cong) (auto simp: cast_def resumes_of_def)
    then show ?thesis using that idle by (auto simp: child_ok_def cast_def awaits_pause_def)
  qed
qed (use inv actor in \<open>auto simp: cast_def system_inv_def waits_ok_def guards_ok_def\<close>)

lemma await_status_inv:
  assumes inv: "system_inv st" and idle: "sy_waiting st = None"
  shows "system_inv (st\<lparr>sy_waiting := Some (c, AwaitStatus db)\<rparr>)"
proof (rule system_inv_update [OF inv])
  let ?st = "st\<lparr>sy_waiting := Some (c, AwaitStatus db)\<rparr>"
  show "sy_children ?st c = map_option (\<lambda>ch. ch) (sy_children st c)" for c by (simp add: option.map_ident)
  show "child_ok ?st c ch" if "child_ok st c ch" for c ch
  proof -
    have "balanced ?st c ch = balanced st c ch" by (rule balanced_cong) (simp_all add: resumes_of_def)
    then show ?thesis using that idle by (simp add: child_ok_def awaits_pause_def)
  qed
qed (use inv in \<open>auto simp: system_inv_def waits_ok_def guards_ok_def\<close>)

lemma supervise_inv:
  assumes inv: "system_inv st" and idle: "sy_waiting st = None" and inbox: "sy_inbox st = m # rest"
  shows "system_inv (supervise an m (st\<lparr>sy_inbox := rest\<rparr>))"
proof -
  let ?st = "st\<lparr>sy_inbox := rest\<rparr>"
  have pop: "system_inv ?st" if "\<And>db. m = ResumeAfterJob db \<Longrightarrow> sy_actors st db = None"
    by (rule pop_inv [OF inv inbox that])
  show ?thesis
  proof (cases "sy_shutting_down st")
    case True
    then have none: "sy_actors st db = None" for db using inv by (simp add: system_inv_def down_ok_def)
    then have p: "system_inv ?st" by (intro pop)
    have "system_inv (handle_shutting_down m ?st)"
      using p grant_none_inv [OF p] none by (cases m) (simp_all add: reply_inv)
    then show ?thesis using True by (simp add: supervise_def)
  next
    case up: False
    have "system_inv (handle_running an m ?st)"
    proof (cases m)
      case ResyncFromDisk
      have "system_inv (?st\<lparr>sy_resync_pending := False, sy_resyncs := sy_resyncs ?st + 1\<rparr>)"
        by (rule plain_inv [OF pop]) (use ResyncFromDisk in \<open>simp_all add: resumes_of_def\<close>)
      then show ?thesis using ResyncFromDisk idle up by (simp add: resync_inv)
    next
      case (ConfigChanged db)
      then show ?thesis using sync_inv [OF pop] idle up by simp
    next
      case (PauseForJob db alive)
      then have p: "system_inv ?st" by (intro pop) simp
      show ?thesis using PauseForJob idle pause_cast_inv [OF p] grant_none_inv [OF p]
        by (cases "sy_actors st db") simp_all
    next
      case (ResumeAfterJob db)
      show ?thesis
      proof (cases "sy_actors st db")
        case None
        then show ?thesis using ResumeAfterJob sync_inv [OF pop] idle up by simp
      next
        case (Some c)
        then show ?thesis using ResumeAfterJob resume_cast_inv [OF inv _ Some] inbox by simp
      qed
    next
      case (SupervisorStatus db)
      then have p: "system_inv ?st" by (intro pop) simp
      show ?thesis
      proof (cases "sy_actors st db")
        case None
        then show ?thesis using SupervisorStatus p by (simp add: reply_inv)
      next
        case (Some c)
        have "system_inv (cast c GetStatus ?st)" by (rule cast_neutral [OF p]) simp
        then show ?thesis using SupervisorStatus Some idle by (simp add: cast_def await_status_inv)
      qed
    next
      case Shutdown
      then have p: "system_inv ?st" by (intro pop) simp
      let ?u = "stop_unwanted [] ?st"
      have u: "system_inv ?u" by (rule stop_unwanted_inv [OF p]) (simp add: idle)
      let ?d = "?u\<lparr>sy_shutting_down := True, sy_watcher := False\<rparr>"
      have e: "stop_unwanted [] (?st\<lparr>sy_shutting_down := True, sy_watcher := False\<rparr>) = ?d" by (simp add: stop_unwanted_def)
      have "child_ok ?d c ch = child_ok ?u c ch" for c ch
        by (simp add: child_ok_def awaits_pause_def balanced_def guards_of_def resumes_of_def)
      then have "system_inv ?d" using u
        by (auto simp: system_inv_def actors_ok_def children_ok_def names_unique_def waits_ok_def down_ok_def guards_ok_def
            stop_unwanted_def)
      then show ?thesis unfolding Shutdown handle_running.simps e by (rule reply_inv)
    qed
    then show ?thesis using up by (simp add: supervise_def)
  qed
qed

lemma no_plain_count: "neutral msg \<Longrightarrow> pauses_after msg n = n"
  by (cases msg) simp_all

text \<open>The state after a scanner handled a message, before it answers.\<close>

lemma scanned_inv:
  assumes inv: "system_inv st" and ch: "sy_children st c = Some ch" and live: "\<not> ch_stopping ch"
    and mailbox: "ch_mailbox ch = msg # rest" and s: "s = scan_handle an msg (ch_state ch)"
  shows "system_inv (answer c msg s (st\<lparr>sy_children := (sy_children st)(c \<mapsto> ch\<lparr>ch_state := s, ch_mailbox := rest\<rparr>)\<rparr>))"
proof -
  let ?ch = "ch\<lparr>ch_state := s, ch_mailbox := rest\<rparr>"
  let ?st = "st\<lparr>sy_children := (sy_children st)(c \<mapsto> ?ch)\<rparr>"
  let ?f = "\<lambda>c'. if c' = c then (\<lambda>_. ?ch) else (\<lambda>x. x)"
  have map: "sy_children ?st c' = map_option (?f c') (sy_children st c')" for c' by (simp add: ch option.map_ident)
  note ok = child_of [OF inv ch]
  have reach: "scan_reachable s" using ok unfolding child_ok_def s by (blast intro: scan_reachable.handled)
  have pauses: "sc_job_pauses s = pauses_after msg (sc_job_pauses (ch_state ch))" unfolding s by (rule job_pauses_step)
  have actor: "sy_actors st (ch_db ch) = Some c" and bal: "balanced st c ch"
    and awaited: "count_list (ch_mailbox ch) Pause = (if awaits_pause st c then 1 else 0)"
    using ok live by (simp_all add: child_ok_def)
  have others: "child_ok st' c' x"
    if "child_ok st c' x" "c' \<noteq> c" "ch_db x \<noteq> ch_db ch"
      "sy_actors st' = sy_actors st" "sy_next st' = sy_next st" "awaits_pause st' c' = awaits_pause st c'"
      "resumes_of (ch_db x) st' = resumes_of (ch_db x) st" "guards_of (ch_db x) st' = guards_of (ch_db x) st"
      "count_list (sy_guards st') (ch_db x, Some c') = count_list (sy_guards st) (ch_db x, Some c')" for st' c' x
    using that by (simp add: child_ok_def balanced_def)
  have apart: "ch_db x \<noteq> ch_db ch" if "sy_children st c' = Some x" "c' \<noteq> c" for c' x
    using that ch inv unfolding system_inv_def names_unique_def by blast
  consider (pause) "msg = Pause" | (resume) "msg = Resume" | (neutral) "neutral msg" by (cases msg) simp_all
  then show ?thesis
  proof cases
    case pause
    then have "awaits_pause st c" using awaited mailbox by (simp split: if_splits)
    then obtain db alive where w: "sy_waiting st = Some (c, AwaitPause db alive)" by (auto simp: awaits_pause_def)
    then have "sy_actors st db = Some c" using inv by (simp add: system_inv_def waits_ok_def)
    then have db: "db = ch_db ch" using actor_child [OF inv] ch by (metis option.inject)
    have none: "count_list rest Pause = 0" using awaited mailbox pause by (simp split: if_splits)
    let ?w = "?st\<lparr>sy_waiting := None\<rparr>"
    have ans: "answer c msg s ?st = grant db (Some c) alive ?w" by (simp add: answer_def pause w)
    have c_lt: "c < sy_next st" using ok by (simp add: child_ok_def)
    show ?thesis
    proof (cases alive)
      case True
      let ?g = "?w\<lparr>sy_guards := sy_guards st @ [(db, Some c)]\<rparr>"
      have b: "balanced ?g c ?ch"
        using bal by (simp add: balanced_def Let_def mailbox pause pauses resumes_of_def guards_of_def db)
      have "system_inv ?g"
      proof (rule system_inv_update [OF inv])
        show "sy_children ?g c' = map_option (?f c') (sy_children st c')" for c' using map [of c'] by simp
        show "child_ok ?g c' (?f c' x)" if x: "sy_children st c' = Some x" "child_ok st c' x" for c' x
        proof (cases "c' = c")
          case True
          then show ?thesis using ok reach none b by (simp add: child_ok_def awaits_pause_def)
        next
          case False
          then show ?thesis using apart [OF x(1) False] w
            by simp (rule others [OF x(2) False], simp_all add: awaits_pause_def resumes_of_def guards_of_def db)
        qed
      qed (use inv c_lt in \<open>auto simp: system_inv_def waits_ok_def guards_ok_def ch live\<close>)
      then show ?thesis using True by (simp add: ans grant_def)
    next
      case False
      let ?l = "?w\<lparr>sy_children := (sy_children st)(c \<mapsto> ?ch\<lparr>ch_leaked := ch_leaked ch + 1\<rparr>)\<rparr>"
      have b: "balanced ?l c (?ch\<lparr>ch_leaked := ch_leaked ch + 1\<rparr>)"
        using bal by (simp add: balanced_def Let_def mailbox pause pauses resumes_of_def guards_of_def)
      let ?fl = "\<lambda>c'. if c' = c then (\<lambda>_. ?ch\<lparr>ch_leaked := ch_leaked ch + 1\<rparr>) else (\<lambda>x. x)"
      have "system_inv ?l"
      proof (rule system_inv_update [OF inv])
        show "sy_children ?l c' = map_option (?fl c') (sy_children st c')" for c' by (simp add: ch option.map_ident)
        show "child_ok ?l c' (?fl c' x)" if x: "sy_children st c' = Some x" "child_ok st c' x" for c' x
        proof (cases "c' = c")
          case True
          then show ?thesis using ok reach none b by (simp add: child_ok_def awaits_pause_def)
        next
          case False
          then show ?thesis using apart [OF x(1) False] w
            by simp (rule others [OF x(2) False], simp_all add: awaits_pause_def resumes_of_def guards_of_def)
        qed
      qed (use inv in \<open>auto simp: system_inv_def waits_ok_def guards_ok_def ch live\<close>)
      then show ?thesis using False by (simp add: ans grant_def set_child_def)
    qed
  next
    case resume
    have "balanced ?st c ?ch"
      using bal by (cases "sc_job_pauses (ch_state ch)")
        (simp_all add: balanced_def Let_def mailbox resume pauses resumes_of_def guards_of_def)
    have "system_inv ?st"
    proof (rule system_inv_update [OF inv])
      show "sy_children ?st c' = map_option (?f c') (sy_children st c')" for c' by (rule map)
      show "child_ok ?st c' (?f c' x)" if x: "sy_children st c' = Some x" "child_ok st c' x" for c' x
      proof (cases "c' = c")
        case True
        then show ?thesis using ok reach mailbox resume \<open>balanced ?st c ?ch\<close>
          by (simp add: child_ok_def awaits_pause_def)
      next
        case False
        then show ?thesis using apart [OF x(1) False]
          by simp (rule others [OF x(2) False], simp_all add: awaits_pause_def resumes_of_def guards_of_def)
      qed
    qed (use inv in \<open>auto simp: system_inv_def waits_ok_def guards_ok_def ch live\<close>)
    then show ?thesis by (simp add: answer_def resume)
  next
    case neutral
    then have n: "msg \<noteq> Pause" "msg \<noteq> Resume" by auto
    have "balanced ?st c ?ch"
      using bal no_plain_count [OF neutral] n by (simp add: balanced_def Let_def mailbox pauses resumes_of_def guards_of_def)
    have i: "system_inv ?st"
    proof (rule system_inv_update [OF inv])
      show "sy_children ?st c' = map_option (?f c') (sy_children st c')" for c' by (rule map)
      show "child_ok ?st c' (?f c' x)" if x: "sy_children st c' = Some x" "child_ok st c' x" for c' x
      proof (cases "c' = c")
        case True
        then show ?thesis using ok reach mailbox n \<open>balanced ?st c ?ch\<close>
          by (simp add: child_ok_def awaits_pause_def)
      next
        case False
        then show ?thesis using apart [OF x(1) False]
          by simp (rule others [OF x(2) False], simp_all add: awaits_pause_def resumes_of_def guards_of_def)
      qed
    qed (use inv in \<open>auto simp: system_inv_def waits_ok_def guards_ok_def ch live\<close>)
    show ?thesis
    proof (cases "\<exists>db. msg = GetStatus \<and> sy_waiting st = Some (c, AwaitStatus db)")
      case False
      then have "answer c msg s ?st = ?st"
        using n by (auto simp: answer_def split: scan_message.split option.split awaited.split)
      then show ?thesis using i by simp
    next
      case True
      then obtain db where w: "msg = GetStatus" "sy_waiting st = Some (c, AwaitStatus db)" by blast
      let ?w = "?st\<lparr>sy_waiting := None\<rparr>"
      have "system_inv ?w"
      proof (rule system_inv_update [OF i])
        show "sy_children ?w c' = map_option (\<lambda>x. x) (sy_children ?st c')" for c' by (simp add: option.map_ident)
        show "child_ok ?w c' x" if "child_ok ?st c' x" for c' x
        proof -
          have "balanced ?w c' x = balanced ?st c' x" by (rule balanced_cong) (simp_all add: resumes_of_def)
          then show ?thesis using that w by (simp add: child_ok_def awaits_pause_def)
        qed
      qed (use i in \<open>auto simp: system_inv_def waits_ok_def guards_ok_def\<close>)
      then show ?thesis using w by (simp add: answer_def reply_inv)
    qed
  qed
qed

lemma guard_dropped_inv:
  assumes inv: "system_inv st" and g: "sy_guards st = xs @ (db, paused) # ys"
  shows "system_inv (send (ResumeAfterJob db) (st\<lparr>sy_guards := xs @ ys\<rparr>))"
proof (rule system_inv_update [OF inv])
  let ?st = "send (ResumeAfterJob db) (st\<lparr>sy_guards := xs @ ys\<rparr>)"
  show "sy_children ?st c = map_option (\<lambda>x. x) (sy_children st c)" for c by (simp add: send_def option.map_ident)
  show "child_ok ?st c ch" if "child_ok st c ch" for c ch
  proof -
    have "balanced ?st c ch" if "balanced st c ch"
      using that by (cases "ch_db ch = db"; cases "paused = Some c")
        (simp_all add: balanced_def Let_def send_def guards_of_def resumes_of_def g)
    then show ?thesis using that by (simp add: child_ok_def awaits_pause_def send_def)
  qed
qed (use inv g in \<open>auto simp: send_def system_inv_def waits_ok_def guards_ok_def\<close>)

lemma send_plain: "(\<And>db. m \<noteq> ResumeAfterJob db) \<Longrightarrow> system_inv st \<Longrightarrow> system_inv (send m st)"
  by (rule plain_inv) (auto simp: send_def resumes_of_def)

lemma ended_inv:
  assumes inv: "system_inv st" and ch: "sy_children st c = Some ch" "ch_stopping ch"
  shows "system_inv (st\<lparr>sy_children := (sy_children st)(c := None)\<rparr>)"
proof -
  let ?st = "st\<lparr>sy_children := (sy_children st)(c := None)\<rparr>"
  have "child_ok ?st c' x = child_ok st c' x" for c' x
    by (simp add: child_ok_def awaits_pause_def balanced_def guards_of_def resumes_of_def)
  moreover have "actors_ok ?st"
    unfolding actors_ok_def
  proof (intro allI impI)
    fix db c' assume "sy_actors ?st db = Some c'"
    then obtain x where x: "sy_children st c' = Some x" "ch_db x = db" "\<not> ch_stopping x" using actor_child [OF inv, of db c'] by auto
    then have "c' \<noteq> c" using ch by auto
    then show "\<exists>ch. sy_children ?st c' = Some ch \<and> ch_db ch = db \<and> \<not> ch_stopping ch" using x by simp
  qed
  moreover have "names_unique ?st" using inv unfolding system_inv_def names_unique_def by simp
  ultimately show ?thesis
    using inv by (simp add: system_inv_def children_ok_def waits_ok_def down_ok_def guards_ok_def)
qed

lemma aborted_waiting_inv:
  assumes inv: "system_inv st" and w: "sy_waiting st = Some (c, AwaitPause db True)"
  shows "system_inv (st\<lparr>sy_waiting := Some (c, AwaitPause db False)\<rparr>)"
proof (rule system_inv_update [OF inv])
  let ?st = "st\<lparr>sy_waiting := Some (c, AwaitPause db False)\<rparr>"
  show "sy_children ?st c = map_option (\<lambda>x. x) (sy_children st c)" for c by (simp add: option.map_ident)
  show "child_ok ?st c' x" if "child_ok st c' x" for c' x
  proof -
    have "balanced ?st c' x = balanced st c' x" by (rule balanced_cong) (simp_all add: resumes_of_def)
    moreover have "awaits_pause ?st c' = awaits_pause st c'" using w by (auto simp: awaits_pause_def)
    ultimately show ?thesis using that by (simp add: child_ok_def)
  qed
qed (use inv w in \<open>auto simp: system_inv_def waits_ok_def guards_ok_def\<close>)

lemma own_neutral: "own_message msg \<Longrightarrow> neutral msg"
  by (cases msg) simp_all

lemma step_inv: "system_step st st' \<Longrightarrow> system_inv st \<Longrightarrow> system_inv st'"
proof (induction rule: system_step.induct)
  case (supervised st m rest an)
  then show ?case by (intro supervise_inv)
next
  case (scanned st c ch msg rest s an)
  then show ?case by (intro scanned_inv)
next
  case (ended st c ch)
  then show ?case by (intro ended_inv)
next
  case (received msg st c)
  then show ?case by (intro cast_neutral own_neutral)
next
  case (observed st e)
  show ?case by (rule plain_inv [OF observed])
    (simp_all add: watcher_event_def schedule_supervisor_resync_def resumes_of_def)
next
  case (debounced st n)
  have "system_inv (st\<lparr>sy_delayed := n\<rparr>)" by (rule plain_inv [OF debounced(2)]) (simp_all add: resumes_of_def)
  then show ?case by (intro send_plain) simp_all
next
  case (job_aborted_queued st xs db ys)
  show ?case by (rule plain_inv [OF job_aborted_queued(2)]) (simp_all add: resumes_of_def job_aborted_queued(1))
next
  case (job_aborted_waiting st c db)
  then show ?case by (intro aborted_waiting_inv)
next
  case (guard_dropped st xs db paused ys)
  then show ?case by (intro guard_dropped_inv)
qed (rule send_plain, simp_all)+

lemma start_inv: "system_inv (start_supervisor an watcher)"
  unfolding start_supervisor_def
  by (rule resync_inv) (simp_all add: system_inv_def actors_ok_def children_ok_def names_unique_def waits_ok_def down_ok_def guards_ok_def)

lemma system_reachable_inv: "system_reachable st \<Longrightarrow> system_inv st"
  by (induction rule: system_reachable.induct) (blast intro: start_inv step_inv)+

end
