(* ===== verification/ScanSupervisorProps.thy ===== *)
theory ScanSupervisorProps
  imports ScanSupervisorInv
begin

text \<open>
  What the supervisor guarantees: a job's guard keeps its scanner out of the way, the scanner
  comes back when the guards are gone, no database is scanned twice, the actors follow the
  disk, and the watcher cannot flood the mailbox.  Two runs show where the guard falls short.
\<close>

section \<open>Guards\<close>

text \<open>
  C15.  A guard excludes the scanner: in every interleaving of jobs, configuration changes,
  resyncs and events, a database on which more guards live than jobs were under way when its
  scanner was spawned has a paused scanner, which watches nothing, has no open scan record and
  changes nothing on any file message.
\<close>

theorem guard_excludes_scanner:
  assumes "system_reachable st" and "sy_actors st db = Some c" and "sy_children st c = Some ch"
    and "ch_late ch < guards_of db st"
  shows "sc_paused (ch_state ch) \<and> \<not> sc_watcher (ch_state ch) \<and> sc_poller (ch_state ch) = None \<and>
    sc_scan_id (ch_state ch) = None \<and>
    (\<forall>an msg. file_message msg \<longrightarrow> scan_handle an msg (ch_state ch) = ch_state ch)"
proof -
  have inv: "system_inv st" by (rule system_reachable_inv [OF assms(1)])
  obtain x where x: "sy_children st c = Some x" "ch_db x = db" "\<not> ch_stopping x" "child_ok st c x"
    using actor_child [OF inv assms(2)] by metis
  then have ch: "x = ch" using assms(3) by simp
  then have "balanced st c ch" and reach: "scan_reachable (ch_state ch)" using x by (simp_all add: child_ok_def)
  then have p: "sc_job_pauses (ch_state ch) > 0" using assms(4) x(2) ch by (simp add: balanced_def Let_def)
  have i: "scan_inv (ch_state ch)" by (rule scan_reachable_inv [OF reach])
  then have "sc_paused (ch_state ch)" "\<not> sc_watcher (ch_state ch)" "sc_poller (ch_state ch) = None" "sc_scan_id (ch_state ch) = None"
    using p by (simp_all add: scan_inv_def ctl_ok_def)
  then show ?thesis using paused_inert by blast
qed

text \<open>
  C34.  The scanner comes back: when no guard lives on a database, no resume is on its way and
  no job was lost while it waited for its pause, no job pauses the scanner.
\<close>

theorem scanner_comes_back:
  assumes "system_reachable st" and "sy_actors st db = Some c" and "sy_children st c = Some ch"
    and "guards_of db st = 0" and "resumes_of db st = 0" and "Resume \<notin> set (ch_mailbox ch)" and "ch_leaked ch = 0"
  shows "sc_job_pauses (ch_state ch) = 0"
proof -
  have inv: "system_inv st" by (rule system_reachable_inv [OF assms(1)])
  obtain x where x: "sy_children st c = Some x" "ch_db x = db" "\<not> ch_stopping x" "child_ok st c x"
    using actor_child [OF inv assms(2)] by metis
  then have ch: "x = ch" using assms(3) by simp
  have "(db, Some c) \<notin> set (sy_guards st)" using assms(4) by (force simp: guards_of_def filter_empty_conv)
  then have "count_list (sy_guards st) (db, Some c) = 0" "count_list (ch_mailbox ch) Resume = 0"
    using assms(6) by (simp_all add: count_list_0_iff)
  then show ?thesis using x assms(5,7) ch by (simp add: child_ok_def balanced_def Let_def)
qed

section \<open>Scanners and databases\<close>

text \<open>
  C31.  No database has two scanners: in every reachable state two scanners that have not ended
  belong to different databases, the actors are exactly those not told to stop, and after the
  shutdown was handled every scanner was told to stop and none starts again.
\<close>

theorem one_scanner_per_database:
  assumes "system_reachable st"
  shows "(\<forall>c ch c' ch'. sy_children st c = Some ch \<and> sy_children st c' = Some ch' \<and> c \<noteq> c' \<longrightarrow> ch_db ch \<noteq> ch_db ch') \<and>
    (\<forall>db c. sy_actors st db = Some c \<longleftrightarrow> (\<exists>ch. sy_children st c = Some ch \<and> ch_db ch = db \<and> \<not> ch_stopping ch)) \<and>
    (sy_shutting_down st \<longrightarrow>
      (\<forall>c ch. sy_children st c = Some ch \<longrightarrow> ch_stopping ch) \<and>
      (\<forall>st'. system_step st st' \<longrightarrow> sy_shutting_down st' \<and> (\<forall>c. sy_children st c = None \<longrightarrow> sy_children st' c = None)))"
proof -
  have inv: "system_inv st" by (rule system_reachable_inv [OF assms])
  have actors: "sy_actors st db = Some c \<longleftrightarrow> (\<exists>ch. sy_children st c = Some ch \<and> ch_db ch = db \<and> \<not> ch_stopping ch)" for db c
    using actor_child [OF inv, of db c] child_of [OF inv, of c] by (metis child_ok_def)
  have down: "\<forall>c ch. sy_children st c = Some ch \<longrightarrow> ch_stopping ch" if "sy_shutting_down st"
    using that inv actors by (auto simp: system_inv_def down_ok_def)
  have stays: "sy_shutting_down st' \<and> (\<forall>c. sy_children st c = None \<longrightarrow> sy_children st' c = None)"
    if "system_step st st'" "sy_shutting_down st" for st'
    using that
  proof (induction rule: system_step.induct)
    case (supervised st m rest an)
    then show ?case by (cases m) (auto simp: supervise_def reply_def grant_def)
  next
    case (scanned st c ch msg rest s an)
    then show ?case
      by (auto simp: answer_def grant_def reply_def split: scan_message.split option.split awaited.split)
  qed (simp_all add: cast_def watcher_event_def schedule_supervisor_resync_def send_def)
  show ?thesis using inv actors down stays unfolding system_inv_def names_unique_def by blast
qed

lemma launch_actors:
  assumes "launch an d config st = Some st'"
  shows "sy_actors st db = Some c \<Longrightarrow> sy_actors st' db = Some c"
    and "sy_actors st' db \<noteq> None \<Longrightarrow> sy_actors st db \<noteq> None \<or> db = d"
    and "sy_actors st' d \<noteq> None"
  using assms by (auto simp: launch_def cast_def split: option.splits if_splits)

lemma launch_all_actors:
  "sy_actors st db = Some c \<Longrightarrow> sy_actors (launch_all an ds st) db = Some c"
proof (induction an ds st rule: launch_all.induct)
  case (2 an d config rest st)
  show ?case
  proof (cases "launch (sa_spawn an d) d config st")
    case None
    then show ?thesis using "2.prems" by simp
  next
    case (Some st1)
    then show ?thesis using "2.IH" launch_actors(1) [OF Some "2.prems"] by simp
  qed
qed simp

lemma launch_all_names:
  "sy_actors (launch_all an ds st) db \<noteq> None \<Longrightarrow> sy_actors st db \<noteq> None \<or> db \<in> fst ` set ds"
proof (induction an ds st rule: launch_all.induct)
  case (2 an d config rest st)
  show ?case
  proof (cases "launch (sa_spawn an d) d config st")
    case None
    then show ?thesis using "2.prems" by simp
  next
    case (Some st1)
    then have "sy_actors st1 db \<noteq> None \<or> db \<in> fst ` set rest" using "2.IH" "2.prems" by simp
    then show ?thesis using launch_actors(2) [OF Some, of db] by auto
  qed
qed simp

text \<open>
  The actors follow the disk: after a resync that could list the index directory, only
  databases that are on disk, readable and enabled have a scanner; one that had a scanner keeps
  it; every other scanner was told to stop; and no scanner of another database is touched.
\<close>

theorem resync_follows_disk:
  assumes "system_reachable st" and "sy_waiting st = None" and "\<not> sy_shutting_down st"
    and "sy_inbox st = ResyncFromDisk # rest" and "desired_dbs an = Some ds"
  defines "st' \<equiv> supervise an ResyncFromDisk (st\<lparr>sy_inbox := rest\<rparr>)"
  shows "(\<forall>db. sy_actors st' db \<noteq> None \<longrightarrow> db \<in> fst ` set ds) \<and>
    (\<forall>db \<in> fst ` set ds. \<forall>c. sy_actors st db = Some c \<longrightarrow> sy_actors st' db = Some c) \<and>
    (\<forall>c ch. sy_children st' c = Some ch \<and> ch_db ch \<notin> fst ` set ds \<longrightarrow> ch_stopping ch)"
proof -
  let ?s = "stop_unwanted (map fst ds) (st\<lparr>sy_inbox := rest, sy_resync_pending := False, sy_resyncs := sy_resyncs st + 1\<rparr>)"
  have st': "st' = launch_all an ds ?s" using assms(3,5) by (simp add: st'_def supervise_def resync_from_disk_def)
  have names: "db \<in> fst ` set ds" if "sy_actors st' db \<noteq> None" for db
    using launch_all_names [of an ds ?s db] that by (auto simp: st' stop_unwanted_def split: if_splits)
  have keep: "sy_actors st' db = Some c" if "db \<in> fst ` set ds" "sy_actors st db = Some c" for db c
    unfolding st' by (rule launch_all_actors) (use that in \<open>simp add: stop_unwanted_def\<close>)
  have "system_reachable st'"
    unfolding st'_def by (rule system_reachable.stepped [OF assms(1) system_step.supervised [OF assms(2,4)]])
  then have inv: "system_inv st'" by (rule system_reachable_inv)
  have "ch_stopping ch" if "sy_children st' c = Some ch" "ch_db ch \<notin> fst ` set ds" for c ch
  proof (rule ccontr)
    assume "\<not> ch_stopping ch"
    then have "sy_actors st' (ch_db ch) = Some c" using child_of [OF inv that(1)] by (simp add: child_ok_def)
    then show False using names that(2) by simp
  qed
  then show ?thesis using names keep by blast
qed

section \<open>The watcher\<close>

lemma launch_all_counts:
  "sy_scheduled (launch_all an ds st) = sy_scheduled st \<and> sy_resyncs (launch_all an ds st) = sy_resyncs st \<and>
   sy_resync_pending (launch_all an ds st) = sy_resync_pending st"
proof (induction an ds st rule: launch_all.induct)
  case (2 an d config rest st)
  then show ?case by (auto dest: launch_fields split: option.split)
qed simp

lemma sync_counts [simp]:
  "sy_scheduled (sync_single_db an db st) = sy_scheduled st" "sy_resyncs (sync_single_db an db st) = sy_resyncs st"
  "sy_resync_pending (sync_single_db an db st) = sy_resync_pending st"
  by (auto simp: sync_single_db_def stop_actor_def dest: launch_fields split: option.split)

lemma small_counts [simp]:
  "sy_scheduled (grant db c a st) = sy_scheduled st" "sy_resyncs (grant db c a st) = sy_resyncs st"
  "sy_resync_pending (grant db c a st) = sy_resync_pending st"
  "sy_scheduled (reply r st) = sy_scheduled st" "sy_resyncs (reply r st) = sy_resyncs st"
  "sy_resync_pending (reply r st) = sy_resync_pending st"
  "sy_scheduled (cast k m st) = sy_scheduled st" "sy_resyncs (cast k m st) = sy_resyncs st"
  "sy_resync_pending (cast k m st) = sy_resync_pending st"
  "sy_scheduled (send x st) = sy_scheduled st" "sy_resyncs (send x st) = sy_resyncs st"
  "sy_resync_pending (send x st) = sy_resync_pending st"
  by (simp_all add: grant_def reply_def cast_def send_def split: option.split)

lemma answer_counts [simp]:
  "sy_scheduled (answer c m s st) = sy_scheduled st" "sy_resyncs (answer c m s st) = sy_resyncs st"
  "sy_resync_pending (answer c m s st) = sy_resync_pending st"
  by (auto simp: answer_def split: scan_message.split option.split awaited.split)

definition gate_ok :: "'b scan_system \<Rightarrow> bool" where
  "gate_ok st \<longleftrightarrow> sy_scheduled st \<le> sy_resyncs st + (if sy_resync_pending st then 1 else 0)"

lemma gate_supervise: "gate_ok st \<Longrightarrow> gate_ok (supervise an m (st\<lparr>sy_inbox := rest\<rparr>))"
  by (cases m)
    (auto simp: gate_ok_def supervise_def resync_from_disk_def launch_all_counts split: option.split if_splits)

lemma gate_step: "system_step st st' \<Longrightarrow> gate_ok st \<Longrightarrow> gate_ok st'"
proof (induction rule: system_step.induct)
  case (supervised st m rest an)
  then show ?case by (intro gate_supervise)
qed (auto simp: gate_ok_def watcher_event_def schedule_supervisor_resync_def split: if_splits)

text \<open>
  The watcher cannot flood the mailbox: in every run the resyncs it scheduled exceed those
  handled by at most one, and an event that only reads, or touches nothing but database files,
  schedules none.
\<close>

theorem watcher_resyncs_bounded:
  assumes "system_reachable st"
  shows "sy_scheduled st \<le> sy_resyncs st + 1 \<and>
    (\<forall>e. ne_kind e = AccessEvent \<or> ne_paths e \<noteq> [] \<and> (\<forall>p \<in> set (ne_paths e). is_sqlite_db_file p) \<longrightarrow> watcher_event e st = st)"
proof -
  have "gate_ok st"
    using assms
  proof induction
    case (started an watcher)
    then show ?case
      by (simp add: gate_ok_def start_supervisor_def resync_from_disk_def launch_all_counts split: option.split)
  next
    case (stepped st st')
    then show ?case using gate_step by blast
  qed
  then show ?thesis by (auto simp: gate_ok_def watcher_event_def event_is_relevant_def list_ex_iff split: if_splits)
qed

section \<open>Runs\<close>

definition home_disk :: supervisor_answers where
  "home_disk = \<lparr>sa_is_dir = True,
     sa_entries = Some [Some \<lparr>de_name = ''db'', de_is_dir = True, de_has_index = True, de_config = Some home_config\<rparr>],
     sa_load = (\<lambda>_. Some home_config), sa_has_index = (\<lambda>_. True), sa_spawn = (\<lambda>_. home_answers True)\<rparr>"

definition home_child :: "nat \<Rightarrow> nat child" where
  "home_child late = \<lparr>ch_db = ''db'', ch_state = home, ch_mailbox = [UpdateConfig home_config], ch_stopping = False,
     ch_late = late, ch_leaked = 0\<rparr>"

definition home_system :: "nat scan_system" where
  "home_system = \<lparr>sy_actors = [''db'' \<mapsto> 0], sy_children = [0 \<mapsto> home_child 0], sy_next = 1, sy_inbox = [], sy_watcher = True,
     sy_resync_pending = False, sy_delayed = 0, sy_shutting_down = False, sy_waiting = None, sy_guards = [], sy_replies = [],
     sy_scheduled = 0, sy_resyncs = 0\<rparr>"

lemma home_system_reachable: "system_reachable home_system"
proof -
  have d: "desired_dbs home_disk = Some [(''db'', home_config)]"
    by (simp add: desired_dbs_def home_disk_def home_config_def map_filter_def)
  have "start_supervisor home_disk True = home_system"
    unfolding start_supervisor_def resync_from_disk_def d
    by (simp add: launch_def stop_unwanted_def name_taken_def home_system_def home_child_def home_disk_def home_started
        guards_of_def resumes_of_def fun_eq_iff)
  then show ?thesis by (metis system_reachable.started)
qed

text \<open>One message of the scanner of \<open>home_system\<close> and of its successors.\<close>

lemma child_step:
  assumes "system_reachable st" and "sy_children st c = Some ch" and "\<not> ch_stopping ch" and "ch_mailbox ch = msg # rest"
  shows "system_reachable (answer c msg (scan_handle an msg (ch_state ch))
    (st\<lparr>sy_children := (sy_children st)(c \<mapsto> ch\<lparr>ch_state := scan_handle an msg (ch_state ch), ch_mailbox := rest\<rparr>)\<rparr>))"
  by (rule system_reachable.stepped [OF assms(1) system_step.scanned [OF assms(2-4) refl]])

lemma supervisor_step:
  assumes "system_reachable st" and "sy_waiting st = None" and "sy_inbox st = m # rest"
  shows "system_reachable (supervise an m (st\<lparr>sy_inbox := rest\<rparr>))"
  by (rule system_reachable.stepped [OF assms(1) system_step.supervised [OF assms(2,3)]])

text \<open>
  A job that is aborted while it waits for its pause leaves the scanner paused: no guard lives,
  no message is on its way, and the scanner counts one pause that nothing gives back.
\<close>

lemma aborted_job_leaks_pause:
  "\<exists>st ch. system_reachable (st :: nat scan_system) \<and> sy_actors st ''db'' = Some 0 \<and> sy_children st 0 = Some ch \<and>
    sy_inbox st = [] \<and> sy_waiting st = None \<and> sy_guards st = [] \<and> sy_delayed st = 0 \<and> ch_mailbox ch = [] \<and>
    sc_job_pauses (ch_state ch) = 1"
proof -
  let ?u = "UpdateConfig home_config" and ?an = "home_answers True"
  define s1 where "s1 = home_system\<lparr>sy_inbox := [PauseForJob ''db'' True]\<rparr>"
  define s2 where "s2 = home_system\<lparr>sy_inbox := [PauseForJob ''db'' False]\<rparr>"
  define s3 where "s3 = home_system\<lparr>sy_children := [0 \<mapsto> (home_child 0)\<lparr>ch_mailbox := [?u, Pause]\<rparr>],
    sy_waiting := Some (0, AwaitPause ''db'' False)\<rparr>"
  define h where "h = scan_handle ?an ?u home"
  define s4 where "s4 = s3\<lparr>sy_children := [0 \<mapsto> (home_child 0)\<lparr>ch_state := h, ch_mailbox := [Pause]\<rparr>]\<rparr>"
  define p where "p = scan_handle ?an Pause h"
  define s5 where "s5 = s3\<lparr>sy_waiting := None, sy_children := [0 \<mapsto> (home_child 0)\<lparr>ch_state := p, ch_mailbox := [], ch_leaked := 1\<rparr>]\<rparr>"
  have "system_reachable s1"
    using system_reachable.stepped [OF home_system_reachable system_step.job_asks [of home_system "''db''"]]
    by (simp add: send_def s1_def home_system_def)
  then have "system_reachable s2"
    using system_reachable.stepped [OF _ system_step.job_aborted_queued [of s1 "[]" "''db''" "[]"]]
    by (simp add: s1_def s2_def)
  then have "system_reachable s3"
    using supervisor_step [of s2 "PauseForJob ''db'' False" "[]" home_disk]
    by (simp add: s2_def s3_def supervise_def cast_def set_child_def home_system_def home_child_def)
  then have "system_reachable s4"
    using child_step [of s3 0 "(home_child 0)\<lparr>ch_mailbox := [?u, Pause]\<rparr>" ?u "[Pause]" ?an]
    by (simp add: s3_def s4_def h_def answer_def home_child_def)
  then have "system_reachable s5"
    using child_step [of s4 0 "(home_child 0)\<lparr>ch_state := h, ch_mailbox := [Pause]\<rparr>" Pause "[]" ?an]
    by (simp add: s3_def s4_def s5_def p_def answer_def grant_def set_child_def home_child_def)
  moreover have "sc_job_pauses p = 1" unfolding p_def h_def job_pauses_step by (simp add: home_fields)
  ultimately show ?thesis
    by (intro exI [of _ s5] exI [of _ "(home_child 0)\<lparr>ch_state := p, ch_mailbox := [], ch_leaked := 1\<rparr>"])
      (simp add: s5_def s3_def home_system_def home_child_def)
qed

text \<open>
  A job that starts while its database has no scanner is not noticed by a scanner that is
  spawned later: the guard lives and the scanner runs.
\<close>

definition empty_system :: "nat scan_system" where
  "empty_system = home_system\<lparr>sy_actors := (\<lambda>_. None), sy_children := (\<lambda>_. None), sy_next := 0\<rparr>"

lemma empty_system_reachable: "system_reachable empty_system"
proof -
  have "start_supervisor (home_disk\<lparr>sa_is_dir := False\<rparr>) True = empty_system"
    by (simp add: start_supervisor_def resync_from_disk_def desired_dbs_def stop_unwanted_def empty_system_def home_system_def)
  then show ?thesis by (metis system_reachable.started)
qed

lemma late_scanner_ignores_job:
  "\<exists>st ch. system_reachable (st :: nat scan_system) \<and> sy_actors st ''db'' = Some 0 \<and> sy_children st 0 = Some ch \<and>
    guards_of ''db'' st = 1 \<and> \<not> sc_paused (ch_state ch) \<and> sc_watcher (ch_state ch)"
proof -
  define s1 where "s1 = empty_system\<lparr>sy_inbox := [PauseForJob ''db'' True]\<rparr>"
  define s2 where "s2 = empty_system\<lparr>sy_guards := [(''db'', None)]\<rparr>"
  define s3 where "s3 = empty_system\<lparr>sy_guards := [(''db'', None)], sy_inbox := [ConfigChanged ''db'']\<rparr>"
  define s4 where "s4 = empty_system\<lparr>sy_guards := [(''db'', None)], sy_actors := [''db'' \<mapsto> 0],
    sy_children := [0 \<mapsto> home_child 1], sy_next := 1\<rparr>"
  have "system_reachable s1"
    using system_reachable.stepped [OF empty_system_reachable system_step.job_asks [of empty_system "''db''"]]
    by (simp add: send_def s1_def empty_system_def home_system_def)
  then have "system_reachable s2"
    using supervisor_step [of s1 "PauseForJob ''db'' True" "[]" home_disk]
    by (simp add: s1_def s2_def supervise_def grant_def empty_system_def home_system_def)
  then have "system_reachable s3"
    using system_reachable.stepped [OF _ system_step.config_changed [of s2 "''db''"]]
    by (simp add: s2_def s3_def send_def empty_system_def home_system_def)
  then have "system_reachable s4"
    using supervisor_step [of s3 "ConfigChanged ''db''" "[]" home_disk]
    by (simp add: s3_def s4_def supervise_def sync_single_db_def launch_def name_taken_def home_disk_def home_started
        home_child_def guards_of_def resumes_of_def empty_system_def home_system_def home_config_def)
  then show ?thesis
    by (intro exI [of _ s4] exI [of _ "home_child 1"])
      (simp add: s4_def guards_of_def home_child_def home_fields)
qed

text \<open>
  The resume at the end of such a job opens a second scan record and leaves the first open.
\<close>

fun opens :: "'b scan_effect \<Rightarrow> bool" where
  "opens (AddFileScan t) = True"
| "opens _ = False"

fun closes :: "'b scan_effect \<Rightarrow> bool" where
  "closes (UpdateFileScan i (Some t) s) = True"
| "closes _ = False"

lemma late_resume_opens_second_record:
  "let st = scan_handle (home_answers True) Resume home in
   sc_scan_id home = Some 7 \<and> filter opens (sc_log st) = filter opens (sc_log home) @ [AddFileScan ''now''] \<and>
   filter closes (sc_log st) = filter closes (sc_log home)"
proof -
  let ?an = "home_answers True"
  define r where "r = refreshed ?an (home\<lparr>sc_job_pauses := 0, sc_config := home_config\<rparr>)"
  have roots: "sc_roots_valid r" unfolding r_def by (simp add: home_roots)
  have e: "cf_enabled home_config" "an_load ?an = Some home_config" by (simp_all add: home_config_def home_answers_def)
  have st: "scan_handle ?an Resume home = start_watching ?an (start_scan ?an (bump_epoch (r\<lparr>sc_paused := False\<rparr>)))"
    using roots e by (simp add: handle_resume_def home_fields refresh_roots_pair r_def [symmetric]) (simp add: r_def)
  have log: "filter P (sc_log (start_watching ?an x)) = filter P (sc_log x)"
    if "\<And>n m. \<not> P (SendAfter n m)" for P x
    by (cases rule: start_watching_cases [of ?an x])
      (simp_all add: start_poller_def Let_def emit_def that split: option.split)
  have scan: "sc_log (start_scan ?an x) = sc_log x @ [HealBlocked, AddFileScan ''now'']" for x :: "nat scan_state"
    by (simp add: start_scan_def home_answers_def reset_stats_def emit_def Let_def)
  show ?thesis
    unfolding Let_def st by (simp add: log scan home_fields bump_epoch_def r_def)
qed

text \<open>
  Two resyncs of the watcher can wait at once: a resync of the interval opens the gate while
  one that the watcher scheduled is still delayed.
\<close>

lemma two_watcher_resyncs_wait:
  "\<exists>st. system_reachable (st :: nat scan_system) \<and> sy_delayed st = 2"
proof -
  let ?e = "\<lparr>ne_kind = ChangeEvent, ne_paths = []\<rparr>" and ?an = "home_disk\<lparr>sa_is_dir := False\<rparr>"
  define s1 where "s1 = empty_system\<lparr>sy_resync_pending := True, sy_delayed := 1, sy_scheduled := 1\<rparr>"
  define s2 where "s2 = s1\<lparr>sy_inbox := [ResyncFromDisk]\<rparr>"
  define s3 where "s3 = s1\<lparr>sy_resync_pending := False, sy_resyncs := 1\<rparr>"
  have "system_reachable s1"
    using system_reachable.stepped [OF empty_system_reachable system_step.observed [of empty_system ?e]]
    by (simp add: watcher_event_def event_is_relevant_def schedule_supervisor_resync_def s1_def empty_system_def home_system_def)
  then have "system_reachable s2"
    using system_reachable.stepped [OF _ system_step.interval [of s1]]
    by (simp add: s1_def s2_def send_def empty_system_def home_system_def)
  then have "system_reachable s3"
    using supervisor_step [of s2 ResyncFromDisk "[]" ?an]
    by (simp add: s1_def s2_def s3_def supervise_def resync_from_disk_def desired_dbs_def stop_unwanted_def
        empty_system_def home_system_def)
  then have "system_reachable (watcher_event ?e s3)"
    using system_reachable.stepped [OF _ system_step.observed [of s3 ?e]] by blast
  moreover have "sy_delayed (watcher_event ?e s3) = 2"
    by (simp add: watcher_event_def event_is_relevant_def schedule_supervisor_resync_def s1_def s3_def empty_system_def home_system_def)
  ultimately show ?thesis by blast
qed

section \<open>Witnesses\<close>

text \<open>A job holds its guard: it asked, and the scanner handled its pause.\<close>

definition held_child :: "nat child" where
  "held_child = (home_child 0)\<lparr>ch_state := scan_handle (home_answers True) Pause (scan_handle (home_answers True) (UpdateConfig home_config) home),
     ch_mailbox := []\<rparr>"

definition held_system :: "nat scan_system" where
  "held_system = home_system\<lparr>sy_children := [0 \<mapsto> held_child], sy_guards := [(''db'', Some 0)]\<rparr>"

lemma held_reachable: "system_reachable held_system"
proof -
  let ?u = "UpdateConfig home_config" and ?an = "home_answers True"
  define s1 where "s1 = home_system\<lparr>sy_inbox := [PauseForJob ''db'' True]\<rparr>"
  define s3 where "s3 = home_system\<lparr>sy_children := [0 \<mapsto> (home_child 0)\<lparr>ch_mailbox := [?u, Pause]\<rparr>],
    sy_waiting := Some (0, AwaitPause ''db'' True)\<rparr>"
  define h where "h = scan_handle ?an ?u home"
  define s4 where "s4 = s3\<lparr>sy_children := [0 \<mapsto> (home_child 0)\<lparr>ch_state := h, ch_mailbox := [Pause]\<rparr>]\<rparr>"
  have "system_reachable s1"
    using system_reachable.stepped [OF home_system_reachable system_step.job_asks [of home_system "''db''"]]
    by (simp add: send_def s1_def home_system_def)
  then have "system_reachable s3"
    using supervisor_step [of s1 "PauseForJob ''db'' True" "[]" home_disk]
    by (simp add: s1_def s3_def supervise_def cast_def set_child_def home_system_def home_child_def)
  then have "system_reachable s4"
    using child_step [of s3 0 "(home_child 0)\<lparr>ch_mailbox := [?u, Pause]\<rparr>" ?u "[Pause]" ?an]
    by (simp add: s3_def s4_def h_def answer_def home_child_def)
  then show ?thesis
    using child_step [of s4 0 "(home_child 0)\<lparr>ch_state := h, ch_mailbox := [Pause]\<rparr>" Pause "[]" ?an]
    by (simp add: s3_def s4_def h_def answer_def grant_def held_system_def held_child_def home_child_def home_system_def)
qed

lemma guard_excludes_scanner_witness: "sc_paused (ch_state held_child) \<and> sc_scan_id (ch_state held_child) = None"
proof -
  have "sy_actors held_system ''db'' = Some 0" "sy_children held_system 0 = Some held_child"
    "ch_late held_child < guards_of ''db'' held_system"
    by (simp_all add: held_system_def home_system_def held_child_def home_child_def guards_of_def)
  from guard_excludes_scanner [OF held_reachable this] show ?thesis by blast
qed

lemma scanner_comes_back_witness: "sc_job_pauses (ch_state (home_child 0)) = 0"
proof -
  have "sy_actors home_system ''db'' = Some 0" "sy_children home_system 0 = Some (home_child 0)" "guards_of ''db'' home_system = 0"
    "resumes_of ''db'' home_system = 0" "Resume \<notin> set (ch_mailbox (home_child 0))" "ch_leaked (home_child 0) = 0"
    by (simp_all add: home_system_def home_child_def guards_of_def resumes_of_def)
  then show ?thesis by (rule scanner_comes_back [OF home_system_reachable])
qed

lemma one_scanner_per_database_witness:
  "\<forall>c. sy_actors held_system ''db'' = Some c \<longleftrightarrow> (\<exists>ch. sy_children held_system c = Some ch \<and> ch_db ch = ''db'' \<and> \<not> ch_stopping ch)"
  using one_scanner_per_database [OF held_reachable] by blast

lemma resync_follows_disk_witness:
  "let st = supervise (home_disk\<lparr>sa_is_dir := False\<rparr>) ResyncFromDisk home_system in \<forall>db. sy_actors st db = None"
proof -
  let ?an = "home_disk\<lparr>sa_is_dir := False\<rparr>"
  have r: "system_reachable (send ResyncFromDisk home_system)"
    by (rule system_reachable.stepped [OF home_system_reachable system_step.interval])
  have f: "sy_waiting (send ResyncFromDisk home_system) = None" "\<not> sy_shutting_down (send ResyncFromDisk home_system)"
    "sy_inbox (send ResyncFromDisk home_system) = ResyncFromDisk # []" "desired_dbs ?an = Some []"
    by (simp_all add: send_def home_system_def desired_dbs_def)
  have "(send ResyncFromDisk home_system)\<lparr>sy_inbox := []\<rparr> = home_system" by (simp add: send_def home_system_def)
  with resync_follows_disk [OF r f] show ?thesis by (simp add: Let_def)
qed

lemma watcher_resyncs_bounded_witness:
  "watcher_event \<lparr>ne_kind = ChangeEvent, ne_paths = [components ''/data/index/db/index.db-wal'']\<rparr> held_system = held_system"
proof -
  have "is_sqlite_db_file (components ''/data/index/db/index.db-wal'')" by code_simp
  then show ?thesis using watcher_resyncs_bounded [OF held_reachable] by simp
qed

end
