(* ===== verification/InferencePool.thy ===== *)
theory InferencePool
  imports Prelude Complex_Main
begin

text \<open>
  The inference endpoints of batch jobs (\<open>panoptikon/src/jobs/inference_pool.rs\<close>): smooth
  weighted round robin, failover within one request, and loading a model on all of them.  A
  weight is a rational number: rounding of \<open>f64\<close> and infinite weights are not modelled.  A
  client is a function of the endpoint's index and of a state \<open>'w\<close> of the outside, and returns
  the state it leaves with an error or an answer.
\<close>

section \<open>Choosing an endpoint\<close>

record endpoint =
  weight :: rat
  current_weight :: rat

definition new_pool :: "rat list \<Rightarrow> endpoint list" where
  "new_pool ws = map (\<lambda>w. \<lparr>weight = w, current_weight = 0\<rparr>) ws"

definition is_empty_pool :: "endpoint list \<Rightarrow> bool" where
  "is_empty_pool eps = list_all (\<lambda>e. weight e \<le> 0) eps"

text \<open>The loop: the endpoints as it leaves them, the total, and the best index so far.\<close>

definition keep_best :: "(nat \<times> rat) option \<Rightarrow> nat \<Rightarrow> rat \<Rightarrow> (nat \<times> rat) option" where
  "keep_best best i w = (case best of
       Some (_, bw) \<Rightarrow> if w > bw then Some (i, w) else best
     | None \<Rightarrow> Some (i, w))"

fun select_loop :: "nat list \<Rightarrow> nat \<Rightarrow> endpoint list \<Rightarrow> rat \<Rightarrow> (nat \<times> rat) option \<Rightarrow>
    endpoint list \<times> rat \<times> (nat \<times> rat) option" where
  "select_loop exclude i [] tw best = ([], tw, best)"
| "select_loop exclude i (e # es) tw best =
     (if weight e \<le> 0 \<or> i \<in> set exclude
      then (case select_loop exclude (i + 1) es tw best of (es', r) \<Rightarrow> (e # es', r))
      else let e' = e\<lparr>current_weight := current_weight e + weight e\<rparr>;
               best' = keep_best best i (current_weight e')
           in case select_loop exclude (i + 1) es (tw + weight e) best' of (es', r) \<Rightarrow> (e' # es', r))"

definition select_client :: "nat list \<Rightarrow> endpoint list \<Rightarrow> endpoint list \<times> nat option" where
  "select_client exclude eps =
     (case select_loop exclude 0 eps 0 None of
        (eps', tw, None) \<Rightarrow> (eps', None)
      | (eps', tw, Some (i, _)) \<Rightarrow>
          (eps'[i := (eps' ! i)\<lparr>current_weight := current_weight (eps' ! i) - tw\<rparr>], Some i))"

section \<open>What the loop does\<close>

definition takes :: "nat list \<Rightarrow> nat \<Rightarrow> endpoint \<Rightarrow> bool" where
  "takes exclude i e \<longleftrightarrow> weight e > 0 \<and> i \<notin> set exclude"

definition raise_one :: "nat list \<Rightarrow> nat \<Rightarrow> endpoint \<Rightarrow> endpoint" where
  "raise_one exclude i e = (if takes exclude i e then e\<lparr>current_weight := current_weight e + weight e\<rparr> else e)"

definition eligible :: "nat list \<Rightarrow> endpoint list \<Rightarrow> nat \<Rightarrow> bool" where
  "eligible exclude eps i \<longleftrightarrow> i < length eps \<and> takes exclude i (eps ! i)"

definition eligible_weight :: "nat list \<Rightarrow> endpoint list \<Rightarrow> rat" where
  "eligible_weight exclude eps = (\<Sum>i < length eps. if takes exclude i (eps ! i) then weight (eps ! i) else 0)"

lemma weight_raise_one [simp]: "weight (raise_one exclude i e) = weight e"
  by (simp add: raise_one_def)

lemma select_loop_shape:
  assumes "select_loop exclude i es tw best = (es', t, b)"
  shows "length es' = length es \<and> (\<forall>j < length es. es' ! j = raise_one exclude (i + j) (es ! j)) \<and>
    t = tw + (\<Sum>j < length es. if takes exclude (i + j) (es ! j) then weight (es ! j) else 0)"
  using assms
proof (induction exclude i es tw best arbitrary: es' t b rule: select_loop.induct)
  case (1 exclude i tw best)
  then show ?case by simp
next
  case (2 exclude i e es tw best)
  show ?case
  proof (cases "weight e \<le> 0 \<or> i \<in> set exclude")
    case True
    then obtain es1 where e: "select_loop exclude (i + 1) es tw best = (es1, t, b)" "es' = e # es1"
      using 2(3) by (auto split: prod.splits)
    have "\<not> takes exclude i e" using True by (auto simp: takes_def)
    with 2(1) [OF True e(1)] e(2) show ?thesis
      by (auto simp: raise_one_def All_less_Suc2 sum.lessThan_Suc_shift simp del: sum.lessThan_Suc cong: if_cong)
  next
    case False
    obtain es1 where e: "select_loop exclude (i + 1) es (tw + weight e) (keep_best best i (current_weight (e\<lparr>current_weight := current_weight e + weight e\<rparr>))) = (es1, t, b)"
      "es' = e\<lparr>current_weight := current_weight e + weight e\<rparr> # es1"
      using False 2(3) by (auto simp: Let_def split: prod.splits)
    have "takes exclude i e" using False by (auto simp: takes_def)
    with 2(2) [OF False refl refl e(1)] e(2) show ?thesis
      by (auto simp: raise_one_def All_less_Suc2 sum.lessThan_Suc_shift simp del: sum.lessThan_Suc cong: if_cong)
  qed
qed

text \<open>The best is at least every endpoint taken, and it is one of them or was given.\<close>

definition better :: "(nat \<times> rat) option \<Rightarrow> (nat \<times> rat) option \<Rightarrow> bool" where
  "better best b \<longleftrightarrow> (\<forall>k w. best = Some (k, w) \<longrightarrow> (\<exists>k' w'. b = Some (k', w') \<and> w \<le> w'))"

definition beats :: "(nat \<times> rat) option \<Rightarrow> rat \<Rightarrow> bool" where
  "beats b w \<longleftrightarrow> (\<exists>k w'. b = Some (k, w') \<and> w \<le> w')"

lemma better_trans: "better a b \<Longrightarrow> better b c \<Longrightarrow> better a c"
  unfolding better_def by (metis order_trans)

lemma beats_better: "beats b w \<Longrightarrow> better b c \<Longrightarrow> beats c w"
  unfolding beats_def better_def by (metis order_trans)

lemma select_loop_best:
  assumes "select_loop exclude i es tw best = (es', t, b)"
  shows "better best b \<and>
    (\<forall>j < length es. takes exclude (i + j) (es ! j) \<longrightarrow> beats b (current_weight (es' ! j))) \<and>
    (b = best \<or> (\<exists>j < length es. takes exclude (i + j) (es ! j) \<and> b = Some (i + j, current_weight (es' ! j))))"
  using assms
proof (induction exclude i es tw best arbitrary: es' t b rule: select_loop.induct)
  case (1 exclude i tw best)
  then show ?case by (auto simp: better_def)
next
  case (2 exclude i e es tw best)
  show ?case
  proof (cases "weight e \<le> 0 \<or> i \<in> set exclude")
    case True
    then obtain es1 where e: "select_loop exclude (i + 1) es tw best = (es1, t, b)" "es' = e # es1"
      using 2(3) by (auto split: prod.splits)
    have "\<not> takes exclude i e" using True by (auto simp: takes_def)
    with 2(1) [OF True e(1)] e(2) show ?thesis
      by (auto simp: All_less_Suc2 Ex_less_Suc2)
  next
    case False
    let ?w = "current_weight e + weight e"
    let ?best = "keep_best best i ?w"
    obtain es1 where e: "select_loop exclude (i + 1) es (tw + weight e) ?best = (es1, t, b)"
      "es' = e\<lparr>current_weight := ?w\<rparr> # es1"
      using False 2(3) by (auto simp: Let_def split: prod.splits)
    have took: "takes exclude i e" using False by (auto simp: takes_def)
    have ih: "better ?best b" "\<forall>j < length es. takes exclude (i + 1 + j) (es ! j) \<longrightarrow> beats b (current_weight (es1 ! j))"
      "b = ?best \<or> (\<exists>j < length es. takes exclude (i + 1 + j) (es ! j) \<and> b = Some (i + 1 + j, current_weight (es1 ! j)))"
      using 2(2) [OF False refl refl, of es1 t b] e(1) by simp_all
    have b0: "better best ?best" "beats ?best ?w" "?best = best \<or> ?best = Some (i, ?w)"
      by (auto simp: keep_best_def better_def beats_def split: option.splits)
    have "b = best \<or> (\<exists>j < length (e # es). takes exclude (i + j) ((e # es) ! j) \<and> b = Some (i + j, current_weight (es' ! j)))"
      using ih(3) b0(3) took e(2) by (auto simp: Ex_less_Suc2)
    moreover have "\<forall>j < length (e # es). takes exclude (i + j) ((e # es) ! j) \<longrightarrow> beats b (current_weight (es' ! j))"
      using ih(2) beats_better [OF b0(2) ih(1)] e(2) by (auto simp: All_less_Suc2)
    ultimately show ?thesis using better_trans [OF b0(1) ih(1)] by blast
  qed
qed

lemma select_client_None:
  assumes "select_client exclude eps = (eps', None)"
  shows "\<not> eligible exclude eps i"
proof -
  obtain tw where s: "select_loop exclude 0 eps 0 None = (eps', tw, None)"
    using assms by (auto simp: select_client_def split: prod.splits option.splits)
  show ?thesis using select_loop_best [OF s] by (auto simp: eligible_def beats_def)
qed

lemma select_client_Some:
  assumes "select_client exclude eps = (eps', Some i)"
  shows "eligible exclude eps i"
    "length eps' = length eps"
    "\<forall>j < length eps. eps' ! j = (let e = raise_one exclude j (eps ! j) in
       if j = i then e\<lparr>current_weight := current_weight e - eligible_weight exclude eps\<rparr> else e)"
    "\<forall>j. eligible exclude eps j \<longrightarrow>
       current_weight (raise_one exclude j (eps ! j)) \<le> current_weight (raise_one exclude i (eps ! i))"
proof -
  obtain es tw w where s: "select_loop exclude 0 eps 0 None = (es, tw, Some (i, w))"
    "eps' = es[i := (es ! i)\<lparr>current_weight := current_weight (es ! i) - tw\<rparr>]"
    using assms by (auto simp: select_client_def split: prod.splits option.splits)
  have sh: "length es = length eps" "\<forall>j < length eps. es ! j = raise_one exclude j (eps ! j)" "tw = eligible_weight exclude eps"
    using select_loop_shape [OF s(1)] by (simp_all add: eligible_weight_def)
  note best = select_loop_best [OF s(1), unfolded add_0]
  have b: "\<forall>j < length eps. takes exclude j (eps ! j) \<longrightarrow> beats (Some (i, w)) (current_weight (es ! j))"
    "\<exists>j < length eps. takes exclude j (eps ! j) \<and> Some (i, w) = Some (j, current_weight (es ! j))"
    using best by blast+
  show el: "eligible exclude eps i" using b(2) by (auto simp: eligible_def)
  show "length eps' = length eps" using s(2) sh(1) by simp
  show "\<forall>j < length eps. eps' ! j = (let e = raise_one exclude j (eps ! j) in
       if j = i then e\<lparr>current_weight := current_weight e - eligible_weight exclude eps\<rparr> else e)"
    using s(2) sh by (auto simp: Let_def nth_list_update)
  show "\<forall>j. eligible exclude eps j \<longrightarrow>
       current_weight (raise_one exclude j (eps ! j)) \<le> current_weight (raise_one exclude i (eps ! i))"
    using b sh el by (auto simp: eligible_def beats_def)
qed

lemma select_client_weights:
  assumes "select_client exclude eps = (eps', r)"
  shows "map weight eps' = map weight eps"
proof (cases r)
  case None
  then obtain tw where "select_loop exclude 0 eps 0 None = (eps', tw, None)"
    using assms by (auto simp: select_client_def split: prod.splits option.splits)
  from select_loop_shape [OF this] show ?thesis by (intro nth_equalityI) auto
next
  case (Some i)
  with assms have "select_client exclude eps = (eps', Some i)" by simp
  note s = select_client_Some [OF this]
  show ?thesis using s(2,3) by (intro nth_equalityI) (auto simp: Let_def)
qed

section \<open>Requests\<close>

datatype 'e pool_error =
    NoEndpoints
  | EndpointFailed 'e
  | LoadFailedEverywhere nat 'e

text \<open>
  A client call: the endpoint's index and the outside, to the outside and an error or an answer.
\<close>

type_synonym ('w, 'e, 'r) client_call = "nat \<Rightarrow> 'w \<Rightarrow> 'w \<times> ('e + 'r)"

lemma eligible_weights:
  assumes "map weight eps' = map weight eps"
  shows "eligible exclude eps' i \<longleftrightarrow> eligible exclude eps i"
proof -
  have "length eps' = length eps" using assms by (rule map_eq_imp_length_eq)
  moreover have "weight (eps' ! i) = weight (eps ! i)" if "i < length eps"
    using assms that calculation by (metis nth_map)
  ultimately show ?thesis by (auto simp: eligible_def takes_def)
qed

lemma eligible_tried:
  "eligible (tried @ [i]) eps j \<longleftrightarrow> eligible tried eps j \<and> j \<noteq> i"
  by (auto simp: eligible_def takes_def)

lemma finite_eligible: "finite {i. eligible tried eps i}"
  by (rule finite_subset [of _ "{..<length eps}"]) (auto simp: eligible_def)

lemma predict_decreases:
  assumes "(eps', Some i) = select_client tried eps"
  shows "card {j. eligible (tried @ [i]) eps' j} < card {j. eligible tried eps j}"
proof -
  have s: "select_client tried eps = (eps', Some i)" using assms by simp
  have "{j. eligible (tried @ [i]) eps' j} = {j. eligible tried eps j} - {i}"
    using eligible_weights [OF select_client_weights [OF s]] by (auto simp: eligible_tried)
  moreover have "i \<in> {j. eligible tried eps j}" using select_client_Some(1) [OF s] by simp
  ultimately show ?thesis using card_Diff1_less [OF finite_eligible] by metis
qed

function predict_loop :: "('w, 'e, 'r) client_call \<Rightarrow> nat list \<Rightarrow> 'e option \<Rightarrow> endpoint list \<Rightarrow> 'w \<Rightarrow>
    endpoint list \<times> 'w \<times> ('e pool_error + 'r)" where
  "predict_loop client tried last_err eps w =
     (case select_client tried eps of
        (eps', None) \<Rightarrow>
          (eps', w, Inl (case last_err of Some err \<Rightarrow> EndpointFailed err | None \<Rightarrow> NoEndpoints))
      | (eps', Some i) \<Rightarrow>
          (case client i w of
             (w', Inr out) \<Rightarrow> (eps', w', Inr out)
           | (w', Inl err) \<Rightarrow> predict_loop client (tried @ [i]) (Some err) eps' w'))"
  by pat_completeness auto
termination by (relation "measure (\<lambda>(client, tried, last_err, eps, w). card {i. eligible tried eps i})")
    (auto intro: predict_decreases)

declare predict_loop.simps [simp del]

definition pool_predict :: "('w, 'e, 'r) client_call \<Rightarrow> endpoint list \<Rightarrow> 'w \<Rightarrow>
    endpoint list \<times> 'w \<times> ('e pool_error + 'r)" where
  "pool_predict client eps w = predict_loop client [] None eps w"

text \<open>The endpoints a load or an unload addresses, in order.\<close>

definition enabled :: "endpoint list \<Rightarrow> nat list" where
  "enabled eps = map fst (filter (\<lambda>(i, e). weight e > 0) (enumerate 0 eps))"

fun load_each :: "('w, 'e, unit) client_call \<Rightarrow> nat list \<Rightarrow> nat \<Rightarrow> 'e option \<Rightarrow> 'w \<Rightarrow> 'w \<times> nat \<times> 'e option" where
  "load_each client [] failed last_err w = (w, failed, last_err)"
| "load_each client (i # is) failed last_err w =
     (case client i w of
        (w', Inr _) \<Rightarrow> load_each client is failed last_err w'
      | (w', Inl err) \<Rightarrow> load_each client is (failed + 1) (Some err) w')"

definition load_model_all :: "('w, 'e, unit) client_call \<Rightarrow> endpoint list \<Rightarrow> 'w \<Rightarrow> 'w \<times> ('e pool_error + unit)" where
  "load_model_all client eps w =
     (let clients = enabled eps in
      if clients = [] then (w, Inl NoEndpoints)
      else case load_each client clients 0 None w of
        (w', failed, last_err) \<Rightarrow>
          if failed = length clients
          then (w', Inl (case last_err of Some err \<Rightarrow> LoadFailedEverywhere (length clients) err | None \<Rightarrow> NoEndpoints))
          else (w', Inr ()))"

definition unload_model_all :: "('w, 'e, unit) client_call \<Rightarrow> endpoint list \<Rightarrow> 'w \<Rightarrow> 'w" where
  "unload_model_all client eps w = foldl (\<lambda>w i. fst (client i w)) w (enabled eps)"

text \<open>A run of requests, one after the other.\<close>

fun serve :: "('w, 'e, 'r) client_call \<Rightarrow> nat \<Rightarrow> endpoint list \<Rightarrow> 'w \<Rightarrow>
    endpoint list \<times> 'w \<times> ('e pool_error + 'r) list" where
  "serve client 0 eps w = (eps, w, [])"
| "serve client (Suc n) eps w =
     (case serve client n eps w of
        (eps', w', rs) \<Rightarrow> case pool_predict client eps' w' of (eps'', w'', r) \<Rightarrow> (eps'', w'', rs @ [r]))"

section \<open>Failover\<close>

text \<open>A client whose answers are fixed, and an outside that records who was asked.\<close>

definition fixed_client :: "(nat \<Rightarrow> 'e + 'r) \<Rightarrow> (nat list, 'e, 'r) client_call" where
  "fixed_client answer i asked = (asked @ [i], answer i)"

lemma predict_loop_fixed:
  assumes "predict_loop (fixed_client answer) tried last_err eps asked = (eps', asked', r)"
  shows "\<exists>new. asked' = asked @ new \<and> distinct new \<and> (\<forall>i \<in> set new. eligible tried eps i) \<and>
    map weight eps' = map weight eps \<and>
    (case r of
       Inr out \<Rightarrow> new \<noteq> [] \<and> answer (last new) = Inr out \<and> (\<forall>i \<in> set (butlast new). \<exists>e. answer i = Inl e)
     | Inl err \<Rightarrow> (\<forall>i. eligible tried eps i \<longrightarrow> i \<in> set new) \<and> (\<forall>i \<in> set new. \<exists>e. answer i = Inl e) \<and>
         (if new = [] then err = (case last_err of Some e \<Rightarrow> EndpointFailed e | None \<Rightarrow> NoEndpoints)
          else \<exists>e. answer (last new) = Inl e \<and> err = EndpointFailed e))"
  using assms
proof (induction "fixed_client answer" tried last_err eps asked arbitrary: eps' asked' r rule: predict_loop.induct)
  case (1 tried last_err eps asked)
  obtain eps1 c where s: "select_client tried eps = (eps1, c)" by fastforce
  show ?case
  proof (cases c)
    case None
    then show ?thesis using 1(2) s select_client_None [of tried eps eps1] select_client_weights [OF s]
      by (auto simp: predict_loop.simps [of _ tried] intro!: exI [of _ "[]"])
  next
    case (Some i)
    with s have s': "select_client tried eps = (eps1, Some i)" by simp
    note el = select_client_Some(1) [OF s'] and ws = select_client_weights [OF s']
    show ?thesis
    proof (cases "answer i")
      case (Inr out)
      then show ?thesis using 1(2) s' el ws
        by (auto simp: predict_loop.simps [of _ tried] fixed_client_def intro!: exI [of _ "[i]"])
    next
      case (Inl e)
      have rec: "predict_loop (fixed_client answer) (tried @ [i]) (Some e) eps1 (asked @ [i]) = (eps', asked', r)"
        using 1(2) s' Inl by (simp add: predict_loop.simps [of _ tried] fixed_client_def)
      obtain new where new: "asked' = (asked @ [i]) @ new" "distinct new" "\<forall>j \<in> set new. eligible (tried @ [i]) eps1 j"
        "map weight eps' = map weight eps1"
        "case r of
           Inr out \<Rightarrow> new \<noteq> [] \<and> answer (last new) = Inr out \<and> (\<forall>i \<in> set (butlast new). \<exists>e. answer i = Inl e)
         | Inl err \<Rightarrow> (\<forall>j. eligible (tried @ [i]) eps1 j \<longrightarrow> j \<in> set new) \<and> (\<forall>i \<in> set new. \<exists>e. answer i = Inl e) \<and>
             (if new = [] then err = (case Some e of Some e \<Rightarrow> EndpointFailed e | None \<Rightarrow> NoEndpoints)
              else \<exists>e. answer (last new) = Inl e \<and> err = EndpointFailed e)"
        using 1(1) [OF s'[symmetric] refl _ Inl rec] by (auto simp: fixed_client_def)
      have el1: "eligible (tried @ [i]) eps1 j \<longleftrightarrow> eligible tried eps j \<and> j \<noteq> i" for j
        by (simp add: eligible_tried eligible_weights [OF ws])
      have "distinct (i # new)" "\<forall>j \<in> set (i # new). eligible tried eps j" using new(2,3) el by (auto simp: el1)
      moreover have "map weight eps' = map weight eps" using new(4) ws by simp
      moreover have "case r of
           Inr out \<Rightarrow> i # new \<noteq> [] \<and> answer (last (i # new)) = Inr out \<and> (\<forall>j \<in> set (butlast (i # new)). \<exists>e. answer j = Inl e)
         | Inl err \<Rightarrow> (\<forall>j. eligible tried eps j \<longrightarrow> j \<in> set (i # new)) \<and> (\<forall>j \<in> set (i # new). \<exists>e. answer j = Inl e) \<and>
             (\<exists>e. answer (last (i # new)) = Inl e \<and> err = EndpointFailed e)"
        using new(5) Inl by (cases r; cases "new = []") (auto simp: el1)
      moreover have "asked' = asked @ (i # new)" using new(1) by simp
      ultimately show ?thesis by (intro exI [of _ "i # new"]) (cases r; simp)
    qed
  qed
qed

end
