(* ===== verification/InferencePoolProps.thy ===== *)
theory InferencePoolProps
  imports InferencePool
begin

text \<open>
  What the endpoint pool promises: requests are shared by weight, exactly over whole rounds; a
  request fails only when every enabled endpoint failed it; a load asks every enabled endpoint.
\<close>

section \<open>Sharing by weight\<close>

text \<open>
  After \<open>n\<close> requests, each answered by the first endpoint asked, \<open>cnt i\<close> of them by endpoint \<open>i\<close>.
\<close>

definition shared :: "rat list \<Rightarrow> nat \<Rightarrow> (nat \<Rightarrow> nat) \<Rightarrow> endpoint list \<Rightarrow> bool" where
  "shared ws n cnt eps \<longleftrightarrow>
     map weight eps = ws \<and>
     (\<forall>i < length ws. current_weight (eps ! i) = of_nat n * ws ! i - sum_list ws * of_nat (cnt i)) \<and>
     (\<forall>i < length ws. - sum_list ws < current_weight (eps ! i)) \<and>
     (\<Sum>i < length ws. cnt i) = n"

lemma sharedD:
  assumes "shared ws n cnt eps"
  shows "length eps = length ws" "i < length ws \<Longrightarrow> weight (eps ! i) = ws ! i"
    "i < length ws \<Longrightarrow> current_weight (eps ! i) = of_nat n * ws ! i - sum_list ws * of_nat (cnt i)"
    "i < length ws \<Longrightarrow> - sum_list ws < current_weight (eps ! i)"
    "(\<Sum>i < length ws. cnt i) = n"
  using assms by (auto simp: shared_def)

lemma of_nat_total: "sum_list (map of_nat v) = (of_nat (sum_list v) :: rat)"
  by (induction v) simp_all

lemma sum_list_nth: "sum_list (ws :: rat list) = (\<Sum>i < length ws. ws ! i)"
  by (simp add: sum_list_sum_nth atLeast0LessThan)

lemma shared_sum:
  assumes "shared ws n cnt eps"
  shows "(\<Sum>i < length ws. current_weight (eps ! i)) = 0"
proof -
  have "(\<Sum>i < length ws. current_weight (eps ! i)) =
      (\<Sum>i < length ws. of_nat n * ws ! i - sum_list ws * of_nat (cnt i))"
    using sharedD(3) [OF assms] by simp
  also have "\<dots> = of_nat n * sum_list ws - sum_list ws * of_nat (\<Sum>i < length ws. cnt i)"
    by (simp add: sum_subtractf sum_distrib_left sum_list_nth)
  also have "\<dots> = 0" using sharedD(5) [OF assms] by simp
  finally show ?thesis .
qed

lemma shared_unused:
  assumes "shared ws n cnt eps" "0 < sum_list ws" "i < length ws" "ws ! i = 0"
  shows "cnt i = 0"
  using sharedD(3,4) [OF assms(1,3)] assms(2,4) by simp

lemma shared_start: "0 < sum_list ws \<Longrightarrow> shared ws 0 (\<lambda>_. 0) (new_pool ws)"
  by (auto simp: shared_def new_pool_def comp_def)

lemma shared_pick:
  assumes inv: "shared ws n cnt eps" and ws: "\<forall>w \<in> set ws. 0 \<le> w" "0 < sum_list ws"
  shows "\<exists>eps' i. select_client [] eps = (eps', Some i) \<and> i < length ws \<and> shared ws (n + 1) (cnt(i := cnt i + 1)) eps'"
proof -
  note d = sharedD [OF inv]
  have nn: "0 \<le> ws ! i" if "i < length ws" for i using ws(1) that by simp
  have raised: "current_weight (raise_one [] i (eps ! i)) = current_weight (eps ! i) + ws ! i" if "i < length ws" for i
    using d(2) [OF that] nn [OF that] by (auto simp: raise_one_def takes_def)
  have W: "eligible_weight [] eps = sum_list ws"
    unfolding eligible_weight_def sum_list_nth d(1)
  proof (rule sum.cong [OF refl])
    fix x assume "x \<in> {..<length ws}"
    then show "(if takes [] x (eps ! x) then weight (eps ! x) else 0) = ws ! x"
      using d(2) [of x] nn [of x] by (auto simp: takes_def)
  qed
  have total_raised: "(\<Sum>i < length ws. current_weight (eps ! i) + ws ! i) = sum_list ws"
    using shared_sum [OF inv] by (simp add: sum.distrib sum_list_nth)
  have "\<exists>j < length ws. 0 < current_weight (eps ! j) + ws ! j"
  proof (rule ccontr)
    assume "\<not> (\<exists>j < length ws. 0 < current_weight (eps ! j) + ws ! j)"
    then have "(\<Sum>i < length ws. current_weight (eps ! i) + ws ! i) \<le> 0" by (intro sum_nonpos) force
    then show False using total_raised ws(2) by simp
  qed
  then obtain j where j: "j < length ws" "0 < current_weight (eps ! j) + ws ! j" by blast
  have jpos: "0 < ws ! j"
  proof (rule ccontr)
    assume "\<not> 0 < ws ! j"
    then have z: "ws ! j = 0" using nn [OF j(1)] by simp
    then show False using j d(3) [OF j(1)] shared_unused [OF inv ws(2) j(1) z] by simp
  qed
  have el: "eligible [] eps j" using j(1) jpos d(1,2) by (simp add: eligible_def takes_def)
  obtain eps' c where s: "select_client [] eps = (eps', c)" by fastforce
  then obtain i where c: "select_client [] eps = (eps', Some i)"
    using select_client_None [of "[]" eps eps' j] el by (cases c) auto
  note sel = select_client_Some [OF c]
  have i: "i < length ws" using sel(1) d(1) by (simp add: eligible_def)
  have ipos: "0 < current_weight (eps ! i) + ws ! i"
    using sel(4) el j raised [OF j(1)] raised [OF i] by force
  have cw: "current_weight (eps' ! k) = current_weight (eps ! k) + ws ! k - (if k = i then sum_list ws else 0)"
    if "k < length ws" for k
    using sel(3) that d(1) raised [OF that] W by (auto simp: Let_def)
  have sums: "(\<Sum>k < length ws. (cnt(i := cnt i + 1)) k) = n + 1"
  proof -
    have "(\<Sum>k < length ws. (cnt(i := cnt i + 1)) k) = (\<Sum>k < length ws. cnt k + (if k = i then 1 else 0))"
      by (rule sum.cong) simp_all
    then show ?thesis using d(5) i by (simp add: sum.distrib)
  qed
  have "shared ws (n + 1) (cnt(i := cnt i + 1)) eps'"
    unfolding shared_def
  proof (intro conjI allI impI)
    show "map weight eps' = ws" using select_client_weights [OF c] inv by (simp add: shared_def)
    show "(\<Sum>k < length ws. (cnt(i := cnt i + 1)) k) = n + 1" by (rule sums)
  next
    fix k assume k: "k < length ws"
    show "current_weight (eps' ! k) = of_nat (n + 1) * ws ! k - sum_list ws * of_nat ((cnt(i := cnt i + 1)) k)"
      using cw [OF k] d(3) [OF k] by (cases "k = i") (simp_all add: algebra_simps)
    show "- sum_list ws < current_weight (eps' ! k)"
      using cw [OF k] d(4) [OF k] nn [OF k] ipos by (cases "k = i") auto
  qed
  with c i show ?thesis by blast
qed

text \<open>A client that answers with its own index.\<close>

definition echo_client :: "(unit, unit, nat) client_call" where
  "echo_client i w = (w, Inr i)"

lemma echo_predict:
  assumes "select_client [] eps = (eps', Some i)"
  shows "pool_predict echo_client eps () = (eps', (), Inr i)"
  unfolding pool_predict_def by (subst predict_loop.simps) (simp add: assms echo_client_def)

lemma serve_shared:
  assumes ws: "\<forall>w \<in> set ws. 0 \<le> w" "0 < sum_list ws"
  shows "\<exists>eps' rs. serve echo_client n (new_pool ws) () = (eps', (), rs) \<and> length rs = n \<and>
    shared ws n (\<lambda>i. count_list rs (Inr i)) eps'"
proof (induction n)
  case 0
  show ?case using shared_start [OF ws(2)] by simp
next
  case (Suc n)
  then obtain eps' rs where s: "serve echo_client n (new_pool ws) () = (eps', (), rs)" "length rs = n"
    "shared ws n (\<lambda>i. count_list rs (Inr i)) eps'" by blast
  obtain eps'' i where p: "select_client [] eps' = (eps'', Some i)" "i < length ws"
    "shared ws (n + 1) ((\<lambda>i. count_list rs (Inr i))(i := count_list rs (Inr i) + 1)) eps''"
    using shared_pick [OF s(3) ws] by blast
  have "(\<lambda>i. count_list rs (Inr i))(i := count_list rs (Inr i) + 1) = (\<lambda>j. count_list (rs @ [Inr i]) (Inr j))"
    by (auto simp: fun_eq_iff)
  then show ?case using s p echo_predict [OF p(1)] by auto
qed

lemma shared_share:
  assumes inv: "shared ws n cnt eps" and W: "0 < sum_list ws" and i: "i < length ws"
  shows "(of_nat (cnt i) - 1) * sum_list ws < of_nat n * ws ! i \<and>
    of_nat n * ws ! i \<le> of_nat (cnt i + (length ws - 1)) * sum_list ws"
proof
  note d = sharedD [OF inv]
  show "(of_nat (cnt i) - 1) * sum_list ws < of_nat n * ws ! i"
    using d(3) [OF i] d(4) [OF i] by (simp add: algebra_simps)
  have "current_weight (eps ! i) = - (\<Sum>j \<in> {..<length ws} - {i}. current_weight (eps ! j))"
    using shared_sum [OF inv] i by (simp add: sum.remove [of "{..<length ws}" i])
  also have "\<dots> \<le> (\<Sum>j \<in> {..<length ws} - {i}. sum_list ws)"
    unfolding sum_negf [symmetric] by (rule sum_mono) (use d(4) in \<open>force\<close>)
  also have "\<dots> = of_nat (length ws - 1) * sum_list ws" using i by simp
  finally show "of_nat n * ws ! i \<le> of_nat (cnt i + (length ws - 1)) * sum_list ws"
    using d(3) [OF i] by (simp add: algebra_simps)
qed

text \<open>Over whole rounds of integer weights every current weight is back at zero.\<close>

lemma shared_round:
  fixes v :: "nat list"
  assumes inv: "shared (map of_nat v) (m * sum_list v) cnt eps" and W: "0 < sum_list v" and i: "i < length v"
  shows "cnt i = m * v ! i"
proof -
  let ?W = "of_nat (sum_list v) :: rat"
  have W': "sum_list (map of_nat v) = ?W" by (rule of_nat_total)
  note d = sharedD [OF inv, unfolded W' length_map]
  define diff where "diff j = int (m * v ! j) - int (cnt j)" for j
  have cw: "current_weight (eps ! j) = ?W * of_int (diff j)" if "j < length v" for j
    using d(3) [OF that] that by (simp add: diff_def algebra_simps)
  have pos: "0 \<le> diff j" if j: "j < length v" for j
  proof -
    have "?W * (-1) < ?W * of_int (diff j)" using d(4) [OF j] cw [OF j] by simp
    then have "-1 < (of_int (diff j) :: rat)" using W by (simp only: mult_less_cancel_left_pos of_nat_0_less_iff)
    then show ?thesis by simp
  qed
  have "(\<Sum>j < length v. current_weight (eps ! j)) = ?W * of_int (\<Sum>j < length v. diff j)"
    using cw by (simp add: sum_distrib_left)
  then have "?W * of_int (\<Sum>j < length v. diff j) = 0" using shared_sum [OF inv] by simp
  then have "(of_int (\<Sum>j < length v. diff j) :: rat) = 0" using W by (metis mult_eq_0_iff of_nat_eq_0_iff less_numeral_extra(3))
  then have "(\<Sum>j < length v. diff j) = 0" unfolding of_int_eq_0_iff .
  then have "diff i = 0" using pos i by (subst (asm) sum_nonneg_eq_0_iff) auto
  then show ?thesis by (simp add: diff_def flip: of_nat_mult)
qed

text \<open>
  C14. Requests are shared by weight: when endpoints answer, after any number \<open>n\<close> of requests an
  endpoint of weight \<open>w\<close> out of a total \<open>W\<close> has answered fewer than \<open>n * w / W + 1\<close> of them, and
  at least \<open>n * w / W\<close> less the number of other endpoints; and when the weights are whole numbers,
  after every full round of \<open>W\<close> requests it has answered exactly its weight per round.
\<close>

theorem requests_are_shared_by_weight:
  assumes "\<forall>w \<in> set ws. 0 \<le> w" "0 < sum_list ws" "i < length ws"
    and served: "serve echo_client n (new_pool ws) () = (eps', w', rs)"
  shows "(of_nat (count_list rs (Inr i)) - 1) * sum_list ws < of_nat n * ws ! i \<and>
    of_nat n * ws ! i \<le> of_nat (count_list rs (Inr i) + (length ws - 1)) * sum_list ws \<and>
    (\<forall>v m. ws = map of_nat v \<longrightarrow> n = m * sum_list v \<longrightarrow> count_list rs (Inr i) = m * v ! i)"
proof -
  have inv: "shared ws n (\<lambda>i. count_list rs (Inr i)) eps'"
    using serve_shared [OF assms(1,2), of n] served by auto
  have "count_list rs (Inr i) = m * v ! i" if "ws = map of_nat v" "n = m * sum_list v" for v m
    using shared_round [of v m "\<lambda>i. count_list rs (Inr i)" eps' i] inv that assms(2,3)
    by (simp add: of_nat_total)
  then show ?thesis using shared_share [OF inv assms(2,3)] by blast
qed

lemma requests_are_shared_by_weight_witness:
  "\<exists>eps' rs. serve echo_client 14 (new_pool [5, 1, 1]) () = (eps', (), rs) \<and>
     count_list rs (Inr 0) = 10 \<and> count_list rs (Inr 1) = 2 \<and> count_list rs (Inr 2) = 2"
proof -
  obtain eps' w' rs where s: "serve echo_client 14 (new_pool [5, 1, 1]) () = (eps', w', rs)"
    by (rule prod_cases3)
  have "count_list rs (Inr i) = 2 * [5, 1, 1] ! i" if "i < 3" for i
    using requests_are_shared_by_weight [OF _ _ _ s, of i] that
    by (auto dest!: spec [of _ "[5, 1, 1]"] spec [of _ "2 :: nat"])
  from this [of 0] this [of 1] this [of 2] s show ?thesis by simp
qed

section \<open>Failover\<close>

text \<open>
  C20. A request is tried on every enabled endpoint before it fails: it asks enabled endpoints
  only, none twice; it succeeds with the answer of the last one asked, every one before it having
  failed; and when it fails, either no endpoint is enabled, or every enabled endpoint was asked
  and failed, and the error is that of the last one.  Whatever the current weights are.
\<close>

theorem failover_is_exhaustive:
  assumes "pool_predict (fixed_client answer) eps [] = (eps', asked, r)"
  shows "distinct asked \<and> set asked \<subseteq> {i. i < length eps \<and> weight (eps ! i) > 0} \<and> map weight eps' = map weight eps \<and>
    (case r of
       Inr out \<Rightarrow> asked \<noteq> [] \<and> answer (last asked) = Inr out \<and> (\<forall>i \<in> set (butlast asked). \<exists>e. answer i = Inl e)
     | Inl err \<Rightarrow> set asked = {i. i < length eps \<and> weight (eps ! i) > 0} \<and> (\<forall>i \<in> set asked. \<exists>e. answer i = Inl e) \<and>
         (err = NoEndpoints \<longleftrightarrow> is_empty_pool eps) \<and> (\<forall>e. err = EndpointFailed e \<longrightarrow> answer (last asked) = Inl e))"
proof -
  have el: "eligible [] eps i \<longleftrightarrow> i < length eps \<and> weight (eps ! i) > 0" for i
    by (auto simp: eligible_def takes_def)
  have empty: "is_empty_pool eps \<longleftrightarrow> (\<forall>i. \<not> eligible [] eps i)"
    by (auto simp: is_empty_pool_def el list_all_length not_less dest: leD)
  obtain new where new: "asked = new" "distinct new" "\<forall>i \<in> set new. eligible [] eps i" "map weight eps' = map weight eps"
    "case r of
       Inr out \<Rightarrow> new \<noteq> [] \<and> answer (last new) = Inr out \<and> (\<forall>i \<in> set (butlast new). \<exists>e. answer i = Inl e)
     | Inl err \<Rightarrow> (\<forall>i. eligible [] eps i \<longrightarrow> i \<in> set new) \<and> (\<forall>i \<in> set new. \<exists>e. answer i = Inl e) \<and>
         (if new = [] then err = (case None of Some e \<Rightarrow> EndpointFailed e | None \<Rightarrow> NoEndpoints)
          else \<exists>e. answer (last new) = Inl e \<and> err = EndpointFailed e)"
    using predict_loop_fixed [OF assms [unfolded pool_predict_def]] by auto
  show ?thesis
  proof (cases r)
    case (Inr out)
    have "set new \<subseteq> {i. i < length eps \<and> weight (eps ! i) > 0}" using new(3) by (auto simp: el)
    moreover have "new \<noteq> [] \<and> answer (last new) = Inr out \<and> (\<forall>i \<in> set (butlast new). \<exists>e. answer i = Inl e)"
      using new(5) unfolding Inr sum.case .
    ultimately show ?thesis unfolding new(1) Inr sum.case using new(2,4) by blast
  next
    case (Inl err)
    have e: "\<forall>i. eligible [] eps i \<longrightarrow> i \<in> set new" "\<forall>i \<in> set new. \<exists>e. answer i = Inl e"
      "if new = [] then err = NoEndpoints else \<exists>e. answer (last new) = Inl e \<and> err = EndpointFailed e"
      using new(5) unfolding Inl sum.case option.case by blast+
    have all: "set new = {i. i < length eps \<and> weight (eps ! i) > 0}" using e(1) new(3) unfolding el by blast
    have none: "new = [] \<longleftrightarrow> is_empty_pool eps" unfolding empty using e(1) new(3) by (cases new) auto
    have "err = NoEndpoints \<longleftrightarrow> is_empty_pool eps" unfolding none [symmetric] using e(3) by (cases "new = []") auto
    moreover have "\<forall>e. err = EndpointFailed e \<longrightarrow> answer (last new) = Inl e" using e(3) by (cases "new = []") auto
    ultimately show ?thesis unfolding new(1) Inl sum.case using new(2,4) all e(2) by blast
  qed
qed

lemma failover_is_exhaustive_witness:
  "\<exists>eps' asked. pool_predict (fixed_client (\<lambda>i. if i = 1 then Inr ''ok'' else Inl ''down'')) (new_pool [3, 1, 2, 0]) [] =
     (eps', asked, Inr ''ok'') \<and> last asked = 1"
proof -
  let ?c = "fixed_client (\<lambda>i. if i = 1 then Inr ''ok'' else Inl ''down'')"
  obtain eps' asked r where p: "pool_predict ?c (new_pool [3, 1, 2, 0]) [] = (eps', asked, r)"
    by (rule prod_cases3)
  have one: "1 \<in> {i. i < length (new_pool [3, 1, 2, 0]) \<and> weight (new_pool [3, 1, 2, 0] ! i) > 0}"
    by (simp add: new_pool_def)
  show ?thesis
    using failover_is_exhaustive [OF p] one p by (cases r) (auto split: if_splits)
qed

section \<open>Loading everywhere\<close>

lemma load_each_fixed:
  "load_each (fixed_client answer) is failed last_err asked = (asked', failed', last') \<Longrightarrow>
   asked' = asked @ is \<and> failed' = failed + length (filter (\<lambda>i. \<exists>e. answer i = Inl e) is) \<and>
   last' = (case filter (\<lambda>i. \<exists>e. answer i = Inl e) is of [] \<Rightarrow> last_err
     | js \<Rightarrow> (case answer (last js) of Inl e \<Rightarrow> Some e | Inr _ \<Rightarrow> None))"
proof (induction "is" arbitrary: failed last_err asked)
  case Nil
  then show ?case by simp
next
  case (Cons i "is")
  show ?case
  proof (cases "answer i")
    case (Inl e)
    with Cons.prems have "load_each (fixed_client answer) is (failed + 1) (Some e) (asked @ [i]) = (asked', failed', last')"
      by (simp add: fixed_client_def [of answer i asked])
    from Cons.IH [OF this] Inl show ?thesis by (auto split: list.splits)
  next
    case (Inr u)
    with Cons.prems have "load_each (fixed_client answer) is failed last_err (asked @ [i]) = (asked', failed', last')"
      by (simp add: fixed_client_def [of answer i asked])
    from Cons.IH [OF this] Inr show ?thesis by auto
  qed
qed

text \<open>
  Loading a model asks every enabled endpoint once, in order, and fails exactly when none of
  them could load it: partial availability is accepted.
\<close>

theorem load_asks_every_endpoint:
  "(let (asked, r) = load_model_all (fixed_client answer) eps [] in
    asked = enabled eps \<and> distinct asked \<and> set asked = {i. i < length eps \<and> weight (eps ! i) > 0} \<and>
    ((\<exists>u. r = Inr u) \<longleftrightarrow> (\<exists>i \<in> set asked. \<exists>u. answer i = Inr u)))"
proof -
  have en: "set (enabled eps) = {i. i < length eps \<and> weight (eps ! i) > 0}" "distinct (enabled eps)"
    by (auto simp: enabled_def in_set_enumerate_eq distinct_map inj_on_def image_iff)
  obtain asked failed last' where l: "load_each (fixed_client answer) (enabled eps) 0 None [] = (asked, failed, last')"
    by (rule prod_cases3)
  note f = load_each_fixed [OF l]
  have all: "failed = length (enabled eps) \<longleftrightarrow> (\<forall>i \<in> set (enabled eps). \<exists>e. answer i = Inl e)"
  proof
    assume "failed = length (enabled eps)"
    then have "\<not> length (filter (\<lambda>i. \<exists>e. answer i = Inl e) (enabled eps)) < length (enabled eps)" using f by linarith
    then show "\<forall>i \<in> set (enabled eps). \<exists>e. answer i = Inl e"
      using length_filter_less [of _ "enabled eps" "\<lambda>i. \<exists>e. answer i = Inl e"] by blast
  next
    assume "\<forall>i \<in> set (enabled eps). \<exists>e. answer i = Inl e"
    then have "filter (\<lambda>i. \<exists>e. answer i = Inl e) (enabled eps) = enabled eps" by (rule filter_True)
    then show "failed = length (enabled eps)" using f by (metis add_0)
  qed
  have ans: "(\<exists>u. answer i = Inr u) \<longleftrightarrow> \<not> (\<exists>e. answer i = Inl e)" for i by (cases "answer i") auto
  show ?thesis
  proof (cases "enabled eps = []")
    case True
    then show ?thesis using en by (simp add: load_model_all_def)
  next
    case False
    have asked: "asked = enabled eps" using f by simp
    have "load_model_all (fixed_client answer) eps [] = (asked,
        if failed = length (enabled eps)
        then Inl (case last' of Some err \<Rightarrow> LoadFailedEverywhere (length (enabled eps)) err | None \<Rightarrow> NoEndpoints)
        else Inr ())"
      unfolding load_model_all_def Let_def if_not_P [OF False] l prod.case by (simp only: if_distrib [of "Pair asked"])
    moreover have "failed \<noteq> length (enabled eps) \<longleftrightarrow> (\<exists>i \<in> set (enabled eps). \<exists>u. answer i = Inr u)"
      unfolding all ans by blast
    ultimately show ?thesis using en by (cases "failed = length (enabled eps)") (auto simp: asked)
  qed
qed

end
