(* ===== verification/DbPrefix.thy ===== *)
theory DbPrefix
  imports Main "HOL-Library.List_Lexorder" "HOL-Library.Sublist"
begin

text \<open>
  Prefix matches in the database (\<open>panoptikon/src/db/prefix.rs\<close>): a prefix becomes a half-open
  range.  A string is the list of its Unicode scalar values, numbers; the database compares the
  UTF-8 bytes, written out here as numbers.
\<close>

section \<open>Scalars\<close>

type_synonym scalars = "nat list"

definition char_max :: nat where
  "char_max = 0x10FFFF"

definition is_scalar :: "nat \<Rightarrow> bool" where
  "is_scalar c \<longleftrightarrow> c \<le> char_max \<and> \<not> (0xD800 \<le> c \<and> c \<le> 0xDFFF)"

definition from_u32 :: "nat \<Rightarrow> nat option" where
  "from_u32 n = (if is_scalar n then Some n else None)"

definition step_char :: "nat \<Rightarrow> nat option" where
  "step_char c =
     (case from_u32 (c + 1) of
        Some next \<Rightarrow> Some next
      | None \<Rightarrow> if c < char_max then from_u32 0xE000 else None)"

text \<open>The loop pops from the end: its list is reversed.\<close>

fun upper_loop :: "scalars \<Rightarrow> scalars option" where
  "upper_loop [] = None"
| "upper_loop (c # rest) =
     (case step_char c of
        Some next \<Rightarrow> Some (rev (next # rest))
      | None \<Rightarrow> upper_loop rest)"

definition prefix_upper_bound :: "scalars \<Rightarrow> scalars option" where
  "prefix_upper_bound p = upper_loop (rev p)"

definition escape_like_literal :: "scalars \<Rightarrow> scalars" where
  "escape_like_literal value =
     concat (map (\<lambda>c. if c \<in> {0x5C, 0x25, 0x5F} then [0x5C, c] else [c]) value)"

lemma upper_bound_snoc:
  "prefix_upper_bound (p @ [c]) = (case step_char c of Some n \<Rightarrow> Some (p @ [n]) | None \<Rightarrow> prefix_upper_bound p)"
  by (simp add: prefix_upper_bound_def split: option.split)

lemma prefix_upper_bound_Nil [simp]: "prefix_upper_bound [] = None"
  by (simp add: prefix_upper_bound_def)

lemma step_char_Some:
  assumes "is_scalar c" "step_char c = Some n"
  shows "c < n \<and> is_scalar n \<and> (\<forall>d. is_scalar d \<longrightarrow> c \<le> d \<longrightarrow> d < n \<longrightarrow> d = c)"
proof -
  have "n = c + 1 \<and> is_scalar n \<or> c = 0xD7FF \<and> n = 0xE000"
    using assms by (auto simp: step_char_def from_u32_def is_scalar_def char_max_def split: if_splits)
  then show ?thesis by (auto simp: is_scalar_def char_max_def)
qed

lemma step_char_None:
  assumes "is_scalar c" "step_char c = None"
  shows "c = char_max"
  using assms by (auto simp: step_char_def from_u32_def is_scalar_def char_max_def split: if_splits)

lemma upper_bound_scalars:
  assumes "list_all is_scalar p"
  shows "case prefix_upper_bound p of Some u \<Rightarrow> list_all is_scalar u | None \<Rightarrow> \<forall>c \<in> set p. c = char_max"
  using assms
proof (induction p rule: rev_induct)
  case (snoc c p)
  then show ?case using step_char_None [of c] step_char_Some [of c]
    by (cases "step_char c"; cases "prefix_upper_bound p") (auto simp: upper_bound_snoc)
qed simp

section \<open>The range is the prefix\<close>

lemma snoc_le_iff:
  "q @ [c] \<le> (s :: nat list) \<and> s < q @ [n] \<longleftrightarrow> (\<exists>r. s = q @ r \<and> [c] \<le> r \<and> r < [n])"
  by (induction q arbitrary: s; case_tac s) auto

lemma le_prefix: "(q :: nat list) \<le> q @ r"
  by (induction q) auto

lemma append_le_append: "(q :: nat list) @ a \<le> q @ b \<longleftrightarrow> a \<le> b"
  by (induction q) auto

lemma range_is_prefix:
  assumes "list_all is_scalar p" "list_all is_scalar s"
  shows "prefix p s \<longleftrightarrow> p \<le> s \<and> (\<forall>u. prefix_upper_bound p = Some u \<longrightarrow> s < u)"
  using assms(1)
proof (induction p rule: rev_induct)
  case Nil
  then show ?case by simp
next
  case (snoc c p)
  have c: "is_scalar c" and p: "list_all is_scalar p" using snoc.prems by simp_all
  show ?case
  proof (cases "step_char c")
    case (Some n)
    note n = step_char_Some [OF c Some]
    have "p @ [c] \<le> s \<and> s < p @ [n] \<longleftrightarrow> prefix (p @ [c]) s"
    proof
      assume "p @ [c] \<le> s \<and> s < p @ [n]"
      then obtain r where r: "s = p @ r" "[c] \<le> r" "r < [n]" by (auto simp: snoc_le_iff)
      then obtain d r' where d: "r = d # r'" by (cases r) auto
      have "c \<le> d" "d < n" using r(2,3) d by auto
      moreover have "is_scalar d" using assms(2) r(1) d by simp
      ultimately have "d = c" using n by blast
      then show "prefix (p @ [c]) s" using r(1) d by (simp add: prefix_def)
    next
      assume "prefix (p @ [c]) s"
      then obtain r where "s = p @ c # r" by (auto simp: prefix_def)
      then show "p @ [c] \<le> s \<and> s < p @ [n]" unfolding snoc_le_iff using n by auto
    qed
    then show ?thesis using Some by (auto simp: upper_bound_snoc)
  next
    case None
    have m: "c = char_max" using step_char_None [OF c None] .
    have ub: "prefix_upper_bound (p @ [c]) = prefix_upper_bound p" using None by (simp add: upper_bound_snoc)
    note ih = snoc.IH [OF p]
    show ?thesis
    proof
      assume pre: "prefix (p @ [c]) s"
      then obtain r where r: "s = (p @ [c]) @ r" by (auto simp: prefix_def)
      have "prefix p s" using r by (simp add: prefix_def)
      then show "p @ [c] \<le> s \<and> (\<forall>u. prefix_upper_bound (p @ [c]) = Some u \<longrightarrow> s < u)"
        using ih ub le_prefix [of "p @ [c]" r] r by simp
    next
      assume a: "p @ [c] \<le> s \<and> (\<forall>u. prefix_upper_bound (p @ [c]) = Some u \<longrightarrow> s < u)"
      have "p \<le> s" using a le_prefix [of p "[c]"] by (meson order_trans)
      then have "prefix p s" using ih a ub by simp
      then obtain r where r: "s = p @ r" by (auto simp: prefix_def)
      then have "[c] \<le> r" using a by (simp add: append_le_append)
      then obtain d r' where d: "r = d # r'" "c \<le> d" by (cases r) auto
      have "is_scalar d" using assms(2) r d(1) by simp
      then have "d = c" using d(2) m by (simp add: is_scalar_def)
      then show "prefix (p @ [c]) s" using r d(1) by (simp add: prefix_def)
    qed
  qed
qed

section \<open>Bytes\<close>

definition utf8 :: "nat \<Rightarrow> nat list" where
  "utf8 c =
     (if c < 0x80 then [c]
      else if c < 0x800 then [0xC0 + c div 64, 0x80 + c mod 64]
      else if c < 0x10000 then [0xE0 + c div 64 div 64, 0x80 + c div 64 mod 64, 0x80 + c mod 64]
      else [0xF0 + c div 64 div 64 div 64, 0x80 + c div 64 div 64 mod 64, 0x80 + c div 64 mod 64, 0x80 + c mod 64])"

definition utf8s :: "scalars \<Rightarrow> nat list" where
  "utf8s s = concat (map utf8 s)"

lemma digit_less:
  "(x :: nat) < y \<Longrightarrow> x div 64 < y div 64 \<or> x div 64 = y div 64 \<and> x mod 64 < y mod 64"
  using div_le_mono [of x y 64] mult_div_mod_eq [of 64 x] mult_div_mod_eq [of 64 y] by linarith

lemma utf8_less:
  assumes "x < y" "y \<le> char_max"
  shows "utf8 x @ a < utf8 y @ b"
proof -
  note l = digit_less [OF assms(1)]
  have l2: "x div 64 < y div 64 \<Longrightarrow> x div 64 div 64 < y div 64 div 64 \<or> x div 64 div 64 = y div 64 div 64 \<and> x div 64 mod 64 < y div 64 mod 64"
    by (rule digit_less)
  have l3: "x div 64 div 64 < y div 64 div 64 \<Longrightarrow> x div 64 div 64 div 64 < y div 64 div 64 div 64 \<or>
      x div 64 div 64 div 64 = y div 64 div 64 div 64 \<and> x div 64 div 64 mod 64 < y div 64 div 64 mod 64"
    by (rule digit_less)
  show ?thesis
  proof (cases "y < 0x80")
    case True
    then show ?thesis using assms by (simp add: utf8_def)
  next
    case y1: False
    show ?thesis
    proof (cases "y < 0x800")
      case True
      then show ?thesis using y1 assms l by (auto simp: utf8_def)
    next
      case y2: False
      show ?thesis
      proof (cases "y < 0x10000")
        case True
        have "x < 0x800 \<Longrightarrow> x div 64 < 0x20" by simp
        then show ?thesis using True y1 y2 assms l l2 by (auto simp: utf8_def)
      next
        case y3: False
        have "x < 0x800 \<Longrightarrow> x div 64 < 0x20" "x < 0x10000 \<Longrightarrow> x div 64 div 64 < 0x10" by simp_all
        then show ?thesis using y1 y2 y3 assms l l2 l3 by (auto simp: utf8_def)
      qed
    qed
  qed
qed

lemma utf8s_less:
  assumes "list_all is_scalar s" "list_all is_scalar t" "s < t"
  shows "utf8s s < utf8s t"
  using assms
proof (induction s arbitrary: t)
  case Nil
  then obtain y t' where "t = y # t'" by (cases t) auto
  moreover have "utf8 y \<noteq> []" by (simp add: utf8_def)
  ultimately show ?case by (cases "utf8 y") (auto simp: utf8s_def)
next
  case (Cons x s)
  then obtain y t' where t: "t = y # t'" by (cases t) auto
  show ?case
  proof (cases "x < y")
    case True
    then show ?thesis using Cons.prems(2) t utf8_less [OF True] by (simp add: utf8s_def is_scalar_def)
  next
    case False
    then have "x = y" "s < t'" using Cons.prems(3) t by auto
    moreover have "(u @ a < u @ b) = (a < b)" for u a b :: "nat list" by (induction u) auto
    ultimately show ?thesis using Cons t by (simp add: utf8s_def)
  qed
qed

lemma utf8s_less_iff:
  assumes "list_all is_scalar s" "list_all is_scalar t"
  shows "utf8s s < utf8s t \<longleftrightarrow> s < t" "utf8s s \<le> utf8s t \<longleftrightarrow> s \<le> t"
proof -
  show l: "utf8s s < utf8s t \<longleftrightarrow> s < t"
    using utf8s_less [OF assms] utf8s_less [OF assms(2,1)] by (metis less_asym less_irrefl linorder_cases)
  show "utf8s s \<le> utf8s t \<longleftrightarrow> s \<le> t"
    using utf8s_less [OF assms] utf8s_less [OF assms(2,1)] by (metis less_le_not_le linorder_cases order_refl le_less)
qed

text \<open>
  C26. A prefix match as a range: whatever the prefix, a stored text starts with it exactly when
  its UTF-8 bytes are at least those of the prefix and, when there is an upper bound, below those
  of the bound -- so \<open>None\<close> always means unbounded above, and the bound is itself a valid text.
\<close>

theorem prefix_range_exact:
  assumes "list_all is_scalar p" "list_all is_scalar s"
  shows "(prefix p s \<longleftrightarrow> utf8s p \<le> utf8s s \<and>
      (case prefix_upper_bound p of Some u \<Rightarrow> utf8s s < utf8s u | None \<Rightarrow> True)) \<and>
    (case prefix_upper_bound p of Some u \<Rightarrow> list_all is_scalar u | None \<Rightarrow> \<forall>c \<in> set p. c = char_max)"
proof -
  note ub = upper_bound_scalars [OF assms(1)]
  have "prefix_upper_bound p = Some u \<Longrightarrow> utf8s s < utf8s u \<longleftrightarrow> s < u" for u
    using utf8s_less_iff(1) [OF assms(2)] ub by simp
  then have "prefix p s \<longleftrightarrow> utf8s p \<le> utf8s s \<and>
      (case prefix_upper_bound p of Some u \<Rightarrow> utf8s s < utf8s u | None \<Rightarrow> True)"
    unfolding range_is_prefix [OF assms] utf8s_less_iff(2) [OF assms] by (cases "prefix_upper_bound p") auto
  with ub show ?thesis by blast
qed

lemma prefix_range_exact_witness:
  "utf8s [0x69, 0x6D, 0x10FFFF] \<le> utf8s [0x69, 0x6D, 0x10FFFF, 0x2F] \<and>
   utf8s [0x69, 0x6D, 0x10FFFF, 0x2F] < utf8s [0x69, 0x6E] \<and> prefix_upper_bound [0x69, 0x6D, 0x10FFFF] = Some [0x69, 0x6E]"
proof -
  have ub: "prefix_upper_bound [0x69, 0x6D, 0x10FFFF] = Some [0x69, 0x6E]"
    by (simp add: prefix_upper_bound_def step_char_def from_u32_def is_scalar_def char_max_def)
  have "prefix [0x69, 0x6D, 0x10FFFF] [0x69, 0x6D, 0x10FFFF, 0x2F :: nat]" by simp
  then show ?thesis
    using prefix_range_exact [of "[0x69, 0x6D, 0x10FFFF]" "[0x69, 0x6D, 0x10FFFF, 0x2F]"] ub
    by (simp add: is_scalar_def char_max_def)
qed

end
