(* ===== verification/FailureLedger.thy ===== *)
theory FailureLedger
  imports ScanFile DbPrefix "HOL-Library.Product_Lexorder"
begin

text \<open>
  The extraction failure ledger (\<open>panoptikon/src/db/extraction_errors.rs\<close>) over the helpers both
  ledgers share (\<open>panoptikon/src/db/ledger.rs\<close>): one row per item and setter that rejected it,
  counted once per job, suppressing the item once it is confirmed.  A table is the list of its
  rows; the unique and check constraints are those of the migration
  \<open>20260801120000_item_extraction_errors.sql\<close>.  Media types and their filters are lists of
  scalars, as in the range they are compared by; the other texts are bytes.
\<close>

section \<open>Shared helpers\<close>

fun blocker_str :: "blocker \<Rightarrow> string" where
  "blocker_str Pdfium = ''pdfium''"
| "blocker_str HtmlRenderer = ''html-renderer''"
| "blocker_str Ffmpeg = ''ffmpeg''"

definition blocker_parse :: "string \<Rightarrow> blocker option" where
  "blocker_parse v =
     (if v = ''pdfium'' then Some Pdfium
      else if v = ''html-renderer'' then Some HtmlRenderer
      else if v = ''ffmpeg'' then Some Ffmpeg else None)"

fun kind_blocker :: "api_error_kind \<Rightarrow> blocker option" where
  "kind_blocker (BlockedError b) = Some b"
| "kind_blocker _ = None"

lemma blocker_parse_str [simp]: "blocker_parse (blocker_str b) = Some b"
  by (cases b) (simp_all add: blocker_parse_def)

definition max_error_bytes :: nat where
  "max_error_bytes = 2000"

text \<open>\<open>str::is_char_boundary\<close>: not in front of a continuation byte.\<close>

definition is_char_boundary :: "string \<Rightarrow> nat \<Rightarrow> bool" where
  "is_char_boundary s i \<longleftrightarrow>
     i = 0 \<or> i = length s \<or> i < length s \<and> \<not> (0x80 \<le> (of_char (s ! i) :: nat) \<and> (of_char (s ! i) :: nat) < 0xC0)"

fun walk_back :: "string \<Rightarrow> nat \<Rightarrow> nat" where
  "walk_back s 0 = 0"
| "walk_back s (Suc n) = (if is_char_boundary s (Suc n) then Suc n else walk_back s n)"

definition ellipsis :: string where
  "ellipsis = [CHR 0xE2, CHR 0x80, CHR 0xA6]"

definition truncate_error :: "string \<Rightarrow> string" where
  "truncate_error e =
     (if length e \<le> max_error_bytes then e
      else take (walk_back e max_error_bytes) e @ ellipsis)"

definition default_list_limit :: int where
  "default_list_limit = 100"

definition max_list_limit :: int where
  "max_list_limit = 1000"

definition clamp_list_limit :: "int option \<Rightarrow> int" where
  "clamp_list_limit limit =
     max 1 (min max_list_limit (case limit of Some n \<Rightarrow> n | None \<Rightarrow> default_list_limit))"

section \<open>The tables\<close>

record index_item =
  it_id :: int
  it_sha256 :: string
  it_type :: scalars

record ledger_row =
  lr_id :: int
  lr_item :: int
  lr_setter :: int
  lr_stage :: string
  lr_class :: string
  lr_blocker :: "string option"
  lr_mime :: scalars
  lr_error :: string
  lr_skip_after :: int
  lr_attempts :: int
  lr_last_job :: "int option"
  lr_first_seen :: string
  lr_last_seen :: string

record ledger_db =
  ld_items :: "index_item list"
  ld_setters :: "(int \<times> string) list"
  ld_errors :: "ledger_row list"

record extraction_error_record =
  xr_sha256 :: string
  xr_setter :: string
  xr_stage :: string
  xr_kind :: api_error_kind
  xr_error :: string
  xr_skip_after :: int
  xr_job :: "int option"

definition item_of :: "string \<Rightarrow> ledger_db \<Rightarrow> index_item option" where
  "item_of sha db = find (\<lambda>i. it_sha256 i = sha) (ld_items db)"

definition setter_of :: "string \<Rightarrow> ledger_db \<Rightarrow> int option" where
  "setter_of name db = map_option fst (find (\<lambda>(_, n). n = name) (ld_setters db))"

definition row_of :: "int \<Rightarrow> int \<Rightarrow> ledger_db \<Rightarrow> ledger_row option" where
  "row_of item setter db = find (\<lambda>r. lr_item r = item \<and> lr_setter r = setter) (ld_errors db)"

definition next_row_id :: "ledger_row list \<Rightarrow> int" where
  "next_row_id rows = foldr (\<lambda>r n. max (lr_id r + 1) n) rows 1"

section \<open>Writes\<close>

datatype ledger_error = RefusedTransient | NotRecorded

text \<open>\<open>ON CONFLICT DO UPDATE\<close>: \<open>IS NOT\<close> compares \<open>NULL\<close> like a value.\<close>

definition update_row :: "string \<Rightarrow> string \<Rightarrow> scalars \<Rightarrow> extraction_error_record \<Rightarrow> ledger_row \<Rightarrow> ledger_row" where
  "update_row now class mime x r =
     r\<lparr>lr_attempts := (if lr_last_job r \<noteq> xr_job x then lr_attempts r + 1 else lr_attempts r),
       lr_stage := xr_stage x, lr_class := class, lr_blocker := map_option blocker_str (kind_blocker (xr_kind x)),
       lr_mime := mime, lr_error := truncate_error (xr_error x), lr_skip_after := xr_skip_after x,
       lr_last_job := xr_job x, lr_last_seen := now\<rparr>"

definition new_row :: "string \<Rightarrow> string \<Rightarrow> int \<Rightarrow> int \<Rightarrow> scalars \<Rightarrow> extraction_error_record \<Rightarrow> int \<Rightarrow> ledger_row" where
  "new_row now class item setter mime x i =
     \<lparr>lr_id = i, lr_item = item, lr_setter = setter, lr_stage = xr_stage x, lr_class = class,
      lr_blocker = map_option blocker_str (kind_blocker (xr_kind x)), lr_mime = mime,
      lr_error = truncate_error (xr_error x), lr_skip_after = xr_skip_after x, lr_attempts = 1,
      lr_last_job = xr_job x, lr_first_seen = now, lr_last_seen = now\<rparr>"

definition upsert_extraction_error :: "string \<Rightarrow> extraction_error_record \<Rightarrow> ledger_db \<Rightarrow> ledger_db \<times> (ledger_error + unit)" where
  "upsert_extraction_error now x db =
     (case persisted_class (xr_kind x) of
        None \<Rightarrow> (db, Inl RefusedTransient)
      | Some class \<Rightarrow>
          (case (item_of (xr_sha256 x) db, setter_of (xr_setter x) db) of
             (Some item, Some setter) \<Rightarrow>
               if xr_skip_after x < 1 then (db, Inl NotRecorded)
               else (db\<lparr>ld_errors := (case row_of (it_id item) setter db of
                        Some _ \<Rightarrow> update_first (\<lambda>r. lr_item r = it_id item \<and> lr_setter r = setter)
                          (update_row now class (it_type item) x) (ld_errors db)
                      | None \<Rightarrow> ld_errors db @
                          [new_row now class (it_id item) setter (it_type item) x (next_row_id (ld_errors db))])\<rparr>,
                     Inr ())
           | _ \<Rightarrow> (db, Inl NotRecorded)))"

definition delete_extraction_error :: "string \<Rightarrow> string \<Rightarrow> ledger_db \<Rightarrow> ledger_db \<times> nat" where
  "delete_extraction_error sha name db =
     (case (item_of sha db, setter_of name db) of
        (Some item, Some setter) \<Rightarrow>
          (let kept = filter (\<lambda>r. \<not> (lr_item r = it_id item \<and> lr_setter r = setter)) (ld_errors db)
           in (db\<lparr>ld_errors := kept\<rparr>, length (ld_errors db) - length kept))
      | _ \<Rightarrow> (db, 0))"

definition delete_blocked_errors :: "blocker list \<Rightarrow> ledger_db \<Rightarrow> ledger_db \<times> nat" where
  "delete_blocked_errors blockers db =
     (if blockers = [] then (db, 0)
      else let kept = filter (\<lambda>r. \<not> (lr_class r = ''blocked'' \<and>
             (case lr_blocker r of None \<Rightarrow> False | Some b \<Rightarrow> b \<in> set (map blocker_str blockers)))) (ld_errors db)
           in (db\<lparr>ld_errors := kept\<rparr>, length (ld_errors db) - length kept))"

text \<open>What the foreign keys do when an item or a setter goes away.\<close>

definition delete_index_item :: "int \<Rightarrow> ledger_db \<Rightarrow> ledger_db" where
  "delete_index_item item db =
     db\<lparr>ld_items := filter (\<lambda>i. it_id i \<noteq> item) (ld_items db),
        ld_errors := filter (\<lambda>r. lr_item r \<noteq> item) (ld_errors db)\<rparr>"

definition upsert_setter :: "string \<Rightarrow> ledger_db \<Rightarrow> ledger_db" where
  "upsert_setter name db =
     (case setter_of name db of
        Some _ \<Rightarrow> db
      | None \<Rightarrow> db\<lparr>ld_setters := ld_setters db @ [(foldr (\<lambda>(i, _) n. max (i + 1) n) (ld_setters db) 1, name)]\<rparr>)"

section \<open>Reads\<close>

definition list_distinct_blockers :: "ledger_db \<Rightarrow> blocker list" where
  "list_distinct_blockers db =
     List.map_filter blocker_parse
       (remdups (List.map_filter lr_blocker (filter (\<lambda>r. lr_class r = ''blocked'') (ld_errors db))))"

definition list_error_sha256s_for_setter :: "string \<Rightarrow> ledger_db \<Rightarrow> string set" where
  "list_error_sha256s_for_setter name db =
     (case setter_of name db of
        None \<Rightarrow> {}
      | Some setter \<Rightarrow> set (map it_sha256 (filter
          (\<lambda>i. list_ex (\<lambda>r. lr_item r = it_id i \<and> lr_setter r = setter) (ld_errors db)) (ld_items db))))"

text \<open>
  The predicate \<open>failed_for\<close> of the work query (\<open>pql/builder/filters/failed_for.rs\<close>): only a
  confirmed row suppresses.
\<close>

definition failed_for :: "string \<Rightarrow> int \<Rightarrow> ledger_db \<Rightarrow> bool" where
  "failed_for name item db \<longleftrightarrow>
     list_ex (\<lambda>(setter, n). n = name \<and>
       list_ex (\<lambda>r. lr_item r = item \<and> lr_setter r = setter \<and> lr_attempts r \<ge> lr_skip_after r) (ld_errors db))
       (ld_setters db)"

record error_filters =
  ef_setter :: "string option"
  ef_class :: "string option"
  ef_stage :: "string option"
  ef_mime_prefix :: "scalars option"
  ef_limit :: "int option"
  ef_offset :: int

definition equals_filter :: "string option \<Rightarrow> string \<Rightarrow> bool" where
  "equals_filter f v = (case f of None \<Rightarrow> True | Some w \<Rightarrow> v = w)"

definition mime_filter :: "scalars option \<Rightarrow> scalars \<Rightarrow> bool" where
  "mime_filter f v =
     (case f of None \<Rightarrow> True
      | Some p \<Rightarrow> p = [] \<or> utf8s p \<le> utf8s v \<and>
          (case prefix_upper_bound p of None \<Rightarrow> True | Some u \<Rightarrow> utf8s v < utf8s u))"

definition audit_filters :: "error_filters \<Rightarrow> ledger_db \<Rightarrow> ledger_row \<Rightarrow> bool" where
  "audit_filters f db r \<longleftrightarrow>
     (\<exists>i \<in> set (ld_items db). it_id i = lr_item r) \<and>
     (\<exists>(s, n) \<in> set (ld_setters db). s = lr_setter r \<and> equals_filter (ef_setter f) n) \<and>
     equals_filter (ef_class f) (lr_class r) \<and> equals_filter (ef_stage f) (lr_stage r) \<and>
     mime_filter (ef_mime_prefix f) (lr_mime r)"

definition count_extraction_errors :: "error_filters \<Rightarrow> ledger_db \<Rightarrow> nat" where
  "count_extraction_errors f db = length (filter (audit_filters f db) (ld_errors db))"

text \<open>Newest first: the last sight, then the row id.\<close>

definition list_extraction_errors :: "error_filters \<Rightarrow> ledger_db \<Rightarrow> ledger_row list" where
  "list_extraction_errors f db =
     take (nat (clamp_list_limit (ef_limit f))) (drop (nat (max (ef_offset f) 0))
       (rev (sort_key (\<lambda>r. (lr_last_seen r, lr_id r)) (filter (audit_filters f db) (ld_errors db)))))"

end
