(* ===== verification/FailureLedgerProps.thy ===== *)
theory FailureLedgerProps
  imports FailureLedger
begin

text \<open>
  What the extraction failure ledger promises: its constraints always hold, a row counts the runs
  that saw the failure, an item is suppressed exactly when enough of them did, and the audit pages
  list what the count counts.
\<close>

section \<open>Audit text\<close>

lemma walk_back_boundary: "is_char_boundary s (walk_back s n)"
  by (induction n) (auto simp: is_char_boundary_def)

lemma walk_back_le: "walk_back s n \<le> n"
  by (induction n) auto

text \<open>Every text clamped keeps whole characters, and little more than the limit.\<close>

lemma truncate_error_bound:
  "length (truncate_error e) \<le> max_error_bytes + 3 \<and>
   (truncate_error e = e \<or> (\<exists>n \<le> max_error_bytes. is_char_boundary e n \<and> truncate_error e = take n e @ ellipsis))"
  using walk_back_boundary [of e max_error_bytes] walk_back_le [of e max_error_bytes]
  by (auto simp: truncate_error_def ellipsis_def min_def)

section \<open>The tables stay well formed\<close>

definition row_ok :: "ledger_row \<Rightarrow> bool" where
  "row_ok r \<longleftrightarrow>
     lr_class r \<in> {''input'', ''blocked'', ''resource''} \<and>
     (lr_class r = ''blocked'' \<longleftrightarrow> lr_blocker r \<noteq> None) \<and>
     (\<forall>b. lr_blocker r = Some b \<longrightarrow> blocker_parse b \<noteq> None) \<and>
     1 \<le> lr_skip_after r \<and> 1 \<le> lr_attempts r"

definition pair_of :: "ledger_row \<Rightarrow> int \<times> int" where
  "pair_of r = (lr_item r, lr_setter r)"

definition ledger_inv :: "ledger_db \<Rightarrow> bool" where
  "ledger_inv db \<longleftrightarrow>
     distinct (map it_id (ld_items db)) \<and> distinct (map it_sha256 (ld_items db)) \<and>
     distinct (map fst (ld_setters db)) \<and> distinct (map snd (ld_setters db)) \<and>
     distinct (map lr_id (ld_errors db)) \<and> distinct (map pair_of (ld_errors db)) \<and>
     (\<forall>r \<in> set (ld_errors db). row_ok r \<and> lr_item r \<in> it_id ` set (ld_items db) \<and> lr_setter r \<in> fst ` set (ld_setters db))"

lemma persisted_row_ok:
  assumes "persisted_class k = Some cls"
  shows "cls \<in> {''input'', ''blocked'', ''resource''} \<and>
    (cls = ''blocked'' \<longleftrightarrow> map_option blocker_str (kind_blocker k) \<noteq> None) \<and>
    (\<forall>b. map_option blocker_str (kind_blocker k) = Some b \<longrightarrow> blocker_parse b \<noteq> None)"
  using assms by (cases k) auto

lemma find_map_Some:
  assumes "find P xs = Some x" "distinct (map f xs)" "\<And>y. P y \<longleftrightarrow> f y = v"
  shows "x \<in> set xs \<and> f x = v \<and> (\<forall>y \<in> set xs. f y = v \<longrightarrow> y = x)"
proof -
  have "x \<in> set xs" "f x = v" using find_SomeD [OF assms(1)] assms(3) by auto
  then show ?thesis using assms(2) by (auto dest: inj_onD [of f "set xs"] simp: distinct_map)
qed

lemma row_ofD:
  assumes "ledger_inv db"
  shows "row_of item setter db = Some r \<longleftrightarrow> r \<in> set (ld_errors db) \<and> lr_item r = item \<and> lr_setter r = setter"
proof
  assume "row_of item setter db = Some r"
  then show "r \<in> set (ld_errors db) \<and> lr_item r = item \<and> lr_setter r = setter"
    unfolding row_of_def using find_SomeD by fastforce
next
  assume r: "r \<in> set (ld_errors db) \<and> lr_item r = item \<and> lr_setter r = setter"
  then obtain r' where f: "find (\<lambda>r. lr_item r = item \<and> lr_setter r = setter) (ld_errors db) = Some r'"
    by (cases "find (\<lambda>r. lr_item r = item \<and> lr_setter r = setter) (ld_errors db)") (auto simp: find_None_iff)
  have "distinct (map pair_of (ld_errors db))" using assms by (simp add: ledger_inv_def)
  from find_map_Some [OF f this, of "(item, setter)"] r have "r' = r" by (auto simp: pair_of_def)
  then show "row_of item setter db = Some r" using f by (simp add: row_of_def)
qed

lemma item_ofD: "item_of sha db = Some i \<Longrightarrow> i \<in> set (ld_items db) \<and> it_sha256 i = sha"
  unfolding item_of_def using find_SomeD by fastforce

lemma setter_ofD: "setter_of name db = Some s \<Longrightarrow> (s, name) \<in> set (ld_setters db)"
  unfolding setter_of_def using find_SomeD by fastforce

lemma next_row_id_fresh: "r \<in> set rows \<Longrightarrow> lr_id r < next_row_id rows"
  unfolding next_row_id_def by (induction rows) auto

lemma map_pair_update:
  "map pair_of (update_first (\<lambda>r. lr_item r = i \<and> lr_setter r = s) (update_row now cls mime x) rows) = map pair_of rows"
  "map lr_id (update_first (\<lambda>r. lr_item r = i \<and> lr_setter r = s) (update_row now cls mime x) rows) = map lr_id rows"
  by (rule map_update_first, simp add: update_row_def pair_of_def)+

text \<open>What an upsert does, when it succeeds.\<close>

lemma upsert_cases:
  assumes inv: "ledger_inv db" and up: "upsert_extraction_error now x db = (db', Inr u)"
  obtains cls item setter where
    "persisted_class (xr_kind x) = Some cls" "item_of (xr_sha256 x) db = Some item" "setter_of (xr_setter x) db = Some setter"
    "1 \<le> xr_skip_after x" "ld_items db' = ld_items db" "ld_setters db' = ld_setters db"
    "set (ld_errors db') = {r \<in> set (ld_errors db). pair_of r \<noteq> (it_id item, setter)} \<union>
       {case row_of (it_id item) setter db of
          Some r0 \<Rightarrow> update_row now cls (it_type item) x r0
        | None \<Rightarrow> new_row now cls (it_id item) setter (it_type item) x (next_row_id (ld_errors db))}"
    "ledger_inv db'"
proof -
  obtain cls item setter where c: "persisted_class (xr_kind x) = Some cls"
    "item_of (xr_sha256 x) db = Some item" "setter_of (xr_setter x) db = Some setter" "1 \<le> xr_skip_after x"
    "db' = db\<lparr>ld_errors := (case row_of (it_id item) setter db of
        Some _ \<Rightarrow> update_first (\<lambda>r. lr_item r = it_id item \<and> lr_setter r = setter) (update_row now cls (it_type item) x) (ld_errors db)
      | None \<Rightarrow> ld_errors db @ [new_row now cls (it_id item) setter (it_type item) x (next_row_id (ld_errors db))])\<rparr>"
    using up by (auto simp: upsert_extraction_error_def split: option.splits if_splits)
  have new_ok: "1 \<le> lr_attempts r \<Longrightarrow> row_ok (update_row now cls (it_type item) x r)"
    "row_ok (new_row now cls (it_id item) setter (it_type item) x k)" for r k
    using persisted_row_ok [OF c(1)] c(4) by (auto simp: row_ok_def update_row_def new_row_def)
  have fk: "it_id item \<in> it_id ` set (ld_items db)" "setter \<in> fst ` set (ld_setters db)"
    using item_ofD [OF c(2)] setter_ofD [OF c(3)] by force+
  have rows: "set (ld_errors db') = {r \<in> set (ld_errors db). pair_of r \<noteq> (it_id item, setter)} \<union>
       {case row_of (it_id item) setter db of
          Some r0 \<Rightarrow> update_row now cls (it_type item) x r0
        | None \<Rightarrow> new_row now cls (it_id item) setter (it_type item) x (next_row_id (ld_errors db))}"
  proof (cases "row_of (it_id item) setter db")
    case None
    have "\<forall>r \<in> set (ld_errors db). pair_of r \<noteq> (it_id item, setter)"
      using find_NoneD [OF None [unfolded row_of_def]] by (auto simp: pair_of_def)
    then show ?thesis using c(5) None by auto
  next
    case (Some r0)
    obtain us vs where s: "ld_errors db = us @ r0 # vs"
      "update_first (\<lambda>r. lr_item r = it_id item \<and> lr_setter r = setter) (update_row now cls (it_type item) x) (ld_errors db) =
       us @ update_row now cls (it_type item) x r0 # vs"
      using find_Some_update_first [OF Some [unfolded row_of_def]] by blast
    have r0: "pair_of r0 = (it_id item, setter)" using Some row_ofD [OF inv] by (auto simp: pair_of_def)
    have "\<forall>r \<in> set us \<union> set vs. pair_of r \<noteq> (it_id item, setter)"
    proof -
      have "distinct (map pair_of us @ pair_of r0 # map pair_of vs)" using inv s(1) by (simp add: ledger_inv_def)
      then have "(it_id item, setter) \<notin> pair_of ` set us" "(it_id item, setter) \<notin> pair_of ` set vs" using r0 by auto
      then show ?thesis by force
    qed
    then show ?thesis using c(5) Some s r0 by auto
  qed
  have inv': "ledger_inv db'"
  proof -
    have "distinct (map lr_id (ld_errors db')) \<and> distinct (map pair_of (ld_errors db'))"
    proof (cases "row_of (it_id item) setter db")
      case None
      have "\<forall>r \<in> set (ld_errors db). pair_of r \<noteq> (it_id item, setter)"
        using find_NoneD [OF None [unfolded row_of_def]] by (auto simp: pair_of_def)
      moreover have "\<forall>r \<in> set (ld_errors db). lr_id r \<noteq> next_row_id (ld_errors db)"
        using next_row_id_fresh [of _ "ld_errors db"] by force
      ultimately show ?thesis using inv c(5) None by (auto simp: ledger_inv_def new_row_def pair_of_def)
    next
      case (Some r0)
      then show ?thesis using inv c(5) by (simp add: ledger_inv_def map_pair_update)
    qed
    moreover have "row_ok r \<and> lr_item r \<in> it_id ` set (ld_items db) \<and> lr_setter r \<in> fst ` set (ld_setters db)"
      if m: "r \<in> set (ld_errors db')" for r
    proof (cases "row_of (it_id item) setter db")
      case None
      then consider "r \<in> set (ld_errors db)"
        | "r = new_row now cls (it_id item) setter (it_type item) x (next_row_id (ld_errors db))"
        using m rows by auto
      then show ?thesis
      proof cases
        case 1
        then show ?thesis using inv by (auto simp: ledger_inv_def)
      next
        case 2
        have "lr_item r = it_id item" "lr_setter r = setter" using 2 by (simp_all add: new_row_def)
        then show ?thesis using fk new_ok(2) 2 by simp
      qed
    next
      case (Some r0)
      then have r0: "r0 \<in> set (ld_errors db)" "1 \<le> lr_attempts r0"
        using row_ofD [OF inv] inv by (auto simp: ledger_inv_def row_ok_def)
      have r0fk: "lr_item r0 \<in> it_id ` set (ld_items db)" "lr_setter r0 \<in> fst ` set (ld_setters db)"
        using r0(1) inv by (auto simp: ledger_inv_def)
      consider "r \<in> set (ld_errors db)" | "r = update_row now cls (it_type item) x r0"
        using m rows Some by auto
      then show ?thesis
      proof cases
        case 1
        then show ?thesis using inv by (auto simp: ledger_inv_def)
      next
        case 2
        have "lr_item r = lr_item r0" "lr_setter r = lr_setter r0" using 2 by (simp_all add: update_row_def)
        then show ?thesis using r0fk new_ok(1) [OF r0(2)] 2 by simp
      qed
    qed
    ultimately show ?thesis using inv c(5) by (simp add: ledger_inv_def)
  qed
  show ?thesis by (rule that [OF c(1-4) _ _ rows inv']) (use c(5) in simp_all)
qed

lemma upsert_failed: "upsert_extraction_error now x db = (db', Inl e) \<Longrightarrow> db' = db"
  by (auto simp: upsert_extraction_error_def split: option.splits if_splits)

lemma filter_inv: "ledger_inv db \<Longrightarrow> ledger_inv (db\<lparr>ld_errors := filter P (ld_errors db)\<rparr>)"
  by (auto simp: ledger_inv_def distinct_map_filter)

lemma delete_inv: "ledger_inv db \<Longrightarrow> ledger_inv (fst (delete_extraction_error sha name db))"
  by (auto simp: delete_extraction_error_def Let_def filter_inv split: option.splits)

lemma delete_blocked_inv: "ledger_inv db \<Longrightarrow> ledger_inv (fst (delete_blocked_errors bs db))"
  by (auto simp: delete_blocked_errors_def Let_def filter_inv)

lemma delete_item_inv: "ledger_inv db \<Longrightarrow> ledger_inv (delete_index_item item db)"
  by (auto simp: delete_index_item_def ledger_inv_def distinct_map_filter)

lemma fresh_setter_id: "(i, n) \<in> set ss \<Longrightarrow> i < foldr (\<lambda>(i, _) n. max (i + 1) n) ss (1 :: int)"
  by (induction ss) auto

lemma upsert_setter_inv:
  assumes "ledger_inv db"
  shows "ledger_inv (upsert_setter name db)"
proof (cases "setter_of name db")
  case None
  let ?i = "foldr (\<lambda>(i, _) n. max (i + 1) n) (ld_setters db) 1"
  have "name \<notin> snd ` set (ld_setters db)"
    using None find_NoneD [of "\<lambda>(_, n). n = name" "ld_setters db"] by (auto simp: setter_of_def)
  moreover have "?i \<notin> fst ` set (ld_setters db)" using fresh_setter_id [of _ _ "ld_setters db"] by force
  ultimately show ?thesis using assms None by (auto simp: upsert_setter_def ledger_inv_def)
qed (use assms in \<open>simp add: upsert_setter_def\<close>)

section \<open>Attempts count runs\<close>

text \<open>
  The life of a ledger, with the jobs that recorded a failure for each pair since its row was
  made.  Jobs run one after the other with growing ids (\<open>data_jobs\<close> never reuses one).
\<close>

inductive ledger_run :: "ledger_db \<Rightarrow> (int \<times> int \<Rightarrow> int set) \<Rightarrow> int \<Rightarrow> bool" where
  start: "ledger_inv db \<Longrightarrow> ld_errors db = [] \<Longrightarrow> ledger_run db (\<lambda>_. {}) 0"
| next_job: "ledger_run db g j \<Longrightarrow> j < j' \<Longrightarrow> ledger_run db g j'"
| failed: "ledger_run db g j \<Longrightarrow> upsert_extraction_error now x db = (db', Inr ()) \<Longrightarrow> xr_job x = Some j \<Longrightarrow>
    item_of (xr_sha256 x) db = Some item \<Longrightarrow> setter_of (xr_setter x) db = Some setter \<Longrightarrow>
    ledger_run db' (g((it_id item, setter) :=
      insert j (if row_of (it_id item) setter db = None then {} else g (it_id item, setter)))) j"
| succeeded: "ledger_run db g j \<Longrightarrow> ledger_run (fst (delete_extraction_error sha name db)) g j"
| healed: "ledger_run db g j \<Longrightarrow> ledger_run (fst (delete_blocked_errors bs db)) g j"
| item_gone: "ledger_run db g j \<Longrightarrow> ledger_run (delete_index_item item db) g j"
| new_item: "ledger_run db g j \<Longrightarrow> it_id i \<notin> it_id ` set (ld_items db) \<Longrightarrow> it_sha256 i \<notin> it_sha256 ` set (ld_items db) \<Longrightarrow>
    ledger_run (db\<lparr>ld_items := ld_items db @ [i]\<rparr>) g j"
| new_setter: "ledger_run db g j \<Longrightarrow> ledger_run (upsert_setter name db) g j"

definition counted :: "(int \<times> int \<Rightarrow> int set) \<Rightarrow> int \<Rightarrow> ledger_row \<Rightarrow> bool" where
  "counted g j r \<longleftrightarrow>
     finite (g (pair_of r)) \<and> lr_attempts r = int (card (g (pair_of r))) \<and>
     (\<exists>k \<in> g (pair_of r). lr_last_job r = Some k \<and> (\<forall>i \<in> g (pair_of r). i \<le> k)) \<and> (\<forall>i \<in> g (pair_of r). i \<le> j)"

lemma counted_filter: "\<forall>r \<in> set rows. counted g j r \<Longrightarrow> \<forall>r \<in> set (filter P rows). counted g j r"
  by simp

lemma ledger_run_inv: "ledger_run db g j \<Longrightarrow> ledger_inv db \<and> (\<forall>r \<in> set (ld_errors db). counted g j r)"
proof (induction rule: ledger_run.induct)
  case (next_job db g j j')
  then show ?case by (fastforce simp: counted_def)
next
  case (failed db g j now x db' item setter)
  have inv: "ledger_inv db" and old: "\<forall>r \<in> set (ld_errors db). counted g j r" using failed.IH by simp_all
  let ?p = "(it_id item, setter)"
  let ?g = "g(?p := insert j (if row_of (it_id item) setter db = None then {} else g ?p))"
  obtain cls item' setter' where c: "item_of (xr_sha256 x) db = Some item'" "setter_of (xr_setter x) db = Some setter'"
    "set (ld_errors db') = {r \<in> set (ld_errors db). pair_of r \<noteq> (it_id item', setter')} \<union>
       {case row_of (it_id item') setter' db of
          Some r0 \<Rightarrow> update_row now cls (it_type item') x r0
        | None \<Rightarrow> new_row now cls (it_id item') setter' (it_type item') x (next_row_id (ld_errors db))}" "ledger_inv db'"
    by (rule upsert_cases [OF inv failed.hyps(2)])
  have e: "item' = item" "setter' = setter" using c(1,2) failed.hyps(4,5) by simp_all
  note up = c(3) [unfolded e] c(4)
  have "counted ?g j r" if m: "r \<in> set (ld_errors db')" for r
  proof (cases "row_of (it_id item) setter db")
    case None
    consider "r \<in> set (ld_errors db)" "pair_of r \<noteq> ?p"
      | "r = new_row now cls (it_id item) setter (it_type item) x (next_row_id (ld_errors db))"
      using m up(1) None by auto
    then show ?thesis
    proof cases
      case 1
      then show ?thesis using old by (auto simp: counted_def)
    next
      case 2
      then have "pair_of r = ?p" "lr_last_job r = Some j" "lr_attempts r = 1"
        using failed.hyps(3) by (simp_all add: new_row_def pair_of_def)
      then show ?thesis using None by (simp add: counted_def)
    qed
  next
    case (Some r0)
    have r0: "counted g j r0" "pair_of r0 = ?p" using Some row_ofD [OF inv] old by (auto simp: pair_of_def)
    consider "r \<in> set (ld_errors db)" "pair_of r \<noteq> ?p" | "r = update_row now cls (it_type item) x r0"
      using m up(1) Some by auto
    then show ?thesis
    proof cases
      case 1
      then show ?thesis using old by (auto simp: counted_def)
    next
      case 2
      have sel: "pair_of r = ?p" "lr_last_job r = Some j"
        "lr_attempts r = (if lr_last_job r0 \<noteq> Some j then lr_attempts r0 + 1 else lr_attempts r0)"
        using 2 failed.hyps(3) r0(2) by (simp_all add: update_row_def pair_of_def)
      obtain k where k: "k \<in> g ?p" "lr_last_job r0 = Some k" "\<forall>i \<in> g ?p. i \<le> k" "\<forall>i \<in> g ?p. i \<le> j" "finite (g ?p)"
        "lr_attempts r0 = int (card (g ?p))"
        using r0 unfolding counted_def by auto
      have "j \<in> g ?p \<longleftrightarrow> k = j" using k(1,3,4) by (metis order_antisym)
      then have "lr_attempts r = int (card (insert j (g ?p)))"
        using k(2,5,6) sel(3) by (auto simp: insert_absorb)
      then show ?thesis using sel(1,2) k(4,5) Some by (simp add: counted_def)
    qed
  qed
  with up(2) show ?case by blast
next
  case (succeeded db g j sha name)
  have "ledger_inv (fst (delete_extraction_error sha name db))" using succeeded.IH by (simp add: delete_inv)
  moreover have "\<forall>r \<in> set (ld_errors (fst (delete_extraction_error sha name db))). counted g j r"
    using succeeded.IH by (auto simp: delete_extraction_error_def Let_def split: option.splits)
  ultimately show ?case by blast
next
  case (healed db g j bs)
  have "ledger_inv (fst (delete_blocked_errors bs db))" using healed.IH by (simp add: delete_blocked_inv)
  moreover have "\<forall>r \<in> set (ld_errors (fst (delete_blocked_errors bs db))). counted g j r"
    using healed.IH by (auto simp: delete_blocked_errors_def Let_def)
  ultimately show ?case by blast
next
  case (item_gone db g j item)
  then show ?case using delete_item_inv [of db item] by (auto simp: delete_index_item_def)
next
  case (new_item db g j i)
  then show ?case by (auto simp: ledger_inv_def)
next
  case (new_setter db g j name)
  then show ?case using upsert_setter_inv [of db name] by (auto simp: upsert_setter_def split: option.splits)
qed simp

text \<open>
  C19. The ledger counts runs.  Whatever happened -- failures recorded any number of times by each
  job, successes, healed dependencies, items deleted and added -- the attempts of a row are the
  number of distinct jobs that saw the failure since the row was made, every row satisfies the
  constraints of the table, and the work query leaves an item out for a setter exactly when as many
  jobs saw it fail as its last verdict asks for.
\<close>

theorem attempts_count_runs:
  assumes "ledger_run db g j"
  shows "(\<forall>r \<in> set (ld_errors db). finite (g (pair_of r)) \<and> lr_attempts r = int (card (g (pair_of r))) \<and> row_ok r) \<and>
    (failed_for name item db \<longleftrightarrow>
       (\<exists>setter r. (setter, name) \<in> set (ld_setters db) \<and> r \<in> set (ld_errors db) \<and> pair_of r = (item, setter) \<and>
          lr_skip_after r \<le> int (card (g (item, setter)))))"
proof -
  have inv: "ledger_inv db" "\<forall>r \<in> set (ld_errors db). counted g j r" using ledger_run_inv [OF assms] by simp_all
  have "failed_for name item db \<longleftrightarrow> (\<exists>setter r. (setter, name) \<in> set (ld_setters db) \<and> r \<in> set (ld_errors db) \<and>
      pair_of r = (item, setter) \<and> lr_skip_after r \<le> lr_attempts r)"
    unfolding failed_for_def list_ex_iff pair_of_def by auto
  moreover have "lr_attempts r = int (card (g (item, setter)))" if "r \<in> set (ld_errors db)" "pair_of r = (item, setter)" for r setter
    using inv(2) that by (auto simp: counted_def)
  ultimately have "failed_for name item db \<longleftrightarrow> (\<exists>setter r. (setter, name) \<in> set (ld_setters db) \<and> r \<in> set (ld_errors db) \<and>
      pair_of r = (item, setter) \<and> lr_skip_after r \<le> int (card (g (item, setter))))"
    by (simp cong: conj_cong)
  moreover have "\<forall>r \<in> set (ld_errors db). finite (g (pair_of r)) \<and> lr_attempts r = int (card (g (pair_of r))) \<and> row_ok r"
    using inv by (simp add: ledger_inv_def counted_def)
  ultimately show ?thesis by blast
qed

section \<open>The audit list\<close>

text \<open>What the filters say, as conditions on a row.\<close>

definition audited :: "error_filters \<Rightarrow> ledger_db \<Rightarrow> ledger_row \<Rightarrow> bool" where
  "audited f db r \<longleftrightarrow>
     (\<forall>n. ef_setter f = Some n \<longrightarrow> (lr_setter r, n) \<in> set (ld_setters db)) \<and>
     (\<forall>c. ef_class f = Some c \<longrightarrow> lr_class r = c) \<and> (\<forall>st. ef_stage f = Some st \<longrightarrow> lr_stage r = st) \<and>
     (\<forall>p. ef_mime_prefix f = Some p \<longrightarrow> prefix p (lr_mime r))"

definition scalar_texts :: "error_filters \<Rightarrow> ledger_db \<Rightarrow> bool" where
  "scalar_texts f db \<longleftrightarrow> (\<forall>r \<in> set (ld_errors db). list_all is_scalar (lr_mime r)) \<and>
     (\<forall>p. ef_mime_prefix f = Some p \<longrightarrow> list_all is_scalar p)"

lemma mime_filter_prefix:
  assumes "list_all is_scalar p" "list_all is_scalar v"
  shows "mime_filter (Some p) v \<longleftrightarrow> prefix p v"
proof -
  show ?thesis
  proof (cases "prefix_upper_bound p")
    case None
    then show ?thesis
      using range_is_prefix [OF assms] utf8s_less_iff(2) [OF assms] by (auto simp: mime_filter_def)
  next
    case (Some u)
    have "list_all is_scalar u" using upper_bound_scalars [OF assms(1)] Some by simp
    note l = utf8s_less_iff(1) [OF assms(2) this] utf8s_less_iff(2) [OF assms]
    have "p \<noteq> []" using Some by auto
    then show ?thesis using Some range_is_prefix [OF assms] by (simp add: mime_filter_def l)
  qed
qed

lemma audit_filters_iff:
  assumes "ledger_inv db" "scalar_texts f db" "r \<in> set (ld_errors db)"
  shows "audit_filters f db r \<longleftrightarrow> audited f db r"
proof -
  have fk: "\<exists>i \<in> set (ld_items db). it_id i = lr_item r" "\<exists>n. (lr_setter r, n) \<in> set (ld_setters db)"
    using assms(1,3) by (force simp: ledger_inv_def)+
  have names: "(lr_setter r, n) \<in> set (ld_setters db) \<Longrightarrow> (lr_setter r, m) \<in> set (ld_setters db) \<Longrightarrow> n = m" for n m
    by (rule eq_key_imp_eq_value [of "ld_setters db" "lr_setter r"]) (use assms(1) in \<open>simp_all add: ledger_inv_def\<close>)
  have mime: "mime_filter (ef_mime_prefix f) (lr_mime r) \<longleftrightarrow> (\<forall>p. ef_mime_prefix f = Some p \<longrightarrow> prefix p (lr_mime r))"
  proof (cases "ef_mime_prefix f")
    case None
    then show ?thesis by (simp add: mime_filter_def)
  next
    case (Some p)
    then show ?thesis using mime_filter_prefix [of p "lr_mime r"] assms(2,3) by (simp add: scalar_texts_def)
  qed
  show ?thesis
    unfolding audit_filters_def audited_def mime using fk names
    by (auto simp: equals_filter_def split: option.splits)
qed

lemma concat_pages:
  "concat (map (\<lambda>k. take n (drop (k * n) xs)) [0..<m]) = take (m * n) xs"
  by (induction m) (simp_all flip: take_add add: add.commute)

text \<open>
  C27. The audit surface pages through exactly the failures it counts: pages of any size, read until
  the count is reached, hold every row that matches the filters -- the media type by prefix -- once,
  and no other row, newest first.
\<close>

theorem audit_pages_are_complete:
  assumes "ledger_inv db" "scalar_texts f db" "1 \<le> n" "n \<le> 1000" "count_extraction_errors f db \<le> m * n"
  shows "let rows = concat (map (\<lambda>k. list_extraction_errors (f\<lparr>ef_limit := Some (int n), ef_offset := int (k * n)\<rparr>) db) [0..<m]) in
    set rows = {r \<in> set (ld_errors db). audited f db r} \<and> distinct rows \<and> length rows = count_extraction_errors f db \<and>
    sorted_wrt (\<lambda>a b. (lr_last_seen b, lr_id b) \<le> (lr_last_seen a, lr_id a)) rows"
proof -
  let ?match = "filter (audit_filters f db) (ld_errors db)"
  let ?all = "rev (sort_key (\<lambda>r. (lr_last_seen r, lr_id r)) ?match)"
  have same: "audit_filters (f\<lparr>ef_limit := l, ef_offset := o'\<rparr>) db = audit_filters f db" for l o'
    by (simp add: audit_filters_def fun_eq_iff)
  have "nat (clamp_list_limit (Some (int n))) = n"
    using assms(3,4) by (simp add: clamp_list_limit_def max_list_limit_def)
  then have page: "list_extraction_errors (f\<lparr>ef_limit := Some (int n), ef_offset := int (k * n)\<rparr>) db = take n (drop (k * n) ?all)" for k
    by (simp add: list_extraction_errors_def same nat_mult_distrib)
  have len: "length ?all = count_extraction_errors f db" by (simp add: count_extraction_errors_def)
  have all: "concat (map (\<lambda>k. list_extraction_errors (f\<lparr>ef_limit := Some (int n), ef_offset := int (k * n)\<rparr>) db) [0..<m]) = ?all"
    unfolding page concat_pages using assms(5) len by simp
  have "distinct ?match" using assms(1) by (auto simp: ledger_inv_def distinct_map)
  moreover have "set ?all = {r \<in> set (ld_errors db). audited f db r}" using audit_filters_iff [OF assms(1,2)] by auto
  moreover have "sorted_wrt (\<lambda>a b. (lr_last_seen b, lr_id b) \<le> (lr_last_seen a, lr_id a)) ?all"
    using sorted_sort_key [of "\<lambda>r. (lr_last_seen r, lr_id r)" ?match]
    unfolding sorted_wrt_rev sorted_wrt_map .
  ultimately show ?thesis unfolding all Let_def using len by simp
qed

section \<open>An item that fails in two runs\<close>

definition sample_item :: index_item where
  "sample_item = \<lparr>it_id = 1, it_sha256 = ''aa'', it_type = [0x69, 0x6D, 0x67, 0x2F, 0x61]\<rparr>"

definition sample_ledger :: ledger_db where
  "sample_ledger = \<lparr>ld_items = [sample_item], ld_setters = [(1, ''clip'')], ld_errors = []\<rparr>"

definition sample_failure :: "int \<Rightarrow> extraction_error_record" where
  "sample_failure job = \<lparr>xr_sha256 = ''aa'', xr_setter = ''clip'', xr_stage = ''prepare'', xr_kind = InputError,
     xr_error = ''bad'', xr_skip_after = 2, xr_job = Some job\<rparr>"

definition sample_row :: "int \<Rightarrow> int \<Rightarrow> ledger_row" where
  "sample_row attempts job = \<lparr>lr_id = 1, lr_item = 1, lr_setter = 1, lr_stage = ''prepare'', lr_class = ''input'',
     lr_blocker = None, lr_mime = it_type sample_item, lr_error = ''bad'', lr_skip_after = 2, lr_attempts = attempts,
     lr_last_job = Some job, lr_first_seen = ''t'', lr_last_seen = ''t''\<rparr>"

lemma sample_lookups:
  "item_of ''aa'' (sample_ledger\<lparr>ld_errors := rows\<rparr>) = Some sample_item"
  "setter_of ''clip'' (sample_ledger\<lparr>ld_errors := rows\<rparr>) = Some 1"
  by (simp_all add: sample_ledger_def sample_item_def item_of_def setter_of_def)

lemma sample_upserts:
  "upsert_extraction_error ''t'' (sample_failure j) (sample_ledger\<lparr>ld_errors := []\<rparr>) = (sample_ledger\<lparr>ld_errors := [sample_row 1 j]\<rparr>, Inr ())"
  "upsert_extraction_error ''t'' (sample_failure j) (sample_ledger\<lparr>ld_errors := [sample_row n k]\<rparr>) =
     (sample_ledger\<lparr>ld_errors := [sample_row (if k \<noteq> j then n + 1 else n) j]\<rparr>, Inr ())"
  using sample_lookups
  by (simp_all add: upsert_extraction_error_def sample_failure_def row_of_def new_row_def next_row_id_def
      truncate_error_def max_error_bytes_def sample_row_def sample_item_def update_row_def)

lemma sample_fail:
  assumes "ledger_run (sample_ledger\<lparr>ld_errors := rows\<rparr>) g j"
    "upsert_extraction_error ''t'' (sample_failure j) (sample_ledger\<lparr>ld_errors := rows\<rparr>) = (sample_ledger\<lparr>ld_errors := rows'\<rparr>, Inr ())"
  shows "ledger_run (sample_ledger\<lparr>ld_errors := rows'\<rparr>)
    (g((1, 1) := insert j (if row_of 1 1 (sample_ledger\<lparr>ld_errors := rows\<rparr>) = None then {} else g (1, 1)))) j"
proof -
  have one: "it_id sample_item = 1" by (simp add: sample_item_def)
  show ?thesis
    using ledger_run.failed [OF assms, of sample_item 1, unfolded one] by (simp add: sample_failure_def sample_lookups)
qed

lemma sample_run: "ledger_run (sample_ledger\<lparr>ld_errors := [sample_row 2 7]\<rparr>) ((\<lambda>_. {})((1, 1) := {7, 5})) 7"
proof -
  let ?db = "\<lambda>rows. sample_ledger\<lparr>ld_errors := rows\<rparr>"
  have row: "row_of 1 1 (?db [sample_row n k]) \<noteq> None" for n k by (simp add: row_of_def sample_row_def)
  have "ledger_run (?db []) (\<lambda>_. {}) 0"
    by (rule ledger_run.start) (simp_all add: sample_ledger_def sample_item_def ledger_inv_def)
  then have "ledger_run (?db []) (\<lambda>_. {}) 5" by (rule ledger_run.next_job) simp
  from sample_fail [OF this sample_upserts(1)]
  have "ledger_run (?db [sample_row 1 5]) ((\<lambda>_. {})((1, 1) := {5})) 5" by (simp cong: if_cong)
  from sample_fail [OF this sample_upserts(2)]
  have "ledger_run (?db [sample_row 1 5]) ((\<lambda>_. {})((1, 1) := {5})) 5" by (simp add: row)
  then have "ledger_run (?db [sample_row 1 5]) ((\<lambda>_. {})((1, 1) := {5})) 7" by (rule ledger_run.next_job) simp
  from sample_fail [OF this sample_upserts(2)]
  show ?thesis by (simp add: row)
qed

lemma attempts_count_runs_witness: "failed_for ''clip'' 1 (sample_ledger\<lparr>ld_errors := [sample_row 2 7]\<rparr>)"
  using attempts_count_runs [OF sample_run, of "''clip''" 1]
  by (simp add: sample_ledger_def sample_row_def pair_of_def)

lemma audit_pages_are_complete_witness:
  "concat (map (\<lambda>k. list_extraction_errors \<lparr>ef_setter = Some ''clip'', ef_class = None, ef_stage = None,
       ef_mime_prefix = Some [0x69, 0x6D, 0x67, 0x2F], ef_limit = Some 1, ef_offset = int k\<rparr>
       (sample_ledger\<lparr>ld_errors := [sample_row 2 7]\<rparr>)) [0..<2]) = [sample_row 2 7]"
proof -
  let ?f = "\<lparr>ef_setter = Some ''clip'', ef_class = None, ef_stage = None, ef_mime_prefix = Some [0x69, 0x6D, 0x67, 0x2F],
    ef_limit = None, ef_offset = 0\<rparr>"
  let ?db = "sample_ledger\<lparr>ld_errors := [sample_row 2 7]\<rparr>"
  have inv: "ledger_inv ?db" using ledger_run_inv [OF sample_run] by simp
  have sc: "scalar_texts ?f ?db"
    by (simp add: scalar_texts_def sample_ledger_def sample_row_def sample_item_def is_scalar_def char_max_def)
  have "audited ?f ?db (sample_row 2 7)"
    by (simp add: audited_def sample_ledger_def sample_row_def sample_item_def)
  then have rows: "{r \<in> set (ld_errors ?db). audited ?f ?db r} = {sample_row 2 7}" by auto
  have "count_extraction_errors ?f ?db \<le> 2 * 1" by (simp add: count_extraction_errors_def)
  from audit_pages_are_complete [OF inv sc _ _ this]
  have "set (concat (map (\<lambda>k. list_extraction_errors (?f\<lparr>ef_limit := Some (int 1), ef_offset := int (k * 1)\<rparr>) ?db) [0..<2])) = {sample_row 2 7} \<and>
      distinct (concat (map (\<lambda>k. list_extraction_errors (?f\<lparr>ef_limit := Some (int 1), ef_offset := int (k * 1)\<rparr>) ?db) [0..<2]))"
    unfolding rows Let_def by simp
  moreover have "xs = [x]" if "set xs = {x}" "distinct xs" for xs :: "ledger_row list" and x
  proof -
    have "length xs = 1" using that distinct_card [of xs] by simp
    then obtain y where "xs = [y]" by (auto simp: length_Suc_conv)
    then show ?thesis using that(1) by simp
  qed
  ultimately show ?thesis by simp
qed

end
