(* ===== verification/ItemInference.thy ===== *)
theory ItemInference
  imports Prelude Web
begin

text \<open>
  Inference over one item of an extraction job (\<open>panoptikon/src/jobs/extraction.rs\<close>): the item's
  inputs go out in chunks, a chunk that fails as a whole is retried one input at a time, and the
  outputs that come back are put together with the typed errors of the inputs that were rejected.
  A prediction is a function of the batch cap, the inputs and a state \<open>'w\<close> of the outside (the
  endpoint pool and its servers); outputs are JSON values of type \<open>'j\<close> or byte buffers of type
  \<open>'b\<close>.
\<close>

section \<open>Responses\<close>

datatype ('j, 'b) predict_output = Json "'j list" | Binary "'b list"

fun output_len :: "('j, 'b) predict_output \<Rightarrow> nat" where
  "output_len (Json vs) = length vs"
| "output_len (Binary bs) = length bs"

datatype slot_class = InputSlot | TransientSlot

record slot_error =
  sl_index :: nat
  sl_class :: slot_class
  sl_message :: string

record ('j, 'b) predict_response =
  rs_outputs :: "('j, 'b) predict_output"
  rs_errors :: "slot_error list"

datatype predict_error =
    ProtocolViolation string
  | OtherFailure string
  | MixedOutputs
  | NoOutputs
  | InputFailedAlone nat predict_error
  | IsolationFailed predict_error predict_error

text \<open>\<open>downcast_ref\<close> sees through the contexts an error was given.\<close>

fun is_protocol_violation :: "predict_error \<Rightarrow> bool" where
  "is_protocol_violation (ProtocolViolation m) = True"
| "is_protocol_violation (InputFailedAlone i e) = is_protocol_violation e"
| "is_protocol_violation (IsolationFailed m e) = is_protocol_violation e"
| "is_protocol_violation _ = False"

fun merge_outputs :: "('j, 'b) predict_output \<Rightarrow> ('j, 'b) predict_output \<Rightarrow> predict_error + ('j, 'b) predict_output" where
  "merge_outputs (Json a) (Json b) = Inr (Json (a @ b))"
| "merge_outputs (Binary a) (Binary b) = Inr (Binary (a @ b))"
| "merge_outputs _ _ = Inl MixedOutputs"

text \<open>Outputs that are empty are never merged.\<close>

definition merge_into :: "('j, 'b) predict_output option \<Rightarrow> ('j, 'b) predict_output \<Rightarrow>
    predict_error + ('j, 'b) predict_output option" where
  "merge_into merged outputs =
     (if output_len outputs = 0 then Inr merged
      else case merged of
        None \<Rightarrow> Inr (Some outputs)
      | Some previous \<Rightarrow> (case merge_outputs previous outputs of Inl e \<Rightarrow> Inl e | Inr m \<Rightarrow> Inr (Some m)))"

definition shift_error :: "nat \<Rightarrow> slot_error \<Rightarrow> slot_error" where
  "shift_error base e = e\<lparr>sl_index := sl_index e + base\<rparr>"

section \<open>Chunks and isolation\<close>

type_synonym ('w, 'i, 'j, 'b) predictor =
  "nat \<Rightarrow> 'i list \<Rightarrow> 'w \<Rightarrow> 'w \<times> (predict_error + ('j, 'b) predict_response)"

definition isolation_max_batch :: nat where
  "isolation_max_batch = 1"

fun isolate_loop :: "('w, 'i, 'j, 'b) predictor \<Rightarrow> nat \<Rightarrow> 'i list \<Rightarrow> ('j, 'b) predict_output option \<Rightarrow> slot_error list \<Rightarrow>
    'w \<Rightarrow> 'w \<times> (predict_error + ('j, 'b) predict_response)" where
  "isolate_loop predict i [] merged errors w =
     (w, Inr \<lparr>rs_outputs = (case merged of Some m \<Rightarrow> m | None \<Rightarrow> Json []), rs_errors = errors\<rparr>)"
| "isolate_loop predict i (x # xs) merged errors w =
     (case predict isolation_max_batch [x] w of
        (w', Inl e) \<Rightarrow> (w', Inl (InputFailedAlone i e))
      | (w', Inr r) \<Rightarrow>
          (case merge_into merged (rs_outputs r) of
             Inl e \<Rightarrow> (w', Inl e)
           | Inr merged' \<Rightarrow>
               isolate_loop predict (i + 1) xs merged' (errors @ map (shift_error i) (rs_errors r)) w'))"

definition isolate_inputs :: "('w, 'i, 'j, 'b) predictor \<Rightarrow> 'i list \<Rightarrow> 'w \<Rightarrow>
    'w \<times> (predict_error + ('j, 'b) predict_response)" where
  "isolate_inputs predict inputs w = isolate_loop predict 0 inputs None [] w"

text \<open>\<open>slice::chunks\<close>, of a size that is not zero.\<close>

function chunks :: "nat \<Rightarrow> 'a list \<Rightarrow> 'a list list" where
  "chunks n [] = []"
| "chunks n (x # xs) = take (max n 1) (x # xs) # chunks n (drop (max n 1) (x # xs))"
  by pat_completeness auto
termination by (relation "measure (\<lambda>(n, xs). length xs)") auto

fun chunk_loop :: "('w, 'i, 'j, 'b) predictor \<Rightarrow> nat \<Rightarrow> 'i list list \<Rightarrow> nat \<Rightarrow> ('j, 'b) predict_output option \<Rightarrow>
    slot_error list \<Rightarrow> 'w \<Rightarrow> 'w \<times> (predict_error + ('j, 'b) predict_output option \<times> slot_error list)" where
  "chunk_loop predict cap [] base merged slot_errors w = (w, Inr (merged, slot_errors))"
| "chunk_loop predict cap (c # cs) base merged slot_errors w =
     (case (case predict cap c w of
              (w', Inr r) \<Rightarrow> (w', Inr r)
            | (w', Inl e) \<Rightarrow>
                if is_protocol_violation e then (w', Inl e)
                else if length c > 1
                then (case isolate_inputs predict c w' of
                        (w'', Inl e') \<Rightarrow> (w'', Inl (IsolationFailed e e'))
                      | (w'', Inr r) \<Rightarrow> (w'', Inr r))
                else (w', Inl e)) of
        (w', Inl e) \<Rightarrow> (w', Inl e)
      | (w', Inr r) \<Rightarrow>
          (case merge_into merged (rs_outputs r) of
             Inl e \<Rightarrow> (w', Inl e)
           | Inr merged' \<Rightarrow>
               chunk_loop predict cap cs (base + length c) merged'
                 (slot_errors @ map (shift_error base) (rs_errors r)) w'))"

definition run_chunked_inference :: "('w, 'i, 'j, 'b) predictor \<Rightarrow> nat \<Rightarrow> 'i list \<Rightarrow> 'w \<Rightarrow>
    'w \<times> (predict_error + ('j, 'b) predict_response)" where
  "run_chunked_inference predict unit_capacity inputs w =
     (let chunk_size = max unit_capacity 1 in
      case chunk_loop predict (min chunk_size u32_max) (chunks chunk_size inputs) 0 None [] w of
        (w', Inl e) \<Rightarrow> (w', Inl e)
      | (w', Inr (Some outputs, slot_errors)) \<Rightarrow> (w', Inr \<lparr>rs_outputs = outputs, rs_errors = slot_errors\<rparr>)
      | (w', Inr (None, slot_errors)) \<Rightarrow>
          if slot_errors \<noteq> [] then (w', Inr \<lparr>rs_outputs = Json [], rs_errors = slot_errors\<rparr>)
          else (w', Inl NoOutputs))"

section \<open>Reading the typed errors\<close>

definition surviving_input_indices :: "nat \<Rightarrow> slot_error list \<Rightarrow> nat list option" where
  "surviving_input_indices total_inputs errors =
     (if errors = [] then None
      else Some (filter (\<lambda>i. i \<notin> set (map sl_index errors)) [0..<total_inputs]))"

fun slot_class_str :: "slot_class \<Rightarrow> string" where
  "slot_class_str InputSlot = ''input''"
| "slot_class_str TransientSlot = ''transient''"

definition slot_class_parse :: "string \<Rightarrow> slot_class option" where
  "slot_class_parse v =
     (if v = ''input'' then Some InputSlot else if v = ''transient'' then Some TransientSlot else None)"

definition summarize_slot_errors :: "nat \<Rightarrow> slot_error list \<Rightarrow> string" where
  "summarize_slot_errors total_inputs errors =
     (case errors of
        [] \<Rightarrow> ''inference reported no outputs''
      | first # _ \<Rightarrow>
          (let lead = (case find (\<lambda>e. sl_class e \<noteq> InputSlot) errors of Some e \<Rightarrow> e | None \<Rightarrow> first);
               scope = (if length errors = 1 \<and> total_inputs \<le> 1 then ''the input''
                 else if length errors \<ge> total_inputs
                 then ''all '' @ show_nat (length errors) @ '' inputs''
                 else show_nat (length errors) @ '' of '' @ show_nat total_inputs @ '' inputs'')
           in ''worker rejected '' @ scope @ '' ('' @ slot_class_str (sl_class lead) @ ''): '' @ sl_message lead))"

datatype slot_verdict = Proceed | TransientVerdict string | InputMedia string

definition classify_slot_errors :: "nat \<Rightarrow> slot_error list \<Rightarrow> bool \<Rightarrow> slot_verdict" where
  "classify_slot_errors total_inputs errors text_entity =
     (if errors = [] then Proceed
      else let detail = summarize_slot_errors total_inputs errors in
        if \<not> list_all (\<lambda>e. sl_class e = InputSlot) errors then TransientVerdict detail
        else if length errors < total_inputs then Proceed
        else if text_entity
        then TransientVerdict (detail @ '' (text-entity model: a per-segment verdict is not recorded against the item)'')
        else InputMedia detail)"

section \<open>A server that answers input by input\<close>

text \<open>
  What a server whose worker treats each input on its own answers to a batch: the outputs of the
  inputs it accepts, in order, and a typed error for each of the others.
\<close>

definition accepted :: "('i \<Rightarrow> (slot_class \<times> string) + 'o) \<Rightarrow> 'i list \<Rightarrow> 'o list" where
  "accepted unit xs = List.map_filter (\<lambda>x. case unit x of Inr y \<Rightarrow> Some y | Inl _ \<Rightarrow> None) xs"

definition rejected :: "('i \<Rightarrow> (slot_class \<times> string) + 'o) \<Rightarrow> nat \<Rightarrow> 'i list \<Rightarrow> slot_error list" where
  "rejected unit base xs = List.map_filter (\<lambda>(i, x). case unit x of Inr _ \<Rightarrow> None
     | Inl (c, m) \<Rightarrow> Some \<lparr>sl_index = i, sl_class = c, sl_message = m\<rparr>) (enumerate base xs)"

definition unit_reply :: "('o list \<Rightarrow> ('j, 'b) predict_output) \<Rightarrow> ('i \<Rightarrow> (slot_class \<times> string) + 'o) \<Rightarrow> 'i list \<Rightarrow>
    ('j, 'b) predict_response" where
  "unit_reply pack unit xs =
     \<lparr>rs_outputs = (if accepted unit xs = [] then Json [] else pack (accepted unit xs)), rs_errors = rejected unit 0 xs\<rparr>"

text \<open>
  Any batch of several inputs may fail as a whole, as long as the failure is not a protocol
  violation; a single input is answered.
\<close>

definition answers_units :: "('o list \<Rightarrow> ('j, 'b) predict_output) \<Rightarrow> ('i \<Rightarrow> (slot_class \<times> string) + 'o) \<Rightarrow>
    ('w, 'i, 'j, 'b) predictor \<Rightarrow> bool" where
  "answers_units pack unit predict \<longleftrightarrow>
     (\<forall>cap xs w. xs \<noteq> [] \<longrightarrow>
        (case predict cap xs w of
           (_, Inr r) \<Rightarrow> r = unit_reply pack unit xs
         | (_, Inl e) \<Rightarrow> length xs > 1 \<and> \<not> is_protocol_violation e))"

lemma accepted_simps [simp]:
  "accepted unit [] = []"
  "accepted unit (x # xs) = (case unit x of Inr y \<Rightarrow> y # accepted unit xs | Inl _ \<Rightarrow> accepted unit xs)"
  "accepted unit (xs @ ys) = accepted unit xs @ accepted unit ys"
  by (simp_all add: accepted_def List.map_filter_def split: sum.splits)

lemma rejected_simps [simp]:
  "rejected unit base [] = []"
  "rejected unit base (x # xs) = (case unit x of Inr _ \<Rightarrow> rejected unit (Suc base) xs
     | Inl (c, m) \<Rightarrow> \<lparr>sl_index = base, sl_class = c, sl_message = m\<rparr> # rejected unit (Suc base) xs)"
  by (simp_all add: rejected_def List.map_filter_def split: sum.splits prod.splits)

lemma rejected_append: "rejected unit base (xs @ ys) = rejected unit base xs @ rejected unit (base + length xs) ys"
  by (induction xs arbitrary: base) (auto split: sum.splits prod.splits)

lemma rejected_shift: "map (shift_error k) (rejected unit base xs) = rejected unit (base + k) xs"
  by (induction xs arbitrary: base) (auto simp: shift_error_def split: sum.splits prod.splits)

lemma accepted_or_rejected: "accepted unit xs = [] \<Longrightarrow> rejected unit base xs = [] \<Longrightarrow> xs = []"
  by (cases xs) (auto split: sum.splits prod.splits)

text \<open>The merge so far: nothing, or everything accepted so far, packed.\<close>

definition merged_so_far :: "('o list \<Rightarrow> ('j, 'b) predict_output) \<Rightarrow> 'o list \<Rightarrow> ('j, 'b) predict_output option" where
  "merged_so_far pack ys = (if ys = [] then None else Some (pack ys))"

definition packs :: "('o list \<Rightarrow> ('j, 'b) predict_output) \<Rightarrow> bool" where
  "packs pack \<longleftrightarrow> (\<forall>ys. output_len (pack ys) = length ys) \<and> (\<forall>ys zs. merge_outputs (pack ys) (pack zs) = Inr (pack (ys @ zs)))"

lemma merge_into_packed:
  assumes "packs pack"
  shows "merge_into (merged_so_far pack ys) (if zs = [] then Json [] else pack zs) = Inr (merged_so_far pack (ys @ zs))"
  using assms by (auto simp: merge_into_def merged_so_far_def packs_def)

lemma isolate_loop_units:
  assumes "packs pack" "answers_units pack unit predict"
  shows "\<exists>w'. isolate_loop predict i xs (merged_so_far pack ys) errors w =
    (w', Inr \<lparr>rs_outputs = (case merged_so_far pack (ys @ accepted unit xs) of Some m \<Rightarrow> m | None \<Rightarrow> Json []),
              rs_errors = errors @ rejected unit i xs\<rparr>)"
proof (induction xs arbitrary: i ys errors w)
  case Nil
  then show ?case by simp
next
  case (Cons x xs)
  obtain w1 r where p: "predict isolation_max_batch [x] w = (w1, r)" by fastforce
  have "case (w1, r) of (_, Inr r) \<Rightarrow> r = unit_reply pack unit [x] | (_, Inl e) \<Rightarrow> length [x] > 1 \<and> \<not> is_protocol_violation e"
    using assms(2) unfolding answers_units_def by (metis p list.distinct(1))
  then have r: "r = Inr (unit_reply pack unit [x])" by (cases r) auto
  show ?case
    using Cons.IH [of "i + 1" "ys @ accepted unit [x]" "errors @ rejected unit i [x]" w1] p r
    by (simp add: unit_reply_def merge_into_packed [OF assms(1)] rejected_shift rejected_append [of unit i "[x]" xs, simplified]
        del: accepted_simps(2) rejected_simps(2)) (simp split: sum.splits prod.splits)
qed

lemma isolate_units:
  assumes "packs pack" "answers_units pack unit predict"
  shows "\<exists>w'. isolate_inputs predict xs w = (w', Inr (unit_reply pack unit xs))"
  using isolate_loop_units [OF assms, of 0 xs "[]" "[]" w]
  by (auto simp: isolate_inputs_def unit_reply_def merged_so_far_def)

lemma concat_chunks: "concat (chunks n xs) = xs"
  by (induction n xs rule: chunks.induct) (simp_all add: append_take_drop_id)

lemma chunks_nonempty: "c \<in> set (chunks n xs) \<Longrightarrow> c \<noteq> [] \<and> length c \<le> max n 1"
  by (induction n xs rule: chunks.induct) auto

lemma chunk_loop_units:
  assumes "packs pack" "answers_units pack unit predict" "\<forall>c \<in> set cs. c \<noteq> []"
  shows "\<exists>w'. chunk_loop predict cap cs base (merged_so_far pack ys) errors w =
    (w', Inr (merged_so_far pack (ys @ accepted unit (concat cs)), errors @ rejected unit base (concat cs)))"
  using assms(3)
proof (induction cs arbitrary: base ys errors w)
  case Nil
  then show ?case by simp
next
  case (Cons c cs)
  have c: "c \<noteq> []" and cs: "\<forall>c \<in> set cs. c \<noteq> []" using Cons.prems by simp_all
  obtain w1 r where p: "predict cap c w = (w1, r)" by fastforce
  have a: "case (w1, r) of (_, Inr r) \<Rightarrow> r = unit_reply pack unit c | (_, Inl e) \<Rightarrow> length c > 1 \<and> \<not> is_protocol_violation e"
    using assms(2) c unfolding answers_units_def by (metis p)
  obtain w2 where iso: "isolate_inputs predict c w1 = (w2, Inr (unit_reply pack unit c))"
    using isolate_units [OF assms(1,2)] by blast
  have step: "\<exists>w3. chunk_loop predict cap (c # cs) base (merged_so_far pack ys) errors w =
      chunk_loop predict cap cs (base + length c) (merged_so_far pack (ys @ accepted unit c)) (errors @ rejected unit base c) w3"
  proof (cases r)
    case (Inr r')
    then show ?thesis using a p
      by (auto simp: unit_reply_def merge_into_packed [OF assms(1)] rejected_shift)
  next
    case (Inl e)
    then show ?thesis using a p iso
      by (auto simp: unit_reply_def merge_into_packed [OF assms(1)] rejected_shift)
  qed
  then obtain w3 where "chunk_loop predict cap (c # cs) base (merged_so_far pack ys) errors w =
      chunk_loop predict cap cs (base + length c) (merged_so_far pack (ys @ accepted unit c)) (errors @ rejected unit base c) w3"
    by blast
  then show ?case
    using Cons.IH [OF cs, of "base + length c" "ys @ accepted unit c" "errors @ rejected unit base c" w3]
    by (simp add: rejected_append)
qed

end
