(* ===== verification/ExtractionItem.thy ===== *)
theory ExtractionItem
  imports ItemInference FailureLedger
begin

text \<open>
  One item of an extraction job (\<open>panoptikon/src/jobs/extraction.rs\<close>): preparing its inputs,
  inference, the verdict on rejected inputs, the rows that are written, the failure ledger and the
  counters of the job.  Preparing (reading and decoding the media), the servers and the success of
  a database write are given; a JSON value is of type \<open>'j\<close>, an embedding in bytes a \<open>string\<close>, the
  data of an input of type \<open>'d\<close>.
\<close>

section \<open>Errors of the pipeline\<close>

text \<open>\<open>ApiError\<close> without its HTTP status: \<open>bad_request\<close> and \<open>internal\<close> differ in nothing else.\<close>

record item_error =
  ie_detail :: string
  ie_kind :: api_error_kind
  ie_skip_after :: int

definition internal_error :: "string \<Rightarrow> item_error" where
  "internal_error d = \<lparr>ie_detail = d, ie_kind = GenericError, ie_skip_after = skip_after_confirmed\<rparr>"

definition input_error :: "string \<Rightarrow> item_error" where
  "input_error d = \<lparr>ie_detail = d, ie_kind = InputError, ie_skip_after = skip_after_confirmed\<rparr>"

definition skip_after_ambiguous :: int where
  "skip_after_ambiguous = 2"

definition input_unconfirmed :: "string \<Rightarrow> item_error" where
  "input_unconfirmed d = \<lparr>ie_detail = d, ie_kind = InputError, ie_skip_after = skip_after_ambiguous\<rparr>"

definition blocked_error :: "blocker \<Rightarrow> string \<Rightarrow> item_error" where
  "blocked_error b d = \<lparr>ie_detail = d, ie_kind = BlockedError b, ie_skip_after = skip_after_confirmed\<rparr>"

definition resource_error :: "string \<Rightarrow> item_error" where
  "resource_error d = \<lparr>ie_detail = d, ie_kind = ResourceError, ie_skip_after = skip_after_confirmed\<rparr>"

section \<open>Inputs\<close>

datatype inference_file = FileBytes string | FilePath string

record 'd inference_input =
  ii_data :: 'd
  ii_file :: "inference_file option"

text \<open>\<open>set_key\<close> is inserting the key \<open>threshold\<close> in the JSON data of an input.\<close>

definition apply_threshold :: "(f64 \<Rightarrow> 'd \<Rightarrow> 'd) \<Rightarrow> 'd inference_input list \<Rightarrow> f64 option \<Rightarrow> 'd inference_input list" where
  "apply_threshold set_key inputs th =
     (case th of None \<Rightarrow> inputs | Some t \<Rightarrow> map (\<lambda>i. i\<lparr>ii_data := set_key t (ii_data i)\<rparr>) inputs)"

definition input_memory_kib :: "'d inference_input list \<Rightarrow> nat" where
  "input_memory_kib inputs =
     (let bytes = sum_list (map (\<lambda>i. case ii_file i of Some (FileBytes b) \<Rightarrow> length b | _ \<Rightarrow> 0) inputs)
      in min ((bytes + 1023) div 1024) u32_max)"

text \<open>\<open>data_len\<close> is the length of an input's data as text, \<open>file_len\<close> the size of a file, if it has one.\<close>

definition check_frame_budget :: "('d \<Rightarrow> nat) \<Rightarrow> (string \<Rightarrow> nat option) \<Rightarrow> 'd inference_input list \<Rightarrow> nat \<Rightarrow> item_error + unit" where
  "check_frame_budget data_len file_len inputs budget =
     (let bytes = (\<lambda>i. case ii_file i of
            Some (FileBytes b) \<Rightarrow> length b
          | Some (FilePath p) \<Rightarrow> (case file_len p of Some n \<Rightarrow> n | None \<Rightarrow> 0)
          | None \<Rightarrow> 0)
      in case find (\<lambda>i. sat_add (bytes i) (data_len (ii_data i)) > budget) inputs of
        None \<Rightarrow> Inr ()
      | Some i \<Rightarrow> Inl (resource_error (''a single inference input (~'' @
          show_nat ((bytes i + data_len (ii_data i)) div (1024 * 1024)) @
          '' MiB) exceeds the worker transport frame budget of '' @ show_nat (budget div (1024 * 1024)) @
          '' MiB and cannot be sent'')))"

section \<open>Outputs\<close>

text \<open>\<open>output_type\<close> of a model; another name is refused.\<close>

datatype output_kind = TagsOutput | TextOutput | ClipOutput | TextEmbeddingOutput | OtherOutput string

record text_entry =
  te_index :: int
  te_text :: string
  te_language :: "string option"
  te_language_confidence :: "f64 option"
  te_confidence :: "f64 option"

datatype 't output_rows =
    TagRows 't
  | TextRows "text_entry list"
  | ClipRows "(int \<times> string) list"
  | TextEmbeddingRows "int option" "(int \<times> string) list"

record 't output_write =
  ow_job :: int
  ow_setter :: string
  ow_sha256 :: string
  ow_rows :: "'t output_rows"

fun input_index :: "nat list option \<Rightarrow> nat \<Rightarrow> item_error + int" where
  "input_index None position = Inr (int position)"
| "input_index (Some m) position =
     (if position < length m then Inr (int (m ! position))
      else Inl (internal_error (''output position '' @ show_nat position @ '' exceeds the '' @
        show_nat (length m) @ '' surviving inputs'')))"

text \<open>What the handlers read from one output: parsers of JSON and of byte buffers are given.\<close>

record 'j transcription =
  tr_text :: "'j \<Rightarrow> string"
  tr_confidence :: "'j \<Rightarrow> f64 option"
  tr_language :: "'j \<Rightarrow> string option"
  tr_language_confidence :: "'j \<Rightarrow> f64 option"

fun text_entries :: "'j transcription \<Rightarrow> nat list option \<Rightarrow> nat \<Rightarrow> string list \<Rightarrow> 'j list \<Rightarrow> item_error + text_entry list" where
  "text_entries tr survivors position seen [] = Inr []"
| "text_entries tr survivors position seen (v # vs) =
     (let text = trim (tr_text tr v) in
      if length text < 3 then text_entries tr survivors (position + 1) seen vs
      else if to_lower text \<in> set seen then text_entries tr survivors (position + 1) seen vs
      else case input_index survivors position of
        Inl e \<Rightarrow> Inl e
      | Inr i \<Rightarrow>
          (case text_entries tr survivors (position + 1) (to_lower text # seen) vs of
             Inl e \<Rightarrow> Inl e
           | Inr es \<Rightarrow> Inr (\<lparr>te_index = i, te_text = text, te_language = tr_language tr v,
               te_language_confidence = tr_language_confidence tr v, te_confidence = tr_confidence tr v\<rparr> # es)))"

fun clip_entries :: "('o \<Rightarrow> item_error + string) \<Rightarrow> nat list option \<Rightarrow> nat \<Rightarrow> 'o list \<Rightarrow> item_error + (int \<times> string) list" where
  "clip_entries parse survivors position [] = Inr []"
| "clip_entries parse survivors position (v # vs) =
     (case parse v of
        Inl e \<Rightarrow> Inl e
      | Inr embedding \<Rightarrow>
          (case input_index survivors position of
             Inl e \<Rightarrow> Inl e
           | Inr i \<Rightarrow>
               (case clip_entries parse survivors (position + 1) vs of
                  Inl e \<Rightarrow> Inl e
                | Inr es \<Rightarrow> Inr ((i, embedding) # es))))"

fun into_json :: "string \<Rightarrow> ('j, 'b) predict_output \<Rightarrow> item_error + 'j list" where
  "into_json label (Json vs) = Inr vs"
| "into_json label (Binary bs) = Inl (internal_error (''Expected JSON output for '' @ label))"

fun into_binary :: "string \<Rightarrow> ('j, 'b) predict_output \<Rightarrow> item_error + 'b list" where
  "into_binary label (Binary bs) = Inr bs"
| "into_binary label (Json vs) = Inl (internal_error (''Expected binary output for '' @ label))"

text \<open>
  The parsers of one output, and what the tag handler makes of an item's outputs: nothing to write
  when the model asked to skip the item.
\<close>

record ('j, 'b, 't) output_parsers =
  op_transcription :: "'j transcription"
  op_embedding_json :: "'j \<Rightarrow> item_error + string"
  op_embedding_npy :: "'b \<Rightarrow> item_error + string"
  op_embedding_rows :: "'b \<Rightarrow> item_error + string list"
  op_tags :: "'j list \<Rightarrow> item_error + 't option"
  op_no_tags :: 't

record model_metadata =
  mm_group :: string
  mm_setter_name :: string
  mm_target_entities :: "string list"
  mm_output_type :: output_kind
  mm_default_batch_size :: int
  mm_default_threshold :: "f64 option"
  mm_unavailable_reason :: "string option"

record job_item =
  ji_sha256 :: string
  ji_path :: string
  ji_item_type :: string
  ji_data_id :: "int option"

definition placeholder_rows :: "'t \<Rightarrow> model_metadata \<Rightarrow> job_item \<Rightarrow> item_error + 't output_rows" where
  "placeholder_rows no_tags model item =
     (case mm_output_type model of
        TagsOutput \<Rightarrow> Inr (TagRows no_tags)
      | TextOutput \<Rightarrow> Inr (TextRows [])
      | ClipOutput \<Rightarrow> Inr (ClipRows [])
      | TextEmbeddingOutput \<Rightarrow> Inr (TextEmbeddingRows (ji_data_id item) [])
      | OtherOutput other \<Rightarrow> Inl (internal_error (''Unsupported output type: '' @ other)))"

text \<open>The rows of an item's outputs, \<open>None\<close> for an output that is skipped.\<close>

definition output_rows :: "('j, 'b, 't) output_parsers \<Rightarrow> model_metadata \<Rightarrow> job_item \<Rightarrow> ('j, 'b) predict_output \<Rightarrow>
    nat list option \<Rightarrow> item_error + 't output_rows option" where
  "output_rows p model item outputs survivors =
     (case mm_output_type model of
        TagsOutput \<Rightarrow> (case into_json ''tags'' outputs of
            Inl e \<Rightarrow> Inl e
          | Inr vs \<Rightarrow> (case op_tags p vs of Inl e \<Rightarrow> Inl e | Inr t \<Rightarrow> Inr (map_option TagRows t)))
      | TextOutput \<Rightarrow> (case into_json ''text'' outputs of
            Inl e \<Rightarrow> Inl e
          | Inr vs \<Rightarrow> (case text_entries (op_transcription p) survivors 0 [] vs of
                Inl e \<Rightarrow> Inl e | Inr es \<Rightarrow> Inr (Some (TextRows es))))
      | ClipOutput \<Rightarrow>
          (case (case outputs of
                   Json vs \<Rightarrow> clip_entries (op_embedding_json p) survivors 0 vs
                 | Binary bs \<Rightarrow> clip_entries (op_embedding_npy p) survivors 0 bs) of
             Inl e \<Rightarrow> Inl e
           | Inr es \<Rightarrow> Inr (Some (ClipRows es)))
      | TextEmbeddingOutput \<Rightarrow> (case into_binary ''text-embedding'' outputs of
            Inl e \<Rightarrow> Inl e
          | Inr [b] \<Rightarrow> (case op_embedding_rows p b of
                Inl e \<Rightarrow> Inl e
              | Inr rows \<Rightarrow> Inr (Some (TextEmbeddingRows (ji_data_id item)
                  (map (\<lambda>(i, r). (int i, r)) (enumerate 0 rows)))))
          | Inr bs \<Rightarrow> Inl (internal_error (''Text embedding output mismatch: expected 1 buffer, got '' @
              show_nat (length bs))))
      | OtherOutput other \<Rightarrow> Inl (internal_error (''Unsupported output type: '' @ other)))"

section \<open>Counters\<close>

record job_counters =
  jc_processed :: int
  jc_image_files :: int
  jc_video_files :: int
  jc_other_files :: int
  jc_total_segments :: int
  jc_errors :: int
  jc_input_errors :: int
  jc_blocked_errors :: int
  jc_blocked :: "blocker set"

definition no_counters :: job_counters where
  "no_counters = \<lparr>jc_processed = 0, jc_image_files = 0, jc_video_files = 0, jc_other_files = 0,
     jc_total_segments = 0, jc_errors = 0, jc_input_errors = 0, jc_blocked_errors = 0, jc_blocked = {}\<rparr>"

datatype item_outcome = ItemProcessed | ItemFailed | ItemInputFailed "blocker option"

record data_log_update =
  du_image_files :: int
  du_video_files :: int
  du_other_files :: int
  du_total_segments :: int
  du_errors :: int
  du_input_errors :: int
  du_total_remaining :: int
  du_finished :: bool

definition log_update :: "job_counters \<Rightarrow> int \<Rightarrow> bool \<Rightarrow> data_log_update" where
  "log_update c remaining finished =
     \<lparr>du_image_files = jc_image_files c, du_video_files = jc_video_files c, du_other_files = jc_other_files c,
      du_total_segments = jc_total_segments c, du_errors = jc_errors c, du_input_errors = jc_input_errors c,
      du_total_remaining = remaining, du_finished = finished\<rparr>"

definition count_item :: "string \<Rightarrow> int \<Rightarrow> item_outcome \<Rightarrow> job_counters \<Rightarrow> job_counters" where
  "count_item item_type segments outcome c =
     (let c = c\<lparr>jc_processed := jc_processed c + 1, jc_total_segments := jc_total_segments c + segments\<rparr> in
      case outcome of
        ItemProcessed \<Rightarrow>
          (if starts_with item_type ''video'' then c\<lparr>jc_video_files := jc_video_files c + 1\<rparr>
           else if starts_with item_type ''image'' then c\<lparr>jc_image_files := jc_image_files c + 1\<rparr>
           else c\<lparr>jc_other_files := jc_other_files c + 1\<rparr>)
      | ItemFailed \<Rightarrow> c\<lparr>jc_errors := jc_errors c + 1\<rparr>
      | ItemInputFailed b \<Rightarrow>
          (let c = c\<lparr>jc_errors := jc_errors c + 1, jc_input_errors := jc_input_errors c + 1\<rparr> in
           case b of None \<Rightarrow> c
           | Some blocker \<Rightarrow> c\<lparr>jc_blocked_errors := jc_blocked_errors c + 1, jc_blocked := insert blocker (jc_blocked c)\<rparr>))"

text \<open>What the items of a job share: the ledger, the rows written, the counters and the log.\<close>

record 't job_store =
  st_ledger :: ledger_db
  st_writes :: "'t output_write list"
  st_counters :: job_counters
  st_log :: "data_log_update list"

definition finalize_item :: "string \<Rightarrow> int \<Rightarrow> item_outcome \<Rightarrow> int \<Rightarrow> 't job_store \<Rightarrow> 't job_store" where
  "finalize_item item_type segments outcome total_remaining s =
     (let c = count_item item_type segments outcome (st_counters s) in
      s\<lparr>st_counters := c, st_log := st_log s @ [log_update c (total_remaining - jc_processed c) False]\<rparr>)"

section \<open>The ledger of an item\<close>

definition targets_text_entity :: "model_metadata \<Rightarrow> bool" where
  "targets_text_entity model \<longleftrightarrow> mm_target_entities model = [''text'']"

text \<open>What an item meets outside: what preparing it gives, and which writes succeed.\<close>

record 'd item_env =
  en_now :: string
  en_prepared :: "item_error + 'd inference_input list"
  en_output_written :: bool
  en_ledger_written :: bool
  en_ledger_cleared :: bool

definition failure_record :: "model_metadata \<Rightarrow> int \<Rightarrow> string \<Rightarrow> string \<Rightarrow> item_error \<Rightarrow> extraction_error_record" where
  "failure_record model job stage sha err =
     \<lparr>xr_sha256 = sha, xr_setter = mm_setter_name model, xr_stage = stage, xr_kind = ie_kind err,
      xr_error = ie_detail err, xr_skip_after = ie_skip_after err, xr_job = Some job\<rparr>"

definition record_item_failure :: "'d item_env \<Rightarrow> model_metadata \<Rightarrow> int \<Rightarrow> string \<Rightarrow> string \<Rightarrow> item_error \<Rightarrow> 't job_store \<Rightarrow>
    't job_store \<times> item_outcome \<times> item_error option" where
  "record_item_failure env model job stage sha err s =
     (if persisted_class (ie_kind err) = None then (s, ItemFailed, Some err)
      else if \<not> en_ledger_written env
      then (s, ItemFailed, Some (internal_error ''Failed to record extraction failure''))
      else case upsert_extraction_error (en_now env) (failure_record model job stage sha err) (st_ledger s) of
        (db, Inr _) \<Rightarrow> (s\<lparr>st_ledger := db\<rparr>, ItemInputFailed (kind_blocker (ie_kind err)), None)
      | (db, Inl _) \<Rightarrow> (s, ItemFailed, Some (internal_error ''Failed to record extraction failure'')))"

definition clear_ledger_row :: "'d item_env \<Rightarrow> model_metadata \<Rightarrow> string \<Rightarrow> string set \<Rightarrow> 't job_store \<Rightarrow> 't job_store" where
  "clear_ledger_row env model sha ledger_shas s =
     (if sha \<in> ledger_shas \<and> en_ledger_cleared env
      then s\<lparr>st_ledger := fst (delete_extraction_error sha (mm_setter_name model) (st_ledger s))\<rparr>
      else s)"

section \<open>The item\<close>

record job_params =
  jp_job :: int
  jp_model :: model_metadata
  jp_threshold :: "f64 option"
  jp_unit_capacity :: nat
  jp_total_remaining :: int
  jp_ledger_shas :: "string set"

text \<open>Storing the rows of an item, its placeholder or its outputs.\<close>

definition store_rows :: "job_params \<Rightarrow> 'd item_env \<Rightarrow> job_item \<Rightarrow> 't output_rows \<Rightarrow> 't job_store \<Rightarrow> 't job_store \<times> (item_error + unit)" where
  "store_rows jp env item rows s =
     (if en_output_written env
      then (s\<lparr>st_writes := st_writes s @ [\<lparr>ow_job = jp_job jp, ow_setter = mm_setter_name (jp_model jp),
              ow_sha256 = ji_sha256 item, ow_rows = rows\<rparr>]\<rparr>, Inr ())
      else (s, Inl (internal_error ''Failed to store extraction output'')))"

definition finish_output :: "job_params \<Rightarrow> 'd item_env \<Rightarrow> job_item \<Rightarrow> int \<Rightarrow> 't job_store \<Rightarrow> item_error + unit \<Rightarrow>
    't job_store \<times> (item_error + unit)" where
  "finish_output jp env item segments s result =
     (case result of
        Inr _ \<Rightarrow>
          (finalize_item (ji_item_type item) segments ItemProcessed (jp_total_remaining jp)
             (clear_ledger_row env (jp_model jp) (ji_sha256 item) (jp_ledger_shas jp) s), Inr ())
      | Inl e \<Rightarrow> (finalize_item (ji_item_type item) segments ItemFailed (jp_total_remaining jp) s, Inl e))"

definition finish_failure :: "job_params \<Rightarrow> 'd item_env \<Rightarrow> job_item \<Rightarrow> string \<Rightarrow> int \<Rightarrow> item_error \<Rightarrow> 't job_store \<Rightarrow>
    't job_store \<times> (item_error + unit)" where
  "finish_failure jp env item stage segments err s =
     (case record_item_failure env (jp_model jp) (jp_job jp) stage (ji_sha256 item) err s of
        (s', outcome, returned) \<Rightarrow>
          (finalize_item (ji_item_type item) segments outcome (jp_total_remaining jp) s',
           case returned of Some e \<Rightarrow> Inl e | None \<Rightarrow> Inr ()))"

definition process_item :: "('j, 'b, 't) output_parsers \<Rightarrow> (f64 \<Rightarrow> 'd \<Rightarrow> 'd) \<Rightarrow> (predict_error \<Rightarrow> string) \<Rightarrow>
    ('w, 'd inference_input, 'j, 'b) predictor \<Rightarrow> job_params \<Rightarrow> 'd item_env \<Rightarrow> job_item \<Rightarrow> 'w \<Rightarrow> 't job_store \<Rightarrow>
    'w \<times> 't job_store \<times> (item_error + unit)" where
  "process_item parsers set_key show_error predict jp env item w s =
     (let model = jp_model jp in
      case en_prepared env of
        Inl err \<Rightarrow> (w, finish_failure jp env item ''prepare'' 0 err s)
      | Inr inputs \<Rightarrow>
          if inputs = [] then
            (case placeholder_rows (op_no_tags parsers) model item of
               Inl e \<Rightarrow> (w, finish_output jp env item 0 s (Inl e))
             | Inr rows \<Rightarrow> (case store_rows jp env item rows s of (s', r) \<Rightarrow> (w, finish_output jp env item 0 s' r)))
          else
            (let inference_inputs = apply_threshold set_key inputs (jp_threshold jp);
                 segments = int (length inference_inputs) in
             case run_chunked_inference predict (jp_unit_capacity jp) inference_inputs w of
               (w', Inl err) \<Rightarrow>
                 (w', finalize_item (ji_item_type item) segments ItemFailed (jp_total_remaining jp) s,
                  Inl (internal_error (''Inference failed: '' @ show_error err)))
             | (w', Inr inference) \<Rightarrow>
                 (let survivors = surviving_input_indices (length inference_inputs) (rs_errors inference) in
                  case classify_slot_errors (length inference_inputs) (rs_errors inference) (targets_text_entity model) of
                    TransientVerdict detail \<Rightarrow>
                      (w', finalize_item (ji_item_type item) segments ItemFailed (jp_total_remaining jp) s,
                       Inl (internal_error (''Inference failed: '' @ detail)))
                  | InputMedia detail \<Rightarrow> (w', finish_failure jp env item ''inference'' segments (input_error detail) s)
                  | Proceed \<Rightarrow>
                      (case output_rows parsers model item (rs_outputs inference) survivors of
                         Inl e \<Rightarrow> (w', finish_output jp env item segments s (Inl e))
                       | Inr None \<Rightarrow> (w', finish_output jp env item segments s (Inr ()))
                       | Inr (Some rows) \<Rightarrow>
                           (case store_rows jp env item rows s of (s', r) \<Rightarrow> (w', finish_output jp env item segments s' r))))))"

end
