(* ===== verification/ExtractionJob.thy ===== *)
theory ExtractionJob
  imports ExtractionItem JobTypes
begin

text \<open>
  The extraction job (\<open>panoptikon/src/jobs/extraction.rs\<close>): its settings, the paged work query and
  what is dispatched from it, the history rows (\<open>panoptikon/src/db/extraction_write.rs\<close>), and the
  job from its first read to its report; and the job that deletes a setter's data.  The work query
  itself, the configuration, the inference server and the file system are given.  The items of a
  job run concurrently; here they run one after the other, in an order that is given.
\<close>

section \<open>Settings\<close>

definition f64_is_zero :: "f64 \<Rightarrow> bool" where
  "f64_is_zero x \<longleftrightarrow> x = 0 \<or> x = push_bit 63 1"

record job_setting =
  jt_group_name :: string
  jt_inference_id :: "string option"
  jt_default_batch_size :: "int option"
  jt_default_threshold :: "f64 option"

record job_defaults =
  jd_batch_size :: int
  jd_threshold :: "f64 option"

definition apply_setting :: "model_metadata \<Rightarrow> job_setting \<Rightarrow> int \<times> f64 option \<Rightarrow> int \<times> f64 option" where
  "apply_setting model s c =
     (case jt_default_batch_size s of Some b \<Rightarrow> b | None \<Rightarrow> fst c,
      case (mm_default_threshold model, jt_default_threshold s) of
        (Some _, Some t) \<Rightarrow> Some t
      | _ \<Rightarrow> snd c)"

definition resolve_job_defaults :: "job_setting list \<Rightarrow> model_metadata \<Rightarrow> int option \<Rightarrow> f64 option \<Rightarrow> job_defaults" where
  "resolve_job_defaults settings model batch th =
     (let start = (max (mm_default_batch_size model) 1, mm_default_threshold model);
          group = foldl (\<lambda>c s. if jt_group_name s = mm_group model \<and> jt_inference_id s = None
            then apply_setting model s c else c) start settings;
          own = foldl (\<lambda>c s. if jt_group_name s = mm_group model \<and> jt_inference_id s = Some (mm_setter_name model)
            then apply_setting model s c else c) group settings;
          chosen_batch = (case batch of Some b \<Rightarrow> if b > 0 then b else fst own | None \<Rightarrow> fst own);
          chosen_threshold = (case th of Some t \<Rightarrow> Some t | None \<Rightarrow> snd own);
          resolved = (case chosen_threshold of
              Some t \<Rightarrow> if \<not> f64_is_zero t then Some t else mm_default_threshold model
            | None \<Rightarrow> mm_default_threshold model)
      in \<lparr>jd_batch_size = max chosen_batch 1,
          jd_threshold = (case resolved of Some t \<Rightarrow> if \<not> f64_is_zero t then Some t else None | None \<Rightarrow> None)\<rparr>)"

datatype job_failure = NoFailure | InputMediaOnly | Systemic

definition classify_extraction_job_failure :: "int \<Rightarrow> int \<Rightarrow> int \<Rightarrow> job_failure" where
  "classify_extraction_job_failure processed errors input_errors =
     (if processed \<le> 0 \<or> errors < processed then NoFailure
      else if input_errors = errors then InputMediaOnly else Systemic)"

section \<open>The work query, page by page\<close>

record work_row =
  wr_file_id :: int
  wr_item_id :: int
  wr_data_id :: int
  wr_item :: job_item

definition work_chunk_rows :: nat where
  "work_chunk_rows = 1024"

definition i64_min :: int where "i64_min = - (2 ^ 63)"
definition i64_max :: int where "i64_max = 2 ^ 63 - 1"

text \<open>The cursor column and the partition column.\<close>

definition work_query_keys :: "model_metadata \<Rightarrow> (work_row \<Rightarrow> int) \<times> (work_row \<Rightarrow> int)" where
  "work_query_keys model =
     (if mm_target_entities model = [''text''] then (wr_data_id, wr_data_id)
      else if mm_target_entities model = [''files''] then (wr_file_id, wr_file_id)
      else (wr_file_id, wr_item_id))"

text \<open>The envelope of the work query, over the rows the query has at the time; columns are \<open>i64\<close>.\<close>

definition chunked_work_query :: "(work_row \<Rightarrow> int) \<Rightarrow> int \<Rightarrow> work_row list \<Rightarrow> work_row list" where
  "chunked_work_query key cursor rows =
     take work_chunk_rows (sort_key key (filter (\<lambda>r. key r > cursor \<and> key r \<le> i64_max) rows))"

text \<open>
  A file that is gone is replaced by another available file of its item, if there is one;
  \<open>exists_at\<close> is the file system and \<open>existing_file\<close> what the database answers.
\<close>

definition map_job_input :: "(string \<Rightarrow> bool) \<Rightarrow> (int \<Rightarrow> item_error + string option) \<Rightarrow> work_row \<Rightarrow> item_error + job_item option" where
  "map_job_input exists_at existing_file row =
     (let item = wr_item row in
      if exists_at (ji_path item) then Inr (Some item)
      else case existing_file (wr_item_id row) of
        Inl e \<Rightarrow> Inl e
      | Inr None \<Rightarrow> Inr None
      | Inr (Some path) \<Rightarrow> Inr (Some (item\<lparr>ji_path := path\<rparr>)))"

record dispatch =
  di_cursor :: int
  di_dispatched :: "int set"
  di_items :: "(int \<times> job_item) list"

text \<open>A row that cannot be mapped fails the job; what was dispatched before it comes with the error.\<close>

fun dispatch_rows :: "(work_row \<Rightarrow> int) \<Rightarrow> (work_row \<Rightarrow> int) \<Rightarrow> (work_row \<Rightarrow> item_error + job_item option) \<Rightarrow>
    work_row list \<Rightarrow> dispatch \<Rightarrow> (item_error \<times> dispatch) + dispatch" where
  "dispatch_rows key part input [] d = Inr d"
| "dispatch_rows key part input (r # rs) d =
     (let d = d\<lparr>di_cursor := key r\<rparr> in
      if part r \<in> di_dispatched d then dispatch_rows key part input rs d
      else let d = d\<lparr>di_dispatched := insert (part r) (di_dispatched d)\<rparr> in
        case input r of
          Inl e \<Rightarrow> Inl (e, d)
        | Inr None \<Rightarrow> dispatch_rows key part input rs d
        | Inr (Some item) \<Rightarrow> dispatch_rows key part input rs (d\<lparr>di_items := di_items d @ [(part r, item)]\<rparr>))"

text \<open>One row: the cursor moves, and the row is dispatched, skipped, or the job fails.\<close>

lemma dispatch_rows_step:
  assumes "dispatch_rows key part input (r # rs) d = Inr d'"
  obtains d1 where "dispatch_rows key part input rs d1 = Inr d'" "di_cursor d1 = key r"
    "di_dispatched d1 = insert (part r) (di_dispatched d)"
    "di_items d1 = di_items d \<and> (part r \<in> di_dispatched d \<or> input r = Inr None) \<or>
      part r \<notin> di_dispatched d \<and> (\<exists>item. input r = Inr (Some item) \<and> di_items d1 = di_items d @ [(part r, item)])"
proof (cases "part r \<in> di_dispatched d")
  case True
  then have "dispatch_rows key part input rs (d\<lparr>di_cursor := key r\<rparr>) = Inr d'" using assms by simp
  then show ?thesis by (rule that) (use True in \<open>auto simp: insert_absorb\<close>)
next
  case False
  let ?d = "d\<lparr>di_cursor := key r, di_dispatched := insert (part r) (di_dispatched d)\<rparr>"
  show ?thesis
  proof (cases "input r")
    case (Inl e)
    then show ?thesis using assms False by simp
  next
    case (Inr i)
    show ?thesis
    proof (cases i)
      case None
      then have "dispatch_rows key part input rs ?d = Inr d'" using assms False Inr by simp
      then show ?thesis by (rule that) (use Inr None in simp_all)
    next
      case (Some item)
      then have "dispatch_rows key part input rs (?d\<lparr>di_items := di_items d @ [(part r, item)]\<rparr>) = Inr d'"
        using assms False Inr by simp
      then show ?thesis by (rule that) (use False Inr Some in simp_all)
    qed
  qed
qed

lemma dispatch_rows_cursor:
  assumes "dispatch_rows key part input rs d = Inr d'"
  shows "di_cursor d' = (if rs = [] then di_cursor d else key (last rs))"
  using assms
proof (induction rs arbitrary: d)
  case Nil
  then show ?case by simp
next
  case (Cons r rs)
  obtain d1 where "dispatch_rows key part input rs d1 = Inr d'" "di_cursor d1 = key r"
    using Cons.prems by (rule dispatch_rows_step)
  then show ?case using Cons.IH by simp
qed

text \<open>
  \<open>snap n\<close> is what the \<open>n\<close>-th page is read from: the query's rows at that moment, or the read
  failed.  A page that is not full is the last one.
\<close>

function dispatch_loop :: "(work_row \<Rightarrow> int) \<Rightarrow> (work_row \<Rightarrow> int) \<Rightarrow> (work_row \<Rightarrow> item_error + job_item option) \<Rightarrow>
    (nat \<Rightarrow> item_error + work_row list) \<Rightarrow> nat \<Rightarrow> dispatch \<Rightarrow> (item_error \<times> dispatch) + dispatch" where
  "dispatch_loop key part input snap n d =
     (case snap n of
        Inl e \<Rightarrow> Inl (e, d)
      | Inr all_rows \<Rightarrow>
          (let rows = chunked_work_query key (di_cursor d) all_rows in
           case dispatch_rows key part input rows d of
             Inl e \<Rightarrow> Inl e
           | Inr d' \<Rightarrow>
               if length rows < work_chunk_rows then Inr d'
               else dispatch_loop key part input snap (n + 1) d'))"
  by pat_completeness auto

lemma chunk_advances:
  assumes "rows = chunked_work_query key cursor all_rows" "rows \<noteq> []"
  shows "cursor < key (last rows) \<and> key (last rows) \<le> i64_max"
proof -
  have "last rows \<in> set rows" using assms(2) by simp
  then have "last rows \<in> set (sort_key key (filter (\<lambda>r. key r > cursor \<and> key r \<le> i64_max) all_rows))"
    unfolding assms(1) chunked_work_query_def by (rule in_set_takeD)
  then show ?thesis by simp
qed

lemma page_shrinks:
  assumes "dispatch_rows key part input (chunked_work_query key (di_cursor d) all_rows) d = Inr d'"
    "\<not> length (chunked_work_query key (di_cursor d) all_rows) < work_chunk_rows"
  shows "di_cursor d < i64_max" "di_cursor d < di_cursor d'"
proof -
  have ne: "chunked_work_query key (di_cursor d) all_rows \<noteq> []" using assms(2) by (auto simp: work_chunk_rows_def)
  show "di_cursor d < i64_max" "di_cursor d < di_cursor d'"
    using chunk_advances [OF refl ne] dispatch_rows_cursor [OF assms(1)] ne by simp_all
qed

termination dispatch_loop
  by (relation "measure (\<lambda>(key, part, input, snap, n, d). nat (i64_max - di_cursor d))")
    (auto intro: page_shrinks)

declare dispatch_loop.simps [simp del]

definition dispatch_all :: "model_metadata \<Rightarrow> (work_row \<Rightarrow> item_error + job_item option) \<Rightarrow>
    (nat \<Rightarrow> item_error + work_row list) \<Rightarrow> (item_error \<times> dispatch) + dispatch" where
  "dispatch_all model input snap =
     (case work_query_keys model of (key, part) \<Rightarrow>
        dispatch_loop key part input snap 0 \<lparr>di_cursor = i64_min, di_dispatched = {}, di_items = []\<rparr>)"

section \<open>History rows\<close>

text \<open>\<open>data_jobs\<close>: ids are never reused, \<open>completed\<close> is 0 while a job runs, 1 or -1 after it.\<close>

record job_history =
  jh_seq :: int
  jh_rows :: "(int \<times> int) list"

record 't job_state =
  js_store :: "'t job_store"
  js_history :: job_history
  js_owed :: "change_summary list"
  js_generation :: nat
  js_loaded :: "string list"

text \<open>Deleting a job's row takes the output it wrote with it.\<close>

definition remove_incomplete_jobs :: "bool \<Rightarrow> 't job_state \<Rightarrow> 't job_state" where
  "remove_incomplete_jobs atomic s =
     (let rows = jh_rows (js_history s) in
      if \<not> atomic
      then s\<lparr>js_history := (js_history s)\<lparr>jh_rows := map (\<lambda>(i, c). (i, if c = 0 then -1 else c)) rows\<rparr>\<rparr>
      else s\<lparr>js_history := (js_history s)\<lparr>jh_rows := filter (\<lambda>(i, c). c \<noteq> 0) rows\<rparr>,
             js_store := (js_store s)\<lparr>st_writes := filter (\<lambda>w. (ow_job w, 0) \<notin> set rows) (st_writes (js_store s))\<rparr>\<rparr>)"

definition add_data_log :: "'t job_state \<Rightarrow> 't job_state \<times> int" where
  "add_data_log s =
     (let i = jh_seq (js_history s) + 1 in
      (s\<lparr>js_history := \<lparr>jh_seq = i, jh_rows = jh_rows (js_history s) @ [(i, 0)]\<rparr>\<rparr>, i))"

definition update_data_log :: "int \<Rightarrow> data_log_update \<Rightarrow> 't job_state \<Rightarrow> 't job_state" where
  "update_data_log job u s =
     (let s = s\<lparr>js_store := (js_store s)\<lparr>st_log := st_log (js_store s) @ [u]\<rparr>\<rparr> in
      if du_finished u
      then s\<lparr>js_history := (js_history s)\<lparr>jh_rows := map (\<lambda>(i, c). (i, if i = job then 1 else c)) (jh_rows (js_history s))\<rparr>\<rparr>
      else s)"

text \<open>The cleanup after a job that failed or was cancelled: a failure of it is only logged.\<close>

definition cleanup_incomplete_jobs :: "bool \<Rightarrow> bool \<Rightarrow> 't job_state \<Rightarrow> 't job_state" where
  "cleanup_incomplete_jobs atomic succeeds s = (if succeeds then remove_incomplete_jobs atomic s else s)"

section \<open>The job\<close>

text \<open>
  How far an item had come when its job failed under it: the tasks of the items are aborted then,
  each at the point where it waits.
\<close>

datatype item_stop = NothingStored | OutputStored | NotCounted | RanToEnd

record extraction_outcome =
  eo_summary :: change_summary
  eo_loaded_model :: "string option"

text \<open>
  What the job meets outside.  A write of the history is given as the error it was refused with, or
  as whether it succeeded where the job does not look: a refused write changed nothing.
\<close>

record ('w, 'd, 'j, 'b, 't) extraction_env =
  xe_settings :: "item_error + job_setting list"
  xe_resync_needed :: "item_error + bool"
  xe_resync :: "item_error + change_summary"
  xe_model :: "item_error + model_metadata"
  xe_endpoints :: bool
  xe_probe :: "blocker \<Rightarrow> bool"
  xe_heal_ok :: bool
  xe_query :: "item_error + unit"
  xe_ledger_read :: "item_error option"
  xe_first_cleanup :: "item_error option"
  xe_total :: "item_error + int"
  xe_add_data_log :: "item_error option"
  xe_upsert_setter :: "item_error option"
  xe_final_update :: bool
  xe_last_cleanup :: bool
  xe_remaining_after :: "item_error + int"
  xe_load :: "string option"
  xe_exists :: "string \<Rightarrow> bool"
  xe_existing_file :: "int \<Rightarrow> item_error + string option"
  xe_snap :: "nat \<Rightarrow> item_error + work_row list"
  xe_order :: "(int \<times> job_item) list \<Rightarrow> (int \<times> job_item) list"
  xe_stopped :: "int \<times> job_item \<Rightarrow> item_stop"
  xe_item_env :: "job_item \<Rightarrow> 'd item_env"
  xe_atomic :: bool
  xe_parsers :: "('j, 'b, 't) output_parsers"
  xe_set_key :: "f64 \<Rightarrow> 'd \<Rightarrow> 'd"
  xe_show_error :: "predict_error \<Rightarrow> string"
  xe_predict :: "('w, 'd inference_input, 'j, 'b) predictor"

definition heal_blocked :: "blocker list \<Rightarrow> ledger_db \<Rightarrow> ledger_db" where
  "heal_blocked present db = (if present = [] then db else fst (delete_blocked_errors present db))"

definition heal_blocked_errors :: "(blocker \<Rightarrow> bool) \<Rightarrow> ledger_db \<Rightarrow> ledger_db" where
  "heal_blocked_errors probe db =
     (let waiting = list_distinct_blockers db in
      if waiting = [] then db else heal_blocked (filter probe waiting) db)"

fun run_items :: "('w, 'd, 'j, 'b, 't) extraction_env \<Rightarrow> job_params \<Rightarrow> (int \<times> job_item) list \<Rightarrow> 'w \<Rightarrow> 't job_store \<Rightarrow>
    'w \<times> 't job_store" where
  "run_items env jp [] w s = (w, s)"
| "run_items env jp ((_, item) # items) w s =
     (case process_item (xe_parsers env) (xe_set_key env) (xe_show_error env) (xe_predict env) jp
             (xe_item_env env item) item w s of
        (w', s', _) \<Rightarrow> run_items env jp items w' s')"

text \<open>The items that were dispatched before their job failed, each as far as it came.\<close>

fun run_stopped :: "('w, 'd, 'j, 'b, 't) extraction_env \<Rightarrow> job_params \<Rightarrow> (int \<times> job_item) list \<Rightarrow> 'w \<Rightarrow> 't job_store \<Rightarrow>
    'w \<times> 't job_store" where
  "run_stopped env jp [] w s = (w, s)"
| "run_stopped env jp (i # items) w s =
     (case process_item (xe_parsers env) (xe_set_key env) (xe_show_error env) (xe_predict env) jp
             (xe_item_env env (snd i)) (snd i) w s of
        (w', s', _) \<Rightarrow>
          (case xe_stopped env i of
             NothingStored \<Rightarrow> run_stopped env jp items w' s
           | OutputStored \<Rightarrow> run_stopped env jp items w' (s\<lparr>st_writes := st_writes s'\<rparr>)
           | NotCounted \<Rightarrow> run_stopped env jp items w' (s\<lparr>st_writes := st_writes s', st_ledger := st_ledger s'\<rparr>)
           | RanToEnd \<Rightarrow> run_stopped env jp items w' s'))"

definition supported_entities :: "model_metadata \<Rightarrow> item_error + unit" where
  "supported_entities model =
     (if mm_target_entities model \<in> {[''items''], [''files''], [''text'']} then Inr ()
      else Inl (internal_error ''Only items, files, and text target entities are supported''))"

text \<open>
  The end of the job: the last update of its row, whose failure is ignored, and what it reports.
\<close>

definition conclude_job :: "bool \<Rightarrow> model_metadata \<Rightarrow> int \<Rightarrow> int \<Rightarrow> change_summary \<Rightarrow> 't job_state \<Rightarrow>
    't job_state \<times> (item_error + extraction_outcome)" where
  "conclude_job updated model job remaining_after changes s =
     (let c = st_counters (js_store s);
          failure = classify_extraction_job_failure (jc_processed c) (jc_errors c) (jc_input_errors c);
          s = (if updated then update_data_log job (log_update c remaining_after (failure \<noteq> Systemic)) s else s);
          processed_data = jc_processed c - jc_errors c > 0
      in if failure = Systemic
         then (s, Inl (internal_error (''All '' @ show_nat (nat (jc_errors c)) @ '' attempted items failed; check the inference server'')))
         else (s, Inr \<lparr>eo_summary = or_with changes \<lparr>wrote_data = processed_data, deleted_data = False,
                        tags_changed = processed_data \<and> mm_output_type model = TagsOutput\<rparr>,
                      eo_loaded_model = Some (mm_setter_name model)\<rparr>))"

text \<open>The job once its row exists: load the model, dispatch, wait for the items, conclude.\<close>

definition run_dispatched :: "('w, 'd, 'j, 'b, 't) extraction_env \<Rightarrow> model_metadata \<Rightarrow> job_defaults \<Rightarrow> string set \<Rightarrow> int \<Rightarrow> int \<Rightarrow>
    change_summary \<Rightarrow> 'w \<Rightarrow> 't job_state \<Rightarrow> 'w \<times> 't job_state \<times> (item_error + extraction_outcome)" where
  "run_dispatched env model defaults ledger_shas work_total job changes w s =
     (let s = s\<lparr>js_generation := js_generation s + 1\<rparr> in
      case xe_load env of
        Some e \<Rightarrow> (w, s, Inl (internal_error (''Failed to load model: '' @ e)))
      | None \<Rightarrow>
          (let s = s\<lparr>js_loaded := js_loaded s @ [mm_setter_name model], js_store := (js_store s)\<lparr>st_counters := no_counters\<rparr>\<rparr>;
               jp = \<lparr>jp_job = job, jp_model = model, jp_threshold = jd_threshold defaults,
                 jp_unit_capacity = nat (max (jd_batch_size defaults) 1), jp_total_remaining = work_total,
                 jp_ledger_shas = ledger_shas\<rparr>
           in case dispatch_all model (map_job_input (xe_exists env) (xe_existing_file env)) (xe_snap env) of
             Inl (e, d) \<Rightarrow>
               (case run_stopped env jp (xe_order env (di_items d)) w (js_store s) of
                  (w', store) \<Rightarrow> (w', s\<lparr>js_store := store\<rparr>, Inl e))
           | Inr d \<Rightarrow>
               (case run_items env jp (xe_order env (di_items d)) w (js_store s) of
                  (w', store) \<Rightarrow>
                    (let s = s\<lparr>js_store := store\<rparr> in
                     case xe_remaining_after env of
                       Inl e \<Rightarrow> (w', s, Inl e)
                     | Inr remaining \<Rightarrow> (w', conclude_job (xe_final_update env) model job remaining changes s)))))"

text \<open>The job once its query is compiled: clean up, count the work, open the row.\<close>

definition run_counted :: "('w, 'd, 'j, 'b, 't) extraction_env \<Rightarrow> model_metadata \<Rightarrow> job_defaults \<Rightarrow> string set \<Rightarrow>
    change_summary \<Rightarrow> 'w \<Rightarrow> 't job_state \<Rightarrow> 'w \<times> 't job_state \<times> (item_error + extraction_outcome)" where
  "run_counted env model defaults ledger_shas changes w s =
     (case xe_first_cleanup env of Some e \<Rightarrow> (w, s, Inl e) | None \<Rightarrow>
      (let s = remove_incomplete_jobs (xe_atomic env) s in
       case xe_total env of Inl e \<Rightarrow> (w, s, Inl e) | Inr work_total \<Rightarrow>
       if work_total < 1 then (w, s, Inr \<lparr>eo_summary = changes, eo_loaded_model = None\<rparr>)
       else case xe_add_data_log env of Some e \<Rightarrow> (w, s, Inl e) | None \<Rightarrow>
       (case add_data_log s of (s, job) \<Rightarrow>
        case xe_upsert_setter env of Some e \<Rightarrow> (w, s, Inl e) | None \<Rightarrow>
        (let s = s\<lparr>js_store := (js_store s)\<lparr>st_ledger := upsert_setter (mm_setter_name model) (st_ledger (js_store s))\<rparr>\<rparr>
         in run_dispatched env model defaults ledger_shas work_total job changes w s))))"

definition run_extraction_job_inner :: "('w, 'd, 'j, 'b, 't) extraction_env \<Rightarrow> job \<Rightarrow> string \<Rightarrow> 'w \<Rightarrow> 't job_state \<Rightarrow>
    'w \<times> 't job_state \<times> (item_error + extraction_outcome)" where
  "run_extraction_job_inner env j inference_id w s =
     (case xe_settings env of Inl e \<Rightarrow> (w, s, Inl e) | Inr settings \<Rightarrow>
      case xe_resync_needed env of Inl e \<Rightarrow> (w, s, Inl e) | Inr needed \<Rightarrow>
      case (if needed then map_sum id Some (xe_resync env) else Inr None) of Inl e \<Rightarrow> (w, s, Inl e) | Inr resync \<Rightarrow>
      let s = (case resync of Some r \<Rightarrow> s\<lparr>js_owed := js_owed s @ [r]\<rparr> | None \<Rightarrow> s);
          changes = (case resync of Some r \<Rightarrow> or_with default_summary r | None \<Rightarrow> default_summary) in
      case xe_model env of Inl e \<Rightarrow> (w, s, Inl e) | Inr model \<Rightarrow>
      (case mm_unavailable_reason model of
         Some reason \<Rightarrow> (w, s, Inl (internal_error (''Model '' @ inference_id @ '' is not available on this system: '' @ reason)))
       | None \<Rightarrow>
      let defaults = resolve_job_defaults settings model (batch_size j) (threshold j) in
      if \<not> xe_endpoints env then (w, s, Inl (internal_error ''No inference endpoints enabled for batch jobs''))
      else
      let s = (if xe_heal_ok env
        then s\<lparr>js_store := (js_store s)\<lparr>st_ledger := heal_blocked_errors (xe_probe env) (st_ledger (js_store s))\<rparr>\<rparr> else s);
          ledger_shas = list_error_sha256s_for_setter (mm_setter_name model) (st_ledger (js_store s)) in
      case xe_ledger_read env of Some e \<Rightarrow> (w, s, Inl e) | None \<Rightarrow>
      case supported_entities model of Inl e \<Rightarrow> (w, s, Inl e) | Inr _ \<Rightarrow>
      case xe_query env of Inl e \<Rightarrow> (w, s, Inl e) | Inr _ \<Rightarrow>
      run_counted env model defaults ledger_shas changes w s))"

text \<open>
  The job as the queue runs it: after an error the cleanup runs.  \<open>None\<close> for a job with no
  inference id, or one whose continuous scan could not be paused.
\<close>

definition run_extraction_job :: "('w, 'd, 'j, 'b, 't) extraction_env \<Rightarrow> bool \<Rightarrow> job \<Rightarrow> 'w \<Rightarrow> 't job_state \<Rightarrow>
    'w \<times> 't job_state \<times> (item_error option + extraction_outcome)" where
  "run_extraction_job env paused j w s =
     (case metadata j of
        None \<Rightarrow> (w, s, Inl None)
      | Some inference_id \<Rightarrow>
          if \<not> paused then (w, s, Inl None)
          else case run_extraction_job_inner env j inference_id w s of
            (w', s', Inr outcome) \<Rightarrow> (w', s', Inr outcome)
          | (w', s', Inl e) \<Rightarrow> (w', cleanup_incomplete_jobs (xe_atomic env) (xe_last_cleanup env) s', Inl (Some e)))"

text \<open>
  Cancelled at any point: dropping the guard spawns the cleanup on what the job left.
\<close>

definition cancelled_job :: "bool \<Rightarrow> bool \<Rightarrow> 't job_state \<Rightarrow> 't job_state" where
  "cancelled_job atomic succeeds s = cleanup_incomplete_jobs atomic succeeds s"

text \<open>What the deletion of a setter's data reports.\<close>

definition deletion_summary :: "int \<Rightarrow> int \<Rightarrow> change_summary" where
  "deletion_summary deleted orphan_tags_deleted =
     (let deleted_data = deleted > 0 \<or> orphan_tags_deleted > 0 in
      \<lparr>wrote_data = False, deleted_data = deleted_data, tags_changed = deleted_data\<rparr>)"

definition include_orphan_tags :: "string list \<Rightarrow> bool" where
  "include_orphan_tags data_types = list_ex (\<lambda>t. t = ''tags'') data_types"

end
