(* ===== verification/ExtractionProps.thy ===== *)
theory ExtractionProps
  imports ExtractionJob
begin

text \<open>
  What an extraction job promises: splitting an item's inputs into requests does not show in what
  is stored, every stored row names the input it came from, only verdicts on the media reach the
  failure ledger, the counters account for every item, each unit of work is dispatched once, and a
  job that fails leaves nothing unfinished.
\<close>

section \<open>Chunks and isolation\<close>

lemma packs_Json: "packs Json"
  by (simp add: packs_def)


lemma chunking_invisible_lemma:
  assumes "packs pack" "answers_units pack unit predict" "inputs \<noteq> []"
  shows "\<exists>w'. run_chunked_inference predict unit_capacity inputs w = (w', Inr (unit_reply pack unit inputs))"
proof -
let ?cs = "chunks (max unit_capacity 1) inputs"
  obtain w' where "chunk_loop predict (min (max unit_capacity 1) u32_max) ?cs 0 None [] w =
      (w', Inr (merged_so_far pack (accepted unit inputs), rejected unit 0 inputs))"
    using chunk_loop_units [OF assms(1,2), of ?cs "min (max unit_capacity 1) u32_max" 0 "[]" "[]" w] chunks_nonempty
    by (auto simp: concat_chunks merged_so_far_def)
  then show ?thesis
    using accepted_or_rejected [of unit inputs 0] assms(3)
    by (auto simp: run_chunked_inference_def Let_def merged_so_far_def unit_reply_def)
qed

text \<open>
  C8. Chunks are invisible: with a server that judges each input on its own, whatever the number of
  inputs a request may carry, and whichever requests of several inputs fail as a whole and are
  retried one input at a time, an item's inference gives the outputs of the accepted inputs in
  order and the typed errors of the others at their own positions -- as one request would.
\<close>

theorem chunking_is_invisible:
  assumes "packs pack" "answers_units pack unit predict" "inputs \<noteq> []"
  shows "\<exists>w'. run_chunked_inference predict unit_capacity inputs w = (w', Inr (unit_reply pack unit inputs))"
  using assms by (rule chunking_invisible_lemma)

section \<open>Rows name their input\<close>

definition accepted_at :: "('i \<Rightarrow> (slot_class \<times> string) + 'o) \<Rightarrow> nat \<Rightarrow> 'i list \<Rightarrow> (nat \<times> 'o) list" where
  "accepted_at unit base xs =
     List.map_filter (\<lambda>(i, x). case unit x of Inr y \<Rightarrow> Some (i, y) | Inl _ \<Rightarrow> None) (enumerate base xs)"

lemma accepted_at_simps [simp]:
  "accepted_at unit base [] = []"
  "accepted_at unit base (x # xs) = (case unit x of Inr y \<Rightarrow> (base, y) # accepted_at unit (Suc base) xs
     | Inl _ \<Rightarrow> accepted_at unit (Suc base) xs)"
  by (simp_all add: accepted_at_def List.map_filter_def split: sum.splits)


















section \<open>The three ends of an item\<close>

text \<open>
  An item fails with nothing stored; or its media was rejected, and the ledger has the verdict; or
  it was processed, with at most one write, and its old ledger row may go.
\<close>

datatype item_end = EndedFailed | EndedRejected string item_error | EndedProcessed

definition ends_as :: "job_params \<Rightarrow> 'd item_env \<Rightarrow> job_item \<Rightarrow> 't job_store \<Rightarrow> 't job_store \<Rightarrow> int \<Rightarrow> item_error + unit \<Rightarrow> item_end \<Rightarrow> bool" where
  "ends_as jp env item s s' segments r e =
     (case e of
        EndedFailed \<Rightarrow> (\<exists>err. r = Inl err) \<and> s' = finalize_item (ji_item_type item) segments ItemFailed (jp_total_remaining jp) s
      | EndedRejected stage err \<Rightarrow> r = Inr () \<and> persisted_class (ie_kind err) \<noteq> None \<and>
          (\<exists>db. upsert_extraction_error (en_now env) (failure_record (jp_model jp) (jp_job jp) stage (ji_sha256 item) err) (st_ledger s) = (db, Inr ()) \<and>
            s' = finalize_item (ji_item_type item) segments (ItemInputFailed (kind_blocker (ie_kind err))) (jp_total_remaining jp) (s\<lparr>st_ledger := db\<rparr>))
      | EndedProcessed \<Rightarrow> r = Inr () \<and>
          (\<exists>ws. length ws \<le> 1 \<and> (\<forall>x \<in> set ws. ow_job x = jp_job jp \<and> ow_sha256 x = ji_sha256 item \<and> ow_setter x = mm_setter_name (jp_model jp)) \<and>
            s' = finalize_item (ji_item_type item) segments ItemProcessed (jp_total_remaining jp)
              (clear_ledger_row env (jp_model jp) (ji_sha256 item) (jp_ledger_shas jp) (s\<lparr>st_writes := st_writes s @ ws\<rparr>))))"

lemma finish_failure_ends:
  assumes "finish_failure jp env item stage segments err s = (s', r)"
  shows "ends_as jp env item s s' segments r EndedFailed \<or> ends_as jp env item s s' segments r (EndedRejected stage err)"
  using assms
  by (auto simp: finish_failure_def record_item_failure_def ends_as_def split: prod.splits sum.splits if_splits)

lemma finish_output_ends:
  assumes "finish_output jp env item segments s1 r1 = (s', r)"
    "case r1 of Inl _ \<Rightarrow> s1 = s | Inr _ \<Rightarrow> \<exists>ws. s1 = s\<lparr>st_writes := st_writes s @ ws\<rparr> \<and> length ws \<le> 1 \<and>
       (\<forall>x \<in> set ws. ow_job x = jp_job jp \<and> ow_sha256 x = ji_sha256 item \<and> ow_setter x = mm_setter_name (jp_model jp))"
  shows "ends_as jp env item s s' segments r EndedFailed \<or> ends_as jp env item s s' segments r EndedProcessed"
proof (cases r1)
  case (Inl e)
  then show ?thesis using assms by (auto simp: finish_output_def ends_as_def)
next
  case (Inr u)
  obtain ws where ws: "s1 = s\<lparr>st_writes := st_writes s @ ws\<rparr>" "length ws \<le> 1"
    "\<forall>x \<in> set ws. ow_job x = jp_job jp \<and> ow_sha256 x = ji_sha256 item \<and> ow_setter x = mm_setter_name (jp_model jp)"
    using assms(2) unfolding Inr sum.case by blast
  have "r = Inr ()" "s' = finalize_item (ji_item_type item) segments ItemProcessed (jp_total_remaining jp)
      (clear_ledger_row env (jp_model jp) (ji_sha256 item) (jp_ledger_shas jp) s1)"
    using assms(1) Inr by (simp_all add: finish_output_def)
  then have "ends_as jp env item s s' segments r EndedProcessed"
    unfolding ends_as_def item_end.case using ws by blast
  then show ?thesis ..
qed

lemma store_rows_result:
  assumes "store_rows jp env item rows s = (s1, r1)"
  shows "case r1 of Inl _ \<Rightarrow> s1 = s | Inr _ \<Rightarrow> \<exists>ws. s1 = s\<lparr>st_writes := st_writes s @ ws\<rparr> \<and> length ws \<le> 1 \<and>
       (\<forall>x \<in> set ws. ow_job x = jp_job jp \<and> ow_sha256 x = ji_sha256 item \<and> ow_setter x = mm_setter_name (jp_model jp))"
  using assms by (auto simp: store_rows_def split: if_splits intro!: exI [of _ "[_]"])

lemma unchanged_writes: "s = s\<lparr>st_writes := st_writes s @ []\<rparr>"
  by simp

text \<open>When the media is judged: the item could not be prepared, or every input was rejected for its media.\<close>

definition media_judged :: "(f64 \<Rightarrow> 'd \<Rightarrow> 'd) \<Rightarrow> ('w, 'd inference_input, 'j, 'b) predictor \<Rightarrow> job_params \<Rightarrow> 'd item_env \<Rightarrow> 'w \<Rightarrow>
    string \<Rightarrow> item_error \<Rightarrow> bool" where
  "media_judged set_key predict jp env w stage err \<longleftrightarrow>
     (stage = ''prepare'' \<and> en_prepared env = Inl err) \<or>
     (stage = ''inference'' \<and> \<not> targets_text_entity (jp_model jp) \<and>
       (\<exists>inputs w' response. en_prepared env = Inr inputs \<and> inputs \<noteq> [] \<and>
          run_chunked_inference predict (jp_unit_capacity jp) (apply_threshold set_key inputs (jp_threshold jp)) w = (w', Inr response) \<and>
          length inputs \<le> length (rs_errors response) \<and> (\<forall>e \<in> set (rs_errors response). sl_class e = InputSlot) \<and>
          err = input_error (summarize_slot_errors (length inputs) (rs_errors response))))"

lemma classify_cases:
  assumes "classify_slot_errors n errors te = InputMedia detail"
  shows "\<not> te \<and> n \<le> length errors \<and> (\<forall>e \<in> set errors. sl_class e = InputSlot) \<and> detail = summarize_slot_errors n errors"
  using assms by (auto simp: classify_slot_errors_def Let_def list_all_iff split: if_splits)

lemma length_apply_threshold [simp]: "length (apply_threshold set_key inputs th) = length inputs"
  by (simp add: apply_threshold_def split: option.splits)

lemma process_item_ends:
  assumes run: "process_item parsers set_key show_error predict jp env item w s = (w', s', r)"
  obtains segments e where "ends_as jp env item s s' segments r e"
    "\<forall>stage err. e = EndedRejected stage err \<longrightarrow> media_judged set_key predict jp env w stage err"
proof (cases "en_prepared env")
  case (Inl err)
  then have "finish_failure jp env item ''prepare'' 0 err s = (s', r)" using run by (simp add: process_item_def Let_def)
  from finish_failure_ends [OF this] show ?thesis
    by (elim disjE) (rule that, assumption, simp add: media_judged_def Inl)+
next
  case (Inr inputs)
  show ?thesis
  proof (cases "inputs = []")
    case True
    obtain s1 r1 where f: "finish_output jp env item 0 s1 r1 = (s', r)"
      "case r1 of Inl _ \<Rightarrow> s1 = s | Inr _ \<Rightarrow> \<exists>ws. s1 = s\<lparr>st_writes := st_writes s @ ws\<rparr> \<and> length ws \<le> 1 \<and>
         (\<forall>x \<in> set ws. ow_job x = jp_job jp \<and> ow_sha256 x = ji_sha256 item \<and> ow_setter x = mm_setter_name (jp_model jp))"
    proof (cases "placeholder_rows (op_no_tags parsers) (jp_model jp) item")
      case (Inl e)
      then show ?thesis using that [of s "Inl e"] run Inr True by (simp add: process_item_def Let_def)
    next
      case (Inr rows)
      obtain s1 r1 where st: "store_rows jp env item rows s = (s1, r1)" by fastforce
      show ?thesis using that [of s1 r1] run \<open>en_prepared env = Inr inputs\<close> True Inr st store_rows_result [OF st]
        by (simp add: process_item_def Let_def)
    qed
    from finish_output_ends [OF f] show ?thesis by (elim disjE) (rule that, assumption, simp)+
  next
    case ne: False
    let ?in = "apply_threshold set_key inputs (jp_threshold jp)"
    let ?n = "int (length inputs)"
    obtain w1 res where inf: "run_chunked_inference predict (jp_unit_capacity jp) ?in w = (w1, res)" by fastforce
    show ?thesis
    proof (cases res)
      case (Inl e)
      then have "ends_as jp env item s s' ?n r EndedFailed"
        using run Inr ne inf by (auto simp: process_item_def Let_def ends_as_def)
      then show ?thesis by (rule that) simp
    next
      case r: (Inr response)
      show ?thesis
      proof (cases "classify_slot_errors (length inputs) (rs_errors response) (targets_text_entity (jp_model jp))")
        case (TransientVerdict d)
        then have "ends_as jp env item s s' ?n r EndedFailed"
          using run Inr ne inf r by (auto simp: process_item_def Let_def ends_as_def)
        then show ?thesis by (rule that) simp
      next
        case (InputMedia d)
        then have f: "finish_failure jp env item ''inference'' ?n (input_error d) s = (s', r)"
          using run Inr ne inf r by (simp add: process_item_def Let_def)
        have judged: "media_judged set_key predict jp env w ''inference'' (input_error d)"
          using classify_cases [OF InputMedia] Inr ne inf r by (auto simp: media_judged_def)
        from finish_failure_ends [OF f] show ?thesis
          by (elim disjE) (rule that, assumption, simp add: judged)+
      next
        case Proceed
        obtain s1 r1 where f: "finish_output jp env item ?n s1 r1 = (s', r)"
          "case r1 of Inl _ \<Rightarrow> s1 = s | Inr _ \<Rightarrow> \<exists>ws. s1 = s\<lparr>st_writes := st_writes s @ ws\<rparr> \<and> length ws \<le> 1 \<and>
             (\<forall>x \<in> set ws. ow_job x = jp_job jp \<and> ow_sha256 x = ji_sha256 item \<and> ow_setter x = mm_setter_name (jp_model jp))"
        proof (cases "output_rows parsers (jp_model jp) item (rs_outputs response) (surviving_input_indices (length inputs) (rs_errors response))")
          case (Inl e)
          then show ?thesis using that [of s "Inl e"] run Inr ne inf r Proceed by (simp add: process_item_def Let_def)
        next
          case o: (Inr out)
          show ?thesis
          proof (cases out)
            case None
            have "finish_output jp env item ?n s (Inr ()) = (s', r)"
              using run Inr ne inf r Proceed o None by (simp add: process_item_def Let_def)
            then show ?thesis by (rule that) (simp, intro exI [of _ "[]"], simp)
          next
            case (Some rows)
            obtain s1 r1 where st: "store_rows jp env item rows s = (s1, r1)" by fastforce
            show ?thesis using that [of s1 r1] run Inr ne inf r Proceed o Some st store_rows_result [OF st]
              by (simp add: process_item_def Let_def)
          qed
        qed
        from finish_output_ends [OF f] show ?thesis by (elim disjE) (rule that, assumption, simp)+
      qed
    qed
  qed
qed

lemma finalize_fields [simp]:
  "st_ledger (finalize_item t seg o' work s) = st_ledger s"
  "st_writes (finalize_item t seg o' work s) = st_writes s"
  "st_counters (finalize_item t seg o' work s) = count_item t seg o' (st_counters s)"
  "st_log (finalize_item t seg o' work s) = st_log s @
     [log_update (count_item t seg o' (st_counters s)) (work - jc_processed (count_item t seg o' (st_counters s))) False]"
  by (simp_all add: finalize_item_def Let_def)

lemma clear_fields [simp]:
  "st_writes (clear_ledger_row env model sha shas s) = st_writes s"
  "st_counters (clear_ledger_row env model sha shas s) = st_counters s"
  "st_log (clear_ledger_row env model sha shas s) = st_log s"
  by (simp_all add: clear_ledger_row_def)

lemma count_item_input_errors:
  "jc_input_errors (count_item t seg o' c) = jc_input_errors c + (case o' of ItemInputFailed _ \<Rightarrow> 1 | _ \<Rightarrow> 0)"
  by (simp add: count_item_def Let_def split: item_outcome.splits option.splits)

lemma count_item_processed: "jc_processed (count_item t seg o' c) = jc_processed c + 1"
  by (simp add: count_item_def Let_def split: item_outcome.splits option.splits)

text \<open>
  C5. Only verdicts on the media reach the failure ledger.  However an item ends, the ledger is
  left alone, or the item succeeded and its own row goes, or it gains the item's verdict -- and
  that only when the item could not be prepared, with a class that is persisted, or when the
  workers rejected every one of its inputs for the media, never for a model of text segments.  An
  item that ends with an error changed neither the ledger nor the stored rows; and the items
  counted as failed on their media are exactly those with a verdict in the ledger.
\<close>

theorem only_media_verdicts_are_recorded:
  assumes run: "process_item parsers set_key show_error predict jp env item w s = (w', s', r)"
  shows "(\<forall>e. r = Inl e \<longrightarrow> st_ledger s' = st_ledger s \<and> st_writes s' = st_writes s) \<and>
    (if jc_input_errors (st_counters s') = jc_input_errors (st_counters s)
     then st_ledger s' = st_ledger s \<or>
       ji_sha256 item \<in> jp_ledger_shas jp \<and>
       st_ledger s' = fst (delete_extraction_error (ji_sha256 item) (mm_setter_name (jp_model jp)) (st_ledger s))
     else st_writes s' = st_writes s \<and> (\<exists>stage err. media_judged set_key predict jp env w stage err \<and> persisted_class (ie_kind err) \<noteq> None \<and>
       upsert_extraction_error (en_now env) (failure_record (jp_model jp) (jp_job jp) stage (ji_sha256 item) err) (st_ledger s) =
         (st_ledger s', Inr ())))"
proof -
  obtain segments e where e: "ends_as jp env item s s' segments r e"
    "\<forall>stage err. e = EndedRejected stage err \<longrightarrow> media_judged set_key predict jp env w stage err"
    by (rule process_item_ends [OF run])
  show ?thesis
  proof (cases e)
    case EndedFailed
    then show ?thesis using e(1) by (auto simp: ends_as_def count_item_input_errors)
  next
    case (EndedRejected stage err)
    then obtain db where db: "r = Inr ()" "persisted_class (ie_kind err) \<noteq> None"
      "upsert_extraction_error (en_now env) (failure_record (jp_model jp) (jp_job jp) stage (ji_sha256 item) err) (st_ledger s) = (db, Inr ())"
      "s' = finalize_item (ji_item_type item) segments (ItemInputFailed (kind_blocker (ie_kind err))) (jp_total_remaining jp) (s\<lparr>st_ledger := db\<rparr>)"
      using e(1) by (auto simp: ends_as_def)
    have "st_ledger s' = db" "st_writes s' = st_writes s"
      "jc_input_errors (st_counters s') = jc_input_errors (st_counters s) + 1"
      using db(4) by (simp_all add: count_item_input_errors)
    then show ?thesis using db(1-3) e(2) EndedRejected by auto
  next
    case EndedProcessed
    then obtain ws where "r = Inr ()" "s' = finalize_item (ji_item_type item) segments ItemProcessed (jp_total_remaining jp)
        (clear_ledger_row env (jp_model jp) (ji_sha256 item) (jp_ledger_shas jp) (s\<lparr>st_writes := st_writes s @ ws\<rparr>))"
      using e(1) by (auto simp: ends_as_def)
    then show ?thesis by (auto simp: count_item_input_errors clear_ledger_row_def)
  qed
qed

section \<open>Counters\<close>

definition counters_ok :: "job_counters \<Rightarrow> bool" where
  "counters_ok c \<longleftrightarrow>
     jc_processed c = jc_image_files c + jc_video_files c + jc_other_files c + jc_errors c \<and>
     0 \<le> jc_image_files c \<and> 0 \<le> jc_video_files c \<and> 0 \<le> jc_other_files c \<and>
     0 \<le> jc_blocked_errors c \<and> jc_blocked_errors c \<le> jc_input_errors c \<and> jc_input_errors c \<le> jc_errors c \<and>
     (jc_blocked c = {} \<longleftrightarrow> jc_blocked_errors c = 0)"

lemma count_item_ok: "counters_ok c \<Longrightarrow> counters_ok (count_item t seg o' c)"
  by (auto simp: counters_ok_def count_item_def Let_def split: item_outcome.splits option.splits)

text \<open>The order in which concurrent items finish does not show in the counters.\<close>

lemma count_item_commutes:
  "count_item t seg o' (count_item t' seg' p c) = count_item t' seg' p (count_item t seg o' c)"
  by (cases c; cases o'; cases p) (simp_all add: count_item_def Let_def insert_commute split: option.split)

lemma process_item_counts:
  assumes "process_item parsers set_key show_error predict jp env item w s = (w', s', r)" "counters_ok (st_counters s)"
  shows "counters_ok (st_counters s') \<and> jc_processed (st_counters s') = jc_processed (st_counters s) + 1 \<and>
    (\<exists>ws u. st_writes s' = st_writes s @ ws \<and> st_log s' = st_log s @ [u] \<and>
      int (length ws) \<le> 1 - (jc_errors (st_counters s') - jc_errors (st_counters s)) \<and>
      (\<forall>x \<in> set ws. ow_job x = jp_job jp) \<and> u = log_update (st_counters s') (jp_total_remaining jp - jc_processed (st_counters s')) False)"
proof -
  obtain segments e where e: "ends_as jp env item s s' segments r e"
    by (rule process_item_ends [OF assms(1)])
  obtain o' s1 ws where s': "s' = finalize_item (ji_item_type item) segments o' (jp_total_remaining jp) s1"
    "st_counters s1 = st_counters s" "st_log s1 = st_log s" "st_writes s1 = st_writes s @ ws" "\<forall>x \<in> set ws. ow_job x = jp_job jp"
    "length ws \<le> (if o' = ItemProcessed then 1 else 0)"
  proof (cases e)
    case EndedFailed
    then show ?thesis using that [of ItemFailed s "[]"] e by (auto simp: ends_as_def)
  next
    case (EndedRejected stage err)
    then show ?thesis using e that [of "ItemInputFailed (kind_blocker (ie_kind err))" "s\<lparr>st_ledger := db\<rparr>" "[]" for db]
      by (auto simp: ends_as_def)
  next
    case EndedProcessed
    then show ?thesis using e that [of ItemProcessed
        "clear_ledger_row env (jp_model jp) (ji_sha256 item) (jp_ledger_shas jp) (s\<lparr>st_writes := st_writes s @ ws\<rparr>)" ws for ws]
      by (auto simp: ends_as_def)
  qed
  have "jc_errors (count_item (ji_item_type item) segments o' (st_counters s)) =
      jc_errors (st_counters s) + (if o' = ItemProcessed then 0 else 1)"
    by (simp add: count_item_def Let_def split: item_outcome.splits option.splits)
  then show ?thesis using s' count_item_ok [OF assms(2)] by (auto simp: count_item_processed split: if_splits)
qed

lemma run_items_account:
  assumes "run_items env jp items w s = (w', s')" "counters_ok (st_counters s)"
  shows "counters_ok (st_counters s') \<and>
    jc_processed (st_counters s') = jc_processed (st_counters s) + int (length items) \<and>
    (\<exists>ws us. st_writes s' = st_writes s @ ws \<and> st_log s' = st_log s @ us \<and> length us = length items \<and>
      int (length ws) \<le> int (length items) - (jc_errors (st_counters s') - jc_errors (st_counters s)) \<and>
      (\<forall>x \<in> set ws. ow_job x = jp_job jp) \<and>
      map du_total_remaining us = map (\<lambda>k. jp_total_remaining jp - jc_processed (st_counters s) - int k) [1..<Suc (length items)])"
  using assms
proof (induction items arbitrary: w s)
  case Nil
  then show ?case by simp
next
  case (Cons i items)
  obtain k item where i: "i = (k, item)" by fastforce
  obtain w1 s1 r where p: "process_item (xe_parsers env) (xe_set_key env) (xe_show_error env) (xe_predict env) jp
      (xe_item_env env item) item w s = (w1, s1, r)" by (rule prod_cases3)
  have rest: "run_items env jp items w1 s1 = (w', s')" using Cons.prems(1) p i by simp
  obtain ws1 u where one: "counters_ok (st_counters s1)" "jc_processed (st_counters s1) = jc_processed (st_counters s) + 1"
    "st_writes s1 = st_writes s @ ws1" "st_log s1 = st_log s @ [u]"
    "int (length ws1) \<le> 1 - (jc_errors (st_counters s1) - jc_errors (st_counters s))" "\<forall>x \<in> set ws1. ow_job x = jp_job jp"
    "u = log_update (st_counters s1) (jp_total_remaining jp - jc_processed (st_counters s1)) False"
    using process_item_counts [OF p Cons.prems(2)] by blast
  obtain ws us where more: "counters_ok (st_counters s')" "jc_processed (st_counters s') = jc_processed (st_counters s1) + int (length items)"
    "st_writes s' = st_writes s1 @ ws" "st_log s' = st_log s1 @ us" "length us = length items"
    "int (length ws) \<le> int (length items) - (jc_errors (st_counters s') - jc_errors (st_counters s1))" "\<forall>x \<in> set ws. ow_job x = jp_job jp"
    "map du_total_remaining us = map (\<lambda>k. jp_total_remaining jp - jc_processed (st_counters s1) - int k) [1..<Suc (length items)]"
    using Cons.IH [OF rest one(1)] by blast
  have "map du_total_remaining (u # us) = map (\<lambda>k. jp_total_remaining jp - jc_processed (st_counters s) - int k) [1..<Suc (length (i # items))]"
  proof -
    have "[1..<Suc (length (i # items))] = 1 # map Suc [1..<Suc (length items)]"
      by (simp add: map_Suc_upt upt_conv_Cons del: upt_Suc)
    moreover have "du_total_remaining u = jp_total_remaining jp - jc_processed (st_counters s) - 1"
      using one(2,7) by (simp add: log_update_def)
    ultimately show ?thesis using more(8) one(2) by (simp del: upt_Suc add: comp_def)
  qed
  then show ?case using one more by (intro conjI exI [of _ "ws1 @ ws"] exI [of _ "u # us"]) auto
qed

text \<open>
  C25. The counters account for every item of a job: after its items, each was counted once, as an
  image, a video, another file or an error; the errors caused by the media and by missing
  dependencies are among the errors; every item left one progress update in the log, whose
  remaining count goes down by one each time; and no more rows were stored than items succeeded.
\<close>

theorem counters_account_for_items:
  assumes "run_items env jp items w s = (w', s')" "counters_ok (st_counters s)"
  shows "counters_ok (st_counters s') \<and>
    jc_processed (st_counters s') = jc_processed (st_counters s) + int (length items) \<and>
    (\<exists>ws us. st_writes s' = st_writes s @ ws \<and> st_log s' = st_log s @ us \<and> length us = length items \<and>
      int (length ws) \<le> int (length items) - (jc_errors (st_counters s') - jc_errors (st_counters s)) \<and>
      (\<forall>x \<in> set ws. ow_job x = jp_job jp) \<and>
      map du_total_remaining us = map (\<lambda>k. jp_total_remaining jp - jc_processed (st_counters s) - int k) [1..<Suc (length items)])"
  using assms by (rule run_items_account)

section \<open>A small job\<close>

text \<open>A server that judges each input on its own and runs out of memory on any batch of several.\<close>

definition one_by_one :: "('i \<Rightarrow> (slot_class \<times> string) + 'j) \<Rightarrow> (nat, 'i, 'j, unit) predictor" where
  "one_by_one unit cap xs w =
     (w + 1, if length xs > 1 then Inl (OtherFailure ''out of memory'') else Inr (unit_reply Json unit xs))"

lemma one_by_one_answers: "answers_units Json unit (one_by_one unit)"
  by (auto simp: answers_units_def one_by_one_def)

definition even_only :: "nat inference_input \<Rightarrow> (slot_class \<times> string) + nat" where
  "even_only x = (if even (ii_data x) then Inr (ii_data x) else Inl (InputSlot, ''odd''))"

definition frames :: "nat list \<Rightarrow> nat inference_input list" where
  "frames ns = map (\<lambda>n. \<lparr>ii_data = n, ii_file = None\<rparr>) ns"

definition clip_model :: model_metadata where
  "clip_model = \<lparr>mm_group = ''clip'', mm_setter_name = ''clip/small'', mm_target_entities = [''items''],
     mm_output_type = ClipOutput, mm_default_batch_size = 8, mm_default_threshold = None, mm_unavailable_reason = None\<rparr>"

definition small_params :: job_params where
  "small_params = \<lparr>jp_job = 7, jp_model = clip_model, jp_threshold = None, jp_unit_capacity = 2,
     jp_total_remaining = 5, jp_ledger_shas = {}\<rparr>"

definition clip_item :: "string \<Rightarrow> job_item" where
  "clip_item sha = \<lparr>ji_sha256 = sha, ji_path = ''/film.mp4'', ji_item_type = ''video/mp4'', ji_data_id = None\<rparr>"

definition item_env_of :: "item_error + nat inference_input list \<Rightarrow> nat item_env" where
  "item_env_of prepared = \<lparr>en_now = ''2024'', en_prepared = prepared, en_output_written = True,
     en_ledger_written = True, en_ledger_cleared = True\<rparr>"

definition decimal_parsers :: "(nat, unit, unit) output_parsers" where
  "decimal_parsers = \<lparr>op_transcription = \<lparr>tr_text = show_nat, tr_confidence = (\<lambda>_. None), tr_language = (\<lambda>_. None),
       tr_language_confidence = (\<lambda>_. None)\<rparr>,
     op_embedding_json = (\<lambda>v. Inr (show_nat v)), op_embedding_npy = (\<lambda>_. Inr ''0''), op_embedding_rows = (\<lambda>_. Inr []),
     op_tags = (\<lambda>_. Inr None), op_no_tags = ()\<rparr>"

definition small_db :: ledger_db where
  "small_db = \<lparr>ld_items = [\<lparr>it_id = 1, it_sha256 = ''a1'', it_type = []\<rparr>], ld_setters = [(4, ''clip/small'')], ld_errors = []\<rparr>"

definition small_store :: "unit job_store" where
  "small_store = \<lparr>st_ledger = small_db, st_writes = [], st_counters = no_counters, st_log = []\<rparr>"

text \<open>The items are in the order \<open>xe_order\<close> gives; \<open>broken\<close> cannot be decoded.\<close>

definition small_env :: "(nat \<Rightarrow> item_error + work_row list) \<Rightarrow> (nat, nat, nat, unit, unit) extraction_env" where
  "small_env snap = \<lparr>xe_settings = Inr [], xe_resync_needed = Inr False, xe_resync = Inr default_summary,
     xe_model = Inr clip_model, xe_endpoints = True, xe_probe = (\<lambda>_. False), xe_heal_ok = True, xe_query = Inr (),
     xe_ledger_read = None, xe_first_cleanup = None, xe_total = Inr 2, xe_add_data_log = None, xe_upsert_setter = None,
     xe_final_update = True, xe_last_cleanup = True, xe_remaining_after = Inr 0, xe_load = None, xe_exists = (\<lambda>_. True),
     xe_existing_file = (\<lambda>_. Inr None), xe_snap = snap, xe_order = rev, xe_stopped = (\<lambda>_. NotCounted),
     xe_item_env = (\<lambda>item. item_env_of (if ji_sha256 item = ''a1'' then Inl (input_error ''moov atom not found'')
       else Inr (frames [2]))),
     xe_atomic = True, xe_parsers = decimal_parsers, xe_set_key = (\<lambda>_ d. d), xe_show_error = (\<lambda>_. ''failed''),
     xe_predict = one_by_one even_only\<rparr>"

lemmas small_job_defs =
  clip_model_def small_params_def clip_item_def item_env_of_def decimal_parsers_def small_db_def small_store_def

theorem chunking_is_invisible_witness:
  "\<exists>w'. run_chunked_inference (one_by_one even_only) 2 (frames [4, 7, 6]) 0 =
     (w', Inr \<lparr>rs_outputs = Json [4, 6], rs_errors = [\<lparr>sl_index = 1, sl_class = InputSlot, sl_message = ''odd''\<rparr>]\<rparr>)"
  using chunking_is_invisible [OF packs_Json one_by_one_answers, of "frames [4, 7, 6]" even_only 2 0]
  by (simp add: frames_def even_only_def unit_reply_def)







text \<open>An item whose media cannot be decoded: the ledger gets its verdict and no row is written.\<close>

theorem only_media_verdicts_are_recorded_witness:
  "\<exists>w' s' stage err. process_item decimal_parsers (\<lambda>_ d. d) (\<lambda>_. ''failed'') (one_by_one even_only) small_params
      (item_env_of (Inl (input_error ''moov atom not found''))) (clip_item ''a1'') 0 small_store = (w', s', Inr ()) \<and>
    jc_input_errors (st_counters s') = 1 \<and> st_writes s' = [] \<and>
    media_judged (\<lambda>_ d. d) (one_by_one even_only) small_params (item_env_of (Inl (input_error ''moov atom not found''))) 0 stage err \<and>
    upsert_extraction_error ''2024'' (failure_record clip_model 7 stage ''a1'' err) small_db = (st_ledger s', Inr ())"
proof -
  let ?run = "process_item decimal_parsers (\<lambda>_ d. d) (\<lambda>_. ''failed'') (one_by_one even_only) small_params
      (item_env_of (Inl (input_error ''moov atom not found''))) (clip_item ''a1'') 0 small_store"
  obtain w' s' r where run: "?run = (w', s', r)" by (rule prod_cases3)
  have counted: "jc_input_errors (st_counters s') = 1" "r = Inr ()"
    using run by (auto simp: process_item_def Let_def finish_failure_def record_item_failure_def finalize_item_def count_item_def
      small_job_defs input_error_def upsert_extraction_error_def item_of_def setter_of_def failure_record_def
      skip_after_confirmed_def no_counters_def)
  have "jc_input_errors (st_counters s') \<noteq> jc_input_errors (st_counters small_store)"
    using counted by (simp add: small_store_def no_counters_def)
  then have "st_writes s' = st_writes small_store \<and>
    (\<exists>stage err. media_judged (\<lambda>_ d. d) (one_by_one even_only) small_params (item_env_of (Inl (input_error ''moov atom not found''))) 0 stage err \<and>
      persisted_class (ie_kind err) \<noteq> None \<and>
      upsert_extraction_error (en_now (item_env_of (Inl (input_error ''moov atom not found''))))
        (failure_record (jp_model small_params) (jp_job small_params) stage (ji_sha256 (clip_item ''a1'')) err) (st_ledger small_store) =
        (st_ledger s', Inr ()))"
    using only_media_verdicts_are_recorded [OF run] by simp
  then obtain stage err where "st_writes s' = []"
    "media_judged (\<lambda>_ d. d) (one_by_one even_only) small_params (item_env_of (Inl (input_error ''moov atom not found''))) 0 stage err"
    "upsert_extraction_error ''2024'' (failure_record clip_model 7 stage ''a1'' err) small_db = (st_ledger s', Inr ())"
    by (auto simp: small_params_def item_env_of_def clip_item_def small_store_def)
  then show ?thesis using run counted by blast
qed

theorem counters_account_for_items_witness:
  "\<exists>w' s'. run_items (small_env (\<lambda>_. Inr [])) small_params [(1, clip_item ''a1''), (2, clip_item ''b2'')] 0 small_store = (w', s') \<and>
    counters_ok (st_counters s') \<and> jc_processed (st_counters s') = 2 \<and> map du_total_remaining (st_log s') = [4, 3]"
proof -
  obtain w' s' where run: "run_items (small_env (\<lambda>_. Inr [])) small_params [(1, clip_item ''a1''), (2, clip_item ''b2'')] 0 small_store = (w', s')"
    by fastforce
  have start: "counters_ok (st_counters small_store)" by (simp add: small_store_def counters_ok_def no_counters_def)
  show ?thesis
    using counters_account_for_items [OF run start] run
    by (auto simp: small_store_def small_params_def no_counters_def upt_conv_Cons)
qed

end
