(* ===== verification/ExtractionJobProps.thy ===== *)
theory ExtractionJobProps
  imports ExtractionProps
begin

text \<open>
  What an extraction job promises as a whole: a job that fails leaves nothing unfinished, and its
  dispatch neither repeats nor loses work although the query is read page by page.
\<close>

section \<open>The history\<close>








section \<open>How far a job came\<close>














section \<open>Dispatch\<close>

lemma sorted_prefix_member:
  assumes "sorted (map key xs)" "distinct (map key xs)" "r \<in> set xs" "take n xs \<noteq> []" "(key r :: int) \<le> key (last (take n xs))"
  shows "r \<in> set (take n xs)"
proof (rule ccontr)
  assume no: "r \<notin> set (take n xs)"
  have xs: "xs = take n xs @ drop n xs" by simp
  have drop: "r \<in> set (drop n xs)" using assms(3) no by (metis Un_iff append_take_drop_id set_append)
  have l: "last (take n xs) \<in> set (take n xs)" using assms(4) by simp
  have "sorted (map key (take n xs) @ map key (drop n xs))" using assms(1) by (metis map_append append_take_drop_id)
  then have "key (last (take n xs)) \<le> key r" using l drop by (auto simp: sorted_append)
  then have "key r = key (last (take n xs))" using assms(5) by simp
  moreover have "distinct (map key (take n xs) @ map key (drop n xs))" using assms(2) by (metis map_append append_take_drop_id)
  then have "key ` set (take n xs) \<inter> key ` set (drop n xs) = {}" by simp
  ultimately show False using l drop by (metis disjoint_iff image_eqI)
qed

lemma sort_key_distinct: "distinct (map key xs) \<Longrightarrow> distinct (map key (sort_key key xs))"
  by (simp add: distinct_map)

text \<open>Every row in reach of the page, up to the new cursor, is on the page.\<close>

lemma page_member:
  assumes "rows = chunked_work_query key cursor all_rows" "distinct (map key all_rows)" "r \<in> set all_rows"
    "cursor < key r" "key r \<le> i64_max" "length rows < work_chunk_rows \<or> rows \<noteq> [] \<and> key r \<le> key (last rows)"
  shows "r \<in> set rows"
proof -
  let ?xs = "sort_key key (filter (\<lambda>r. key r > cursor \<and> key r \<le> i64_max) all_rows)"
  have r: "r \<in> set ?xs" using assms(3-5) by simp
  have rows: "rows = take work_chunk_rows ?xs" using assms(1) by (simp add: chunked_work_query_def)
  show ?thesis
  proof (cases "length rows < work_chunk_rows")
    case True
    then have "rows = ?xs" unfolding rows by (simp add: min_def split: if_splits)
    then show ?thesis using r by simp
  next
    case False
    have "distinct (map key ?xs)" by (rule sort_key_distinct) (simp add: distinct_map_filter assms(2))
    then show ?thesis using sorted_prefix_member [of key ?xs r work_chunk_rows] r False assms(6) rows by simp
  qed
qed


text \<open>
  What holds of a dispatch that has met only rows of \<open>R\<close>: a partition is dispatched at most once,
  from one of its rows, and is left out only for a row whose file is gone.
\<close>

definition dispatch_ok :: "(work_row \<Rightarrow> int) \<Rightarrow> (work_row \<Rightarrow> item_error + job_item option) \<Rightarrow> work_row set \<Rightarrow> dispatch \<Rightarrow> bool" where
  "dispatch_ok part input R d \<longleftrightarrow>
     distinct (map fst (di_items d)) \<and> fst ` set (di_items d) \<subseteq> di_dispatched d \<and>
     (\<forall>p \<in> di_dispatched d. p \<in> fst ` set (di_items d) \<or> (\<exists>r \<in> R. part r = p \<and> input r = Inr None)) \<and>
     (\<forall>(p, item) \<in> set (di_items d). \<exists>r \<in> R. part r = p \<and> input r = Inr (Some item))"

lemma dispatch_ok_skip:
  assumes "dispatch_ok part input R d" "r \<in> R" "part r \<in> di_dispatched d \<or> input r = Inr None"
    "di_dispatched d1 = insert (part r) (di_dispatched d)" "di_items d1 = di_items d"
  shows "dispatch_ok part input R d1"
  using assms unfolding dispatch_ok_def by auto

lemma dispatch_ok_item:
  assumes "dispatch_ok part input R d" "r \<in> R" "part r \<notin> di_dispatched d" "input r = Inr (Some item)"
    "di_dispatched d1 = insert (part r) (di_dispatched d)" "di_items d1 = di_items d @ [(part r, item)]"
  shows "dispatch_ok part input R d1"
  using assms unfolding dispatch_ok_def by auto

lemma dispatch_rows_ok:
  assumes "dispatch_rows key part input rs d = Inr d'" "dispatch_ok part input R d" "set rs \<subseteq> R"
  shows "dispatch_ok part input R d'" "di_dispatched d' = di_dispatched d \<union> part ` set rs"
  using assms
proof (induction rs arbitrary: d)
  case Nil
  { case 1 then show ?case by simp }
  { case 2 then show ?case by simp }
next
  case (Cons r rs)
  have step: "\<exists>d1. dispatch_rows key part input rs d1 = Inr d' \<and> di_dispatched d1 = insert (part r) (di_dispatched d) \<and>
      dispatch_ok part input R d1"
    if prems: "dispatch_rows key part input (r # rs) d = Inr d'" "dispatch_ok part input R d" "set (r # rs) \<subseteq> R" for d
  proof -
    obtain d1 where d1: "dispatch_rows key part input rs d1 = Inr d'" "di_dispatched d1 = insert (part r) (di_dispatched d)"
      and items: "di_items d1 = di_items d \<and> (part r \<in> di_dispatched d \<or> input r = Inr None) \<or>
        part r \<notin> di_dispatched d \<and> (\<exists>item. input r = Inr (Some item) \<and> di_items d1 = di_items d @ [(part r, item)])"
      using prems(1) by (rule dispatch_rows_step)
    have "r \<in> R" using prems(3) by simp
    then have "dispatch_ok part input R d1"
      using items dispatch_ok_skip [OF prems(2) _ _ d1(2)] dispatch_ok_item [OF prems(2) _ _ _ d1(2)] by blast
    then show ?thesis using d1 by blast
  qed
  { case 1
    then obtain d1 where "dispatch_rows key part input rs d1 = Inr d'" "dispatch_ok part input R d1"
      using step [OF 1] by blast
    then show ?case using Cons.IH(1) 1 by simp }
  { case 2
    then obtain d1 where "dispatch_rows key part input rs d1 = Inr d'" "dispatch_ok part input R d1"
      "di_dispatched d1 = insert (part r) (di_dispatched d)" using step [OF 2] by blast
    then show ?case using Cons.IH(2) 2 by simp }
qed

text \<open>A row the query keeps returning is met: its key lies between the cursor and the last page.\<close>

lemma dispatch_loop_ok:
  assumes "dispatch_loop key part input snap n d = Inr d'" "dispatch_ok part input R d"
    "\<forall>m all_rows. snap m = Inr all_rows \<longrightarrow> set all_rows \<subseteq> R"
  shows "dispatch_ok part input R d' \<and> di_dispatched d \<subseteq> di_dispatched d' \<and>
    (\<forall>r. (\<forall>m all_rows. snap m = Inr all_rows \<longrightarrow> r \<in> set all_rows \<and> distinct (map key all_rows)) \<and>
       di_cursor d < key r \<and> key r \<le> i64_max \<longrightarrow> part r \<in> di_dispatched d')"
  using assms
proof (induction key part input snap n d rule: dispatch_loop.induct)
  case (1 key part input snap n d)
  obtain all_rows where snap: "snap n = Inr all_rows"
    using "1.prems"(1) by (subst (asm) dispatch_loop.simps) (auto split: sum.splits)
  let ?rows = "chunked_work_query key (di_cursor d) all_rows"
  obtain e where e: "dispatch_rows key part input ?rows d = Inr e"
    using "1.prems"(1) snap by (subst (asm) dispatch_loop.simps) (auto simp: Let_def split: sum.splits)
  have sub: "set ?rows \<subseteq> R"
    using "1.prems"(3) snap by (force simp: chunked_work_query_def dest!: in_set_takeD)
  note page = dispatch_rows_ok [OF e "1.prems"(2) sub]
  have met: "part r \<in> di_dispatched e"
    if "\<forall>m all_rows. snap m = Inr all_rows \<longrightarrow> r \<in> set all_rows \<and> distinct (map key all_rows)"
      "di_cursor d < key r" "key r \<le> i64_max" "length ?rows < work_chunk_rows \<or> ?rows \<noteq> [] \<and> key r \<le> key (last ?rows)" for r
    using page_member [OF refl _ _ that(2-4)] that(1) snap page(2) by blast
  show ?case
  proof (cases "length ?rows < work_chunk_rows")
    case True
    then have "d' = e" using "1.prems"(1) snap e by (subst (asm) dispatch_loop.simps) simp
    then show ?thesis using page met True by auto
  next
    case False
    then have rest: "dispatch_loop key part input snap (n + 1) e = Inr d'"
      using "1.prems"(1) snap e by (subst (asm) dispatch_loop.simps) simp
    have ne: "?rows \<noteq> []" using False by (auto simp: work_chunk_rows_def)
    have cursor: "di_cursor e = key (last ?rows)" using dispatch_rows_cursor [OF e] ne by simp
    note ih = "1.IH" [OF snap refl e False rest page(1) "1.prems"(3)]
    have "part r \<in> di_dispatched d'"
      if r: "\<forall>m all_rows. snap m = Inr all_rows \<longrightarrow> r \<in> set all_rows \<and> distinct (map key all_rows)"
        "di_cursor d < key r" "key r \<le> i64_max" for r
    proof (cases "key r \<le> key (last ?rows)")
      case True
      then show ?thesis using met [OF r] ne ih by blast
    next
      case False
      then show ?thesis using ih r cursor by simp
    qed
    then show ?thesis using ih page(2) by blast
  qed
qed

lemma dispatch_all_ok:
  assumes "dispatch_all model input snap = Inr d" "work_query_keys model = (key, part)"
    "\<forall>m all_rows. snap m = Inr all_rows \<longrightarrow> set all_rows \<subseteq> R"
  shows "dispatch_ok part input R d" "\<lbrakk>\<And>m all_rows. snap m = Inr all_rows \<Longrightarrow> r \<in> set all_rows \<and> distinct (map key all_rows);
    i64_min < key r; key r \<le> i64_max\<rbrakk> \<Longrightarrow> part r \<in> di_dispatched d"
proof -
  have "dispatch_ok part input R \<lparr>di_cursor = i64_min, di_dispatched = {}, di_items = []\<rparr>" by (simp add: dispatch_ok_def)
  moreover have "dispatch_loop key part input snap 0 \<lparr>di_cursor = i64_min, di_dispatched = {}, di_items = []\<rparr> = Inr d"
    using assms(1,2) by (simp add: dispatch_all_def)
  ultimately have "dispatch_ok part input R d \<and>
    (\<forall>r. (\<forall>m all_rows. snap m = Inr all_rows \<longrightarrow> r \<in> set all_rows \<and> distinct (map key all_rows)) \<and>
       i64_min < key r \<and> key r \<le> i64_max \<longrightarrow> part r \<in> di_dispatched d)"
    using dispatch_loop_ok [of key part input snap 0 "\<lparr>di_cursor = i64_min, di_dispatched = {}, di_items = []\<rparr>" d R] assms(3)
    by simp
  then show "dispatch_ok part input R d" "\<lbrakk>\<And>m all_rows. snap m = Inr all_rows \<Longrightarrow> r \<in> set all_rows \<and> distinct (map key all_rows);
    i64_min < key r; key r \<le> i64_max\<rbrakk> \<Longrightarrow> part r \<in> di_dispatched d"
    by blast+
qed

text \<open>
  C4. The dispatch of an extraction job's work neither repeats nor loses anything, although the
  query is re-read for every page of 1,024 rows while the items already dispatched are being
  processed.  If the reads succeed, with \<open>key\<close> the cursor column and \<open>part\<close> the partition of the
  model's target: no partition (an item for item models, a file or a text for the others) is
  dispatched twice; what is dispatched comes from a row of the query; and a row that is in every
  read, with keys distinct in each, has its partition dispatched, unless a row of that partition
  was met whose file is gone and has no other available file.
\<close>

theorem every_item_is_dispatched_once:
  assumes "dispatch_all model input snap = Inr d" "work_query_keys model = (key, part)"
  shows "distinct (map fst (di_items d)) \<and>
    (\<forall>(p, item) \<in> set (di_items d). \<exists>m all_rows r. snap m = Inr all_rows \<and> r \<in> set all_rows \<and> part r = p \<and> input r = Inr (Some item)) \<and>
    (\<forall>r. (\<forall>m all_rows. snap m = Inr all_rows \<longrightarrow> r \<in> set all_rows \<and> distinct (map key all_rows)) \<longrightarrow>
       i64_min < key r \<longrightarrow> key r \<le> i64_max \<longrightarrow>
       part r \<in> fst ` set (di_items d) \<or>
       (\<exists>m all_rows r'. snap m = Inr all_rows \<and> r' \<in> set all_rows \<and> part r' = part r \<and> input r' = Inr None))"
proof -
  let ?R = "{r. \<exists>m all_rows. snap m = Inr all_rows \<and> r \<in> set all_rows}"
  have "\<forall>m all_rows. snap m = Inr all_rows \<longrightarrow> set all_rows \<subseteq> ?R" by blast
  note ok = dispatch_all_ok [OF assms this]
  note parts = ok(1) [unfolded dispatch_ok_def]
  show ?thesis
  proof (intro conjI)
    show "distinct (map fst (di_items d))" using parts by blast
    show "\<forall>(p, item) \<in> set (di_items d). \<exists>m all_rows r. snap m = Inr all_rows \<and> r \<in> set all_rows \<and> part r = p \<and> input r = Inr (Some item)"
    proof (intro ballI, clarify)
      fix p item
      assume i: "(p, item) \<in> set (di_items d)"
      have "\<forall>(p, item) \<in> set (di_items d). \<exists>r \<in> ?R. part r = p \<and> input r = Inr (Some item)" using parts by blast
      then have "\<exists>r \<in> ?R. part r = p \<and> input r = Inr (Some item)" using i by fast
      then show "\<exists>m all_rows r. snap m = Inr all_rows \<and> r \<in> set all_rows \<and> part r = p \<and> input r = Inr (Some item)" by blast
    qed
    show "\<forall>r. (\<forall>m all_rows. snap m = Inr all_rows \<longrightarrow> r \<in> set all_rows \<and> distinct (map key all_rows)) \<longrightarrow>
       i64_min < key r \<longrightarrow> key r \<le> i64_max \<longrightarrow>
       part r \<in> fst ` set (di_items d) \<or>
       (\<exists>m all_rows r'. snap m = Inr all_rows \<and> r' \<in> set all_rows \<and> part r' = part r \<and> input r' = Inr None)"
      (is "\<forall>r. ?P r")
    proof
      fix r
      show "?P r" using ok(2) [of r] parts by blast
    qed
  qed
qed

section \<open>The small job, run\<close>



definition clip_row :: "int \<Rightarrow> int \<Rightarrow> string \<Rightarrow> work_row" where
  "clip_row file item sha = \<lparr>wr_file_id = file, wr_item_id = item, wr_data_id = 0, wr_item = clip_item sha\<rparr>"

text \<open>Two files of one item and one of another; the rows come unsorted.\<close>

definition small_snap :: "nat \<Rightarrow> item_error + work_row list" where
  "small_snap n = Inr [clip_row 12 1 ''a1'', clip_row 11 1 ''a1'', clip_row 13 2 ''b2'']"


theorem every_item_is_dispatched_once_witness:
  "\<exists>d. dispatch_all clip_model (\<lambda>r. Inr (Some (wr_item r))) small_snap = Inr d \<and>
    map fst (di_items d) = [1, 2] \<and> distinct (map fst (di_items d)) \<and> 2 \<in> fst ` set (di_items d)"
proof -
  have sorted: "sort_key wr_file_id [clip_row 12 1 ''a1'', clip_row 11 1 ''a1'', clip_row 13 2 ''b2''] =
      [clip_row 11 1 ''a1'', clip_row 12 1 ''a1'', clip_row 13 2 ''b2'']"
    by (simp add: clip_row_def)
  have keys: "work_query_keys clip_model = (wr_file_id, wr_item_id)" by (simp add: work_query_keys_def clip_model_def)
  have "\<exists>d. dispatch_loop wr_file_id wr_item_id (\<lambda>r. Inr (Some (wr_item r))) small_snap 0
      \<lparr>di_cursor = i64_min, di_dispatched = {}, di_items = []\<rparr> = Inr d \<and> map fst (di_items d) = [1, 2]"
    by (subst dispatch_loop.simps)
      (simp add: small_snap_def chunked_work_query_def work_chunk_rows_def i64_min_def i64_max_def clip_row_def clip_item_def)
  then obtain d where d: "dispatch_all clip_model (\<lambda>r. Inr (Some (wr_item r))) small_snap = Inr d" "map fst (di_items d) = [1, 2]"
    by (auto simp: dispatch_all_def keys)
  have member: "\<forall>m all_rows. small_snap m = Inr all_rows \<longrightarrow> clip_row 13 2 ''b2'' \<in> set all_rows \<and> distinct (map wr_file_id all_rows)"
    by (auto simp: small_snap_def clip_row_def)
  have bounds: "i64_min < wr_file_id (clip_row 13 2 ''b2'')" "wr_file_id (clip_row 13 2 ''b2'') \<le> i64_max"
    by (simp_all add: clip_row_def i64_min_def i64_max_def)
  have "wr_item_id (clip_row 13 2 ''b2'') \<in> fst ` set (di_items d)"
    using every_item_is_dispatched_once [OF d(1) keys] member bounds by blast
  then show ?thesis
    using d every_item_is_dispatched_once [OF d(1) keys] by (auto simp: clip_row_def)
qed

text \<open>
  A model of extracted texts whose server rejects a segment leaves the ledger alone; a segment too
  large to be sent is refused while preparing, and that verdict is recorded against its item.
\<close>

lemma oversized_segment_is_recorded:
  assumes "targets_text_entity (jp_model jp)" "en_prepared env = Inl (resource_error d)" "en_ledger_written env"
    "item_of (ji_sha256 item) (st_ledger s) = Some i" "setter_of (mm_setter_name (jp_model jp)) (st_ledger s) = Some setter"
  shows "\<exists>s'. process_item parsers set_key show_error predict jp env item w s = (w, s', Inr ()) \<and>
    (\<exists>r \<in> set (ld_errors (st_ledger s')). lr_item r = it_id i \<and> lr_setter r = setter)"
proof -
  obtain db where db: "upsert_extraction_error (en_now env) (failure_record (jp_model jp) (jp_job jp) ''prepare'' (ji_sha256 item) (resource_error d))
      (st_ledger s) = (db, Inr ())" "\<exists>r \<in> set (ld_errors db). lr_item r = it_id i \<and> lr_setter r = setter"
  proof (cases "row_of (it_id i) setter (st_ledger s)")
    case None
    then show ?thesis
      using that assms(4,5)
      by (simp add: upsert_extraction_error_def failure_record_def resource_error_def skip_after_confirmed_def new_row_def)
  next
    case (Some r)
    let ?same = "\<lambda>r. lr_item r = it_id i \<and> lr_setter r = setter"
    have found: "find ?same (ld_errors (st_ledger s)) = Some r" using Some by (simp add: row_of_def)
    have "\<exists>x \<in> set (update_first ?same f (ld_errors (st_ledger s))). x = f r" for f
      using find_Some_update_first [OF found, of f] by auto
    then show ?thesis
      using that assms(4,5) Some find_SomeD [OF found]
      by (force simp: upsert_extraction_error_def failure_record_def resource_error_def skip_after_confirmed_def update_row_def)
  qed
  then show ?thesis
    using assms by (simp add: process_item_def finish_failure_def record_item_failure_def resource_error_def finalize_item_def Let_def)
qed

end
