(* ===== verification/Spec2Isabelle.thy ===== *)
theory Spec2Isabelle
  imports JobProps SearchProps ModelProps PrewarmPool DispatchProps PolicyProps PoolProps ScanPathsProps DirPollerProps ContinuousScanProps
    ScanSupervisorProps InferencePoolProps FailureLedgerProps ExtractionJobProps
begin

text \<open>
  A verification library for Panoptikon, a server that indexes files, runs inference models
  over them and answers searches.  All paths below are relative to \<open>src/panoptikon/src\<close>.

  The parts and how they interact.  A request from outside first passes the policy layer
  (\<open>policy.rs\<close>), which picks a policy, checks its ruleset and pins the databases the request
  may name; it is then handled locally or forwarded by the reverse proxy (\<open>proxy.rs\<close>).  A
  search is answered from the search result cache (\<open>api/search_cache.rs\<close>) when the epochs of
  the databases (\<open>db/epochs.rs\<close>) have not moved.  Background work goes through the job queue
  (\<open>jobs/queue.rs\<close>): one actor orders the jobs and owes maintenance to the databases, another
  runs one job at a time.  Jobs and searches send inputs to models: the model manager
  (\<open>inferio/manager.rs\<close>) loads models under cache keys and unloads them, the prewarm pool
  (\<open>inferio/prewarm.rs\<close>) hands out started workers, and one dispatcher per loaded model
  (\<open>inferio/dispatch.rs\<close>) batches the requests for its workers.  Videos a browser cannot play
  are encoded by the transcode pool (\<open>media_tools/transcode/pool.rs\<close>), an actor of its own.  The continuous scan
  (\<open>jobs/continuous_scan.rs\<close>) keeps the index current between jobs: a supervisor runs one
  scanner per database, each watches or polls its folders (\<open>jobs/dir_poller.rs\<close>) under the path
  rules of \<open>jobs/files/mod.rs\<close>, and a job holds a guard that pauses the scanner of its database.
  An extraction job (\<open>jobs/extraction.rs\<close>) pages through the items a model has not seen, sends
  their inputs to a pool of inference servers (\<open>jobs/inference_pool.rs\<close>), writes what comes back
  (\<open>db/extraction_write.rs\<close>) and records the items whose media is bad in a ledger
  (\<open>db/extraction_errors.rs\<close>, \<open>db/ledger.rs\<close>) that its next work query leaves out.

  Theories.

    \<^item> \<open>Prelude\<close>: Rust integer bounds, string operations, generic lemmas.

    \<^item> \<open>JobTypes\<close>, \<open>JobQueue\<close>, \<open>JobRunner\<close>, \<open>JobSystem\<close>: the data of \<open>jobs/queue.rs\<close>, the handlers of
    the queue actor, the runner actor, and the two together with their mailboxes as a step
    relation.  \<open>JobQueueInv\<close> holds the invariant of the queue, proved in a locale over the
    runner's interface; \<open>JobFacts\<close> and \<open>JobProps\<close> hold the facts about reachable states.

    \<^item> \<open>LinkedMap\<close>: the interface of an LRU map as a locale, and a list that implements it.  The
    search cache and the model cache are clients of the interface.

    \<^item> \<open>SpanLayout\<close>, \<open>SearchCache\<close>, \<open>SearchStats\<close>, \<open>SearchRequests\<close>: \<open>api/search_cache.rs\<close> and the
    cached execution in \<open>api/search.rs\<close>.  \<open>SearchCacheInv\<close> proves the accounting invariant,
    \<open>CacheSound\<close> and \<open>CacheSystem\<close> relate cached spans to the result sets of the epochs they
    were stored under, \<open>SearchReach\<close> carries this through interleaved requests, commits and the
    epoch bumps that follow them, \<open>SearchProps\<close> states the properties.  A query shows at every
    position one of a set of rows, because its order need not be total and an execution with another
    limit may order ties differently; with a total order the sets have one row each.

    \<^item> \<open>ModelCache\<close>, \<open>ModelManager\<close>: \<open>CacheState\<close> and \<open>ModelManager\<close> of \<open>inferio/manager.rs\<close>; a
    load is two steps, before and after its workers are spawned, and anything can happen in
    between.  \<open>ModelManagerInv\<close> and \<open>ModelProps\<close> hold the invariants and the properties.

    \<^item> \<open>PrewarmPool\<close>: \<open>inferio/prewarm.rs\<close>, its state under the lock and the steps of its tasks.

    \<^item> \<open>Dispatch\<close>, \<open>DispatchProps\<close>: \<open>inferio/dispatch.rs\<close>: window formation, one window on one
    replica, the dispatcher task as a step relation.

    \<^item> \<open>Web\<close>, \<open>PolicyConfig\<close>, \<open>PolicyToken\<close>, \<open>Policy\<close>, \<open>Proxy\<close>, \<open>PolicyProps\<close>: header maps and decimal
    numbers, the policy part of \<open>config.rs\<close> with its checks at load, \<open>policy_token.rs\<close>,
    \<open>policy.rs\<close>, the headers of a forwarded request in \<open>proxy.rs\<close>, and the properties.

    \<^item> \<open>TranscodePool\<close>, \<open>PoolInv\<close>, \<open>PoolProps\<close>: the actor of \<open>media_tools/transcode/pool.rs\<close>, its
    invariant, and the abstract pool it refines: for every message a function of what waits and
    what runs.

    \<^item> \<open>ScanPaths\<close>, \<open>ScanPathsProps\<close>: paths, their normalisation and admission rules in
    \<open>jobs/files/mod.rs\<close>, and the roots a configuration gives.  \<open>DirPoller\<close>, \<open>DirPollerProps\<close>: one
    pass of the poller over a file system.  \<open>ScanFile\<close>, \<open>ContinuousScan\<close>: the failure ledger rules
    (\<open>db/scan_errors.rs\<close>), the worker and the scanner actor; \<open>ContinuousScanInv\<close> and
    \<open>ContinuousScanProps\<close> hold its invariant and properties.  \<open>ScanSupervisor\<close>,
    \<open>ScanSupervisorInv\<close>, \<open>ScanSupervisorProps\<close>: the supervisor, its scanners with their mailboxes
    and the jobs that pause them, as one step relation.

    \<^item> \<open>InferencePool\<close>, \<open>InferencePoolProps\<close>: the weighted round robin over the inference servers and
    its failover.

    \<^item> \<open>DbPrefix\<close>, \<open>FailureLedger\<close>, \<open>FailureLedgerProps\<close>: \<open>db/prefix.rs\<close>, the ledger of extraction
    failures with its suppression rule (\<open>pql/builder/filters/failed_for.rs\<close>) and its audit list.
    A SQL statement is written as what it computes over lists of rows.

    \<^item> \<open>ItemInference\<close>, \<open>ExtractionItem\<close>, \<open>ExtractionJob\<close>: the inference over one item's inputs, one
    item from its preparation to the counters, the job from its settings to its report.
    \<open>ExtractionProps\<close> holds the properties of items, \<open>ExtractionJobProps\<close> those of the job.

  What the lemmas show.  For every component an invariant of its state that each operation
  keeps, then the behaviour callers rely on: jobs start in order and end, no owed
  maintenance is lost, a mass cancel starts nothing it cancels and keeps the running job only to
  cancel it; a cached page is a page the database returns now, once its commits have bumped their
  epochs, the byte account of the cache is exact and its spans are disjoint;
  every loaded model is listed and every dispatcher accounted for; batching is invisible to
  callers and every request has one fate; a request behind the policy layer has the
  authority it was given and reaches only databases its policy permits; forwarding ends; the
  transcode pool is a bounded first-come work pool that runs one encode per key and drains;
  a poll pass over what can be read reports exactly what differs between the disk and what was
  known, one that meets an error removes nothing it did not see, a scanner that starts catches up
  with every change, only admitted files are processed, work from before a pause is never written after it, and a guard keeps
  the scanner of its database out of the way; an extraction job dispatches each unit of work
  once, splitting an item's inputs does not show, every stored row names its input, only
  verdicts on the media reach the ledger, and a job that fails or is cancelled leaves nothing
  unfinished behind its cleanup.

  Conventions.  Strings are byte lists; \<open>char\<close> is one byte of UTF-8, and \<open>trim\<close> knows the
  ASCII white space only.  Counters of type \<open>u64\<close> are natural numbers with the saturation or
  the guard of the code written out.  A lock section is one step.  Hash maps are functions or
  association lists.  Code from outside the repository is a parameter: the LRU map of the
  \<open>hashlink\<close> crate as a locale, the HTTP, URL, hash and JSON libraries as records of
  functions, workers as a state with a \<open>predict\<close> function, the database as a function from
  queries to result sets that changes with every commit; for an extraction job the work query as the rows it has at each read,
  the media of an item as its prepared inputs, the inference server as a function of the inputs.

  Fuel and bounds.  The eviction loop of the search cache pops one span per round, so its
  fuel is one more than the number of spans; the shrinking loop of the model cache likewise
  has one more than the number of entries.  The epochs of the search cache are assumed below
  the largest \<open>u64\<close>, which is the state in which the code can still count.  The walk of a poll
  pass is a partial function; it is proved to end on every finite tree.  The epoch of a scanner
  wraps at \<open>u64\<close>, so what it separates is bounded by the number of messages in between.  The resize handler
  of the search cache takes the lock twice; the two sections are composed, because the
  ceiling it reads in the first is set at startup only.  All other recursions terminate by a
  measure.

  Not modelled.  Everything whose substance is input and output or SQL: the folder
  scans of a job, the content filter, the format policy and the phase timers of the continuous
  scan, decoding media into inputs, parsing tags and embeddings, the database layer, the PQL compiler apart from its count and window
  rules, media tools and the running of ffmpeg, the worker processes and their pipes, setup and
  updates, the desktop application, the user interface.  Health counters and logging are
  left out of the modelled parts, and so are the response side of the proxy and its upgrade
  bridge.  The items of an extraction job run one after the other in a given order (their
  counters commute); the permits that bound their concurrency are left out.  A write of the job
  history may fail at every place it is made; a write that fails has changed nothing, so a writer
  that commits and loses its reply is left out.  An item of a job that fails is stopped before or
  after one of its writes.  Some pairs of steps of the code are one step here: claiming a prewarmed
  worker and its ping, dropping a scanner's guard and the resume it sends, and the failure of a
  window of which some members were answered already.  The weights of
  inference servers are rational numbers, without the rounding of floating point.
\<close>

end
